(* ===== verification/Evd_Prelude.thy ===== *)
theory Evd_Prelude
  imports Main "HOL-Library.Word" "HOL-Library.Monad_Syntax"
begin

text \<open>
  Shared material of the EventDance development: the types every component uses (bytes,
  GIO error codes), the named theorem collections, generic list lemmas, and the interfaces
  (locales) that several components implement:

  \<^item> \<open>stream_decoder\<close>: a consumer of a byte stream that is fed chunk by chunk, whose
    outcome does not depend on how the stream is cut (the JSON filter, the WebSocket frame
    reader and the chunked-transfer decoder implement it);
  \<^item> \<open>invariant_machine\<close>: a state machine whose operations keep an invariant.

  Memory access of the C code that the model can see to be out of bounds, a call through a
  NULL function pointer and a failed \<open>g_assert\<close> are the value \<^term>\<open>None\<close> of an option type:
  a theorem that an operation returns \<open>Some\<close> is the theorem that the code does not
  run into them.
\<close>

section \<open>Types shared by the components\<close>

type_synonym byte = "8 word"

text \<open>The members of \<open>GIOErrorEnum\<close> that the modelled code sets or tests.\<close>

datatype gio_error =
    G_IO_ERROR_FAILED
  | G_IO_ERROR_NO_SPACE
  | G_IO_ERROR_INVALID_ARGUMENT
  | G_IO_ERROR_NOT_INITIALIZED
  | G_IO_ERROR_CLOSED
  | G_IO_ERROR_WOULD_BLOCK
  | G_IO_ERROR_INVALID_DATA
  | G_IO_ERROR_PENDING
  | G_IO_ERROR_BUSY
  | G_IO_ERROR_CONNECTION_REFUSED
  | G_IO_ERROR_OTHER

text \<open>The type of a message that peers exchange, from \<open>evd/evd-peer.h\<close>.\<close>

datatype EvdMessageType = EVD_MESSAGE_TYPE_BINARY | EVD_MESSAGE_TYPE_TEXT

named_theorems evd_eval \<open>definitions to evaluate an operation on a concrete state\<close>

text \<open>ASCII text as bytes.\<close>

definition ascii :: "string \<Rightarrow> byte list" where
  "ascii s = map (\<lambda>c. of_nat (of_char c)) s"

text \<open>A number as \<open>printf\<close> writes it with \<open>%u\<close> or \<open>%d\<close>.\<close>

definition decimal_char :: "nat \<Rightarrow> char" where
  "decimal_char k = char_of (48 + k)"

fun decimal_string :: "nat \<Rightarrow> string" where
  "decimal_string n =
     (if n < 10 then [decimal_char n] else decimal_string (n div 10) @ [decimal_char (n mod 10)])"

declare decimal_string.simps [simp del]

section \<open>Generic lemmas\<close>

lemma take_Suc_eq_append:
  "drop i xs = x # rest \<Longrightarrow> take (Suc i) xs = take i xs @ [x]"
  by (metis hd_drop_conv_nth length_drop length_greater_0_conv list.distinct(1) list.sel(1)
      take_Suc_conv_app_nth zero_less_diff)

lemma drop_Cons_Suc: "drop i xs = x # rest \<Longrightarrow> drop (Suc i) xs = rest"
  by (metis drop_Suc list.sel(3) tl_drop)

lemma drop_Cons_less: "drop i xs = x # rest \<Longrightarrow> i < length xs"
  by (metis drop_all leI list.distinct(1))

lemma drop_Cons_nth: "drop i xs = x # rest \<Longrightarrow> xs ! i = x"
  by (metis drop_Cons_less hd_drop_conv_nth list.sel(1))

section \<open>Interface: a decoder fed chunk by chunk\<close>

text \<open>
  A decoder reads a chunk in a state and gives the next state, or \<^term>\<open>None\<close> if the stream
  is malformed (the connection is given up), and the items it delivered to its client.
  \<open>feed_chunks\<close> feeds a list of chunks one after the other, stopping at the first error.
\<close>

primrec feed_chunks ::
  "('s \<Rightarrow> 'b list \<Rightarrow> 's option \<times> 'o list) \<Rightarrow> 's \<Rightarrow> 'b list list \<Rightarrow> 's option \<times> 'o list"
where
  "feed_chunks feed s [] = (Some s, [])"
| "feed_chunks feed s (c # cs) =
     (case feed s c of
        (None, out) \<Rightarrow> (None, out)
      | (Some s', out) \<Rightarrow> (case feed_chunks feed s' cs of (r, out') \<Rightarrow> (r, out @ out')))"

lemma feed_chunks_append:
  "feed_chunks feed s (cs @ ds) =
     (case feed_chunks feed s cs of
        (None, out) \<Rightarrow> (None, out)
      | (Some s', out) \<Rightarrow> (case feed_chunks feed s' ds of (r, out') \<Rightarrow> (r, out @ out')))"
  by (induction cs arbitrary: s) (auto split: option.splits prod.splits)

locale stream_decoder =
  fixes feed :: "'s \<Rightarrow> 'b list \<Rightarrow> 's option \<times> 'o list"
    and ready :: "'s \<Rightarrow> bool"
  assumes feed_empty: "ready s \<Longrightarrow> feed s [] = (Some s, [])"
    and feed_append: "ready s \<Longrightarrow> feed s (xs @ ys) =
      (case feed s xs of
         (None, out) \<Rightarrow> (None, out)
       | (Some s', out) \<Rightarrow> (case feed s' ys of (r, out') \<Rightarrow> (r, out @ out')))"
    and feed_ready: "ready s \<Longrightarrow> feed s xs = (Some s', out) \<Longrightarrow> ready s'"
begin

text \<open>Feeding chunks one by one is feeding their concatenation at once.\<close>

lemma feed_chunks_concat: "ready s \<Longrightarrow> feed_chunks feed s cs = feed s (concat cs)"
proof (induction cs arbitrary: s)
  case Nil
  then show ?case by (simp add: feed_empty)
next
  case (Cons c cs)
  show ?case
  proof (cases "feed s c")
    case (Pair r out)
    show ?thesis
    proof (cases r)
      case None
      with Pair Cons.prems show ?thesis by (simp add: feed_append)
    next
      case (Some s')
      with Pair Cons.prems have "ready s'" by (auto intro: feed_ready)
      with Cons.IH Pair Some Cons.prems show ?thesis by (simp add: feed_append)
    qed
  qed
qed

lemma feed_chunks_same_stream:
  assumes "ready s" and "concat cs = concat ds"
  shows "feed_chunks feed s cs = feed_chunks feed s ds"
  using assms by (simp add: feed_chunks_concat)

end

section \<open>Interface: a machine that keeps an invariant\<close>

text \<open>
  The operations of a component on its state, as a function that may be undefined
  (\<^term>\<open>None\<close>: an out-of-bounds access, a NULL call or a failed assertion), over a type of
  requests. \<open>run_ops\<close> performs a sequence of requests.
\<close>

primrec run_ops :: "('s \<Rightarrow> 'op \<Rightarrow> 's option) \<Rightarrow> 's \<Rightarrow> 'op list \<Rightarrow> 's option" where
  "run_ops step s [] = Some s"
| "run_ops step s (r # rs) = (case step s r of None \<Rightarrow> None | Some s' \<Rightarrow> run_ops step s' rs)"

locale invariant_machine =
  fixes step :: "'s \<Rightarrow> 'op \<Rightarrow> 's option"
    and inv :: "'s \<Rightarrow> bool"
    and allowed :: "'op \<Rightarrow> bool"
  assumes step_defined: "inv s \<Longrightarrow> allowed r \<Longrightarrow> \<exists>s'. step s r = Some s' \<and> inv s'"
begin

lemma run_ops_defined:
  "inv s \<Longrightarrow> list_all allowed rs \<Longrightarrow> \<exists>s'. run_ops step s rs = Some s' \<and> inv s'"
proof (induction rs arbitrary: s)
  case Nil
  then show ?case by simp
next
  case (Cons r rs)
  from Cons.prems step_defined [of s r] obtain s' where "step s r = Some s'" and "inv s'"
    by auto
  with Cons.IH [of s'] Cons.prems show ?case by simp
qed

end

section \<open>Interface: a machine whose users keep to its rules\<close>

text \<open>
  A machine that is defined on the operations that its state allows. \<open>steps_allowed\<close> says that a
  sequence of operations keeps to what is allowed, in each state that it comes to.
\<close>

primrec steps_allowed :: "('s \<Rightarrow> 'op \<Rightarrow> bool) \<Rightarrow> ('s \<Rightarrow> 'op \<Rightarrow> 's option) \<Rightarrow> 's \<Rightarrow> 'op list \<Rightarrow> bool" where
  "steps_allowed allowed step s [] = True"
| "steps_allowed allowed step s (r # rs) \<longleftrightarrow>
     allowed s r \<and> (case step s r of None \<Rightarrow> True | Some s' \<Rightarrow> steps_allowed allowed step s' rs)"

locale guarded_machine =
  fixes step :: "'s \<Rightarrow> 'op \<Rightarrow> 's option"
    and inv :: "'s \<Rightarrow> bool"
    and allowed :: "'s \<Rightarrow> 'op \<Rightarrow> bool"
  assumes allowed_step: "inv s \<Longrightarrow> allowed s r \<Longrightarrow> \<exists>s'. step s r = Some s' \<and> inv s'"
begin

lemma allowed_run:
  "inv s \<Longrightarrow> steps_allowed allowed step s rs \<Longrightarrow> \<exists>s'. run_ops step s rs = Some s' \<and> inv s'"
proof (induction rs arbitrary: s)
  case Nil
  then show ?case by simp
next
  case (Cons r rs)
  from Cons.prems allowed_step [of s r] obtain s' where "step s r = Some s'" and "inv s'"
    by auto
  with Cons.IH [of s'] Cons.prems show ?case by simp
qed

end

end
