(* ===== verification/Json_Filter.thy ===== *)
theory Json_Filter
  imports Evd_Prelude
begin

text \<open>
  The JSON packet filter of \<open>evd/evd-json-filter.c\<close>: a push-down automaton, driven by a
  transition table, that is fed a byte stream and hands each complete top-level JSON object
  or array to a packet handler. The enumerations and the two tables are the source's; the
  record \<open>json_filter\<close> is \<open>EvdJsonFilterPrivate\<close>; each C function is one definition.
  Indexing \<open>stack\<close> out of its \<open>MAX_DEPTH\<close> cells is \<^term>\<open>None\<close>.

  Not modelled: the packet handler cannot call back into the filter, and a buffer has fewer
  than \<open>2^31\<close> bytes (the code counts it with a \<open>gint\<close>).
\<close>

section \<open>Tables\<close>

datatype json_class =
    C_SPACE | C_WHITE | C_LCURB | C_RCURB | C_LSQRB | C_RSQRB | C_COLON | C_COMMA
  | C_QUOTE | C_BACKS | C_SLASH | C_PLUS | C_MINUS | C_POINT | C_ZERO | C_DIGIT
  | C_LOW_A | C_LOW_B | C_LOW_C | C_LOW_D | C_LOW_E | C_LOW_F | C_LOW_L | C_LOW_N
  | C_LOW_R | C_LOW_S | C_LOW_T | C_LOW_U | C_ABCDF | C_E | C_ETC

text \<open>The value of each class in the C enumeration: the column of the transition table.\<close>

fun class_code :: "json_class \<Rightarrow> nat" where
  "class_code C_SPACE = 0"
| "class_code C_WHITE = 1"
| "class_code C_LCURB = 2"
| "class_code C_RCURB = 3"
| "class_code C_LSQRB = 4"
| "class_code C_RSQRB = 5"
| "class_code C_COLON = 6"
| "class_code C_COMMA = 7"
| "class_code C_QUOTE = 8"
| "class_code C_BACKS = 9"
| "class_code C_SLASH = 10"
| "class_code C_PLUS = 11"
| "class_code C_MINUS = 12"
| "class_code C_POINT = 13"
| "class_code C_ZERO = 14"
| "class_code C_DIGIT = 15"
| "class_code C_LOW_A = 16"
| "class_code C_LOW_B = 17"
| "class_code C_LOW_C = 18"
| "class_code C_LOW_D = 19"
| "class_code C_LOW_E = 20"
| "class_code C_LOW_F = 21"
| "class_code C_LOW_L = 22"
| "class_code C_LOW_N = 23"
| "class_code C_LOW_R = 24"
| "class_code C_LOW_S = 25"
| "class_code C_LOW_T = 26"
| "class_code C_LOW_U = 27"
| "class_code C_ABCDF = 28"
| "class_code C_E = 29"
| "class_code C_ETC = 30"

text \<open>\<open>ascii_class\<close>: \<^term>\<open>None\<close> is the error code \<open>__\<close>.\<close>

definition ascii_class :: "json_class option list" where
  "ascii_class = [
     None, None, None, None,
     None, None, None, None,
     None, Some C_WHITE, Some C_WHITE, None,
     None, Some C_WHITE, None, None,
     None, None, None, None,
     None, None, None, None,
     None, None, None, None,
     None, None, None, None,
     Some C_SPACE, Some C_ETC, Some C_QUOTE, Some C_ETC,
     Some C_ETC, Some C_ETC, Some C_ETC, Some C_ETC,
     Some C_ETC, Some C_ETC, Some C_ETC, Some C_PLUS,
     Some C_COMMA, Some C_MINUS, Some C_POINT, Some C_SLASH,
     Some C_ZERO, Some C_DIGIT, Some C_DIGIT, Some C_DIGIT,
     Some C_DIGIT, Some C_DIGIT, Some C_DIGIT, Some C_DIGIT,
     Some C_DIGIT, Some C_DIGIT, Some C_COLON, Some C_ETC,
     Some C_ETC, Some C_ETC, Some C_ETC, Some C_ETC,
     Some C_ETC, Some C_ABCDF, Some C_ABCDF, Some C_ABCDF,
     Some C_ABCDF, Some C_E, Some C_ABCDF, Some C_ETC,
     Some C_ETC, Some C_ETC, Some C_ETC, Some C_ETC,
     Some C_ETC, Some C_ETC, Some C_ETC, Some C_ETC,
     Some C_ETC, Some C_ETC, Some C_ETC, Some C_ETC,
     Some C_ETC, Some C_ETC, Some C_ETC, Some C_ETC,
     Some C_ETC, Some C_ETC, Some C_ETC, Some C_LSQRB,
     Some C_BACKS, Some C_RSQRB, Some C_ETC, Some C_ETC,
     Some C_ETC, Some C_LOW_A, Some C_LOW_B, Some C_LOW_C,
     Some C_LOW_D, Some C_LOW_E, Some C_LOW_F, Some C_ETC,
     Some C_ETC, Some C_ETC, Some C_ETC, Some C_ETC,
     Some C_LOW_L, Some C_ETC, Some C_LOW_N, Some C_ETC,
     Some C_ETC, Some C_ETC, Some C_LOW_R, Some C_LOW_S,
     Some C_LOW_T, Some C_LOW_U, Some C_ETC, Some C_ETC,
     Some C_ETC, Some C_ETC, Some C_ETC, Some C_LCURB,
     Some C_ETC, Some C_RCURB, Some C_ETC, Some C_ETC]"

datatype json_state =
    GO | OK | OB | KE | CO | VA | AR | ST | ES | U1
  | U2 | U3 | U4 | MI | ZE | IN | FR | E1 | E2 | E3
  | T1 | T2 | T3 | F1 | F2 | F3 | F4 | N1 | N2 | N3

text \<open>
  An entry of the transition table: a state code (zero or more in C), or an action (a
  negative number; \<open>-1\<close> is the error code \<open>__\<close>).
\<close>

datatype json_entry = Goto json_state | Action int

abbreviation XX :: json_entry where "XX \<equiv> Action (-1)"

fun state_transition_table :: "json_state \<Rightarrow> json_entry list" where
  "state_transition_table GO =
      [Goto GO, Goto GO, Action (-6), XX, Action (-5), XX, XX, XX,
       XX, XX, XX, XX, XX, XX, XX, XX,
       XX, XX, XX, XX, XX, XX, XX, XX,
       XX, XX, XX, XX, XX, XX, XX]"
| "state_transition_table OK =
      [Goto OK, Goto OK, XX, Action (-8), XX, Action (-7), XX, Action (-3),
       XX, XX, XX, XX, XX, XX, XX, XX,
       XX, XX, XX, XX, XX, XX, XX, XX,
       XX, XX, XX, XX, XX, XX, XX]"
| "state_transition_table OB =
      [Goto OB, Goto OB, XX, Action (-9), XX, XX, XX, XX,
       Goto ST, XX, XX, XX, XX, XX, XX, XX,
       XX, XX, XX, XX, XX, XX, XX, XX,
       XX, XX, XX, XX, XX, XX, XX]"
| "state_transition_table KE =
      [Goto KE, Goto KE, XX, XX, XX, XX, XX, XX,
       Goto ST, XX, XX, XX, XX, XX, XX, XX,
       XX, XX, XX, XX, XX, XX, XX, XX,
       XX, XX, XX, XX, XX, XX, XX]"
| "state_transition_table CO =
      [Goto CO, Goto CO, XX, XX, XX, XX, Action (-2), XX,
       XX, XX, XX, XX, XX, XX, XX, XX,
       XX, XX, XX, XX, XX, XX, XX, XX,
       XX, XX, XX, XX, XX, XX, XX]"
| "state_transition_table VA =
      [Goto VA, Goto VA, Action (-6), XX, Action (-5), XX, XX, XX,
       Goto ST, XX, XX, XX, Goto MI, XX, Goto ZE, Goto IN,
       XX, XX, XX, XX, XX, Goto F1, XX, Goto N1,
       XX, XX, Goto T1, XX, XX, XX, XX]"
| "state_transition_table AR =
      [Goto AR, Goto AR, Action (-6), XX, Action (-5), Action (-7), XX, XX,
       Goto ST, XX, XX, XX, Goto MI, XX, Goto ZE, Goto IN,
       XX, XX, XX, XX, XX, Goto F1, XX, Goto N1,
       XX, XX, Goto T1, XX, XX, XX, XX]"
| "state_transition_table ST =
      [Goto ST, XX, Goto ST, Goto ST, Goto ST, Goto ST, Goto ST, Goto ST,
       Action (-4), Goto ES, Goto ST, Goto ST, Goto ST, Goto ST, Goto ST, Goto ST,
       Goto ST, Goto ST, Goto ST, Goto ST, Goto ST, Goto ST, Goto ST, Goto ST,
       Goto ST, Goto ST, Goto ST, Goto ST, Goto ST, Goto ST, Goto ST]"
| "state_transition_table ES =
      [XX, XX, XX, XX, XX, XX, XX, XX,
       Goto ST, Goto ST, Goto ST, XX, XX, XX, XX, XX,
       XX, Goto ST, XX, XX, XX, Goto ST, XX, Goto ST,
       Goto ST, XX, Goto ST, Goto U1, XX, XX, XX]"
| "state_transition_table U1 =
      [XX, XX, XX, XX, XX, XX, XX, XX,
       XX, XX, XX, XX, XX, XX, Goto U2, Goto U2,
       Goto U2, Goto U2, Goto U2, Goto U2, Goto U2, Goto U2, XX, XX,
       XX, XX, XX, XX, Goto U2, Goto U2, XX]"
| "state_transition_table U2 =
      [XX, XX, XX, XX, XX, XX, XX, XX,
       XX, XX, XX, XX, XX, XX, Goto U3, Goto U3,
       Goto U3, Goto U3, Goto U3, Goto U3, Goto U3, Goto U3, XX, XX,
       XX, XX, XX, XX, Goto U3, Goto U3, XX]"
| "state_transition_table U3 =
      [XX, XX, XX, XX, XX, XX, XX, XX,
       XX, XX, XX, XX, XX, XX, Goto U4, Goto U4,
       Goto U4, Goto U4, Goto U4, Goto U4, Goto U4, Goto U4, XX, XX,
       XX, XX, XX, XX, Goto U4, Goto U4, XX]"
| "state_transition_table U4 =
      [XX, XX, XX, XX, XX, XX, XX, XX,
       XX, XX, XX, XX, XX, XX, Goto ST, Goto ST,
       Goto ST, Goto ST, Goto ST, Goto ST, Goto ST, Goto ST, XX, XX,
       XX, XX, XX, XX, Goto ST, Goto ST, XX]"
| "state_transition_table MI =
      [XX, XX, XX, XX, XX, XX, XX, XX,
       XX, XX, XX, XX, XX, XX, Goto ZE, Goto IN,
       XX, XX, XX, XX, XX, XX, XX, XX,
       XX, XX, XX, XX, XX, XX, XX]"
| "state_transition_table ZE =
      [Goto OK, Goto OK, XX, Action (-8), XX, Action (-7), XX, Action (-3),
       XX, XX, XX, XX, XX, Goto FR, XX, XX,
       XX, XX, XX, XX, XX, XX, XX, XX,
       XX, XX, XX, XX, XX, XX, XX]"
| "state_transition_table IN =
      [Goto OK, Goto OK, XX, Action (-8), XX, Action (-7), XX, Action (-3),
       XX, XX, XX, XX, XX, Goto FR, Goto IN, Goto IN,
       XX, XX, XX, XX, Goto E1, XX, XX, XX,
       XX, XX, XX, XX, XX, Goto E1, XX]"
| "state_transition_table FR =
      [Goto OK, Goto OK, XX, Action (-8), XX, Action (-7), XX, Action (-3),
       XX, XX, XX, XX, XX, XX, Goto FR, Goto FR,
       XX, XX, XX, XX, Goto E1, XX, XX, XX,
       XX, XX, XX, XX, XX, Goto E1, XX]"
| "state_transition_table E1 =
      [XX, XX, XX, XX, XX, XX, XX, XX,
       XX, XX, XX, Goto E2, Goto E2, XX, Goto E3, Goto E3,
       XX, XX, XX, XX, XX, XX, XX, XX,
       XX, XX, XX, XX, XX, XX, XX]"
| "state_transition_table E2 =
      [XX, XX, XX, XX, XX, XX, XX, XX,
       XX, XX, XX, XX, XX, XX, Goto E3, Goto E3,
       XX, XX, XX, XX, XX, XX, XX, XX,
       XX, XX, XX, XX, XX, XX, XX]"
| "state_transition_table E3 =
      [Goto OK, Goto OK, XX, Action (-8), XX, Action (-7), XX, Action (-3),
       XX, XX, XX, XX, XX, XX, Goto E3, Goto E3,
       XX, XX, XX, XX, XX, XX, XX, XX,
       XX, XX, XX, XX, XX, XX, XX]"
| "state_transition_table T1 =
      [XX, XX, XX, XX, XX, XX, XX, XX,
       XX, XX, XX, XX, XX, XX, XX, XX,
       XX, XX, XX, XX, XX, XX, XX, XX,
       Goto T2, XX, XX, XX, XX, XX, XX]"
| "state_transition_table T2 =
      [XX, XX, XX, XX, XX, XX, XX, XX,
       XX, XX, XX, XX, XX, XX, XX, XX,
       XX, XX, XX, XX, XX, XX, XX, XX,
       XX, XX, XX, Goto T3, XX, XX, XX]"
| "state_transition_table T3 =
      [XX, XX, XX, XX, XX, XX, XX, XX,
       XX, XX, XX, XX, XX, XX, XX, XX,
       XX, XX, XX, XX, Goto OK, XX, XX, XX,
       XX, XX, XX, XX, XX, XX, XX]"
| "state_transition_table F1 =
      [XX, XX, XX, XX, XX, XX, XX, XX,
       XX, XX, XX, XX, XX, XX, XX, XX,
       Goto F2, XX, XX, XX, XX, XX, XX, XX,
       XX, XX, XX, XX, XX, XX, XX]"
| "state_transition_table F2 =
      [XX, XX, XX, XX, XX, XX, XX, XX,
       XX, XX, XX, XX, XX, XX, XX, XX,
       XX, XX, XX, XX, XX, XX, Goto F3, XX,
       XX, XX, XX, XX, XX, XX, XX]"
| "state_transition_table F3 =
      [XX, XX, XX, XX, XX, XX, XX, XX,
       XX, XX, XX, XX, XX, XX, XX, XX,
       XX, XX, XX, XX, XX, XX, XX, XX,
       XX, Goto F4, XX, XX, XX, XX, XX]"
| "state_transition_table F4 =
      [XX, XX, XX, XX, XX, XX, XX, XX,
       XX, XX, XX, XX, XX, XX, XX, XX,
       XX, XX, XX, XX, Goto OK, XX, XX, XX,
       XX, XX, XX, XX, XX, XX, XX]"
| "state_transition_table N1 =
      [XX, XX, XX, XX, XX, XX, XX, XX,
       XX, XX, XX, XX, XX, XX, XX, XX,
       XX, XX, XX, XX, XX, XX, XX, XX,
       XX, XX, XX, Goto N2, XX, XX, XX]"
| "state_transition_table N2 =
      [XX, XX, XX, XX, XX, XX, XX, XX,
       XX, XX, XX, XX, XX, XX, XX, XX,
       XX, XX, XX, XX, XX, XX, Goto N3, XX,
       XX, XX, XX, XX, XX, XX, XX]"
| "state_transition_table N3 =
      [XX, XX, XX, XX, XX, XX, XX, XX,
       XX, XX, XX, XX, XX, XX, XX, XX,
       XX, XX, XX, XX, XX, XX, Goto OK, XX,
       XX, XX, XX, XX, XX, XX, XX]"

datatype json_mode = MODE_ARRAY | MODE_DONE | MODE_KEY | MODE_OBJECT

section \<open>The filter and its operations\<close>

definition MAX_DEPTH :: int where "MAX_DEPTH = 128"

text \<open>
  The handler, its user data and the function that frees the user data are pointers: a
  number, or \<^term>\<open>None\<close> for NULL.
\<close>

record json_filter =
  jf_state :: json_state
  jf_depth :: int
  jf_top :: int
  jf_stack :: "json_mode list"
  jf_content_start :: int
  jf_cache :: "byte list"
  jf_packet_cb :: "nat option"
  jf_user_data :: "nat option"
  jf_user_data_free_func :: "nat option"

text \<open>\<open>self->priv->stack[self->priv->top]\<close>, read and written.\<close>

definition stack_get :: "json_filter \<Rightarrow> json_mode option" where
  "stack_get f =
     (if 0 \<le> jf_top f \<and> nat (jf_top f) < length (jf_stack f)
      then Some (jf_stack f ! nat (jf_top f)) else None)"

definition stack_set :: "json_filter \<Rightarrow> json_mode \<Rightarrow> json_filter option" where
  "stack_set f m =
     (if 0 \<le> jf_top f \<and> nat (jf_top f) < length (jf_stack f)
      then Some (f\<lparr>jf_stack := (jf_stack f)[nat (jf_top f) := m]\<rparr>) else None)"

definition evd_json_filter_push :: "json_filter \<Rightarrow> json_mode \<Rightarrow> (bool \<times> json_filter) option" where
  "evd_json_filter_push f0 mode =
     (let f = f0\<lparr>jf_top := jf_top f0 + 1\<rparr> in
      if jf_depth f \<le> jf_top f then Some (False, f)
      else do { f' \<leftarrow> stack_set f mode; Some (True, f') })"

definition evd_json_filter_pop :: "json_filter \<Rightarrow> json_mode \<Rightarrow> (bool \<times> json_filter) option" where
  "evd_json_filter_pop f mode =
     (if jf_top f < 0 then Some (False, f)
      else do {
        m \<leftarrow> stack_get f;
        if m \<noteq> mode then Some (False, f)
        else Some (True, f\<lparr>jf_top := jf_top f - 1\<rparr>)
      })"

definition evd_json_filter_reset :: "json_filter \<Rightarrow> json_filter option" where
  "evd_json_filter_reset f = do {
     (ok, f') \<leftarrow> evd_json_filter_push
       (f\<lparr>jf_state := GO, jf_depth := MAX_DEPTH, jf_top := -1, jf_content_start := -1\<rparr>)
       MODE_DONE;
     Some f'
   }"

definition evd_json_filter_error :: "json_filter \<Rightarrow> (bool \<times> json_filter) option" where
  "evd_json_filter_error f = do { f' \<leftarrow> evd_json_filter_reset f; Some (False, f') }"

definition evd_json_filter_init :: "json_filter option" where
  "evd_json_filter_init =
     evd_json_filter_reset
       \<lparr>jf_state = GO, jf_depth = 0, jf_top = 0, jf_stack = replicate (nat MAX_DEPTH) MODE_ARRAY,
        jf_content_start = 0, jf_cache = [], jf_packet_cb = None, jf_user_data = None,
        jf_user_data_free_func = None\<rparr>"

text \<open>
  The branches of the action switch: pop or push a mode and go to a state, or pop one mode
  and push another (the flips caused by a comma and by a colon), with
  \<open>evd_json_filter_error\<close> where the stack operation fails.
\<close>

definition pop_goto :: "json_filter \<Rightarrow> json_mode \<Rightarrow> json_state \<Rightarrow> (bool \<times> json_filter) option" where
  "pop_goto f m s = do {
     (ok, f') \<leftarrow> evd_json_filter_pop f m;
     if \<not> ok then evd_json_filter_error f' else Some (True, f'\<lparr>jf_state := s\<rparr>)
   }"

definition push_goto :: "json_filter \<Rightarrow> json_mode \<Rightarrow> json_state \<Rightarrow> (bool \<times> json_filter) option" where
  "push_goto f m s = do {
     (ok, f') \<leftarrow> evd_json_filter_push f m;
     if \<not> ok then evd_json_filter_error f' else Some (True, f'\<lparr>jf_state := s\<rparr>)
   }"

definition flip_goto ::
  "json_filter \<Rightarrow> json_mode \<Rightarrow> json_mode \<Rightarrow> json_state \<Rightarrow> (bool \<times> json_filter) option" where
  "flip_goto f m m' s = do {
     (ok, f') \<leftarrow> evd_json_filter_pop f m;
     if \<not> ok then evd_json_filter_error f' else push_goto f' m' s
   }"

definition json_action :: "json_filter \<Rightarrow> int \<Rightarrow> (bool \<times> json_filter) option" where
  "json_action f a =
     (if a = -9 then pop_goto f MODE_KEY OK
      else if a = -8 then pop_goto f MODE_OBJECT OK
      else if a = -7 then pop_goto f MODE_ARRAY OK
      else if a = -6 then push_goto f MODE_KEY OB
      else if a = -5 then push_goto f MODE_ARRAY AR
      else if a = -4 then do {
        m \<leftarrow> stack_get f;
        case m of
          MODE_KEY \<Rightarrow> Some (True, f\<lparr>jf_state := CO\<rparr>)
        | MODE_ARRAY \<Rightarrow> Some (True, f\<lparr>jf_state := OK\<rparr>)
        | MODE_OBJECT \<Rightarrow> Some (True, f\<lparr>jf_state := OK\<rparr>)
        | MODE_DONE \<Rightarrow> evd_json_filter_error f
      }
      else if a = -3 then do {
        m \<leftarrow> stack_get f;
        case m of
          MODE_OBJECT \<Rightarrow> flip_goto f MODE_OBJECT MODE_KEY KE
        | MODE_ARRAY \<Rightarrow> Some (True, f\<lparr>jf_state := VA\<rparr>)
        | MODE_KEY \<Rightarrow> evd_json_filter_error f
        | MODE_DONE \<Rightarrow> evd_json_filter_error f
      }
      else if a = -2 then flip_goto f MODE_KEY MODE_OBJECT VA
      else evd_json_filter_error f)"

text \<open>The character's class: \<^term>\<open>None\<close> where the code calls \<open>evd_json_filter_error\<close>.\<close>

definition next_class :: "int \<Rightarrow> json_class option" where
  "next_class next_char =
     (if next_char < 0 then None
      else if 128 \<le> next_char then Some C_ETC
      else ascii_class ! nat next_char)"

definition evd_json_filter_process :: "json_filter \<Rightarrow> int \<Rightarrow> nat \<Rightarrow> (bool \<times> json_filter) option" where
  "evd_json_filter_process f next_char offset =
     (case next_class next_char of
        None \<Rightarrow> evd_json_filter_error f
      | Some c \<Rightarrow>
          (case state_transition_table (jf_state f) ! class_code c of
             Goto s \<Rightarrow> Some (True, f\<lparr>jf_state := s\<rparr>)
           | Action a \<Rightarrow>
               json_action
                 (if jf_content_start f = -1 then f\<lparr>jf_content_start := int offset\<rparr> else f) a))"

text \<open>A call of the packet handler: the handler, its user data and the packet.\<close>

type_synonym json_delivery = "nat \<times> nat option \<times> byte list"

definition evd_json_filter_notify_packet :: "json_filter \<Rightarrow> byte list \<Rightarrow> json_delivery list" where
  "evd_json_filter_notify_packet f buffer =
     (case jf_packet_cb f of None \<Rightarrow> [] | Some cb \<Rightarrow> [(cb, jf_user_data f, buffer)])"

text \<open>
  The part of the loop of \<open>evd_json_filter_feed_len\<close> that runs after a character was
  accepted: deliver the packet if the mode stack is back at \<open>MODE_DONE\<close>.
\<close>

definition json_complete_packet ::
  "json_filter \<Rightarrow> byte list \<Rightarrow> nat \<Rightarrow> (json_filter \<times> json_delivery list) option" where
  "json_complete_packet f buffer i =
     (if jf_content_start f < 0 then Some (f, [])
      else do {
        m \<leftarrow> stack_get f;
        if m \<noteq> MODE_DONE then Some (f, [])
        else let (f', out) =
               (if 0 < length (jf_cache f)
                then (f\<lparr>jf_cache := []\<rparr>,
                      evd_json_filter_notify_packet f (jf_cache f @ take (i + 1) buffer))
                else (f, evd_json_filter_notify_packet f
                           (take (nat (int i - jf_content_start f + 1))
                                 (drop (nat (jf_content_start f)) buffer))))
             in do { f'' \<leftarrow> evd_json_filter_reset f'; Some (f'', out) }
      })"

text \<open>The outcome of a feed: accepted, or \<open>G_IO_ERROR_INVALID_DATA\<close> at an offset.\<close>

datatype json_result = FeedOk | FeedError gio_error nat

text \<open>
  \<open>(gint) buffer[i]\<close>: the byte as a C \<open>char\<close>, which is signed or unsigned depending on the
  platform (signed with GCC on x86).
\<close>

definition gchar_to_gint :: "bool \<Rightarrow> byte \<Rightarrow> int" where
  "gchar_to_gint char_signed c = (if char_signed then sint c else uint c)"

fun json_feed_loop ::
  "bool \<Rightarrow> json_filter \<Rightarrow> byte list \<Rightarrow> nat \<Rightarrow> byte list
     \<Rightarrow> (json_filter \<times> json_delivery list \<times> json_result) option"
where
  "json_feed_loop sg f buffer i [] = Some (f, [], FeedOk)"
| "json_feed_loop sg f buffer i (c # rest) = do {
     (ok, f1) \<leftarrow> evd_json_filter_process f (gchar_to_gint sg c) i;
     if \<not> ok then Some (f1, [], FeedError G_IO_ERROR_INVALID_DATA i)
     else do {
       (f2, out) \<leftarrow> json_complete_packet f1 buffer i;
       (f3, out', r) \<leftarrow> json_feed_loop sg f2 buffer (i + 1) rest;
       Some (f3, out @ out', r)
     }
   }"

text \<open>What is left of the last packet is appended to the cache.\<close>

definition json_cache_rest :: "json_filter \<Rightarrow> byte list \<Rightarrow> json_filter" where
  "json_cache_rest f buffer =
     (if 0 \<le> jf_content_start f
      then f\<lparr>jf_cache := jf_cache f @ drop (nat (jf_content_start f)) buffer,
             jf_content_start := 0\<rparr>
      else f)"

definition evd_json_filter_feed_len ::
  "bool \<Rightarrow> json_filter \<Rightarrow> byte list \<Rightarrow> (json_filter \<times> json_delivery list \<times> json_result) option"
where
  "evd_json_filter_feed_len sg f buffer = do {
     (f', out, r) \<leftarrow> json_feed_loop sg f buffer 0 buffer;
     case r of
       FeedError e i \<Rightarrow> Some (f', out, FeedError e i)
     | FeedOk \<Rightarrow> Some (json_cache_rest f' buffer, out, FeedOk)
   }"

text \<open>The NUL-terminated variant: \<open>strlen\<close> stops at the first zero byte.\<close>

definition evd_json_filter_feed ::
  "bool \<Rightarrow> json_filter \<Rightarrow> byte list \<Rightarrow> (json_filter \<times> json_delivery list \<times> json_result) option"
where
  "evd_json_filter_feed sg f buffer =
     evd_json_filter_feed_len sg f (takeWhile (\<lambda>c. c \<noteq> 0) buffer)"

text \<open>Setting a handler: the new filter and the user data freed, if any.\<close>

definition evd_json_filter_set_packet_handler ::
  "json_filter \<Rightarrow> nat option \<Rightarrow> nat option \<Rightarrow> nat option \<Rightarrow> json_filter \<times> (nat \<times> nat) list"
where
  "evd_json_filter_set_packet_handler f callback user_data free_func =
     (f\<lparr>jf_packet_cb := callback, jf_user_data := user_data,
        jf_user_data_free_func := free_func\<rparr>,
      case (jf_packet_cb f, jf_user_data f, jf_user_data_free_func f) of
        (Some _, Some d, Some ff) \<Rightarrow> [(ff, d)]
      | _ \<Rightarrow> [])"

text \<open>Finalizing frees the user data whatever the handler is.\<close>

definition evd_json_filter_finalize :: "json_filter \<Rightarrow> (nat \<times> nat) list" where
  "evd_json_filter_finalize f =
     (case (jf_user_data f, jf_user_data_free_func f) of
        (Some d, Some ff) \<Rightarrow> [(ff, d)]
      | _ \<Rightarrow> [])"

section \<open>Facts about the tables\<close>

definition all_states :: "json_state list" where
  "all_states = [GO, OK, OB, KE, CO, VA, AR, ST, ES, U1, U2, U3, U4, MI, ZE, IN, FR, E1, E2, E3,
     T1, T2, T3, F1, F2, F3, F4, N1, N2, N3]"

definition all_classes :: "json_class list" where
  "all_classes = [C_SPACE, C_WHITE, C_LCURB, C_RCURB, C_LSQRB, C_RSQRB, C_COLON, C_COMMA,
     C_QUOTE, C_BACKS, C_SLASH, C_PLUS, C_MINUS, C_POINT, C_ZERO, C_DIGIT, C_LOW_A, C_LOW_B,
     C_LOW_C, C_LOW_D, C_LOW_E, C_LOW_F, C_LOW_L, C_LOW_N, C_LOW_R, C_LOW_S, C_LOW_T, C_LOW_U,
     C_ABCDF, C_E, C_ETC]"

lemma all_states_complete: "s \<in> set all_states"
  by (cases s) (simp_all add: all_states_def)

lemma all_classes_complete: "c \<in> set all_classes"
  by (cases c) (simp_all add: all_classes_def)

text \<open>
  The start state is left only by an action (opening a packet) and is entered by no other
  state; the closing actions, the quote, comma and colon occur outside the start state only.
\<close>

fun entry_ok :: "json_state \<Rightarrow> json_entry \<Rightarrow> bool" where
  "entry_ok s (Goto s') = (s = GO \<longleftrightarrow> s' = GO)"
| "entry_ok s (Action a) = (s = GO \<longrightarrow> a \<in> {-6, -5, -1})"

lemma table_checked:
  "list_all (\<lambda>s. list_all (\<lambda>c. entry_ok s (state_transition_table s ! class_code c)) all_classes)
     all_states"
  by code_simp

lemma table_entry_ok: "entry_ok s (state_transition_table s ! class_code c)"
  using table_checked all_states_complete [of s] all_classes_complete [of c]
  by (auto simp: list_all_iff)

section \<open>The invariant: the stack is never indexed out of its cells\<close>

lemmas json_ops = stack_get_def stack_set_def evd_json_filter_push_def evd_json_filter_pop_def
  evd_json_filter_reset_def evd_json_filter_error_def pop_goto_def push_goto_def flip_goto_def
  MAX_DEPTH_def Let_def

text \<open>
  The invariant between two characters: the bottom of the stack is \<open>MODE_DONE\<close> and nothing
  else is; a packet is open (\<open>content_start\<close> is set) exactly outside the start state.
\<close>

definition jf_stack_ok :: "json_filter \<Rightarrow> bool" where
  "jf_stack_ok f \<longleftrightarrow>
     length (jf_stack f) = 128 \<and> jf_depth f = 128 \<and> 0 \<le> jf_top f \<and> jf_top f < 128 \<and>
     jf_stack f ! 0 = MODE_DONE \<and>
     (\<forall>k. 0 < k \<and> int k \<le> jf_top f \<longrightarrow> jf_stack f ! k \<noteq> MODE_DONE)"

definition jf_inv :: "json_filter \<Rightarrow> bool" where
  "jf_inv f \<longleftrightarrow>
     jf_stack_ok f \<and>
     (if jf_content_start f = -1 then jf_state f = GO \<and> jf_top f = 0
      else 0 \<le> jf_content_start f \<and> jf_state f \<noteq> GO \<and> 0 < jf_top f)"

text \<open>After a character was accepted the packet may be complete: then the stack is at its bottom.\<close>

definition jf_mid :: "json_filter \<Rightarrow> bool" where
  "jf_mid f \<longleftrightarrow>
     jf_stack_ok f \<and>
     (if jf_content_start f = -1 then jf_state f = GO \<and> jf_top f = 0
      else 0 \<le> jf_content_start f \<and> jf_state f \<noteq> GO)"

lemma reset_ok:
  assumes "length (jf_stack f) = 128"
  shows "evd_json_filter_reset f =
    Some (f\<lparr>jf_state := GO, jf_depth := 128, jf_top := 0, jf_content_start := -1,
            jf_stack := (jf_stack f)[0 := MODE_DONE]\<rparr>)"
  using assms by (simp add: json_ops)

lemma reset_inv:
  assumes "evd_json_filter_reset f = Some f'" and "length (jf_stack f) = 128"
  shows "jf_inv f' \<and> jf_content_start f' = -1"
  using assms by (auto simp: reset_ok jf_inv_def jf_stack_ok_def)

lemma init_inv: "\<exists>f. evd_json_filter_init = Some f \<and> jf_inv f"
  unfolding evd_json_filter_init_def
  by (subst reset_ok) (auto simp: MAX_DEPTH_def jf_inv_def jf_stack_ok_def)

lemma error_inv:
  assumes "length (jf_stack f) = 128"
  shows "\<exists>f'. evd_json_filter_error f = Some (False, f') \<and> jf_inv f'"
  using assms by (auto simp: evd_json_filter_error_def reset_ok jf_inv_def jf_stack_ok_def)

lemma push_ok:
  assumes "jf_stack_ok f" and "m \<noteq> MODE_DONE"
  shows "\<exists>f'. evd_json_filter_push f m = Some (jf_top f < 127, f') \<and> length (jf_stack f') = 128 \<and>
    (jf_top f < 127 \<longrightarrow> jf_stack_ok f' \<and> 0 < jf_top f') \<and>
    jf_content_start f' = jf_content_start f"
proof (cases "jf_top f < 127")
  case False
  with assms show ?thesis by (simp add: json_ops jf_stack_ok_def)
next
  case True
  let ?f = "f\<lparr>jf_top := jf_top f + 1, jf_stack := (jf_stack f)[nat (jf_top f + 1) := m]\<rparr>"
  from True assms have "evd_json_filter_push f m = Some (True, ?f)"
    by (simp add: json_ops jf_stack_ok_def)
  moreover from True assms have "jf_stack_ok ?f"
    by (auto simp: jf_stack_ok_def nth_list_update)
  moreover from assms have "0 \<le> jf_top f" "length (jf_stack f) = 128"
    by (simp_all add: jf_stack_ok_def)
  ultimately show ?thesis using True by simp
qed

lemma pop_ok:
  assumes "jf_stack_ok f"
  shows "evd_json_filter_pop f m =
    Some (if jf_stack f ! nat (jf_top f) = m then (True, f\<lparr>jf_top := jf_top f - 1\<rparr>) else (False, f))"
  using assms by (auto simp: json_ops jf_stack_ok_def)

lemma pop_stack_ok:
  assumes "jf_stack_ok f" and "jf_stack f ! nat (jf_top f) \<noteq> MODE_DONE"
  shows "0 < jf_top f \<and> jf_stack_ok (f\<lparr>jf_top := jf_top f - 1\<rparr>)"
proof -
  from assms have "0 \<le> jf_top f" "jf_stack f ! 0 = MODE_DONE"
    by (simp_all add: jf_stack_ok_def)
  with assms have "0 < jf_top f" by (cases "jf_top f = 0") auto
  with assms show ?thesis by (simp add: jf_stack_ok_def)
qed

lemma stack_get_ok: "jf_stack_ok f \<Longrightarrow> stack_get f = Some (jf_stack f ! nat (jf_top f))"
  by (auto simp: stack_get_def jf_stack_ok_def)

lemma stack_ok_length: "jf_stack_ok f \<Longrightarrow> length (jf_stack f) = 128"
  by (simp add: jf_stack_ok_def)

lemma stack_ok_frame [simp]:
  "jf_stack_ok (f\<lparr>jf_state := s\<rparr>) = jf_stack_ok f"
  "jf_stack_ok (f\<lparr>jf_content_start := n\<rparr>) = jf_stack_ok f"
  "jf_stack_ok (f\<lparr>jf_cache := b\<rparr>) = jf_stack_ok f"
  by (simp_all add: jf_stack_ok_def)

text \<open>An operation that returns: accepted in a state between characters, or reset.\<close>

definition step_ok :: "(bool \<times> json_filter) option \<Rightarrow> bool" where
  "step_ok r \<longleftrightarrow> (case r of None \<Rightarrow> False | Some (b, f) \<Rightarrow> if b then jf_mid f else jf_inv f)"

lemma error_step_ok: "length (jf_stack f) = 128 \<Longrightarrow> step_ok (evd_json_filter_error f)"
  using error_inv [of f] by (auto simp: step_ok_def)

lemma push_goto_ok:
  assumes "jf_stack_ok f" "0 \<le> jf_content_start f" "m \<noteq> MODE_DONE" "s \<noteq> GO"
  shows "step_ok (push_goto f m s)"
proof -
  from push_ok [OF assms(1,3)] obtain f' where
    f': "evd_json_filter_push f m = Some (jf_top f < 127, f')" "length (jf_stack f') = 128"
      "jf_top f < 127 \<longrightarrow> jf_stack_ok f' \<and> 0 < jf_top f'" "jf_content_start f' = jf_content_start f"
    by blast
  show ?thesis
  proof (cases "jf_top f < 127")
    case True
    with f' assms have "push_goto f m s = Some (True, f'\<lparr>jf_state := s\<rparr>)"
      by (simp add: push_goto_def)
    with True f' assms show ?thesis by (simp add: step_ok_def jf_mid_def)
  next
    case False
    with f' have "push_goto f m s = evd_json_filter_error f'"
      by (simp add: push_goto_def)
    with f' show ?thesis by (simp add: error_step_ok)
  qed
qed

lemma pop_goto_ok:
  assumes "jf_stack_ok f" "0 \<le> jf_content_start f" "m \<noteq> MODE_DONE" "s \<noteq> GO"
  shows "step_ok (pop_goto f m s)"
proof (cases "jf_stack f ! nat (jf_top f) = m")
  case True
  with assms pop_stack_ok [OF assms(1)] show ?thesis
    by (simp add: pop_goto_def pop_ok step_ok_def jf_mid_def)
next
  case False
  with assms show ?thesis
    by (simp add: pop_goto_def pop_ok error_step_ok stack_ok_length)
qed

lemma flip_goto_ok:
  assumes "jf_stack_ok f" "0 \<le> jf_content_start f" "m \<noteq> MODE_DONE" "m' \<noteq> MODE_DONE" "s \<noteq> GO"
  shows "step_ok (flip_goto f m m' s)"
proof (cases "jf_stack f ! nat (jf_top f) = m")
  case True
  with assms pop_stack_ok [OF assms(1)] show ?thesis
    by (simp add: flip_goto_def pop_ok push_goto_ok)
next
  case False
  with assms show ?thesis
    by (simp add: flip_goto_def pop_ok error_step_ok stack_ok_length)
qed

lemma action_ok:
  assumes "jf_stack_ok f" "0 \<le> jf_content_start f"
  shows "step_ok (json_action f a)"
proof -
  have mid: "step_ok (Some (True, f\<lparr>jf_state := s\<rparr>))" if "s \<noteq> GO" for s
    using assms that by (simp add: step_ok_def jf_mid_def)
  show ?thesis
    using assms
    by (auto simp: json_action_def pop_goto_ok push_goto_ok flip_goto_ok mid error_step_ok
        stack_ok_length stack_get_ok split: json_mode.split)
qed

lemma process_ok:
  assumes "jf_inv f"
  shows "step_ok (evd_json_filter_process f c i)"
proof (cases "next_class c")
  case None
  with assms show ?thesis
    by (simp add: evd_json_filter_process_def error_step_ok jf_inv_def stack_ok_length)
next
  case (Some k)
  let ?e = "state_transition_table (jf_state f) ! class_code k"
  have e: "entry_ok (jf_state f) ?e" by (rule table_entry_ok)
  show ?thesis
  proof (cases ?e)
    case (Goto s)
    with e assms Some show ?thesis
      by (auto simp: evd_json_filter_process_def step_ok_def jf_mid_def jf_inv_def)
  next
    case (Action a)
    with assms Some show ?thesis
      by (auto simp: evd_json_filter_process_def jf_inv_def intro!: action_ok split: if_splits)
  qed
qed

lemma complete_packet_ok:
  assumes "jf_mid f"
  shows "\<exists>f' out. json_complete_packet f buffer i = Some (f', out) \<and> jf_inv f'"
proof -
  from assms have st: "jf_stack_ok f" by (simp add: jf_mid_def)
  have r: "\<exists>f'. evd_json_filter_reset g = Some f' \<and> jf_inv f'" if "jf_stack g = jf_stack f" for g
    using that st reset_inv [of g] by (simp add: reset_ok stack_ok_length)
  show ?thesis
  proof (cases "jf_content_start f < 0 \<or> jf_stack f ! nat (jf_top f) \<noteq> MODE_DONE")
    case True
    with assms st have "jf_inv f"
      by (cases "jf_top f = 0") (auto simp: jf_mid_def jf_inv_def jf_stack_ok_def split: if_splits)
    with True st show ?thesis
      by (auto simp: json_complete_packet_def stack_get_ok)
  next
    case False
    with st r [of f] r [of "f\<lparr>jf_cache := []\<rparr>"] show ?thesis
      by (auto simp: json_complete_packet_def stack_get_ok)
  qed
qed

lemma feed_loop_ok:
  "jf_inv f \<Longrightarrow> \<exists>f' out r. json_feed_loop sg f buffer i rest = Some (f', out, r) \<and> jf_inv f'"
proof (induction rest arbitrary: f i)
  case Nil
  then show ?case by simp
next
  case (Cons c rest)
  from process_ok [OF Cons.prems, of "gchar_to_gint sg c" i] obtain b f1 where
    p: "evd_json_filter_process f (gchar_to_gint sg c) i = Some (b, f1)"
    and b: "if b then jf_mid f1 else jf_inv f1"
    by (auto simp: step_ok_def split: option.splits)
  show ?case
  proof (cases b)
    case False
    with p b show ?thesis by simp
  next
    case True
    with b complete_packet_ok [of f1 buffer i] obtain f2 out where
      c: "json_complete_packet f1 buffer i = Some (f2, out)" "jf_inv f2" by auto
    from Cons.IH [OF c(2), of "i + 1"] p c(1) True show ?thesis by auto
  qed
qed

lemma feed_len_ok:
  assumes "jf_inv f"
  shows "\<exists>f' out r. evd_json_filter_feed_len sg f buffer = Some (f', out, r) \<and> jf_inv f'"
proof -
  from feed_loop_ok [OF assms, of sg buffer 0 buffer] obtain f' out r where
    "json_feed_loop sg f buffer 0 buffer = Some (f', out, r)" "jf_inv f'" by blast
  then show ?thesis
    by (cases r) (auto simp: evd_json_filter_feed_len_def json_cache_rest_def jf_inv_def split: if_splits)
qed

section \<open>Cutting the stream\<close>

text \<open>
  The stack operations do not look at the content offset or the cache: changing both before
  an action is changing both after it (a rejected character resets the offset).
\<close>

definition reloc :: "int \<Rightarrow> byte list \<Rightarrow> bool \<times> json_filter \<Rightarrow> bool \<times> json_filter" where
  "reloc a b = (\<lambda>(ok, g). (ok, if ok then g\<lparr>jf_content_start := a, jf_cache := b\<rparr>
                                 else g\<lparr>jf_cache := b\<rparr>))"

lemma error_reloc:
  "evd_json_filter_error (f\<lparr>jf_content_start := a, jf_cache := b\<rparr>) =
     map_option (reloc a b) (evd_json_filter_error f)"
  by (simp add: json_ops reloc_def)

lemma push_goto_reloc:
  "push_goto (f\<lparr>jf_content_start := a, jf_cache := b\<rparr>) m s =
     map_option (reloc a b) (push_goto f m s)"
  by (simp add: json_ops reloc_def)

lemma pop_goto_reloc:
  "pop_goto (f\<lparr>jf_content_start := a, jf_cache := b\<rparr>) m s =
     map_option (reloc a b) (pop_goto f m s)"
  by (simp add: json_ops reloc_def)

lemma flip_goto_reloc:
  "flip_goto (f\<lparr>jf_content_start := a, jf_cache := b\<rparr>) m m' s =
     map_option (reloc a b) (flip_goto f m m' s)"
  by (simp add: json_ops reloc_def)

lemma stack_get_reloc: "stack_get (f\<lparr>jf_content_start := a, jf_cache := b\<rparr>) = stack_get f"
  by (simp add: stack_get_def)

lemmas goto_relocs = error_reloc push_goto_reloc pop_goto_reloc flip_goto_reloc stack_get_reloc

lemma bind_map_mode:
  "(\<And>m. h m = map_option g (k m)) \<Longrightarrow> Option.bind x h = map_option g (Option.bind x k)"
  by (cases x) auto

lemma action_reloc:
  "json_action (f\<lparr>jf_content_start := a, jf_cache := b\<rparr>) n =
     map_option (reloc a b) (json_action f n)"
  by (auto simp: json_action_def goto_relocs reloc_def
      intro!: bind_map_mode split: json_mode.split)

lemma action_keeps:
  assumes "json_action f n = Some (True, g)"
  shows "jf_content_start g = jf_content_start f \<and> jf_cache g = jf_cache f"
proof -
  have "json_action f n = map_option (reloc (jf_content_start f) (jf_cache f)) (json_action f n)"
    using action_reloc [of "jf_cache f" "jf_content_start f" f n] by simp
  with assms have "g = g\<lparr>jf_content_start := jf_content_start f, jf_cache := jf_cache f\<rparr>"
    by (simp add: reloc_def)
  then show ?thesis by (metis json_filter.select_convs(5,6) json_filter.surjective json_filter.update_convs(5,6))
qed

lemma process_keeps:
  assumes "evd_json_filter_process f x i = Some (True, g)"
  shows "jf_cache g = jf_cache f \<and>
    (jf_content_start g = jf_content_start f \<or> jf_content_start f = -1 \<and> jf_content_start g = int i)"
  using assms
  by (auto simp: evd_json_filter_process_def evd_json_filter_error_def Option.bind_eq_Some_conv
      dest: action_keeps split: option.splits json_entry.splits if_splits)

lemma process_reloc:
  assumes "jf_content_start f \<noteq> -1" "a \<noteq> -1"
  shows "evd_json_filter_process (f\<lparr>jf_content_start := a, jf_cache := b\<rparr>) x j =
    map_option (reloc a b) (evd_json_filter_process f x i)"
  using assms
  by (auto simp: evd_json_filter_process_def error_reloc action_reloc reloc_def
      split: option.split json_entry.split)

lemma process_offset:
  assumes "jf_content_start f = -1"
  shows "evd_json_filter_process f x j =
    map_option (\<lambda>(ok, g). (ok, if ok \<and> jf_content_start g \<noteq> -1
                                then g\<lparr>jf_content_start := int j\<rparr> else g))
      (evd_json_filter_process f x i)"
proof -
  have *: "json_action (f\<lparr>jf_content_start := int j\<rparr>) a =
      map_option (\<lambda>(ok, g). (ok, if ok \<and> jf_content_start g \<noteq> -1
                                  then g\<lparr>jf_content_start := int j\<rparr> else g))
        (json_action (f\<lparr>jf_content_start := int i\<rparr>) a)" for a
  proof -
    let ?fi = "f\<lparr>jf_content_start := int i\<rparr>"
    have "json_action (f\<lparr>jf_content_start := int j\<rparr>) a =
        map_option (reloc (int j) (jf_cache f)) (json_action ?fi a)"
      using action_reloc [of "jf_cache f" "int j" ?fi a] by simp
    moreover have "reloc (int j) (jf_cache f) r =
        (case r of (ok, g) \<Rightarrow> (ok, if ok \<and> jf_content_start g \<noteq> -1
                                  then g\<lparr>jf_content_start := int j\<rparr> else g))"
      if "json_action ?fi a = Some r" for r
    proof (cases r)
      case (Pair ok g)
      have "json_action ?fi a = map_option (reloc (int i) (jf_cache f)) (json_action ?fi a)"
        using action_reloc [of "jf_cache f" "int i" ?fi a] by simp
      with that have "reloc (int i) (jf_cache f) r = r" by simp
      with Pair show ?thesis
        by (cases g) (auto simp: reloc_def split: if_splits)
    qed
    ultimately show ?thesis
      by (cases "json_action ?fi a") auto
  qed
  from assms show ?thesis
    by (cases "evd_json_filter_reset f")
      (auto simp: evd_json_filter_process_def evd_json_filter_error_def * split: option.split json_entry.split)
qed

text \<open>
  A feed as a decoder step: the next filter, unless the data was rejected, and the packets.
\<close>

definition json_run :: "bool \<Rightarrow> json_filter \<Rightarrow> byte list \<Rightarrow> json_filter option \<times> json_delivery list" where
  "json_run sg f xs =
     (case evd_json_filter_feed_len sg f xs of
        None \<Rightarrow> (None, [])
      | Some (f', out, FeedOk) \<Rightarrow> (Some f', out)
      | Some (f', out, FeedError e i) \<Rightarrow> (None, out))"

text \<open>
  Between two feeds of a stream without errors, the cache holds the open packet. Inside a
  feed, \<open>normal f buffer i\<close> is the filter as if the buffer had ended before offset \<open>i\<close>.
\<close>

definition jf_ready :: "json_filter \<Rightarrow> bool" where
  "jf_ready f \<longleftrightarrow> jf_inv f \<and>
     (if jf_content_start f = -1 then jf_cache f = []
      else jf_content_start f = 0 \<and> jf_cache f \<noteq> [])"

definition jf_looping :: "json_filter \<Rightarrow> nat \<Rightarrow> bool" where
  "jf_looping f i \<longleftrightarrow> jf_inv f \<and>
     (if jf_content_start f = -1 then jf_cache f = []
      else if jf_cache f = [] then nat (jf_content_start f) < i
      else jf_content_start f = 0)"

definition normal :: "json_filter \<Rightarrow> byte list \<Rightarrow> nat \<Rightarrow> json_filter" where
  "normal f buffer i =
     (if jf_content_start f = -1 then f
      else f\<lparr>jf_content_start := 0,
             jf_cache := jf_cache f @
               take (i - nat (jf_content_start f)) (drop (nat (jf_content_start f)) buffer)\<rparr>)"

lemma looping_start: "jf_ready f \<Longrightarrow> jf_looping f 0 \<and> normal f buffer 0 = f"
  by (auto simp: jf_ready_def jf_looping_def normal_def split: if_splits)

lemma normal_ready:
  "jf_looping f i \<Longrightarrow> i \<le> length buffer \<Longrightarrow> jf_ready (normal f buffer i)"
  by (auto simp: jf_ready_def jf_looping_def normal_def jf_inv_def split: if_splits)

lemma normal_end:
  "jf_inv f \<Longrightarrow> json_cache_rest f buffer = normal f buffer (length buffer)"
  by (auto simp: json_cache_rest_def normal_def jf_inv_def split: if_splits)

lemma run_one_rejected:
  assumes "evd_json_filter_process f (gchar_to_gint sg c) i = Some (False, f1)"
  shows "json_run sg (normal f buffer i) [c] = (None, [])"
proof (cases "jf_content_start f = -1")
  case True
  with assms process_offset [OF True, of "gchar_to_gint sg c" 0 i] show ?thesis
    by (simp add: json_run_def evd_json_filter_feed_len_def normal_def)
next
  case False
  with assms process_reloc [OF False, of 0 _ "gchar_to_gint sg c" 0 i] show ?thesis
    by (simp add: json_run_def evd_json_filter_feed_len_def normal_def reloc_def)
qed

lemma run_one:
  assumes "evd_json_filter_process g (gchar_to_gint sg c) 0 = Some (True, g1)"
    and "json_complete_packet g1 [c] 0 = Some (g2, out)"
  shows "json_run sg g [c] = (Some (json_cache_rest g2 [c]), out)"
  using assms by (simp add: json_run_def evd_json_filter_feed_len_def)

lemma pending_Suc:
  assumes "drop i buffer = c # rest" "n \<le> i"
  shows "take (Suc i - n) (drop n buffer) = take (i - n) (drop n buffer) @ [c]"
proof -
  from assms have "drop (i - n) (drop n buffer) = c # rest" by simp
  then have "take (Suc (i - n)) (drop n buffer) = take (i - n) (drop n buffer) @ [c]"
    by (rule take_Suc_eq_append)
  with assms show ?thesis by (simp add: Suc_diff_le)
qed

lemma reset_forgets:
  "evd_json_filter_reset (f\<lparr>jf_content_start := a\<rparr>) = evd_json_filter_reset f"
  by (simp add: json_ops)

lemma reset_forgets':
  "evd_json_filter_reset (f\<lparr>jf_content_start := a, jf_cache := b\<rparr>) =
     evd_json_filter_reset (f\<lparr>jf_cache := b\<rparr>)"
  by (simp add: json_ops)

lemma complete_cached:
  assumes "jf_content_start g = 0" "jf_cache g \<noteq> []" "stack_get g = Some MODE_DONE"
  shows "json_complete_packet g [c] 0 =
    do { f \<leftarrow> evd_json_filter_reset (g\<lparr>jf_cache := []\<rparr>);
         Some (f, evd_json_filter_notify_packet g (jf_cache g @ [c])) }"
  using assms by (simp add: json_complete_packet_def)

lemma reset_cache:
  "evd_json_filter_reset f = Some f' \<Longrightarrow> jf_content_start f' = -1 \<and> jf_cache f' = jf_cache f"
  by (auto simp: json_ops split: if_splits)

lemma notify_frame [simp]:
  "evd_json_filter_notify_packet (f\<lparr>jf_content_start := a\<rparr>) = evd_json_filter_notify_packet f"
  "evd_json_filter_notify_packet (f\<lparr>jf_cache := b\<rparr>) = evd_json_filter_notify_packet f"
  by (simp_all add: evd_json_filter_notify_packet_def fun_eq_iff split: option.split)

text \<open>A packet that begins at the current character.\<close>

lemma run_one_first:
  assumes "jf_content_start f = -1" "jf_cache f = []" "drop i buffer = c # rest"
    and p: "evd_json_filter_process f (gchar_to_gint sg c) i = Some (True, f1)"
    and cp: "json_complete_packet f1 buffer i = Some (f2, out)"
  shows "json_run sg (normal f buffer i) [c] = (Some (normal f2 buffer (Suc i)), out)"
proof -
  from process_keeps [OF p] assms(1,2) have k: "jf_cache f1 = []"
    "jf_content_start f1 = -1 \<or> jf_content_start f1 = int i" by auto
  let ?g = "if jf_content_start f1 = -1 then f1 else f1\<lparr>jf_content_start := 0\<rparr>"
  have g: "evd_json_filter_process f (gchar_to_gint sg c) 0 = Some (True, ?g)"
    using process_offset [OF assms(1), of "gchar_to_gint sg c" 0 i] p by simp
  have n: "normal f buffer i = f" using assms(1) by (simp add: normal_def)
  have one: "take (Suc 0) (drop i buffer) = [c]" using assms(3) by simp
  show ?thesis
  proof (cases "jf_content_start f1 = -1")
    case True
    with cp have "f2 = f1" "out = []" by (simp_all add: json_complete_packet_def)
    with True g run_one [of f sg c f1 f1 "[]"] show ?thesis
      by (simp add: assms(1) json_complete_packet_def json_cache_rest_def normal_def)
  next
    case False
    with k have cs: "jf_content_start f1 = int i" by simp
    from cp cs obtain m where m: "stack_get f1 = Some m"
      by (auto simp: json_complete_packet_def Option.bind_eq_Some_conv)
    then have m': "stack_get ?g = Some m" by (auto simp: stack_get_def split: if_splits)
    show ?thesis
    proof (cases "m = MODE_DONE")
      case True
      with cp cs m k one have r: "evd_json_filter_reset f1 = Some f2"
        "out = evd_json_filter_notify_packet f1 [c]"
        by (auto simp: json_complete_packet_def Option.bind_eq_Some_conv)
      with True cs m' k False have "json_complete_packet ?g [c] 0 = Some (f2, out)"
        by (simp add: json_complete_packet_def reset_forgets)
      with g run_one [of f sg c ?g f2 out] reset_cache [OF r(1)] show ?thesis
        by (simp add: assms(1) json_cache_rest_def normal_def)
    next
      case mode: False
      with cp cs m have "f2 = f1" "out = []"
        by (simp_all add: json_complete_packet_def)
      moreover from mode m' False have "json_complete_packet ?g [c] 0 = Some (?g, [])"
        by (simp add: json_complete_packet_def)
      ultimately show ?thesis
        using g run_one [of f sg c ?g ?g "[]"] cs k False one
        by (simp add: assms(1) json_cache_rest_def normal_def)
    qed
  qed
qed

text \<open>A character inside a packet.\<close>

lemma run_one_inside:
  assumes cs: "0 \<le> jf_content_start f" "nat (jf_content_start f) \<le> i"
    and cache: "jf_cache f = [] \<longrightarrow> nat (jf_content_start f) < i"
      "jf_cache f \<noteq> [] \<longrightarrow> jf_content_start f = 0"
    and d: "drop i buffer = c # rest"
    and p: "evd_json_filter_process f (gchar_to_gint sg c) i = Some (True, f1)"
    and cp: "json_complete_packet f1 buffer i = Some (f2, out)"
  shows "json_run sg (normal f buffer i) [c] = (Some (normal f2 buffer (Suc i)), out)"
proof -
  let ?n = "nat (jf_content_start f)"
  let ?b = "jf_cache f @ take (i - ?n) (drop ?n buffer)"
  let ?g = "f1\<lparr>jf_content_start := 0, jf_cache := ?b\<rparr>"
  from cs have cs1: "jf_content_start f \<noteq> -1" by simp
  from process_keeps [OF p] cs have k: "jf_cache f1 = jf_cache f"
    "jf_content_start f1 = jf_content_start f" by auto
  have n: "normal f buffer i = f\<lparr>jf_content_start := 0, jf_cache := ?b\<rparr>"
    using cs by (simp add: normal_def)
  have g: "evd_json_filter_process (normal f buffer i) (gchar_to_gint sg c) 0 = Some (True, ?g)"
    using process_reloc [OF cs1, of 0 ?b "gchar_to_gint sg c" 0 i] p
    by (simp add: n reloc_def)
  have il: "i < length buffer" using d by (rule drop_Cons_less)
  have "?b \<noteq> []" using cache cs il by auto
  then have b': "jf_cache ?g \<noteq> []" by simp
  have snoc: "take (Suc i - ?n) (drop ?n buffer) = take (i - ?n) (drop ?n buffer) @ [c]"
    using pending_Suc [OF d cs(2)] .
  from cp k cs obtain m where m: "stack_get f1 = Some m"
    by (auto simp: json_complete_packet_def Option.bind_eq_Some_conv)
  then have m': "stack_get ?g = Some m" by (simp add: stack_get_reloc)
  show ?thesis
  proof (cases "m = MODE_DONE")
    case False
    with cp k cs m have f2: "f2 = f1" "out = []"
      by (simp_all add: json_complete_packet_def)
    from False m' have "json_complete_packet ?g [c] 0 = Some (?g, [])"
      by (simp add: json_complete_packet_def)
    with g run_one [of "normal f buffer i" sg c ?g ?g "[]"] f2 k cs1 show ?thesis
      by (simp add: json_cache_rest_def normal_def snoc)
  next
    case True
    have len: "nat (int i - jf_content_start f + 1) = Suc i - ?n" using cs by simp
    have "evd_json_filter_reset (f1\<lparr>jf_cache := []\<rparr>) = Some f2 \<and>
        out = evd_json_filter_notify_packet f1 (?b @ [c])"
    proof (cases "jf_cache f = []")
      case True
      moreover from True k have "evd_json_filter_reset (f1\<lparr>jf_cache := []\<rparr>) = evd_json_filter_reset f1"
        by (cases f1) simp
      ultimately show ?thesis
        using cp k cs m \<open>m = MODE_DONE\<close>
        by (auto simp: json_complete_packet_def Option.bind_eq_Some_conv len snoc)
    next
      case False
      then show ?thesis
        using cp k cs m \<open>m = MODE_DONE\<close> cache snoc
        by (auto simp: json_complete_packet_def Option.bind_eq_Some_conv)
    qed
    moreover have "json_complete_packet ?g [c] 0 =
        do { f'' \<leftarrow> evd_json_filter_reset (f1\<lparr>jf_cache := []\<rparr>);
             Some (f'', evd_json_filter_notify_packet f1 (?b @ [c])) }"
      using True m' complete_cached [OF _ b', of "c"] by (simp add: reset_forgets')
    ultimately have "json_complete_packet ?g [c] 0 = Some (f2, out)"
      "jf_content_start f2 = -1"
      by (auto dest: reset_cache)
    with g run_one [of "normal f buffer i" sg c ?g f2 out] show ?thesis
      by (simp add: json_cache_rest_def normal_def)
  qed
qed

lemma looping_step:
  assumes "jf_looping f i"
    and p: "evd_json_filter_process f x i = Some (True, f1)"
    and cp: "json_complete_packet f1 buffer i = Some (f2, out)"
  shows "jf_looping f2 (Suc i)"
proof -
  from assms have "jf_mid f1"
    using process_ok [of f x i] by (auto simp: jf_looping_def step_ok_def)
  with cp complete_packet_ok [of f1 buffer i] have inv: "jf_inv f2" by auto
  from process_keeps [OF p] have k: "jf_cache f1 = jf_cache f"
    "jf_content_start f1 = jf_content_start f \<or> jf_content_start f = -1 \<and> jf_content_start f1 = int i"
    by auto
  from cp consider "f2 = f1" | "jf_content_start f2 = -1" "jf_cache f2 = []"
    by (auto simp: json_complete_packet_def Option.bind_eq_Some_conv dest!: reset_cache
        split: if_splits)
  then show ?thesis
    using inv k assms(1) by cases (auto simp: jf_looping_def jf_inv_def split: if_splits)
qed

lemma run_one_accepted:
  assumes "jf_looping f i" "drop i buffer = c # rest"
    and p: "evd_json_filter_process f (gchar_to_gint sg c) i = Some (True, f1)"
    and cp: "json_complete_packet f1 buffer i = Some (f2, out)"
  shows "json_run sg (normal f buffer i) [c] = (Some (normal f2 buffer (Suc i)), out)"
proof (cases "jf_content_start f = -1")
  case True
  with assms(1) have "jf_cache f = []" by (simp add: jf_looping_def)
  from run_one_first [OF True this assms(2) p cp] show ?thesis .
next
  case False
  with assms(1) have "0 \<le> jf_content_start f" "nat (jf_content_start f) \<le> i"
    "jf_cache f = [] \<longrightarrow> nat (jf_content_start f) < i" "jf_cache f \<noteq> [] \<longrightarrow> jf_content_start f = 0"
    by (auto simp: jf_looping_def jf_inv_def split: if_splits)
  from run_one_inside [OF this assms(2) p cp] show ?thesis .
qed

text \<open>
  The reference for a feed: the bytes given one at a time.
\<close>

abbreviation feed_bytes :: "bool \<Rightarrow> json_filter \<Rightarrow> byte list \<Rightarrow> json_filter option \<times> json_delivery list" where
  "feed_bytes sg f xs \<equiv> feed_chunks (json_run sg) f (map (\<lambda>c. [c]) xs)"

lemma loop_feed_bytes:
  assumes "jf_looping f i" "drop i buffer = rest"
  shows "(case json_feed_loop sg f buffer i rest of
            None \<Rightarrow> (None, [])
          | Some (f', out, FeedOk) \<Rightarrow> (Some (json_cache_rest f' buffer), out)
          | Some (f', out, FeedError e j) \<Rightarrow> (None, out)) =
         feed_bytes sg (normal f buffer i) rest"
  using assms
proof (induction rest arbitrary: f i)
  case Nil
  then have "length buffer \<le> i" by simp
  then have "normal f buffer i = normal f buffer (length buffer)" by (simp add: normal_def)
  with Nil normal_end [of f buffer] show ?case by (simp add: jf_looping_def)
next
  case (Cons c rest)
  from Cons.prems process_ok [of f "gchar_to_gint sg c" i] obtain b f1 where
    p: "evd_json_filter_process f (gchar_to_gint sg c) i = Some (b, f1)"
    and b: "if b then jf_mid f1 else jf_inv f1"
    by (auto simp: step_ok_def jf_looping_def split: option.splits)
  show ?case
  proof (cases b)
    case False
    with p run_one_rejected [of f sg c i f1 buffer] show ?thesis by simp
  next
    case True
    with b complete_packet_ok [of f1 buffer i] obtain f2 out where
      cp: "json_complete_packet f1 buffer i = Some (f2, out)" by auto
    from True p have p': "evd_json_filter_process f (gchar_to_gint sg c) i = Some (True, f1)"
      by simp
    have d: "drop (Suc i) buffer = rest" using Cons.prems(2) by (rule drop_Cons_Suc)
    have l2: "jf_looping f2 (Suc i)" by (rule looping_step [OF Cons.prems(1) p' cp])
    then have "jf_inv f2" by (simp add: jf_looping_def)
    from feed_loop_ok [OF this, of sg buffer "Suc i" rest] obtain f3 out3 r3 where
      lp: "json_feed_loop sg f2 buffer (Suc i) rest = Some (f3, out3, r3)" by blast
    show ?thesis
      using Cons.IH [OF l2 d] run_one_accepted [OF Cons.prems p' cp] p' cp lp
      by (cases r3) (auto split: prod.splits)
  qed
qed

lemma json_run_bytes:
  assumes "jf_ready f"
  shows "json_run sg f xs = feed_bytes sg f xs"
proof -
  from looping_start [OF assms, of xs] have l: "jf_looping f 0" "normal f xs 0 = f" by auto
  from loop_feed_bytes [OF l(1), of xs xs sg] l(2) show ?thesis
    by (auto simp: json_run_def evd_json_filter_feed_len_def
        split: option.splits prod.splits json_result.splits)
qed

lemma json_run_ready:
  assumes "jf_ready f" "json_run sg f xs = (Some f', out)"
  shows "jf_ready f'"
proof -
  from assms(1) have inv: "jf_looping f 0" using looping_start by blast
  from inv feed_loop_ok [of f sg xs 0 xs] obtain g o1 r where
    lp: "json_feed_loop sg f xs 0 xs = Some (g, o1, r)" by (auto simp: jf_looping_def)
  with assms(2) have g: "json_feed_loop sg f xs 0 xs = Some (g, out, FeedOk)"
    "f' = json_cache_rest g xs"
    by (cases r; simp add: json_run_def evd_json_filter_feed_len_def)+
  have "jf_looping g (i + length rest)"
    if "jf_looping h i" "json_feed_loop sg h xs i rest = Some (g, out', FeedOk)" for h i rest out'
    using that
  proof (induction rest arbitrary: h i out')
    case (Cons c rest)
    then show ?case
      by (fastforce simp: Option.bind_eq_Some_conv dest: looping_step split: if_splits)
  qed simp
  from this [OF inv g(1)] have "jf_looping g (length xs)" by simp
  with g(2) normal_ready [of g "length xs" xs] normal_end [of g xs] show ?thesis
    by (simp add: jf_looping_def)
qed

interpretation json: stream_decoder "json_run sg" jf_ready
proof
  show "json_run sg f [] = (Some f, [])" if "jf_ready f" for f
    using json_run_bytes [OF that, of sg "[]"] by simp
  show "json_run sg f (xs @ ys) =
      (case json_run sg f xs of
         (None, out) \<Rightarrow> (None, out)
       | (Some f', out) \<Rightarrow> (case json_run sg f' ys of (r, out') \<Rightarrow> (r, out @ out')))"
    if "jf_ready f" for f xs ys
    using json_run_ready [OF that, of sg xs]
    by (auto simp: json_run_bytes that feed_chunks_append split: option.splits prod.splits)
  show "jf_ready f'" if "jf_ready f" "json_run sg f xs = (Some f', out)" for f xs f' out
    using that by (rule json_run_ready)
qed

section \<open>Operations in sequence\<close>

datatype json_op =
    FeedLen "byte list"
  | Feed "byte list"
  | Reset
  | SetPacketHandler "nat option" "nat option" "nat option"

fun json_op_step :: "bool \<Rightarrow> json_filter \<Rightarrow> json_op \<Rightarrow> json_filter option" where
  "json_op_step sg f (FeedLen b) = map_option fst (evd_json_filter_feed_len sg f b)"
| "json_op_step sg f (Feed b) = map_option fst (evd_json_filter_feed sg f b)"
| "json_op_step sg f Reset = evd_json_filter_reset f"
| "json_op_step sg f (SetPacketHandler cb d ff) =
     Some (fst (evd_json_filter_set_packet_handler f cb d ff))"

lemma handler_inv: "jf_inv (fst (evd_json_filter_set_packet_handler f cb d ff)) = jf_inv f"
  by (simp add: evd_json_filter_set_packet_handler_def jf_inv_def jf_stack_ok_def)

interpretation json_ops: invariant_machine "json_op_step sg" jf_inv "\<lambda>_. True"
proof
  fix f r assume "jf_inv f"
  then have "length (jf_stack f) = 128" by (simp add: jf_inv_def stack_ok_length)
  then obtain g where "evd_json_filter_reset f = Some g" "jf_inv g"
    using reset_ok [of f] reset_inv [of f] by auto
  with \<open>jf_inv f\<close> feed_len_ok [of f sg] show "\<exists>s'. json_op_step sg f r = Some s' \<and> jf_inv s'"
    by (cases r) (force simp: evd_json_filter_feed_def handler_inv)+
qed

section \<open>A new filter\<close>

text \<open>The filter \<open>evd_json_filter_new\<close> returns, with a packet handler set.\<close>

definition idle_filter :: "nat option \<Rightarrow> nat option \<Rightarrow> nat option \<Rightarrow> json_filter" where
  "idle_filter cb d ff =
     \<lparr>jf_state = GO, jf_depth = 128, jf_top = 0,
      jf_stack = MODE_DONE # replicate 127 MODE_ARRAY, jf_content_start = -1, jf_cache = [],
      jf_packet_cb = cb, jf_user_data = d, jf_user_data_free_func = ff\<rparr>"

lemma init_idle: "evd_json_filter_init = Some (idle_filter None None None)"
proof -
  have "replicate 128 MODE_ARRAY = MODE_ARRAY # replicate 127 MODE_ARRAY"
    by (simp add: numeral_eq_Suc)
  then show ?thesis
    unfolding evd_json_filter_init_def idle_filter_def
    by (subst reset_ok) (simp_all add: MAX_DEPTH_def)
qed

lemma set_handler_idle:
  "fst (evd_json_filter_set_packet_handler (idle_filter a b c) cb d ff) = idle_filter cb d ff"
  by (simp add: evd_json_filter_set_packet_handler_def idle_filter_def)

lemma idle_ready: "jf_ready (idle_filter cb d ff)"
  by (auto simp: idle_filter_def jf_ready_def jf_inv_def jf_stack_ok_def)

text \<open>
  Feeding buffers one after the other, up to the first that is rejected: the filter then, the packets
  delivered, and whether all buffers have been accepted. (\<^term>\<open>None\<close> would be an access out of bounds.)
\<close>

fun json_feeds :: "bool \<Rightarrow> json_filter \<Rightarrow> byte list list \<Rightarrow> (json_filter \<times> json_delivery list \<times> bool) option" where
  "json_feeds sg f [] = Some (f, [], True)"
| "json_feeds sg f (b # bs) =
     (case evd_json_filter_feed_len sg f b of
        None \<Rightarrow> None
      | Some (f, out, FeedError e i) \<Rightarrow> Some (f, out, False)
      | Some (f, out, FeedOk) \<Rightarrow> map_option (\<lambda>(f, out', ok). (f, out @ out', ok)) (json_feeds sg f bs))"

lemma json_feeds_run:
  assumes "jf_ready f"
  shows "\<exists>f' out ok. json_feeds sg f bs = Some (f', out, ok) \<and> (ok \<longrightarrow> jf_ready f') \<and>
    feed_chunks (json_run sg) f bs = (if ok then Some f' else None, out)"
  using assms
proof (induction bs arbitrary: f)
  case (Cons b bs)
  have "jf_inv f" using Cons.prems by (simp add: jf_ready_def)
  from feed_len_ok [OF this, of sg b] obtain f1 out1 r where r: "evd_json_filter_feed_len sg f b = Some (f1, out1, r)" by blast
  show ?case
  proof (cases r)
    case FeedOk
    then have run: "json_run sg f b = (Some f1, out1)" using r by (simp add: json_run_def)
    from Cons.IH [OF json_run_ready [OF Cons.prems run]] obtain f' out ok where
      "json_feeds sg f1 bs = Some (f', out, ok)" "ok \<longrightarrow> jf_ready f'" "feed_chunks (json_run sg) f1 bs = (if ok then Some f' else None, out)" by blast
    then show ?thesis using r FeedOk run by (intro exI [of _ f'] exI [of _ "out1 @ out"] exI [of _ ok]) simp
  next
    case (FeedError e i)
    then show ?thesis using r by (intro exI [of _ f1] exI [of _ out1] exI [of _ False]) (simp add: json_run_def)
  qed
qed auto

section \<open>Properties\<close>

text \<open>
  C3. Memory safety of the filter. From \<open>evd_json_filter_new\<close>, whatever sequence of feeds (of
  any bytes), resets and handler changes follows, no operation indexes the mode stack out of
  its \<open>MAX_DEPTH\<close> cells: every operation returns, in a state that satisfies the invariant.
\<close>

theorem json_filter_memory_safe:
  "\<exists>f f'. evd_json_filter_init = Some f \<and> run_ops (json_op_step sg) f ops = Some f' \<and> jf_inv f'"
proof -
  obtain f where f: "evd_json_filter_init = Some f" "jf_inv f" using init_inv by blast
  from json_ops.run_ops_defined [OF f(2), of ops sg] obtain f' where
    "run_ops (json_op_step sg) f ops = Some f'" "jf_inv f'" by (auto simp: list_all_iff)
  with f show ?thesis by blast
qed

text \<open>
  C38. The chunking of the stream is irrelevant. Take a filter that has accepted any buffers so far, in the
  middle of a text or not, and cut the bytes that follow into buffers in two ways: the filter delivers
  the same packets, rejects both or none, and is left in the same state if it accepts them. (The state
  after a rejection does depend on the buffers: see \<open>json_rejected_bytes_leak\<close>.)
\<close>

theorem json_chunking_irrelevant:
  assumes "json_feeds sg (idle_filter cb d ff) bs = Some (f, before, True)" and "concat cs = concat ds"
  shows "\<exists>fc fd out ok. json_feeds sg f cs = Some (fc, out, ok) \<and> json_feeds sg f ds = Some (fd, out, ok) \<and> (ok \<longrightarrow> fc = fd)"
proof -
  have f: "jf_ready f" using json_feeds_run [OF idle_ready, of sg cb d ff bs] assms(1) by auto
  have "feed_chunks (json_run sg) f cs = feed_chunks (json_run sg) f ds" by (rule json.feed_chunks_same_stream [OF f assms(2)])
  moreover obtain fc outc okc where "json_feeds sg f cs = Some (fc, outc, okc)" "feed_chunks (json_run sg) f cs = (if okc then Some fc else None, outc)"
    using json_feeds_run [OF f, of sg cs] by blast
  moreover obtain fd outd okd where "json_feeds sg f ds = Some (fd, outd, okd)" "feed_chunks (json_run sg) f ds = (if okd then Some fd else None, outd)"
    using json_feeds_run [OF f, of sg ds] by blast
  ultimately show ?thesis by (auto split: if_splits)
qed

theorem json_chunking_irrelevant_witness:
  "\<exists>f fc fd out ok. json_feeds True (idle_filter (Some 1) None None) [ascii ''[1''] = Some (f, [], True) \<and>
     json_feeds True f [ascii '',2]{''] = Some (fc, out, ok) \<and>
     json_feeds True f [ascii '','', ascii ''2]'', ascii ''{''] = Some (fd, out, ok) \<and> out = [(1, None, ascii ''[1,2]'')] \<and> fc = fd"
proof -
  let ?f = "fst (the (json_feeds True (idle_filter (Some 1) None None) [ascii ''[1'']))"
  have f: "json_feeds True (idle_filter (Some 1) None None) [ascii ''[1''] = Some (?f, [], True)" by code_simp
  have c: "concat [ascii '',2]{''] = concat [ascii '','', ascii ''2]'', ascii ''{'']" by code_simp
  have o: "map_option snd (json_feeds True ?f [ascii '',2]{'']) = Some ([(1, None, ascii ''[1,2]'')], True)" by code_simp
  obtain fc fd out ok where r: "json_feeds True ?f [ascii '',2]{''] = Some (fc, out, ok)"
      "json_feeds True ?f [ascii '','', ascii ''2]'', ascii ''{''] = Some (fd, out, ok)" "ok \<longrightarrow> fc = fd"
    using json_chunking_irrelevant [OF f c] by blast
  have "out = [(1, None, ascii ''[1,2]'')]" "ok" using o unfolding r(1) by simp_all
  with f r show ?thesis by blast
qed

text \<open>
  Bytes of a rejected packet leak into the next one. A rejected feed resets the automaton
  but not the cache: after the buffers \<open>[1,\<close> (accepted) and \<open>x\<close> (rejected), the valid buffer
  \<open>[2]\<close> is delivered to the handler as \<open>[1,[2]\<close>.
\<close>

theorem json_rejected_bytes_leak:
  "(do { (f1, out1, r1) \<leftarrow> evd_json_filter_feed_len True (idle_filter (Some 1) None None) (ascii ''[1,'');
         (f2, out2, r2) \<leftarrow> evd_json_filter_feed_len True f1 (ascii ''x'');
         (f3, out3, r3) \<leftarrow> evd_json_filter_feed_len True f2 (ascii ''[2]'');
         Some (out1, r1, out2, r2, out3, r3) }) =
   Some ([], FeedOk, [], FeedError G_IO_ERROR_INVALID_DATA 0,
         [(1, None, ascii ''[1,[2]'')], FeedOk)"
  by code_simp

end
