(* ===== verification/Json_Grammar.thy ===== *)
theory Json_Grammar
  imports Json_Filter
begin

text \<open>
  What the JSON filter accepts: the array-based automaton of \<open>Json_Filter\<close> is refined to an
  abstract push-down automaton over a list of modes, the grammar of JSON texts is defined, as far
  as the code accepts it, and every stream of its arrays and objects, cut into chunks in any way,
  is delivered packet by packet.
\<close>

section \<open>The automaton without its representation\<close>

text \<open>
  The abstract automaton: a state and the list of open modes, the innermost first (without
  the \<open>MODE_DONE\<close> at the bottom). \<open>jf_modes\<close> reads the list off the stack array.
\<close>

definition jf_modes :: "json_filter \<Rightarrow> json_mode list" where
  "jf_modes f = rev (take (nat (jf_top f)) (tl (jf_stack f)))"

fun pop_mode :: "json_mode \<Rightarrow> json_mode list \<Rightarrow> json_mode list option" where
  "pop_mode m [] = None"
| "pop_mode m (m' # ms) = (if m' = m then Some ms else None)"

definition push_mode :: "json_mode \<Rightarrow> json_mode list \<Rightarrow> json_mode list option" where
  "push_mode m ms = (if length ms < 127 then Some (m # ms) else None)"

definition abs_action :: "json_mode list \<Rightarrow> int \<Rightarrow> (json_state \<times> json_mode list) option" where
  "abs_action ms a =
     (if a = -9 then map_option (Pair OK) (pop_mode MODE_KEY ms)
      else if a = -8 then map_option (Pair OK) (pop_mode MODE_OBJECT ms)
      else if a = -7 then map_option (Pair OK) (pop_mode MODE_ARRAY ms)
      else if a = -6 then map_option (Pair OB) (push_mode MODE_KEY ms)
      else if a = -5 then map_option (Pair AR) (push_mode MODE_ARRAY ms)
      else if a = -4 then
        (case ms of
           MODE_KEY # _ \<Rightarrow> Some (CO, ms)
         | MODE_ARRAY # _ \<Rightarrow> Some (OK, ms)
         | MODE_OBJECT # _ \<Rightarrow> Some (OK, ms)
         | _ \<Rightarrow> None)
      else if a = -3 then
        (case ms of
           MODE_OBJECT # ms' \<Rightarrow> Some (KE, MODE_KEY # ms')
         | MODE_ARRAY # _ \<Rightarrow> Some (VA, ms)
         | _ \<Rightarrow> None)
      else if a = -2 then
        (case ms of MODE_KEY # ms' \<Rightarrow> Some (VA, MODE_OBJECT # ms') | _ \<Rightarrow> None)
      else None)"

definition abs_step :: "json_state \<times> json_mode list \<Rightarrow> int \<Rightarrow> (json_state \<times> json_mode list) option" where
  "abs_step q x =
     (case next_class x of
        None \<Rightarrow> None
      | Some c \<Rightarrow>
          (case state_transition_table (fst q) ! class_code c of
             Goto s \<Rightarrow> Some (s, snd q)
           | Action a \<Rightarrow> abs_action (snd q) a))"

lemma modes_frame [simp]:
  "jf_modes (f\<lparr>jf_state := s\<rparr>) = jf_modes f"
  "jf_modes (f\<lparr>jf_content_start := n\<rparr>) = jf_modes f"
  "jf_modes (f\<lparr>jf_cache := b\<rparr>) = jf_modes f"
  by (simp_all add: jf_modes_def)

lemma length_modes: "jf_stack_ok f \<Longrightarrow> length (jf_modes f) = nat (jf_top f)"
  by (auto simp: jf_modes_def jf_stack_ok_def)

lemma modes_empty: "jf_stack_ok f \<Longrightarrow> jf_modes f = [] \<longleftrightarrow> jf_top f = 0"
  using length_modes [of f] by (auto simp: jf_stack_ok_def)

lemma modes_cases:
  assumes "jf_stack_ok f"
  obtains "jf_top f = 0" "jf_modes f = []" "stack_get f = Some MODE_DONE"
  | m ms where "0 < jf_top f" "jf_modes f = m # ms" "stack_get f = Some m" "m \<noteq> MODE_DONE"
      "jf_modes (f\<lparr>jf_top := jf_top f - 1\<rparr>) = ms"
proof (cases "jf_top f = 0")
  case True
  with assms have "stack_get f = Some MODE_DONE"
    by (simp add: stack_get_def jf_stack_ok_def)
  with True assms that(1) show ?thesis by (simp add: modes_empty)
next
  case False
  with assms have top: "0 < jf_top f" "jf_top f < 128" by (simp_all add: jf_stack_ok_def)
  define k where "k = nat (jf_top f) - 1"
  from top have k: "nat (jf_top f) = Suc k" "nat (jf_top f - 1) = k" "Suc k < 128"
    "int (Suc k) \<le> jf_top f"
    by (simp_all add: k_def)
  from assms have len: "length (jf_stack f) = 128" by (rule stack_ok_length)
  with k have "jf_modes f = jf_stack f ! Suc k # rev (take k (tl (jf_stack f)))"
    by (simp add: jf_modes_def take_Suc_conv_app_nth nth_tl)
  moreover have "stack_get f = Some (jf_stack f ! Suc k)"
    using assms k by (simp add: stack_get_ok)
  moreover have "jf_stack f ! Suc k \<noteq> MODE_DONE"
    using assms k by (simp add: jf_stack_ok_def)
  moreover have "jf_modes (f\<lparr>jf_top := jf_top f - 1\<rparr>) = rev (take k (tl (jf_stack f)))"
    using k by (simp add: jf_modes_def)
  ultimately show ?thesis using that(2) top by simp
qed

lemma push_modes:
  assumes "jf_stack_ok f" "m \<noteq> MODE_DONE"
  shows "case push_mode m (jf_modes f) of
     None \<Rightarrow> \<exists>f'. evd_json_filter_push f m = Some (False, f')
   | Some ms \<Rightarrow> \<exists>f'. evd_json_filter_push f m = Some (True, f') \<and> jf_modes f' = ms"
proof (cases "jf_top f < 127")
  case False
  with assms show ?thesis
    using push_ok [OF assms] by (auto simp: push_mode_def length_modes)
next
  case True
  let ?n = "nat (jf_top f)"
  let ?f = "f\<lparr>jf_top := jf_top f + 1, jf_stack := (jf_stack f)[nat (jf_top f + 1) := m]\<rparr>"
  from True assms have p: "evd_json_filter_push f m = Some (True, ?f)"
    by (simp add: json_ops jf_stack_ok_def)
  from assms have n: "nat (jf_top f + 1) = Suc ?n" "Suc ?n < 128"
    using True by (auto simp: jf_stack_ok_def)
  obtain d st where st: "jf_stack f = d # st" "length st = 127"
    using stack_ok_length [OF assms(1)] by (cases "jf_stack f") auto
  with n have "jf_modes ?f = m # jf_modes f"
    by (simp add: jf_modes_def take_Suc_conv_app_nth)
  with p True assms show ?thesis
    by (simp add: push_mode_def length_modes)
qed

lemma error_rejects: "jf_stack_ok f \<Longrightarrow> \<exists>g. evd_json_filter_error f = Some (False, g)"
  using error_inv [of f] stack_ok_length [of f] by auto

text \<open>
  \<open>refines r q\<close>: the concrete outcome \<open>r\<close> is that of the abstract one \<open>q\<close>.
\<close>

definition refines :: "(bool \<times> json_filter) option \<Rightarrow> (json_state \<times> json_mode list) option \<Rightarrow> bool" where
  "refines r q \<longleftrightarrow>
     (case q of
        None \<Rightarrow> (\<exists>g. r = Some (False, g))
      | Some (s, ms) \<Rightarrow> (\<exists>g. r = Some (True, g) \<and> jf_state g = s \<and> jf_modes g = ms))"

lemma push_goto_refines:
  assumes "jf_stack_ok f" "m \<noteq> MODE_DONE"
  shows "refines (push_goto f m s) (map_option (Pair s) (push_mode m (jf_modes f)))"
proof (cases "push_mode m (jf_modes f)")
  case None
  with push_ok [OF assms] push_modes [OF assms] obtain f' where
    "evd_json_filter_push f m = Some (False, f')" "length (jf_stack f') = 128"
    by auto
  with None error_inv [of f'] show ?thesis
    by (auto simp: refines_def push_goto_def)
next
  case (Some ms)
  with push_modes [OF assms] show ?thesis
    by (auto simp: refines_def push_goto_def)
qed

lemma pop_goto_refines:
  assumes "jf_stack_ok f" "m \<noteq> MODE_DONE"
  shows "refines (pop_goto f m s) (map_option (Pair s) (pop_mode m (jf_modes f)))"
  using assms(1)
proof (cases rule: modes_cases)
  case 1
  with assms error_rejects [of f] show ?thesis
    by (simp add: refines_def pop_goto_def evd_json_filter_pop_def)
next
  case (2 m' ms)
  with assms error_rejects [of f] show ?thesis
    by (simp add: refines_def pop_goto_def evd_json_filter_pop_def)
qed

lemma flip_goto_refines:
  assumes "jf_stack_ok f" "m \<noteq> MODE_DONE" "m' \<noteq> MODE_DONE"
  shows "refines (flip_goto f m m' s)
    (case pop_mode m (jf_modes f) of None \<Rightarrow> None | Some ms \<Rightarrow> Some (s, m' # ms))"
  using assms(1)
proof (cases rule: modes_cases)
  case 1
  with assms error_rejects [of f] show ?thesis
    by (simp add: refines_def flip_goto_def evd_json_filter_pop_def)
next
  case (2 n ms)
  show ?thesis
  proof (cases "n = m")
    case False
    with 2 assms error_rejects [of f] show ?thesis
      by (simp add: refines_def flip_goto_def evd_json_filter_pop_def)
  next
    case True
    let ?f = "f\<lparr>jf_top := jf_top f - 1\<rparr>"
    from 2 assms(1) have ok: "jf_stack_ok ?f"
      using pop_stack_ok [OF assms(1)] by (simp add: stack_get_ok)
    from 2 length_modes [OF assms(1)] have "Suc (length ms) = nat (jf_top f)" by simp
    moreover from assms(1) have "jf_top f < 128" by (simp add: jf_stack_ok_def)
    ultimately have "length ms < 127" by linarith
    with push_goto_refines [OF ok assms(3), of s] 2 True show ?thesis
      by (simp add: flip_goto_def evd_json_filter_pop_def push_mode_def)
  qed
qed

lemma refines_error: "jf_stack_ok f \<Longrightarrow> refines (evd_json_filter_error f) None"
  using error_rejects [of f] by (simp add: refines_def)

lemma refines_goto: "refines (Some (True, f\<lparr>jf_state := s\<rparr>)) (Some (s, jf_modes f))"
  by (simp add: refines_def)

lemma quote_refines:
  assumes "jf_stack_ok f"
  shows "refines (json_action f (-4)) (abs_action (jf_modes f) (-4))"
  using assms
proof (cases rule: modes_cases)
  case 1
  with assms show ?thesis by (simp add: json_action_def abs_action_def refines_error)
next
  case (2 m ms)
  with assms refines_goto [of _ f] show ?thesis
    by (cases m) (simp_all add: json_action_def abs_action_def)
qed

lemma comma_refines:
  assumes "jf_stack_ok f"
  shows "refines (json_action f (-3)) (abs_action (jf_modes f) (-3))"
  using assms
proof (cases rule: modes_cases)
  case 1
  with assms show ?thesis by (simp add: json_action_def abs_action_def refines_error)
next
  case (2 m ms)
  with assms refines_goto [of _ f] flip_goto_refines [OF assms, of MODE_OBJECT MODE_KEY KE]
  show ?thesis
    by (cases m) (simp_all add: json_action_def abs_action_def refines_error)
qed

lemma colon_refines:
  assumes "jf_stack_ok f"
  shows "refines (json_action f (-2)) (abs_action (jf_modes f) (-2))"
  using flip_goto_refines [OF assms, of MODE_KEY MODE_OBJECT VA]
  by (cases "jf_modes f" rule: list.exhaust; cases "hd (jf_modes f)")
    (simp_all add: json_action_def abs_action_def)

lemma action_refines:
  assumes "jf_stack_ok f"
  shows "refines (json_action f a) (abs_action (jf_modes f) a)"
proof -
  consider "a = -4" | "a = -3" | "a = -2" | "a \<notin> {-4, -3, -2}" by auto
  then show ?thesis
  proof cases
    case 4
    with assms show ?thesis
      by (simp add: json_action_def abs_action_def pop_goto_refines push_goto_refines refines_error)
  qed (simp_all add: assms quote_refines comma_refines colon_refines)
qed

lemma process_refines:
  assumes "jf_stack_ok f"
  shows "refines (evd_json_filter_process f x i) (abs_step (jf_state f, jf_modes f) x)"
  using assms refines_goto [of _ f] action_refines [of "f\<lparr>jf_content_start := int i\<rparr>"] action_refines [of f]
  by (auto simp: evd_json_filter_process_def abs_step_def refines_error
      split: option.split json_entry.split)

section \<open>Runs of the automaton\<close>

text \<open>Characters read while a packet stays open.\<close>

fun abs_run :: "json_state \<times> json_mode list \<Rightarrow> int list \<Rightarrow> (json_state \<times> json_mode list) option" where
  "abs_run q [] = Some q"
| "abs_run q (x # xs) =
     (case abs_step q x of
        None \<Rightarrow> None
      | Some q' \<Rightarrow> if snd q' = [] then None else abs_run q' xs)"

lemma abs_run_append:
  "abs_run q (xs @ ys) = (case abs_run q xs of None \<Rightarrow> None | Some q' \<Rightarrow> abs_run q' ys)"
  by (induction xs arbitrary: q) (auto split: option.split)

lemma goto_handler:
  "evd_json_filter_error f = Some (b, g) \<Longrightarrow>
     jf_packet_cb g = jf_packet_cb f \<and> jf_user_data g = jf_user_data f"
  "push_goto f m s = Some (b, g) \<Longrightarrow>
     jf_packet_cb g = jf_packet_cb f \<and> jf_user_data g = jf_user_data f"
  "pop_goto f m s = Some (b, g) \<Longrightarrow>
     jf_packet_cb g = jf_packet_cb f \<and> jf_user_data g = jf_user_data f"
  "flip_goto f m m' s = Some (b, g) \<Longrightarrow>
     jf_packet_cb g = jf_packet_cb f \<and> jf_user_data g = jf_user_data f"
  by (auto simp: json_ops Option.bind_eq_Some_conv split: if_splits)

lemma action_handler:
  assumes "json_action f a = Some (b, g)"
  shows "jf_packet_cb g = jf_packet_cb f \<and> jf_user_data g = jf_user_data f"
proof (cases "stack_get f")
  case None
  with assms show ?thesis
    by (auto simp: json_action_def dest!: goto_handler split: if_splits)
next
  case (Some m)
  with assms show ?thesis
    by (cases m) (auto simp: json_action_def dest!: goto_handler split: if_splits)
qed

lemma process_handler:
  "evd_json_filter_process f x i = Some (b, g) \<Longrightarrow>
     jf_packet_cb g = jf_packet_cb f \<and> jf_user_data g = jf_user_data f"
  by (auto simp: evd_json_filter_process_def dest!: goto_handler(1) action_handler
      split: option.splits json_entry.splits if_splits)

definition same_handler :: "json_filter \<Rightarrow> json_filter \<Rightarrow> bool" where
  "same_handler f g \<longleftrightarrow> jf_packet_cb g = jf_packet_cb f \<and> jf_user_data g = jf_user_data f"

lemma run_byte_open:
  assumes "jf_ready f" and st: "abs_step (jf_state f, jf_modes f) (gchar_to_gint sg c) = Some (s, ms)"
    and "ms \<noteq> []"
  shows "\<exists>f'. json_run sg f [c] = (Some f', []) \<and> jf_ready f' \<and> jf_state f' = s \<and>
    jf_modes f' = ms \<and> same_handler f f' \<and> jf_cache f' = jf_cache f @ [c]"
proof -
  from assms(1) have inv: "jf_inv f" "jf_stack_ok f" by (simp_all add: jf_ready_def jf_inv_def)
  from process_refines [OF inv(2), of "gchar_to_gint sg c" 0] st obtain g where
    g: "evd_json_filter_process f (gchar_to_gint sg c) 0 = Some (True, g)"
      "jf_state g = s" "jf_modes g = ms"
    by (auto simp: refines_def)
  from process_ok [OF inv(1), of "gchar_to_gint sg c" 0] g(1) have mid: "jf_mid g"
    by (simp add: step_ok_def)
  then have gok: "jf_stack_ok g" by (simp add: jf_mid_def)
  with g(3) assms(3) have top: "jf_top g \<noteq> 0" by (auto simp: modes_empty [symmetric])
  with mid have cs: "0 \<le> jf_content_start g" by (auto simp: jf_mid_def split: if_splits)
  from gok top have "stack_get g \<noteq> Some MODE_DONE"
    by (cases rule: modes_cases) auto
  with gok have cp: "json_complete_packet g [c] 0 = Some (g, [])"
    by (auto simp: json_complete_packet_def stack_get_ok)
  have keep: "jf_cache g = jf_cache f" "jf_content_start g = 0"
    using process_keeps [OF g(1)] assms(1) cs by (auto simp: jf_ready_def split: if_splits)
  let ?h = "json_cache_rest g [c]"
  have run: "json_run sg f [c] = (Some ?h, [])" by (rule run_one [OF g(1) cp])
  have "jf_ready ?h" by (rule json_run_ready [OF assms(1) run])
  moreover have "jf_state ?h = s" "jf_modes ?h = ms" "jf_cache ?h = jf_cache f @ [c]"
    using g keep by (simp_all add: json_cache_rest_def)
  moreover have "same_handler f ?h"
    using process_handler [OF g(1)] by (simp add: same_handler_def json_cache_rest_def)
  ultimately show ?thesis using run by blast
qed

lemma run_byte_close:
  assumes "jf_ready f" and st: "abs_step (jf_state f, jf_modes f) (gchar_to_gint sg c) = Some (s, [])"
    and "jf_modes f \<noteq> []"
  shows "\<exists>f'. json_run sg f [c] = (Some f', evd_json_filter_notify_packet f (jf_cache f @ [c])) \<and>
    jf_ready f' \<and> jf_state f' = GO \<and> jf_modes f' = [] \<and> jf_cache f' = [] \<and> same_handler f f'"
proof -
  from assms(1) have inv: "jf_inv f" "jf_stack_ok f" by (simp_all add: jf_ready_def jf_inv_def)
  from inv assms(3) have "jf_top f \<noteq> 0" by (auto simp: modes_empty [symmetric])
  with assms(1) have csf: "jf_content_start f = 0" "jf_cache f \<noteq> []"
    by (auto simp: jf_ready_def jf_inv_def split: if_splits)
  from process_refines [OF inv(2), of "gchar_to_gint sg c" 0] st obtain g where
    g: "evd_json_filter_process f (gchar_to_gint sg c) 0 = Some (True, g)" "jf_modes g = []"
    by (auto simp: refines_def)
  from process_ok [OF inv(1), of "gchar_to_gint sg c" 0] g(1) have gok: "jf_stack_ok g"
    by (simp add: step_ok_def jf_mid_def)
  have dn: "stack_get g = Some MODE_DONE"
    using gok g(2) by (cases rule: modes_cases) auto
  have keep: "jf_cache g = jf_cache f" "jf_content_start g = 0"
    using process_keeps [OF g(1)] csf by auto
  have h: "same_handler f g" using process_handler [OF g(1)] by (simp add: same_handler_def)
  then have nt: "evd_json_filter_notify_packet g = evd_json_filter_notify_packet f"
    by (simp add: same_handler_def evd_json_filter_notify_packet_def fun_eq_iff split: option.split)
  have len: "length (jf_stack (g\<lparr>jf_cache := []\<rparr>)) = 128"
    using gok by (simp add: stack_ok_length)
  obtain f' where r: "evd_json_filter_reset (g\<lparr>jf_cache := []\<rparr>) = Some f'"
    by (simp add: reset_ok [OF len])
  have cp: "json_complete_packet g [c] 0 =
      Some (f', evd_json_filter_notify_packet f (jf_cache f @ [c]))"
    using keep csf dn by (simp add: complete_cached r nt)
  have f': "jf_content_start f' = -1" "jf_cache f' = []" using reset_cache [OF r] by auto
  have run: "json_run sg f [c] = (Some f', evd_json_filter_notify_packet f (jf_cache f @ [c]))"
    using run_one [OF g(1) cp] f' by (simp add: json_cache_rest_def)
  have "jf_ready f'" by (rule json_run_ready [OF assms(1) run])
  moreover have "jf_state f' = GO" "jf_modes f' = []" "same_handler f f'"
    using r h reset_ok [OF len] by (auto simp: jf_modes_def same_handler_def)
  ultimately show ?thesis using run f' by blast
qed

lemma run_bytes_open:
  assumes "jf_ready f" and "abs_run (jf_state f, jf_modes f) (map (gchar_to_gint sg) xs) = Some (s, ms)"
  shows "\<exists>f'. json_run sg f xs = (Some f', []) \<and> jf_ready f' \<and> jf_state f' = s \<and>
    jf_modes f' = ms \<and> same_handler f f' \<and> jf_cache f' = jf_cache f @ xs"
  using assms
proof (induction xs arbitrary: f)
  case Nil
  then show ?case by (simp add: json.feed_empty same_handler_def)
next
  case (Cons c xs)
  from Cons.prems(2) obtain s1 ms1 where
    st: "abs_step (jf_state f, jf_modes f) (gchar_to_gint sg c) = Some (s1, ms1)" "ms1 \<noteq> []"
    and rest: "abs_run (s1, ms1) (map (gchar_to_gint sg) xs) = Some (s, ms)"
    by (auto split: option.splits if_splits)
  from run_byte_open [OF Cons.prems(1) st] obtain f1 where
    f1: "json_run sg f [c] = (Some f1, [])" "jf_ready f1" "jf_state f1 = s1" "jf_modes f1 = ms1"
      "same_handler f f1" "jf_cache f1 = jf_cache f @ [c]" by blast
  from Cons.IH [OF f1(2)] rest f1(3,4) obtain f2 where
    f2: "json_run sg f1 xs = (Some f2, [])" "jf_ready f2" "jf_state f2 = s" "jf_modes f2 = ms"
      "same_handler f1 f2" "jf_cache f2 = jf_cache f1 @ xs" by blast
  have "json_run sg f ([c] @ xs) = (Some f2, [])"
    using json.feed_append [OF Cons.prems(1), of sg "[c]" xs] f1(1) f2(1) by simp
  with f1 f2 show ?case by (auto simp: same_handler_def)
qed

section \<open>JSON texts\<close>

text \<open>
  The grammar of JSON texts (RFC 8259), with any white space wherever the grammar allows it. Two
  kinds of texts are left out because the code refuses them (\<open>json_signed_char_rejects_utf8\<close>,
  \<open>json_number_divergence\<close>): where \<open>char\<close> is signed (\<open>sg\<close>), strings with bytes from 128 on; and numbers with
  an exponent right behind a lone zero.
\<close>

definition ws_ok :: "byte list \<Rightarrow> bool" where
  "ws_ok ws \<longleftrightarrow> set ws \<subseteq> {32, 9, 10, 13}"

definition digit_bytes :: "byte set" where
  "digit_bytes = {48, 49, 50, 51, 52, 53, 54, 55, 56, 57}"

definition hex_bytes :: "byte set" where
  "hex_bytes = digit_bytes \<union> {65, 66, 67, 68, 69, 70} \<union> {97, 98, 99, 100, 101, 102}"

definition string_byte :: "bool \<Rightarrow> byte \<Rightarrow> bool" where
  "string_byte sg c \<longleftrightarrow> 32 \<le> c \<and> c \<noteq> 34 \<and> c \<noteq> 92 \<and> (c < 128 \<or> \<not> sg)"

inductive json_chars :: "bool \<Rightarrow> byte list \<Rightarrow> bool" for sg where
  chars_end: "json_chars sg []"
| chars_plain: "string_byte sg c \<Longrightarrow> json_chars sg cs \<Longrightarrow> json_chars sg (c # cs)"
| chars_escape: "e \<in> {34, 92, 47, 98, 102, 110, 114, 116} \<Longrightarrow> json_chars sg cs \<Longrightarrow> json_chars sg (92 # e # cs)"
| chars_unicode: "length hs = 4 \<Longrightarrow> set hs \<subseteq> hex_bytes \<Longrightarrow> json_chars sg cs \<Longrightarrow> json_chars sg (92 # 117 # hs @ cs)"

definition json_string :: "bool \<Rightarrow> byte list \<Rightarrow> bool" where
  "json_string sg t \<longleftrightarrow> (\<exists>cs. json_chars sg cs \<and> t = 34 # cs @ [34])"

definition json_digits :: "byte list \<Rightarrow> bool" where
  "json_digits ds \<longleftrightarrow> ds \<noteq> [] \<and> set ds \<subseteq> digit_bytes"

definition json_number :: "byte list \<Rightarrow> bool" where
  "json_number t \<longleftrightarrow> (\<exists>minus ip frac ex.
     t = minus @ ip @ frac @ ex \<and> minus \<in> {[], [45]} \<and>
     json_digits ip \<and> (1 < length ip \<longrightarrow> hd ip \<noteq> 48) \<and>
     (frac = [] \<or> (\<exists>ds. frac = 46 # ds \<and> json_digits ds)) \<and>
     (ex = [] \<or> (\<exists>e sn ds. ex = e # sn @ ds \<and> e \<in> {101, 69} \<and> sn \<in> {[], [43], [45]} \<and> json_digits ds)) \<and>
     (ip = [48] \<and> frac = [] \<longrightarrow> ex = []))"

text \<open>Values nested at most \<open>n\<close> deep; the elements of arrays and the members of objects, not empty.\<close>

inductive json_value :: "bool \<Rightarrow> nat \<Rightarrow> byte list \<Rightarrow> bool"
  and json_elements :: "bool \<Rightarrow> nat \<Rightarrow> byte list \<Rightarrow> bool"
  and json_members :: "bool \<Rightarrow> nat \<Rightarrow> byte list \<Rightarrow> bool"
  for sg
where
  value_null: "json_value sg n [110, 117, 108, 108]"
| value_true: "json_value sg n [116, 114, 117, 101]"
| value_false: "json_value sg n [102, 97, 108, 115, 101]"
| value_number: "json_number t \<Longrightarrow> json_value sg n t"
| value_string: "json_string sg t \<Longrightarrow> json_value sg n t"
| value_empty_array: "ws_ok ws \<Longrightarrow> json_value sg (Suc n) (91 # ws @ [93])"
| value_array: "ws_ok ws \<Longrightarrow> json_elements sg n t \<Longrightarrow> json_value sg (Suc n) (91 # ws @ t @ [93])"
| value_empty_object: "ws_ok ws \<Longrightarrow> json_value sg (Suc n) (123 # ws @ [125])"
| value_object: "ws_ok ws \<Longrightarrow> json_members sg n t \<Longrightarrow> json_value sg (Suc n) (123 # ws @ t @ [125])"
| elements_last: "json_value sg n t \<Longrightarrow> ws_ok ws \<Longrightarrow> json_elements sg n (t @ ws)"
| elements_more: "json_value sg n t \<Longrightarrow> ws_ok ws \<Longrightarrow> ws_ok ws' \<Longrightarrow> json_elements sg n ts \<Longrightarrow>
    json_elements sg n (t @ ws @ 44 # ws' @ ts)"
| members_last: "json_string sg k \<Longrightarrow> ws_ok ws1 \<Longrightarrow> ws_ok ws2 \<Longrightarrow> json_value sg n t \<Longrightarrow> ws_ok ws3 \<Longrightarrow>
    json_members sg n (k @ ws1 @ 58 # ws2 @ t @ ws3)"
| members_more: "json_string sg k \<Longrightarrow> ws_ok ws1 \<Longrightarrow> ws_ok ws2 \<Longrightarrow> json_value sg n t \<Longrightarrow> ws_ok ws3 \<Longrightarrow> ws_ok ws4 \<Longrightarrow>
    json_members sg n ts \<Longrightarrow> json_members sg n (k @ ws1 @ 58 # ws2 @ t @ ws3 @ 44 # ws4 @ ts)"

text \<open>A packet: an array or an object, nested no deeper than the stack of the filter allows.\<close>

definition json_packet :: "bool \<Rightarrow> byte list \<Rightarrow> bool" where
  "json_packet sg t \<longleftrightarrow> json_value sg 127 t \<and> hd t \<in> {91, 123}"

subsection \<open>Character classes of ASCII bytes\<close>

lemma gint_ascii: "c < 128 \<Longrightarrow> gchar_to_gint sg c = uint c"
  unfolding gchar_to_gint_def
proof -
  assume "c < (128 :: byte)"
  then have "uint c < 128" by (simp add: word_less_def)
  moreover have "0 \<le> uint c" by simp
  ultimately have "- (2 ^ 7) \<le> uint c" "uint c < 2 ^ 7" by (simp_all, linarith)
  then have "signed_take_bit 7 (uint c) = uint c" by (rule signed_take_bit_int_eq_self)
  then have "sint c = uint c" by (simp add: sint_uint)
  then show "(if sg then sint c else uint c) = uint c" by simp
qed

abbreviation cls :: "bool \<Rightarrow> byte \<Rightarrow> json_class option" where
  "cls sg c \<equiv> next_class (gchar_to_gint sg c)"

lemma class_punct:
  "cls sg 34 = Some C_QUOTE" "cls sg 92 = Some C_BACKS" "cls sg 91 = Some C_LSQRB"
  "cls sg 93 = Some C_RSQRB" "cls sg 123 = Some C_LCURB" "cls sg 125 = Some C_RCURB"
  "cls sg 44 = Some C_COMMA" "cls sg 58 = Some C_COLON" "cls sg 45 = Some C_MINUS"
  "cls sg 43 = Some C_PLUS" "cls sg 46 = Some C_POINT" "cls sg 101 = Some C_LOW_E"
  "cls sg 69 = Some C_E" "cls sg 117 = Some C_LOW_U"
  by (simp_all add: gint_ascii next_class_def ascii_class_def)

lemma class_letters:
  "cls sg 110 = Some C_LOW_N" "cls sg 108 = Some C_LOW_L" "cls sg 116 = Some C_LOW_T"
  "cls sg 114 = Some C_LOW_R" "cls sg 102 = Some C_LOW_F" "cls sg 97 = Some C_LOW_A"
  "cls sg 115 = Some C_LOW_S" "cls sg 98 = Some C_LOW_B" "cls sg 47 = Some C_SLASH"
  by (simp_all add: gint_ascii next_class_def ascii_class_def)

lemma class_ws:
  "cls sg 32 = Some C_SPACE" "cls sg 9 = Some C_WHITE" "cls sg 10 = Some C_WHITE"
  "cls sg 13 = Some C_WHITE"
  by (simp_all add: gint_ascii next_class_def ascii_class_def)

lemma class_digit:
  assumes "c \<in> digit_bytes"
  shows "cls sg c = Some (if c = 48 then C_ZERO else C_DIGIT)"
  using assms by (auto simp: digit_bytes_def gint_ascii next_class_def ascii_class_def)

lemma class_hex:
  assumes "c \<in> hex_bytes"
  shows "\<exists>k \<in> {C_ZERO, C_DIGIT, C_LOW_A, C_LOW_B, C_LOW_C, C_LOW_D, C_LOW_E, C_LOW_F, C_ABCDF, C_E}. cls sg c = Some k"
  using assms by (auto simp: hex_bytes_def digit_bytes_def gint_ascii next_class_def ascii_class_def)

definition plain_entry :: "nat \<Rightarrow> bool" where
  "plain_entry n \<longleftrightarrow>
     (case ascii_class ! n of
        None \<Rightarrow> False
      | Some k \<Rightarrow> state_transition_table ST ! class_code k = Goto ST)"

lemma plain_checked: "list_all (\<lambda>n. n = 34 \<or> n = 92 \<or> plain_entry n) [32..<128]"
  by code_simp

lemma class_plain:
  assumes "string_byte sg c"
  shows "\<exists>k. cls sg c = Some k \<and> state_transition_table ST ! class_code k = Goto ST"
proof (cases "c < 128")
  case True
  with assms have c: "32 \<le> unat c" "unat c < 128" "unat c \<noteq> 34" "unat c \<noteq> 92"
    by (auto simp: string_byte_def word_le_nat_alt word_less_nat_alt word_unat_eq_iff)
  then have "unat c \<in> set [32..<128]" by (simp only: set_upt atLeastLessThan_iff)
  from plain_checked [unfolded list_all_iff, rule_format, OF this] c have "plain_entry (unat c)"
    by simp
  moreover have "next_class (gchar_to_gint sg c) = ascii_class ! unat c"
  proof -
    from True have "uint c < 128" by (simp add: word_less_def)
    then show ?thesis using True by (simp add: gint_ascii next_class_def)
  qed
  ultimately show ?thesis by (auto simp: plain_entry_def split: option.splits)
next
  case False
  with assms have "\<not> sg" "128 \<le> uint c" by (auto simp: string_byte_def word_less_def)
  then have "cls sg c = Some C_ETC" by (simp add: gchar_to_gint_def next_class_def)
  then show ?thesis by simp
qed

subsection \<open>Reading a text\<close>

abbreviation run_text :: "bool \<Rightarrow> json_state \<times> json_mode list \<Rightarrow> byte list \<Rightarrow> (json_state \<times> json_mode list) option" where
  "run_text sg q xs \<equiv> abs_run q (map (gchar_to_gint sg) xs)"

lemma run_text_append:
  "run_text sg q (xs @ ys) = (case run_text sg q xs of None \<Rightarrow> None | Some q' \<Rightarrow> run_text sg q' ys)"
  by (simp add: abs_run_append)

lemma run_ws:
  assumes "ws_ok ws" "ms \<noteq> []" "s \<in> {OK, OB, KE, CO, VA, AR}"
  shows "run_text sg (s, ms) ws = Some (s, ms)"
  using assms
proof (induction ws)
  case (Cons c ws)
  then have "c \<in> {32, 9, 10, 13}" by (auto simp: ws_ok_def)
  with Cons.prems(3) have "abs_step (s, ms) (gchar_to_gint sg c) = Some (s, ms)"
    by (auto simp: abs_step_def class_ws)
  with Cons show ?case by (auto simp: ws_ok_def)
qed simp

lemma run_hex:
  assumes "length hs = 4" "set hs \<subseteq> hex_bytes" "ms \<noteq> []"
  shows "run_text sg (U1, ms) hs = Some (ST, ms)"
proof -
  have st: "abs_step (s, ms) (gchar_to_gint sg h) = Some (s', ms)"
    if "h \<in> hex_bytes" "(s, s') \<in> {(U1, U2), (U2, U3), (U3, U4), (U4, ST)}" for h s s'
    using class_hex [OF that(1), of sg] that(2) by (auto simp: abs_step_def)
  obtain a b c d where "hs = [a, b, c, d]"
    using assms(1) by (auto simp: length_Suc_conv numeral_eq_Suc)
  with assms st show ?thesis by simp
qed

lemma run_chars:
  assumes "json_chars sg cs" "ms \<noteq> []"
  shows "run_text sg (ST, ms) cs = Some (ST, ms)"
  using assms
proof (induction rule: json_chars.induct)
  case (chars_plain c cs)
  then show ?case using class_plain [of sg c] by (auto simp: abs_step_def)
next
  case (chars_escape e cs)
  then show ?case by (auto simp: abs_step_def class_punct class_letters)
next
  case (chars_unicode hs cs)
  then show ?case using run_hex [of hs ms sg] by (simp add: abs_step_def class_punct abs_run_append)
qed simp

text \<open>A string as a value, and as the key of a member.\<close>

lemma run_string_value:
  assumes "json_string sg t" "s \<in> {VA, AR}" "m \<in> {MODE_ARRAY, MODE_OBJECT}"
  shows "run_text sg (s, m # ms) t = Some (OK, m # ms)"
proof -
  from assms(1) obtain cs where cs: "json_chars sg cs" "t = 34 # cs @ [34]" by (auto simp: json_string_def)
  have "abs_step (s, m # ms) (gchar_to_gint sg 34) = Some (ST, m # ms)"
    using assms(2) by (auto simp: abs_step_def class_punct)
  moreover have "abs_step (ST, m # ms) (gchar_to_gint sg 34) = Some (OK, m # ms)"
    using assms(3) by (auto simp: abs_step_def class_punct abs_action_def)
  ultimately show ?thesis using run_chars [OF cs(1), of "m # ms"] by (simp add: cs(2) abs_run_append)
qed

lemma run_string_key:
  assumes "json_string sg t" "s \<in> {OB, KE}"
  shows "run_text sg (s, MODE_KEY # ms) t = Some (CO, MODE_KEY # ms)"
proof -
  from assms(1) obtain cs where cs: "json_chars sg cs" "t = 34 # cs @ [34]" by (auto simp: json_string_def)
  have "abs_step (s, MODE_KEY # ms) (gchar_to_gint sg 34) = Some (ST, MODE_KEY # ms)"
    using assms(2) by (auto simp: abs_step_def class_punct)
  moreover have "abs_step (ST, MODE_KEY # ms) (gchar_to_gint sg 34) = Some (CO, MODE_KEY # ms)"
    by (simp add: abs_step_def class_punct abs_action_def)
  ultimately show ?thesis using run_chars [OF cs(1), of "MODE_KEY # ms"] by (simp add: cs(2) abs_run_append)
qed

lemma run_digits:
  assumes "set ds \<subseteq> digit_bytes" "ms \<noteq> []" "s \<in> {IN, FR, E3}"
  shows "run_text sg (s, ms) ds = Some (s, ms)"
  using assms
proof (induction ds)
  case (Cons d ds)
  then have "abs_step (s, ms) (gchar_to_gint sg d) = Some (s, ms)"
    by (auto simp: abs_step_def class_digit)
  with Cons show ?case by simp
qed simp

lemma run_int:
  assumes "json_digits ip" "1 < length ip \<longrightarrow> hd ip \<noteq> 48" "ms \<noteq> []" "s \<in> {VA, AR, MI}"
  shows "run_text sg (s, ms) ip = Some (if ip = [48] then ZE else IN, ms)"
proof -
  from assms(1) obtain d ds where ip: "ip = d # ds" "d \<in> digit_bytes" "set ds \<subseteq> digit_bytes"
    by (cases ip) (auto simp: json_digits_def)
  show ?thesis
  proof (cases "d = 48")
    case True
    with assms(2) ip have "ds = []" by auto
    with True ip assms(3,4) show ?thesis by (auto simp: abs_step_def class_digit)
  next
    case False
    with ip assms(4) have "abs_step (s, ms) (gchar_to_gint sg d) = Some (IN, ms)"
      by (auto simp: abs_step_def class_digit)
    with False ip assms(3) run_digits [of ds ms IN sg] show ?thesis by simp
  qed
qed

lemma run_frac:
  assumes "json_digits ds" "ms \<noteq> []" "s \<in> {ZE, IN}"
  shows "run_text sg (s, ms) (46 # ds) = Some (FR, ms)"
proof -
  from assms(3) have "abs_step (s, ms) (gchar_to_gint sg 46) = Some (FR, ms)"
    by (auto simp: abs_step_def class_punct)
  with assms run_digits [of ds ms FR sg] show ?thesis by (simp add: json_digits_def)
qed

lemma run_exp:
  assumes "json_digits ds" "sn \<in> {[], [43], [45]}" "x \<in> {101, 69}" "ms \<noteq> []" "s \<in> {IN, FR}"
  shows "run_text sg (s, ms) (x # sn @ ds) = Some (E3, ms)"
proof -
  from assms(1) obtain d ds' where ds: "ds = d # ds'" "d \<in> digit_bytes" "set ds' \<subseteq> digit_bytes"
    by (cases ds) (auto simp: json_digits_def)
  have e: "abs_step (s, ms) (gchar_to_gint sg x) = Some (E1, ms)"
    using assms(3,5) by (auto simp: abs_step_def class_punct)
  have d: "abs_step (q, ms) (gchar_to_gint sg d) = Some (E3, ms)" if "q \<in> {E1, E2}" for q
    using that ds by (auto simp: abs_step_def class_digit)
  have sn: "abs_step (E1, ms) (gchar_to_gint sg c) = Some (E2, ms)" if "c = 43 \<or> c = 45" for c
    using that by (auto simp: abs_step_def class_punct)
  from assms(2,4) e d sn ds run_digits [of ds' ms E3 sg] show ?thesis by auto
qed

definition after_value :: "json_state set" where
  "after_value = {OK, ZE, IN, FR, E3}"

lemma run_number:
  assumes "json_number t" "ms \<noteq> []" "s \<in> {VA, AR}"
  shows "\<exists>s' \<in> after_value. run_text sg (s, ms) t = Some (s', ms)"
proof -
  from assms(1) obtain minus ip frac ex where t: "t = minus @ ip @ frac @ ex" "minus \<in> {[], [45]}" "json_digits ip"
    "1 < length ip \<longrightarrow> hd ip \<noteq> 48" "frac = [] \<or> (\<exists>ds. frac = 46 # ds \<and> json_digits ds)"
    "ex = [] \<or> (\<exists>e sn ds. ex = e # sn @ ds \<and> e \<in> {101, 69} \<and> sn \<in> {[], [43], [45]} \<and> json_digits ds)"
    "ip = [48] \<and> frac = [] \<longrightarrow> ex = []" unfolding json_number_def by blast
  let ?m = "if minus = [] then s else MI"
  let ?i = "if ip = [48] then ZE else IN"
  let ?f = "if frac = [] then ?i else FR"
  let ?e = "if ex = [] then ?f else E3"
  have "run_text sg (s, ms) minus = Some (?m, ms)"
    using assms(2,3) t(2) by (auto simp: abs_step_def class_punct)
  moreover have "run_text sg (?m, ms) ip = Some (?i, ms)"
    using assms(2,3) t(3,4) by (intro run_int) auto
  moreover have "run_text sg (?i, ms) frac = Some (?f, ms)"
    using t(5) run_frac [of _ ms ?i sg] assms(2) by auto
  moreover have "run_text sg (?f, ms) ex = Some (?e, ms)"
  proof (cases "ex = []")
    case False
    then obtain e sn ds where e: "ex = e # sn @ ds" "e \<in> {101, 69}" "sn \<in> {[], [43], [45]}" "json_digits ds" using t(6) by blast
    have "?f \<in> {IN, FR}" using False t(7) by auto
    from run_exp [OF e(4,3,2) assms(2) this, of sg] show ?thesis using False by (simp add: e(1))
  qed simp
  ultimately have "run_text sg (s, ms) t = Some (?e, ms)"
    unfolding t(1) by (simp only: run_text_append option.case)
  moreover have "?e \<in> after_value" by (simp add: after_value_def)
  ultimately show ?thesis by blast
qed

text \<open>After a value, the delimiters act as they do in the state \<open>OK\<close>.\<close>

lemma after_value_delim:
  assumes "s \<in> after_value" "c \<in> {44, 93, 125}"
  shows "abs_step (s, ms) (gchar_to_gint sg c) = abs_step (OK, ms) (gchar_to_gint sg c)"
  using assms by (auto simp: after_value_def abs_step_def class_punct)

lemma after_value_ws:
  assumes "s \<in> after_value" "ws_ok ws" "ms \<noteq> []"
  shows "\<exists>s' \<in> after_value. run_text sg (s, ms) ws = Some (s', ms)"
proof (cases ws)
  case Nil
  with assms show ?thesis by auto
next
  case (Cons c cs)
  with assms(2) have "c \<in> {32, 9, 10, 13}" "ws_ok cs" by (auto simp: ws_ok_def)
  moreover from this(1) assms(1) have "abs_step (s, ms) (gchar_to_gint sg c) = Some (OK, ms)"
    by (auto simp: after_value_def abs_step_def class_ws)
  moreover have "OK \<in> after_value" by (simp add: after_value_def)
  ultimately show ?thesis
    using Cons assms(3) run_ws [of cs ms OK sg] by auto
qed

lemma step_open:
  assumes "s \<in> {GO, VA, AR}" "length ms < 127"
  shows "abs_step (s, ms) (gchar_to_gint sg 91) = Some (AR, MODE_ARRAY # ms)"
    "abs_step (s, ms) (gchar_to_gint sg 123) = Some (OB, MODE_KEY # ms)"
  using assms by (auto simp: abs_step_def class_punct abs_action_def push_mode_def)

lemma step_close_array:
  "s \<in> after_value \<union> {AR} \<Longrightarrow>
     abs_step (s, MODE_ARRAY # ms) (gchar_to_gint sg 93) = Some (OK, ms)"
  by (auto simp: after_value_def abs_step_def class_punct abs_action_def)

lemma step_close_object:
  "s \<in> after_value \<Longrightarrow> abs_step (s, MODE_OBJECT # ms) (gchar_to_gint sg 125) = Some (OK, ms)"
  "abs_step (OB, MODE_KEY # ms) (gchar_to_gint sg 125) = Some (OK, ms)"
  by (auto simp: after_value_def abs_step_def class_punct abs_action_def)

lemma step_comma:
  assumes "s \<in> after_value"
  shows "abs_step (s, MODE_ARRAY # ms) (gchar_to_gint sg 44) = Some (VA, MODE_ARRAY # ms)"
    "abs_step (s, MODE_OBJECT # ms) (gchar_to_gint sg 44) = Some (KE, MODE_KEY # ms)"
  using assms by (auto simp: after_value_def abs_step_def class_punct abs_action_def)

lemma step_colon:
  "abs_step (CO, MODE_KEY # ms) (gchar_to_gint sg 58) = Some (VA, MODE_OBJECT # ms)"
  by (simp add: abs_step_def class_punct abs_action_def)

lemma OK_after: "OK \<in> after_value"
  by (simp add: after_value_def)

text \<open>A member up to the white space behind its value, if its value leaves the modes alone.\<close>

lemma run_member:
  assumes "json_string sg k" "ws_ok ws1" "ws_ok ws2" "ws_ok ws3"
    and "\<And>s m ms. s \<in> {VA, AR} \<Longrightarrow> m \<in> {MODE_ARRAY, MODE_OBJECT} \<Longrightarrow> n + length ms < 127 \<Longrightarrow>
      \<exists>s' \<in> after_value. run_text sg (s, m # ms) t = Some (s', m # ms)"
    and "s \<in> {OB, KE}" "n + length ms < 127"
  shows "\<exists>s' \<in> after_value. run_text sg (s, MODE_KEY # ms) (k @ ws1 @ 58 # ws2 @ t @ ws3) = Some (s', MODE_OBJECT # ms)"
proof -
  from assms(5) [of VA MODE_OBJECT ms] assms(7) obtain s1 where s1: "s1 \<in> after_value"
    "run_text sg (VA, MODE_OBJECT # ms) t = Some (s1, MODE_OBJECT # ms)" by auto
  from after_value_ws [OF s1(1) assms(4), of "MODE_OBJECT # ms" sg] obtain s2 where
    s2: "s2 \<in> after_value" "run_text sg (s1, MODE_OBJECT # ms) ws3 = Some (s2, MODE_OBJECT # ms)" by blast
  have w: "run_text sg (CO, MODE_KEY # ms) ws1 = Some (CO, MODE_KEY # ms)" "run_text sg (VA, MODE_OBJECT # ms) ws2 = Some (VA, MODE_OBJECT # ms)"
    using assms(2,3) by (auto intro!: run_ws)
  show ?thesis
    using run_string_key [OF assms(1,6), of ms] w step_colon [of ms sg] s1(2) s2 by (auto simp: abs_run_append)
qed

text \<open>
  The three shapes of text: a value leaves the modes as they were; the elements of an array
  and the members of an object run up to the closing bracket.
\<close>

lemma run_json:
  shows "json_value sg n t \<Longrightarrow> s \<in> {VA, AR} \<Longrightarrow> m \<in> {MODE_ARRAY, MODE_OBJECT} \<Longrightarrow> n + length ms < 127 \<Longrightarrow>
      \<exists>s' \<in> after_value. run_text sg (s, m # ms) t = Some (s', m # ms)"
    and "json_elements sg n t \<Longrightarrow> s \<in> {VA, AR} \<Longrightarrow> n + length ms < 127 \<Longrightarrow>
      \<exists>s' \<in> after_value. run_text sg (s, MODE_ARRAY # ms) t = Some (s', MODE_ARRAY # ms)"
    and "json_members sg n t \<Longrightarrow> s \<in> {OB, KE} \<Longrightarrow> n + length ms < 127 \<Longrightarrow>
      \<exists>s' \<in> after_value. run_text sg (s, MODE_KEY # ms) t = Some (s', MODE_OBJECT # ms)"
proof (induction n t and n t and n t arbitrary: s m ms and s ms and s ms
    rule: json_value_json_elements_json_members.inducts)
  case (value_null n)
  then show ?case by (auto simp: abs_step_def class_letters class_punct OK_after)
next
  case (value_true n)
  then show ?case by (auto simp: abs_step_def class_letters class_punct OK_after)
next
  case (value_false n)
  then show ?case by (auto simp: abs_step_def class_letters class_punct OK_after)
next
  case (value_number t n)
  then show ?case using run_number [of t "m # ms" s sg] by simp
next
  case (value_string t n)
  then show ?case using run_string_value [of sg t s m ms] OK_after by auto
next
  case (value_empty_array ws n)
  then have "abs_step (s, m # ms) (gchar_to_gint sg 91) = Some (AR, MODE_ARRAY # m # ms)"
    "run_text sg (AR, MODE_ARRAY # m # ms) ws = Some (AR, MODE_ARRAY # m # ms)"
    by (auto intro!: step_open run_ws)
  then show ?case using OK_after step_close_array [of AR "m # ms" sg] by (simp add: abs_run_append)
next
  case (value_array ws n t)
  then have "abs_step (s, m # ms) (gchar_to_gint sg 91) = Some (AR, MODE_ARRAY # m # ms)"
    "run_text sg (AR, MODE_ARRAY # m # ms) ws = Some (AR, MODE_ARRAY # m # ms)"
    by (auto intro!: step_open run_ws)
  moreover obtain s' where s': "s' \<in> after_value" "run_text sg (AR, MODE_ARRAY # m # ms) t = Some (s', MODE_ARRAY # m # ms)"
    using value_array(3) [of AR "m # ms"] value_array.prems by auto
  ultimately show ?case using s'  OK_after step_close_array [of s' "m # ms" sg] by (simp add: abs_run_append)
next
  case (value_empty_object ws n)
  then have "abs_step (s, m # ms) (gchar_to_gint sg 123) = Some (OB, MODE_KEY # m # ms)"
    "run_text sg (OB, MODE_KEY # m # ms) ws = Some (OB, MODE_KEY # m # ms)"
    by (auto intro!: step_open run_ws)
  then show ?case using OK_after step_close_object(2) [of "m # ms" sg] by (simp add: abs_run_append)
next
  case (value_object ws n t)
  then have "abs_step (s, m # ms) (gchar_to_gint sg 123) = Some (OB, MODE_KEY # m # ms)"
    "run_text sg (OB, MODE_KEY # m # ms) ws = Some (OB, MODE_KEY # m # ms)"
    by (auto intro!: step_open run_ws)
  moreover obtain s' where s': "s' \<in> after_value" "run_text sg (OB, MODE_KEY # m # ms) t = Some (s', MODE_OBJECT # m # ms)"
    using value_object(3) [of OB "m # ms"] value_object.prems by auto
  ultimately show ?case using s'  OK_after step_close_object(1) [of s' "m # ms" sg] by (simp add: abs_run_append)
next
  case (elements_last n t ws)
  then obtain s1 where s1: "s1 \<in> after_value" "run_text sg (s, MODE_ARRAY # ms) t = Some (s1, MODE_ARRAY # ms)" by blast
  with after_value_ws [OF s1(1) \<open>ws_ok ws\<close>, of "MODE_ARRAY # ms" sg] show ?case by (auto simp: abs_run_append)
next
  case (elements_more n t ws ws' ts)
  then obtain s1 where s1: "s1 \<in> after_value" "run_text sg (s, MODE_ARRAY # ms) t = Some (s1, MODE_ARRAY # ms)" by blast
  from after_value_ws [OF s1(1) \<open>ws_ok ws\<close>, of "MODE_ARRAY # ms" sg] obtain s2 where
    s2: "s2 \<in> after_value" "run_text sg (s1, MODE_ARRAY # ms) ws = Some (s2, MODE_ARRAY # ms)" by blast
  have "run_text sg (VA, MODE_ARRAY # ms) ws' = Some (VA, MODE_ARRAY # ms)" using elements_more by (intro run_ws) auto
  moreover obtain s3 where "s3 \<in> after_value" "run_text sg (VA, MODE_ARRAY # ms) ts = Some (s3, MODE_ARRAY # ms)"
    using elements_more(4) [of VA ms] elements_more.prems by auto
  ultimately show ?case using s1(2) s2(2) step_comma(1) [OF s2(1), of ms sg] by (auto simp: abs_run_append)
next
  case (members_last k ws1 ws2 n t ws3)
  from run_member [OF \<open>json_string sg k\<close> \<open>ws_ok ws1\<close> \<open>ws_ok ws2\<close> \<open>ws_ok ws3\<close> members_last(3)] members_last.prems show ?case by blast
next
  case (members_more k ws1 ws2 n t ws3 ws4 ts)
  from run_member [OF \<open>json_string sg k\<close> \<open>ws_ok ws1\<close> \<open>ws_ok ws2\<close> \<open>ws_ok ws3\<close> members_more(3)] members_more.prems obtain s2 where
    s2: "s2 \<in> after_value" "run_text sg (s, MODE_KEY # ms) (k @ ws1 @ 58 # ws2 @ t @ ws3) = Some (s2, MODE_OBJECT # ms)" by blast
  have "run_text sg (KE, MODE_KEY # ms) ws4 = Some (KE, MODE_KEY # ms)" using members_more by (intro run_ws) auto
  moreover obtain s3 where "s3 \<in> after_value" "run_text sg (KE, MODE_KEY # ms) ts = Some (s3, MODE_OBJECT # ms)"
    using members_more(5) [of KE ms] members_more.prems by auto
  moreover have "run_text sg (s, MODE_KEY # ms) ((k @ ws1 @ 58 # ws2 @ t @ ws3) @ 44 # ws4 @ ts) =
      run_text sg (s2, MODE_OBJECT # ms) (44 # ws4 @ ts)" using s2(2) unfolding run_text_append by simp
  ultimately show ?case using step_comma(2) [OF s2(1), of ms sg] by (auto simp: abs_run_append)
qed

text \<open>
  A complete packet: all of the text but its last character keeps the packet open, the last
  one closes it.
\<close>

lemma run_packet:
  assumes "json_packet sg t"
  shows "\<exists>xs c s ms s'. t = xs @ [c] \<and> run_text sg (GO, []) xs = Some (s, ms) \<and> ms \<noteq> [] \<and>
    abs_step (s, ms) (gchar_to_gint sg c) = Some (s', [])"
proof -
  have v: "json_value sg 127 t" and h: "hd t \<in> {91, 123}" using assms by (simp_all add: json_packet_def)
  have n: "json_number u \<Longrightarrow> hd u \<notin> {91, 123}" for u
    by (auto simp: json_number_def json_digits_def digit_bytes_def neq_Nil_conv)
  from v show ?thesis
  proof (cases rule: json_value.cases)
    case (value_empty_array ws n)
    then have "run_text sg (GO, []) (91 # ws) = Some (AR, [MODE_ARRAY])"
      using step_open(1) [of GO "[]" sg] run_ws [of ws "[MODE_ARRAY]" AR sg] by simp
    with value_empty_array step_close_array [of AR "[]" sg] show ?thesis by (intro exI [of _ "91 # ws"]) auto
  next
    case (value_array ws n u)
    then have "n + length ([] :: json_mode list) < 127" by simp
    from run_json(2) [OF value_array(4) _ this, of AR] obtain s' where s': "s' \<in> after_value"
      "run_text sg (AR, [MODE_ARRAY]) u = Some (s', [MODE_ARRAY])" by auto
    have "run_text sg (GO, []) (91 # ws @ u) = Some (s', [MODE_ARRAY])"
      using step_open(1) [of GO "[]" sg] run_ws [of ws "[MODE_ARRAY]" AR sg] value_array(3) s' by (simp add: abs_run_append)
    with value_array s' step_close_array [of s' "[]" sg] show ?thesis by (intro exI [of _ "91 # ws @ u"]) auto
  next
    case (value_empty_object ws n)
    then have "run_text sg (GO, []) (123 # ws) = Some (OB, [MODE_KEY])"
      using step_open(2) [of GO "[]" sg] run_ws [of ws "[MODE_KEY]" OB sg] by simp
    with value_empty_object step_close_object(2) [of "[]" sg] show ?thesis by (intro exI [of _ "123 # ws"]) auto
  next
    case (value_object ws n u)
    then have "n + length ([] :: json_mode list) < 127" by simp
    from run_json(3) [OF value_object(4) _ this, of OB] obtain s' where s': "s' \<in> after_value"
      "run_text sg (OB, [MODE_KEY]) u = Some (s', [MODE_OBJECT])" by auto
    have "run_text sg (GO, []) (123 # ws @ u) = Some (s', [MODE_OBJECT])"
      using step_open(2) [of GO "[]" sg] run_ws [of ws "[MODE_KEY]" OB sg] value_object(3) s' by (simp add: abs_run_append)
    with value_object s' step_close_object(1) [of s' "[]" sg] show ?thesis by (intro exI [of _ "123 # ws @ u"]) auto
  qed (use h n in \<open>auto simp: json_string_def\<close>)
qed

section \<open>Streams of packets\<close>

lemma run_idle_ws:
  assumes "jf_ready f" "jf_state f = GO" "jf_modes f = []" "ws_ok ws"
  shows "json_run sg f ws = (Some f, [])"
  using assms
proof (induction ws)
  case Nil
  then show ?case by (simp add: json.feed_empty)
next
  case (Cons c ws)
  then have c: "c \<in> {32, 9, 10, 13}" and ws: "ws_ok ws" by (auto simp: ws_ok_def)
  from Cons.prems have inv: "jf_stack_ok f" "jf_content_start f = -1"
    by (auto simp: jf_ready_def jf_inv_def split: if_splits)
  have "evd_json_filter_process f (gchar_to_gint sg c) 0 = Some (True, f\<lparr>jf_state := GO\<rparr>)"
    using c Cons.prems(2) by (auto simp: evd_json_filter_process_def class_ws)
  also have "f\<lparr>jf_state := GO\<rparr> = f" using Cons.prems(2) by (cases f) simp
  finally have p: "evd_json_filter_process f (gchar_to_gint sg c) 0 = Some (True, f)" .
  have "json_complete_packet f [c] 0 = Some (f, [])" using inv by (simp add: json_complete_packet_def)
  from run_one [OF p this] have "json_run sg f [c] = (Some f, [])" using inv by (simp add: json_cache_rest_def)
  with json.feed_append [OF Cons.prems(1), of sg "[c]" ws] Cons.IH [OF Cons.prems(1-3) ws]
  show ?case by simp
qed

lemma run_one_packet:
  assumes "jf_ready f" "jf_state f = GO" "jf_modes f = []" "ws_ok ws" "json_packet sg t"
  shows "\<exists>f'. json_run sg f (ws @ t) = (Some f', evd_json_filter_notify_packet f t) \<and>
    jf_ready f' \<and> jf_state f' = GO \<and> jf_modes f' = [] \<and> same_handler f f'"
proof -
  from run_packet [OF assms(5)] obtain xs c s ms s' where
    t: "t = xs @ [c]" and xs: "run_text sg (GO, []) xs = Some (s, ms)" "ms \<noteq> []"
    and c: "abs_step (s, ms) (gchar_to_gint sg c) = Some (s', [])" by blast
  have cache: "jf_cache f = []"
    using assms(1-3) by (auto simp: jf_ready_def jf_inv_def split: if_splits)
  from run_bytes_open [OF assms(1)] xs(1) assms(2,3) obtain f1 where
    f1: "json_run sg f xs = (Some f1, [])" "jf_ready f1" "jf_state f1 = s" "jf_modes f1 = ms"
      "same_handler f f1" "jf_cache f1 = jf_cache f @ xs" using xs(2) by metis
  from run_byte_close [OF f1(2), of sg c s'] c xs(2) f1 obtain f2 where
    f2: "json_run sg f1 [c] = (Some f2, evd_json_filter_notify_packet f1 (jf_cache f1 @ [c]))"
      "jf_ready f2" "jf_state f2 = GO" "jf_modes f2 = []" "same_handler f1 f2" by auto
  have nt: "evd_json_filter_notify_packet f1 = evd_json_filter_notify_packet f"
    using f1(5)
    by (simp add: same_handler_def evd_json_filter_notify_packet_def fun_eq_iff split: option.split)
  have "json_run sg f (xs @ [c]) = (Some f2, evd_json_filter_notify_packet f (xs @ [c]))"
    using json.feed_append [OF assms(1), of sg xs "[c]"] f1 f2 nt cache by simp
  with json.feed_append [OF assms(1), of sg ws "xs @ [c]"] run_idle_ws [OF assms(1-4), of sg] t
  have "json_run sg f (ws @ t) = (Some f2, evd_json_filter_notify_packet f t)" by simp
  with f1 f2 show ?thesis by (auto simp: same_handler_def)
qed

text \<open>A stream of packets, each behind white space of its own.\<close>

lemma run_packets:
  assumes "jf_ready f" "jf_state f = GO" "jf_modes f = []"
    and "list_all (\<lambda>(ws, t). ws_ok ws \<and> json_packet sg t) ps" "jf_packet_cb f = Some h"
  shows "\<exists>f'. json_run sg f (concat (map (\<lambda>(ws, t). ws @ t) ps)) =
      (Some f', map (\<lambda>(ws, t). (h, jf_user_data f, t)) ps) \<and>
    jf_ready f' \<and> jf_state f' = GO \<and> jf_modes f' = []"
  using assms
proof (induction ps arbitrary: f)
  case Nil
  then show ?case by (simp add: json.feed_empty)
next
  case (Cons p ps)
  obtain ws t where p: "p = (ws, t)" by (cases p)
  from Cons.prems(4) have t: "ws_ok ws" "json_packet sg t" and ps: "list_all (\<lambda>(ws, t). ws_ok ws \<and> json_packet sg t) ps"
    by (simp_all add: p)
  from run_one_packet [OF Cons.prems(1-3) t] obtain f1 where
    f1: "json_run sg f (ws @ t) = (Some f1, evd_json_filter_notify_packet f t)"
      "jf_ready f1" "jf_state f1 = GO" "jf_modes f1 = []" "same_handler f f1" by blast
  have h1: "jf_packet_cb f1 = Some h" "jf_user_data f1 = jf_user_data f"
    using f1(5) Cons.prems(5) by (simp_all add: same_handler_def)
  from Cons.IH [OF f1(2-4) ps h1(1)] h1(2) obtain f2 where
    f2: "json_run sg f1 (concat (map (\<lambda>(ws, t). ws @ t) ps)) =
        (Some f2, map (\<lambda>(ws, t). (h, jf_user_data f, t)) ps)"
      "jf_ready f2" "jf_state f2 = GO" "jf_modes f2 = []" by auto
  have "json_run sg f ((ws @ t) @ concat (map (\<lambda>(ws, t). ws @ t) ps)) =
      (Some f2, (h, jf_user_data f, t) # map (\<lambda>(ws, t). (h, jf_user_data f, t)) ps)"
    using json.feed_append [OF Cons.prems(1), of sg "ws @ t"] f1(1) f2(1) Cons.prems(5)
    by (simp add: evd_json_filter_notify_packet_def)
  with f2 show ?case by (simp add: p)
qed

section \<open>Properties\<close>

text \<open>
  C1. A stream of JSON texts is delivered packet by packet. Feed a new filter any sequence of texts of
  arrays and objects of the JSON grammar, nested at most 127 deep, with any white space in and between
  them, cut into buffers in any way: the handler is called once per text, in order, with exactly the
  bytes of the text (white space between packets left out). Two kinds of texts are excepted, which the
  code refuses: where \<open>char\<close> is signed, texts with bytes from 128 on in strings, and texts with a number
  that has an exponent right behind a lone zero.
\<close>

theorem json_stream_delivered:
  assumes "list_all (\<lambda>(ws, t). ws_ok ws \<and> json_packet sg t) ps"
    and "concat cs = concat (map (\<lambda>(ws, t). ws @ t) ps)"
  shows "\<exists>f'. json_feeds sg (idle_filter (Some h) d ff) cs = Some (f', map (\<lambda>(ws, t). (h, d, t)) ps, True) \<and> jf_state f' = GO"
proof -
  let ?f = "idle_filter (Some h) d ff"
  have f: "jf_state ?f = GO" "jf_modes ?f = []" "jf_packet_cb ?f = Some h" "jf_user_data ?f = d"
    by (simp_all add: idle_filter_def jf_modes_def)
  from run_packets [OF idle_ready f(1,2) assms(1) f(3)] f(4) obtain f' where
    "json_run sg ?f (concat cs) = (Some f', map (\<lambda>(ws, t). (h, d, t)) ps)" "jf_state f' = GO"
    unfolding assms(2) by auto
  then have "feed_chunks (json_run sg) ?f cs = (Some f', map (\<lambda>(ws, t). (h, d, t)) ps)"
    using json.feed_chunks_concat [OF idle_ready, of sg "Some h" d ff cs] by simp
  then show ?thesis using json_feeds_run [OF idle_ready, of sg "Some h" d ff cs] \<open>jf_state f' = GO\<close> by (auto split: if_splits)
qed

text \<open>Two packets: \<open>[ true,{}]\<close>, and an object with a string of UTF-8 where \<open>char\<close> is unsigned.\<close>

lemma demo_packets:
  "json_packet sg (ascii ''[ true,{}]'')"
  "json_packet False (ascii ''{\"a\":\"'' @ [195, 169] @ ascii ''\"}'')"
proof -
  have "json_elements sg 126 ([116, 114, 117, 101] @ [] @ 44 # [] @ ((123 # [] @ [125]) @ []))"
    using value_empty_object [of "[]" sg 125] by (intro elements_more elements_last value_true) (simp_all add: ws_ok_def)
  from value_array [OF _ this, of "[32]"] show "json_packet sg (ascii ''[ true,{}]'')"
    by (simp add: json_packet_def ws_ok_def ascii_def)
  have "json_chars False [97]" "json_chars False [195, 169]"
    by (auto intro!: chars_plain chars_end simp: string_byte_def)
  then have s: "json_string False (34 # [97] @ [34])" "json_string False (34 # [195, 169] @ [34])" by (auto simp: json_string_def)
  have "json_members False 126 ((34 # [97] @ [34]) @ [] @ 58 # [] @ (34 # [195, 169] @ [34]) @ [])"
    using s by (intro members_last value_string) (simp_all add: ws_ok_def)
  from value_object [OF _ this, of "[]"] show "json_packet False (ascii ''{\"a\":\"'' @ [195, 169] @ ascii ''\"}'')"
    by (simp add: json_packet_def ws_ok_def ascii_def)
qed

theorem json_stream_delivered_witness:
  "\<exists>f'. json_feeds False (idle_filter (Some 7) None None)
      [ascii '' [ tru'', ascii ''e,{}]\<newline>{\"a\"'', ascii '':\"'' @ [195], 169 # ascii ''\"}''] =
    Some (f', [(7, None, ascii ''[ true,{}]''), (7, None, ascii ''{\"a\":\"'' @ [195, 169] @ ascii ''\"}'')], True) \<and> jf_state f' = GO"
proof -
  let ?ps = "[([32], ascii ''[ true,{}]''), ([10], ascii ''{\"a\":\"'' @ [195, 169] @ ascii ''\"}'')]"
  have h: "list_all (\<lambda>(ws, t). ws_ok ws \<and> json_packet False t) ?ps" using demo_packets by (simp add: ws_ok_def)
  have c: "concat [ascii '' [ tru'', ascii ''e,{}]\<newline>{\"a\"'', ascii '':\"'' @ [195], 169 # ascii ''\"}''] =
      concat (map (\<lambda>(ws, t). ws @ t) ?ps)" by code_simp
  from json_stream_delivered [OF h c, of 7 None None] show ?thesis by simp
qed

text \<open>
  C36. The array stack implements a list of modes: on every filter whose stack is well formed,
  processing a character has the outcome of the abstract push-down automaton, in the state
  reached and in the modes left open.
\<close>

theorem json_process_refines_automaton:
  assumes "jf_stack_ok f"
  shows "refines (evd_json_filter_process f x i) (abs_step (jf_state f, jf_modes f) x)"
  using assms by (rule process_refines)

theorem json_process_refines_automaton_witness:
  "jf_stack_ok (idle_filter None None None) \<and>
   refines (evd_json_filter_process (idle_filter None None None) 91 0) (Some (AR, [MODE_ARRAY]))"
proof -
  have h: "jf_stack_ok (idle_filter None None None)"
    using idle_ready by (simp add: jf_ready_def jf_inv_def)
  have "abs_step (GO, []) 91 = Some (AR, [MODE_ARRAY])" by code_simp
  then show ?thesis
    using h json_process_refines_automaton [OF h, of 91 0]
    by (simp add: idle_filter_def jf_modes_def)
qed

lemma high_bytes_checked: "list_all (\<lambda>n. sint (of_nat n :: byte) < 0) [128..<256]"
  by code_simp

lemma high_byte_negative:
  assumes "(128 :: byte) \<le> c"
  shows "sint c < 0"
proof -
  have "unat c < 256" using unsigned_less [of c, where 'a = nat] by simp
  with assms have "unat c \<in> set [128..<256]"
    by (simp only: set_upt atLeastLessThan_iff) (simp add: word_le_nat_alt)
  from high_bytes_checked [unfolded list_all_iff, rule_format, OF this] show ?thesis
    by (simp only: of_nat_unat ucast_id)
qed

text \<open>
  With a signed \<open>char\<close>, every byte of value 128 or more (so every non-ASCII character in
  UTF-8, even inside a string) is rejected, although \<open>evd_json_filter_process\<close> is documented to
  accept UTF-8 and maps codes from 128 on to the class of string characters.
\<close>

theorem json_signed_char_rejects_utf8:
  assumes "jf_inv f" and "128 \<le> c"
  shows "\<exists>f'. evd_json_filter_feed_len True f (c # cs) =
    Some (f', [], FeedError G_IO_ERROR_INVALID_DATA 0)"
proof -
  from assms(2) have "sint c < 0" by (rule high_byte_negative)
  then have "next_class (gchar_to_gint True c) = None"
    by (simp add: next_class_def gchar_to_gint_def)
  moreover have "\<exists>f'. evd_json_filter_error f = Some (False, f')"
    using assms(1) error_inv [of f] by (auto simp: jf_inv_def stack_ok_length)
  ultimately show ?thesis
    by (auto simp: evd_json_filter_feed_len_def evd_json_filter_process_def)
qed

theorem json_signed_char_rejects_utf8_witness:
  "jf_inv (idle_filter None None None) \<and> (128 :: byte) \<le> 195 \<and>
   (\<exists>f'. evd_json_filter_feed_len True (idle_filter None None None) [195, 169] =
      Some (f', [], FeedError G_IO_ERROR_INVALID_DATA 0))"
proof -
  have h: "jf_inv (idle_filter None None None)" "(128 :: byte) \<le> 195"
    using idle_ready by (simp_all add: jf_ready_def)
  from h json_signed_char_rejects_utf8 [OF h, of "[169]"] show ?thesis by blast
qed

lemma number_signed:
  "map_option snd (evd_json_filter_feed_len True (idle_filter (Some 1) None None) (ascii ''[0e1]'')) =
     Some ([], FeedError G_IO_ERROR_INVALID_DATA 2)"
  "map_option snd (evd_json_filter_feed_len True (idle_filter (Some 1) None None) (ascii ''[1.]'')) =
     Some ([(1, None, ascii ''[1.]'')], FeedOk)"
  by code_simp+

lemma number_unsigned:
  "map_option snd (evd_json_filter_feed_len False (idle_filter (Some 1) None None) (ascii ''[0e1]'')) =
     Some ([], FeedError G_IO_ERROR_INVALID_DATA 2)"
  "map_option snd (evd_json_filter_feed_len False (idle_filter (Some 1) None None) (ascii ''[1.]'')) =
     Some ([(1, None, ascii ''[1.]'')], FeedOk)"
  by code_simp+

text \<open>
  The automaton is not the JSON grammar at two points of its number states: the JSON text
  \<open>[0e1]\<close> is rejected (at the \<open>e\<close>) and \<open>[1.]\<close>, which is not JSON, is delivered.
\<close>

theorem json_number_divergence:
  "map_option snd (evd_json_filter_feed_len sg (idle_filter (Some 1) None None) (ascii ''[0e1]'')) =
     Some ([], FeedError G_IO_ERROR_INVALID_DATA 2) \<and>
   map_option snd (evd_json_filter_feed_len sg (idle_filter (Some 1) None None) (ascii ''[1.]'')) =
     Some ([(1, None, ascii ''[1.]'')], FeedOk)"
proof (cases sg)
  case True
  show ?thesis by (simp only: True number_signed simp_thms)
next
  case False
  show ?thesis by (simp only: False number_unsigned simp_thms)
qed

end
