(* ===== verification/Websocket_Frame.thy ===== *)
theory Websocket_Frame
  imports Evd_Prelude
begin

unbundle bit_operations_syntax

text \<open>
  Building a WebSocket frame (\<open>apply_masking\<close> and \<open>build_frame\<close> of
  \<open>evd/evd-websocket-protocol.c\<close>) and the fields its header encodes. The host is a 64-bit
  little-endian one: \<open>mem64\<close> and \<open>mem32\<close> are the bytes of an integer in memory, and the
  \<open>..._FROM_BE\<close> macros swap bytes. The random masking key is an argument.
\<close>

section \<open>Integers in memory\<close>

definition mem64 :: "64 word \<Rightarrow> byte list" where
  "mem64 x = map (\<lambda>i. ucast (drop_bit (8 * i) x)) [0..<8]"

definition mem32 :: "32 word \<Rightarrow> byte list" where
  "mem32 x = map (\<lambda>i. ucast (drop_bit (8 * i) x)) [0..<4]"

text \<open>The value of a little-endian run of bytes (\<open>memcpy\<close> into an integer variable).\<close>

fun le_value :: "byte list \<Rightarrow> nat" where
  "le_value [] = 0"
| "le_value (b # bs) = unat b + 256 * le_value bs"

definition GUINT16_FROM_BE :: "16 word \<Rightarrow> 16 word" where
  "GUINT16_FROM_BE x = of_nat (le_value (rev (map (\<lambda>i. ucast (drop_bit (8 * i) x)) [0..<2])))"

definition GUINT64_FROM_BE :: "64 word \<Rightarrow> 64 word" where
  "GUINT64_FROM_BE x = of_nat (le_value (rev (mem64 x)))"

section \<open>Frames\<close>

definition HEADER_MASK_FIN :: "16 word" where "HEADER_MASK_FIN = push_bit 15 1"

definition HEADER_MASK_OPCODE :: "16 word" where
  "HEADER_MASK_OPCODE = push_bit 8 1 OR push_bit 9 1 OR push_bit 10 1 OR push_bit 11 1"

definition HEADER_MASK_MASKED :: "16 word" where "HEADER_MASK_MASKED = push_bit 7 1"

definition HEADER_MASK_PAYLOAD_LEN :: "16 word" where
  "HEADER_MASK_PAYLOAD_LEN = 0x00FF AND NOT (push_bit 7 1)"

definition OPCODE_CONTINUATION :: byte where "OPCODE_CONTINUATION = 0"
definition OPCODE_TEXT_FRAME :: byte where "OPCODE_TEXT_FRAME = 1"
definition OPCODE_BINARY_FRAME :: byte where "OPCODE_BINARY_FRAME = 2"
definition OPCODE_CLOSE :: byte where "OPCODE_CLOSE = 8"

definition apply_masking :: "byte list \<Rightarrow> byte list \<Rightarrow> byte list" where
  "apply_masking frame masking_key =
     map (\<lambda>i. frame ! i XOR masking_key ! (i mod 4)) [0..<length frame]"

text \<open>The 16 header bits, without the length field.\<close>

definition header_flags :: "bool \<Rightarrow> byte \<Rightarrow> bool \<Rightarrow> 16 word" where
  "header_flags fin opcode masked =
     (if fin then HEADER_MASK_FIN else 0) OR push_bit 8 (ucast opcode) OR
     (if masked then HEADER_MASK_MASKED else 0)"

text \<open>
  \<open>build_frame\<close> appends to \<open>frame\<close>; it stores the header at offsets 0 and 1, so its callers
  pass an empty string. \<open>G_MAXUINT16\<close> is 65535.
\<close>

definition build_frame ::
  "byte list \<Rightarrow> bool \<Rightarrow> byte \<Rightarrow> bool \<Rightarrow> 32 word \<Rightarrow> byte list \<Rightarrow> byte list"
where
  "build_frame frame fin opcode masked random payload =
     (let payload_len = length payload;
          (header, payload_len_hbo, payload_len_len) =
            (if payload_len \<le> 125
             then (header_flags fin opcode masked OR of_nat payload_len, 0, 0)
             else if payload_len < 65535
             then (header_flags fin opcode masked OR 126,
                   ucast (GUINT16_FROM_BE (of_nat payload_len)), 2)
             else (header_flags fin opcode masked OR 127,
                   GUINT64_FROM_BE (of_nat payload_len), 8));
          frame = (frame @ [0, 0])
            [0 := ucast (drop_bit 8 (header AND 0xFF00)), 1 := ucast (header AND 0x00FF)];
          frame = (if 0 < payload_len_len
                   then frame @ take payload_len_len (mem64 payload_len_hbo) else frame);
          masking_key = mem32 random
      in if masked then frame @ masking_key @ apply_masking payload masking_key
         else frame @ payload)"

section \<open>Masking\<close>

lemma length_apply_masking [simp]: "length (apply_masking xs k) = length xs"
  by (simp add: apply_masking_def)

lemma apply_masking_nth: "i < length xs \<Longrightarrow> apply_masking xs k ! i = xs ! i XOR k ! (i mod 4)"
  by (simp add: apply_masking_def)

lemma apply_masking_twice [simp]: "apply_masking (apply_masking xs k) k = xs"
  by (rule nth_equalityI) (simp_all add: apply_masking_nth xor.assoc)

lemma apply_masking_Nil [simp]: "apply_masking [] k = []"
  by (simp add: apply_masking_def)

section \<open>Byte order\<close>

lemma length_mem [simp]: "length (mem64 x) = 8" "length (mem32 y) = 4"
  by (simp_all add: mem64_def mem32_def)

lemma le_value_append: "le_value (xs @ ys) = le_value xs + 256 ^ length xs * le_value ys"
  by (induction xs) (simp_all add: algebra_simps)

lemma le_value_bound: "le_value xs < 256 ^ length xs"
proof (induction xs)
  case (Cons b bs)
  have "unat b < 256" using unsigned_less [of b, where 'a = nat] by simp
  with Cons show ?case by simp
qed simp

lemma unat_byte: "unat (ucast (drop_bit n (w :: 'a :: len word)) :: byte) = unat w div 2 ^ n mod 256"
proof -
  have "unat (ucast (drop_bit n w) :: byte) = take_bit 8 (unat (drop_bit n w))"
    by (simp only: unsigned_ucast_eq) simp
  also have "unat (drop_bit n w) = unat w div 2 ^ n"
    by (simp only: unat_drop_bit_eq) (simp only: drop_bit_eq_div)
  finally show ?thesis by (simp add: take_bit_eq_mod)
qed

text \<open>The bytes of an integer, little end first, and back.\<close>

definition digits :: "nat \<Rightarrow> nat \<Rightarrow> byte list" where
  "digits k n = map (\<lambda>i. of_nat (n div 256 ^ i)) [0..<k]"

lemma length_digits [simp]: "length (digits k n) = k"
  by (simp add: digits_def)

lemma digits_Suc: "digits (Suc k) n = of_nat n # digits k (n div 256)"
proof -
  have "[0..<Suc k] = 0 # map Suc [0..<k]" by (simp add: upt_conv_Cons map_Suc_upt)
  then show ?thesis by (simp add: digits_def comp_def div_mult2_eq)
qed

lemma digits_le_value: "digits (length xs) (le_value xs) = xs"
proof (induction xs)
  case Nil
  show ?case by (simp add: digits_def)
next
  case (Cons b bs)
  have b: "unat b < 256" using unsigned_less [of b, where 'a = nat] by simp
  then have "(unat b + 256 * le_value bs) div 256 = le_value bs" by simp
  moreover have "(of_nat (unat b + 256 * le_value bs) :: byte) = b"
    using b by (simp only: word_unat_eq_iff unat_of_nat) simp
  ultimately show ?case using Cons by (simp add: digits_Suc)
qed

lemma le_value_digits: "le_value (digits k n) = n mod 256 ^ k"
proof (induction k arbitrary: n)
  case 0
  show ?case by (simp add: digits_def)
next
  case (Suc k)
  then show ?case by (simp add: digits_Suc unat_of_nat mod_mult2_eq add.commute)
qed

lemma mem64_digits: "mem64 x = digits 8 (unat x)"
  unfolding mem64_def digits_def
proof (rule map_cong [OF refl])
  fix i assume "i \<in> set [0..<8]"
  show "ucast (drop_bit (8 * i) x) = (of_nat (unat x div 256 ^ i) :: byte)"
    by (simp add: word_unat_eq_iff unat_byte unat_of_nat power_mult)
qed

lemma mem64_of_le_value: "length bs = 8 \<Longrightarrow> mem64 (of_nat (le_value bs)) = bs"
  using le_value_bound [of bs] digits_le_value [of bs]
  by (simp add: mem64_digits unat_of_nat)

lemma mem64_from_be: "mem64 (GUINT64_FROM_BE x) = rev (mem64 x)"
  by (simp add: GUINT64_FROM_BE_def mem64_of_le_value)

text \<open>A 64-bit big-endian length: written by \<open>build_frame\<close>, read by \<open>read_payload_len\<close>.\<close>

lemma guint64_roundtrip:
  "n < 2 ^ 64 \<Longrightarrow>
     GUINT64_FROM_BE (of_nat (le_value (mem64 (GUINT64_FROM_BE (of_nat n))))) = of_nat n"
  by (simp add: mem64_from_be GUINT64_FROM_BE_def [of "of_nat (le_value (rev (mem64 (of_nat n))))"]
      mem64_of_le_value) (simp add: mem64_digits le_value_digits unat_of_nat)

lemma guint16_bytes: "map (\<lambda>i. ucast (drop_bit (8 * i) (x :: 16 word))) [0..<2] = digits 2 (unat x)"
  unfolding digits_def
proof (rule map_cong [OF refl])
  fix i assume "i \<in> set [0..<2]"
  show "ucast (drop_bit (8 * i) x) = (of_nat (unat x div 256 ^ i) :: byte)"
    by (simp add: word_unat_eq_iff unat_byte unat_of_nat power_mult)
qed

lemma guint16_from_be_bytes: "digits 2 (unat (GUINT16_FROM_BE x)) = rev (digits 2 (unat x))"
proof -
  let ?bs = "rev (digits 2 (unat x))"
  have "unat (GUINT16_FROM_BE x) = le_value ?bs"
    unfolding GUINT16_FROM_BE_def guint16_bytes
    using le_value_bound [of ?bs] by (simp add: unat_of_nat)
  with digits_le_value [of ?bs] show ?thesis by simp
qed

lemma take_mem64_guint16:
  "take 2 (mem64 (ucast (GUINT16_FROM_BE x))) = rev (digits 2 (unat x))"
proof -
  have "unat (ucast (GUINT16_FROM_BE x) :: 64 word) = unat (GUINT16_FROM_BE x)"
    using unsigned_less [of "GUINT16_FROM_BE x", where 'a = nat]
    by (simp only: unsigned_ucast_eq) (simp add: take_bit_nat_eq_self)
  moreover have "take 2 (digits 8 n) = digits 2 n" for n
    by (simp add: digits_def upt_rec)
  ultimately show ?thesis by (simp add: mem64_digits guint16_from_be_bytes)
qed

lemma guint16_roundtrip:
  assumes "n < 65536"
  shows "GUINT16_FROM_BE (of_nat (le_value (take 2 (mem64 (ucast (GUINT16_FROM_BE (of_nat n))))))) = of_nat n"
proof -
  let ?x = "of_nat n :: 16 word"
  let ?y = "of_nat (le_value (rev (digits 2 (unat ?x)))) :: 16 word"
  have "unat ?y = le_value (rev (digits 2 (unat ?x)))"
    using le_value_bound [of "rev (digits 2 (unat ?x))"] by (simp add: unat_of_nat)
  then have "digits 2 (unat ?y) = rev (digits 2 (unat ?x))"
    using digits_le_value [of "rev (digits 2 (unat ?x))"] by simp
  then have "GUINT16_FROM_BE ?y = of_nat (le_value (digits 2 (unat ?x)))"
    by (simp only: GUINT16_FROM_BE_def guint16_bytes rev_rev_ident)
  also have "le_value (digits 2 (unat ?x)) = n"
    using assms by (simp add: le_value_digits unat_of_nat)
  finally show ?thesis by (simp only: take_mem64_guint16)
qed

section \<open>Header fields\<close>

lemma below_8:
  "k < 8 \<Longrightarrow> k = 0 \<or> k = 1 \<or> k = 2 \<or> k = 3 \<or> k = 4 \<or> k = 5 \<or> k = 6 \<or> k = (7 :: nat)"
  by auto
lemma bit_small:
  assumes "n < 128" "7 \<le> k"
  shows "\<not> bit (n::nat) k"
  using assms bit_take_bit_iff [of 7 n k] take_bit_nat_eq_self [of n 7] by simp

lemma flags_byte0:
  assumes "n < 128"
  shows "(ucast (drop_bit 8 ((header_flags fin opcode masked OR of_nat n) AND 0xFF00)) :: byte) =
    (if fin then 0x80 else 0) OR opcode"
proof (rule bit_word_eqI)
  fix k assume "k < LENGTH(8)"
  then have k: "k < 8" by simp
  have n: "\<not> bit n (8 + k)" using assms by (simp add: bit_small)
  show "bit (ucast (drop_bit 8 ((header_flags fin opcode masked OR of_nat n) AND 0xFF00)) :: byte) k
     = bit ((if fin then 0x80 else 0) OR opcode) k"
    using below_8 [OF k] n
    by (elim disjE) (simp_all add: bit_simps header_flags_def HEADER_MASK_FIN_def HEADER_MASK_MASKED_def)
qed

lemma header_word_bytes:
  "push_bit 8 (ucast (ucast (drop_bit 8 (h AND 0xFF00)) :: byte)) +
     ucast (ucast (h AND 0x00FF) :: byte) = (h :: 16 word)"
proof -
  let ?a = "push_bit 8 (ucast (ucast (drop_bit 8 (h AND 0xFF00)) :: byte)) :: 16 word"
  let ?b = "ucast (ucast (h AND 0x00FF) :: byte) :: 16 word"
  have m: "(0xFF00 :: 16 word) = push_bit 8 (mask 8)" "(0xFF :: 16 word) = mask 8"
    by (simp_all add: mask_eq_exp_minus_1 push_bit_eq_mult)
  have "?a + ?b = ?a OR ?b"
    unfolding m by (rule disjunctive_add) (auto simp: bit_simps)
  also have "\<dots> = h"
    unfolding m by (rule bit_word_eqI) (auto simp: bit_simps)
  finally show ?thesis .
qed

lemma flags_fields:
  fixes fin masked :: bool and opcode :: byte and n :: nat
  assumes "n < 128" and "opcode < 16"
  defines "h \<equiv> header_flags fin opcode masked OR of_nat n"
  shows "h AND HEADER_MASK_FIN \<noteq> 0 \<longleftrightarrow> fin"
    "h AND HEADER_MASK_MASKED \<noteq> 0 \<longleftrightarrow> masked"
    "unat (h AND HEADER_MASK_PAYLOAD_LEN) = n"
    "ucast (drop_bit 8 (h AND HEADER_MASK_OPCODE)) = opcode"
proof -
  have op: "\<not> bit opcode k" if "4 \<le> k" for k
  proof -
    have "opcode = take_bit 4 opcode"
      using assms(2) by (simp add: word_unat_eq_iff unsigned_take_bit_eq take_bit_nat_eq_self word_less_nat_alt)
    then show ?thesis using that by (metis bit_take_bit_iff not_le)
  qed
  show "h AND HEADER_MASK_FIN \<noteq> 0 \<longleftrightarrow> fin"
    unfolding HEADER_MASK_FIN_def bit_iff_and_push_bit_not_eq_0 [symmetric]
    using assms(1) op by (simp add: h_def header_flags_def bit_simps bit_small HEADER_MASK_FIN_def HEADER_MASK_MASKED_def)
  show "h AND HEADER_MASK_MASKED \<noteq> 0 \<longleftrightarrow> masked"
    unfolding HEADER_MASK_MASKED_def bit_iff_and_push_bit_not_eq_0 [symmetric]
    using assms(1) by (simp add: h_def header_flags_def bit_simps bit_small HEADER_MASK_FIN_def HEADER_MASK_MASKED_def)
  have "HEADER_MASK_PAYLOAD_LEN = mask 7"
    by (simp add: HEADER_MASK_PAYLOAD_LEN_def mask_eq_exp_minus_1)
  then have "h AND HEADER_MASK_PAYLOAD_LEN = take_bit 7 h" by (simp add: take_bit_eq_mask)
  also have "\<dots> = of_nat n"
  proof (rule bit_word_eqI)
    fix k assume "k < LENGTH(16)"
    show "bit (take_bit 7 h) k = bit (of_nat n :: 16 word) k"
    proof (cases "k < 7")
      case True
      then have "k < 8" by simp
      from below_8 [OF this] True show ?thesis
        by (elim disjE) (simp_all add: h_def header_flags_def bit_simps HEADER_MASK_FIN_def
            HEADER_MASK_MASKED_def)
    next
      case False
      with assms(1) bit_small [of n k] show ?thesis by (simp add: bit_simps)
    qed
  qed
  finally have "h AND HEADER_MASK_PAYLOAD_LEN = of_nat n" .
  then show "unat (h AND HEADER_MASK_PAYLOAD_LEN) = n" using assms(1) by (simp add: unat_of_nat)
  show "ucast (drop_bit 8 (h AND HEADER_MASK_OPCODE)) = opcode"
  proof (rule bit_word_eqI)
    fix k assume "k < LENGTH(8)"
    then have k: "k < 8" by simp
    show "bit (ucast (drop_bit 8 (h AND HEADER_MASK_OPCODE)) :: byte) k = bit opcode k"
      using below_8 [OF k] op [of k] assms(1)
      by (elim disjE) (auto simp: h_def header_flags_def bit_simps bit_small HEADER_MASK_OPCODE_def HEADER_MASK_FIN_def HEADER_MASK_MASKED_def)
  qed
qed
text \<open>The parts of a frame: two header bytes, the extended length, the key, the payload.\<close>

definition length_code :: "nat \<Rightarrow> nat" where
  "length_code n = (if n \<le> 125 then n else if n < 65535 then 126 else 127)"

definition length_bytes :: "nat \<Rightarrow> byte list" where
  "length_bytes n =
     (if n \<le> 125 then []
      else if n < 65535 then take 2 (mem64 (ucast (GUINT16_FROM_BE (of_nat n))))
      else mem64 (GUINT64_FROM_BE (of_nat n)))"

definition masking_bytes :: "bool \<Rightarrow> 32 word \<Rightarrow> byte list \<Rightarrow> byte list" where
  "masking_bytes masked random payload =
     (if masked then mem32 random @ apply_masking payload (mem32 random) else payload)"

definition header_bytes :: "16 word \<Rightarrow> byte list" where
  "header_bytes h = [ucast (drop_bit 8 (h AND 0xFF00)), ucast (h AND 0x00FF)]"

lemma length_code_less: "length_code n < 128"
  by (simp add: length_code_def)

lemma build_frame_eq:
  "build_frame [] fin opcode masked random payload =
     header_bytes (header_flags fin opcode masked OR of_nat (length_code (length payload))) @
     length_bytes (length payload) @ masking_bytes masked random payload"
  by (simp add: build_frame_def length_code_def length_bytes_def masking_bytes_def
      header_bytes_def Let_def)

lemma build_frame_first:
  "build_frame [] fin opcode masked random payload \<noteq> [] \<and>
   hd (build_frame [] fin opcode masked random payload) = (if fin then 0x80 else 0) OR opcode"
  using flags_byte0 [OF length_code_less [of "length payload"], of fin opcode masked]
  by (simp only: build_frame_eq header_bytes_def append_Cons list.sel list.distinct simp_thms)

end
