(* ===== verification/Websocket_Protocol.thy ===== *)
theory Websocket_Protocol
  imports Websocket_Frame
begin

text \<open>
  The WebSocket protocol of one connection, \<open>evd/evd-websocket-protocol.c\<close>: reading frames
  from the input buffer, sending data and close frames, the closing handshake with its
  timeout and flush, binding and unbinding of the callbacks.

  The state is the \<open>EvdWebsocketData\<close> attached to the connection (\<open>None\<close>: the connection
  is not a WebSocket). \<open>ws_buf\<close> holds the valid bytes of the input buffer (its length is
  \<open>buf_len\<close>), \<open>ws_buf_size\<close> the size of the \<open>GString\<close> (\<open>buf->len\<close>, \<open>None\<close> for a NULL
  \<open>buf\<close>). What the code asks of others is a list of events. Pending asynchronous operations
  are counted: \<open>ws_reads\<close>, \<open>ws_flushes\<close>, and \<open>ws_close_timeout\<close> for the timeout source;
  \<open>ws_refs\<close> counts the references on the connection that this module holds. Callbacks are
  observers: they do not call back into the module. The result \<^term>\<open>None\<close> of an operation
  is a crash: a call of a NULL callback, a failed assertion, a write past the buffer, an
  unbalanced \<open>g_object_unref\<close>, or the loop that never ends on a reading state the code never
  sets.
\<close>

section \<open>Data\<close>

datatype EvdWebsocketState =
    EVD_WEBSOCKET_STATE_NONE
  | EVD_WEBSOCKET_STATE_OPENING
  | EVD_WEBSOCKET_STATE_OPENED
  | EVD_WEBSOCKET_STATE_CLOSING
  | EVD_WEBSOCKET_STATE_CLOSED

datatype EvdWebsocketReadingStates =
    EVD_WEBSOCKET_READING_STATE_IDLE
  | EVD_WEBSOCKET_READING_STATE_PAYLOAD_LEN
  | EVD_WEBSOCKET_READING_STATE_HEADER
  | EVD_WEBSOCKET_READING_STATE_MASKING_KEY
  | EVD_WEBSOCKET_READING_STATE_PAYLOAD
  | EVD_WEBSOCKET_READING_STATE_PADDING0
  | EVD_WEBSOCKET_READING_STATE_PADDING1
  | EVD_WEBSOCKET_READING_STATE_PADDING2
  | EVD_WEBSOCKET_READING_STATE_PADDING3

type_synonym pointer = "nat option"

definition BLOCK_SIZE :: nat where "BLOCK_SIZE = 0x0FFF"

definition MAX_FRAGMENT_SIZE :: nat where "MAX_FRAGMENT_SIZE = 0x10000000"

definition EVD_WEBSOCKET_CLOSE_NORMAL :: "16 word" where "EVD_WEBSOCKET_CLOSE_NORMAL = 1000"

definition EVD_WEBSOCKET_CLOSE_NO_STATUS :: "16 word" where
  "EVD_WEBSOCKET_CLOSE_NO_STATUS = 1005"

record EvdWebsocketData =
  ws_server :: bool
  ws_frame_cb :: pointer
  ws_close_cb :: pointer
  ws_user_data :: pointer
  ws_destroy_notify :: pointer
  ws_state :: EvdWebsocketState
  ws_reading_state :: EvdWebsocketReadingStates
  ws_buf :: "byte list"
  ws_buf_size :: "nat option"
  ws_offset :: nat
  ws_opcode :: byte
  ws_payload_len :: nat
  ws_close_frame_sent :: bool
  ws_close_frame_received :: bool
  ws_close_code :: "16 word"
  ws_fin :: bool
  ws_masked :: bool
  ws_masking_key :: "byte list"
  ws_extension_len :: nat
  ws_close_timeout :: bool
  ws_reads :: nat
  ws_flushes :: nat
  ws_refs :: nat
  ws_random :: nat

text \<open>
  Events: a callback of the user, bytes handed to the output stream, the connection closed, a
  close frame seen by the reader. \<open>ws_env\<close> is the environment of a call: the numbers
  \<open>g_random_int\<close> gives, in order, and the outcome of \<open>g_output_stream_write\<close>.
\<close>

datatype ws_event =
    Frame_cb nat "byte list" bool pointer
  | Close_cb nat bool pointer
  | Destroy_notify nat nat
  | Written "byte list"
  | Stream_closed
  | Close_received

record ws_env =
  env_random :: "nat \<Rightarrow> 32 word"
  env_write :: "byte list \<Rightarrow> gio_error + nat"

type_synonym ws_result = "(EvdWebsocketData \<times> ws_event list) option"

definition gssize_result :: "gio_error + nat \<Rightarrow> int" where
  "gssize_result r = (case r of Inl _ \<Rightarrow> -1 | Inr n \<Rightarrow> int n)"

definition set_error :: "gio_error + nat \<Rightarrow> gio_error option" where
  "set_error r = (case r of Inl e \<Rightarrow> Some e | Inr _ \<Rightarrow> None)"

definition g_object_unref_conn :: "EvdWebsocketData \<Rightarrow> EvdWebsocketData option" where
  "g_object_unref_conn d = (if ws_refs d = 0 then None else Some (d\<lparr>ws_refs := ws_refs d - 1\<rparr>))"

section \<open>Sending\<close>

definition send_close_frame ::
  "ws_env \<Rightarrow> EvdWebsocketData \<Rightarrow> EvdWebsocketData \<times> ws_event list \<times> bool \<times> gio_error option"
where
  "send_close_frame env d =
     (let masked = \<not> ws_server d;
          frame = build_frame [] True OPCODE_CLOSE masked (env_random env (ws_random d)) [];
          r = env_write env frame
      in (if masked then d\<lparr>ws_random := Suc (ws_random d)\<rparr> else d,
          [Written frame], \<not> gssize_result r < 0, set_error r))"

text \<open>The fragment that the loop of \<open>send_data_frame\<close> writes after \<open>bytes_sent\<close> bytes.\<close>

definition fragment_len :: "byte list \<Rightarrow> nat \<Rightarrow> nat" where
  "fragment_len frame bytes_sent = min MAX_FRAGMENT_SIZE (length frame - bytes_sent)"

definition data_fragment ::
  "ws_env \<Rightarrow> EvdWebsocketData \<Rightarrow> byte list \<Rightarrow> nat \<Rightarrow> EvdMessageType \<Rightarrow> byte list"
where
  "data_fragment env d frame bytes_sent frame_type =
     (let bytes_left = length frame - bytes_sent;
          frag_len = fragment_len frame bytes_sent;
          fin = (frag_len \<ge> bytes_left);
          opcode = (if bytes_sent = 0
                    then (if frame_type = EVD_MESSAGE_TYPE_TEXT then OPCODE_TEXT_FRAME
                          else OPCODE_BINARY_FRAME)
                    else OPCODE_CONTINUATION);
          masked = (\<not> ws_server d)
      in build_frame [] fin opcode masked (env_random env (ws_random d))
           (take frag_len (drop bytes_sent frame)))"

text \<open>
  The test of \<open>send_data_frame\<close> is \<open>! g_output_stream_write (...) < 0\<close>: the negation,
  0 or 1, is compared with 0.
\<close>

function send_data_loop ::
  "ws_env \<Rightarrow> EvdWebsocketData \<Rightarrow> byte list \<Rightarrow> nat \<Rightarrow> EvdMessageType \<Rightarrow> gio_error option \<Rightarrow>
     EvdWebsocketData \<times> ws_event list \<times> bool \<times> gio_error option"
where
  "send_data_loop env d frame bytes_sent frame_type err =
     (if \<not> 0 < length frame - bytes_sent then (d, [], True, err)
      else
        let frag = data_fragment env d frame bytes_sent frame_type;
            d' = (if \<not> ws_server d then d\<lparr>ws_random := Suc (ws_random d)\<rparr> else d);
            r = env_write env frag;
            err' = (case set_error r of Some e \<Rightarrow> Some e | None \<Rightarrow> err)
        in if (if gssize_result r = 0 then 1 else 0) < (0 :: int)
           then (d', [Written frag], False, err')
           else (case send_data_loop env d' frame (bytes_sent + fragment_len frame bytes_sent)
                        frame_type err' of
                   (d'', ev, result, err'') \<Rightarrow> (d'', Written frag # ev, result, err'')))"
  by pat_completeness auto
termination
  by (relation "measure (\<lambda>(env, d, frame, bytes_sent, frame_type, err). length frame - bytes_sent)")
    (auto simp: fragment_len_def MAX_FRAGMENT_SIZE_def)

declare send_data_loop.simps [simp del]

definition send_data_frame ::
  "ws_env \<Rightarrow> EvdWebsocketData \<Rightarrow> byte list \<Rightarrow> EvdMessageType \<Rightarrow>
     EvdWebsocketData \<times> ws_event list \<times> bool \<times> gio_error option"
where
  "send_data_frame env d frame frame_type = send_data_loop env d frame 0 frame_type None"

section \<open>Closing\<close>

definition finish_close_handshake :: "EvdWebsocketData \<Rightarrow> 16 word \<Rightarrow> ws_result" where
  "finish_close_handshake d code =
     (let d = d\<lparr>ws_state := EVD_WEBSOCKET_STATE_CLOSED\<rparr>;
          gracefully = (code = EVD_WEBSOCKET_CLOSE_NORMAL \<or> code = EVD_WEBSOCKET_CLOSE_NO_STATUS);
          ev = (case ws_close_cb d of None \<Rightarrow> [] | Some cb \<Rightarrow> [Close_cb cb gracefully (ws_user_data d)])
               @ [Stream_closed]
      in if ws_close_timeout d
         then (case g_object_unref_conn (d\<lparr>ws_close_timeout := False\<rparr>) of
                 None \<Rightarrow> None | Some d' \<Rightarrow> Some (d', ev))
         else Some (d, ev))"

text \<open>\<open>evd_websocket_protocol_close\<close> on a WebSocket connection.\<close>

definition close_websocket ::
  "ws_env \<Rightarrow> EvdWebsocketData \<Rightarrow> 16 word \<Rightarrow>
     (EvdWebsocketData \<times> ws_event list \<times> bool \<times> gio_error option) option"
where
  "close_websocket env d code =
     (if ws_state d = EVD_WEBSOCKET_STATE_CLOSING \<or> ws_state d = EVD_WEBSOCKET_STATE_CLOSED
      then Some (d, [], True, None)
      else
        let d = d\<lparr>ws_state := EVD_WEBSOCKET_STATE_CLOSING\<rparr> in
        if ws_close_frame_sent d then None
        else (case send_close_frame env d of
                (d, ev, result, err) \<Rightarrow>
                  let d = d\<lparr>ws_close_frame_sent := True\<rparr>;
                      d = d\<lparr>ws_refs := Suc (ws_refs d)\<rparr>
                  in Some (if ws_close_frame_received d
                           then d\<lparr>ws_close_code := code, ws_flushes := Suc (ws_flushes d)\<rparr>
                           else d\<lparr>ws_close_timeout := True\<rparr>,
                           ev, result, err)))"

definition evd_websocket_protocol_close ::
  "ws_env \<Rightarrow> EvdWebsocketData option \<Rightarrow> 16 word \<Rightarrow>
     (EvdWebsocketData option \<times> ws_event list \<times> bool \<times> gio_error option) option"
where
  "evd_websocket_protocol_close env data code =
     (case data of
        None \<Rightarrow> Some (None, [], False, Some G_IO_ERROR_NOT_INITIALIZED)
      | Some d \<Rightarrow> (case close_websocket env d code of
                     None \<Rightarrow> None | Some (d', ev, r, err) \<Rightarrow> Some (Some d', ev, r, err)))"

definition on_close_frame_received ::
  "ws_env \<Rightarrow> EvdWebsocketData \<Rightarrow> 16 word \<Rightarrow> ws_result"
where
  "on_close_frame_received env d code =
     (let d = d\<lparr>ws_close_frame_received := True\<rparr> in
      if ws_state d = EVD_WEBSOCKET_STATE_CLOSING
      then (case finish_close_handshake d code of
              None \<Rightarrow> None | Some (d', ev) \<Rightarrow> Some (d', Close_received # ev))
      else (case close_websocket env d code of
              None \<Rightarrow> None | Some (d', ev, _) \<Rightarrow> Some (d', Close_received # ev)))"

definition on_connection_flushed :: "EvdWebsocketData \<Rightarrow> ws_result" where
  "on_connection_flushed d =
     (case finish_close_handshake d (ws_close_code d) of
        None \<Rightarrow> None
      | Some (d', ev) \<Rightarrow>
          (case g_object_unref_conn (d'\<lparr>ws_flushes := ws_flushes d' - 1\<rparr>) of
             None \<Rightarrow> None | Some d'' \<Rightarrow> Some (d'', ev)))"

definition close_timeout :: "EvdWebsocketData \<Rightarrow> ws_result" where
  "close_timeout d =
     (let d = d\<lparr>ws_close_timeout := False, ws_state := EVD_WEBSOCKET_STATE_CLOSED\<rparr> in
      case ws_close_cb d of
        None \<Rightarrow> None
      | Some cb \<Rightarrow> (case g_object_unref_conn d of
                      None \<Rightarrow> None
                    | Some d' \<Rightarrow> Some (d', [Close_cb cb False (ws_user_data d), Stream_closed])))"

section \<open>Reading frames\<close>

definition handle_control_frame :: "ws_env \<Rightarrow> EvdWebsocketData \<Rightarrow> ws_result" where
  "handle_control_frame env d =
     (if ws_opcode d = OPCODE_CLOSE
      then on_close_frame_received env d EVD_WEBSOCKET_CLOSE_NO_STATUS
      else Some (d\<lparr>ws_state := EVD_WEBSOCKET_STATE_CLOSED\<rparr>, [Stream_closed]))"

text \<open>A complete frame: what \<open>read_payload\<close> does before it resets the reading state.\<close>

definition frame_complete :: "ws_env \<Rightarrow> EvdWebsocketData \<Rightarrow> ws_result" where
  "frame_complete env d =
     (let frame_len = ws_payload_len d - ws_extension_len d;
          frame_data = take frame_len (drop (ws_offset d + ws_extension_len d) (ws_buf d));
          frame_data = (if ws_masked d then apply_masking frame_data (ws_masking_key d)
                        else frame_data)
      in if ws_opcode d \<ge> OPCODE_CLOSE then handle_control_frame env d
         else if ws_fin d
         then (case ws_frame_cb d of
                 None \<Rightarrow> None
               | Some cb \<Rightarrow> Some (d, [Frame_cb cb frame_data (ws_opcode d = OPCODE_BINARY_FRAME)
                                        (ws_user_data d)]))
         else Some (d\<lparr>ws_state := EVD_WEBSOCKET_STATE_CLOSED\<rparr>, [Stream_closed]))"

definition reset_reading :: "EvdWebsocketData \<Rightarrow> EvdWebsocketData" where
  "reset_reading d =
     (let offset = ws_offset d + ws_payload_len d in
      d\<lparr>ws_reading_state := EVD_WEBSOCKET_READING_STATE_IDLE,
        ws_buf := drop offset (ws_buf d),
        ws_buf_size := map_option (\<lambda>n. n - offset) (ws_buf_size d),
        ws_offset := 0\<rparr>)"

text \<open>The readers return whether there was enough data.\<close>

definition read_payload ::
  "ws_env \<Rightarrow> EvdWebsocketData \<Rightarrow> (EvdWebsocketData \<times> ws_event list \<times> bool) option"
where
  "read_payload env d =
     (if length (ws_buf d) - ws_offset d < ws_payload_len d then Some (d, [], False)
      else (case frame_complete env d of
              None \<Rightarrow> None | Some (d', ev) \<Rightarrow> Some (reset_reading d', ev, True)))"

definition read_masking_key ::
  "ws_env \<Rightarrow> EvdWebsocketData \<Rightarrow> (EvdWebsocketData \<times> ws_event list \<times> bool) option"
where
  "read_masking_key env d =
     (if length (ws_buf d) - ws_offset d < 4 then Some (d, [], False)
      else
        let d = d\<lparr>ws_masking_key := take 4 (drop (ws_offset d) (ws_buf d)),
                  ws_offset := ws_offset d + 4,
                  ws_reading_state := EVD_WEBSOCKET_READING_STATE_PAYLOAD\<rparr>
        in if ws_payload_len d = 0 then read_payload env d else Some (d, [], True))"

definition read_payload_len :: "EvdWebsocketData \<Rightarrow> EvdWebsocketData \<times> bool" where
  "read_payload_len d =
     (let next = (if ws_masked d then EVD_WEBSOCKET_READING_STATE_MASKING_KEY
                  else EVD_WEBSOCKET_READING_STATE_PAYLOAD)
      in if ws_payload_len d = 126
         then if length (ws_buf d) - ws_offset d < 2 then (d, False)
              else (let len = of_nat (le_value (take 2 (drop (ws_offset d) (ws_buf d))))
                    in (d\<lparr>ws_offset := ws_offset d + 2,
                          ws_payload_len := unat (GUINT16_FROM_BE len),
                          ws_reading_state := next\<rparr>, True))
         else if length (ws_buf d) - ws_offset d < 8 then (d, False)
              else (let len = of_nat (le_value (take 8 (drop (ws_offset d) (ws_buf d))))
                    in (d\<lparr>ws_offset := ws_offset d + 8,
                          ws_payload_len := unat (GUINT64_FROM_BE len),
                          ws_reading_state := next\<rparr>, True)))"

definition header_word :: "byte list \<Rightarrow> nat \<Rightarrow> 16 word" where
  "header_word buf offset = push_bit 8 (ucast (buf ! offset)) + ucast (buf ! (offset + 1))"

definition read_header :: "EvdWebsocketData \<Rightarrow> EvdWebsocketData \<times> bool" where
  "read_header d =
     (if length (ws_buf d) - ws_offset d < 2 then (d, False)
      else
        let header = header_word (ws_buf d) (ws_offset d);
            payload_len = unat (header AND HEADER_MASK_PAYLOAD_LEN);
            masked = (header AND HEADER_MASK_MASKED \<noteq> 0)
        in (d\<lparr>ws_offset := ws_offset d + 2,
              ws_fin := (header AND HEADER_MASK_FIN \<noteq> 0),
              ws_opcode := ucast (drop_bit 8 (header AND HEADER_MASK_OPCODE)),
              ws_masked := masked,
              ws_payload_len := payload_len,
              ws_reading_state :=
                (if payload_len > 125 then EVD_WEBSOCKET_READING_STATE_PAYLOAD_LEN
                 else if masked then EVD_WEBSOCKET_READING_STATE_MASKING_KEY
                 else EVD_WEBSOCKET_READING_STATE_PAYLOAD)\<rparr>, True))"

text \<open>
  The \<open>switch\<close> of \<open>process_data\<close>, and one round of its loop: the flag is whether the round had
  enough data. The \<open>default\<close> case of the switch does nothing, so the loop would not end.
\<close>

definition process_stage ::
  "ws_env \<Rightarrow> EvdWebsocketData \<Rightarrow> (EvdWebsocketData \<times> ws_event list \<times> bool) option"
where
  "process_stage env d =
     (if ws_reading_state d = EVD_WEBSOCKET_READING_STATE_PAYLOAD_LEN
      then (case read_payload_len d of (d', ok) \<Rightarrow> Some (d', [], ok))
      else if ws_reading_state d = EVD_WEBSOCKET_READING_STATE_MASKING_KEY
      then read_masking_key env d
      else if ws_reading_state d = EVD_WEBSOCKET_READING_STATE_PAYLOAD
      then read_payload env d
      else None)"

definition process_round ::
  "ws_env \<Rightarrow> EvdWebsocketData \<Rightarrow> (EvdWebsocketData \<times> ws_event list \<times> bool) option"
where
  "process_round env d =
     (if ws_reading_state d = EVD_WEBSOCKET_READING_STATE_IDLE
      then (case read_header d of
              (d', ok) \<Rightarrow> if ok then process_stage env d' else Some (d', [], False))
      else process_stage env d)"

definition process_rank :: "EvdWebsocketData \<Rightarrow> nat" where
  "process_rank d =
     (case ws_reading_state d of
        EVD_WEBSOCKET_READING_STATE_IDLE \<Rightarrow> 3
      | EVD_WEBSOCKET_READING_STATE_PAYLOAD_LEN \<Rightarrow> 2
      | EVD_WEBSOCKET_READING_STATE_MASKING_KEY \<Rightarrow> 1
      | _ \<Rightarrow> if ws_offset d = 0 \<and> ws_payload_len d = 0 then 4 else 0)"


text \<open>The closing operations leave the reading part of the state alone.\<close>

definition same_reading :: "EvdWebsocketData \<Rightarrow> EvdWebsocketData \<Rightarrow> bool" where
  "same_reading d d' \<longleftrightarrow>
     ws_buf d' = ws_buf d \<and> ws_offset d' = ws_offset d \<and> ws_payload_len d' = ws_payload_len d \<and>
     ws_reading_state d' = ws_reading_state d \<and> ws_buf_size d' = ws_buf_size d \<and>
     ws_extension_len d' = ws_extension_len d \<and> ws_frame_cb d' = ws_frame_cb d \<and>
     ws_close_cb d' = ws_close_cb d \<and> ws_server d' = ws_server d \<and>
     ws_user_data d' = ws_user_data d \<and> ws_reads d' = ws_reads d"

lemmas close_defs = finish_close_handshake_def close_websocket_def send_close_frame_def
  g_object_unref_conn_def on_close_frame_received_def handle_control_frame_def

lemma finish_close_handshake_same:
  "finish_close_handshake d code = Some (d', ev) \<Longrightarrow> same_reading d d'"
  by (auto simp: close_defs same_reading_def Let_def split: if_splits)

lemma close_websocket_same:
  "close_websocket env d code = Some (d', ev, r) \<Longrightarrow> same_reading d d'"
  by (auto simp: close_defs same_reading_def Let_def split: if_splits)

lemma handle_control_frame_same:
  assumes "handle_control_frame env d = Some (d', ev)"
  shows "same_reading d d'"
proof -
  have "same_reading (d\<lparr>ws_close_frame_received := True\<rparr>) d'" if "ws_opcode d = OPCODE_CLOSE"
    using assms that
    by (auto simp: handle_control_frame_def on_close_frame_received_def Let_def
        split: if_splits option.splits dest: finish_close_handshake_same close_websocket_same)
  with assms show ?thesis
    by (auto simp: handle_control_frame_def same_reading_def split: if_splits)
qed

lemma frame_complete_same: "frame_complete env d = Some (d', ev) \<Longrightarrow> same_reading d d'"
  by (auto simp: frame_complete_def Let_def split: if_splits option.splits
      dest: handle_control_frame_same) (auto simp: same_reading_def)

text \<open>
  A stage that had enough data either consumes bytes of the buffer or moves on to a later stage
  of the frame.
\<close>

lemma read_payload_consumes:
  assumes "read_payload env d = Some (d', ev, True)" and "ws_offset d \<le> length (ws_buf d)"
  shows "ws_reading_state d' = EVD_WEBSOCKET_READING_STATE_IDLE"
    "length (ws_buf d') = length (ws_buf d) - (ws_offset d + ws_payload_len d)"
    "ws_offset d + ws_payload_len d \<le> length (ws_buf d)"
proof -
  from assms obtain c where c: "frame_complete env d = Some (c, ev)" and d': "d' = reset_reading c"
    and le: "\<not> length (ws_buf d) - ws_offset d < ws_payload_len d"
    by (auto simp: read_payload_def split: if_splits option.splits)
  from frame_complete_same [OF c] d'
  show "ws_reading_state d' = EVD_WEBSOCKET_READING_STATE_IDLE"
    "length (ws_buf d') = length (ws_buf d) - (ws_offset d + ws_payload_len d)"
    by (simp_all add: same_reading_def reset_reading_def Let_def)
  from le assms(2) show "ws_offset d + ws_payload_len d \<le> length (ws_buf d)" by simp
qed

lemma read_masking_key_progress:
  assumes "read_masking_key env d = Some (d', ev, True)"
  shows "length (ws_buf d') < length (ws_buf d) \<or>
    ws_buf d' = ws_buf d \<and> ws_reading_state d' = EVD_WEBSOCKET_READING_STATE_PAYLOAD \<and>
    0 < ws_payload_len d'"
proof -
  let ?d = "d\<lparr>ws_masking_key := take 4 (drop (ws_offset d) (ws_buf d)),
    ws_offset := ws_offset d + 4, ws_reading_state := EVD_WEBSOCKET_READING_STATE_PAYLOAD\<rparr>"
  have le: "ws_offset d + 4 \<le> length (ws_buf d)" and
    r: "(if ws_payload_len ?d = 0 then read_payload env ?d else Some (?d, [], True)) =
      Some (d', ev, True)"
    using assms by (auto simp: read_masking_key_def Let_def split: if_splits)
  show ?thesis
  proof (cases "ws_payload_len ?d = 0")
    case True
    with r have "read_payload env ?d = Some (d', ev, True)" by simp
    from read_payload_consumes(2) [OF this] le have "length (ws_buf d') < length (ws_buf d)" by simp
    then show ?thesis ..
  next
    case False
    with r show ?thesis by auto
  qed
qed

lemma process_stage_decreases:
  assumes "process_stage env d = Some (d', ev, True)" and "ws_offset d \<le> length (ws_buf d)"
  shows "length (ws_buf d') < length (ws_buf d) \<or>
    length (ws_buf d') = length (ws_buf d) \<and> process_rank d' < process_rank d"
proof -
  consider
      (len) "ws_reading_state d = EVD_WEBSOCKET_READING_STATE_PAYLOAD_LEN"
        "read_payload_len d = (d', True)"
    | (key) "ws_reading_state d = EVD_WEBSOCKET_READING_STATE_MASKING_KEY"
        "read_masking_key env d = Some (d', ev, True)"
    | (payload) "ws_reading_state d = EVD_WEBSOCKET_READING_STATE_PAYLOAD"
        "read_payload env d = Some (d', ev, True)"
    using assms(1) by (auto simp: process_stage_def split: if_splits prod.splits)
  then show ?thesis
  proof cases
    case len
    then show ?thesis
      by (auto simp: read_payload_len_def process_rank_def Let_def split: if_splits)
  next
    case key
    with read_masking_key_progress [OF key(2)] show ?thesis by (auto simp: process_rank_def)
  next
    case payload
    with read_payload_consumes [OF payload(2) assms(2)] show ?thesis
      by (auto simp: process_rank_def)
  qed
qed

lemma read_header_idle:
  assumes "read_header d = (d', True)"
  shows "ws_buf d' = ws_buf d" "ws_offset d' = ws_offset d + 2"
    "ws_offset d + 2 \<le> length (ws_buf d)" "ws_reading_state d' \<noteq> EVD_WEBSOCKET_READING_STATE_IDLE"
    "process_rank d' \<le> 2"
  using assms by (auto simp: read_header_def process_rank_def Let_def split: if_splits)

lemma process_round_decreases:
  assumes "process_round env d = Some (d', ev, True)" and "ws_offset d < length (ws_buf d)"
  shows "(d', d) \<in> measures [\<lambda>d. length (ws_buf d), process_rank]"
proof (cases "ws_reading_state d = EVD_WEBSOCKET_READING_STATE_IDLE")
  case True
  with assms obtain h where h: "read_header d = (h, True)" "process_stage env h = Some (d', ev, True)"
    by (auto simp: process_round_def split: prod.splits if_splits)
  note hdr = read_header_idle [OF h(1)]
  have "process_rank d = 3" using True by (simp add: process_rank_def)
  with process_stage_decreases [OF h(2)] hdr show ?thesis by auto
next
  case False
  with assms process_stage_decreases [of env d d' ev] show ?thesis by (auto simp: process_round_def)
qed

function process_data ::
  "ws_env \<Rightarrow> EvdWebsocketData \<Rightarrow> (EvdWebsocketData \<times> ws_event list \<times> bool) option"
where
  "process_data env d =
     (if ws_offset d < length (ws_buf d) \<and> ws_state d \<noteq> EVD_WEBSOCKET_STATE_CLOSED
      then (case process_round env d of
              None \<Rightarrow> None
            | Some (d', ev, False) \<Rightarrow> Some (d', ev, True)
            | Some (d', ev, True) \<Rightarrow>
                (case process_data env d' of
                   None \<Rightarrow> None
                 | Some (d'', ev', r) \<Rightarrow> Some (d'', ev @ ev', r)))
      else Some (d, [], ws_state d \<noteq> EVD_WEBSOCKET_STATE_CLOSED))"
  by pat_completeness auto
termination
  by (relation "inv_image (measures [\<lambda>d. length (ws_buf d), process_rank]) snd")
    (auto dest: process_round_decreases)

declare process_data.simps [simp del]

lemma process_data_stop:
  "\<not> (ws_offset d < length (ws_buf d) \<and> ws_state d \<noteq> EVD_WEBSOCKET_STATE_CLOSED) \<Longrightarrow>
     process_data env d = Some (d, [], ws_state d \<noteq> EVD_WEBSOCKET_STATE_CLOSED)"
  by (subst process_data.simps) auto

lemma process_data_round:
  "ws_offset d < length (ws_buf d) \<Longrightarrow> ws_state d \<noteq> EVD_WEBSOCKET_STATE_CLOSED \<Longrightarrow>
     process_data env d =
       (case process_round env d of
          None \<Rightarrow> None
        | Some (d', ev, ok) \<Rightarrow>
            if ok then (case process_data env d' of
                          None \<Rightarrow> None | Some (d'', ev', r) \<Rightarrow> Some (d'', ev @ ev', r))
            else Some (d', ev, True))"
  by (subst process_data.simps) (auto split: option.splits prod.splits bool.splits)

section \<open>The connection: reading, binding, sending\<close>

definition read_from_connection :: "EvdWebsocketData \<Rightarrow> EvdWebsocketData option" where
  "read_from_connection d =
     (case ws_buf_size d of
        None \<Rightarrow> None
      | Some str_len \<Rightarrow>
          Some (d\<lparr>ws_buf_size := Some (if length (ws_buf d) + BLOCK_SIZE \<ge> str_len
                                        then length (ws_buf d) + BLOCK_SIZE else str_len),
                  ws_refs := Suc (ws_refs d),
                  ws_reads := Suc (ws_reads d)\<rparr>))"

text \<open>
  The completion of a read: an error, or the bytes that were stored behind the valid ones (no
  bytes: end of the stream). The reference dropped at the end is the one of this read.
\<close>

definition on_connection_read ::
  "ws_env \<Rightarrow> EvdWebsocketData \<Rightarrow> gio_error + byte list \<Rightarrow> ws_result"
where
  "on_connection_read env d res =
     (case
        (case res of
           Inl e \<Rightarrow> Some (d, if e \<noteq> G_IO_ERROR_CLOSED then [Stream_closed] else [])
         | Inr bytes \<Rightarrow>
             if bytes = [] then Some (d, [])
             else (case ws_buf_size d of
                     None \<Rightarrow> None
                   | Some str_len \<Rightarrow>
                       if length (ws_buf d) + length bytes > str_len then None
                       else
                         let d = d\<lparr>ws_buf := ws_buf d @ bytes\<rparr> in
                         if ws_state d = EVD_WEBSOCKET_STATE_CLOSED then Some (d, [])
                         else (case process_data env d of
                                 None \<Rightarrow> None
                               | Some (d', ev, ok) \<Rightarrow>
                                   if ok then (case read_from_connection d' of
                                                 None \<Rightarrow> None | Some d'' \<Rightarrow> Some (d'', ev))
                                   else Some (d', ev))))
      of None \<Rightarrow> None
       | Some (d', ev) \<Rightarrow>
           (case g_object_unref_conn (d'\<lparr>ws_reads := ws_reads d' - 1\<rparr>) of
              None \<Rightarrow> None | Some d'' \<Rightarrow> Some (d'', ev)))"

definition setup_connection :: "bool \<Rightarrow> EvdWebsocketState \<Rightarrow> EvdWebsocketData" where
  "setup_connection is_server state =
     \<lparr>ws_server = is_server, ws_frame_cb = None, ws_close_cb = None, ws_user_data = None,
      ws_destroy_notify = None, ws_state = state,
      ws_reading_state = EVD_WEBSOCKET_READING_STATE_IDLE, ws_buf = [], ws_buf_size = None,
      ws_offset = 0, ws_opcode = 0, ws_payload_len = 0, ws_close_frame_sent = False,
      ws_close_frame_received = False, ws_close_code = 0, ws_fin = False, ws_masked = False,
      ws_masking_key = [0, 0, 0, 0], ws_extension_len = 0, ws_close_timeout = False,
      ws_reads = 0, ws_flushes = 0, ws_refs = 0, ws_random = 0\<rparr>"

text \<open>
  \<open>evd_websocket_protocol_bind\<close> allocates the buffer with \<open>g_string_new_len ("", BLOCK_SIZE)\<close>,
  which copies \<open>BLOCK_SIZE\<close> bytes from a literal of one byte: \<open>memory\<close> is whatever is found
  there. \<open>buf_len\<close> is not reset.
\<close>

definition evd_websocket_protocol_bind ::
  "byte list \<Rightarrow> EvdWebsocketData option \<Rightarrow> pointer \<Rightarrow> pointer \<Rightarrow> pointer \<Rightarrow> pointer \<Rightarrow>
     EvdWebsocketData option option"
where
  "evd_websocket_protocol_bind memory data frame_cb close_cb user_data user_data_destroy_notify =
     (if frame_cb = None \<or> close_cb = None then Some data
      else (case data of
              None \<Rightarrow> Some None
            | Some d \<Rightarrow>
                if length (ws_buf d) > BLOCK_SIZE then None
                else map_option Some (read_from_connection
                  (d\<lparr>ws_frame_cb := frame_cb, ws_close_cb := close_cb, ws_user_data := user_data,
                     ws_destroy_notify := user_data_destroy_notify,
                     ws_buf := take (length (ws_buf d)) memory,
                     ws_buf_size := Some BLOCK_SIZE\<rparr>))))"

definition destroy_user_data :: "EvdWebsocketData \<Rightarrow> ws_event list" where
  "destroy_user_data d =
     (case (ws_user_data d, ws_destroy_notify d) of
        (Some p, Some f) \<Rightarrow> [Destroy_notify f p] | _ \<Rightarrow> [])"

definition unbind_websocket :: "EvdWebsocketData \<Rightarrow> EvdWebsocketData \<times> ws_event list" where
  "unbind_websocket d =
     (d\<lparr>ws_frame_cb := None, ws_close_cb := None, ws_user_data := None,
        ws_destroy_notify := None\<rparr>, destroy_user_data d)"

definition evd_websocket_protocol_unbind ::
  "EvdWebsocketData option \<Rightarrow> EvdWebsocketData option \<times> ws_event list"
where
  "evd_websocket_protocol_unbind data =
     (case data of
        None \<Rightarrow> (None, [])
      | Some d \<Rightarrow> (case unbind_websocket d of (d', ev) \<Rightarrow> (Some d', ev)))"

text \<open>Freeing the data gives the events and the references left.\<close>

definition free_websocket_connection_data :: "EvdWebsocketData \<Rightarrow> (ws_event list \<times> nat) option" where
  "free_websocket_connection_data d =
     (if ws_close_timeout d
      then map_option (\<lambda>d'. (destroy_user_data d, ws_refs d')) (g_object_unref_conn d)
      else Some (destroy_user_data d, ws_refs d))"

definition send_websocket ::
  "ws_env \<Rightarrow> EvdWebsocketData \<Rightarrow> byte list \<Rightarrow> EvdMessageType \<Rightarrow>
     EvdWebsocketData \<times> ws_event list \<times> bool \<times> gio_error option"
where
  "send_websocket env d frame frame_type =
     (if ws_state d = EVD_WEBSOCKET_STATE_CLOSING \<or> ws_state d = EVD_WEBSOCKET_STATE_CLOSED
      then (d, [], False, Some G_IO_ERROR_CLOSED)
      else send_data_frame env d frame frame_type)"

definition evd_websocket_protocol_send ::
  "ws_env \<Rightarrow> EvdWebsocketData option \<Rightarrow> byte list \<Rightarrow> EvdMessageType \<Rightarrow>
     EvdWebsocketData option \<times> ws_event list \<times> bool \<times> gio_error option"
where
  "evd_websocket_protocol_send env data frame frame_type =
     (case data of
        None \<Rightarrow> (None, [], False, Some G_IO_ERROR_NOT_INITIALIZED)
      | Some d \<Rightarrow> (case send_websocket env d frame frame_type of
                     (d', ev, r, err) \<Rightarrow> (Some d', ev, r, err)))"

definition evd_websocket_protocol_get_state :: "EvdWebsocketData option \<Rightarrow> EvdWebsocketState" where
  "evd_websocket_protocol_get_state data =
     (case data of None \<Rightarrow> EVD_WEBSOCKET_STATE_NONE | Some d \<Rightarrow> ws_state d)"

section \<open>The life of a connection\<close>

text \<open>
  What can happen to a bound connection: the user's calls and the completions of what the module
  started. A completion of something that is not pending does not happen.
\<close>

datatype ws_op =
    Op_unbind
  | Op_close "16 word"
  | Op_send "byte list" EvdMessageType
  | Op_read "gio_error + byte list"
  | Op_flushed
  | Op_timeout

definition ws_step :: "ws_env \<Rightarrow> EvdWebsocketData \<Rightarrow> ws_op \<Rightarrow> ws_result" where
  "ws_step env d op =
     (case op of
        Op_unbind \<Rightarrow> Some (unbind_websocket d)
      | Op_close code \<Rightarrow> map_option (\<lambda>(d', ev, _). (d', ev)) (close_websocket env d code)
      | Op_send frame frame_type \<Rightarrow>
          (case send_websocket env d frame frame_type of (d', ev, _) \<Rightarrow> Some (d', ev))
      | Op_read res \<Rightarrow> if ws_reads d = 0 then Some (d, []) else on_connection_read env d res
      | Op_flushed \<Rightarrow> if ws_flushes d = 0 then Some (d, []) else on_connection_flushed d
      | Op_timeout \<Rightarrow> if ws_close_timeout d then close_timeout d else Some (d, []))"

text \<open>The state together with the events so far.\<close>

definition ws_log_step ::
  "ws_env \<Rightarrow> EvdWebsocketData \<times> ws_event list \<Rightarrow> ws_op \<Rightarrow> (EvdWebsocketData \<times> ws_event list) option"
where
  "ws_log_step env s op = map_option (\<lambda>(d, ev). (d, snd s @ ev)) (ws_step env (fst s) op)"

end
