(* ===== verification/Websocket_Closing.thy ===== *)
theory Websocket_Closing
  imports Websocket_Protocol
begin

text \<open>
  What holds along every run of a bound WebSocket connection: the module never calls a NULL
  callback, fails an assertion, writes past its buffer or drops a reference it does not hold;
  nothing is written after the close frame; the user is told about the end at most once, or
  twice if the peer sent a second close frame.
\<close>

section \<open>The invariant\<close>

definition is_written :: "ws_event \<Rightarrow> bool" where
  "is_written e = (case e of Written _ \<Rightarrow> True | _ \<Rightarrow> False)"

definition is_close_cb :: "ws_event \<Rightarrow> bool" where
  "is_close_cb e = (case e of Close_cb _ _ _ \<Rightarrow> True | _ \<Rightarrow> False)"

definition is_close_frame :: "ws_event \<Rightarrow> bool" where
  "is_close_frame e = (case e of Written f \<Rightarrow> f \<noteq> [] \<and> hd f AND 0x0F = OPCODE_CLOSE | _ \<Rightarrow> False)"

lemma is_event_simps [simp]:
  "is_written (Written f)" "\<not> is_written (Frame_cb c b t u)" "\<not> is_written (Close_cb c g u)"
  "\<not> is_written Stream_closed" "\<not> is_written Close_received"
  "is_close_cb (Close_cb c g u)" "\<not> is_close_cb (Written f)" "\<not> is_close_cb (Frame_cb c b t u)"
  "\<not> is_close_cb Stream_closed" "\<not> is_close_cb Close_received"
  "\<not> is_close_frame (Frame_cb c b t u)" "\<not> is_close_frame (Close_cb c g u)"
  "\<not> is_close_frame Stream_closed" "\<not> is_close_frame Close_received"
  by (simp_all add: is_written_def is_close_cb_def is_close_frame_def)

definition nothing_after_close :: "ws_event list \<Rightarrow> bool" where
  "nothing_after_close log = list_all (\<lambda>e. \<not> is_written e)
     (tl (dropWhile (\<lambda>e. \<not> is_close_frame e) log))"

definition close_cbs :: "ws_event list \<Rightarrow> nat" where
  "close_cbs log = length (filter is_close_cb log)"

definition closes_received :: "ws_event list \<Rightarrow> nat" where
  "closes_received log = length (filter (\<lambda>e. e = Close_received) log)"

text \<open>The reading states that the code uses.\<close>

definition reading_state_used :: "EvdWebsocketReadingStates \<Rightarrow> bool" where
  "reading_state_used r \<longleftrightarrow>
     r \<in> {EVD_WEBSOCKET_READING_STATE_IDLE, EVD_WEBSOCKET_READING_STATE_PAYLOAD_LEN,
          EVD_WEBSOCKET_READING_STATE_MASKING_KEY, EVD_WEBSOCKET_READING_STATE_PAYLOAD}"

lemma reading_state_used_simps [simp]:
  "reading_state_used EVD_WEBSOCKET_READING_STATE_IDLE"
  "reading_state_used EVD_WEBSOCKET_READING_STATE_PAYLOAD_LEN"
  "reading_state_used EVD_WEBSOCKET_READING_STATE_MASKING_KEY"
  "reading_state_used EVD_WEBSOCKET_READING_STATE_PAYLOAD"
  by (simp_all add: reading_state_used_def)

text \<open>The callbacks are set and the reading state is in order; references balance.\<close>

definition ws_reading_ok :: "EvdWebsocketData \<Rightarrow> bool" where
  "ws_reading_ok d \<longleftrightarrow>
     ws_frame_cb d \<noteq> None \<and> ws_close_cb d \<noteq> None \<and> ws_offset d \<le> length (ws_buf d) \<and>
     reading_state_used (ws_reading_state d)"

text \<open>The buffer exists and holds its valid bytes.\<close>

definition ws_room :: "EvdWebsocketData \<Rightarrow> bool" where
  "ws_room d \<longleftrightarrow> ws_buf_size d \<noteq> None \<and> length (ws_buf d) \<le> the (ws_buf_size d)"

definition ws_refs_ok :: "EvdWebsocketData \<Rightarrow> bool" where
  "ws_refs_ok d \<longleftrightarrow> ws_refs d = ws_reads d + ws_flushes d + of_bool (ws_close_timeout d)"

text \<open>
  The closing handshake, in terms of the state, the flags for the close frames sent and received,
  the timeout, the number of pending flushes and the log: a close frame is sent on entering
  CLOSING; while CLOSING, either the peer's close frame has been seen and a flush is pending, or
  it has not and the timeout runs; once CLOSED, the callbacks made and those still to come are at
  most one, or two if two close frames came.
\<close>

definition closing_ok ::
  "EvdWebsocketState \<Rightarrow> bool \<Rightarrow> bool \<Rightarrow> bool \<Rightarrow> nat \<Rightarrow> ws_event list \<Rightarrow> bool"
where
  "closing_ok st sent received timeout flushes log \<longleftrightarrow>
     (list_ex is_close_frame log \<longrightarrow> sent) \<and> nothing_after_close log \<and>
     (case st of
        EVD_WEBSOCKET_STATE_CLOSING \<Rightarrow>
          sent \<and> timeout = (\<not> received) \<and> flushes = of_bool received \<and>
          closes_received log = of_bool received \<and> close_cbs log = 0
      | EVD_WEBSOCKET_STATE_CLOSED \<Rightarrow>
          (received \<longleftrightarrow> 0 < closes_received log) \<and> closes_received log \<le> 2 \<and>
          close_cbs log + flushes + of_bool timeout \<le> (if closes_received log = 2 then 2 else 1)
      | _ \<Rightarrow>
          \<not> sent \<and> \<not> received \<and> \<not> timeout \<and> flushes = 0 \<and> closes_received log = 0 \<and>
          close_cbs log = 0)"

definition ws_closing_ok :: "EvdWebsocketData \<Rightarrow> ws_event list \<Rightarrow> bool" where
  "ws_closing_ok d log =
     closing_ok (ws_state d) (ws_close_frame_sent d) (ws_close_frame_received d)
       (ws_close_timeout d) (ws_flushes d) log"

definition ws_core :: "EvdWebsocketData \<times> ws_event list \<Rightarrow> bool" where
  "ws_core s \<longleftrightarrow> ws_reading_ok (fst s) \<and> ws_refs_ok (fst s) \<and> ws_closing_ok (fst s) (snd s)"

text \<open>A pending read has room for \<open>BLOCK_SIZE\<close> bytes.\<close>

definition ws_inv :: "EvdWebsocketData \<times> ws_event list \<Rightarrow> bool" where
  "ws_inv s \<longleftrightarrow> ws_core s \<and> ws_room (fst s) \<and> ws_reads (fst s) \<le> 1 \<and>
     (ws_reads (fst s) = 1 \<longrightarrow>
        length (ws_buf (fst s)) + BLOCK_SIZE \<le> the (ws_buf_size (fst s)))"

section \<open>Logs\<close>

lemma nothing_after_close_append:
  "nothing_after_close (xs @ ys) \<longleftrightarrow>
     (if list_ex is_close_frame xs
      then nothing_after_close xs \<and> list_all (\<lambda>e. \<not> is_written e) ys
      else nothing_after_close ys)"
  by (induction xs) (auto simp: nothing_after_close_def)

lemma nothing_after_close_no_close:
  "\<not> list_ex is_close_frame ys \<Longrightarrow> nothing_after_close ys"
  by (induction ys) (auto simp: nothing_after_close_def)

lemma nothing_after_close_simps [simp]:
  "nothing_after_close []" "nothing_after_close [e]"
  by (auto simp: nothing_after_close_def)

lemma counts_append [simp]:
  "close_cbs (xs @ ys) = close_cbs xs + close_cbs ys"
  "closes_received (xs @ ys) = closes_received xs + closes_received ys"
  by (simp_all add: close_cbs_def closes_received_def)

lemma counts_simps [simp]:
  "close_cbs [] = 0" "closes_received [] = 0"
  "close_cbs (e # xs) = of_bool (is_close_cb e) + close_cbs xs"
  "closes_received (e # xs) = of_bool (e = Close_received) + closes_received xs"
  by (simp_all add: close_cbs_def closes_received_def)

section \<open>Closing steps\<close>

lemma closing_ok_start:
  assumes "closing_ok st sent received timeout flushes log"
    and "st \<noteq> EVD_WEBSOCKET_STATE_CLOSING" "st \<noteq> EVD_WEBSOCKET_STATE_CLOSED"
  shows "\<not> sent" "\<not> received" "\<not> timeout" "flushes = 0"
    "closing_ok EVD_WEBSOCKET_STATE_CLOSING True False True 0 (log @ [Written f])"
    "closing_ok EVD_WEBSOCKET_STATE_CLOSING True True False 1 (log @ [Close_received, Written f])"
  using assms
  by (auto simp: closing_ok_def nothing_after_close_append nothing_after_close_no_close
      split: EvdWebsocketState.splits) (simp_all add: nothing_after_close_def)

lemma closing_ok_finish:
  assumes "closing_ok EVD_WEBSOCKET_STATE_CLOSING sent received timeout flushes log"
  shows "closing_ok EVD_WEBSOCKET_STATE_CLOSED sent True False flushes
    (log @ [Close_received, Close_cb cb g u, Stream_closed])"
  using assms
  by (cases received) (simp_all add: closing_ok_def nothing_after_close_append
      nothing_after_close_no_close)

lemma closing_ok_flushed:
  assumes "closing_ok st sent received timeout (Suc n) log"
    "st = EVD_WEBSOCKET_STATE_CLOSING \<or> st = EVD_WEBSOCKET_STATE_CLOSED"
  shows "closing_ok EVD_WEBSOCKET_STATE_CLOSED sent received False n
    (log @ [Close_cb cb g u, Stream_closed])"
  using assms
  by (cases received) (auto simp add: closing_ok_def nothing_after_close_append
      nothing_after_close_no_close split: if_splits)

lemma closing_ok_timeout:
  assumes "closing_ok st sent received True flushes log"
  shows "closing_ok EVD_WEBSOCKET_STATE_CLOSED sent received False flushes
    (log @ [Close_cb cb g u, Stream_closed])"
  using assms
  by (cases st; cases received) (auto simp add: closing_ok_def nothing_after_close_append
      nothing_after_close_no_close split: if_splits)

lemma closing_ok_abort:
  assumes "closing_ok st sent received timeout flushes log"
  shows "closing_ok EVD_WEBSOCKET_STATE_CLOSED sent received timeout flushes (log @ [Stream_closed])"
  using assms
  by (cases st; cases received) (auto simp add: closing_ok_def nothing_after_close_append
      nothing_after_close_no_close)

lemma closing_ok_quiet:
  assumes "closing_ok st sent received timeout flushes log"
    and "\<not> list_ex is_written ev" "close_cbs ev = 0" "closes_received ev = 0"
  shows "closing_ok st sent received timeout flushes (log @ ev)"
proof -
  have "\<not> list_ex is_close_frame ev" "list_all (\<lambda>e. \<not> is_written e) ev"
    using assms(2) by (auto simp: list_ex_iff list_all_iff is_close_frame_def is_written_def
        split: ws_event.splits)
  with assms show ?thesis
    by (cases st) (auto simp add: closing_ok_def nothing_after_close_append
        nothing_after_close_no_close)
qed

section \<open>The closing operations keep the invariant\<close>

abbreviation own_close_frame :: "ws_env \<Rightarrow> EvdWebsocketData \<Rightarrow> byte list" where
  "own_close_frame env d \<equiv>
     build_frame [] True OPCODE_CLOSE (\<not> ws_server d) (env_random env (ws_random d)) []"

lemma close_websocket_closing:
  assumes "ws_state d = EVD_WEBSOCKET_STATE_CLOSING \<or> ws_state d = EVD_WEBSOCKET_STATE_CLOSED"
  shows "close_websocket env d code = Some (d, [], True, None)"
  using assms by (auto simp: close_websocket_def)

lemma close_websocket_open:
  assumes "ws_state d \<noteq> EVD_WEBSOCKET_STATE_CLOSING" "ws_state d \<noteq> EVD_WEBSOCKET_STATE_CLOSED"
    and "\<not> ws_close_frame_sent d"
  shows "close_websocket env d code = Some
    (if ws_close_frame_received d
     then d\<lparr>ws_state := EVD_WEBSOCKET_STATE_CLOSING, ws_close_frame_sent := True,
       ws_refs := Suc (ws_refs d), ws_random := ws_random d + of_bool (\<not> ws_server d),
       ws_close_code := code, ws_flushes := Suc (ws_flushes d)\<rparr>
     else d\<lparr>ws_state := EVD_WEBSOCKET_STATE_CLOSING, ws_close_frame_sent := True,
       ws_refs := Suc (ws_refs d), ws_random := ws_random d + of_bool (\<not> ws_server d),
       ws_close_timeout := True\<rparr>,
     [Written (own_close_frame env d)],
     \<not> gssize_result (env_write env (own_close_frame env d)) < 0,
     set_error (env_write env (own_close_frame env d)))"
  using assms by (cases d) (simp add: close_websocket_def send_close_frame_def Let_def)

lemma finish_close_handshake_eq:
  assumes "ws_close_timeout d \<longrightarrow> 0 < ws_refs d" and "ws_close_cb d = Some cb"
  shows "finish_close_handshake d code =
    Some (d\<lparr>ws_state := EVD_WEBSOCKET_STATE_CLOSED, ws_close_timeout := False,
            ws_refs := ws_refs d - of_bool (ws_close_timeout d)\<rparr>,
          [Close_cb cb (code = EVD_WEBSOCKET_CLOSE_NORMAL \<or> code = EVD_WEBSOCKET_CLOSE_NO_STATUS)
             (ws_user_data d), Stream_closed])"
  using assms by (cases d) (auto simp add: finish_close_handshake_def g_object_unref_conn_def Let_def)

text \<open>What an operation on a connection keeps, and that it is defined.\<close>

definition keeps_core ::
  "(EvdWebsocketData \<times> ws_event list) option \<Rightarrow> ws_event list \<Rightarrow> bool"
where
  "keeps_core r log = (case r of None \<Rightarrow> False | Some (d, ev) \<Rightarrow> ws_core (d, log @ ev))"

lemma close_websocket_core:
  assumes "ws_core (d, log)"
  shows "keeps_core (map_option (\<lambda>(d', ev, _). (d', ev)) (close_websocket env d code)) log"
proof (cases "ws_state d = EVD_WEBSOCKET_STATE_CLOSING \<or> ws_state d = EVD_WEBSOCKET_STATE_CLOSED")
  case True
  with assms show ?thesis by (simp add: close_websocket_closing keeps_core_def)
next
  case False
  from assms have ok: "closing_ok (ws_state d) (ws_close_frame_sent d) (ws_close_frame_received d)
      (ws_close_timeout d) (ws_flushes d) log"
    by (simp add: ws_core_def ws_closing_ok_def)
  note start = closing_ok_start [OF ok]
  from assms False start show ?thesis
    by (simp add: close_websocket_open keeps_core_def ws_core_def ws_closing_ok_def
        ws_reading_ok_def ws_refs_ok_def)
qed

lemma handle_control_frame_core:
  assumes core: "ws_core (d, log)" and open_state: "ws_state d \<noteq> EVD_WEBSOCKET_STATE_CLOSED"
  shows "keeps_core (handle_control_frame env d) log"
proof -
  from core have ok: "closing_ok (ws_state d) (ws_close_frame_sent d) (ws_close_frame_received d)
      (ws_close_timeout d) (ws_flushes d) log" and refs: "ws_refs_ok d"
    by (simp_all add: ws_core_def ws_closing_ok_def)
  from core obtain cb where cb: "ws_close_cb d = Some cb"
    by (auto simp: ws_core_def ws_reading_ok_def)
  let ?d = "d\<lparr>ws_close_frame_received := True\<rparr>"
  consider (other) "ws_opcode d \<noteq> OPCODE_CLOSE"
    | (closing) "ws_opcode d = OPCODE_CLOSE" "ws_state d = EVD_WEBSOCKET_STATE_CLOSING"
    | (start) "ws_opcode d = OPCODE_CLOSE" "ws_state d \<noteq> EVD_WEBSOCKET_STATE_CLOSING"
    by blast
  then show ?thesis
  proof cases
    case other
    with core closing_ok_abort [OF ok] show ?thesis
      by (simp add: handle_control_frame_def keeps_core_def ws_core_def ws_closing_ok_def
          ws_reading_ok_def ws_refs_ok_def)
  next
    case closing
    have fin: "finish_close_handshake ?d EVD_WEBSOCKET_CLOSE_NO_STATUS =
      Some (?d\<lparr>ws_state := EVD_WEBSOCKET_STATE_CLOSED, ws_close_timeout := False,
            ws_refs := ws_refs d - of_bool (ws_close_timeout d)\<rparr>,
          [Close_cb cb True (ws_user_data d), Stream_closed])"
      using refs cb by (subst finish_close_handshake_eq) (auto simp: ws_refs_ok_def)
    with closing core closing_ok_finish [OF ok [unfolded closing(2)]] show ?thesis
      by (cases "ws_close_timeout d") (simp_all add: handle_control_frame_def
          on_close_frame_received_def Let_def keeps_core_def ws_core_def ws_closing_ok_def
          ws_reading_ok_def ws_refs_ok_def)
  next
    case start
    note s = closing_ok_start [OF ok start(2) open_state]
    with start core open_state show ?thesis
      by (simp add: handle_control_frame_def on_close_frame_received_def Let_def
          close_websocket_open keeps_core_def ws_core_def ws_closing_ok_def ws_reading_ok_def
          ws_refs_ok_def)
  qed
qed

section \<open>Reading keeps the invariant\<close>

lemma frame_complete_core:
  assumes "ws_core (d, log)" and "ws_state d \<noteq> EVD_WEBSOCKET_STATE_CLOSED"
  shows "keeps_core (frame_complete env d) log"
proof -
  from assms have ok: "closing_ok (ws_state d) (ws_close_frame_sent d) (ws_close_frame_received d)
      (ws_close_timeout d) (ws_flushes d) log"
    by (simp add: ws_core_def ws_closing_ok_def)
  from assms obtain cb where cb: "ws_frame_cb d = Some cb"
    by (auto simp: ws_core_def ws_reading_ok_def)
  show ?thesis
  proof (cases "ws_opcode d \<ge> OPCODE_CLOSE")
    case True
    with handle_control_frame_core [OF assms] show ?thesis by (simp add: frame_complete_def Let_def)
  next
    case False
    with assms cb closing_ok_abort [OF ok] show ?thesis
      by (auto simp: frame_complete_def Let_def keeps_core_def ws_core_def ws_closing_ok_def
          ws_reading_ok_def ws_refs_ok_def intro: closing_ok_quiet)
  qed
qed

lemma reset_reading_core:
  assumes "ws_core (d, log)" shows "ws_core (reset_reading d, log)"
  using assms
  by (auto simp: reset_reading_def Let_def ws_core_def ws_closing_ok_def ws_reading_ok_def
      ws_refs_ok_def)

text \<open>A reader or a round of the loop: defined, the invariant kept.\<close>

definition keeps_core3 ::
  "(EvdWebsocketData \<times> ws_event list \<times> bool) option \<Rightarrow> ws_event list \<Rightarrow> bool"
where
  "keeps_core3 r log = (case r of None \<Rightarrow> False | Some (d, ev, ok) \<Rightarrow> ws_core (d, log @ ev))"

lemma read_payload_core:
  assumes "ws_core (d, log)" and "ws_state d \<noteq> EVD_WEBSOCKET_STATE_CLOSED"
  shows "keeps_core3 (read_payload env d) log"
  using assms frame_complete_core [OF assms, of env]
  by (auto simp: read_payload_def keeps_core_def keeps_core3_def reset_reading_core
      split: option.splits)

lemma read_masking_key_core:
  assumes "ws_core (d, log)" and "ws_state d \<noteq> EVD_WEBSOCKET_STATE_CLOSED"
  shows "keeps_core3 (read_masking_key env d) log"
proof (cases "length (ws_buf d) - ws_offset d < 4")
  case True
  with assms show ?thesis by (simp add: read_masking_key_def keeps_core3_def)
next
  case False
  let ?d = "d\<lparr>ws_masking_key := take 4 (drop (ws_offset d) (ws_buf d)),
    ws_offset := ws_offset d + 4, ws_reading_state := EVD_WEBSOCKET_READING_STATE_PAYLOAD\<rparr>"
  from assms False have "ws_core (?d, log)"
    by (simp add: ws_core_def ws_closing_ok_def ws_reading_ok_def ws_refs_ok_def)
  with assms False read_payload_core [of ?d log env] show ?thesis
    by (simp add: read_masking_key_def Let_def keeps_core3_def)
qed

lemma read_payload_len_core:
  assumes "ws_core (d, log)" and "read_payload_len d = (d', ok)"
  shows "ws_core (d', log)" "ws_state d' = ws_state d"
  using assms
  by (auto simp: read_payload_len_def Let_def ws_core_def ws_closing_ok_def ws_reading_ok_def
      ws_refs_ok_def split: if_splits)

lemma read_header_core:
  assumes "ws_core (d, log)" and "read_header d = (d', ok)"
  shows "ws_core (d', log)" "ws_state d' = ws_state d"
    "ok \<longrightarrow> ws_reading_state d' \<noteq> EVD_WEBSOCKET_READING_STATE_IDLE"
  using assms
  by (auto simp: read_header_def Let_def ws_core_def ws_closing_ok_def ws_reading_ok_def
      ws_refs_ok_def split: if_splits)

lemma process_stage_core:
  assumes "ws_core (d, log)" and "ws_state d \<noteq> EVD_WEBSOCKET_STATE_CLOSED"
    and "ws_reading_state d \<noteq> EVD_WEBSOCKET_READING_STATE_IDLE"
  shows "keeps_core3 (process_stage env d) log"
proof -
  from assms(1,3) have "ws_reading_state d \<in> {EVD_WEBSOCKET_READING_STATE_PAYLOAD_LEN,
      EVD_WEBSOCKET_READING_STATE_MASKING_KEY, EVD_WEBSOCKET_READING_STATE_PAYLOAD}"
    by (auto simp: ws_core_def ws_reading_ok_def reading_state_used_def)
  then show ?thesis
    using read_payload_core [OF assms(1,2)] read_masking_key_core [OF assms(1,2)]
      read_payload_len_core [OF assms(1)]
    by (auto simp: process_stage_def keeps_core3_def split: prod.splits)
qed

lemma process_round_core:
  assumes "ws_core (d, log)" and "ws_state d \<noteq> EVD_WEBSOCKET_STATE_CLOSED"
  shows "keeps_core3 (process_round env d) log"
proof (cases "ws_reading_state d = EVD_WEBSOCKET_READING_STATE_IDLE")
  case True
  obtain h ok where h: "read_header d = (h, ok)" by fastforce
  from read_header_core [OF assms(1) h] assms(2) process_stage_core [of h log env] True h show ?thesis
    by (simp add: process_round_def keeps_core3_def)
next
  case False
  with process_stage_core [OF assms] show ?thesis by (simp add: process_round_def)
qed

lemma process_data_core:
  "ws_core (d, log) \<Longrightarrow> keeps_core3 (process_data env d) log"
proof (induction env d arbitrary: log rule: process_data.induct)
  case (1 env d)
  show ?case
  proof (cases "ws_offset d < length (ws_buf d) \<and> ws_state d \<noteq> EVD_WEBSOCKET_STATE_CLOSED")
    case False
    with 1 show ?thesis by (simp add: process_data_stop keeps_core3_def)
  next
    case True
    from process_round_core [OF 1(2), of env] True obtain d' ev ok
      where r: "process_round env d = Some (d', ev, ok)" and c: "ws_core (d', log @ ev)"
      by (auto simp: keeps_core3_def split: option.splits)
    show ?thesis
    proof (cases ok)
      case ok: False
      with r c True show ?thesis by (simp add: process_data_round keeps_core3_def)
    next
      case ok: True
      from r ok have r': "process_round env d = Some (d', ev, True)" by simp
      from 1(1) [OF True r' refl refl _ c] True r' show ?thesis
        by (auto simp: process_data_round keeps_core3_def split: option.splits)
    qed
  qed
qed

section \<open>The operations keep the invariant\<close>

lemma build_frame_not_close:
  assumes "opcode \<in> {OPCODE_CONTINUATION, OPCODE_TEXT_FRAME, OPCODE_BINARY_FRAME}"
  shows "\<not> is_close_frame (Written (build_frame [] fin opcode masked random payload))"
  using assms build_frame_first [of fin opcode masked random payload]
  by (auto simp: is_close_frame_def OPCODE_CONTINUATION_def OPCODE_TEXT_FRAME_def
      OPCODE_BINARY_FRAME_def OPCODE_CLOSE_def)

lemma data_fragment_not_close: "\<not> is_close_frame (Written (data_fragment env d frame n ty))"
  unfolding data_fragment_def Let_def by (rule build_frame_not_close) simp

text \<open>Sending data only writes data frames, and always returns TRUE.\<close>

definition data_events :: "EvdWebsocketData \<Rightarrow>
  EvdWebsocketData \<times> ws_event list \<times> bool \<times> gio_error option \<Rightarrow> bool"
where
  "data_events d res =
     (case res of (d', ev, r, err) \<Rightarrow>
        list_all (\<lambda>e. is_written e \<and> \<not> is_close_frame e) ev \<and>
        d' = d\<lparr>ws_random := ws_random d'\<rparr> \<and> r)"

lemma send_data_loop_events: "data_events d (send_data_loop env d frame n ty err)"
proof (induction env d frame n ty err rule: send_data_loop.induct)
  case (1 env d frame n ty err)
  show ?case
  proof (cases "0 < length frame - n")
    case False
    then show ?thesis by (simp add: send_data_loop.simps [of env d frame n ty err] data_events_def)
  next
    case True
    let ?d = "if \<not> ws_server d then d\<lparr>ws_random := Suc (ws_random d)\<rparr> else d"
    let ?r = "env_write env (data_fragment env d frame n ty)"
    let ?err = "case set_error ?r of Some e \<Rightarrow> Some e | None \<Rightarrow> err"
    obtain d' ev r err' where
      l: "send_data_loop env ?d frame (n + fragment_len frame n) ty ?err = (d', ev, r, err')"
      by (metis prod_cases4)
    have "data_events ?d (d', ev, r, err')"
      using 1 [OF _ refl refl refl refl] True unfolding l [symmetric] by simp
    then have "list_all (\<lambda>e. is_written e \<and> \<not> is_close_frame e) ev" "r"
      "d' = d\<lparr>ws_random := ws_random d'\<rparr>"
      by (auto simp: data_events_def split: if_splits)
    moreover have "send_data_loop env d frame n ty err =
        (d', Written (data_fragment env d frame n ty) # ev, r, err')"
      using True l by (simp add: send_data_loop.simps [of env d frame n ty err] Let_def)
    ultimately show ?thesis by (simp add: data_events_def data_fragment_not_close)
  qed
qed

lemma written_counts:
  assumes "list_all (\<lambda>e. is_written e \<and> \<not> is_close_frame e) ev"
  shows "close_cbs ev = 0" "closes_received ev = 0" "\<not> list_ex is_close_frame ev"
  using assms by (induction ev) (auto simp: is_written_def split: ws_event.splits)

lemma closing_ok_send:
  assumes "closing_ok st sent received timeout flushes log"
    and "st \<noteq> EVD_WEBSOCKET_STATE_CLOSING" "st \<noteq> EVD_WEBSOCKET_STATE_CLOSED"
    and ev: "list_all (\<lambda>e. is_written e \<and> \<not> is_close_frame e) ev"
  shows "closing_ok st sent received timeout flushes (log @ ev)"
  using assms(1-3) written_counts [OF ev]
  by (cases st) (auto simp: closing_ok_def nothing_after_close_append nothing_after_close_no_close)

lemma send_websocket_core:
  assumes "ws_core (d, log)" and "send_websocket env d frame ty = (d', ev, r)"
  shows "ws_core (d', log @ ev)" "ws_reads d' = ws_reads d" "ws_buf d' = ws_buf d"
    "ws_buf_size d' = ws_buf_size d"
proof -
  have "ws_core (d', log @ ev) \<and> ws_reads d' = ws_reads d \<and> ws_buf d' = ws_buf d \<and>
    ws_buf_size d' = ws_buf_size d"
  proof (cases "ws_state d = EVD_WEBSOCKET_STATE_CLOSING \<or> ws_state d = EVD_WEBSOCKET_STATE_CLOSED")
    case True
    with assms show ?thesis by (auto simp: send_websocket_def)
  next
    case False
    with assms send_data_loop_events [of d env frame 0 ty None]
    have ev: "list_all (\<lambda>e. is_written e \<and> \<not> is_close_frame e) ev"
      and d': "d' = d\<lparr>ws_random := ws_random d'\<rparr>"
      by (auto simp: send_websocket_def send_data_frame_def data_events_def)
    have "ws_core (d\<lparr>ws_random := ws_random d'\<rparr>, log @ ev)"
      using assms(1) False closing_ok_send [OF _ _ _ ev]
      by (simp add: ws_core_def ws_closing_ok_def ws_reading_ok_def ws_refs_ok_def)
    then show ?thesis by (subst (1 2 3 4) d') simp
  qed
  then show "ws_core (d', log @ ev)" "ws_reads d' = ws_reads d" "ws_buf d' = ws_buf d"
    "ws_buf_size d' = ws_buf_size d" by simp_all
qed

lemma on_connection_flushed_core:
  assumes core: "ws_core (d, log)" and fl: "ws_flushes d = Suc n"
  shows "keeps_core (on_connection_flushed d) log"
    "\<And>d' ev. on_connection_flushed d = Some (d', ev) \<Longrightarrow> ws_reads d' = ws_reads d \<and>
       ws_buf d' = ws_buf d \<and> ws_buf_size d' = ws_buf_size d"
proof -
  from core have ok: "closing_ok (ws_state d) (ws_close_frame_sent d) (ws_close_frame_received d)
      (ws_close_timeout d) (Suc n) log" and refs: "ws_refs_ok d"
    by (simp_all add: ws_core_def ws_closing_ok_def fl)
  then have st: "ws_state d = EVD_WEBSOCKET_STATE_CLOSING \<or> ws_state d = EVD_WEBSOCKET_STATE_CLOSED"
    by (cases "ws_state d") (simp_all add: closing_ok_def)
  from core obtain cb where cb: "ws_close_cb d = Some cb"
    by (auto simp: ws_core_def ws_reading_ok_def)
  let ?c = "ws_close_code d"
  let ?g = "?c = EVD_WEBSOCKET_CLOSE_NORMAL \<or> ?c = EVD_WEBSOCKET_CLOSE_NO_STATUS"
  have r: "on_connection_flushed d =
    Some (d\<lparr>ws_state := EVD_WEBSOCKET_STATE_CLOSED, ws_close_timeout := False,
            ws_refs := ws_refs d - of_bool (ws_close_timeout d) - 1, ws_flushes := n\<rparr>,
          [Close_cb cb ?g (ws_user_data d), Stream_closed])"
    using refs cb fl finish_close_handshake_eq [OF _ cb, of ?c]
    by (simp add: on_connection_flushed_def g_object_unref_conn_def ws_refs_ok_def)
  show "keeps_core (on_connection_flushed d) log"
    using r core refs fl closing_ok_flushed [OF ok st]
    by (simp add: keeps_core_def ws_core_def ws_closing_ok_def ws_reading_ok_def ws_refs_ok_def)
  show "\<And>d' ev. on_connection_flushed d = Some (d', ev) \<Longrightarrow> ws_reads d' = ws_reads d \<and>
       ws_buf d' = ws_buf d \<and> ws_buf_size d' = ws_buf_size d"
    using r by auto
qed

lemma close_timeout_core:
  assumes core: "ws_core (d, log)" and tm: "ws_close_timeout d"
  shows "keeps_core (close_timeout d) log"
    "\<And>d' ev. close_timeout d = Some (d', ev) \<Longrightarrow> ws_reads d' = ws_reads d \<and>
       ws_buf d' = ws_buf d \<and> ws_buf_size d' = ws_buf_size d"
proof -
  from core have ok: "closing_ok (ws_state d) (ws_close_frame_sent d) (ws_close_frame_received d)
      True (ws_flushes d) log" and refs: "ws_refs_ok d"
    by (simp_all add: ws_core_def ws_closing_ok_def tm)
  from core obtain cb where cb: "ws_close_cb d = Some cb"
    by (auto simp: ws_core_def ws_reading_ok_def)
  have r: "close_timeout d =
    Some (d\<lparr>ws_close_timeout := False, ws_state := EVD_WEBSOCKET_STATE_CLOSED,
            ws_refs := ws_refs d - 1\<rparr>, [Close_cb cb False (ws_user_data d), Stream_closed])"
    using refs cb tm by (simp add: close_timeout_def Let_def g_object_unref_conn_def ws_refs_ok_def)
  show "keeps_core (close_timeout d) log"
    using r core refs tm closing_ok_timeout [OF ok]
    by (simp add: keeps_core_def ws_core_def ws_closing_ok_def ws_reading_ok_def ws_refs_ok_def)
  show "\<And>d' ev. close_timeout d = Some (d', ev) \<Longrightarrow> ws_reads d' = ws_reads d \<and>
       ws_buf d' = ws_buf d \<and> ws_buf_size d' = ws_buf_size d"
    using r by auto
qed

text \<open>Reading keeps the number of pending reads and the bounds of the buffer.\<close>

definition reads_room :: "EvdWebsocketData \<Rightarrow> EvdWebsocketData \<Rightarrow> bool" where
  "reads_room d d' \<longleftrightarrow> ws_reads d' = ws_reads d \<and> (ws_room d \<longrightarrow> ws_room d')"

lemma reads_room_trans: "reads_room a b \<Longrightarrow> reads_room b c \<Longrightarrow> reads_room a c"
  by (simp add: reads_room_def)

lemma process_stage_reads_room: "process_stage env d = Some (d', ev, ok) \<Longrightarrow> reads_room d d'"
  by (auto simp: process_stage_def read_payload_len_def read_masking_key_def read_payload_def
      reset_reading_def Let_def same_reading_def reads_room_def ws_room_def
      split: if_splits option.splits dest!: frame_complete_same)

lemma process_round_reads_room: "process_round env d = Some (d', ev, ok) \<Longrightarrow> reads_room d d'"
  by (auto simp: process_round_def read_header_def reads_room_def ws_room_def Let_def
      split: if_splits dest!: process_stage_reads_room)

lemma process_data_reads_room: "process_data env d = Some (d', ev, ok) \<Longrightarrow> reads_room d d'"
proof (induction env d arbitrary: d' ev ok rule: process_data.induct)
  case (1 env d)
  show ?case
  proof (cases "ws_offset d < length (ws_buf d) \<and> ws_state d \<noteq> EVD_WEBSOCKET_STATE_CLOSED")
    case False
    with 1(2) show ?thesis by (simp add: process_data_stop reads_room_def)
  next
    case True
    with 1(2) obtain c ev1 go where r: "process_round env d = Some (c, ev1, go)"
      by (auto simp: process_data_round split: option.splits)
    note rr = process_round_reads_room [OF r]
    show ?thesis
    proof (cases go)
      case True2: True
      with 1(1) [OF True, of "(c, ev1, go)" c "(ev1, go)" ev1 go] 1(2) True r rr show ?thesis
        by (auto simp: process_data_round split: option.splits intro: reads_room_trans)
    next
      case False
      with 1(2) True r rr show ?thesis by (auto simp: process_data_round)
    qed
  qed
qed

lemma unref_read:
  assumes "ws_core (c, l)" "0 < ws_reads c"
  shows "\<exists>d'. g_object_unref_conn (c\<lparr>ws_reads := ws_reads c - 1\<rparr>) = Some d' \<and>
    ws_core (d', l) \<and> ws_reads d' = ws_reads c - 1 \<and> ws_buf d' = ws_buf c \<and>
    ws_buf_size d' = ws_buf_size c \<and> (ws_room c \<longrightarrow> ws_room d')"
  using assms by (auto simp: g_object_unref_conn_def ws_core_def ws_closing_ok_def
      ws_reading_ok_def ws_refs_ok_def ws_room_def)

lemma read_completed:
  assumes core: "ws_core (d, log)" and reads: "ws_reads d = Suc 0" and buf: "ws_room d"
    and room: "length (ws_buf d) + BLOCK_SIZE \<le> the (ws_buf_size d)"
    and len: "length bytes \<le> BLOCK_SIZE"
  shows "\<exists>d' ev. on_connection_read env d (Inr bytes) = Some (d', ev) \<and> ws_inv (d', log @ ev)"
proof -
  let ?b = "d\<lparr>ws_buf := ws_buf d @ bytes\<rparr>"
  from buf obtain n where size: "ws_buf_size d = Some n" by (auto simp: ws_room_def)
  have b: "ws_core (?b, log)"
    using core by (auto simp: ws_core_def ws_closing_ok_def ws_reading_ok_def ws_refs_ok_def)
  have rb: "ws_room ?b" using size room len by (simp add: ws_room_def)
  from process_data_core [OF b, of env] obtain c ev ok where
    c: "process_data env ?b = Some (c, ev, ok)" "ws_core (c, log @ ev)"
    by (auto simp: keeps_core3_def split: option.splits)
  from process_data_reads_room [OF c(1)] reads rb have cr: "ws_reads c = Suc 0" "ws_room c"
    by (simp_all add: reads_room_def)
  then obtain e where e: "read_from_connection c = Some e"
    by (auto simp: read_from_connection_def ws_room_def)
  with c(2) cr have e': "ws_core (e, log @ ev)" "ws_reads e = Suc (Suc 0)" "ws_room e"
    "length (ws_buf e) + BLOCK_SIZE \<le> the (ws_buf_size e)"
    by (auto simp: read_from_connection_def ws_core_def ws_closing_ok_def ws_reading_ok_def
        ws_refs_ok_def ws_room_def)
  show ?thesis
    using unref_read [OF core] unref_read [OF b] unref_read [OF c(2)] unref_read [OF e'(1)]
      reads cr e'(2-) c(1) e size room len rb buf
    by (auto simp: on_connection_read_def ws_inv_def Let_def)
qed

lemma read_failed:
  assumes core: "ws_core (d, log)" and reads: "ws_reads d = Suc 0" and buf: "ws_room d"
  shows "\<exists>d' ev. on_connection_read env d (Inl e) = Some (d', ev) \<and> ws_inv (d', log @ ev)"
proof -
  let ?ev = "if e \<noteq> G_IO_ERROR_CLOSED then [Stream_closed] else []"
  have "closing_ok (ws_state d) (ws_close_frame_sent d) (ws_close_frame_received d)
      (ws_close_timeout d) (ws_flushes d) (log @ ?ev)"
    using core by (intro closing_ok_quiet) (simp_all add: ws_core_def ws_closing_ok_def)
  with core reads buf show ?thesis
    by (simp add: on_connection_read_def g_object_unref_conn_def ws_inv_def ws_core_def
        ws_closing_ok_def ws_reading_ok_def ws_refs_ok_def ws_room_def)
qed

text \<open>
  The operations on a connection that stays bound; a read gives at most the \<open>BLOCK_SIZE\<close> bytes
  it asked for.
\<close>

definition ws_allowed :: "ws_op \<Rightarrow> bool" where
  "ws_allowed op = (case op of
     Op_unbind \<Rightarrow> False
   | Op_read (Inr bytes) \<Rightarrow> length bytes \<le> BLOCK_SIZE
   | _ \<Rightarrow> True)"

lemma ws_inv_quiet:
  assumes "ws_inv (d, log)" and "ws_core (d', log')" and "ws_reads d' = ws_reads d"
    and "ws_buf d' = ws_buf d" and "ws_buf_size d' = ws_buf_size d"
  shows "ws_inv (d', log')"
  using assms by (simp add: ws_inv_def ws_room_def)

lemma ws_step_inv:
  assumes inv: "ws_inv (d, log)" and op: "ws_allowed op"
  shows "\<exists>d' ev. ws_step env d op = Some (d', ev) \<and> ws_inv (d', log @ ev)"
proof -
  from inv have core: "ws_core (d, log)" and reads: "ws_reads d = 0 \<or> ws_reads d = Suc 0"
    and buf: "ws_room d" and room: "ws_reads d = 1 \<longrightarrow> length (ws_buf d) + BLOCK_SIZE \<le> the (ws_buf_size d)"
    by (auto simp: ws_inv_def)
  show ?thesis
  proof (cases op)
    case Op_unbind
    with op show ?thesis by (simp add: ws_allowed_def)
  next
    case (Op_close code)
    from close_websocket_core [OF core, of env code] obtain d' ev r where
      r: "close_websocket env d code = Some (d', ev, r)" and c: "ws_core (d', log @ ev)"
      by (auto simp: keeps_core_def split: option.splits)
    from ws_inv_quiet [OF inv c] close_websocket_same [OF r] Op_close r show ?thesis
      by (simp add: ws_step_def same_reading_def)
  next
    case (Op_send frame ty)
    obtain d' ev r where r: "send_websocket env d frame ty = (d', ev, r)" by (metis prod_cases3)
    from send_websocket_core [OF core r] ws_inv_quiet [OF inv] Op_send r show ?thesis
      by (simp add: ws_step_def)
  next
    case (Op_read res)
    show ?thesis
    proof (cases "ws_reads d = 0")
      case True
      with inv Op_read show ?thesis by (simp add: ws_step_def)
    next
      case False
      with reads room have r: "ws_reads d = Suc 0"
        "length (ws_buf d) + BLOCK_SIZE \<le> the (ws_buf_size d)" by simp_all
      with read_completed [OF core r(1) buf r(2), of _ env] read_failed [OF core r(1) buf, of env]
        Op_read op
      show ?thesis by (cases res) (simp_all add: ws_step_def ws_allowed_def)
    qed
  next
    case Op_flushed
    show ?thesis
    proof (cases "ws_flushes d")
      case 0
      with inv Op_flushed show ?thesis by (simp add: ws_step_def)
    next
      case (Suc n)
      with on_connection_flushed_core [OF core Suc] ws_inv_quiet [OF inv] Op_flushed show ?thesis
        by (auto simp: ws_step_def keeps_core_def split: option.splits)
    qed
  next
    case Op_timeout
    show ?thesis
    proof (cases "ws_close_timeout d")
      case False
      with inv Op_timeout show ?thesis by (simp add: ws_step_def)
    next
      case True
      with close_timeout_core [OF core True] ws_inv_quiet [OF inv] Op_timeout show ?thesis
        by (auto simp: ws_step_def keeps_core_def split: option.splits)
    qed
  qed
qed

interpretation ws: invariant_machine "ws_log_step env" ws_inv ws_allowed for env
proof unfold_locales
  fix s r
  assume "ws_inv s" "ws_allowed r"
  then show "\<exists>s'. ws_log_step env s r = Some s' \<and> ws_inv s'"
    using ws_step_inv [of "fst s" "snd s" r env] by (auto simp: ws_log_step_def)
qed

text \<open>A connection after a handshake and \<open>evd_websocket_protocol_bind\<close>.\<close>

definition bound_connection ::
  "byte list \<Rightarrow> bool \<Rightarrow> nat \<Rightarrow> nat \<Rightarrow> pointer \<Rightarrow> pointer \<Rightarrow> EvdWebsocketData option"
where
  "bound_connection memory server frame_cb close_cb user_data destroy =
     (case evd_websocket_protocol_bind memory
             (Some (setup_connection server EVD_WEBSOCKET_STATE_OPENED))
             (Some frame_cb) (Some close_cb) user_data destroy of
        Some (Some d) \<Rightarrow> Some d | _ \<Rightarrow> None)"

lemma bound_connection_inv:
  "\<exists>d. bound_connection memory server frame_cb close_cb user_data destroy = Some d \<and>
     ws_inv (d, [])"
  by (simp add: bound_connection_def evd_websocket_protocol_bind_def setup_connection_def
      read_from_connection_def ws_inv_def ws_core_def ws_reading_ok_def ws_refs_ok_def
      ws_room_def ws_closing_ok_def closing_ok_def)

lemma bound_run:
  assumes "list_all ws_allowed ops"
  obtains d d' log where "bound_connection memory server frame_cb close_cb user_data destroy = Some d"
    "run_ops (ws_log_step env) (d, []) ops = Some (d', log)" "ws_inv (d', log)"
proof -
  from bound_connection_inv [of memory server frame_cb close_cb user_data destroy] obtain d where
    d: "bound_connection memory server frame_cb close_cb user_data destroy = Some d" "ws_inv (d, [])"
    by blast
  from ws.run_ops_defined [OF d(2) assms, of env] d(1) that show ?thesis by auto
qed

definition ws_lifetime ::
  "ws_env \<Rightarrow> byte list \<Rightarrow> bool \<Rightarrow> nat \<Rightarrow> nat \<Rightarrow> pointer \<Rightarrow> pointer \<Rightarrow> ws_op list \<Rightarrow>
     (EvdWebsocketData \<times> ws_event list) option"
where
  "ws_lifetime env memory server frame_cb close_cb user_data destroy ops =
     (case bound_connection memory server frame_cb close_cb user_data destroy of
        None \<Rightarrow> None | Some d \<Rightarrow> run_ops (ws_log_step env) (d, []) ops)"

lemma lifetime_inv:
  assumes "list_all ws_allowed ops"
  shows "\<exists>d log. ws_lifetime env memory server frame_cb close_cb user_data destroy ops = Some (d, log) \<and>
    ws_inv (d, log)"
  using bound_run [OF assms, of memory server frame_cb close_cb user_data destroy env]
  by (metis (no_types, lifting) option.simps(5) ws_lifetime_def)


text \<open>The memory read by \<open>g_string_new_len\<close> in the first bind has no influence.\<close>

lemma lifetime_memory:
  "ws_lifetime env memory server frame_cb close_cb user_data destroy ops =
   ws_lifetime env [] server frame_cb close_cb user_data destroy ops"
  by (simp add: ws_lifetime_def bound_connection_def evd_websocket_protocol_bind_def
      setup_connection_def)

end
