(* ===== verification/Websocket_Stream.thy ===== *)
theory Websocket_Stream
  imports Websocket_Closing
begin

unbundle bit_operations_syntax

text \<open>
  The frame reader as a decoder of the byte stream: what it does on a complete frame, that the
  way the stream is cut into reads does not matter, and that what one end sends the other end
  delivers.
\<close>

section \<open>Reading one frame\<close>

text \<open>Events put in front of what the loop does next.\<close>

definition prepend ::
  "ws_event list \<Rightarrow> (EvdWebsocketData \<times> ws_event list \<times> bool) option \<Rightarrow>
     (EvdWebsocketData \<times> ws_event list \<times> bool) option"
where
  "prepend ev r = map_option (\<lambda>(d, ev', ok). (d, ev @ ev', ok)) r"

lemma prepend_Nil [simp]: "prepend [] r = r"
  by (cases r) (simp_all add: prepend_def)

lemma prepend_simps [simp]:
  "prepend ev None = None" "prepend ev (Some (d, ev', ok)) = Some (d, ev @ ev', ok)"
  by (simp_all add: prepend_def)

lemma prepend_prepend [simp]: "prepend ev (prepend ev' r) = prepend (ev @ ev') r"
  by (cases r) (auto simp: prepend_def)

lemma process_data_go:
  assumes "ws_offset d < length (ws_buf d)" "ws_state d \<noteq> EVD_WEBSOCKET_STATE_CLOSED"
    and "process_round env d = Some (d', ev, True)"
  shows "process_data env d = prepend ev (process_data env d')"
  using assms by (simp add: process_data_round prepend_def split: option.splits)

text \<open>The frame at hand is complete: deliver it and go on.\<close>

definition deliver ::
  "ws_env \<Rightarrow> EvdWebsocketData \<Rightarrow> (EvdWebsocketData \<times> ws_event list \<times> bool) option"
where
  "deliver env f =
     (case frame_complete env f of
        None \<Rightarrow> None
      | Some (c, ev) \<Rightarrow> prepend ev (process_data env (reset_reading c)))"

lemma read_payload_complete:
  assumes "\<not> length (ws_buf f) - ws_offset f < ws_payload_len f"
  shows "read_payload env f =
    map_option (\<lambda>(c, ev). (reset_reading c, ev, True)) (frame_complete env f)"
  using assms by (simp add: read_payload_def split: option.splits)

lemma round_deliver:
  assumes "ws_offset d < length (ws_buf d)" "ws_state d \<noteq> EVD_WEBSOCKET_STATE_CLOSED"
    and "process_round env d = read_payload env f"
    and "\<not> length (ws_buf f) - ws_offset f < ws_payload_len f"
  shows "process_data env d = deliver env f"
  using assms process_data_go [OF assms(1,2)]
  by (auto simp: read_payload_complete deliver_def process_data_round split: option.splits)

text \<open>The state of the reader when it comes to the payload of a frame.\<close>

definition frame_prefix_len :: "bool \<Rightarrow> nat \<Rightarrow> nat" where
  "frame_prefix_len masked n = 2 + length (length_bytes n) + (if masked then 4 else 0)"

definition at_payload ::
  "EvdWebsocketData \<Rightarrow> bool \<Rightarrow> byte \<Rightarrow> bool \<Rightarrow> 32 word \<Rightarrow> nat \<Rightarrow> EvdWebsocketData"
where
  "at_payload d fin opcode masked random n =
     d\<lparr>ws_offset := frame_prefix_len masked n, ws_fin := fin, ws_opcode := opcode,
       ws_masked := masked, ws_payload_len := n,
       ws_reading_state := EVD_WEBSOCKET_READING_STATE_PAYLOAD,
       ws_masking_key := (if masked then mem32 random else ws_masking_key d)\<rparr>"

text \<open>The reader with a frame, followed by other bytes, at the start of its buffer.\<close>

definition has_frame ::
  "EvdWebsocketData \<Rightarrow> bool \<Rightarrow> byte \<Rightarrow> bool \<Rightarrow> 32 word \<Rightarrow> byte list \<Rightarrow> byte list \<Rightarrow> bool"
where
  "has_frame d fin opcode masked random payload rest \<longleftrightarrow>
     ws_buf d = build_frame [] fin opcode masked random payload @ rest \<and> ws_offset d = 0 \<and>
     ws_reading_state d = EVD_WEBSOCKET_READING_STATE_IDLE \<and>
     ws_state d \<noteq> EVD_WEBSOCKET_STATE_CLOSED \<and> opcode < 16 \<and> length payload < 2 ^ 64"

definition after_header ::
  "EvdWebsocketData \<Rightarrow> bool \<Rightarrow> byte \<Rightarrow> bool \<Rightarrow> nat \<Rightarrow> EvdWebsocketData"
where
  "after_header d fin opcode masked n =
     d\<lparr>ws_offset := 2, ws_fin := fin, ws_opcode := opcode, ws_masked := masked,
       ws_payload_len := n,
       ws_reading_state :=
         (if n > 125 then EVD_WEBSOCKET_READING_STATE_PAYLOAD_LEN
          else if masked then EVD_WEBSOCKET_READING_STATE_MASKING_KEY
          else EVD_WEBSOCKET_READING_STATE_PAYLOAD)\<rparr>"

lemma length_header_bytes [simp]: "length (header_bytes h) = 2"
  by (simp add: header_bytes_def)

lemma header_word_header_bytes: "header_word (header_bytes h @ rest) 0 = h"
  using header_word_bytes [of h] by (simp only: header_word_def header_bytes_def) simp

lemma read_header_frame:
  assumes "has_frame d fin opcode masked random payload rest"
  shows "read_header d = (after_header d fin opcode masked (length_code (length payload)), True)"
proof -
  let ?h = "header_flags fin opcode masked OR of_nat (length_code (length payload))"
  have buf: "ws_buf d = header_bytes ?h @
      length_bytes (length payload) @ masking_bytes masked random payload @ rest"
    and off: "ws_offset d = 0" and op: "opcode < 16"
    using assms by (simp_all add: has_frame_def build_frame_eq)
  have h: "header_word (ws_buf d) (ws_offset d) = ?h"
    unfolding buf off by (rule header_word_header_bytes)
  note fields = flags_fields [OF length_code_less [of "length payload"] op, of fin masked]
  show ?thesis
    unfolding read_header_def h Let_def fields
    using buf off by (simp add: after_header_def)
qed

text \<open>The extended length.\<close>

definition after_length ::
  "EvdWebsocketData \<Rightarrow> bool \<Rightarrow> byte \<Rightarrow> bool \<Rightarrow> nat \<Rightarrow> EvdWebsocketData"
where
  "after_length d fin opcode masked n =
     d\<lparr>ws_offset := 2 + length (length_bytes n), ws_fin := fin, ws_opcode := opcode,
       ws_masked := masked, ws_payload_len := n,
       ws_reading_state :=
         (if masked then EVD_WEBSOCKET_READING_STATE_MASKING_KEY
          else EVD_WEBSOCKET_READING_STATE_PAYLOAD)\<rparr>"

lemma length_length_bytes:
  "length (length_bytes n) = (if n \<le> 125 then 0 else if n < 65535 then 2 else 8)"
  by (simp add: length_bytes_def)

lemma read_payload_len_frame:
  assumes "has_frame d fin opcode masked random payload rest"
    and "125 < length payload"
  shows "read_payload_len (after_header d fin opcode masked (length_code (length payload))) =
    (after_length d fin opcode masked (length payload), True)"
proof -
  let ?n = "length payload"
  let ?m = "masking_bytes masked random payload"
  obtain h where buf: "ws_buf d = header_bytes h @ length_bytes ?n @ ?m @ rest"
    using assms by (auto simp: has_frame_def build_frame_eq)
  then have d2: "drop 2 (ws_buf d) = length_bytes ?n @ ?m @ rest" by simp
  have n: "?n < 2 ^ 64" using assms by (simp add: has_frame_def)
  show ?thesis
  proof (cases "?n < 65535")
    case True
    with assms(2) have l: "length_bytes ?n = take 2 (mem64 (ucast (GUINT16_FROM_BE (of_nat ?n))))"
      by (simp add: length_bytes_def)
    have "unat (GUINT16_FROM_BE (of_nat (le_value (length_bytes ?n)))) = ?n"
      unfolding l using True guint16_roundtrip [of ?n] by (simp add: unat_of_nat)
    moreover have "take 2 (drop 2 (ws_buf d)) = length_bytes ?n"
      unfolding d2 by (simp add: l)
    ultimately show ?thesis using True assms(2) d2
      by (simp add: read_payload_len_def after_header_def after_length_def length_code_def
          length_length_bytes buf Let_def)
  next
    case False
    then have l: "length_bytes ?n = mem64 (GUINT64_FROM_BE (of_nat ?n))"
      by (simp add: length_bytes_def)
    have "unat (GUINT64_FROM_BE (of_nat (le_value (length_bytes ?n)))) = ?n"
      unfolding l using n guint64_roundtrip [of ?n] by (simp add: unat_of_nat)
    moreover have "take 8 (drop 2 (ws_buf d)) = length_bytes ?n"
      unfolding d2 by (simp add: l)
    ultimately show ?thesis using False assms(2) d2
      by (simp add: read_payload_len_def after_header_def after_length_def length_code_def
          length_length_bytes buf Let_def)
  qed
qed

lemma after_header_short:
  "n \<le> 125 \<Longrightarrow> after_header d fin opcode masked (length_code n) = after_length d fin opcode masked n"
  by (simp add: after_header_def after_length_def length_code_def length_length_bytes)

text \<open>The masking key.\<close>

lemma read_masking_key_frame:
  assumes "has_frame d fin opcode True random payload rest"
  shows "read_masking_key env (after_length d fin opcode True (length payload)) =
    (if payload = []
     then read_payload env (at_payload d fin opcode True random (length payload))
     else Some (at_payload d fin opcode True random (length payload), [], True))"
proof -
  let ?n = "length payload"
  obtain h where buf: "ws_buf d = header_bytes h @ length_bytes ?n @ mem32 random @
      apply_masking payload (mem32 random) @ rest"
    using assms by (auto simp: has_frame_def build_frame_eq masking_bytes_def)
  have "(after_length d fin opcode True ?n)\<lparr>ws_masking_key := mem32 random,
      ws_offset := 2 + length (length_bytes ?n) + 4,
      ws_reading_state := EVD_WEBSOCKET_READING_STATE_PAYLOAD\<rparr> =
    at_payload d fin opcode True random ?n"
    by (simp add: after_length_def at_payload_def frame_prefix_len_def)
  moreover have "take 4 (drop (2 + length (length_bytes ?n)) (ws_buf d)) = mem32 random"
    by (simp add: buf)
  ultimately show ?thesis
    by (simp add: read_masking_key_def after_length_def buf Let_def) (simp add: at_payload_def)
qed

lemma at_payload_available:
  assumes "has_frame d fin opcode masked random payload rest"
  defines "f \<equiv> at_payload d fin opcode masked random (length payload)"
  shows "\<not> length (ws_buf f) - ws_offset f < ws_payload_len f"
    "drop (frame_prefix_len masked (length payload)) (ws_buf d) =
       (if masked then apply_masking payload (mem32 random) else payload) @ rest"
    "payload \<noteq> [] \<Longrightarrow> ws_offset f < length (ws_buf f)"
  using assms
  by (auto simp: has_frame_def build_frame_eq masking_bytes_def at_payload_def
      frame_prefix_len_def)

lemma after_length_unmasked:
  "after_length d fin opcode False n = at_payload d fin opcode False random n"
  by (simp add: after_length_def at_payload_def frame_prefix_len_def)

lemma payload_deliver:
  assumes "has_frame d fin opcode masked random payload rest" and "payload \<noteq> []"
  defines "f \<equiv> at_payload d fin opcode masked random (length payload)"
  shows "process_data env f = deliver env f"
  using at_payload_available [OF assms(1)] assms
  by (intro round_deliver)
    (simp_all add: process_round_def process_stage_def at_payload_def has_frame_def)

lemma header_round:
  assumes "has_frame d fin opcode masked random payload rest"
  shows "process_round env d =
    process_stage env (after_header d fin opcode masked (length_code (length payload)))"
  using assms read_header_frame [OF assms] by (simp add: process_round_def has_frame_def)

lemma has_frame_guard:
  assumes "has_frame d fin opcode masked random payload rest"
  shows "ws_offset d < length (ws_buf d)" "ws_state d \<noteq> EVD_WEBSOCKET_STATE_CLOSED"
  using assms by (auto simp: has_frame_def build_frame_eq header_bytes_def)

text \<open>The loop on a buffer that starts with a frame completes that frame.\<close>

lemma process_frame:
  assumes fr: "has_frame d fin opcode masked random payload rest"
  shows "process_data env d = deliver env (at_payload d fin opcode masked random (length payload))"
proof -
  let ?n = "length payload"
  let ?f = "at_payload d fin opcode masked random ?n"
  let ?l = "after_length d fin opcode masked ?n"
  note guard = has_frame_guard [OF fr] and round = header_round [OF fr, of env]
  note avail = at_payload_available [OF fr]
  have len: "process_data env d = process_data env ?l" if "125 < ?n"
  proof -
    have "process_round env d = Some (?l, [], True)"
      using round read_payload_len_frame [OF fr that] that
      by (simp add: process_stage_def) (simp add: after_header_def length_code_def)
    from process_data_go [OF guard this] show ?thesis by simp
  qed
  have key: "read_masking_key env ?l =
      (if payload = [] then read_payload env ?f else Some (?f, [], True))" if masked
    using read_masking_key_frame [of d fin opcode random payload rest env] fr that by simp
  consider (short) "\<not> masked" "?n \<le> 125" | (long) "\<not> masked" "125 < ?n"
    | (short_masked) masked "?n \<le> 125" | (long_masked) masked "125 < ?n" by linarith
  then show ?thesis
  proof cases
    case short
    then have "process_round env d = read_payload env ?f"
      using round after_length_unmasked [of d fin opcode ?n random]
      by (simp add: after_header_short process_stage_def) (simp add: at_payload_def)
    from round_deliver [OF guard this avail(1)] show ?thesis .
  next
    case long
    then have "payload \<noteq> []" by auto
    from payload_deliver [OF fr this] long len after_length_unmasked [of d fin opcode ?n random]
    show ?thesis by simp
  next
    case short_masked
    then have r: "process_round env d = read_masking_key env ?l"
      using round by (simp add: after_header_short process_stage_def) (simp add: after_length_def)
    show ?thesis
    proof (cases "payload = []")
      case True
      with r key short_masked have "process_round env d = read_payload env ?f" by simp
      from round_deliver [OF guard this avail(1)] show ?thesis .
    next
      case False
      with r key short_masked have "process_round env d = Some (?f, [], True)" by simp
      from process_data_go [OF guard this] payload_deliver [OF fr False] show ?thesis by simp
    qed
  next
    case long_masked
    then have ne: "payload \<noteq> []" by auto
    have "process_round env ?l = Some (?f, [], True)"
      using key long_masked ne
      by (simp add: process_round_def process_stage_def) (simp add: after_length_def)
    moreover have "ws_offset ?l < length (ws_buf ?l)" "ws_state ?l \<noteq> EVD_WEBSOCKET_STATE_CLOSED"
      using avail(3) ne guard(2) by (simp_all add: after_length_def at_payload_def frame_prefix_len_def)
    ultimately have "process_data env ?l = process_data env ?f"
      using process_data_go [of ?l env ?f "[]"] by simp
    with len long_masked payload_deliver [OF fr ne] show ?thesis by simp
  qed
qed

section \<open>Data frames\<close>

lemma deliver_data:
  assumes fr: "has_frame d True opcode masked random payload rest"
    and data: "opcode < OPCODE_CLOSE" and cb: "ws_frame_cb d = Some cb"
    and ext: "ws_extension_len d = 0"
  defines "f \<equiv> at_payload d True opcode masked random (length payload)"
  shows "process_data env d =
    prepend [Frame_cb cb payload (opcode = OPCODE_BINARY_FRAME) (ws_user_data d)]
      (process_data env (reset_reading f))"
proof -
  have len: "length (if masked then apply_masking payload (mem32 random) else payload) =
      length payload" by simp
  have "frame_complete env f =
      Some (f, [Frame_cb cb payload (opcode = OPCODE_BINARY_FRAME) (ws_user_data d)])"
    using at_payload_available(2) [OF fr] data cb ext
    by (simp add: frame_complete_def f_def at_payload_def Let_def not_le [symmetric])
  with process_frame [OF fr, of env] show ?thesis by (simp add: deliver_def f_def)
qed

lemma reset_at_payload:
  assumes "has_frame d fin opcode masked random payload rest"
  defines "r \<equiv> reset_reading (at_payload d fin opcode masked random (length payload))"
  shows "ws_buf r = rest" "ws_offset r = 0" "ws_reading_state r = EVD_WEBSOCKET_READING_STATE_IDLE"
    "ws_state r = ws_state d" "ws_frame_cb r = ws_frame_cb d"
    "ws_user_data r = ws_user_data d" "ws_extension_len r = ws_extension_len d"
proof -
  have "drop (length payload + frame_prefix_len masked (length payload)) (ws_buf d) =
      drop (length payload) ((if masked then apply_masking payload (mem32 random) else payload) @ rest)"
    using at_payload_available(2) [OF assms(1)] drop_drop [of "length payload" _ "ws_buf d"] by metis
  then show "ws_buf r = rest"
    by (simp add: r_def reset_reading_def at_payload_def Let_def add.commute)
qed (simp_all add: r_def reset_reading_def at_payload_def Let_def)

section \<open>The reader does not depend on how the stream is cut\<close>

definition with_more :: "byte list \<Rightarrow> EvdWebsocketData \<Rightarrow> EvdWebsocketData" where
  "with_more ys d = d\<lparr>ws_buf := ws_buf d @ ys\<rparr>"

lemma with_more_simps [simp]:
  "ws_buf (with_more ys d) = ws_buf d @ ys" "ws_state (with_more ys d) = ws_state d"
  "ws_offset (with_more ys d) = ws_offset d" "ws_payload_len (with_more ys d) = ws_payload_len d"
  "ws_reading_state (with_more ys d) = ws_reading_state d"
  "ws_masked (with_more ys d) = ws_masked d" "ws_fin (with_more ys d) = ws_fin d"
  "ws_opcode (with_more ys d) = ws_opcode d" "ws_frame_cb (with_more ys d) = ws_frame_cb d"
  "ws_user_data (with_more ys d) = ws_user_data d"
  "ws_extension_len (with_more ys d) = ws_extension_len d"
  "ws_masking_key (with_more ys d) = ws_masking_key d"
  "(with_more ys d)\<lparr>ws_state := st\<rparr> = with_more ys (d\<lparr>ws_state := st\<rparr>)"
  by (simp_all add: with_more_def)

lemma with_more_Nil [simp]: "with_more [] d = d"
  by (simp add: with_more_def)

abbreviation more2 :: "byte list \<Rightarrow> ws_result \<Rightarrow> ws_result" where
  "more2 ys r \<equiv> map_option (map_prod (with_more ys) id) r"

abbreviation more3 :: "byte list \<Rightarrow> (EvdWebsocketData \<times> ws_event list \<times> bool) option \<Rightarrow>
  (EvdWebsocketData \<times> ws_event list \<times> bool) option" where
  "more3 ys r \<equiv> map_option (map_prod (with_more ys) id) r"

lemma finish_close_handshake_more:
  "finish_close_handshake (with_more ys d) code = more2 ys (finish_close_handshake d code)"
  by (simp add: with_more_def finish_close_handshake_def g_object_unref_conn_def Let_def
      split: option.split)

lemma close_websocket_more:
  "close_websocket env (with_more ys d) code =
     map_option (map_prod (with_more ys) id) (close_websocket env d code)"
  by (simp add: with_more_def close_websocket_def send_close_frame_def Let_def)

lemma on_close_frame_received_more:
  "on_close_frame_received env (with_more ys d) code = more2 ys (on_close_frame_received env d code)"
proof -
  have "(with_more ys d)\<lparr>ws_close_frame_received := True\<rparr> =
      with_more ys (d\<lparr>ws_close_frame_received := True\<rparr>)" by (simp add: with_more_def)
  then show ?thesis
    by (simp add: on_close_frame_received_def Let_def finish_close_handshake_more
        close_websocket_more split: option.split)
qed

lemma frame_complete_more:
  assumes "ws_offset d + ws_payload_len d \<le> length (ws_buf d)"
  shows "frame_complete env (with_more ys d) = more2 ys (frame_complete env d)"
proof -
  have "take (ws_payload_len d - ws_extension_len d)
      (drop (ws_offset d + ws_extension_len d) (ws_buf d @ ys)) =
    take (ws_payload_len d - ws_extension_len d)
      (drop (ws_offset d + ws_extension_len d) (ws_buf d))"
    using assms by (cases "ws_extension_len d \<le> ws_payload_len d") auto
  then show ?thesis
    by (simp add: frame_complete_def handle_control_frame_def on_close_frame_received_more Let_def
        del: take_append drop_append split: option.split)
qed

lemma read_payload_more:
  assumes "ws_offset d \<le> length (ws_buf d)"
    and "read_payload env d \<noteq> Some (d, [], False)"
  shows "read_payload env (with_more ys d) = more3 ys (read_payload env d)"
proof -
  from assms have le: "ws_offset d + ws_payload_len d \<le> length (ws_buf d)"
    by (auto simp: read_payload_def split: if_splits)
  have "with_more ys (reset_reading c) = reset_reading (with_more ys c)"
    if "frame_complete env d = Some (c, ev)" for c ev
    using frame_complete_same [OF that] le
    by (simp add: with_more_def reset_reading_def same_reading_def Let_def)
  with le frame_complete_more [OF le, of env ys] show ?thesis
    by (auto simp: read_payload_def split: option.splits)
qed

definition after_key :: "EvdWebsocketData \<Rightarrow> EvdWebsocketData" where
  "after_key d = d\<lparr>ws_masking_key := take 4 (drop (ws_offset d) (ws_buf d)),
    ws_offset := ws_offset d + 4, ws_reading_state := EVD_WEBSOCKET_READING_STATE_PAYLOAD\<rparr>"

lemma read_masking_key_alt:
  "read_masking_key env d =
     (if length (ws_buf d) - ws_offset d < 4 then Some (d, [], False)
      else if ws_payload_len d = 0 then read_payload env (after_key d)
      else Some (after_key d, [], True))"
  by (simp add: read_masking_key_def after_key_def Let_def)

lemma read_masking_key_more:
  assumes "read_masking_key env d \<noteq> Some (d, [], False)"
  shows "read_masking_key env (with_more ys d) = more3 ys (read_masking_key env d)"
proof -
  from assms have le: "ws_offset d + 4 \<le> length (ws_buf d)"
    by (auto simp: read_masking_key_def split: if_splits)
  then have k: "after_key (with_more ys d) = with_more ys (after_key d)"
    by (simp add: with_more_def after_key_def)
  have "read_payload env (after_key d) \<noteq> Some (after_key d, [], False)" if "ws_payload_len d = 0"
    using that by (auto simp: read_payload_def after_key_def split: option.splits)
  moreover have "ws_offset (after_key d) \<le> length (ws_buf (after_key d))"
    using le by (simp add: after_key_def)
  ultimately show ?thesis
    using le read_payload_more [of "after_key d" env ys] by (simp add: read_masking_key_alt k)
qed

lemma read_payload_len_more:
  assumes "read_payload_len d \<noteq> (d, False)"
  shows "read_payload_len (with_more ys d) = map_prod (with_more ys) id (read_payload_len d)"
  using assms by (auto simp: read_payload_len_def with_more_def Let_def split: if_splits)

lemma read_header_more:
  assumes "read_header d = (d', True)"
  shows "read_header (with_more ys d) = (with_more ys d', True)"
  using assms
  by (auto simp: read_header_def header_word_def nth_append with_more_def Let_def split: if_splits)

lemma process_stage_more:
  assumes "ws_offset d \<le> length (ws_buf d)" and "process_stage env d \<noteq> Some (d, [], False)"
  shows "process_stage env (with_more ys d) = more3 ys (process_stage env d)"
  using assms read_payload_more [OF assms(1), of env ys] read_masking_key_more [of env d ys]
    read_payload_len_more [of d ys]
  by (auto simp: process_stage_def split: if_splits prod.splits)

lemma process_stage_wait:
  assumes "process_stage env d = Some (d', ev, False)"
  shows "d' = d" "ev = []"
  using assms
  by (auto simp: process_stage_def read_payload_len_def read_masking_key_alt read_payload_def
      after_key_def Let_def split: if_splits option.splits)

lemma process_stage_offset:
  assumes "process_stage env d = Some (d', ev, True)"
  shows "ws_offset d' \<le> length (ws_buf d')"
  using assms
  by (auto simp: process_stage_def read_payload_len_def read_masking_key_alt read_payload_def
      reset_reading_def after_key_def Let_def split: if_splits option.splits)

text \<open>One round with more bytes behind: the same if it had enough, a fresh start otherwise.\<close>

lemma process_round_more:
  assumes "ws_offset d < length (ws_buf d)" and "process_round env d = Some (d', ev, True)"
  shows "process_round env (with_more ys d) = Some (with_more ys d', ev, True)"
    "ws_offset d' \<le> length (ws_buf d')"
proof -
  have "process_round env (with_more ys d) = Some (with_more ys d', ev, True) \<and>
    ws_offset d' \<le> length (ws_buf d')"
  proof (cases "ws_reading_state d = EVD_WEBSOCKET_READING_STATE_IDLE")
    case True
    with assms(2) obtain h where h: "read_header d = (h, True)"
      "process_stage env h = Some (d', ev, True)"
      by (auto simp: process_round_def split: prod.splits if_splits)
    with read_header_idle [OF h(1)] process_stage_more [of h env ys] read_header_more [OF h(1), of ys]
      process_stage_offset [OF h(2)] True show ?thesis
      by (simp add: process_round_def)
  next
    case False
    with assms process_stage_more [of d env ys] process_stage_offset [of env d d' ev] show ?thesis
      by (simp add: process_round_def)
  qed
  then show "process_round env (with_more ys d) = Some (with_more ys d', ev, True)"
    "ws_offset d' \<le> length (ws_buf d')" by simp_all
qed

lemma process_round_crash:
  assumes "ws_offset d < length (ws_buf d)" and "process_round env d = None"
  shows "process_round env (with_more ys d) = None"
proof (cases "ws_reading_state d = EVD_WEBSOCKET_READING_STATE_IDLE")
  case True
  with assms(2) obtain h where h: "read_header d = (h, True)" "process_stage env h = None"
    by (auto simp: process_round_def split: prod.splits if_splits)
  with read_header_idle [OF h(1)] process_stage_more [of h env ys] read_header_more [OF h(1), of ys]
    True show ?thesis by (simp add: process_round_def)
next
  case False
  with assms process_stage_more [of d env ys] show ?thesis by (simp add: process_round_def)
qed

lemma process_round_wait:
  assumes "ws_offset d < length (ws_buf d)" and "ws_state d \<noteq> EVD_WEBSOCKET_STATE_CLOSED"
    and "process_round env d = Some (d', ev, False)"
  shows "ev = []" "process_data env (with_more ys d) = process_data env (with_more ys d')"
    "ws_state d' = ws_state d" "ws_offset d' \<le> length (ws_buf d')"
proof -
  have "ev = [] \<and> process_data env (with_more ys d) = process_data env (with_more ys d') \<and>
    ws_state d' = ws_state d \<and> ws_offset d' \<le> length (ws_buf d')"
  proof (cases "ws_reading_state d = EVD_WEBSOCKET_READING_STATE_IDLE \<and> snd (read_header d)")
    case True
    then obtain h where h: "read_header d = (h, True)" by (metis prod.collapse)
    with True assms(3) have st: "process_stage env h = Some (d', ev, False)"
      by (simp add: process_round_def)
    note dh = process_stage_wait [OF st] and idle = read_header_idle [OF h]
    have state: "ws_state h = ws_state d" using h by (auto simp: read_header_def Let_def split: if_splits)
    have round: "process_round env (with_more ys d) = process_round env (with_more ys h)"
      using read_header_more [OF h, of ys] True idle by (simp add: process_round_def)
    show ?thesis
    proof (cases "ws_offset h < length (ws_buf h @ ys)")
      case go: True
      with round assms(1,2) state have "process_data env (with_more ys d) = process_data env (with_more ys h)"
        by (simp add: process_data_round)
      with dh state idle show ?thesis by simp
    next
      case stop: False
      with idle have "ys = []" by (cases ys) auto
      with stop st dh state assms idle show ?thesis
        by (simp add: process_data_round process_data_stop)
    qed
  next
    case False
    then have "d' = d" "ev = []"
      using assms(3) process_stage_wait [of env d d' ev]
      by (auto simp: process_round_def read_header_def Let_def split: if_splits)
    with assms show ?thesis by simp
  qed
  then show "ev = []" "process_data env (with_more ys d) = process_data env (with_more ys d')"
    "ws_state d' = ws_state d" "ws_offset d' \<le> length (ws_buf d')" by simp_all
qed

lemma process_data_append:
  assumes "ws_offset d \<le> length (ws_buf d)"
  shows "process_data env (with_more ys d) =
    (case process_data env d of
       None \<Rightarrow> None
     | Some (d', ev, ok) \<Rightarrow>
         if ok then prepend ev (process_data env (with_more ys d'))
         else Some (with_more ys d', ev, False))"
  using assms
proof (induction env d rule: process_data.induct)
  case (1 env d)
  show ?case
  proof (cases "ws_offset d < length (ws_buf d) \<and> ws_state d \<noteq> EVD_WEBSOCKET_STATE_CLOSED")
    case False
    then show ?thesis by (auto simp: process_data_stop)
  next
    case True
    then have guard: "ws_offset (with_more ys d) < length (ws_buf (with_more ys d))"
      "ws_state (with_more ys d) \<noteq> EVD_WEBSOCKET_STATE_CLOSED" by simp_all
    show ?thesis
    proof (cases "process_round env d")
      case None
      with True process_round_crash [of d env ys] show ?thesis by (simp add: process_data_round)
    next
      case (Some r)
      obtain d' ev ok where r: "r = (d', ev, ok)" by (metis prod_cases3)
      show ?thesis
      proof (cases ok)
        case ok: True
        with Some r True have rd: "process_round env d = Some (d', ev, True)" by simp
        from True have "ws_offset d < length (ws_buf d)" by simp
        note more = process_round_more [OF this rd]
        note ih = 1(1) [OF True rd refl refl _ more(2)]
        from process_data_go [OF guard more(1)] process_data_go [OF _ _ rd] True ih show ?thesis
          by (auto split: option.splits)
      next
        case ok: False
        with Some r have rd: "process_round env d = Some (d', ev, False)" by simp
        from True have "ws_offset d < length (ws_buf d)" "ws_state d \<noteq> EVD_WEBSOCKET_STATE_CLOSED"
          by simp_all
        note wait = process_round_wait [OF this rd]
        from True rd have "process_data env d = Some (d', ev, True)" by (simp add: process_data_round)
        with wait show ?thesis by simp
      qed
    qed
  qed
qed

text \<open>
  The bytes of a read given to the reader: the next state unless the connection was closed, and
  the events.
\<close>

definition ws_feed ::
  "ws_env \<Rightarrow> EvdWebsocketData \<Rightarrow> byte list \<Rightarrow> EvdWebsocketData option \<times> ws_event list"
where
  "ws_feed env d bytes =
     (case process_data env (with_more bytes d) of
        None \<Rightarrow> (None, [])
      | Some (d', ev, ok) \<Rightarrow> (if ok then Some d' else None, ev))"

definition ws_ready :: "ws_env \<Rightarrow> EvdWebsocketData \<Rightarrow> bool" where
  "ws_ready env d \<longleftrightarrow> (\<exists>log. ws_core (d, log)) \<and> process_data env d = Some (d, [], True)"

lemma with_more_core: "ws_core (d, log) \<Longrightarrow> ws_core (with_more xs d, log)"
  by (simp add: with_more_def ws_core_def ws_reading_ok_def ws_refs_ok_def ws_closing_ok_def)

lemma with_more_append: "with_more (xs @ ys) d = with_more ys (with_more xs d)"
  by (simp add: with_more_def)

lemma ws_ready_feed:
  assumes "ws_ready env d"
  obtains d' ev ok where "process_data env (with_more xs d) = Some (d', ev, ok)"
    "ws_offset (with_more xs d) \<le> length (ws_buf (with_more xs d))"
    "ok \<longrightarrow> ws_ready env d'"
proof -
  from assms obtain log where "ws_core (d, log)" by (auto simp: ws_ready_def)
  then have core: "ws_core (with_more xs d, log)" by (rule with_more_core)
  then have le: "ws_offset (with_more xs d) \<le> length (ws_buf (with_more xs d))"
    by (simp add: ws_core_def ws_reading_ok_def)
  from process_data_core [OF core, of env] obtain d' ev ok where
    r: "process_data env (with_more xs d) = Some (d', ev, ok)" "ws_core (d', log @ ev)"
    by (auto simp: keeps_core3_def split: option.splits)
  have "ws_ready env d'" if ok
  proof -
    have "prepend ev (process_data env d') = Some (d', ev, ok)"
      using process_data_append [OF le, of env "[]"] r(1) that by simp
    then have "process_data env d' = Some (d', [], True)"
      using that by (cases "process_data env d'") (auto simp: prepend_def)
    with r(2) show ?thesis by (auto simp: ws_ready_def)
  qed
  with that r le show ?thesis by blast
qed

interpretation ws_stream: stream_decoder "ws_feed env" "ws_ready env" for env
proof unfold_locales
  fix s assume "ws_ready env s"
  then show "ws_feed env s [] = (Some s, [])" by (simp add: ws_feed_def ws_ready_def)
next
  fix s and xs ys :: "byte list" assume ready: "ws_ready env s"
  obtain d' ev ok where d': "process_data env (with_more xs s) = Some (d', ev, ok)"
    "ws_offset (with_more xs s) \<le> length (ws_buf (with_more xs s))" "ok \<longrightarrow> ws_ready env d'"
    using ws_ready_feed [OF ready, of xs] by blast
  show "ws_feed env s (xs @ ys) =
    (case ws_feed env s xs of
       (None, out) \<Rightarrow> (None, out)
     | (Some s', out) \<Rightarrow> (case ws_feed env s' ys of (r, out') \<Rightarrow> (r, out @ out')))"
  proof (cases ok)
    case True
    obtain e ev' ok' where "process_data env (with_more ys d') = Some (e, ev', ok')"
      "ws_offset (with_more ys d') \<le> length (ws_buf (with_more ys d'))" "ok' \<longrightarrow> ws_ready env e"
      using ws_ready_feed [of env d' ys] d'(3) True by blast
    with process_data_append [OF d'(2), of env ys] d'(1) True show ?thesis
      by (simp add: ws_feed_def with_more_append)
  next
    case False
    with process_data_append [OF d'(2), of env ys] d'(1) show ?thesis
      by (simp add: ws_feed_def with_more_append)
  qed
next
  fix s xs s' out assume ready: "ws_ready env s" and feed: "ws_feed env s xs = (Some s', out)"
  obtain d' ev ok where "process_data env (with_more xs s) = Some (d', ev, ok)"
    "ws_offset (with_more xs s) \<le> length (ws_buf (with_more xs s))" "ok \<longrightarrow> ws_ready env d'"
    using ws_ready_feed [OF ready, of xs] by blast
  with feed show "ws_ready env s'" by (auto simp: ws_feed_def split: if_splits)
qed

section \<open>From the sender to the receiver\<close>

text \<open>Messages sent one after the other, and the bytes they put on the wire.\<close>

primrec send_messages ::
  "ws_env \<Rightarrow> EvdWebsocketData \<Rightarrow> (byte list \<times> EvdMessageType) list \<Rightarrow> ws_event list"
where
  "send_messages env s [] = []"
| "send_messages env s (m # ms) =
     (case send_websocket env s (fst m) (snd m) of
        (s', ev, _) \<Rightarrow> ev @ send_messages env s' ms)"

definition wire :: "ws_event list \<Rightarrow> byte list" where
  "wire ev = concat (map (\<lambda>e. case e of Written f \<Rightarrow> f | _ \<Rightarrow> []) ev)"

lemma wire_append [simp]: "wire (xs @ ys) = wire xs @ wire ys"
  by (simp add: wire_def)

definition sendable :: "byte list \<times> EvdMessageType \<Rightarrow> bool" where
  "sendable m \<longleftrightarrow> 0 < length (fst m) \<and> length (fst m) \<le> MAX_FRAGMENT_SIZE"

definition message_opcode :: "EvdMessageType \<Rightarrow> byte" where
  "message_opcode ty = (if ty = EVD_MESSAGE_TYPE_TEXT then OPCODE_TEXT_FRAME else OPCODE_BINARY_FRAME)"

definition ws_open :: "EvdWebsocketData \<Rightarrow> bool" where
  "ws_open d \<longleftrightarrow>
     ws_state d \<noteq> EVD_WEBSOCKET_STATE_CLOSING \<and> ws_state d \<noteq> EVD_WEBSOCKET_STATE_CLOSED"

lemma send_one_fragment:
  assumes "sendable m" and "ws_open s"
  shows "\<exists>s' err. ws_open s' \<and> send_websocket env s (fst m) (snd m) =
    (s', [Written (build_frame [] True (message_opcode (snd m)) (\<not> ws_server s)
       (env_random env (ws_random s)) (fst m))], True, err)"
  using assms
  by (simp add: send_websocket_def send_data_frame_def sendable_def ws_open_def Let_def
      send_data_loop.simps [of env s] send_data_loop.simps [of env _ "fst m" "length (fst m)"]
      data_fragment_def fragment_len_def message_opcode_def min_absorb2)

text \<open>A receiver between two frames.\<close>

definition between_frames :: "nat \<Rightarrow> pointer \<Rightarrow> EvdWebsocketData \<Rightarrow> bool" where
  "between_frames cb u d \<longleftrightarrow>
     ws_offset d = 0 \<and> ws_reading_state d = EVD_WEBSOCKET_READING_STATE_IDLE \<and>
     ws_state d \<noteq> EVD_WEBSOCKET_STATE_CLOSED \<and> ws_frame_cb d = Some cb \<and>
     ws_user_data d = u \<and> ws_extension_len d = 0"

definition delivered :: "nat \<Rightarrow> pointer \<Rightarrow> byte list \<times> EvdMessageType \<Rightarrow> ws_event" where
  "delivered cb u m = Frame_cb cb (fst m) (snd m = EVD_MESSAGE_TYPE_BINARY) u"

lemma message_opcode_facts:
  "message_opcode ty < 16" "message_opcode ty < OPCODE_CLOSE"
  "message_opcode ty = OPCODE_BINARY_FRAME \<longleftrightarrow> ty = EVD_MESSAGE_TYPE_BINARY"
  by (cases ty; simp add: message_opcode_def OPCODE_TEXT_FRAME_def OPCODE_BINARY_FRAME_def
      OPCODE_CLOSE_def)+

lemma receive_message:
  assumes "between_frames cb u d" and "sendable m"
    and "ws_buf d = build_frame [] True (message_opcode (snd m)) masked random (fst m) @ rest"
  shows "\<exists>d'. between_frames cb u d' \<and> ws_buf d' = rest \<and>
    process_data env d = prepend [delivered cb u m] (process_data env d')"
proof -
  have fr: "has_frame d True (message_opcode (snd m)) masked random (fst m) rest"
    using assms message_opcode_facts
    by (simp add: has_frame_def between_frames_def sendable_def MAX_FRAGMENT_SIZE_def)
  let ?r = "reset_reading (at_payload d True (message_opcode (snd m)) masked random (length (fst m)))"
  have "process_data env d = prepend [delivered cb u m] (process_data env ?r)"
    using deliver_data [OF fr] assms(1) message_opcode_facts
    by (simp add: between_frames_def delivered_def)
  moreover have "between_frames cb u ?r" "ws_buf ?r = rest"
    using reset_at_payload [OF fr] assms(1) by (simp_all add: between_frames_def)
  ultimately show ?thesis by blast
qed

lemma receive_messages:
  assumes "between_frames cb u d" and "list_all sendable ms" and "ws_open s"
    and "ws_buf d = wire (send_messages senv s ms)"
  shows "\<exists>d'. between_frames cb u d' \<and> ws_buf d' = [] \<and>
    process_data env d = Some (d', map (delivered cb u) ms, True)"
  using assms
proof (induction ms arbitrary: s d)
  case Nil
  then show ?case by (auto simp: process_data_stop wire_def between_frames_def)
next
  case (Cons m ms)
  from Cons.prems send_one_fragment [of m s senv] obtain s' err where s': "ws_open s'"
    "send_websocket senv s (fst m) (snd m) =
      (s', [Written (build_frame [] True (message_opcode (snd m)) (\<not> ws_server s)
         (env_random senv (ws_random s)) (fst m))], True, err)" by auto
  with Cons.prems have "ws_buf d = build_frame [] True (message_opcode (snd m)) (\<not> ws_server s)
      (env_random senv (ws_random s)) (fst m) @ wire (send_messages senv s' ms)"
    by (simp add: wire_def)
  from receive_message [OF Cons.prems(1) _ this, of env] Cons.prems(2) obtain d1 where
    d1: "between_frames cb u d1" "ws_buf d1 = wire (send_messages senv s' ms)"
      "process_data env d = prepend [delivered cb u m] (process_data env d1)" by auto
  from Cons.IH [OF d1(1) _ s'(1) d1(2)] Cons.prems(2) d1(3) show ?case by auto
qed

lemma bound_ready:
  assumes "bound_connection memory server cb ccb u dn = Some d"
  shows "ws_ready env d" "between_frames cb u d" "ws_buf d = []"
proof -
  from bound_connection_inv [of memory server cb ccb u dn] assms have "ws_core (d, [])"
    by (simp add: ws_inv_def)
  moreover show b: "ws_buf d = []" and "between_frames cb u d"
    using assms by (auto simp: bound_connection_def evd_websocket_protocol_bind_def
        setup_connection_def read_from_connection_def between_frames_def)
  ultimately show "ws_ready env d" by (auto simp: ws_ready_def process_data_stop between_frames_def)
qed

section \<open>Control frames\<close>

lemma control_frame:
  assumes fr: "has_frame d fin opcode masked random payload rest" and "OPCODE_CLOSE \<le> opcode"
  shows "process_data env d =
    (case handle_control_frame env (at_payload d fin opcode masked random (length payload)) of
       None \<Rightarrow> None
     | Some (c, ev) \<Rightarrow> prepend ev (process_data env (reset_reading c)))"
  using assms(2) by (simp add: process_frame [OF fr] deliver_def frame_complete_def Let_def at_payload_def)

text \<open>The first close frame of the peer starts the closing handshake.\<close>

lemma first_close_frame:
  assumes "ws_core (d, log)" and "ws_open d" and "ws_opcode d = OPCODE_CLOSE"
  shows "handle_control_frame env d =
    Some (d\<lparr>ws_close_frame_received := True, ws_state := EVD_WEBSOCKET_STATE_CLOSING,
      ws_close_frame_sent := True, ws_refs := Suc (ws_refs d),
      ws_random := ws_random d + of_bool (\<not> ws_server d),
      ws_close_code := EVD_WEBSOCKET_CLOSE_NO_STATUS, ws_flushes := 1\<rparr>,
      [Close_received, Written (own_close_frame env d)])"
proof -
  from assms(1) have "closing_ok (ws_state d) (ws_close_frame_sent d) (ws_close_frame_received d)
      (ws_close_timeout d) (ws_flushes d) log" by (simp add: ws_core_def ws_closing_ok_def)
  from closing_ok_start [OF this] assms(2,3) show ?thesis
    by (simp add: handle_control_frame_def on_close_frame_received_def close_websocket_open
        ws_open_def Let_def)
qed

lemma second_close_frame:
  assumes "ws_core (d, log)" and "ws_state d = EVD_WEBSOCKET_STATE_CLOSING"
    and "ws_close_frame_received d" and "ws_opcode d = OPCODE_CLOSE" and "ws_close_cb d = Some cb"
  shows "handle_control_frame env d =
    Some (d\<lparr>ws_close_frame_received := True, ws_state := EVD_WEBSOCKET_STATE_CLOSED,
      ws_close_timeout := False\<rparr>,
      [Close_received, Close_cb cb True (ws_user_data d), Stream_closed])"
proof -
  from assms(1-3) have "\<not> ws_close_timeout d"
    by (simp add: ws_core_def ws_closing_ok_def closing_ok_def)
  then have "finish_close_handshake (d\<lparr>ws_close_frame_received := True\<rparr>) EVD_WEBSOCKET_CLOSE_NO_STATUS =
    Some (d\<lparr>ws_close_frame_received := True, ws_state := EVD_WEBSOCKET_STATE_CLOSED\<rparr>,
      [Close_cb cb True (ws_user_data d), Stream_closed])"
    using assms by (simp add: finish_close_handshake_def Let_def)
  with assms \<open>\<not> ws_close_timeout d\<close> show ?thesis
    by (cases d) (simp add: handle_control_frame_def on_close_frame_received_def Let_def)
qed

lemma handle_control_frame_some_core:
  assumes "ws_core (d, log)" "ws_state d \<noteq> EVD_WEBSOCKET_STATE_CLOSED"
    and "handle_control_frame env d = Some (d', ev)"
  shows "ws_core (reset_reading d', log @ ev)"
  using handle_control_frame_core [OF assms(1,2), of env] assms(3)
  by (simp add: keeps_core_def reset_reading_core)

lemma at_payload_core:
  assumes "ws_core (d, log)" and fr: "has_frame d fin opcode masked random payload rest"
  shows "ws_core (at_payload d fin opcode masked random (length payload), log)"
  using assms(1) at_payload_available(1) [OF fr] fr
  by (auto simp: at_payload_def ws_core_def ws_reading_ok_def ws_refs_ok_def ws_closing_ok_def
      frame_prefix_len_def has_frame_def build_frame_eq masking_bytes_def)

section \<open>Failing writes\<close>

lemma send_data_loop_error:
  assumes "\<And>f. env_write env f = Inl e" and "n < length frame \<or> err = Some e"
  shows "\<exists>d' ev. send_data_loop env d frame n ty err = (d', ev, True, Some e)"
  using assms
proof (induction env d frame n ty err rule: send_data_loop.induct)
  case (1 env d frame n ty err)
  show ?case
  proof (cases "n < length frame")
    case False
    with 1(3) show ?thesis by (subst send_data_loop.simps) simp
  next
    case True
    let ?d = "if \<not> ws_server d then d\<lparr>ws_random := Suc (ws_random d)\<rparr> else d"
    from True 1(1) [OF _ refl refl refl refl _ 1(2)] 1(2)
    have "\<exists>d' ev. send_data_loop env ?d frame (n + fragment_len frame n) ty (Some e) =
        (d', ev, True, Some e)"
      by (simp add: gssize_result_def set_error_def)
    with True 1(2) show ?thesis
      by (auto simp: send_data_loop.simps [of env d frame n ty err] gssize_result_def set_error_def Let_def)
  qed
qed

end
