(* ===== verification/Websocket_Handshake.thy ===== *)
theory Websocket_Handshake
  imports Websocket_Protocol "HOL-Library.Char_ord"
begin

unbundle bit_operations_syntax

text \<open>
  The opening handshake of \<open>evd/evd-websocket-protocol.c\<close>. The header tables of libsoup and the
  functions of GLib that the code calls are not part of the repository: they are the fields of a
  record \<open>hs_lib\<close>, an argument of every definition, and \<open>hs_lib_ok\<close> states what the code relies
  on: looking up a header after replacing it, without regard to case, that \<open>g_ascii_strtoull\<close>
  reads 13, that \<open>g_strstr_len\<close> finds a string in itself, that an encoded digest is not empty.
\<close>

record 'h hs_lib =
  headers_new :: 'h
  headers_replace :: "'h \<Rightarrow> string \<Rightarrow> string \<Rightarrow> 'h"
  headers_get_one :: "'h \<Rightarrow> string \<Rightarrow> string option"
  ascii_strtoull :: "string \<Rightarrow> 64 word"
  strstr :: "string \<Rightarrow> string \<Rightarrow> bool"
  checksum_sha1 :: "string \<Rightarrow> byte list"
  base64_encode :: "byte list \<Rightarrow> string"

definition same_header :: "string \<Rightarrow> string \<Rightarrow> bool" where
  "same_header a b \<longleftrightarrow> map (\<lambda>c. if CHR ''A'' \<le> c \<and> c \<le> CHR ''Z'' then char_of (of_char c + 32 :: nat) else c) a =
     map (\<lambda>c. if CHR ''A'' \<le> c \<and> c \<le> CHR ''Z'' then char_of (of_char c + 32 :: nat) else c) b"

definition hs_lib_ok :: "'h hs_lib \<Rightarrow> bool" where
  "hs_lib_ok lib \<longleftrightarrow>
     (\<forall>h n v m. headers_get_one lib (headers_replace lib h n v) m =
        (if same_header n m then Some v else headers_get_one lib h m)) \<and>
     ascii_strtoull lib ''13'' = 13 \<and> (\<forall>s. strstr lib s s) \<and>
     (\<forall>s. base64_encode lib (checksum_sha1 lib s) \<noteq> [])"

definition EVD_WEBSOCKET_MAGIC_UUID :: string where
  "EVD_WEBSOCKET_MAGIC_UUID = ''258EAFA5-E914-47DA-95CA-C5AB0DC85B11''"

definition get_version_from_request :: "'h hs_lib \<Rightarrow> 'h \<Rightarrow> byte" where
  "get_version_from_request lib headers =
     (case headers_get_one lib headers ''Sec-Websocket-Version'' of
        None \<Rightarrow> 0
      | Some version_str \<Rightarrow> ucast (ascii_strtoull lib version_str))"

definition get_accept_key :: "'h hs_lib \<Rightarrow> string \<Rightarrow> string" where
  "get_accept_key lib key =
     base64_encode lib (checksum_sha1 lib (key @ EVD_WEBSOCKET_MAGIC_UUID))"

text \<open>
  The outcome of a handshake: an error, or the data of the new WebSocket connection.
  \<open>write_headers\<close> is what \<open>evd_http_connection_write_response_headers\<close> returns.
\<close>

definition evd_websocket_protocol_handle_handshake_request ::
  "'h hs_lib \<Rightarrow> ('h \<Rightarrow> gio_error option) \<Rightarrow> 'h \<Rightarrow> (gio_error + EvdWebsocketData) \<times> 'h list"
where
  "evd_websocket_protocol_handle_handshake_request lib write_headers req_headers =
     (if get_version_from_request lib req_headers \<noteq> 13
      then (Inl G_IO_ERROR_INVALID_ARGUMENT, [])
      else
        let conn_header = headers_get_one lib req_headers ''Connection'' in
        if headers_get_one lib req_headers ''Upgrade'' \<noteq> Some ''websocket'' \<or>
           conn_header = None \<or> \<not> strstr lib (the conn_header) ''Upgrade''
        then (Inl G_IO_ERROR_INVALID_DATA, [])
        else (case headers_get_one lib req_headers ''Sec-WebSocket-Key'' of
                None \<Rightarrow> (Inl G_IO_ERROR_INVALID_DATA, [])
              | Some key \<Rightarrow>
                  let accept_key = get_accept_key lib key;
                      res_headers = headers_new lib;
                      res_headers = headers_replace lib res_headers ''Connection'' ''Upgrade'';
                      res_headers = headers_replace lib res_headers ''Upgrade'' ''websocket'';
                      res_headers = headers_replace lib res_headers ''Sec-WebSocket-Accept'' accept_key
                  in (case write_headers res_headers of
                        Some e \<Rightarrow> (Inl e, [res_headers])
                      | None \<Rightarrow> (Inr (setup_connection True EVD_WEBSOCKET_STATE_OPENED), [res_headers]))))"

definition handshake_key_bytes :: "(nat \<Rightarrow> 32 word) \<Rightarrow> byte list" where
  "handshake_key_bytes random =
     concat (map (\<lambda>i. let rnd = random i in
        [ucast (drop_bit 24 rnd AND 0xFF), ucast (drop_bit 16 rnd AND 0xFF),
         ucast (drop_bit 8 rnd AND 0xFF), ucast (rnd AND 0xFF)]) [0..<4])"

text \<open>The headers of the request, and the key in base64.\<close>

definition evd_websocket_protocol_create_handshake_request ::
  "'h hs_lib \<Rightarrow> (nat \<Rightarrow> 32 word) \<Rightarrow> 'h \<Rightarrow> string option \<Rightarrow> string option \<Rightarrow> 'h \<times> string"
where
  "evd_websocket_protocol_create_handshake_request lib random headers sub_protocol origin =
     (let headers = headers_replace lib headers ''Upgrade'' ''websocket'';
          headers = headers_replace lib headers ''Connection'' ''Upgrade'';
          headers = headers_replace lib headers ''Sec-WebSocket-Version'' ''13'';
          headers = (case sub_protocol of None \<Rightarrow> headers
                     | Some p \<Rightarrow> headers_replace lib headers ''Sec-WebSocket-Protocol'' p);
          headers = (case origin of None \<Rightarrow> headers
                     | Some p \<Rightarrow> headers_replace lib headers ''Sec-WebSocket-Origin'' p);
          key_b64 = base64_encode lib (handshake_key_bytes random)
      in (headers_replace lib headers ''Sec-WebSocket-Key'' key_b64, key_b64))"

datatype SoupHTTPVersion = SOUP_HTTP_1_0 | SOUP_HTTP_1_1

definition SOUP_STATUS_SWITCHING_PROTOCOLS :: nat where "SOUP_STATUS_SWITCHING_PROTOCOLS = 101"

definition evd_websocket_protocol_handle_handshake_response ::
  "'h hs_lib \<Rightarrow> SoupHTTPVersion \<Rightarrow> nat \<Rightarrow> 'h \<Rightarrow> string \<Rightarrow> gio_error + EvdWebsocketData"
where
  "evd_websocket_protocol_handle_handshake_response lib http_version status_code headers handshake_key =
     (if http_version \<noteq> SOUP_HTTP_1_1 then Inl G_IO_ERROR_FAILED
      else if status_code \<noteq> SOUP_STATUS_SWITCHING_PROTOCOLS then Inl G_IO_ERROR_FAILED
      else (case headers_get_one lib headers ''Sec-WebSocket-Accept'' of
              None \<Rightarrow> Inl G_IO_ERROR_INVALID_DATA
            | Some accept_key \<Rightarrow>
                if length accept_key = 0 then Inl G_IO_ERROR_INVALID_DATA
                else if accept_key \<noteq> get_accept_key lib handshake_key
                then Inl G_IO_ERROR_INVALID_DATA
                else Inr (setup_connection False EVD_WEBSOCKET_STATE_OPENED)))"

section \<open>The two ends agree\<close>

lemma header_names:
  "\<not> same_header ''Connection'' ''Upgrade''" "\<not> same_header ''Upgrade'' ''Connection''"
  "same_header ''Sec-WebSocket-Version'' ''Sec-Websocket-Version''"
  "\<not> same_header ''Sec-WebSocket-Version'' ''Upgrade''" "\<not> same_header ''Sec-WebSocket-Version'' ''Connection''"
  "\<not> same_header ''Sec-WebSocket-Protocol'' ''Upgrade''" "\<not> same_header ''Sec-WebSocket-Protocol'' ''Connection''"
  "\<not> same_header ''Sec-WebSocket-Protocol'' ''Sec-Websocket-Version''"
  "\<not> same_header ''Sec-WebSocket-Origin'' ''Upgrade''" "\<not> same_header ''Sec-WebSocket-Origin'' ''Connection''"
  "\<not> same_header ''Sec-WebSocket-Origin'' ''Sec-Websocket-Version''"
  "\<not> same_header ''Sec-WebSocket-Key'' ''Upgrade''" "\<not> same_header ''Sec-WebSocket-Key'' ''Connection''"
  "\<not> same_header ''Sec-WebSocket-Key'' ''Sec-Websocket-Version''"
proof -
qed code_simp+

lemma same_header_refl [simp]: "same_header s s"
  by (simp add: same_header_def)

lemma request_headers:
  assumes "hs_lib_ok lib"
    and "evd_websocket_protocol_create_handshake_request lib random h sub_protocol origin = (headers, key)"
  shows "get_version_from_request lib headers = 13"
    "headers_get_one lib headers ''Upgrade'' = Some ''websocket''"
    "headers_get_one lib headers ''Connection'' = Some ''Upgrade''"
    "headers_get_one lib headers ''Sec-WebSocket-Key'' = Some key"
  using assms
  by (auto simp: evd_websocket_protocol_create_handshake_request_def hs_lib_ok_def Let_def
      get_version_from_request_def header_names split: option.splits)

end
