(* ===== verification/Websocket_Properties.thy ===== *)
theory Websocket_Properties
  imports Websocket_Stream Websocket_Handshake
begin

text \<open>
  The properties of the WebSocket protocol: what one end sends the other delivers, the reads may
  cut the stream anywhere, a bound connection never runs into undefined behaviour, the closing
  handshake, and where the code departs from what it means to do.
\<close>

section \<open>Delivery\<close>

text \<open>An empty message leaves no trace, neither in the sender nor on the wire.\<close>

lemma send_empty: "\<exists>r err. send_websocket env s [] ty = (s, [], r, err)"
  by (auto simp: send_websocket_def send_data_frame_def send_data_loop.simps)

lemma send_messages_skip_empty:
  "send_messages env s ms = send_messages env s (filter (\<lambda>m. fst m \<noteq> []) ms)"
proof (induction ms arbitrary: s)
  case (Cons m ms)
  then show ?case
    using send_empty [of env s "snd m"] by (cases "fst m = []") (auto split: prod.split)
qed simp

text \<open>
  C2. Messages of at most \<open>MAX_FRAGMENT_SIZE\<close> bytes sent with \<open>evd_websocket_protocol_send\<close> by
  either end while it is neither closing nor closed (masked by a client, with any masking keys): when
  the bytes handed to the stream arrive, a freshly bound receiver delivers the messages that are not
  empty, one callback per message, in order, with the same bytes and the same type, however
  the byte stream is cut into reads. Nothing is sent for an empty message; longer messages are
  sent in fragments, and the receiver closes the connection at the first of them (\<open>frame_complete\<close>).
\<close>

theorem websocket_roundtrip:
  assumes "bound_connection memory server cb ccb u dn = Some d"
    and "list_all (\<lambda>m. length (fst m) \<le> MAX_FRAGMENT_SIZE) ms" and "ws_open s"
    and "concat chunks = wire (send_messages senv s ms)"
  shows "\<exists>d'. feed_chunks (ws_feed env) d chunks = (Some d', map (delivered cb u) (filter (\<lambda>m. fst m \<noteq> []) ms))"
proof -
  note d = bound_ready [OF assms(1)]
  let ?ms = "filter (\<lambda>m. fst m \<noteq> []) ms"
  have sendable: "list_all sendable ?ms" using assms(2) by (auto simp: list_all_iff sendable_def)
  have "between_frames cb u (with_more (wire (send_messages senv s ?ms)) d)"
    using d(2) by (simp add: between_frames_def with_more_def)
  from receive_messages [OF this sendable assms(3)] d(3) obtain d' where
    "process_data env (with_more (wire (send_messages senv s ?ms)) d) =
      Some (d', map (delivered cb u) ?ms, True)" by force
  with assms(4) ws_stream.feed_chunks_concat [OF d(1)] show ?thesis
    using send_messages_skip_empty [of senv s ms] by (simp add: ws_feed_def)
qed

definition ok_env :: ws_env where
  "ok_env = \<lparr>env_random = (\<lambda>n. of_nat (Suc n) * 0x9E3779B1), env_write = (\<lambda>f. Inr (length f))\<rparr>"

text \<open>A message of one byte from a client, in three reads.\<close>

definition client :: EvdWebsocketData where
  "client = setup_connection False EVD_WEBSOCKET_STATE_OPENED"

lemma client_wire:
  "wire (send_messages ok_env client [([0x41], EVD_MESSAGE_TYPE_BINARY)]) =
     [0x82, 0x81, 0xB1, 0x79, 0x37, 0x9E, 0xF0]"
proof -
  have "sendable ([0x41], EVD_MESSAGE_TYPE_BINARY)" "ws_open client" "\<not> ws_server client"
    "ws_random client = 0" "env_random ok_env 0 = 0x9E3779B1"
    by (simp_all add: sendable_def MAX_FRAGMENT_SIZE_def ws_open_def client_def
        setup_connection_def ok_env_def)
  moreover have "build_frame [] True OPCODE_BINARY_FRAME True 0x9E3779B1 [0x41] =
      [0x82, 0x81, 0xB1, 0x79, 0x37, 0x9E, 0xF0]" by code_simp
  ultimately show ?thesis
    using send_one_fragment [of "([0x41], EVD_MESSAGE_TYPE_BINARY)" client ok_env]
    by (auto simp: wire_def message_opcode_def)
qed

theorem websocket_roundtrip_witness:
  "\<exists>d'. feed_chunks (ws_feed ok_env) (the (bound_connection [] True 1 2 None None))
     [[0x82, 0x81], [0xB1, 0x79, 0x37], [0x9E, 0xF0]] =
     (Some d', [Frame_cb 1 [0x41] True None])"
proof -
  let ?d = "the (bound_connection [] True 1 2 None None)"
  let ?ms = "[([], EVD_MESSAGE_TYPE_TEXT), ([0x41], EVD_MESSAGE_TYPE_BINARY)] :: (byte list \<times> EvdMessageType) list"
  have d: "bound_connection [] True 1 2 None None = Some ?d"
    using bound_connection_inv [of "[]" True 1 2 None None] by auto
  have "list_all (\<lambda>m. length (fst m) \<le> MAX_FRAGMENT_SIZE) ?ms" "ws_open client"
    by (simp_all add: MAX_FRAGMENT_SIZE_def ws_open_def client_def setup_connection_def)
  moreover have "wire (send_messages ok_env client ?ms) = [0x82, 0x81, 0xB1, 0x79, 0x37, 0x9E, 0xF0]"
    using client_wire send_messages_skip_empty [of ok_env client ?ms] by simp
  ultimately show ?thesis
    using websocket_roundtrip [OF d, of ?ms client "[[0x82, 0x81], [0xB1, 0x79, 0x37], [0x9E, 0xF0]]" ok_env ok_env]
    by (simp add: delivered_def)
qed

text \<open>
  For every byte stream, well formed or not, the callbacks made, the frames written and the
  final state do not depend on how the stream is cut into reads.
\<close>

theorem websocket_chunking_irrelevant:
  assumes "bound_connection memory server cb ccb u dn = Some d" and "concat cs = concat ds"
  shows "feed_chunks (ws_feed env) d cs = feed_chunks (ws_feed env) d ds"
  using ws_stream.feed_chunks_same_stream [OF bound_ready(1) [OF assms(1)] assms(2)] .

theorem websocket_chunking_irrelevant_witness:
  "feed_chunks (ws_feed ok_env) (the (bound_connection [] True 1 2 None None)) [[0x88], [], [0x80, 1, 2, 3], [4]] =
   feed_chunks (ws_feed ok_env) (the (bound_connection [] True 1 2 None None)) [[0x88, 0x80], [1, 2, 3, 4]]"
  using bound_connection_inv [of "[]" True 1 2 None None]
  by (intro websocket_chunking_irrelevant [of "[]" True 1 2 None None]) auto

section \<open>Safety\<close>

text \<open>
  C4. From a handshake and a bind on, no sequence of sends, closes, completed or failed reads,
  flushes and timeouts makes the module call a NULL callback, fail its assertion, write past its
  buffer, release a reference it does not hold or loop for ever; the references held are always
  those of the pending operations, and a pending read has room for the bytes it asked for.
\<close>

theorem websocket_memory_safe:
  assumes "list_all ws_allowed ops"
  shows "\<exists>d log. ws_lifetime env memory server frame_cb close_cb user_data destroy ops = Some (d, log) \<and>
    ws_refs d = ws_reads d + ws_flushes d + of_bool (ws_close_timeout d) \<and>
    ws_offset d \<le> length (ws_buf d) \<and> length (ws_buf d) \<le> the (ws_buf_size d) \<and>
    (ws_reads d = 0 \<or> ws_reads d = 1 \<and> length (ws_buf d) + BLOCK_SIZE \<le> the (ws_buf_size d))"
  using lifetime_inv [OF assms, of env memory server frame_cb close_cb user_data destroy]
  by (auto simp: ws_inv_def ws_core_def ws_room_def ws_refs_ok_def ws_reading_ok_def le_Suc_eq)

theorem websocket_memory_safe_witness:
  "\<exists>d log. ws_lifetime ok_env [] False 1 2 None None
      [Op_send [0x41] EVD_MESSAGE_TYPE_TEXT, Op_read (Inr [0x81, 1, 0x42]), Op_close 1000,
       Op_read (Inr [0x88, 0]), Op_timeout] = Some (d, log) \<and>
    ws_refs d = ws_reads d + ws_flushes d + of_bool (ws_close_timeout d)"
  using websocket_memory_safe [of "[Op_send [0x41] EVD_MESSAGE_TYPE_TEXT, Op_read (Inr [0x81, 1, 0x42]),
      Op_close 1000, Op_read (Inr [0x88, 0]), Op_timeout]" ok_env "[]" False 1 2 None None]
  by (auto simp: ws_allowed_def BLOCK_SIZE_def)

lemma nothing_after_close_split:
  "nothing_after_close (pre @ e # post) \<Longrightarrow> is_close_frame e \<Longrightarrow> list_all (\<lambda>e. \<not> is_written e) post"
  using nothing_after_close_append [of "pre @ [e]" post] by simp

text \<open>
  C37. Once a close frame has been written nothing else is written on the connection: no data
  frame and no second close frame (RFC 6455, 5.5.1).
\<close>

theorem websocket_nothing_after_close:
  assumes "list_all ws_allowed ops"
  shows "\<exists>d log. ws_lifetime env memory server frame_cb close_cb user_data destroy ops = Some (d, log) \<and>
    (\<forall>pre e post. log = pre @ e # post \<and> is_close_frame e \<longrightarrow> list_all (\<lambda>e. \<not> is_written e) post)"
  using lifetime_inv [OF assms, of env memory server frame_cb close_cb user_data destroy]
    nothing_after_close_split
  by (fastforce simp: ws_inv_def ws_core_def ws_closing_ok_def closing_ok_def)

theorem websocket_nothing_after_close_witness:
  "\<exists>d log. ws_lifetime ok_env [] True 1 2 None None
     [Op_read (Inr [0x88, 0]), Op_send [0x41] EVD_MESSAGE_TYPE_TEXT, Op_close 1000, Op_flushed] = Some (d, log) \<and>
    (\<forall>pre e post. log = pre @ e # post \<and> is_close_frame e \<longrightarrow> list_all (\<lambda>e. \<not> is_written e) post)"
  by (rule websocket_nothing_after_close) (simp add: ws_allowed_def BLOCK_SIZE_def)

text \<open>
  The user's close callback is called at most once, or at most twice if the peer sent a
  second close frame; more than two close frames are never read.
\<close>

theorem websocket_close_callbacks:
  assumes "list_all ws_allowed ops"
  shows "\<exists>d log. ws_lifetime env memory server frame_cb close_cb user_data destroy ops = Some (d, log) \<and>
    closes_received log \<le> 2 \<and> close_cbs log \<le> (if closes_received log = 2 then 2 else 1)"
proof -
  from lifetime_inv [OF assms, of env memory server frame_cb close_cb user_data destroy]
  obtain d log where l: "ws_lifetime env memory server frame_cb close_cb user_data destroy ops = Some (d, log)"
    and "ws_closing_ok d log" by (auto simp: ws_inv_def ws_core_def)
  then have "closes_received log \<le> 2 \<and> close_cbs log \<le> (if closes_received log = 2 then 2 else 1)"
    by (cases "ws_state d") (auto simp: ws_closing_ok_def closing_ok_def)
  with l show ?thesis by blast
qed

theorem websocket_close_callbacks_witness:
  "\<exists>d log. ws_lifetime ok_env [] True 1 2 None None
     [Op_read (Inr [0x88, 0]), Op_read (Inr [0x88, 0]), Op_flushed] = Some (d, log) \<and>
    closes_received log \<le> 2 \<and> close_cbs log \<le> (if closes_received log = 2 then 2 else 1)"
  by (rule websocket_close_callbacks) (simp add: ws_allowed_def BLOCK_SIZE_def)

section \<open>Where the code departs from its intention\<close>

text \<open>
  After \<open>evd_websocket_protocol_unbind\<close> the reading goes on: a complete data frame that
  arrives then makes \<open>read_payload\<close> call the NULL \<open>frame_cb\<close>.
\<close>

theorem websocket_unbound_frame_crashes:
  assumes "has_frame d True opcode masked random payload rest" and "opcode < OPCODE_CLOSE"
    and "ws_frame_cb d = None"
  shows "process_data env d = None"
  using assms(2,3)
  by (simp add: process_frame [OF assms(1)] deliver_def frame_complete_def Let_def at_payload_def
      not_le [symmetric])

definition unbound :: "byte list \<Rightarrow> EvdWebsocketData" where
  "unbound buf = (setup_connection True EVD_WEBSOCKET_STATE_OPENED)
     \<lparr>ws_buf := buf, ws_buf_size := Some BLOCK_SIZE\<rparr>"

lemma unbound_has_frame:
  assumes "build_frame [] fin opcode masked random payload = buf" and "opcode < 16"
    and "length payload < 2 ^ 64"
  shows "has_frame (unbound buf) fin opcode masked random payload []"
  using assms by (simp add: has_frame_def unbound_def setup_connection_def)

theorem websocket_unbound_frame_crashes_witness:
  "process_data ok_env (unbound [0x81, 1, 0x41]) = None"
proof -
  have "build_frame [] True 1 False 0 [0x41] = [0x81, 1, 0x41]" by code_simp
  then have "has_frame (unbound [0x81, 1, 0x41]) True 1 False 0 [0x41] []"
    by (rule unbound_has_frame) simp_all
  then show ?thesis
    by (rule websocket_unbound_frame_crashes)
      (simp_all add: unbound_def setup_connection_def OPCODE_CLOSE_def)
qed

text \<open>
  A ping, a pong or a reserved control frame closes the connection at once, without calling
  the close callback and without starting a timeout or a flush that would.
\<close>

theorem websocket_control_frame_closes:
  assumes "has_frame d fin opcode masked random payload rest" and "OPCODE_CLOSE < opcode"
  shows "\<exists>d'. process_data env d = Some (d', [Stream_closed], False) \<and>
    ws_state d' = EVD_WEBSOCKET_STATE_CLOSED \<and> ws_close_timeout d' = ws_close_timeout d \<and>
    ws_flushes d' = ws_flushes d"
proof -
  from assms(2) have "OPCODE_CLOSE \<le> opcode" "opcode \<noteq> OPCODE_CLOSE" by auto
  then show ?thesis
    by (simp add: control_frame [OF assms(1)] handle_control_frame_def at_payload_def
        reset_reading_def process_data_stop Let_def)
qed

theorem websocket_control_frame_closes_witness:
  "\<exists>d'. process_data ok_env (unbound [0x89, 0]) = Some (d', [Stream_closed], False) \<and>
    ws_state d' = EVD_WEBSOCKET_STATE_CLOSED \<and> \<not> ws_close_timeout d'"
proof -
  have "build_frame [] True 9 False 0 [] = [0x89, 0]" by code_simp
  then have "has_frame (unbound [0x89, 0]) True 9 False 0 [] []"
    by (rule unbound_has_frame) simp_all
  from websocket_control_frame_closes [OF this, of ok_env] show ?thesis
    by (auto simp: unbound_def setup_connection_def OPCODE_CLOSE_def)
qed

text \<open>
  Two close frames of the peer in one read make the module call the user's close callback
  twice: once for the second frame and once when the flush of its own close frame completes.
\<close>

theorem websocket_double_close:
  assumes core: "ws_core (d, log)" and cb: "ws_close_cb d = Some cb" and op: "ws_open d"
    and fr: "has_frame d True OPCODE_CLOSE masked random payload
      (build_frame [] True OPCODE_CLOSE masked' random' payload')"
    and len: "length payload' < 2 ^ 64"
  shows "\<exists>d' f d''. process_data env d =
      Some (d', [Close_received, Written f, Close_received,
        Close_cb cb True (ws_user_data d), Stream_closed], False) \<and>
    ws_flushes d' = 1 \<and>
    on_connection_flushed d' = Some (d'', [Close_cb cb True (ws_user_data d), Stream_closed])"
proof -
  let ?f = "at_payload d True OPCODE_CLOSE masked random (length payload)"
  have fc: "ws_core (?f, log)" using at_payload_core [OF core fr] .
  have fo: "ws_open ?f" "ws_opcode ?f = OPCODE_CLOSE" using op by (simp_all add: at_payload_def ws_open_def)
  note first = first_close_frame [OF fc fo, of env]
  define c where "c = ?f\<lparr>ws_close_frame_received := True, ws_state := EVD_WEBSOCKET_STATE_CLOSING,
      ws_close_frame_sent := True, ws_refs := Suc (ws_refs ?f),
      ws_random := ws_random ?f + of_bool (\<not> ws_server ?f),
      ws_close_code := EVD_WEBSOCKET_CLOSE_NO_STATUS, ws_flushes := 1\<rparr>"
  let ?r = "reset_reading c"
  have first': "handle_control_frame env ?f =
      Some (c, [Close_received, Written (own_close_frame env ?f)])"
    using first by (simp only: c_def)
  have rc: "ws_core (?r, log @ [Close_received, Written (own_close_frame env ?f)])"
    using handle_control_frame_some_core [OF fc _ first'] fo(1) by (simp add: ws_open_def)
  have "ws_buf ?r = build_frame [] True OPCODE_CLOSE masked' random' payload'"
    using reset_at_payload(1) [OF fr] by (simp add: c_def reset_reading_def Let_def at_payload_def)
  then have fr2: "has_frame ?r True OPCODE_CLOSE masked' random' payload' []"
    using len fr by (simp add: has_frame_def c_def reset_reading_def Let_def)
  let ?g = "at_payload ?r True OPCODE_CLOSE masked' random' (length payload')"
  have g: "ws_state ?g = EVD_WEBSOCKET_STATE_CLOSING" "ws_close_frame_received ?g"
    "ws_opcode ?g = OPCODE_CLOSE" "ws_close_cb ?g = Some cb" "ws_user_data ?g = ws_user_data d"
    "ws_flushes ?g = 1" "ws_close_code ?g = EVD_WEBSOCKET_CLOSE_NO_STATUS" "0 < ws_refs ?g"
    using cb by (simp_all add: at_payload_def c_def reset_reading_def Let_def)
  note second = second_close_frame [OF at_payload_core [OF rc fr2] g(1-4), of env]
  let ?d' = "reset_reading (?g\<lparr>ws_close_frame_received := True,
    ws_state := EVD_WEBSOCKET_STATE_CLOSED, ws_close_timeout := False\<rparr>)"
  have "process_data env ?d' = Some (?d', [], False)"
    by (simp add: process_data_stop reset_reading_def Let_def)
  then have "process_data env d = Some (?d', [Close_received, Written (own_close_frame env ?f),
      Close_received, Close_cb cb True (ws_user_data d), Stream_closed], False)"
    using control_frame [OF fr, of env] control_frame [OF fr2, of env] first' second g(5)
    by simp
  moreover have "ws_flushes ?d' = 1" using g(6) by (simp add: reset_reading_def Let_def)
  moreover have "\<exists>d''. on_connection_flushed ?d' =
      Some (d'', [Close_cb cb True (ws_user_data d), Stream_closed])"
    using g by (simp add: on_connection_flushed_def finish_close_handshake_def
        g_object_unref_conn_def reset_reading_def Let_def)
  ultimately show ?thesis by blast
qed

theorem websocket_double_close_witness:
  "\<exists>d' f d''. process_data ok_env (with_more [0x88, 0, 0x88, 0] (the (bound_connection [] True 1 2 None None))) =
      Some (d', [Close_received, Written f, Close_received, Close_cb 2 True None, Stream_closed], False) \<and>
    on_connection_flushed d' = Some (d'', [Close_cb 2 True None, Stream_closed])"
proof -
  from bound_connection_inv [of "[]" True 1 2 None None] obtain b where
    b: "bound_connection [] True 1 2 None None = Some b" "ws_inv (b, [])" by blast
  then have facts: "ws_buf b = []" "ws_offset b = 0" "ws_close_cb b = Some 2" "ws_user_data b = None"
    "ws_state b = EVD_WEBSOCKET_STATE_OPENED" "ws_reading_state b = EVD_WEBSOCKET_READING_STATE_IDLE"
    by (auto simp: bound_connection_def evd_websocket_protocol_bind_def setup_connection_def
        read_from_connection_def)
  let ?d = "with_more [0x88, 0, 0x88, 0] b"
  have frame: "build_frame [] True OPCODE_CLOSE False 0 [] = [0x88, 0]" by code_simp
  have "ws_core (?d, [])" using b(2) by (simp add: ws_inv_def with_more_core)
  moreover have "ws_close_cb ?d = Some 2" "ws_open ?d"
    using facts by (simp_all add: with_more_def ws_open_def)
  moreover have "has_frame ?d True OPCODE_CLOSE False 0 []
      (build_frame [] True OPCODE_CLOSE False 0 [])"
    using facts by (simp add: has_frame_def frame) (simp add: OPCODE_CLOSE_def)
  ultimately have "\<exists>d' f d''. process_data ok_env ?d =
      Some (d', [Close_received, Written f, Close_received,
        Close_cb 2 True (ws_user_data ?d), Stream_closed], False) \<and>
    ws_flushes d' = 1 \<and>
    on_connection_flushed d' = Some (d'', [Close_cb 2 True (ws_user_data ?d), Stream_closed])"
    by (rule websocket_double_close) simp
  with b(1) facts(4) show ?thesis by (auto simp: with_more_def)
qed

text \<open>
  \<open>evd_websocket_protocol_send\<close> returns TRUE even if every write fails: the test
  \<open>! g_output_stream_write (...) < 0\<close> is never true. The error is set all the same.
\<close>

theorem websocket_send_ignores_write_errors:
  assumes "ws_open d" and "\<And>f. env_write env f = Inl e" and "frame \<noteq> []"
  shows "\<exists>d' ev. evd_websocket_protocol_send env (Some d) frame ty = (Some d', ev, True, Some e)"
  using send_data_loop_error [OF assms(2), of 0 frame None d ty] assms(1,3)
  by (auto simp: evd_websocket_protocol_send_def send_websocket_def send_data_frame_def ws_open_def)

definition broken_env :: ws_env where
  "broken_env = \<lparr>env_random = (\<lambda>n. 0), env_write = (\<lambda>f. Inl G_IO_ERROR_CLOSED)\<rparr>"

theorem websocket_send_ignores_write_errors_witness:
  "\<exists>d' ev. evd_websocket_protocol_send broken_env (Some client) [0x41] EVD_MESSAGE_TYPE_TEXT =
     (Some d', ev, True, Some G_IO_ERROR_CLOSED)"
  by (rule websocket_send_ignores_write_errors)
    (simp_all add: broken_env_def client_def setup_connection_def ws_open_def)

section \<open>The opening handshake\<close>

text \<open>
  The request that \<open>create_handshake_request\<close> builds, with any random key, sub-protocol and
  origin, is accepted by \<open>handle_handshake_request\<close>, and the response it writes is accepted by
  \<open>handle_handshake_response\<close> with that key: both ends get an opened connection, one as the
  server and one as the client.
\<close>

theorem websocket_handshake_agreement:
  assumes "hs_lib_ok lib"
    and "evd_websocket_protocol_create_handshake_request lib random h sub_protocol origin = (headers, key)"
    and "\<forall>r. write_headers r = None"
  shows "\<exists>response.
    evd_websocket_protocol_handle_handshake_request lib write_headers headers =
      (Inr (setup_connection True EVD_WEBSOCKET_STATE_OPENED), [response]) \<and>
    evd_websocket_protocol_handle_handshake_response lib SOUP_HTTP_1_1 101 response key =
      Inr (setup_connection False EVD_WEBSOCKET_STATE_OPENED)"
  using assms request_headers [OF assms(1,2)]
  by (auto simp: evd_websocket_protocol_handle_handshake_request_def Let_def hs_lib_ok_def
      evd_websocket_protocol_handle_handshake_response_def get_accept_key_def
      SOUP_STATUS_SWITCHING_PROTOCOLS_def)

text \<open>A header table as an association list, and simple stand-ins for the other functions.\<close>

definition demo_lib :: "(string \<times> string) list hs_lib" where
  "demo_lib =
     \<lparr>headers_new = [],
      headers_replace = (\<lambda>h n v. (n, v) # h),
      headers_get_one = (\<lambda>h m. map_option snd (List.find (\<lambda>e. same_header (fst e) m) h)),
      ascii_strtoull = (\<lambda>s. foldl (\<lambda>n c. 10 * n + of_nat (of_char c - 48)) 0 s),
      strstr = (\<lambda>s n. list_ex (\<lambda>i. take (length n) (drop i s) = n) [0..<Suc (length s)]),
      checksum_sha1 = (\<lambda>s. map (\<lambda>c. of_nat (of_char c)) (take 20 s)),
      base64_encode = (\<lambda>b. CHR ''='' # map (\<lambda>w. char_of (unat w)) b)\<rparr>"

lemma demo_lib_ok: "hs_lib_ok demo_lib"
  by (simp add: hs_lib_ok_def demo_lib_def list_ex_iff) force

theorem websocket_handshake_agreement_witness:
  "\<exists>response.
    evd_websocket_protocol_handle_handshake_request demo_lib (\<lambda>_. None)
      (fst (evd_websocket_protocol_create_handshake_request demo_lib (\<lambda>_. 7) [] None None)) =
      (Inr (setup_connection True EVD_WEBSOCKET_STATE_OPENED), [response]) \<and>
    evd_websocket_protocol_handle_handshake_response demo_lib SOUP_HTTP_1_1 101 response
      (snd (evd_websocket_protocol_create_handshake_request demo_lib (\<lambda>_. 7) [] None None)) =
      Inr (setup_connection False EVD_WEBSOCKET_STATE_OPENED)"
  by (rule websocket_handshake_agreement [OF demo_lib_ok, of "\<lambda>_. 7" "[]" None None]) simp_all

text \<open>
  When a handshake request is accepted: the version header must read as 13 modulo 256 (the
  number is stored in a \<open>guint8\<close>, so that 269 passes for 13), \<open>Upgrade\<close> must be
  \<open>websocket\<close>, \<open>Connection\<close> must contain \<open>Upgrade\<close>, the key must be there and the response
  must be written.
\<close>

theorem websocket_handshake_request_accepted:
  "(\<exists>d r. evd_websocket_protocol_handle_handshake_request lib write_headers h = (Inr d, r)) \<longleftrightarrow>
     (\<exists>v c key. headers_get_one lib h ''Sec-Websocket-Version'' = Some v \<and>
        unat (ascii_strtoull lib v) mod 256 = 13 \<and>
        headers_get_one lib h ''Upgrade'' = Some ''websocket'' \<and>
        headers_get_one lib h ''Connection'' = Some c \<and> strstr lib c ''Upgrade'' \<and>
        headers_get_one lib h ''Sec-WebSocket-Key'' = Some key \<and>
        write_headers (headers_replace lib (headers_replace lib (headers_replace lib (headers_new lib)
          ''Connection'' ''Upgrade'') ''Upgrade'' ''websocket'')
          ''Sec-WebSocket-Accept'' (get_accept_key lib key)) = None)"
proof -
  have v: "(ucast (x :: 64 word) :: byte) = 13 \<longleftrightarrow> unat x mod 256 = 13" for x
    by (simp add: word_unat_eq_iff unsigned_ucast_eq take_bit_eq_mod)
  show ?thesis
    by (auto simp: evd_websocket_protocol_handle_handshake_request_def Let_def
      get_version_from_request_def v split: option.splits)
qed

end
