(* ===== verification/Chunked_Decoder.thy ===== *)
theory Chunked_Decoder
  imports Evd_Prelude
begin

unbundle bit_operations_syntax

text \<open>
  The decoder of chunked transfer encoding, \<open>evd/evd-http-chunked-decoder.c\<close>, and the loop of
  \<open>evd_http_connection_process_read_content\<close> (\<open>evd/evd-http-connection.c\<close>) that drives it. A
  byte-by-byte machine is the reference: \<open>convert\<close> copies content in blocks, bounded by the
  space of the output buffer, and refines it. A write past \<open>hdr_buf\<close> is the result \<^term>\<open>None\<close>.
\<close>

section \<open>State\<close>

datatype chunked_status =
    READING_CHUNK_HEADER
  | READING_CONTENT
  | READING_CRLF_1
  | READING_CRLF_2

datatype GConverterResult =
    G_CONVERTER_ERROR
  | G_CONVERTER_CONVERTED
  | G_CONVERTER_FINISHED
  | G_CONVERTER_FLUSHED

record chunked_decoder =
  cd_chunk_left :: "64 word"
  cd_status :: chunked_status
  cd_hdr_buf :: "byte list"
  cd_hdr_buf_len :: nat
  cd_crlf_pos :: nat

definition chunked_reset :: "chunked_decoder \<Rightarrow> chunked_decoder" where
  "chunked_reset d =
     d\<lparr>cd_chunk_left := 0, cd_status := READING_CHUNK_HEADER, cd_hdr_buf_len := 0, cd_crlf_pos := 0\<rparr>"

text \<open>A new object is zeroed memory, then \<open>reset\<close>.\<close>

definition evd_http_chunked_decoder_init :: chunked_decoder where
  "evd_http_chunked_decoder_init =
     chunked_reset \<lparr>cd_chunk_left = 0, cd_status = READING_CHUNK_HEADER,
       cd_hdr_buf = replicate 10 0, cd_hdr_buf_len = 0, cd_crlf_pos = 0\<rparr>"

section \<open>The chunk size\<close>

definition hex_digit :: "byte \<Rightarrow> bool" where
  "hex_digit c \<longleftrightarrow> 48 \<le> c \<and> c \<le> 57 \<or> 97 \<le> c \<and> c \<le> 102 \<or> 65 \<le> c \<and> c \<le> 70"

definition header_char :: "byte \<Rightarrow> bool" where
  "header_char c \<longleftrightarrow> hex_digit c \<or> c = 32"

definition hex_digit_value :: "byte \<Rightarrow> nat" where
  "hex_digit_value c =
     (if c \<le> 57 then unat c - 48 else if c \<le> 70 then unat c - 55 else unat c - 87)"

definition hex_value :: "byte list \<Rightarrow> nat" where
  "hex_value h = foldl (\<lambda>n c. 16 * n + hex_digit_value c) 0 h"

text \<open>
  \<open>sscanf (hdr, "%x", (guint *) &chunk_left)\<close> on a string of hexadecimal digits and spaces: skip
  spaces, convert the digits that follow, store 32 bits over the low half of \<open>chunk_left\<close>; without
  a digit nothing is stored.
\<close>

definition sscanf_hex :: "byte list \<Rightarrow> nat option" where
  "sscanf_hex s =
     (let digits = takeWhile hex_digit (dropWhile (\<lambda>c. c = 32) s)
      in if digits = [] then None else Some (hex_value digits))"

definition store_guint :: "64 word \<Rightarrow> nat \<Rightarrow> 64 word" where
  "store_guint chunk_left v = (chunk_left AND NOT (mask 32)) OR take_bit 32 (of_nat v)"

definition parse_header :: "chunked_decoder \<Rightarrow> chunked_decoder" where
  "parse_header d =
     (let buf = (cd_hdr_buf d)[cd_hdr_buf_len d := 0];
          hdr = takeWhile (\<lambda>c. c \<noteq> 0) buf
      in d\<lparr>cd_hdr_buf := buf,
           cd_chunk_left := (case sscanf_hex hdr of None \<Rightarrow> cd_chunk_left d
                             | Some v \<Rightarrow> store_guint (cd_chunk_left d) v),
           cd_hdr_buf_len := 0,
           cd_status := READING_CRLF_1\<rparr>)"

section \<open>convert\<close>

text \<open>
  One round of the loop of \<open>convert\<close>: the new state, the bytes of input used and the bytes
  written, and whether the loop goes on (\<open>Go\<close>), is done with a result, or wrote out of bounds.
\<close>

datatype conv_step = Go | Done_error | Done_finished | Out_of_bounds

fun step_result :: "conv_step \<Rightarrow> GConverterResult option" where
  "step_result Go = Some G_CONVERTER_CONVERTED"
| "step_result Done_error = Some G_CONVERTER_ERROR"
| "step_result Done_finished = Some G_CONVERTER_FINISHED"
| "step_result Out_of_bounds = None"

definition crlf_step :: "chunked_decoder \<Rightarrow> byte \<Rightarrow> chunked_decoder \<times> nat \<times> conv_step" where
  "crlf_step d c =
     (if cd_crlf_pos d = 0
      then if c = 13 then (d\<lparr>cd_crlf_pos := Suc (cd_crlf_pos d)\<rparr>, 1, Go)
           else (d, 0, Done_error)
      else if c = 10
      then let d = d\<lparr>cd_crlf_pos := 0\<rparr> in
           if cd_status d = READING_CRLF_1
           then if cd_chunk_left d = 0 then (d, 1, Done_finished)
                else (d\<lparr>cd_status := READING_CONTENT\<rparr>, 1, Go)
           else (d\<lparr>cd_status := READING_CHUNK_HEADER\<rparr>, 1, Go)
      else (d, 0, Done_error))"

definition header_step :: "chunked_decoder \<Rightarrow> byte \<Rightarrow> chunked_decoder \<times> nat \<times> conv_step" where
  "header_step d c =
     (if header_char c
      then if cd_hdr_buf_len d < 10
           then (d\<lparr>cd_hdr_buf := (cd_hdr_buf d)[cd_hdr_buf_len d := c],
                   cd_hdr_buf_len := Suc (cd_hdr_buf_len d)\<rparr>, 1, Go)
           else (d, 0, Out_of_bounds)
      else if 0 < cd_hdr_buf_len d
      then if cd_hdr_buf_len d < 10 then (parse_header d, 0, Go) else (d, 0, Out_of_bounds)
      else (d, 0, Done_error))"

definition content_step ::
  "chunked_decoder \<Rightarrow> byte list \<Rightarrow> nat \<Rightarrow> chunked_decoder \<times> nat \<times> byte list"
where
  "content_step d inp space =
     (let move_size = min (min (unat (cd_chunk_left d)) (length inp)) space;
          d = d\<lparr>cd_chunk_left := cd_chunk_left d - of_nat move_size\<rparr>
      in (if cd_chunk_left d = 0 then d\<lparr>cd_status := READING_CRLF_2\<rparr> else d,
          move_size, take move_size inp))"

definition convert_step ::
  "chunked_decoder \<Rightarrow> byte list \<Rightarrow> nat \<Rightarrow> chunked_decoder \<times> nat \<times> byte list \<times> conv_step"
where
  "convert_step d inp space =
     (case cd_status d of
        READING_CHUNK_HEADER \<Rightarrow> (case header_step d (hd inp) of (d', n, r) \<Rightarrow> (d', n, [], r))
      | READING_CONTENT \<Rightarrow> (case content_step d inp space of (d', n, out) \<Rightarrow> (d', n, out, Go))
      | _ \<Rightarrow> (case crlf_step d (hd inp) of (d', n, r) \<Rightarrow> (d', n, [], r)))"

definition chunked_rank :: "chunked_decoder \<Rightarrow> nat" where
  "chunked_rank d =
     (case cd_status d of READING_CHUNK_HEADER \<Rightarrow> 1 | READING_CONTENT \<Rightarrow> 1 | _ \<Rightarrow> 0)"

lemma convert_step_progress:
  assumes "convert_step d inp space = (d', n, out, Go)" and "inp \<noteq> []" and "0 < space"
  shows "n \<le> length inp" "0 < n \<or> n = 0 \<and> chunked_rank d' < chunked_rank d" "length out \<le> n"
    "length out \<le> space"
  using assms
  by (auto simp: convert_step_def header_step_def content_step_def crlf_step_def parse_header_def
      chunked_rank_def unat_eq_0 Let_def min_def Suc_le_eq
      split: chunked_status.splits if_splits)

text \<open>
  The loop, on the input that is left and the space that is left: the result (\<^term>\<open>None\<close>: out of
  bounds), the state, the bytes read and the bytes written.
\<close>

function convert_loop ::
  "chunked_decoder \<Rightarrow> byte list \<Rightarrow> nat \<Rightarrow>
     GConverterResult option \<times> chunked_decoder \<times> nat \<times> byte list"
where
  "convert_loop d inp space =
     (if inp = [] \<or> space = 0 then (Some G_CONVERTER_CONVERTED, d, 0, [])
      else (case convert_step d inp space of
              (d', n, out, r) \<Rightarrow>
                if r = Go
                then (case convert_loop d' (drop n inp) (space - length out) of
                        (r', d'', m, out') \<Rightarrow> (r', d'', n + m, out @ out'))
                else (step_result r, d', n, out)))"
  by pat_completeness auto
termination
  by (relation "measures [\<lambda>(d, inp, space). length inp, \<lambda>(d, inp, space). chunked_rank d]")
    (auto dest!: convert_step_progress(2) [OF sym])

declare convert_loop.simps [simp del]

definition chunked_convert ::
  "chunked_decoder \<Rightarrow> byte list \<Rightarrow> nat \<Rightarrow> bool \<Rightarrow>
     GConverterResult option \<times> chunked_decoder \<times> nat \<times> byte list"
where
  "chunked_convert d inbuf outbuf_size flush =
     (case convert_loop d inbuf outbuf_size of
        (r, d', bytes_read, out) \<Rightarrow>
          (case r of
             None \<Rightarrow> None
           | Some res \<Rightarrow> Some (if res \<noteq> G_CONVERTER_ERROR \<and> flush then G_CONVERTER_FLUSHED else res),
           d', bytes_read, out))"

section \<open>The reference: one byte at a time\<close>

definition byte_step :: "chunked_decoder \<Rightarrow> byte \<Rightarrow> chunked_decoder \<times> nat \<times> byte list \<times> conv_step" where
  "byte_step d c =
     (case cd_status d of
        READING_CHUNK_HEADER \<Rightarrow>
          (case header_step d c of
             (d', n, r) \<Rightarrow>
               if r = Go \<and> n = 0 then (case crlf_step d' c of (d'', m, r') \<Rightarrow> (d'', m, [], r'))
               else (d', n, [], r))
      | READING_CONTENT \<Rightarrow>
          if cd_chunk_left d = 0
          then (case crlf_step (d\<lparr>cd_status := READING_CRLF_2\<rparr>) c of (d', n, r) \<Rightarrow> (d', n, [], r))
          else let d = d\<lparr>cd_chunk_left := cd_chunk_left d - 1\<rparr>
               in (if cd_chunk_left d = 0 then d\<lparr>cd_status := READING_CRLF_2\<rparr> else d, 1, [c], Go)
      | _ \<Rightarrow> (case crlf_step d c of (d', n, r) \<Rightarrow> (d', n, [], r)))"

primrec decode_bytes ::
  "chunked_decoder \<Rightarrow> byte list \<Rightarrow> GConverterResult option \<times> chunked_decoder \<times> nat \<times> byte list"
where
  "decode_bytes d [] = (Some G_CONVERTER_CONVERTED, d, 0, [])"
| "decode_bytes d (c # cs) =
     (case byte_step d c of
        (d', n, out, r) \<Rightarrow>
          if r = Go
          then (case decode_bytes d' cs of (r', d'', m, out') \<Rightarrow> (r', d'', n + m, out @ out'))
          else (step_result r, d', n, out))"

text \<open>What follows a result: nothing unless the input was used up.\<close>

definition and_then ::
  "GConverterResult option \<times> chunked_decoder \<times> nat \<times> byte list \<Rightarrow>
   (chunked_decoder \<Rightarrow> nat \<Rightarrow> GConverterResult option \<times> chunked_decoder \<times> nat \<times> byte list) \<Rightarrow>
   GConverterResult option \<times> chunked_decoder \<times> nat \<times> byte list"
where
  "and_then res k =
     (case res of
        (r, d, n, out) \<Rightarrow>
          if r = Some G_CONVERTER_CONVERTED
          then (case k d n of (r', d', m, out') \<Rightarrow> (r', d', n + m, out @ out'))
          else res)"

lemma crlf_step_go: "crlf_step d c = (d', n, Go) \<Longrightarrow> n = 1"
  by (auto simp: crlf_step_def Let_def split: if_splits)

lemma byte_step_go: "byte_step d c = (d', n, out, Go) \<Longrightarrow> n = 1"
  by (auto simp: byte_step_def header_step_def Let_def split: chunked_status.splits if_splits prod.splits
      dest: crlf_step_go)

lemma step_result_converted [simp]: "step_result r = Some G_CONVERTER_CONVERTED \<longleftrightarrow> r = Go"
  by (cases r) simp_all

lemma decode_bytes_append:
  "decode_bytes d (xs @ ys) = and_then (decode_bytes d xs) (\<lambda>d' n. decode_bytes d' ys)"
proof (induction xs arbitrary: d)
  case Nil
  show ?case by (simp add: and_then_def split: prod.splits)
next
  case (Cons x xs)
  show ?case
    by (simp add: Cons.IH and_then_def split: prod.splits)
qed

lemma decode_bytes_length:
  "decode_bytes d xs = (Some G_CONVERTER_CONVERTED, d', n, out) \<Longrightarrow> n = length xs"
proof (induction xs arbitrary: d d' n out)
  case Nil
  then show ?case by simp
next
  case (Cons x xs)
  then show ?case by (fastforce split: prod.splits if_splits dest: byte_step_go)
qed

section \<open>convert refines the reference\<close>

definition content_after :: "chunked_decoder \<Rightarrow> nat \<Rightarrow> chunked_decoder" where
  "content_after d k =
     (let d = d\<lparr>cd_chunk_left := cd_chunk_left d - of_nat k\<rparr>
      in if cd_chunk_left d = 0 then d\<lparr>cd_status := READING_CRLF_2\<rparr> else d)"

text \<open>A result with \<open>n\<close> bytes read and some bytes written before it.\<close>

definition preceded ::
  "nat \<Rightarrow> byte list \<Rightarrow> GConverterResult option \<times> chunked_decoder \<times> nat \<times> byte list \<Rightarrow>
   GConverterResult option \<times> chunked_decoder \<times> nat \<times> byte list"
where
  "preceded n out res = (case res of (r, d, m, out') \<Rightarrow> (r, d, n + m, out @ out'))"

lemma preceded_simps [simp]:
  "preceded 0 [] res = res"
  "preceded n out (preceded m out' res) = preceded (n + m) (out @ out') res"
  "preceded n out (r, d, m, out') = (r, d, n + m, out @ out')"
  by (simp_all add: preceded_def split: prod.splits)

lemma decode_bytes_content:
  assumes "cd_status d = READING_CONTENT" and "k \<le> unat (cd_chunk_left d)" and "k \<le> length inp"
    and "0 < k"
  shows "decode_bytes d inp = preceded k (take k inp) (decode_bytes (content_after d k) (drop k inp))"
  using assms
proof (induction k arbitrary: d inp)
  case 0
  then show ?case by simp
next
  case (Suc k)
  then obtain c cs where inp: "inp = c # cs" by (cases inp) auto
  have ne: "cd_chunk_left d \<noteq> 0" using Suc.prems(2) by auto
  define d1 where "d1 = content_after d 1"
  have step: "byte_step d c = (d1, 1, [c], Go)"
    using Suc.prems(1) ne by (simp add: d1_def byte_step_def content_after_def Let_def)
  show ?case
  proof (cases "k = 0")
    case True
    with step inp show ?thesis by (simp add: preceded_def d1_def)
  next
    case False
    have left: "unat (cd_chunk_left d - 1) = unat (cd_chunk_left d) - 1"
      using ne by (simp add: unat_minus_one)
    with False Suc.prems(2) have "unat (cd_chunk_left d - 1) \<noteq> 0" by simp
    then have "cd_chunk_left d - 1 \<noteq> 0" by (metis unsigned_0)
    then have d1: "d1 = d\<lparr>cd_chunk_left := cd_chunk_left d - 1\<rparr>"
      by (simp add: d1_def content_after_def Let_def)
    have "decode_bytes d1 cs = preceded k (take k cs) (decode_bytes (content_after d1 k) (drop k cs))"
      using Suc.prems left False inp by (intro Suc.IH) (simp_all add: d1)
    moreover have "content_after d1 k = content_after d (Suc k)"
      by (simp add: d1) (simp add: content_after_def Let_def algebra_simps)
    ultimately show ?thesis using step inp
      by (simp add: preceded_def split: prod.splits)
  qed
qed

lemma decode_bytes_cong:
  "byte_step d c = byte_step d' c \<Longrightarrow> decode_bytes d (c # cs) = decode_bytes d' (c # cs)"
  by simp

lemma header_step_cases:
  assumes "header_step d c = (d', n, r)"
  obtains "r = Go" "n = 1" | "r = Go" "n = 0" "cd_status d' = READING_CRLF_1" | "r \<noteq> Go"
  using assms by (auto simp: header_step_def parse_header_def Let_def split: if_splits)

lemma convert_step_decode_header:
  assumes "convert_step d (c # cs) space = (d', n, out, r)" and "cd_status d = READING_CHUNK_HEADER"
  shows "decode_bytes d (c # cs) =
    (if r = Go then preceded n out (decode_bytes d' (drop n (c # cs))) else (step_result r, d', n, out))"
proof -
  from assms have h: "header_step d c = (d', n, r)" "out = []"
    by (auto simp: convert_step_def split: prod.splits)
  from h(1) show ?thesis
  proof (cases rule: header_step_cases)
    case 1
    with h assms(2) have "byte_step d c = (d', 1, [], Go)" by (simp add: byte_step_def)
    with 1 h show ?thesis by (simp add: preceded_def)
  next
    case 2
    with h assms(2) have "byte_step d c = byte_step d' c" by (simp add: byte_step_def)
    from decode_bytes_cong [OF this] 2 h show ?thesis by simp
  next
    case 3
    with h assms(2) have "byte_step d c = (d', n, [], r)" by (simp add: byte_step_def)
    with 3 h show ?thesis by simp
  qed
qed

lemma convert_step_decode_crlf:
  assumes "convert_step d (c # cs) space = (d', n, out, r)"
    and "cd_status d = READING_CRLF_1 \<or> cd_status d = READING_CRLF_2"
  shows "decode_bytes d (c # cs) =
    (if r = Go then preceded n out (decode_bytes d' (drop n (c # cs))) else (step_result r, d', n, out))"
proof -
  from assms have h: "crlf_step d c = (d', n, r)" "out = []"
    by (auto simp: convert_step_def split: prod.splits)
  with assms(2) have "byte_step d c = (d', n, [], r)" by (auto simp: byte_step_def)
  with h crlf_step_go [of d c d' n] show ?thesis by (auto simp: preceded_def)
qed

lemma convert_step_decode:
  assumes "convert_step d inp space = (d', n, out, r)" and "inp \<noteq> []" and "0 < space"
  shows "decode_bytes d inp =
    (if r = Go then preceded n out (decode_bytes d' (drop n inp)) else (step_result r, d', n, out))"
proof -
  from assms(2) obtain c cs where inp: "inp = c # cs" by (cases inp) auto
  show ?thesis
  proof (cases "cd_status d = READING_CONTENT")
    case False
    then show ?thesis
      using convert_step_decode_header convert_step_decode_crlf assms(1) unfolding inp
      by (cases "cd_status d") blast+
  next
    case True
    let ?k = "min (min (unat (cd_chunk_left d)) (length inp)) space"
    have k: "d' = content_after d ?k" "n = ?k" "out = take ?k inp" "r = Go"
      using assms(1) True by (auto simp: convert_step_def content_step_def content_after_def Let_def)
    show ?thesis
    proof (cases "cd_chunk_left d = 0")
      case zero: True
      then have "byte_step d c = byte_step (content_after d 0) c"
        using True by (cases d) (simp add: byte_step_def content_after_def Let_def)
      with k zero inp show ?thesis by simp
    next
      case ne: False
      then have "0 < ?k" using inp assms(3) by (simp add: unat_gt_0)
      with decode_bytes_content [OF True, of ?k inp] k show ?thesis by simp
    qed
  qed
qed

lemma convert_loop_refines:
  "decode_bytes d inp =
     and_then (convert_loop d inp space) (\<lambda>d' n. decode_bytes d' (drop n inp))"
proof (induction d inp space rule: convert_loop.induct)
  case (1 d inp space)
  show ?case
  proof (cases "inp = [] \<or> space = 0")
    case True
    then show ?thesis
      by (auto simp: convert_loop.simps [of d inp space] and_then_def split: prod.splits)
  next
    case False
    obtain d' n out r where st: "convert_step d inp space = (d', n, out, r)" by (metis prod_cases4)
    note dec = convert_step_decode [OF st]
    show ?thesis
    proof (cases "r = Go")
      case r: False
      with False st dec show ?thesis
        by (simp add: convert_loop.simps [of d inp space] and_then_def)
    next
      case r: True
      have ih: "decode_bytes d' (drop n inp) =
          and_then (convert_loop d' (drop n inp) (space - length out))
            (\<lambda>d'' m. decode_bytes d'' (drop m (drop n inp)))"
        using 1 [OF False st [symmetric] refl refl] r by simp
      have "convert_loop d inp space = preceded n out (convert_loop d' (drop n inp) (space - length out))"
        using False st r by (simp add: convert_loop.simps [of d inp space] preceded_def)
      with dec False r ih show ?thesis
        by (simp add: preceded_def and_then_def add.commute split: prod.splits)
    qed
  qed
qed

lemma convert_loop_bounds:
  "convert_loop d inp space = (r, d', n, out) \<Longrightarrow> n \<le> length inp \<and> length out \<le> n \<and> length out \<le> space"
proof (induction d inp space arbitrary: r d' n out rule: convert_loop.induct)
  case (1 d inp space)
  show ?case
  proof (cases "inp = [] \<or> space = 0")
    case True
    with 1(2) show ?thesis by (auto simp: convert_loop.simps [of d inp space])
  next
    case False
    obtain c k o1 s where st: "convert_step d inp space = (c, k, o1, s)" by (metis prod_cases4)
    show ?thesis
    proof (cases "s = Go")
      case True
      obtain r2 d2 m o2 where l: "convert_loop c (drop k inp) (space - length o1) = (r2, d2, m, o2)"
        by (metis prod_cases4)
      from 1(1) [OF False st [symmetric] refl refl True l] 1(2) False st True l
        convert_step_progress [of d inp space c k o1]
      show ?thesis by (auto simp: convert_loop.simps [of d inp space])
    next
      case stop: False
      with 1(2) False st show ?thesis
        by (auto simp: convert_loop.simps [of d inp space] convert_step_def header_step_def
            crlf_step_def content_step_def Let_def Suc_le_eq
            split: chunked_status.splits if_splits)
    qed
  qed
qed

text \<open>With input and space left, \<open>convert\<close> reads something or is done.\<close>

lemma convert_loop_progress:
  assumes "convert_loop d inp space = (Some G_CONVERTER_CONVERTED, d', n, out)"
    and "inp \<noteq> []" and "0 < space"
  shows "0 < n"
proof -
  have go: "\<exists>c k o1. convert_step d inp space = (c, k, o1, Go) \<and>
      (\<exists>d2 m o2. convert_loop c (drop k inp) (space - length o1) =
         (Some G_CONVERTER_CONVERTED, d2, m, o2) \<and> n = k + m)"
    if "convert_loop d inp space = (Some G_CONVERTER_CONVERTED, d', n, out)" "inp \<noteq> []" "0 < space"
    for d inp space d' n out
    using that by (auto simp: convert_loop.simps [of d inp space] split: prod.splits if_splits)
  from go [OF assms] obtain c k o1 d2 m o2 where st: "convert_step d inp space = (c, k, o1, Go)"
    and l: "convert_loop c (drop k inp) (space - length o1) = (Some G_CONVERTER_CONVERTED, d2, m, o2)"
    and n: "n = k + m" by blast
  note prog = convert_step_progress [OF st assms(2,3)]
  show ?thesis
  proof (cases "0 < k")
    case False
    with prog assms have l': "convert_loop c inp space = (Some G_CONVERTER_CONVERTED, d2, m, o2)"
      and rank: "chunked_rank c = 0"
      using l by (auto simp: chunked_rank_def split: chunked_status.splits)
    from go [OF l' assms(2,3)] obtain c' k' o' m' where
      st': "convert_step c inp space = (c', k', o', Go)" and m: "m = k' + m'" by blast
    with rank convert_step_progress(2) [OF st' assms(2,3)] n show ?thesis by simp
  qed (use n in simp)
qed

lemma convert_loop_result: "fst (convert_loop d inp space) \<noteq> Some G_CONVERTER_FLUSHED"
proof (induction d inp space rule: convert_loop.induct)
  case (1 d inp space)
  have step: "step_result r \<noteq> Some G_CONVERTER_FLUSHED" for r by (cases r) simp_all
  obtain c k o1 s where st: "convert_step d inp space = (c, k, o1, s)" by (metis prod_cases4)
  show ?case
    using 1 [OF _ st [symmetric] refl refl] st
    by (cases "s = Go") (auto simp: convert_loop.simps [of d inp space] step split: prod.splits)
qed

text \<open>It stops short of the end of the input only when the output is full.\<close>

lemma convert_loop_full:
  "convert_loop d inp space = (Some G_CONVERTER_CONVERTED, d', n, out) \<Longrightarrow>
     n = length inp \<or> length out = space"
proof (induction d inp space arbitrary: d' n out rule: convert_loop.induct)
  case (1 d inp space)
  show ?case
  proof (cases "inp = [] \<or> space = 0")
    case True
    with 1(2) show ?thesis by (auto simp: convert_loop.simps [of d inp space])
  next
    case False
    obtain c k o1 s where st: "convert_step d inp space = (c, k, o1, s)" by (metis prod_cases4)
    with 1(2) False obtain d2 m o2 where s: "s = Go" and n: "n = k + m" "out = o1 @ o2"
      and l: "convert_loop c (drop k inp) (space - length o1) = (Some G_CONVERTER_CONVERTED, d2, m, o2)"
      by (auto simp: convert_loop.simps [of d inp space] split: prod.splits if_splits)
    from 1(1) [OF False st [symmetric] refl refl s l] n
      convert_step_progress [OF st [unfolded s]] False
    show ?thesis by auto
  qed
qed

lemma convert_loop_enough_space:
  assumes "length inp < space"
  shows "convert_loop d inp space = decode_bytes d inp"
proof -
  obtain r d' n out where l: "convert_loop d inp space = (r, d', n, out)" by (metis prod_cases4)
  from convert_loop_bounds [OF l] convert_loop_full [of d inp space d' n out] l assms
  have "r = Some G_CONVERTER_CONVERTED \<longrightarrow> n = length inp" by auto
  with convert_loop_refines [of d inp space] l show ?thesis by (auto simp: and_then_def)
qed

lemma convert_loop_unfinished:
  assumes "convert_loop d inp 1024 = (Some r, d', n, out)" and "r \<noteq> G_CONVERTER_ERROR"
    and "r \<noteq> G_CONVERTER_FINISHED" and "n < length inp"
  shows "0 < n"
proof -
  from assms(2,3) convert_loop_result [of d inp 1024] assms(1) have "r = G_CONVERTER_CONVERTED"
    by (cases r) auto
  with assms convert_loop_progress [of d inp 1024 d' n out] show ?thesis by fastforce
qed

section \<open>Reading the content of a message\<close>

text \<open>
  The branch of \<open>evd_http_connection_process_read_content\<close> for chunked content: the block is
  converted 1024 bytes of output at a time. The result is \<^term>\<open>None\<close> for a write out of bounds,
  or the decoder, the content appended, \<open>*done\<close>, whether \<open>*error\<close> was set, and the bytes used.
\<close>

function process_chunked ::
  "chunked_decoder \<Rightarrow> byte list \<Rightarrow> (chunked_decoder \<times> byte list \<times> GConverterResult \<times> nat) option"
where
  "process_chunked d block =
     (case convert_loop d block 1024 of
        (None, d', n, out) \<Rightarrow> None
      | (Some r, d', n, out) \<Rightarrow>
          if r \<noteq> G_CONVERTER_ERROR \<and> r \<noteq> G_CONVERTER_FINISHED \<and> n < length block
          then (case process_chunked d' (drop n block) of
                  None \<Rightarrow> None
                | Some (d'', out', r', m) \<Rightarrow> Some (d'', out @ out', r', n + m))
          else Some (d', out, r, n))"
  by pat_completeness auto
termination
  by (relation "measure (\<lambda>(d, block). length block)")
    (auto dest!: convert_loop_unfinished [OF sym])

declare process_chunked.simps [simp del]

definition evd_http_connection_process_read_content ::
  "chunked_decoder \<Rightarrow> byte list \<Rightarrow> (bool \<times> chunked_decoder \<times> byte list \<times> bool \<times> gio_error option) option"
where
  "evd_http_connection_process_read_content d block =
     (case process_chunked d block of
        None \<Rightarrow> None
      | Some (d', content, r, n) \<Rightarrow>
          if r = G_CONVERTER_FINISHED then Some (True, chunked_reset d', content, True, None)
          else if r = G_CONVERTER_ERROR
          then Some (True, chunked_reset d', content, True, Some G_IO_ERROR_INVALID_DATA)
          else Some (True, d', content, False, None))"

text \<open>Converting piecewise into a small buffer gives what the reference gives on the whole block.\<close>

lemma process_chunked_decode:
  "process_chunked d block =
     (case decode_bytes d block of
        (None, d', n, out) \<Rightarrow> None
      | (Some r, d', n, out) \<Rightarrow> Some (d', out, r, n))"
proof (induction d block rule: process_chunked.induct)
  case (1 d block)
  obtain r d' n out where l: "convert_loop d block 1024 = (r, d', n, out)" by (metis prod_cases4)
  note ref = convert_loop_refines [of d block 1024, unfolded l]
  show ?case
  proof (cases r)
    case None
    with l ref show ?thesis by (simp add: process_chunked.simps [of d block] and_then_def)
  next
    case (Some res)
    with convert_loop_result [of d block 1024] l have res: "res \<noteq> G_CONVERTER_FLUSHED" by simp
    show ?thesis
    proof (cases "res = G_CONVERTER_CONVERTED \<and> n < length block")
      case True
      with 1 [OF l [symmetric] Some refl refl] ref Some l show ?thesis
        by (auto simp: process_chunked.simps [of d block] and_then_def
            split: prod.splits option.splits)
    next
      case False
      with convert_loop_bounds [OF l] have "res = G_CONVERTER_CONVERTED \<longrightarrow> drop n block = []" by auto
      with False ref Some l res show ?thesis
        by (cases res) (auto simp: process_chunked.simps [of d block] and_then_def)
    qed
  qed
qed

section \<open>Decoding well-formed content\<close>

text \<open>The decoder between two chunks.\<close>

definition between_chunks :: "chunked_decoder \<Rightarrow> bool" where
  "between_chunks d \<longleftrightarrow>
     cd_status d = READING_CHUNK_HEADER \<and> cd_hdr_buf_len d = 0 \<and> cd_crlf_pos d = 0 \<and>
     cd_chunk_left d = 0 \<and> length (cd_hdr_buf d) = 10"

text \<open>
  A chunk size as the decoder accepts it: at most 9 digits and spaces, read by \<open>sscanf\<close> as a
  number of which the low 32 bits count.
\<close>

definition size_text :: "byte list \<Rightarrow> nat \<Rightarrow> bool" where
  "size_text h n \<longleftrightarrow>
     list_all header_char h \<and> 0 < length h \<and> length h \<le> 9 \<and>
     (case sscanf_hex h of None \<Rightarrow> False | Some v \<Rightarrow> v mod 2 ^ 32 = n)"

definition crlf :: "byte list" where "crlf = [13, 10]"

definition chunk_text :: "byte list \<times> byte list \<Rightarrow> byte list" where
  "chunk_text c = fst c @ crlf @ snd c @ crlf"

definition chunk_ok :: "byte list \<times> byte list \<Rightarrow> bool" where
  "chunk_ok c \<longleftrightarrow> snd c \<noteq> [] \<and> size_text (fst c) (length (snd c))"

lemma not_header_char: "\<not> header_char 13" "\<not> header_char 10" "\<not> header_char 0"
  by (simp_all add: header_char_def hex_digit_def)

lemma decode_header:
  assumes "list_all header_char h" and "cd_status d = READING_CHUNK_HEADER"
    and "length (cd_hdr_buf d) = 10" and "cd_hdr_buf_len d + length h \<le> 10"
  shows "\<exists>buf. length buf = 10 \<and>
    take (cd_hdr_buf_len d + length h) buf = take (cd_hdr_buf_len d) (cd_hdr_buf d) @ h \<and>
    decode_bytes d (h @ rest) = preceded (length h) []
      (decode_bytes (d\<lparr>cd_hdr_buf := buf, cd_hdr_buf_len := cd_hdr_buf_len d + length h\<rparr>) rest)"
  using assms
proof (induction h arbitrary: d)
  case Nil
  then show ?case by (intro exI [of _ "cd_hdr_buf d"]) simp
next
  case (Cons c h)
  let ?d = "d\<lparr>cd_hdr_buf := (cd_hdr_buf d)[cd_hdr_buf_len d := c],
    cd_hdr_buf_len := Suc (cd_hdr_buf_len d)\<rparr>"
  from Cons.prems have step: "byte_step d c = (?d, 1, [], Go)"
    by (simp add: byte_step_def header_step_def)
  from Cons.IH [of ?d] Cons.prems obtain buf where buf: "length buf = 10"
    "take (Suc (cd_hdr_buf_len d) + length h) buf =
       take (Suc (cd_hdr_buf_len d)) ((cd_hdr_buf d)[cd_hdr_buf_len d := c]) @ h"
    "decode_bytes ?d (h @ rest) = preceded (length h) []
      (decode_bytes (?d\<lparr>cd_hdr_buf := buf, cd_hdr_buf_len := Suc (cd_hdr_buf_len d) + length h\<rparr>) rest)"
    by auto
  have "take (Suc (cd_hdr_buf_len d)) ((cd_hdr_buf d)[cd_hdr_buf_len d := c]) =
      take (cd_hdr_buf_len d) (cd_hdr_buf d) @ [c]"
    using Cons.prems by (simp add: take_Suc_conv_app_nth)
  with buf step show ?case
    by (intro exI [of _ buf]) (simp add: preceded_def split: prod.splits)
qed

lemma parse_header_size:
  assumes "size_text h n" and "length buf = 10" and "take (length h) buf = h"
    and "cd_chunk_left d = 0"
  shows "\<exists>buf'. length buf' = 10 \<and>
    parse_header (d\<lparr>cd_hdr_buf := buf, cd_hdr_buf_len := length h\<rparr>) =
      d\<lparr>cd_hdr_buf := buf', cd_chunk_left := of_nat n, cd_hdr_buf_len := 0,
        cd_status := READING_CRLF_1\<rparr>"
proof -
  let ?buf = "buf[length h := 0]"
  have "?buf = h @ 0 # drop (Suc (length h)) buf"
    using assms by (simp add: upd_conv_take_nth_drop size_text_def)
  moreover have "c \<noteq> 0" if "c \<in> set h" for c
    using assms(1) that not_header_char(3) by (auto simp: size_text_def list_all_iff)
  ultimately have "takeWhile (\<lambda>c. c \<noteq> 0) ?buf = h" by (simp add: takeWhile_tail)
  moreover from assms(1) obtain v where v: "sscanf_hex h = Some v" "v mod 2 ^ 32 = n"
    by (auto simp: size_text_def split: option.splits)
  moreover have "store_guint 0 v = of_nat n"
    unfolding v(2) [symmetric] take_bit_eq_mod [symmetric] take_bit_of_nat [symmetric]
    by (simp add: store_guint_def)
  ultimately show ?thesis using assms(2,4)
    by (intro exI [of _ ?buf]) (simp add: parse_header_def Let_def)
qed

lemma decode_size:
  assumes "between_chunks d" and "size_text h n"
  shows "\<exists>buf. length buf = 10 \<and> decode_bytes d (h @ crlf @ rest) =
    (let d' = d\<lparr>cd_hdr_buf := buf, cd_chunk_left := of_nat n, cd_status := READING_CRLF_1\<rparr>
     in if n = 0 then (Some G_CONVERTER_FINISHED, d', length h + 2, [])
        else preceded (length h + 2) [] (decode_bytes (d'\<lparr>cd_status := READING_CONTENT\<rparr>) rest))"
proof -
  have h: "list_all header_char h" "0 < length h" "length h \<le> 9" "n < 2 ^ 32"
    using assms(2) by (auto simp: size_text_def split: option.splits)
  have d: "cd_status d = READING_CHUNK_HEADER" "length (cd_hdr_buf d) = 10" "cd_hdr_buf_len d = 0"
    "cd_crlf_pos d = 0" "cd_chunk_left d = 0"
    using assms(1) by (simp_all add: between_chunks_def)
  from decode_header [OF h(1) d(1,2), of "crlf @ rest"] h(3) d(3) obtain buf where
    buf: "length buf = 10" "take (length h) buf = h"
      "decode_bytes d (h @ crlf @ rest) = preceded (length h) []
        (decode_bytes (d\<lparr>cd_hdr_buf := buf, cd_hdr_buf_len := length h\<rparr>) (crlf @ rest))"
    by auto
  let ?d1 = "d\<lparr>cd_hdr_buf := buf, cd_hdr_buf_len := length h\<rparr>"
  from parse_header_size [OF assms(2) buf(1,2) d(5)] obtain buf' where buf': "length buf' = 10"
    "parse_header ?d1 = d\<lparr>cd_hdr_buf := buf', cd_chunk_left := of_nat n, cd_hdr_buf_len := 0,
        cd_status := READING_CRLF_1\<rparr>" by auto
  let ?d2 = "d\<lparr>cd_hdr_buf := buf', cd_chunk_left := of_nat n, cd_status := READING_CRLF_1\<rparr>"
  have cr: "byte_step ?d1 13 = (?d2\<lparr>cd_crlf_pos := 1\<rparr>, 1, [], Go)"
    using d h buf' not_header_char(1)
    by (cases d) (simp add: byte_step_def header_step_def crlf_step_def)
  have z: "(of_nat n :: 64 word) = 0 \<longleftrightarrow> n = 0"
    using h(4) by (simp add: word_unat_eq_iff unat_of_nat)
  have lf: "byte_step (?d2\<lparr>cd_crlf_pos := 1\<rparr>) 10 =
      (if n = 0 then (?d2, 1, [], Done_finished) else (?d2\<lparr>cd_status := READING_CONTENT\<rparr>, 1, [], Go))"
    using d z by (cases d) (simp add: byte_step_def crlf_step_def Let_def)
  have "decode_bytes ?d1 (crlf @ rest) =
      (if n = 0 then (Some G_CONVERTER_FINISHED, ?d2, 2, [])
       else preceded 2 [] (decode_bytes (?d2\<lparr>cd_status := READING_CONTENT\<rparr>) rest))"
    using cr lf by (simp add: crlf_def preceded_def split: prod.splits)
  with buf(3) buf'(1) show ?thesis by (intro exI [of _ buf']) (simp add: Let_def)
qed

lemma decode_chunk:
  assumes "between_chunks d" and "chunk_ok c"
  shows "\<exists>d'. between_chunks d' \<and> decode_bytes d (chunk_text c @ rest) =
    preceded (length (chunk_text c)) (snd c) (decode_bytes d' rest)"
proof -
  let ?n = "length (snd c)"
  have size: "size_text (fst c) ?n" and ne: "snd c \<noteq> []" "0 < ?n" and n: "?n < 2 ^ 32"
    using assms(2) by (auto simp: chunk_ok_def size_text_def split: option.splits)
  from decode_size [OF assms(1) size, of "snd c @ crlf @ rest"] ne obtain buf where
    buf: "length buf = 10" "decode_bytes d (fst c @ crlf @ snd c @ crlf @ rest) =
      preceded (length (fst c) + 2) [] (decode_bytes (d\<lparr>cd_hdr_buf := buf,
        cd_chunk_left := of_nat ?n, cd_status := READING_CONTENT\<rparr>) (snd c @ crlf @ rest))"
    by auto
  let ?d1 = "d\<lparr>cd_hdr_buf := buf, cd_chunk_left := of_nat ?n, cd_status := READING_CONTENT\<rparr>"
  have "unat (of_nat ?n :: 64 word) = ?n" using n by (simp add: unat_of_nat)
  with decode_bytes_content [of ?d1 ?n "snd c @ crlf @ rest"] ne
  have content: "decode_bytes ?d1 (snd c @ crlf @ rest) =
      preceded ?n (snd c) (decode_bytes (content_after ?d1 ?n) (crlf @ rest))" by simp
  let ?d2 = "d\<lparr>cd_hdr_buf := buf, cd_chunk_left := 0, cd_status := READING_CRLF_2\<rparr>"
  have after: "content_after ?d1 ?n = ?d2" by (simp add: content_after_def)
  have "decode_bytes ?d2 (crlf @ rest) =
      preceded 2 [] (decode_bytes (?d2\<lparr>cd_status := READING_CHUNK_HEADER\<rparr>) rest)"
    using assms(1) by (cases d) (simp add: crlf_def byte_step_def crlf_step_def Let_def
        between_chunks_def preceded_def split: prod.splits)
  with buf content after have "decode_bytes d (chunk_text c @ rest) =
      preceded (length (chunk_text c)) (snd c)
        (decode_bytes (?d2\<lparr>cd_status := READING_CHUNK_HEADER\<rparr>) rest)"
    by (simp add: chunk_text_def crlf_def)
  moreover have "between_chunks (?d2\<lparr>cd_status := READING_CHUNK_HEADER\<rparr>)"
    using assms(1) buf(1) by (simp add: between_chunks_def)
  ultimately show ?thesis by blast
qed

lemma decode_chunks:
  assumes "between_chunks d" and "list_all chunk_ok cs" and "size_text h 0"
  shows "\<exists>d'. decode_bytes d (concat (map chunk_text cs) @ h @ crlf @ rest) =
    (Some G_CONVERTER_FINISHED, d', length (concat (map chunk_text cs)) + length h + 2,
     concat (map snd cs))"
  using assms
proof (induction cs arbitrary: d)
  case Nil
  with decode_size [of d h 0 rest] show ?case by (auto simp: Let_def)
next
  case (Cons c cs)
  from Cons.prems decode_chunk [of d c "concat (map chunk_text cs) @ h @ crlf @ rest"] obtain d' where
    "between_chunks d'" "decode_bytes d (chunk_text c @ concat (map chunk_text cs) @ h @ crlf @ rest) =
      preceded (length (chunk_text c)) (snd c)
        (decode_bytes d' (concat (map chunk_text cs) @ h @ crlf @ rest))" by auto
  with Cons show ?case by fastforce
qed

section \<open>A stream of blocks\<close>

text \<open>
  \<open>convert\<close> on the blocks of a stream, with room for all of their content: a decoder in the sense
  of the prelude.
\<close>

definition chunked_feed :: "chunked_decoder \<Rightarrow> byte list \<Rightarrow> chunked_decoder option \<times> byte list" where
  "chunked_feed d bytes =
     (case chunked_convert d bytes (Suc (length bytes)) False of
        (r, d', n, out) \<Rightarrow> (if r = Some G_CONVERTER_CONVERTED then Some d' else None, out))"

lemma chunked_feed_decode:
  "chunked_feed d bytes =
     (case decode_bytes d bytes of
        (r, d', n, out) \<Rightarrow> (if r = Some G_CONVERTER_CONVERTED then Some d' else None, out))"
  by (auto simp: chunked_feed_def chunked_convert_def convert_loop_enough_space
      split: prod.splits option.splits)

interpretation chunked: stream_decoder chunked_feed "\<lambda>d. True"
  by unfold_locales
    (auto simp: chunked_feed_decode decode_bytes_append and_then_def split: prod.splits)

text \<open>
  The blocks of a message body given to \<open>evd_http_connection_process_read_content\<close> as they
  arrive, until it says that the body is done: the content, whether it is done, and the error.
\<close>

primrec read_content ::
  "chunked_decoder \<Rightarrow> byte list list \<Rightarrow> (byte list \<times> bool \<times> gio_error option) option"
where
  "read_content d [] = Some ([], False, None)"
| "read_content d (b # bs) =
     (case evd_http_connection_process_read_content d b of
        None \<Rightarrow> None
      | Some (result, d', content, is_done, err) \<Rightarrow>
          if is_done then Some (content, True, err)
          else map_option (\<lambda>(content', r). (content @ content', r)) (read_content d' bs))"

definition content_result ::
  "GConverterResult option \<times> chunked_decoder \<times> nat \<times> byte list \<Rightarrow>
     (byte list \<times> bool \<times> gio_error option) option"
where
  "content_result res =
     (case res of
        (r, d, n, out) \<Rightarrow>
          map_option (\<lambda>r. (out, r \<noteq> G_CONVERTER_CONVERTED,
            if r = G_CONVERTER_ERROR then Some G_IO_ERROR_INVALID_DATA else None)) r)"

lemma decode_bytes_result: "fst (decode_bytes d inp) \<noteq> Some G_CONVERTER_FLUSHED"
  using convert_loop_result [of d inp "Suc (length inp)"] by (simp add: convert_loop_enough_space)

lemma read_content_decode: "read_content d bs = content_result (decode_bytes d (concat bs))"
proof (induction bs arbitrary: d)
  case Nil
  show ?case by (simp add: content_result_def)
next
  case (Cons b bs)
  obtain r d' n out where dec: "decode_bytes d b = (r, d', n, out)" by (metis prod_cases4)
  show ?case
  proof (cases r)
    case None
    with dec show ?thesis
      by (simp add: evd_http_connection_process_read_content_def process_chunked_decode
          decode_bytes_append and_then_def content_result_def)
  next
    case (Some res)
    with decode_bytes_result [of d b] dec have "res \<noteq> G_CONVERTER_FLUSHED" by simp
    with Some dec Cons show ?thesis
      by (cases res) (auto simp: evd_http_connection_process_read_content_def process_chunked_decode
          decode_bytes_append and_then_def content_result_def option.map_comp comp_def
          split: prod.splits option.splits)
  qed
qed

lemma between_chunks_init: "between_chunks evd_http_chunked_decoder_init"
  by (simp add: between_chunks_def evd_http_chunked_decoder_init_def chunked_reset_def)

lemmas size_text_defs = size_text_def sscanf_hex_def header_char_def hex_digit_def hex_value_def
  hex_digit_value_def

section \<open>Properties\<close>

text \<open>
  C31. A message body in chunked encoding without chunk extensions, with every chunk size spelled by at most 9 hexadecimal
  digits and spaces, is decoded to the concatenation of its chunks, however it is cut into blocks;
  the decoder is done after the line of the last chunk and reports no error. The bytes after that
  line are not looked at. (A chunk extension is refused, lemma \<open>chunked_extension_error\<close>.)
\<close>

theorem chunked_content_decoded:
  assumes "list_all chunk_ok cs" and "size_text h 0"
    and "concat blocks = concat (map chunk_text cs) @ h @ crlf @ rest"
  shows "read_content evd_http_chunked_decoder_init blocks = Some (concat (map snd cs), True, None)"
  using decode_chunks [OF between_chunks_init assms(1,2), of rest] assms(3)
  by (auto simp: read_content_decode content_result_def)

theorem chunked_content_decoded_witness:
  "read_content evd_http_chunked_decoder_init
     [[0x33, 13], [10, 0x61, 0x62], [0x63, 13, 10, 0x30, 0x31, 13, 10], [0x64, 13, 10, 0x30, 13, 10, 13, 10]] =
   Some ([0x61, 0x62, 0x63, 0x64], True, None)"
proof -
  let ?cs = "[([0x33], [0x61, 0x62, 0x63]), ([0x30, 0x31], [0x64])] :: (byte list \<times> byte list) list"
  have "list_all chunk_ok ?cs" "size_text [0x30] 0"
    by (simp_all add: chunk_ok_def size_text_defs)
  from chunked_content_decoded [OF this, of "[[0x33, 13], [10, 0x61, 0x62],
      [0x63, 13, 10, 0x30, 0x31, 13, 10], [0x64, 13, 10, 0x30, 13, 10, 13, 10]]" "[13, 10]"]
  show ?thesis by (simp add: chunk_text_def crlf_def)
qed

text \<open>
  \<open>convert\<close>, which copies the content in blocks bounded by its output buffer, refines the
  decoder that reads one byte at a time: whatever the size of the output buffer, going on from
  where it stopped gives the same result, state, count of bytes read and output.
\<close>

theorem chunked_convert_refines:
  "decode_bytes d inp =
     and_then (chunked_convert d inp outbuf_size False) (\<lambda>d' n. decode_bytes d' (drop n inp))"
  using convert_loop_refines [of d inp outbuf_size]
  by (auto simp: chunked_convert_def split: prod.splits option.splits)

text \<open>
  What the decoder makes of any byte stream does not depend on how it is cut into blocks.
\<close>

theorem chunked_blocks_irrelevant:
  assumes "concat bs = concat bs'"
  shows "feed_chunks chunked_feed d bs = feed_chunks chunked_feed d bs'"
  using chunked.feed_chunks_same_stream [OF TrueI assms] .

theorem chunked_blocks_irrelevant_witness:
  "feed_chunks chunked_feed evd_http_chunked_decoder_init [[0x31, 13, 10], [0x61, 13]] =
   feed_chunks chunked_feed evd_http_chunked_decoder_init [[0x31], [13, 10, 0x61, 13]]"
  by (rule chunked_blocks_irrelevant) simp

text \<open>
  Ten digits or spaces in front of a chunk, followed by any byte at all, make the decoder
  write past the end of \<open>hdr_buf\<close>.
\<close>

theorem chunked_header_overflow:
  assumes "list_all header_char h" and "length h = 10"
  shows "read_content evd_http_chunked_decoder_init [h @ c # rest] = None"
proof -
  let ?d = evd_http_chunked_decoder_init
  from decode_header [OF assms(1), of ?d "c # rest"] assms(2) between_chunks_init obtain buf where
    "decode_bytes ?d (h @ c # rest) = preceded 10 []
      (decode_bytes (?d\<lparr>cd_hdr_buf := buf, cd_hdr_buf_len := 10\<rparr>) (c # rest))"
    by (auto simp: between_chunks_def)
  moreover have "cd_status ?d = READING_CHUNK_HEADER"
    using between_chunks_init by (simp add: between_chunks_def)
  ultimately show ?thesis
    by (simp add: read_content_decode content_result_def byte_step_def header_step_def)
qed

theorem chunked_header_overflow_witness:
  "read_content evd_http_chunked_decoder_init
     [[0x30, 0x30, 0x30, 0x30, 0x30, 0x30, 0x30, 0x30, 0x30, 0x35] @ 13 # [10]] = None"
  by (rule chunked_header_overflow) (simp_all add: header_char_def hex_digit_def)

text \<open>
  A chunk size followed by anything but a carriage return, for instance a chunk extension, is
  an error; the content is done and the error set, but
  \<open>evd_http_connection_process_read_content\<close> still returns TRUE (the inner \<open>result\<close> hides the
  one it returns).
\<close>

theorem chunked_extension_error:
  assumes "size_text h n" and "\<not> header_char c" and "c \<noteq> 13"
  shows "\<exists>d'. evd_http_connection_process_read_content evd_http_chunked_decoder_init (h @ c # rest) =
    Some (True, d', [], True, Some G_IO_ERROR_INVALID_DATA)"
proof -
  let ?d = evd_http_chunked_decoder_init
  have h: "list_all header_char h" "0 < length h" "length h \<le> 9"
    using assms(1) by (simp_all add: size_text_def)
  have d: "cd_status ?d = READING_CHUNK_HEADER" "cd_hdr_buf_len ?d = 0" "cd_crlf_pos ?d = 0"
      "length (cd_hdr_buf ?d) = 10"
    using between_chunks_init by (simp_all add: between_chunks_def)
  from decode_header [OF h(1) d(1,4), of "c # rest"] h(3) d(2) obtain buf where
    "decode_bytes ?d (h @ c # rest) = preceded (length h) []
      (decode_bytes (?d\<lparr>cd_hdr_buf := buf, cd_hdr_buf_len := length h\<rparr>) (c # rest))" by auto
  moreover have "byte_step (?d\<lparr>cd_hdr_buf := buf, cd_hdr_buf_len := length h\<rparr>) c =
      (parse_header (?d\<lparr>cd_hdr_buf := buf, cd_hdr_buf_len := length h\<rparr>), 0, [], Done_error)"
    using assms h d by (simp add: byte_step_def header_step_def parse_header_def crlf_step_def Let_def)
  ultimately show ?thesis
    by (simp add: evd_http_connection_process_read_content_def process_chunked_decode)
qed

theorem chunked_extension_error_witness:
  "\<exists>d'. evd_http_connection_process_read_content evd_http_chunked_decoder_init
      ([0x35] @ 0x3B # [0x61, 13, 10]) = Some (True, d', [], True, Some G_IO_ERROR_INVALID_DATA)"
proof (rule chunked_extension_error)
  show "size_text [0x35] 5" by (simp add: size_text_defs)
qed (simp_all add: header_char_def hex_digit_def)

end
