(* ===== verification/Stream_Throttle.thy ===== *)
theory Stream_Throttle
  imports Evd_Prelude
begin

text \<open>
  Bandwidth and latency limits: \<open>evd/evd-stream-throttle.c\<close> and the filter streams that apply
  them, \<open>evd/evd-throttled-input-stream.c\<close> and \<open>evd/evd-throttled-output-stream.c\<close>. \<open>gsize\<close>,
  \<open>gulong\<close> and \<open>guint64\<close> are 64-bit words, \<open>guint\<close> is a 32-bit word. The clock is an argument:
  \<open>now i\<close> is the time the \<open>i\<close>-th call of \<open>g_get_current_time\<close> gives, and the number of calls made
  is part of the state, because \<open>MIN\<close> is a macro that evaluates its arguments more than once.
\<close>

section \<open>The throttle\<close>

record GTimeVal =
  tv_sec :: int
  tv_usec :: int

record stream_throttle =
  st_bandwidth :: "64 word"
  st_latency :: "64 word"
  st_current_time :: GTimeVal
  st_bytes :: "64 word"
  st_actual_bandwidth :: "64 word"
  st_total :: "64 word"
  st_last :: GTimeVal

definition evd_stream_throttle_init :: stream_throttle where
  "evd_stream_throttle_init =
     \<lparr>st_bandwidth = 0, st_latency = 0, st_current_time = \<lparr>tv_sec = 0, tv_usec = 0\<rparr>,
      st_bytes = 0, st_actual_bandwidth = 0, st_total = 0, st_last = \<lparr>tv_sec = 0, tv_usec = 0\<rparr>\<rparr>"

definition evd_stream_throttle_update_current_time :: "GTimeVal \<Rightarrow> stream_throttle \<Rightarrow> stream_throttle" where
  "evd_stream_throttle_update_current_time time_val t =
     (let t = (if tv_sec time_val \<noteq> tv_sec (st_current_time t)
               then t\<lparr>st_actual_bandwidth := st_bytes t, st_bytes := 0\<rparr> else t)
      in t\<lparr>st_current_time := time_val\<rparr>)"

definition g_timeval_get_diff_micro :: "GTimeVal \<Rightarrow> GTimeVal \<Rightarrow> 64 word" where
  "g_timeval_get_diff_micro time1 time2 =
     of_int (\<bar>tv_sec time2 - tv_sec time1\<bar> * 1000000) + of_int \<bar>tv_usec time2 - tv_usec time1\<bar>"

text \<open>
  \<open>wait\<close> is \<^term>\<open>None\<close> for a NULL pointer. The first test of the code, \<open>*wait < 0\<close> on an unsigned
  number, is never true. \<open>MAX ((gssize) x, 0)\<close> compares signed numbers.
\<close>

definition latency_wait :: "64 word \<Rightarrow> 64 word \<Rightarrow> 32 word \<Rightarrow> 32 word" where
  "latency_wait latency elapsed wait =
     (let w = (latency - elapsed) div 1000 + 2
      in if w > ucast wait then ucast w else wait)"

definition bandwidth_wait :: "GTimeVal \<Rightarrow> 32 word \<Rightarrow> 32 word" where
  "bandwidth_wait time wait =
     (let w = of_int ((1000001 - tv_usec time) div 1000) + 1 in if w > wait then w else wait)"

definition signed_max_0 :: "64 word \<Rightarrow> 64 word" where
  "signed_max_0 x = (if 0 < sint x then x else 0)"

definition evd_stream_throttle_request_internal ::
  "stream_throttle \<Rightarrow> 64 word \<Rightarrow> 64 word \<Rightarrow> 64 word \<Rightarrow> GTimeVal \<Rightarrow> 64 word \<Rightarrow> 32 word option \<Rightarrow>
     64 word \<times> 32 word option"
where
  "evd_stream_throttle_request_internal t bandwidth latency bytes last_time size' wait =
     (let elapsed = g_timeval_get_diff_micro (st_current_time t) last_time;
          late = (latency > 0 \<and> elapsed < latency);
          actual_size = (if late then 0 else size');
          wait = (if late then map_option (latency_wait latency elapsed) wait else wait)
      in if bandwidth > 0 \<and> actual_size > 0
         then let actual_size = min (signed_max_0 (bandwidth - bytes)) size'
              in (actual_size,
                  if actual_size < size'
                  then map_option (bandwidth_wait (st_current_time t)) wait else wait)
         else (actual_size, wait))"

definition evd_stream_throttle_request ::
  "GTimeVal \<Rightarrow> stream_throttle \<Rightarrow> 64 word \<Rightarrow> 32 word option \<Rightarrow>
     stream_throttle \<times> 64 word \<times> 32 word option"
where
  "evd_stream_throttle_request time t size' wait =
     (let t = evd_stream_throttle_update_current_time time t
      in (t, evd_stream_throttle_request_internal t (st_bandwidth t) (st_latency t) (st_bytes t)
               (st_last t) size' wait))"

definition evd_stream_throttle_report :: "GTimeVal \<Rightarrow> stream_throttle \<Rightarrow> 64 word \<Rightarrow> stream_throttle" where
  "evd_stream_throttle_report time t size' =
     (let t = evd_stream_throttle_update_current_time time t
      in t\<lparr>st_bytes := st_bytes t + size', st_total := st_total t + size',
           st_last := st_current_time t\<rparr>)"

definition evd_stream_throttle_get_total :: "stream_throttle \<Rightarrow> 64 word" where
  "evd_stream_throttle_get_total t = st_total t"

section \<open>Throttled streams\<close>

text \<open>
  The throttles are objects, shared between streams: the state maps their addresses to them and to
  their reference counts. A stream has the list of its throttles. \<open>tw_log\<close> is the traffic: for
  every transfer and every throttle of its stream, the second in which it was reported, the
  throttle and the number of bytes.
\<close>

record throttle_world =
  tw_throttle :: "nat \<Rightarrow> stream_throttle"
  tw_refs :: "nat \<Rightarrow> int"
  tw_tick :: nat
  tw_log :: "(int \<times> nat \<times> nat) list"

definition throttle_request ::
  "(nat \<Rightarrow> GTimeVal) \<Rightarrow> throttle_world \<Rightarrow> nat \<Rightarrow> 64 word \<Rightarrow> 32 word option \<Rightarrow>
     throttle_world \<times> 64 word \<times> 32 word option"
where
  "throttle_request now w a size' wait =
     (case evd_stream_throttle_request (now (tw_tick w)) (tw_throttle w a) size' wait of
        (t, r, wait') \<Rightarrow>
          (w\<lparr>tw_throttle := (tw_throttle w)(a := t), tw_tick := Suc (tw_tick w)\<rparr>, r, wait'))"

definition throttle_report :: "(nat \<Rightarrow> GTimeVal) \<Rightarrow> 64 word \<Rightarrow> nat \<Rightarrow> throttle_world \<Rightarrow> throttle_world" where
  "throttle_report now size' a w =
     w\<lparr>tw_throttle := (tw_throttle w)
         (a := evd_stream_throttle_report (now (tw_tick w)) (tw_throttle w a) size'),
       tw_tick := Suc (tw_tick w),
       tw_log := tw_log w @ [(tv_sec (now (tw_tick w)), a, unat size')]\<rparr>"

text \<open>
  \<open>MIN (size, evd_stream_throttle_request (...))\<close> calls the function once for the comparison and,
  unless \<open>size\<close> is smaller, again for the value.
\<close>

definition min_request ::
  "(nat \<Rightarrow> GTimeVal) \<Rightarrow> throttle_world \<Rightarrow> nat \<Rightarrow> 64 word \<Rightarrow> 32 word option \<Rightarrow>
     throttle_world \<times> 64 word \<times> 32 word option"
where
  "min_request now w a size' wait =
     (case throttle_request now w a size' wait of
        (w', r, wait') \<Rightarrow>
          if size' < r then (w', size', wait') else throttle_request now w' a size' wait')"

primrec get_max_priv ::
  "(nat \<Rightarrow> GTimeVal) \<Rightarrow> throttle_world \<Rightarrow> nat list \<Rightarrow> 64 word \<Rightarrow> 32 word option \<Rightarrow>
     throttle_world \<times> 64 word \<times> 32 word option"
where
  "get_max_priv now w [] size' wait = (w, size', wait)"
| "get_max_priv now w (a # as) size' wait =
     (case min_request now w a size' wait of
        (w', size'', wait') \<Rightarrow> get_max_priv now w' as size'' wait')"

text \<open>The base stream: for a number of bytes asked, an error or the number transferred.\<close>

datatype throttled_result =
    Transferred "64 word"
  | Failed gio_error

definition evd_throttled_input_stream_read ::
  "(nat \<Rightarrow> GTimeVal) \<Rightarrow> (64 word \<Rightarrow> gio_error + 64 word) \<Rightarrow> throttle_world \<Rightarrow> nat list \<Rightarrow> 64 word \<Rightarrow>
     throttle_world \<times> throttled_result \<times> 32 word list"
where
  "evd_throttled_input_stream_read now base w as size' =
     (if size' = 0 then (w, Transferred 0, [])
      else
        case get_max_priv now w as size' (Some 0) of
          (w, r, wait) \<Rightarrow>
            (case (if size' < r then (w, size', wait) else get_max_priv now w as size' wait) of
               (w, limited_size, wait) \<Rightarrow>
                 let (w, result) =
                   (if limited_size > 0
                    then (case base limited_size of
                            Inl e \<Rightarrow> (w, Failed e)
                          | Inr n \<Rightarrow> (if n > 0 then fold (throttle_report now n) as w else w, Transferred n))
                    else (w, Failed G_IO_ERROR_WOULD_BLOCK))
                 in (w, result, if the wait > 0 then [the wait] else [])))"

definition evd_throttled_output_stream_get_max_writable_priv ::
  "(nat \<Rightarrow> GTimeVal) \<Rightarrow> throttle_world \<Rightarrow> nat list \<Rightarrow> 64 word \<Rightarrow>
     throttle_world \<times> 64 word \<times> 32 word list"
where
  "evd_throttled_output_stream_get_max_writable_priv now w as size' =
     (case get_max_priv now w as size' (Some 0) of
        (w, r, wait) \<Rightarrow> (w, r, if the wait > 0 then [the wait] else []))"

definition evd_throttled_output_stream_write ::
  "(nat \<Rightarrow> GTimeVal) \<Rightarrow> (64 word \<Rightarrow> gio_error + 64 word) \<Rightarrow> throttle_world \<Rightarrow> nat list \<Rightarrow> 64 word \<Rightarrow>
     throttle_world \<times> throttled_result \<times> 32 word list"
where
  "evd_throttled_output_stream_write now base w as size' =
     (if size' = 0 then (w, Transferred 0, [])
      else
        case evd_throttled_output_stream_get_max_writable_priv now w as size' of
          (w, r, signals) \<Rightarrow>
            (case (if size' < r then (w, size', [])
                   else evd_throttled_output_stream_get_max_writable_priv now w as size') of
               (w, limited_size, signals') \<Rightarrow>
                 let (w, result) =
                   (if limited_size > 0
                    then (case base limited_size of
                            Inl e \<Rightarrow> (w, Failed e)
                          | Inr n \<Rightarrow> (if n > 0 then fold (throttle_report now n) as w else w, Transferred n))
                    else (w, Failed G_IO_ERROR_WOULD_BLOCK))
                 in (w, result, signals @ signals')))"

definition G_MAXSSIZE :: "64 word" where "G_MAXSSIZE = 0x7FFFFFFFFFFFFFFF"

definition evd_throttled_input_stream_get_max_readable ::
  "(nat \<Rightarrow> GTimeVal) \<Rightarrow> throttle_world \<Rightarrow> nat list \<Rightarrow> 32 word option \<Rightarrow>
     throttle_world \<times> 64 word \<times> 32 word option"
where
  "evd_throttled_input_stream_get_max_readable now w as retry_wait =
     get_max_priv now w as G_MAXSSIZE retry_wait"

definition evd_throttled_output_stream_get_max_writable ::
  "(nat \<Rightarrow> GTimeVal) \<Rightarrow> throttle_world \<Rightarrow> nat list \<Rightarrow> throttle_world \<times> 64 word \<times> 32 word list"
where
  "evd_throttled_output_stream_get_max_writable now w as =
     evd_throttled_output_stream_get_max_writable_priv now w as G_MAXSSIZE"

definition evd_throttled_input_stream_add_throttle ::
  "throttle_world \<Rightarrow> nat list \<Rightarrow> nat \<Rightarrow> throttle_world \<times> nat list"
where
  "evd_throttled_input_stream_add_throttle w as a =
     (if a \<in> set as then (w, as)
      else (w\<lparr>tw_refs := (tw_refs w)(a := tw_refs w a + 1)\<rparr>, a # as))"

definition evd_throttled_input_stream_remove_throttle ::
  "throttle_world \<Rightarrow> nat list \<Rightarrow> nat \<Rightarrow> throttle_world \<times> nat list"
where
  "evd_throttled_input_stream_remove_throttle w as a =
     (if a \<in> set as
      then (w\<lparr>tw_refs := (tw_refs w)(a := tw_refs w a - 1)\<rparr>, remove1 a as)
      else (w, as))"

definition evd_throttled_output_stream_add_throttle ::
  "throttle_world \<Rightarrow> nat list \<Rightarrow> nat \<Rightarrow> throttle_world \<times> nat list"
where
  "evd_throttled_output_stream_add_throttle w as a =
     (if a \<in> set as then (w, as)
      else (w\<lparr>tw_refs := (tw_refs w)(a := tw_refs w a + 1)\<rparr>, a # as))"

definition evd_throttled_output_stream_remove_throttle ::
  "throttle_world \<Rightarrow> nat list \<Rightarrow> nat \<Rightarrow> throttle_world \<times> nat list"
where
  "evd_throttled_output_stream_remove_throttle w as a =
     (if a \<in> set as
      then (w\<lparr>tw_refs := (tw_refs w)(a := tw_refs w a - 1)\<rparr>, remove1 a as)
      else (w, as))"

definition unref_throttle :: "nat \<Rightarrow> throttle_world \<Rightarrow> throttle_world" where
  "unref_throttle a w = w\<lparr>tw_refs := (tw_refs w)(a := tw_refs w a - 1)\<rparr>"

definition evd_throttled_input_stream_dispose ::
  "throttle_world \<Rightarrow> nat list \<Rightarrow> throttle_world \<times> nat list"
where
  "evd_throttled_input_stream_dispose w as = (fold unref_throttle as w, as)"

definition evd_throttled_output_stream_dispose ::
  "throttle_world \<Rightarrow> nat list \<Rightarrow> throttle_world \<times> nat list"
where
  "evd_throttled_output_stream_dispose w as = (fold unref_throttle as w, [])"

section \<open>The bandwidth limit\<close>

text \<open>Within the limit: the bytes of the current second and of the last full one.\<close>

definition within_limit :: "stream_throttle \<Rightarrow> bool" where
  "within_limit t \<longleftrightarrow>
     (st_bandwidth t > 0 \<longrightarrow> st_bytes t \<le> st_bandwidth t \<and> st_actual_bandwidth t \<le> st_bandwidth t)"

text \<open>The throttle has room for \<open>n\<close> more bytes.\<close>

definition has_room :: "stream_throttle \<Rightarrow> 64 word \<Rightarrow> bool" where
  "has_room t n \<longleftrightarrow> (st_bandwidth t > 0 \<longrightarrow> unat (st_bytes t) + unat n \<le> unat (st_bandwidth t))"

lemma has_room_less: "has_room t n \<Longrightarrow> m \<le> n \<Longrightarrow> has_room t m"
  by (auto simp: has_room_def word_le_nat_alt)

lemma update_current_time_limit:
  assumes "within_limit t"
  shows "within_limit (evd_stream_throttle_update_current_time time t)"
  using assms
  by (auto simp: within_limit_def evd_stream_throttle_update_current_time_def Let_def)

lemma update_current_time_bandwidth [simp]:
  "st_bandwidth (evd_stream_throttle_update_current_time time t) = st_bandwidth t"
  by (simp add: evd_stream_throttle_update_current_time_def Let_def)

lemma update_current_time_room:
  assumes "has_room t n" and "within_limit t" and "n \<le> st_bandwidth t \<or> st_bandwidth t = 0"
  shows "has_room (evd_stream_throttle_update_current_time time t) n"
  using assms
  by (auto simp: has_room_def within_limit_def evd_stream_throttle_update_current_time_def Let_def
      word_le_nat_alt)

lemma signed_max_0_le: "signed_max_0 x \<le> x"
  by (simp add: signed_max_0_def)

lemma request_internal_size:
  "fst (evd_stream_throttle_request_internal t bandwidth latency bytes last_time size' wait) \<le> size'"
  by (auto simp: evd_stream_throttle_request_internal_def Let_def min_le_iff_disj)

lemma request_internal_room:
  assumes "bandwidth > 0" and "bytes \<le> bandwidth"
  shows "unat bytes + unat (fst (evd_stream_throttle_request_internal t bandwidth latency bytes
    last_time size' wait)) \<le> unat bandwidth"
proof -
  have "fst (evd_stream_throttle_request_internal t bandwidth latency bytes last_time size' wait)
      \<le> bandwidth - bytes"
    using assms signed_max_0_le [of "bandwidth - bytes"]
    by (auto simp: evd_stream_throttle_request_internal_def Let_def min_le_iff_disj word_gt_0
        intro: order_trans)
  then have "unat (fst (evd_stream_throttle_request_internal t bandwidth latency bytes last_time size' wait))
      \<le> unat bandwidth - unat bytes"
    using assms(2) by (simp add: word_le_nat_alt unat_sub)
  with assms(2) show ?thesis by (simp add: word_le_nat_alt)
qed

lemma request_grants:
  assumes "within_limit t" and "evd_stream_throttle_request time t size' wait = (t', r, wait')"
  shows "within_limit t'" "has_room t' r" "r \<le> size'" "st_bandwidth t' = st_bandwidth t"
proof -
  have t': "t' = evd_stream_throttle_update_current_time time t"
    and r: "r = fst (evd_stream_throttle_request_internal t' (st_bandwidth t') (st_latency t')
      (st_bytes t') (st_last t') size' wait)"
    using assms(2) by (auto simp: evd_stream_throttle_request_def Let_def)
  show w: "within_limit t'" using update_current_time_limit [OF assms(1)] t' by simp
  show "has_room t' r"
    using request_internal_room [of "st_bandwidth t'" "st_bytes t'"] w r
    by (auto simp: has_room_def within_limit_def)
  show "r \<le> size'" using r request_internal_size by simp
  show "st_bandwidth t' = st_bandwidth t" using t' by simp
qed

lemma report_keeps_limit:
  assumes "within_limit t" and "has_room t n"
  shows "within_limit (evd_stream_throttle_report time t n)"
proof -
  have "n \<le> st_bandwidth t \<or> st_bandwidth t = 0"
    using assms(2) by (auto simp: has_room_def word_le_nat_alt word_gt_0)
  note u = update_current_time_room [OF assms(2,1) this, of time] update_current_time_limit [OF assms(1), of time]
  let ?u = "evd_stream_throttle_update_current_time time t"
  have "unat (st_bytes ?u + n) = unat (st_bytes ?u) + unat n" if "st_bandwidth ?u > 0"
    using u(1) that unsigned_less [of "st_bandwidth ?u", where 'a = nat]
    by (simp add: has_room_def unat_word_ariths)
  with u show ?thesis
    by (auto simp: evd_stream_throttle_report_def Let_def within_limit_def has_room_def word_le_nat_alt)
qed

section \<open>Throttled streams respect the limits\<close>

text \<open>The bytes that passed a throttle in a second.\<close>

definition traffic :: "(int \<times> nat \<times> nat) list \<Rightarrow> nat \<Rightarrow> int \<Rightarrow> nat" where
  "traffic log a s = sum_list (map (\<lambda>(s', a', n). if s' = s \<and> a' = a then n else 0) log)"

lemma traffic_snoc [simp]:
  "traffic (log @ [(s', a', n)]) a s = traffic log a s + (if s' = s \<and> a' = a then n else 0)"
  by (simp add: traffic_def)

text \<open>
  The count of a throttle covers the traffic of its current second, no second has more traffic
  than the bandwidth, and no traffic lies in the future.
\<close>

definition throttle_ok :: "(int \<times> nat \<times> nat) list \<Rightarrow> nat \<Rightarrow> GTimeVal \<Rightarrow> stream_throttle \<Rightarrow> bool" where
  "throttle_ok log a time t \<longleftrightarrow>
     within_limit t \<and> tv_sec (st_current_time t) \<le> tv_sec time \<and>
     (\<forall>s. tv_sec (st_current_time t) < s \<longrightarrow> traffic log a s = 0) \<and>
     (st_bandwidth t > 0 \<longrightarrow>
       traffic log a (tv_sec (st_current_time t)) \<le> unat (st_bytes t) \<and>
       (\<forall>s. traffic log a s \<le> unat (st_bandwidth t)))"

definition throttles_ok :: "(nat \<Rightarrow> GTimeVal) \<Rightarrow> throttle_world \<Rightarrow> bool" where
  "throttles_ok now w \<longleftrightarrow>
     (\<forall>i. tv_sec (now i) \<le> tv_sec (now (Suc i))) \<and>
     (\<forall>a. throttle_ok (tw_log w) a (now (tw_tick w)) (tw_throttle w a))"

lemma throttle_ok_update:
  "throttle_ok log a time t \<Longrightarrow> throttle_ok log a time (evd_stream_throttle_update_current_time time t)"
  using update_current_time_limit [of t time]
  by (auto simp: throttle_ok_def evd_stream_throttle_update_current_time_def Let_def)

lemma throttle_ok_later:
  "throttle_ok log a time t \<Longrightarrow> tv_sec time \<le> tv_sec time' \<Longrightarrow> throttle_ok log a time' t"
  by (auto simp: throttle_ok_def)

lemma throttle_ok_other:
  "throttle_ok log b time t \<Longrightarrow> b \<noteq> a \<Longrightarrow> throttle_ok (log @ [(s, a, n)]) b time t"
  by (simp add: throttle_ok_def)

lemma throttle_ok_report:
  assumes "throttle_ok log a time t" and "has_room t n"
  shows "throttle_ok (log @ [(tv_sec time, a, unat n)]) a time (evd_stream_throttle_report time t n)"
proof -
  let ?u = "evd_stream_throttle_update_current_time time t"
  have lim: "within_limit t" using assms(1) by (simp add: throttle_ok_def)
  have "n \<le> st_bandwidth t \<or> st_bandwidth t = 0"
    using assms(2) by (auto simp: has_room_def word_le_nat_alt word_gt_0)
  from update_current_time_room [OF assms(2) lim this]
  have room: "has_room ?u n" .
  have time: "st_current_time ?u = time"
    by (simp add: evd_stream_throttle_update_current_time_def Let_def)
  have "unat (st_bytes ?u + n) = unat (st_bytes ?u) + unat n" if "st_bandwidth ?u > 0"
    using room that unsigned_less [of "st_bandwidth ?u", where 'a = nat]
    by (simp add: has_room_def unat_word_ariths)
  with throttle_ok_update [OF assms(1)] room report_keeps_limit [OF lim assms(2), of time] show ?thesis
    by (auto simp: throttle_ok_def evd_stream_throttle_report_def Let_def has_room_def time)
qed

lemma throttle_request_grants:
  assumes "throttles_ok now w" and "throttle_request now w a size' wait = (w', r, wait')"
  shows "throttles_ok now w'" "has_room (tw_throttle w' a) r" "r \<le> size'"
    "\<And>b. b \<noteq> a \<Longrightarrow> tw_throttle w' b = tw_throttle w b"
proof -
  obtain t where t: "evd_stream_throttle_request (now (tw_tick w)) (tw_throttle w a) size' wait = (t, r, wait')"
    and w': "w' = w\<lparr>tw_throttle := (tw_throttle w)(a := t), tw_tick := Suc (tw_tick w)\<rparr>"
    using assms(2) by (auto simp: throttle_request_def split: prod.splits)
  have ok: "throttle_ok (tw_log w) b (now (tw_tick w)) (tw_throttle w b)"
    and later: "tv_sec (now (tw_tick w)) \<le> tv_sec (now (Suc (tw_tick w)))" for b
    using assms(1) by (simp_all add: throttles_ok_def)
  from ok [of a] have "within_limit (tw_throttle w a)" by (simp add: throttle_ok_def)
  note g = request_grants [OF this t]
  have "throttle_ok (tw_log w) a (now (tw_tick w)) t"
    using throttle_ok_update [OF ok] t by (auto simp: evd_stream_throttle_request_def Let_def)
  with ok have "throttle_ok (tw_log w) b (now (tw_tick w)) (((tw_throttle w)(a := t)) b)" for b by simp
  from throttle_ok_later [OF this later] g w' assms(1)
  show "throttles_ok now w'" "has_room (tw_throttle w' a) r" "r \<le> size'"
    "\<And>b. b \<noteq> a \<Longrightarrow> tw_throttle w' b = tw_throttle w b"
    by (auto simp: throttles_ok_def)
qed

lemma min_request_grants:
  assumes "throttles_ok now w" and "min_request now w a size' wait = (w', r, wait')"
  shows "throttles_ok now w'" "has_room (tw_throttle w' a) r" "r \<le> size'"
    "\<And>b. b \<noteq> a \<Longrightarrow> tw_throttle w' b = tw_throttle w b"
proof -
  obtain w1 r1 wait1 where 1: "throttle_request now w a size' wait = (w1, r1, wait1)"
    by (metis prod_cases3)
  note g1 = throttle_request_grants [OF assms(1) 1]
  with assms(2) 1 have 2: "throttle_request now w1 a size' wait1 = (w', r, wait')"
    by (auto simp: min_request_def split: if_splits)
  note g2 = throttle_request_grants [OF g1(1) 2]
  show "throttles_ok now w'" "has_room (tw_throttle w' a) r" "r \<le> size'" using g2 by simp_all
  show "\<And>b. b \<noteq> a \<Longrightarrow> tw_throttle w' b = tw_throttle w b" using g1(4) g2(4) by metis
qed

lemma get_max_priv_grants:
  assumes "throttles_ok now w" and "distinct as" and "get_max_priv now w as size' wait = (w', r, wait')"
  shows "throttles_ok now w' \<and> r \<le> size' \<and> (\<forall>a\<in>set as. has_room (tw_throttle w' a) r) \<and>
    (\<forall>b. b \<notin> set as \<longrightarrow> tw_throttle w' b = tw_throttle w b)"
  using assms
proof (induction as arbitrary: w size' wait)
  case Nil
  then show ?case by simp
next
  case (Cons a as)
  obtain w1 r1 wait1 where 1: "min_request now w a size' wait = (w1, r1, wait1)"
    by (metis prod_cases3)
  note g = min_request_grants [OF Cons.prems(1) 1]
  from Cons.IH [OF g(1), of r1 wait1] Cons.prems 1
  have ih: "throttles_ok now w' \<and> r \<le> r1 \<and> (\<forall>a\<in>set as. has_room (tw_throttle w' a) r) \<and>
    (\<forall>b. b \<notin> set as \<longrightarrow> tw_throttle w' b = tw_throttle w1 b)" by simp
  moreover have "has_room (tw_throttle w' a) r"
    using ih g(2) Cons.prems(2) has_room_less [of "tw_throttle w1 a" r1 r] by simp
  ultimately show ?case using g(3,4) by (auto intro: order_trans)
qed

lemma fold_report_ok:
  assumes "throttles_ok now w" and "distinct as" and "\<forall>a\<in>set as. has_room (tw_throttle w a) n"
  shows "throttles_ok now (fold (throttle_report now n) as w)"
  using assms
proof (induction as arbitrary: w)
  case Nil
  then show ?case by simp
next
  case (Cons a as)
  let ?w = "throttle_report now n a w"
  have ok: "throttle_ok (tw_log w) b (now (tw_tick w)) (tw_throttle w b)"
    and later: "tv_sec (now (tw_tick w)) \<le> tv_sec (now (Suc (tw_tick w)))" for b
    using Cons.prems(1) by (simp_all add: throttles_ok_def)
  have "throttle_ok (tw_log ?w) b (now (tw_tick w)) (tw_throttle ?w b)" for b
    using throttle_ok_report [OF ok [of a], of n] throttle_ok_other [OF ok [of b], of a] Cons.prems(3)
    by (simp add: throttle_report_def)
  from throttle_ok_later [OF this later] have "throttles_ok now ?w"
    using Cons.prems(1) by (simp add: throttles_ok_def throttle_report_def)
  moreover have "\<forall>b\<in>set as. has_room (tw_throttle ?w b) n"
    using Cons.prems by (auto simp: throttle_report_def)
  ultimately show ?case using Cons.IH Cons.prems(2) by simp
qed

text \<open>The base stream transfers at most what it is asked for.\<close>

definition base_ok :: "(64 word \<Rightarrow> gio_error + 64 word) \<Rightarrow> bool" where
  "base_ok base \<longleftrightarrow> (\<forall>asked. case base asked of Inl e \<Rightarrow> True | Inr n \<Rightarrow> n \<le> asked)"

lemma transfer_ok:
  assumes "throttles_ok now w" and "distinct as" and "\<forall>a\<in>set as. has_room (tw_throttle w a) limited"
    and "base_ok base" and "base limited = Inr n"
  shows "throttles_ok now (fold (throttle_report now n) as w)" "n \<le> limited"
proof -
  show "n \<le> limited" using assms(4,5) by (auto simp: base_ok_def split: sum.splits)
  then have "\<forall>a\<in>set as. has_room (tw_throttle w a) n" using assms(3) by (auto intro: has_room_less)
  with assms(1,2) fold_report_ok show "throttles_ok now (fold (throttle_report now n) as w)" by simp
qed

lemma read_ok:
  assumes "throttles_ok now w" and "distinct as" and "base_ok base"
    and "evd_throttled_input_stream_read now base w as size' = (w', res, signals)"
  shows "throttles_ok now w' \<and> (\<forall>n. res = Transferred n \<longrightarrow> n \<le> size')"
proof (cases "size' = 0")
  case True
  with assms show ?thesis by (auto simp: evd_throttled_input_stream_read_def)
next
  case False
  obtain w1 r1 wait1 where 1: "get_max_priv now w as size' (Some 0) = (w1, r1, wait1)"
    by (metis prod_cases3)
  note g1 = get_max_priv_grants [OF assms(1,2) 1]
  obtain w2 r2 wait2 where 2: "get_max_priv now w1 as size' wait1 = (w2, r2, wait2)"
    by (metis prod_cases3)
  note g2 = get_max_priv_grants [OF _ assms(2) 2]
  from g1 have nl: "\<not> size' < r1" by auto
  from g1 g2 have g: "throttles_ok now w2" "r2 \<le> size'" "\<forall>a\<in>set as. has_room (tw_throttle w2 a) r2" by auto
  note t = transfer_ok [OF g(1) assms(2) g(3) assms(3)]
  from assms(4) False 1 2 nl g t show ?thesis
    by (auto simp: evd_throttled_input_stream_read_def Let_def split: sum.splits if_splits
        intro: order_trans)
qed

lemma write_ok:
  assumes "throttles_ok now w" and "distinct as" and "base_ok base"
    and "evd_throttled_output_stream_write now base w as size' = (w', res, signals)"
  shows "throttles_ok now w' \<and> (\<forall>n. res = Transferred n \<longrightarrow> n \<le> size')"
proof (cases "size' = 0")
  case True
  with assms show ?thesis by (auto simp: evd_throttled_output_stream_write_def)
next
  case False
  obtain w1 r1 wait1 where 1: "get_max_priv now w as size' (Some 0) = (w1, r1, wait1)"
    by (metis prod_cases3)
  note g1 = get_max_priv_grants [OF assms(1,2) 1]
  obtain w2 r2 wait2 where 2: "get_max_priv now w1 as size' (Some 0) = (w2, r2, wait2)"
    by (metis prod_cases3)
  note g2 = get_max_priv_grants [OF _ assms(2) 2]
  from g1 have nl: "\<not> size' < r1" by auto
  from g1 g2 have g: "throttles_ok now w2" "r2 \<le> size'" "\<forall>a\<in>set as. has_room (tw_throttle w2 a) r2" by auto
  note t = transfer_ok [OF g(1) assms(2) g(3) assms(3)]
  from assms(4) False 1 2 nl g t show ?thesis
    by (auto simp: evd_throttled_output_stream_write_def Let_def
        evd_throttled_output_stream_get_max_writable_priv_def split: sum.splits if_splits
        intro: order_trans)
qed

text \<open>Any sequence of transfers on streams that share throttles.\<close>

datatype throttle_op =
    Th_read "64 word \<Rightarrow> gio_error + 64 word" "nat list" "64 word"
  | Th_write "64 word \<Rightarrow> gio_error + 64 word" "nat list" "64 word"
  | Th_get_max "nat list"

definition throttle_step ::
  "(nat \<Rightarrow> GTimeVal) \<Rightarrow> throttle_world \<Rightarrow> throttle_op \<Rightarrow> throttle_world option"
where
  "throttle_step now w op =
     (case op of
        Th_read base as size' \<Rightarrow> Some (fst (evd_throttled_input_stream_read now base w as size'))
      | Th_write base as size' \<Rightarrow> Some (fst (evd_throttled_output_stream_write now base w as size'))
      | Th_get_max as \<Rightarrow> Some (fst (evd_throttled_input_stream_get_max_readable now w as None)))"

definition throttle_allowed :: "throttle_op \<Rightarrow> bool" where
  "throttle_allowed op =
     (case op of
        Th_read base as size' \<Rightarrow> base_ok base \<and> distinct as
      | Th_write base as size' \<Rightarrow> base_ok base \<and> distinct as
      | Th_get_max as \<Rightarrow> distinct as)"

interpretation throttled: invariant_machine "throttle_step now" "throttles_ok now" throttle_allowed for now
proof unfold_locales
  fix w op
  assume w: "throttles_ok now w" and op: "throttle_allowed op"
  show "\<exists>w'. throttle_step now w op = Some w' \<and> throttles_ok now w'"
  proof (cases op)
    case (Th_read base as size')
    obtain w' r s where "evd_throttled_input_stream_read now base w as size' = (w', r, s)"
      by (metis prod_cases3)
    with read_ok [of now w as base size'] w op Th_read show ?thesis
      by (simp add: throttle_step_def throttle_allowed_def)
  next
    case (Th_write base as size')
    obtain w' r s where "evd_throttled_output_stream_write now base w as size' = (w', r, s)"
      by (metis prod_cases3)
    with write_ok [of now w as base size'] w op Th_write show ?thesis
      by (simp add: throttle_step_def throttle_allowed_def)
  next
    case (Th_get_max as)
    obtain w' r s where "get_max_priv now w as G_MAXSSIZE None = (w', r, s)"
      by (metis prod_cases3)
    with get_max_priv_grants [of now w as] w op Th_get_max show ?thesis
      by (simp add: throttle_step_def throttle_allowed_def
          evd_throttled_input_stream_get_max_readable_def)
  qed
qed

text \<open>The bandwidth of a throttle does not change.\<close>

definition same_bandwidth :: "throttle_world \<Rightarrow> throttle_world \<Rightarrow> bool" where
  "same_bandwidth w w' \<longleftrightarrow> (\<forall>a. st_bandwidth (tw_throttle w' a) = st_bandwidth (tw_throttle w a))"

lemma same_bandwidth_refl [simp]: "same_bandwidth w w"
  by (simp add: same_bandwidth_def)

lemma same_bandwidth_trans [trans]: "same_bandwidth w w' \<Longrightarrow> same_bandwidth w' w'' \<Longrightarrow> same_bandwidth w w''"
  by (simp add: same_bandwidth_def)

lemma throttle_request_bandwidth: "same_bandwidth w (fst (throttle_request now w a size' wait))"
  by (simp add: same_bandwidth_def throttle_request_def evd_stream_throttle_request_def Let_def)

lemma min_request_bandwidth: "same_bandwidth w (fst (min_request now w a size' wait))"
proof -
  obtain w1 r1 wait1 where 1: "throttle_request now w a size' wait = (w1, r1, wait1)" by (metis prod_cases3)
  have "same_bandwidth w w1" using throttle_request_bandwidth [of w now a size' wait] 1 by simp
  with same_bandwidth_trans [OF this throttle_request_bandwidth] 1 show ?thesis
    by (simp add: min_request_def)
qed

lemma get_max_priv_bandwidth: "same_bandwidth w (fst (get_max_priv now w as size' wait))"
proof (induction as arbitrary: w size' wait)
  case (Cons a as)
  then show ?case
    using min_request_bandwidth [of w now a size' wait] same_bandwidth_trans
    by (auto split: prod.split)
qed simp

lemma fold_report_bandwidth: "same_bandwidth w (fold (throttle_report now n) as w)"
proof (induction as arbitrary: w)
  case (Cons a as)
  have "same_bandwidth w (throttle_report now n a w)"
    by (simp add: same_bandwidth_def throttle_report_def evd_stream_throttle_report_def Let_def)
  also have "same_bandwidth (throttle_report now n a w) (fold (throttle_report now n) (a # as) w)"
    using Cons.IH by simp
  finally show ?case .
qed simp

lemma throttle_step_bandwidth:
  assumes "throttle_step now w op = Some w'"
  shows "same_bandwidth w w'"
proof -
  have t: "same_bandwidth w (fst (get_max_priv now (fst (get_max_priv now w as size' wait)) as size' wait'))"
    "same_bandwidth w (fold (throttle_report now n) as (fst (get_max_priv now w as size' wait)))"
    "same_bandwidth w (fold (throttle_report now n) as (fst (get_max_priv now (fst (get_max_priv now w as size' wait)) as size' wait')))"
    for as size' wait wait' n
    by (blast intro: same_bandwidth_trans get_max_priv_bandwidth fold_report_bandwidth)+
  show ?thesis
    using assms t get_max_priv_bandwidth [of w now]
    by (cases op)
      (auto simp: throttle_step_def evd_throttled_input_stream_read_def evd_throttled_output_stream_write_def
        evd_throttled_output_stream_get_max_writable_priv_def evd_throttled_input_stream_get_max_readable_def
        Let_def case_prod_beta split: sum.split)
qed

lemma run_bandwidth: "run_ops (throttle_step now) w ops = Some w' \<Longrightarrow> same_bandwidth w w'"
proof (induction ops arbitrary: w)
  case (Cons op ops)
  then show ?case
    using throttle_step_bandwidth same_bandwidth_trans by (auto split: option.splits) metis
qed simp

section \<open>Waiting\<close>

lemma bandwidth_wait_enough:
  assumes "0 \<le> tv_usec time" and "tv_usec time < 1000000"
  shows "1000000 < tv_usec time + 1000 * int (unat (bandwidth_wait time w0))"
proof -
  let ?x = "(1000001 - tv_usec time) div 1000"
  let ?w = "of_int ?x + 1 :: 32 word"
  have x: "0 \<le> ?x" "?x \<le> 1000" "1000001 - tv_usec time < 1000 * ?x + 1000" using assms by auto
  define n where "n = nat ?x"
  have n: "?x = int n" "n \<le> 1000" using x(1,2) by (simp_all add: n_def)
  have "?w = of_nat (n + 1)" by (simp add: n(1))
  then have "unat ?w = (n + 1) mod 2 ^ 32" by (simp only: unat_of_nat) simp
  with n have "int (unat ?w) = ?x + 1" by simp
  moreover have "?w \<le> bandwidth_wait time w0"
    by (simp add: bandwidth_wait_def Let_def not_less)
  then have "unat ?w \<le> unat (bandwidth_wait time w0)" by (simp only: word_le_nat_alt)
  ultimately show ?thesis using x(3) by linarith
qed

lemma latency_wait_enough:
  assumes "elapsed < latency" and "unat latency < 4000000000000"
  shows "unat latency < unat elapsed + 1000 * unat (latency_wait latency elapsed w0)"
proof -
  let ?w = "(latency - elapsed) div 1000 + 2 :: 64 word"
  have sub: "unat (latency - elapsed) = unat latency - unat elapsed"
    using assms(1) by (simp add: unat_sub order_less_imp_le)
  have w: "unat ?w = (unat latency - unat elapsed) div 1000 + 2"
    using assms(2) by (simp add: unat_word_ariths unat_div sub)
  then have small: "unat ?w < 2 ^ 32" using assms(2) by simp
  have "unat ?w \<le> unat (latency_wait latency elapsed w0)"
  proof (cases "?w > ucast w0")
    case True
    have "unat (ucast ?w :: 32 word) = unat ?w"
      using small by (simp add: unsigned_ucast_eq take_bit_nat_eq_self)
    with True show ?thesis by (simp add: latency_wait_def Let_def)
  next
    case False
    then have "?w \<le> ucast w0" by simp
    moreover have "unat (ucast w0 :: 64 word) = unat w0"
      using unsigned_less [of w0, where 'a = nat] by (simp add: unsigned_ucast_eq take_bit_nat_eq_self)
    ultimately show ?thesis using False by (simp add: latency_wait_def Let_def word_le_nat_alt)
  qed
  with w show ?thesis by linarith
qed

section \<open>Properties\<close>

text \<open>
  C32. However streams share throttles, no sequence of reads and writes moves more bytes past a
  throttle with a limit in any one second than its bandwidth, provided the base streams transfer
  at most what they are asked for and the seconds of the clock do not go backwards. A transfer
  counts in the second in which it is reported to the throttle.
\<close>

theorem throttle_bandwidth_respected:
  assumes "\<forall>i. tv_sec (now i) \<le> tv_sec (now (Suc i))" and "list_all throttle_allowed ops"
    and "tw_log w = []" and "\<forall>a. within_limit (tw_throttle w a)"
    and "\<forall>a. tv_sec (st_current_time (tw_throttle w a)) \<le> tv_sec (now (tw_tick w))"
  shows "\<exists>w'. run_ops (throttle_step now) w ops = Some w' \<and>
    (\<forall>a s. 0 < st_bandwidth (tw_throttle w a) \<longrightarrow>
       traffic (tw_log w') a s \<le> unat (st_bandwidth (tw_throttle w a)))"
proof -
  have "throttles_ok now w"
    using assms by (simp add: throttles_ok_def throttle_ok_def traffic_def)
  from throttled.run_ops_defined [OF this assms(2)] obtain w'
    where "run_ops (throttle_step now) w ops = Some w'" and "throttles_ok now w'" by blast
  with run_bandwidth show ?thesis
    by (fastforce simp: throttles_ok_def throttle_ok_def same_bandwidth_def)
qed

definition demo_world :: throttle_world where
  "demo_world =
     \<lparr>tw_throttle = (\<lambda>a. evd_stream_throttle_init\<lparr>st_bandwidth := 1024 * of_nat a\<rparr>),
      tw_refs = (\<lambda>a. 1), tw_tick = 0, tw_log = []\<rparr>"

definition demo_clock :: "nat \<Rightarrow> GTimeVal" where
  "demo_clock i = \<lparr>tv_sec = 1 + int (i div 8), tv_usec = 100000 * int (i mod 8)\<rparr>"

theorem throttle_bandwidth_respected_witness:
  "\<exists>w'. run_ops (throttle_step demo_clock) demo_world
      [Th_read (\<lambda>n. Inr n) [1, 2] 5000, Th_write (\<lambda>n. Inr (n div 2)) [2] 5000,
       Th_read (\<lambda>n. Inr n) [1] 5000] = Some w' \<and>
    traffic (tw_log w') 1 1 \<le> 1024 \<and> traffic (tw_log w') 2 1 \<le> 2048"
proof -
  let ?ops = "[Th_read (\<lambda>n. Inr n) [1, 2] 5000, Th_write (\<lambda>n. Inr (n div 2)) [2] 5000,
      Th_read (\<lambda>n. Inr n) [1] 5000]"
  have "list_all throttle_allowed ?ops"
    by (simp add: throttle_allowed_def base_ok_def word_le_nat_alt unat_div)
  moreover have "i div 8 \<le> Suc i div 8" for i :: nat by (rule div_le_mono) simp
  then have "\<forall>i. tv_sec (demo_clock i) \<le> tv_sec (demo_clock (Suc i))"
    by (simp add: demo_clock_def del: div_Suc)
  ultimately obtain w' where w': "run_ops (throttle_step demo_clock) demo_world ?ops = Some w'"
    "\<forall>a s. 0 < st_bandwidth (tw_throttle demo_world a) \<longrightarrow>
       traffic (tw_log w') a s \<le> unat (st_bandwidth (tw_throttle demo_world a))"
    using throttle_bandwidth_respected [of demo_clock ?ops demo_world]
    by (auto simp: within_limit_def demo_world_def evd_stream_throttle_init_def demo_clock_def
        simp del: run_ops.simps)
  with spec [OF w'(2), of 1] spec [OF w'(2), of 2] show ?thesis by (simp add: demo_world_def)
qed

text \<open>Times as numbers of microseconds; clocks far from the limits of the numbers.\<close>

definition micros :: "GTimeVal \<Rightarrow> int" where
  "micros t = tv_sec t * 1000000 + tv_usec t"

definition clock_ok :: "GTimeVal \<Rightarrow> bool" where
  "clock_ok t \<longleftrightarrow> 0 \<le> tv_sec t \<and> tv_sec t < 1000000000000 \<and> 0 \<le> tv_usec t \<and> tv_usec t < 1000000"

lemma uint_small_int: "0 \<le> d \<Longrightarrow> d < 2 ^ 64 \<Longrightarrow> uint (of_int d :: 64 word) = d"
  by (simp add: uint_word_of_int)

lemma diff_micro_int:
  assumes "clock_ok a" "clock_ok b"
  shows "uint (g_timeval_get_diff_micro a b) = \<bar>tv_sec b - tv_sec a\<bar> * 1000000 + \<bar>tv_usec b - tv_usec a\<bar>"
proof -
  let ?d = "\<bar>tv_sec b - tv_sec a\<bar> * 1000000 + \<bar>tv_usec b - tv_usec a\<bar>"
  have "\<bar>tv_sec b - tv_sec a\<bar> < 1000000000000" "\<bar>tv_usec b - tv_usec a\<bar> < 1000000" using assms by (auto simp: clock_ok_def)
  then have d: "0 \<le> ?d" "?d < 2 ^ 64" by auto
  have "g_timeval_get_diff_micro a b = of_int ?d" by (simp add: g_timeval_get_diff_micro_def)
  then show ?thesis using uint_small_int [OF d] by simp
qed

text \<open>The difference that the code computes is exact if there is nothing to borrow, and never too small.\<close>

lemma diff_micro_exact:
  assumes "clock_ok a" "clock_ok b" "micros b \<le> micros a" "tv_usec b \<le> tv_usec a"
  shows "uint (g_timeval_get_diff_micro a b) = micros a - micros b"
  using assms unfolding diff_micro_int [OF assms(1,2)] by (auto simp: micros_def clock_ok_def abs_if)

lemma diff_micro_enough:
  assumes "clock_ok a" "clock_ok b" "micros b \<le> micros a"
  shows "micros a - micros b \<le> uint (g_timeval_get_diff_micro a b)"
  using assms unfolding diff_micro_int [OF assms(1,2)] by (auto simp: micros_def clock_ok_def abs_if)

lemma late_retry:
  assumes "clock_ok later" "clock_ok (st_last t)" "micros (st_last t) + uint (st_latency t) \<le> micros later"
  shows "\<not> g_timeval_get_diff_micro later (st_last t) < st_latency t"
proof -
  have "0 \<le> uint (st_latency t)" by simp
  with diff_micro_enough [OF assms(1,2)] assms(3) show ?thesis unfolding word_less_def by linarith
qed

lemma signed_max_0_same: "0 \<le> sint x \<Longrightarrow> signed_max_0 x = x"
  by (metis antisym_conv3 linorder_not_less signed_eq_0_iff signed_max_0_def)

lemma request_next_second:
  assumes "tv_sec later \<noteq> tv_sec (st_current_time t)" "0 \<le> sint (st_bandwidth t)" "0 < st_bandwidth t" "0 < size'"
    and "\<not> g_timeval_get_diff_micro later (st_last t) < st_latency t"
  shows "fst (snd (evd_stream_throttle_request later t size' w)) = min (st_bandwidth t) size'"
  using assms
  by (simp add: evd_stream_throttle_request_def evd_stream_throttle_request_internal_def
      evd_stream_throttle_update_current_time_def signed_max_0_same Let_def)

text \<open>
  C39. A throttle that grants less than what is asked for tells how long to wait, and the wait is long
  enough, provided that the clock's microseconds are not below those of the last transfer (else the code
  takes more time for elapsed than has, lemma \<open>throttle_latency_violated\<close>) and that latency, bandwidth and times are
  far from the limits of the numbers. Whoever waits that long finds, if part of the latency was missing,
  that the latency has passed since the last transfer, and is not refused for it again; and otherwise
  that a new second has begun, in which a request is granted up to the whole bandwidth.
\<close>

theorem throttle_wait_sufficient:
  assumes "clock_ok time" and "clock_ok (st_last t)" and "micros (st_last t) \<le> micros time" and "tv_usec (st_last t) \<le> tv_usec time"
    and "unat (st_latency t) < 4000000000000" and "0 \<le> sint (st_bandwidth t)"
    and "evd_stream_throttle_request time t size' (Some w0) = (t', r, wait')" and "r < size'"
  shows "\<exists>wait. wait' = Some wait \<and>
    (\<forall>later. clock_ok later \<and> micros time + 1000 * uint wait \<le> micros later \<longrightarrow>
      (if micros time - micros (st_last t) < uint (st_latency t)
       then uint (st_latency t) < micros later - micros (st_last t) \<and>
         \<not> g_timeval_get_diff_micro later (st_last t') < st_latency t'
       else tv_sec time < tv_sec later \<and>
         fst (snd (evd_stream_throttle_request later t' size' (Some w1))) = min (st_bandwidth t) size'))"
proof -
  let ?e = "g_timeval_get_diff_micro time (st_last t)"
  let ?u = "evd_stream_throttle_update_current_time time t"
  have u: "st_current_time ?u = time" "st_latency ?u = st_latency t" "st_last ?u = st_last t" "st_bandwidth ?u = st_bandwidth t"
    by (simp_all add: evd_stream_throttle_update_current_time_def Let_def)
  have t': "t' = ?u" using assms(7) by (simp add: evd_stream_throttle_request_def Let_def)
  have e: "uint ?e = micros time - micros (st_last t)" by (rule diff_micro_exact [OF assms(1-4)])
  have ne: "size' > 0" using assms(8) by (metis word_gt_0 word_not_simps(1))
  show ?thesis
  proof (cases "?e < st_latency t")
    case True
    then have "st_latency t > 0" by (metis word_gt_0 word_not_simps(1))
    with True assms(7) u have w: "wait' = Some (latency_wait (st_latency t) ?e w0)"
      by (auto simp: evd_stream_throttle_request_def evd_stream_throttle_request_internal_def Let_def)
    have "uint (st_latency t) < micros later - micros (st_last t) \<and> \<not> g_timeval_get_diff_micro later (st_last t) < st_latency t"
      if "clock_ok later" "micros time + 1000 * uint (latency_wait (st_latency t) ?e w0) \<le> micros later" for later
    proof -
      have "int (unat (st_latency t)) < int (unat ?e + 1000 * unat (latency_wait (st_latency t) ?e w0))"
        using latency_wait_enough [OF True assms(5), of w0] by (simp only: of_nat_less_iff)
      then have "uint (st_latency t) < micros later - micros (st_last t)" using that(2) e by simp
      with late_retry [OF that(1) assms(2)] show ?thesis by simp
    qed
    moreover have "micros time - micros (st_last t) < uint (st_latency t)" using True e by (simp add: word_less_def)
    ultimately show ?thesis using w by (simp add: t' u)
  next
    case False
    with assms(7,8) u ne have w: "wait' = Some (bandwidth_wait time w0)" and bw: "0 < st_bandwidth t"
      by (auto simp: evd_stream_throttle_request_def evd_stream_throttle_request_internal_def Let_def split: if_splits)
    have "tv_sec time < tv_sec later \<and> fst (snd (evd_stream_throttle_request later t' size' (Some w1))) = min (st_bandwidth t) size'"
      if later: "clock_ok later" "micros time + 1000 * uint (bandwidth_wait time w0) \<le> micros later" for later
    proof -
      have "0 \<le> tv_usec time" "tv_usec time < 1000000" using assms(1) by (simp_all add: clock_ok_def)
      with bandwidth_wait_enough [of time w0] later have sec: "tv_sec time < tv_sec later" by (simp add: micros_def clock_ok_def)
      have "\<not> g_timeval_get_diff_micro later (st_last t) < st_latency t"
      proof (rule late_retry [OF later(1) assms(2)])
        have "0 \<le> uint (bandwidth_wait time w0)" by simp
        then show "micros (st_last t) + uint (st_latency t) \<le> micros later" using False e later(2) unfolding word_less_def by linarith
      qed
      with sec request_next_second [of later ?u size' "Some w1"] u bw ne assms(6) show ?thesis by (simp add: t')
    qed
    moreover have "\<not> micros time - micros (st_last t) < uint (st_latency t)" using False e by (simp add: word_less_def)
    ultimately show ?thesis using w by simp
  qed
qed

theorem throttle_wait_sufficient_witness:
  "\<exists>wait. snd (snd (evd_stream_throttle_request \<lparr>tv_sec = 7, tv_usec = 250000\<rparr>
      (evd_stream_throttle_init\<lparr>st_latency := 3000000, st_last := \<lparr>tv_sec = 6, tv_usec = 0\<rparr>\<rparr>) 100 (Some 0))) = Some wait \<and>
    (\<forall>sec. 7 + uint wait < sec \<and> sec < 1000000000000 \<longrightarrow>
       \<not> g_timeval_get_diff_micro \<lparr>tv_sec = sec, tv_usec = 0\<rparr> \<lparr>tv_sec = 6, tv_usec = 0\<rparr> < 3000000)"
proof -
  let ?time = "\<lparr>tv_sec = 7, tv_usec = 250000\<rparr> :: GTimeVal"
  let ?t = "evd_stream_throttle_init\<lparr>st_latency := 3000000, st_last := \<lparr>tv_sec = 6, tv_usec = 0\<rparr>\<rparr>"
  obtain t' r wait' where r: "evd_stream_throttle_request ?time ?t 100 (Some 0) = (t', r, wait')"
    by (metis prod_cases3)
  then have "r = 0" and t': "st_last t' = \<lparr>tv_sec = 6, tv_usec = 0\<rparr>" "st_latency t' = 3000000"
    by (auto simp: evd_stream_throttle_request_def evd_stream_throttle_request_internal_def g_timeval_get_diff_micro_def
        evd_stream_throttle_update_current_time_def evd_stream_throttle_init_def Let_def)
  then have "r < 100" by simp
  have h: "clock_ok ?time" "clock_ok (st_last ?t)" "micros (st_last ?t) \<le> micros ?time" "tv_usec (st_last ?t) \<le> tv_usec ?time"
    "unat (st_latency ?t) < 4000000000000" "0 \<le> sint (st_bandwidth ?t)" "micros ?time - micros (st_last ?t) < uint (st_latency ?t)"
    by (simp_all add: clock_ok_def micros_def evd_stream_throttle_init_def)
  from throttle_wait_sufficient [OF h(1-6) r \<open>r < 100\<close>, of 0] h(7) obtain wait where w: "wait' = Some wait"
    "\<And>later. clock_ok later \<Longrightarrow> micros ?time + 1000 * uint wait \<le> micros later \<Longrightarrow>
       \<not> g_timeval_get_diff_micro later (st_last t') < st_latency t'" by auto
  have "\<not> g_timeval_get_diff_micro \<lparr>tv_sec = sec, tv_usec = 0\<rparr> \<lparr>tv_sec = 6, tv_usec = 0\<rparr> < 3000000"
    if "7 + uint wait < sec" "sec < 1000000000000" for sec
    using w(2) [of "\<lparr>tv_sec = sec, tv_usec = 0\<rparr>"] that t' unsigned_greater_eq [of wait, where 'a = int] by (simp add: clock_ok_def micros_def)
  then show ?thesis using r w(1) by simp
qed
text \<open>
  The time difference is wrong across a second: one microsecond after a transfer, a throttle
  with a latency of one second lets the next transfer pass.
\<close>

theorem throttle_latency_violated:
  "g_timeval_get_diff_micro \<lparr>tv_sec = s + 1, tv_usec = 0\<rparr> \<lparr>tv_sec = s, tv_usec = 999999\<rparr> = 1999999 \<and>
   fst (snd (evd_stream_throttle_request \<lparr>tv_sec = s + 1, tv_usec = 0\<rparr>
     (evd_stream_throttle_init\<lparr>st_latency := 1000000, st_last := \<lparr>tv_sec = s, tv_usec = 999999\<rparr>\<rparr>)
     100 wait)) = 100"
  by (simp add: g_timeval_get_diff_micro_def evd_stream_throttle_request_def Let_def
      evd_stream_throttle_request_internal_def evd_stream_throttle_update_current_time_def
      evd_stream_throttle_init_def)

text \<open>
  A throttled write that is limited emits \<open>delay-write\<close> twice, because \<open>MIN\<close> evaluates
  \<open>get_max_writable_priv\<close> twice; the read emits its signal once.
\<close>

theorem throttled_write_signals_twice:
  "let w = \<lparr>tw_throttle = (\<lambda>a. evd_stream_throttle_init\<lparr>st_bandwidth := 10\<rparr>), tw_refs = (\<lambda>a. 1),
            tw_tick = 0, tw_log = []\<rparr>;
       now = (\<lambda>i. \<lparr>tv_sec = 1, tv_usec = 0\<rparr>)
   in snd (snd (evd_throttled_output_stream_write now (\<lambda>n. Inr n) w [0] 100)) = [1001, 1001] \<and>
      snd (snd (evd_throttled_input_stream_read now (\<lambda>n. Inr n) w [0] 100)) = [1001]"
  by code_simp

text \<open>Adding a throttle twice changes nothing, and removing it gives the reference back.\<close>

lemma input_add_remove_throttle:
  assumes "distinct as" and "evd_throttled_input_stream_add_throttle w as a = (w', as')"
  shows "distinct as'" "a \<in> set as'" "evd_throttled_input_stream_add_throttle w' as' a = (w', as')"
    "a \<notin> set as \<Longrightarrow> evd_throttled_input_stream_remove_throttle w' as' a = (w, as)"
  using assms
  by (auto simp: evd_throttled_input_stream_add_throttle_def
      evd_throttled_input_stream_remove_throttle_def split: if_splits)

lemma output_add_remove_throttle:
  assumes "distinct as" and "evd_throttled_output_stream_add_throttle w as a = (w', as')"
  shows "distinct as'" "a \<in> set as'" "evd_throttled_output_stream_add_throttle w' as' a = (w', as')"
    "a \<notin> set as \<Longrightarrow> evd_throttled_output_stream_remove_throttle w' as' a = (w, as)"
  using assms
  by (auto simp: evd_throttled_output_stream_add_throttle_def
      evd_throttled_output_stream_remove_throttle_def split: if_splits)

lemma refs_unref [simp]: "tw_refs (unref_throttle b w) = (tw_refs w)(b := tw_refs w b - 1)"
  by (simp add: unref_throttle_def)

lemma fold_unref_other: "a \<notin> set as \<Longrightarrow> tw_refs (fold unref_throttle as w) a = tw_refs w a"
  by (induction as arbitrary: w) simp_all

lemma fold_unref: "distinct as \<Longrightarrow> a \<in> set as \<Longrightarrow> tw_refs (fold unref_throttle as w) a = tw_refs w a - 1"
  by (induction as arbitrary: w) (auto simp: fold_unref_other)

text \<open>
  Disposing of a throttled input stream twice releases each of its throttles twice (the list
  is freed but not cleared); the throttled output stream releases them once.
\<close>

theorem throttled_dispose_twice:
  assumes "distinct as" and "a \<in> set as"
  shows "(case evd_throttled_input_stream_dispose w as of (w1, as1) \<Rightarrow>
      tw_refs (fst (evd_throttled_input_stream_dispose w1 as1)) a = tw_refs w a - 2) \<and>
    (case evd_throttled_output_stream_dispose w as of (w1, as1) \<Rightarrow>
      tw_refs (fst (evd_throttled_output_stream_dispose w1 as1)) a = tw_refs w a - 1)"
  using assms
  by (simp add: evd_throttled_input_stream_dispose_def evd_throttled_output_stream_dispose_def
      fold_unref)

theorem throttled_dispose_twice_witness:
  "case evd_throttled_input_stream_dispose demo_world [3, 4] of (w1, as1) \<Rightarrow>
      tw_refs (fst (evd_throttled_input_stream_dispose w1 as1)) 4 = tw_refs demo_world 4 - 2"
  using throttled_dispose_twice [of "[3, 4]" 4 demo_world] by simp

end
