(* ===== verification/Buffered_Input.thy ===== *)
theory Buffered_Input
  imports Evd_Prelude
begin

text \<open>
  The buffered input stream, \<open>evd/evd-buffered-input-stream.c\<close>: reading through a buffer into
  which bytes can be pushed back (\<open>unread\<close>), asynchronous reads served by a timeout source,
  freezing and thawing. The base stream is the list of bytes it still has to give; every read of
  it comes with an outcome of the environment: an error, or how many bytes are available (0 at the
  end of the stream).
\<close>

section \<open>Interface: a stream with push-back\<close>

text \<open>
  What a client relies on: the bytes still to come (\<open>content\<close>), that a successful read gives a
  first part of them and leaves the rest, that a failed read loses nothing, and that bytes pushed
  back come first.
\<close>

primrec read_all ::
  "('s \<Rightarrow> nat \<Rightarrow> 'env \<Rightarrow> 's \<times> (gio_error + byte list)) \<Rightarrow> 's \<Rightarrow> (nat \<times> 'env) list \<Rightarrow> 's \<times> byte list"
where
  "read_all rd s [] = (s, [])"
| "read_all rd s (r # rs) =
     (case rd s (fst r) (snd r) of
        (s', res) \<Rightarrow>
          (case read_all rd s' rs of
             (s'', out) \<Rightarrow> (s'', (case res of Inl e \<Rightarrow> [] | Inr b \<Rightarrow> b) @ out)))"

locale pushback_stream =
  fixes content :: "'s \<Rightarrow> byte list"
    and read :: "'s \<Rightarrow> nat \<Rightarrow> 'env \<Rightarrow> 's \<times> (gio_error + byte list)"
    and unread :: "'s \<Rightarrow> byte list \<Rightarrow> 's \<times> (gio_error + nat)"
  assumes read_data: "read s n env = (s', Inr out) \<Longrightarrow> content s = out @ content s' \<and> length out \<le> n"
    and read_error: "read s n env = (s', Inl e) \<Longrightarrow> content s' = content s"
    and unread_data: "unread s b = (s', Inr n) \<Longrightarrow> content s' = b @ content s \<and> n = length b"
    and unread_error: "unread s b = (s', Inl e) \<Longrightarrow> content s' = content s"
begin

text \<open>Pushing back what was read restores the stream.\<close>

lemma unread_after_read:
  assumes "read s n env = (s1, Inr out)" and "unread s1 out = (s2, Inr m)"
  shows "content s2 = content s"
  using read_data [OF assms(1)] unread_data [OF assms(2)] by simp

text \<open>Whatever reads succeed or fail, the bytes read are a first part of the stream, in order.\<close>

lemma read_all_content: "read_all read s rs = (s', out) \<Longrightarrow> content s = out @ content s'"
proof (induction rs arbitrary: s s' out)
  case Nil
  then show ?case by simp
next
  case (Cons r rs)
  obtain s1 res where r: "read s (fst r) (snd r) = (s1, res)" by fastforce
  obtain s2 out2 where all: "read_all read s1 rs = (s2, out2)" by fastforce
  from Cons.IH [OF all] Cons.prems r all read_data read_error show ?case
    by (cases res) auto
qed

end

section \<open>The stream\<close>

record buffered_input =
  bi_buffer :: "byte list"
  bi_buffer_size :: nat
  bi_async_result :: "nat option"
  bi_requested_size :: nat
  bi_read_src :: bool
  bi_frozen :: bool
  bi_base :: "byte list"

definition evd_buffered_input_stream_init :: "nat \<Rightarrow> byte list \<Rightarrow> buffered_input" where
  "evd_buffered_input_stream_init buffer_size base =
     \<lparr>bi_buffer = [], bi_buffer_size = buffer_size, bi_async_result = None,
      bi_requested_size = 0, bi_read_src = False, bi_frozen = False, bi_base = base\<rparr>"

text \<open>\<open>g_input_stream_read\<close> on the base stream.\<close>

definition base_read :: "buffered_input \<Rightarrow> nat \<Rightarrow> gio_error + nat \<Rightarrow> buffered_input \<times> (gio_error + byte list)" where
  "base_read s n avail =
     (case avail of
        Inl e \<Rightarrow> (s, Inl e)
      | Inr k \<Rightarrow> (s\<lparr>bi_base := drop (min n k) (bi_base s)\<rparr>, Inr (take (min n k) (bi_base s))))"

definition evd_buffered_input_stream_read ::
  "buffered_input \<Rightarrow> nat \<Rightarrow> gio_error + nat \<Rightarrow> buffered_input \<times> (gio_error + byte list)"
where
  "evd_buffered_input_stream_read s size' avail =
     (if bi_frozen s then (s, Inl G_IO_ERROR_WOULD_BLOCK)
      else
        let read_from_buf = (if 0 < length (bi_buffer s) then min (length (bi_buffer s)) size' else 0);
            from_buf = take read_from_buf (bi_buffer s);
            size' = size' - read_from_buf;
            (s, from_stream) = (if size' > 0 then base_read s size' avail else (s, Inr []));
            from_stream = (case from_stream of
                             Inl e \<Rightarrow> if read_from_buf > 0 then Inr [] else Inl e
                           | Inr b \<Rightarrow> Inr b)
        in (case from_stream of
              Inl e \<Rightarrow> (s, Inl e)
            | Inr b \<Rightarrow> (s\<lparr>bi_buffer := drop read_from_buf (bi_buffer s)\<rparr>, Inr (from_buf @ b))))"

definition evd_buffered_input_stream_thaw :: "buffered_input \<Rightarrow> buffered_input" where
  "evd_buffered_input_stream_thaw s =
     (let s = s\<lparr>bi_frozen := False\<rparr>
      in if bi_async_result s \<noteq> None \<and> \<not> bi_read_src s then s\<lparr>bi_read_src := True\<rparr> else s)"

definition evd_buffered_input_stream_freeze :: "buffered_input \<Rightarrow> buffered_input" where
  "evd_buffered_input_stream_freeze s = s\<lparr>bi_frozen := True\<rparr>"

definition evd_buffered_input_stream_unread ::
  "buffered_input \<Rightarrow> byte list \<Rightarrow> buffered_input \<times> (gio_error + nat)"
where
  "evd_buffered_input_stream_unread s buf =
     (if length buf = 0 then (s, Inr 0)
      else if length (bi_buffer s) + length buf > bi_buffer_size s
      then (s, Inl G_IO_ERROR_NO_SPACE)
      else
        let s = s\<lparr>bi_buffer := buf @ bi_buffer s\<rparr>
        in (if \<not> bi_frozen s then evd_buffered_input_stream_thaw s else s, Inr (length buf)))"

text \<open>
  Completions of asynchronous reads, with what \<open>read_finish\<close> then returns.
\<close>

datatype bi_event = Read_complete nat "gio_error + byte list"

definition do_read :: "buffered_input \<Rightarrow> gio_error + nat \<Rightarrow> buffered_input \<times> bi_event list" where
  "do_read s avail =
     (let s = s\<lparr>bi_read_src := False\<rparr>
      in case bi_async_result s of
           None \<Rightarrow> (s, [])
         | Some req \<Rightarrow>
             (case evd_buffered_input_stream_read s (bi_requested_size s) avail of
                (s', res) \<Rightarrow>
                  if res = Inl G_IO_ERROR_WOULD_BLOCK \<or> res = Inr [] then (s', [])
                  else (s'\<lparr>bi_async_result := None\<rparr>, [Read_complete req res])))"

definition evd_buffered_input_stream_read_async :: "buffered_input \<Rightarrow> nat \<Rightarrow> nat \<Rightarrow> buffered_input" where
  "evd_buffered_input_stream_read_async s req size' =
     (let s = s\<lparr>bi_async_result := Some req, bi_requested_size := size'\<rparr>
      in if \<not> bi_frozen s then s\<lparr>bi_read_src := True\<rparr> else s)"

definition evd_buffered_input_stream_close :: "buffered_input \<Rightarrow> buffered_input \<times> bi_event list" where
  "evd_buffered_input_stream_close s =
     (let s = s\<lparr>bi_read_src := False\<rparr>
      in case bi_async_result s of
           None \<Rightarrow> (s, [])
         | Some req \<Rightarrow> (s\<lparr>bi_async_result := None\<rparr>, [Read_complete req (Inl G_IO_ERROR_CLOSED)]))"

text \<open>The data read, the size returned, and the bytes of memory left allocated.\<close>

definition evd_buffered_input_stream_read_str_sync ::
  "buffered_input \<Rightarrow> nat \<Rightarrow> gio_error + nat \<Rightarrow> buffered_input \<times> byte list option \<times> nat \<times> nat"
where
  "evd_buffered_input_stream_read_str_sync s size' avail =
     (if size' = 0 then (s, None, size', 0)
      else (case evd_buffered_input_stream_read s size' avail of
              (s', Inr b) \<Rightarrow> (s', if length b > 0 then Some b else None, length b, 0)
            | (s', Inl e) \<Rightarrow> (s', None, 0, size' + 1)))"

section \<open>Reading in order\<close>

definition bi_content :: "buffered_input \<Rightarrow> byte list" where
  "bi_content s = bi_buffer s @ bi_base s"

lemma base_read_data:
  "base_read s n avail = (s', Inr out) \<Longrightarrow>
     bi_base s = out @ bi_base s' \<and> length out \<le> n \<and> bi_buffer s' = bi_buffer s"
  by (auto simp: base_read_def split: sum.splits)

lemma base_read_error: "base_read s n avail = (s', Inl e) \<Longrightarrow> s' = s"
  by (auto simp: base_read_def split: sum.splits)

lemma thaw_content [simp]: "bi_content (evd_buffered_input_stream_thaw s) = bi_content s"
  by (simp add: evd_buffered_input_stream_thaw_def bi_content_def Let_def)

text \<open>
  The bytes of the buffer are used up before the base stream is read: a read either stays within
  the buffer or empties it.
\<close>

lemma read_eq:
  assumes "\<not> bi_frozen s"
  shows "evd_buffered_input_stream_read s n avail =
    (if n \<le> length (bi_buffer s)
     then (s\<lparr>bi_buffer := drop n (bi_buffer s)\<rparr>, Inr (take n (bi_buffer s)))
     else (case base_read s (n - length (bi_buffer s)) avail of
             (s', Inl e) \<Rightarrow> if bi_buffer s = [] then (s, Inl e)
                            else (s\<lparr>bi_buffer := []\<rparr>, Inr (bi_buffer s))
           | (s', Inr b) \<Rightarrow> (s'\<lparr>bi_buffer := []\<rparr>, Inr (bi_buffer s @ b))))"
proof -
  have k: "(if 0 < length (bi_buffer s) then min (length (bi_buffer s)) n else 0) =
      min (length (bi_buffer s)) n" by simp
  show ?thesis
  proof (cases "n \<le> length (bi_buffer s)")
    case True
    with assms show ?thesis
      unfolding evd_buffered_input_stream_read_def k by (simp add: min_absorb2)
  next
    case False
    obtain s1 res where b: "base_read s (n - length (bi_buffer s)) avail = (s1, res)" by fastforce
    from False assms b base_read_error [of s "n - length (bi_buffer s)" avail s1]
      base_read_data [of s "n - length (bi_buffer s)" avail s1] show ?thesis
      unfolding evd_buffered_input_stream_read_def k
      by (cases res) (auto simp: min_absorb1)
  qed
qed

lemma read_data:
  assumes "evd_buffered_input_stream_read s n avail = (s', Inr out)"
  shows "bi_content s = out @ bi_content s' \<and> length out \<le> n"
proof -
  have fr: "\<not> bi_frozen s" using assms by (auto simp: evd_buffered_input_stream_read_def)
  obtain s1 res where b: "base_read s (n - length (bi_buffer s)) avail = (s1, res)" by fastforce
  with assms base_read_error [of s "n - length (bi_buffer s)" avail s1]
    base_read_data [of s "n - length (bi_buffer s)" avail s1] show ?thesis
    by (cases res) (auto simp: read_eq [OF fr] bi_content_def min_absorb2 split: if_splits)
qed

lemma read_error:
  assumes "evd_buffered_input_stream_read s n avail = (s', Inl e)"
  shows "s' = s"
proof (cases "bi_frozen s")
  case True
  with assms show ?thesis by (simp add: evd_buffered_input_stream_read_def)
next
  case False
  with assms show ?thesis by (auto simp: read_eq split: if_splits prod.splits sum.splits)
qed

interpretation bi: pushback_stream bi_content evd_buffered_input_stream_read
  evd_buffered_input_stream_unread
proof unfold_locales
  fix s n env s' out
  assume "evd_buffered_input_stream_read s n env = (s', Inr out)"
  then show "bi_content s = out @ bi_content s' \<and> length out \<le> n" by (rule read_data)
next
  fix s n env s' e
  assume "evd_buffered_input_stream_read s n env = (s', Inl e)"
  then show "bi_content s' = bi_content s" by (auto dest: read_error)
next
  fix s b s' n
  assume "evd_buffered_input_stream_unread s b = (s', Inr n)"
  then show "bi_content s' = b @ bi_content s \<and> n = length b"
    by (auto simp: evd_buffered_input_stream_unread_def bi_content_def
        evd_buffered_input_stream_thaw_def Let_def split: if_splits)
next
  fix s b s' e
  assume "evd_buffered_input_stream_unread s b = (s', Inl e)"
  then show "bi_content s' = bi_content s"
    by (auto simp: evd_buffered_input_stream_unread_def Let_def split: if_splits)
qed

section \<open>All operations\<close>

text \<open>
  The operations on a stream; \<open>Bi_source\<close> is the timeout source firing. The step gives the bytes
  the user received and the bytes the user pushed back.
\<close>

datatype bi_op =
    Bi_read nat "gio_error + nat"
  | Bi_unread "byte list"
  | Bi_read_async nat nat
  | Bi_source "gio_error + nat"
  | Bi_freeze
  | Bi_thaw
  | Bi_close

definition received :: "bi_event list \<Rightarrow> byte list" where
  "received ev = concat (map (\<lambda>e. case e of Read_complete req (Inr b) \<Rightarrow> b | _ \<Rightarrow> []) ev)"

definition bi_step :: "buffered_input \<Rightarrow> bi_op \<Rightarrow> buffered_input \<times> byte list \<times> byte list" where
  "bi_step s op =
     (case op of
        Bi_read n avail \<Rightarrow>
          (case evd_buffered_input_stream_read s n avail of
             (s', Inr b) \<Rightarrow> (s', b, []) | (s', Inl e) \<Rightarrow> (s', [], []))
      | Bi_unread b \<Rightarrow>
          (case evd_buffered_input_stream_unread s b of
             (s', Inr n) \<Rightarrow> (s', [], b) | (s', Inl e) \<Rightarrow> (s', [], []))
      | Bi_read_async req n \<Rightarrow>
          (if bi_async_result s = None then evd_buffered_input_stream_read_async s req n else s, [], [])
      | Bi_source avail \<Rightarrow>
          if bi_read_src s then (case do_read s avail of (s', ev) \<Rightarrow> (s', received ev, []))
          else (s, [], [])
      | Bi_freeze \<Rightarrow> (evd_buffered_input_stream_freeze s, [], [])
      | Bi_thaw \<Rightarrow> (evd_buffered_input_stream_thaw s, [], [])
      | Bi_close \<Rightarrow> (case evd_buffered_input_stream_close s of (s', ev) \<Rightarrow> (s', received ev, [])))"

text \<open>
  What the user sees of a run: the bytes that were pushed back and those that were received. As an
  abstract stream, a sequence of bytes is received from its front, and what is pushed back comes in front.
\<close>

datatype bi_log = Pushed "byte list" | Received "byte list"

primrec bi_run :: "buffered_input \<Rightarrow> bi_op list \<Rightarrow> buffered_input \<times> bi_log list" where
  "bi_run s [] = (s, [])"
| "bi_run s (op # ops) =
     (case bi_step s op of
        (s', out, pushed) \<Rightarrow> (case bi_run s' ops of (s'', log) \<Rightarrow> (s'', Pushed pushed # Received out # log)))"

fun replay :: "byte list \<Rightarrow> bi_log list \<Rightarrow> byte list option" where
  "replay c [] = Some c"
| "replay c (Pushed b # log) = replay (b @ c) log"
| "replay c (Received b # log) = (if take (length b) c = b then replay (drop (length b) c) log else None)"

lemma read_available:
  "\<not> bi_frozen s \<Longrightarrow> \<exists>s' out. evd_buffered_input_stream_read s n (Inr k) = (s', Inr out)"
  by (simp add: read_eq base_read_def)

lemma do_read_content:
  assumes "do_read s avail = (s', ev)"
  shows "bi_content s = received ev @ bi_content s'"
proof -
  let ?s = "s\<lparr>bi_read_src := False\<rparr>"
  have c: "bi_content ?s = bi_content s" by (simp add: bi_content_def)
  show ?thesis
  proof (cases "bi_async_result s")
    case None
    with assms c show ?thesis by (auto simp: do_read_def received_def)
  next
    case (Some req)
    obtain s1 res where r: "evd_buffered_input_stream_read ?s (bi_requested_size s) avail = (s1, res)"
      by fastforce
    with assms Some read_error [of ?s "bi_requested_size s" avail s1]
      read_data [of ?s "bi_requested_size s" avail s1] c show ?thesis
      by (cases res) (auto simp: do_read_def received_def bi_content_def split: if_splits)
  qed
qed

lemma bi_step_content:
  assumes "bi_step s op = (s', out, pushed)"
  shows "pushed @ bi_content s = out @ bi_content s'"
proof (cases op)
  case (Bi_read n avail)
  with assms show ?thesis
    by (auto simp: bi_step_def split: prod.splits sum.splits dest: read_data read_error)
next
  case (Bi_unread b)
  with assms show ?thesis
    by (auto simp: bi_step_def split: prod.splits sum.splits dest: bi.unread_data bi.unread_error)
next
  case (Bi_source avail)
  with assms do_read_content show ?thesis
    by (auto simp: bi_step_def split: prod.splits if_splits)
next
  case (Bi_read_async req n)
  with assms show ?thesis
    by (auto simp: bi_step_def evd_buffered_input_stream_read_async_def bi_content_def Let_def)
next
  case Bi_close
  with assms show ?thesis
    by (auto simp: bi_step_def evd_buffered_input_stream_close_def received_def bi_content_def Let_def
        split: option.splits)
qed (use assms in \<open>auto simp: bi_step_def evd_buffered_input_stream_freeze_def bi_content_def
      evd_buffered_input_stream_thaw_def Let_def\<close>)

lemma bi_run_content: "bi_run s ops = (s', log) \<Longrightarrow> replay (bi_content s) log = Some (bi_content s')"
proof (induction ops arbitrary: s s' log)
  case Nil
  then show ?case by simp
next
  case (Cons op ops)
  obtain s1 out pushed where st: "bi_step s op = (s1, out, pushed)" by (metis prod_cases3)
  obtain s2 log2 where run: "bi_run s1 ops = (s2, log2)" by fastforce
  with Cons.prems st have "s' = s2" "log = Pushed pushed # Received out # log2" by auto
  with bi_step_content [OF st] Cons.IH [OF run] show ?case by simp
qed

text \<open>The buffer does not grow beyond its size.\<close>

lemma read_buffer:
  "evd_buffered_input_stream_read s n avail = (s', r) \<Longrightarrow>
     length (bi_buffer s') \<le> length (bi_buffer s) \<and> bi_buffer_size s' = bi_buffer_size s"
proof (cases "bi_frozen s")
  case False
  moreover assume "evd_buffered_input_stream_read s n avail = (s', r)"
  ultimately show ?thesis by (auto simp: read_eq base_read_def split: if_splits sum.splits prod.splits)
qed (simp add: evd_buffered_input_stream_read_def)

lemma bi_step_buffer:
  assumes "bi_step s op = (s', out, pushed)" "length (bi_buffer s) \<le> bi_buffer_size s"
  shows "length (bi_buffer s') \<le> bi_buffer_size s' \<and> bi_buffer_size s' = bi_buffer_size s"
proof (cases op)
  case (Bi_read n avail)
  obtain t r where "evd_buffered_input_stream_read s n avail = (t, r)" by fastforce
  with read_buffer [OF this] assms Bi_read show ?thesis by (cases r) (auto simp: bi_step_def)
next
  case (Bi_source avail)
  let ?s = "s\<lparr>bi_read_src := False\<rparr>"
  obtain t r where r: "evd_buffered_input_stream_read ?s (bi_requested_size s) avail = (t, r)" by fastforce
  with read_buffer [OF r] assms Bi_source show ?thesis
    by (auto simp: bi_step_def do_read_def Let_def split: if_splits option.splits)
qed (use assms in \<open>auto simp: bi_step_def evd_buffered_input_stream_unread_def evd_buffered_input_stream_thaw_def
    evd_buffered_input_stream_freeze_def evd_buffered_input_stream_close_def evd_buffered_input_stream_read_async_def Let_def
    split: if_splits option.splits\<close>)

lemma bi_run_buffer:
  "bi_run s ops = (s', log) \<Longrightarrow> length (bi_buffer s) \<le> bi_buffer_size s \<Longrightarrow>
     length (bi_buffer s') \<le> bi_buffer_size s' \<and> bi_buffer_size s' = bi_buffer_size s"
proof (induction ops arbitrary: s s' log)
  case (Cons op ops)
  obtain s1 out pushed where st: "bi_step s op = (s1, out, pushed)" by (metis prod_cases3)
  obtain s2 log2 where run: "bi_run s1 ops = (s2, log2)" by fastforce
  from bi_step_buffer [OF st Cons.prems(2)] Cons.IH [OF run] Cons.prems(1) st run show ?case by auto
qed simp

section \<open>Properties\<close>

text \<open>
  C35. Any sequence of reads, asynchronous reads, pushing back, failures of the base stream, freezing,
  thawing and closing works on the stream as on one sequence of bytes, at first that of the base stream:
  what is received is taken from its front, what is pushed back with success (never more than the size of
  the buffer) comes in front, and at the end the sequence is what is in the buffer and still in the base
  stream; nothing is lost or duplicated.
\<close>

theorem buffered_input_in_order:
  "case bi_run (evd_buffered_input_stream_init n base) ops of
     (s, log) \<Rightarrow> replay base log = Some (bi_content s) \<and> length (bi_buffer s) \<le> n"
proof -
  obtain s log where r: "bi_run (evd_buffered_input_stream_init n base) ops = (s, log)" by fastforce
  from bi_run_content [OF r] bi_run_buffer [OF r] r show ?thesis
    by (simp add: evd_buffered_input_stream_init_def bi_content_def)
qed

text \<open>Two bytes are read, pushed back with another one, and read again together with the next.\<close>

lemma buffered_input_demo:
  "snd (bi_run (evd_buffered_input_stream_init 64 [1, 2, 3, 4, 5]) [Bi_read 2 (Inr 9), Bi_unread [7, 1, 2], Bi_read_async 1 4, Bi_source (Inr 9)]) =
     [Pushed [], Received [1, 2], Pushed [7, 1, 2], Received [], Pushed [], Received [], Pushed [], Received [7, 1, 2, 3]]"
  by code_simp

text \<open>
  Reading and pushing back what was read restores the stream, if there is space in the
  buffer, and the next read of that many bytes gives the same bytes without asking the base stream.
\<close>

theorem buffered_input_unread_roundtrip:
  assumes "evd_buffered_input_stream_read s n avail = (s1, Inr out)"
    and "length (bi_buffer s1) + length out \<le> bi_buffer_size s1" and "\<not> bi_frozen s1"
  shows "\<exists>s2. evd_buffered_input_stream_unread s1 out = (s2, Inr (length out)) \<and>
    bi_content s2 = bi_content s \<and>
    (\<exists>s3. evd_buffered_input_stream_read s2 (length out) (Inl G_IO_ERROR_FAILED) = (s3, Inr out) \<and>
       bi_content s3 = bi_content s1)"
proof -
  let ?s2 = "if out = [] then s1 else evd_buffered_input_stream_thaw (s1\<lparr>bi_buffer := out @ bi_buffer s1\<rparr>)"
  have u: "evd_buffered_input_stream_unread s1 out = (?s2, Inr (length out))"
    using assms(2,3) by (auto simp: evd_buffered_input_stream_unread_def Let_def)
  have b: "bi_buffer ?s2 = out @ bi_buffer s1" "\<not> bi_frozen ?s2" "bi_base ?s2 = bi_base s1"
    using assms(3) by (auto simp: evd_buffered_input_stream_thaw_def Let_def)
  have "evd_buffered_input_stream_read ?s2 (length out) (Inl G_IO_ERROR_FAILED) =
      (?s2\<lparr>bi_buffer := bi_buffer s1\<rparr>, Inr out)"
    using b by (simp add: read_eq)
  moreover have "bi_content (?s2\<lparr>bi_buffer := bi_buffer s1\<rparr>) = bi_content s1"
    using b(3) by (simp add: bi_content_def)
  ultimately show ?thesis using bi.unread_after_read [OF assms(1) u] u by blast
qed

theorem buffered_input_unread_roundtrip_witness:
  "\<exists>s2. evd_buffered_input_stream_unread
      (fst (evd_buffered_input_stream_read (evd_buffered_input_stream_init 64 [1, 2, 3]) 2 (Inr 9))) [1, 2] =
      (s2, Inr 2) \<and> bi_content s2 = [1, 2, 3]"
proof -
  let ?s = "evd_buffered_input_stream_init 64 [1, 2, 3]"
  have r: "evd_buffered_input_stream_read ?s 2 (Inr 9) = (?s\<lparr>bi_base := [3]\<rparr>, Inr [1, 2])" by code_simp
  have "length (bi_buffer (?s\<lparr>bi_base := [3]\<rparr>)) + length [1 :: byte, 2] \<le> bi_buffer_size (?s\<lparr>bi_base := [3]\<rparr>)"
    "\<not> bi_frozen (?s\<lparr>bi_base := [3]\<rparr>)" "bi_content ?s = [1, 2, 3]"
    by (simp_all add: evd_buffered_input_stream_init_def bi_content_def)
  with buffered_input_unread_roundtrip [OF r] r show ?thesis by auto
qed

text \<open>
  A pending asynchronous read completes with data as soon as its source fires and there is
  some; at the end of the base stream, however, it neither completes nor is scheduled again.
\<close>

theorem buffered_input_async_completion:
  assumes "bi_async_result s = Some req" and "\<not> bi_frozen s" and "0 < bi_requested_size s"
  shows "(bi_buffer s \<noteq> [] \<or> bi_base s \<noteq> [] \<and> 0 < k \<longrightarrow>
      (\<exists>s' out. do_read s (Inr k) = (s', [Read_complete req (Inr out)]) \<and> out \<noteq> [] \<and>
         bi_content s = out @ bi_content s' \<and> bi_async_result s' = None)) \<and>
    (bi_buffer s = [] \<and> bi_base s = [] \<longrightarrow>
      (\<exists>s'. do_read s (Inr k) = (s', []) \<and> bi_async_result s' = Some req \<and> \<not> bi_read_src s'))"
proof -
  let ?s = "s\<lparr>bi_read_src := False\<rparr>"
  have fr: "\<not> bi_frozen ?s" using assms(2) by simp
  obtain s1 out where r: "evd_buffered_input_stream_read ?s (bi_requested_size s) (Inr k) = (s1, Inr out)"
    using read_available [OF fr] by blast
  have facts: "bi_buffer s \<noteq> [] \<or> bi_base s \<noteq> [] \<and> 0 < k \<Longrightarrow> out \<noteq> []"
    "bi_buffer s = [] \<and> bi_base s = [] \<Longrightarrow> out = [] \<and> bi_async_result s1 = Some req \<and> \<not> bi_read_src s1"
    using r assms by (auto simp: read_eq [OF fr] base_read_def split: if_splits)
  have d: "do_read s (Inr k) =
      (if out = [] then (s1, []) else (s1\<lparr>bi_async_result := None\<rparr>, [Read_complete req (Inr out)]))"
    using assms(1) r by (simp add: do_read_def)
  from read_data [OF r] have "bi_content s = out @ bi_content s1" by (simp add: bi_content_def)
  with d facts show ?thesis by (auto simp: bi_content_def)
qed

theorem buffered_input_async_completion_witness:
  "\<exists>s'. do_read (evd_buffered_input_stream_read_async (evd_buffered_input_stream_init 64 []) 5 10) (Inr 0) =
     (s', []) \<and> bi_async_result s' = Some 5 \<and> \<not> bi_read_src s'"
  using buffered_input_async_completion
    [of "evd_buffered_input_stream_read_async (evd_buffered_input_stream_init 64 []) 5 10" 5 0]
  by (auto simp: evd_buffered_input_stream_read_async_def evd_buffered_input_stream_init_def)

end
