(* ===== verification/Buffered_Output.thy ===== *)
theory Buffered_Output
  imports Evd_Prelude
begin

text \<open>
  The buffered output stream, \<open>evd/evd-buffered-output-stream.c\<close>. Every write to the base stream
  comes with an outcome of the environment: an error, or the number of bytes it takes. The
  asynchronous operations of GIO are exclusive: while one is pending (\<open>bo_async\<close>), and once the
  stream is closed (\<open>bo_closed\<close>), the base class refuses new ones, so that the steps of the user
  are enabled only otherwise. The log records what the user had accepted, what went to the base
  stream, and the completions.
\<close>

section \<open>State\<close>

datatype bo_tag = Tag_write_async | Tag_flush_async

record buffered_output =
  bo_buffer :: "byte list"
  bo_buffer_size :: nat
  bo_auto_grow :: bool
  bo_auto_flush :: bool
  bo_flushing :: bool
  bo_async :: "(nat \<times> bo_tag) option"
  bo_actual_size :: nat
  bo_base_flushes :: nat
  bo_closed :: bool

datatype bo_event =
    Base_write "byte list"
  | Base_flush
  | Accepted "byte list"
  | Flush_start nat
  | Async_done nat bo_tag "gio_error option"

definition DEFAULT_BUFFER_SIZE :: nat where "DEFAULT_BUFFER_SIZE = 8192"

definition evd_buffered_output_stream_init :: buffered_output where
  "evd_buffered_output_stream_init =
     \<lparr>bo_buffer = [], bo_buffer_size = DEFAULT_BUFFER_SIZE, bo_auto_grow = True,
      bo_auto_flush = True, bo_flushing = False, bo_async = None, bo_actual_size = 0,
      bo_base_flushes = 0, bo_closed = False\<rparr>"

section \<open>Operations\<close>

definition evd_buffered_output_stream_fill ::
  "buffered_output \<Rightarrow> byte list \<Rightarrow> buffered_output \<times> nat"
where
  "evd_buffered_output_stream_fill s buf =
     (let full = length (bo_buffer s) + length buf > bo_buffer_size s;
          n = (if full \<and> \<not> bo_auto_grow s then bo_buffer_size s - length (bo_buffer s) else length buf);
          s = (if full \<and> bo_auto_grow s
               then s\<lparr>bo_buffer_size := length (bo_buffer s) + length buf\<rparr> else s)
      in (s\<lparr>bo_buffer := bo_buffer s @ take n buf\<rparr>, n))"

text \<open>\<open>g_output_stream_write\<close> on the base stream: an error, or how many bytes it took.\<close>

definition evd_buffered_output_stream_real_write ::
  "gio_error + nat \<Rightarrow> byte list \<Rightarrow> gio_error + nat"
where
  "evd_buffered_output_stream_real_write os buf =
     (case os of Inl e \<Rightarrow> Inl e | Inr k \<Rightarrow> Inr (min k (length buf)))"

definition evd_buffered_output_stream_write ::
  "buffered_output \<Rightarrow> byte list \<Rightarrow> gio_error + nat \<Rightarrow> buffered_output \<times> bo_event list \<times> (gio_error + nat)"
where
  "evd_buffered_output_stream_write s buf os =
     (if length (bo_buffer s) > 0 \<or> \<not> bo_auto_flush s
      then (case evd_buffered_output_stream_fill s buf of (s', n) \<Rightarrow> (s', [], Inr n))
      else (case evd_buffered_output_stream_real_write os buf of
              Inl e \<Rightarrow>
                if e = G_IO_ERROR_WOULD_BLOCK
                then (case evd_buffered_output_stream_fill s buf of (s', n) \<Rightarrow> (s', [], Inr (0 + n)))
                else (s, [], Inl e)
            | Inr actual_size \<Rightarrow>
                if actual_size < length buf
                then (case evd_buffered_output_stream_fill s (drop actual_size buf) of
                        (s', n) \<Rightarrow> (s', [Base_write (take actual_size buf)], Inr (actual_size + n)))
                else (s, [Base_write (take actual_size buf)], Inr actual_size)))"

definition evd_buffered_output_stream_write_async ::
  "buffered_output \<Rightarrow> nat \<Rightarrow> byte list \<Rightarrow> gio_error + nat \<Rightarrow>
     buffered_output \<times> bo_event list \<times> (gio_error + nat)"
where
  "evd_buffered_output_stream_write_async s req buf os =
     (case evd_buffered_output_stream_write s buf os of
        (s', ev, Inl e) \<Rightarrow> (s', ev @ [Async_done req Tag_write_async (Some e)], Inl e)
      | (s', ev, Inr n) \<Rightarrow>
          if n = length buf then (s', ev @ [Async_done req Tag_write_async None], Inr n)
          else (s'\<lparr>bo_async := Some (req, Tag_write_async)\<rparr>, ev, Inr n))"

definition evd_buffered_output_stream_flush_base_stream ::
  "buffered_output \<Rightarrow> buffered_output \<times> bo_event list"
where
  "evd_buffered_output_stream_flush_base_stream s =
     (s\<lparr>bo_base_flushes := Suc (bo_base_flushes s)\<rparr>, [Base_flush])"

definition evd_buffered_output_stream_flush ::
  "buffered_output \<Rightarrow> gio_error + nat \<Rightarrow> buffered_output \<times> bo_event list \<times> gio_error option"
where
  "evd_buffered_output_stream_flush s os =
     (if length (bo_buffer s) = 0 then (s, [], None)
      else (case evd_buffered_output_stream_real_write os (bo_buffer s) of
              Inl e \<Rightarrow>
                (case bo_async s of
                   None \<Rightarrow> (s, [], Some e)
                 | Some (req, tag) \<Rightarrow> (s\<lparr>bo_async := None\<rparr>, [Async_done req tag (Some e)], Some e))
            | Inr actual_size \<Rightarrow>
                if actual_size > 0
                then let ev = [Base_write (take actual_size (bo_buffer s))];
                         s = s\<lparr>bo_buffer := drop actual_size (bo_buffer s),
                               bo_actual_size := bo_actual_size s + actual_size\<rparr>
                     in (case bo_async s of
                           Some (req, Tag_flush_async) \<Rightarrow>
                             if length (bo_buffer s) = 0
                             then (case evd_buffered_output_stream_flush_base_stream
                                          (s\<lparr>bo_flushing := False\<rparr>) of
                                     (s', ev') \<Rightarrow> (s', ev @ ev', None))
                             else (s, ev, None)
                         | _ \<Rightarrow> (s, ev, None))
                else (s, [], None)))"

definition evd_buffered_output_stream_flush_async ::
  "buffered_output \<Rightarrow> nat \<Rightarrow> gio_error + nat \<Rightarrow> buffered_output \<times> bo_event list"
where
  "evd_buffered_output_stream_flush_async s req os =
     (case evd_buffered_output_stream_flush s os of
        (s, ev, Some e) \<Rightarrow> (s, ev @ [Async_done req Tag_flush_async (Some e)])
      | (s, ev, None) \<Rightarrow>
          let s = s\<lparr>bo_async := Some (req, Tag_flush_async)\<rparr>
          in if length (bo_buffer s) > 0 then (s\<lparr>bo_flushing := True\<rparr>, ev)
             else (case evd_buffered_output_stream_flush_base_stream s of (s', ev') \<Rightarrow> (s', ev @ ev')))"

definition evd_buffered_output_stream_on_base_stream_flushed ::
  "buffered_output \<Rightarrow> gio_error option \<Rightarrow> buffered_output \<times> bo_event list"
where
  "evd_buffered_output_stream_on_base_stream_flushed s err =
     (let s = s\<lparr>bo_base_flushes := bo_base_flushes s - 1\<rparr>
      in case bo_async s of
           None \<Rightarrow> (s, [])
         | Some (req, tag) \<Rightarrow> (s\<lparr>bo_async := None\<rparr>, [Async_done req tag err]))"

definition evd_buffered_output_stream_close :: "buffered_output \<Rightarrow> buffered_output \<times> bo_event list" where
  "evd_buffered_output_stream_close s =
     (let s = s\<lparr>bo_closed := True\<rparr>
      in case bo_async s of
           None \<Rightarrow> (s, [])
         | Some (req, tag) \<Rightarrow> (s\<lparr>bo_async := None\<rparr>, [Async_done req tag (Some G_IO_ERROR_CLOSED)]))"

definition evd_buffered_output_stream_notify_write ::
  "buffered_output \<Rightarrow> gio_error + nat \<Rightarrow> buffered_output \<times> bo_event list"
where
  "evd_buffered_output_stream_notify_write s os =
     (if bo_flushing s \<or> bo_auto_flush s \<and> length (bo_buffer s) > 0
      then (case evd_buffered_output_stream_flush s os of (s', ev, err) \<Rightarrow> (s', ev))
      else (s, []))"

definition evd_buffered_output_stream_set_auto_flush ::
  "buffered_output \<Rightarrow> bool \<Rightarrow> gio_error + nat \<Rightarrow> buffered_output \<times> bo_event list"
where
  "evd_buffered_output_stream_set_auto_flush s auto_flush os =
     (let s = s\<lparr>bo_auto_flush := auto_flush\<rparr>
      in if bo_auto_flush s then evd_buffered_output_stream_notify_write s os else (s, []))"

definition evd_buffered_output_stream_get_auto_flush :: "buffered_output \<Rightarrow> bool" where
  "evd_buffered_output_stream_get_auto_flush s = bo_auto_flush s"

lemmas bo_eval [evd_eval] = evd_buffered_output_stream_init_def DEFAULT_BUFFER_SIZE_def
  evd_buffered_output_stream_fill_def evd_buffered_output_stream_real_write_def
  evd_buffered_output_stream_write_def evd_buffered_output_stream_flush_base_stream_def
  evd_buffered_output_stream_flush_def evd_buffered_output_stream_flush_async_def
  evd_buffered_output_stream_on_base_stream_flushed_def evd_buffered_output_stream_notify_write_def
  Let_def

section \<open>All operations\<close>

datatype bo_op =
    Bo_write "byte list" "gio_error + nat"
  | Bo_write_async nat "byte list" "gio_error + nat"
  | Bo_flush "gio_error + nat"
  | Bo_flush_async nat "gio_error + nat"
  | Bo_notify_write "gio_error + nat"
  | Bo_set_auto_flush bool "gio_error + nat"
  | Bo_base_flushed "gio_error option"
  | Bo_close

definition accepted :: "byte list \<Rightarrow> gio_error + nat \<Rightarrow> bo_event list" where
  "accepted buf r = (case r of Inl e \<Rightarrow> [] | Inr n \<Rightarrow> [Accepted (take n buf)])"

definition bo_step :: "buffered_output \<Rightarrow> bo_op \<Rightarrow> buffered_output \<times> bo_event list" where
  "bo_step s op =
     (let idle = (bo_async s = None \<and> \<not> bo_closed s) in
      case op of
        Bo_write buf os \<Rightarrow>
          if idle then (case evd_buffered_output_stream_write s buf os of
                          (s', ev, r) \<Rightarrow> (s', accepted buf r @ ev))
          else (s, [])
      | Bo_write_async req buf os \<Rightarrow>
          if idle then (case evd_buffered_output_stream_write_async s req buf os of
                          (s', ev, r) \<Rightarrow> (s', accepted buf r @ ev))
          else (s, [])
      | Bo_flush os \<Rightarrow>
          if idle then (case evd_buffered_output_stream_flush s os of (s', ev, err) \<Rightarrow> (s', ev))
          else (s, [])
      | Bo_flush_async req os \<Rightarrow>
          if idle then (case evd_buffered_output_stream_flush_async s req os of
                          (s', ev) \<Rightarrow> (s', Flush_start req # ev))
          else (s, [])
      | Bo_notify_write os \<Rightarrow> evd_buffered_output_stream_notify_write s os
      | Bo_set_auto_flush b os \<Rightarrow> evd_buffered_output_stream_set_auto_flush s b os
      | Bo_base_flushed err \<Rightarrow>
          if 0 < bo_base_flushes s then evd_buffered_output_stream_on_base_stream_flushed s err
          else (s, [])
      | Bo_close \<Rightarrow> if bo_closed s then (s, []) else evd_buffered_output_stream_close s)"

definition bo_log_step ::
  "buffered_output \<times> bo_event list \<Rightarrow> bo_op \<Rightarrow> (buffered_output \<times> bo_event list) option"
where
  "bo_log_step s op = (case bo_step (fst s) op of (s', ev) \<Rightarrow> Some (s', snd s @ ev))"


section \<open>What the log says\<close>

fun base_bytes :: "bo_event list \<Rightarrow> byte list" where
  "base_bytes [] = []"
| "base_bytes (Base_write bs # log) = bs @ base_bytes log"
| "base_bytes (ev # log) = base_bytes log"

fun accepted_bytes :: "bo_event list \<Rightarrow> byte list" where
  "accepted_bytes [] = []"
| "accepted_bytes (Accepted bs # log) = bs @ accepted_bytes log"
| "accepted_bytes (ev # log) = accepted_bytes log"

lemma base_bytes_append [simp]: "base_bytes (xs @ ys) = base_bytes xs @ base_bytes ys"
  by (induction xs rule: base_bytes.induct) simp_all

lemma accepted_bytes_append [simp]: "accepted_bytes (xs @ ys) = accepted_bytes xs @ accepted_bytes ys"
  by (induction xs rule: accepted_bytes.induct) simp_all

text \<open>
  \<open>flushed log\<close>: at some flush of the base stream in the log, all the bytes accepted in the whole
  log had been written. \<open>flushes_ok log\<close>: so it is at every successful completion of a flush.
\<close>

definition flushed :: "bo_event list \<Rightarrow> bool" where
  "flushed log \<longleftrightarrow> (\<exists>a b. log = a @ Base_flush # b \<and> base_bytes a = accepted_bytes log)"

definition flushes_ok :: "bo_event list \<Rightarrow> bool" where
  "flushes_ok log \<longleftrightarrow>
     (\<forall>pre req post. log = pre @ Async_done req Tag_flush_async None # post \<longrightarrow> flushed pre)"

lemma flushes_ok_append:
  assumes "flushes_ok log" and "\<forall>req. Async_done req Tag_flush_async None \<notin> set ev"
  shows "flushes_ok (log @ ev)"
  unfolding flushes_ok_def
proof (intro allI impI)
  fix pre req post
  assume "log @ ev = pre @ Async_done req Tag_flush_async None # post"
  then obtain us where "log = pre @ us \<and> us @ ev = Async_done req Tag_flush_async None # post \<or>
      log @ us = pre \<and> ev = us @ Async_done req Tag_flush_async None # post"
    by (auto simp: append_eq_append_conv2)
  then show "flushed pre"
    using assms by (cases us) (auto simp: flushes_ok_def)
qed

lemma flushes_ok_done:
  "flushes_ok log \<Longrightarrow> flushed log \<Longrightarrow> flushes_ok (log @ [Async_done req Tag_flush_async err])"
  unfolding flushes_ok_def by (auto simp: append_eq_append_conv2 append_eq_Cons_conv Cons_eq_append_conv)

section \<open>The invariant\<close>

definition bo_inv :: "buffered_output \<times> bo_event list \<Rightarrow> bool" where
  "bo_inv sl \<longleftrightarrow>
     (case sl of (s, log) \<Rightarrow>
        accepted_bytes log = base_bytes log @ bo_buffer s \<and> bo_auto_grow s \<and>
        length (bo_buffer s) \<le> bo_buffer_size s \<and>
        (\<forall>req tag. bo_async s = Some (req, tag) \<longrightarrow> tag = Tag_flush_async \<and> \<not> bo_closed s) \<and>
        bo_base_flushes s \<le> 1 \<and>
        (0 < bo_base_flushes s \<and> \<not> bo_closed s \<longrightarrow>
           bo_async s \<noteq> None \<and> bo_buffer s = [] \<and> flushed log) \<and>
        flushes_ok log)"


text \<open>While the buffer may grow, a write that does not fail takes everything.\<close>

definition grown :: "buffered_output \<Rightarrow> byte list \<Rightarrow> buffered_output" where
  "grown s buf = s\<lparr>bo_buffer := bo_buffer s @ buf,
     bo_buffer_size := max (bo_buffer_size s) (length (bo_buffer s) + length buf)\<rparr>"

lemma fill_grow: "bo_auto_grow s \<Longrightarrow> evd_buffered_output_stream_fill s buf = (grown s buf, length buf)"
  by (simp add: evd_buffered_output_stream_fill_def grown_def Let_def)

lemma write_grow:
  assumes "bo_auto_grow s"
  shows "evd_buffered_output_stream_write s buf os =
    (if bo_buffer s \<noteq> [] \<or> \<not> bo_auto_flush s then (grown s buf, [], Inr (length buf))
     else case os of
       Inl e \<Rightarrow> if e = G_IO_ERROR_WOULD_BLOCK then (grown s buf, [], Inr (length buf)) else (s, [], Inl e)
     | Inr k \<Rightarrow>
         if k < length buf
         then (grown s (drop k buf), [Base_write (take k buf)], Inr (length buf))
         else (s, [Base_write buf], Inr (length buf)))"
  using assms
  by (simp add: evd_buffered_output_stream_write_def fill_grow min_def
      evd_buffered_output_stream_real_write_def split: sum.split)

lemma flush_empty: "bo_buffer s = [] \<Longrightarrow> evd_buffered_output_stream_flush s os = (s, [], None)"
  by (simp add: evd_buffered_output_stream_flush_def)

text \<open>A flush moves bytes from the front of the buffer to the base stream, or fails.\<close>

lemma flush_idle:
  assumes "bo_async s = None" and "bo_buffer s \<noteq> []"
  shows "evd_buffered_output_stream_flush s os =
    (case os of
       Inl e \<Rightarrow> (s, [], Some e)
     | Inr k \<Rightarrow>
         if k = 0 then (s, [], None)
         else (s\<lparr>bo_buffer := drop k (bo_buffer s),
                 bo_actual_size := bo_actual_size s + min k (length (bo_buffer s))\<rparr>,
               [Base_write (take k (bo_buffer s))], None))"
  using assms
  by (simp add: evd_buffered_output_stream_flush_def evd_buffered_output_stream_real_write_def
      Let_def min_def split: sum.split)

text \<open>While a flush is pending, it also completes it with the error or flushes the base stream.\<close>

lemma flush_pending:
  assumes "bo_async s = Some (req, Tag_flush_async)" and "bo_buffer s \<noteq> []"
  shows "evd_buffered_output_stream_flush s os =
    (case os of
       Inl e \<Rightarrow> (s\<lparr>bo_async := None\<rparr>, [Async_done req Tag_flush_async (Some e)], Some e)
     | Inr k \<Rightarrow>
         if k = 0 then (s, [], None)
         else if k < length (bo_buffer s)
         then (s\<lparr>bo_buffer := drop k (bo_buffer s), bo_actual_size := bo_actual_size s + k\<rparr>,
               [Base_write (take k (bo_buffer s))], None)
         else (s\<lparr>bo_buffer := [], bo_actual_size := bo_actual_size s + length (bo_buffer s),
                 bo_flushing := False, bo_base_flushes := Suc (bo_base_flushes s)\<rparr>,
               [Base_write (bo_buffer s), Base_flush], None))"
  using assms
  by (auto simp: evd_buffered_output_stream_flush_def evd_buffered_output_stream_real_write_def
      evd_buffered_output_stream_flush_base_stream_def Let_def min_def split: sum.splits)

text \<open>Each operation keeps the invariant.\<close>

lemma bo_inv_write:
  assumes "bo_inv (s, log)" and "bo_async s = None" and "\<not> bo_closed s"
    and "evd_buffered_output_stream_write s buf os = (s', ev, r)"
  shows "bo_inv (s', log @ accepted buf r @ ev) \<and> bo_async s' = None \<and>
    (r = Inr (length buf) \<or> (\<exists>e. r = Inl e))"
proof -
  from assms(1) have "bo_auto_grow s" by (simp add: bo_inv_def)
  from write_grow [OF this, of buf os] assms show ?thesis
    by (auto simp: bo_inv_def accepted_def grown_def flushes_ok_append split: if_splits sum.splits)
qed

lemma bo_inv_quiet:
  assumes "bo_inv (s, log)" and "0 < bo_base_flushes s \<and> \<not> bo_closed s \<longrightarrow> flushed (log @ ev)"
    and "accepted_bytes ev = []" and "base_bytes ev = []"
    and "\<forall>req. Async_done req Tag_flush_async None \<notin> set ev"
  shows "bo_inv (s, log @ ev)"
  using assms by (auto simp: bo_inv_def intro: flushes_ok_append)

lemma bo_inv_write_async:
  assumes "bo_inv (s, log)" and "bo_async s = None" and "\<not> bo_closed s"
    and "evd_buffered_output_stream_write_async s req buf os = (s', ev, r)"
  shows "bo_inv (s', log @ accepted buf r @ ev)"
proof -
  obtain s1 ev1 r1 where w: "evd_buffered_output_stream_write s buf os = (s1, ev1, r1)"
    by (metis prod_cases3)
  from bo_inv_write [OF assms(1-3) w] obtain err where
    e: "s' = s1" "r = r1" "ev = ev1 @ [Async_done req Tag_write_async err]"
    using assms(4) w by (auto simp: evd_buffered_output_stream_write_async_def)
  from bo_inv_write [OF assms(1-3) w] e bo_inv_quiet
      [of s1 "log @ accepted buf r1 @ ev1" "[Async_done req Tag_write_async err]"]
  show ?thesis by (auto simp: bo_inv_def)
qed

lemma bo_inv_flush_idle:
  assumes "bo_inv (s, log)" and "bo_async s = None"
    and "evd_buffered_output_stream_flush s os = (s', ev, err)"
  shows "bo_inv (s', log @ ev) \<and> bo_async s' = None \<and> bo_closed s' = bo_closed s"
proof (cases "bo_buffer s = []")
  case True
  with assms show ?thesis by (simp add: flush_empty)
next
  case False
  from assms(1,2) have b: "bo_closed s \<or> bo_base_flushes s = 0" by (auto simp: bo_inv_def)
  from False assms(1) b flush_idle [OF assms(2) False, of os] assms(2,3) show ?thesis
    by (auto simp: bo_inv_def flushes_ok_append split: sum.splits if_splits)
qed

lemma bo_inv_flush:
  assumes "bo_inv (s, log)" and "evd_buffered_output_stream_flush s os = (s', ev, err)"
  shows "bo_inv (s', log @ ev)"
proof (cases "bo_async s = None \<or> bo_buffer s = []")
  case True
  with bo_inv_flush_idle [OF assms(1) _ assms(2)] assms show ?thesis by (auto simp: flush_empty)
next
  case False
  then obtain req where a: "bo_async s = Some (req, Tag_flush_async)" and b: "bo_buffer s \<noteq> []"
    and c: "\<not> bo_closed s" and z: "bo_base_flushes s = 0"
    using assms(1) by (auto simp: bo_inv_def)
  have "flushed (log @ [Base_write (bo_buffer s), Base_flush])"
    unfolding flushed_def using assms(1)
    by (intro exI [of _ "log @ [Base_write (bo_buffer s)]"] exI [of _ "[]"]) (simp add: bo_inv_def)
  with assms(1) a b c z flush_pending [OF a b, of os] assms(2) show ?thesis
    by (auto simp: bo_inv_def flushes_ok_append split: sum.splits if_splits)
qed

lemma bo_inv_notify_write:
  assumes "bo_inv (s, log)" and "evd_buffered_output_stream_notify_write s os = (s', ev)"
  shows "bo_inv (s', log @ ev)"
  using assms bo_inv_flush [OF assms(1), of os]
  by (auto simp: evd_buffered_output_stream_notify_write_def split: if_splits prod.splits)

lemma bo_inv_flush_async:
  assumes "bo_inv (s, log)" and "bo_async s = None" and "\<not> bo_closed s"
    and "evd_buffered_output_stream_flush_async s req os = (s', ev)"
  shows "bo_inv (s', log @ Flush_start req # ev)"
proof -
  obtain s1 ev1 err where f: "evd_buffered_output_stream_flush s os = (s1, ev1, err)"
    by (metis prod_cases3)
  let ?log = "log @ [Flush_start req]"
  from assms(1-3) have "bo_inv (s, ?log)" by (auto simp: bo_inv_def flushes_ok_append)
  from bo_inv_flush_idle [OF this assms(2) f] assms(3)
  have i: "bo_inv (s1, ?log @ ev1)" "bo_async s1 = None" "\<not> bo_closed s1" by simp_all
  have "flushed (?log @ ev1 @ [Base_flush])" if "bo_buffer s1 = []"
    unfolding flushed_def using i(1) that
    by (intro exI [of _ "?log @ ev1"] exI [of _ "[]"]) (simp add: bo_inv_def)
  with i assms(4) f flushes_ok_append [of "?log @ ev1" "[Base_flush]"] bo_inv_quiet [OF i(1), of "[Async_done req Tag_flush_async (Some (the err))]"]
  show ?thesis
    by (auto simp: evd_buffered_output_stream_flush_async_def bo_inv_def flushes_ok_append Let_def
        evd_buffered_output_stream_flush_base_stream_def split: option.splits if_splits)
qed

lemma bo_inv_base_flushed:
  assumes "bo_inv (s, log)" and "0 < bo_base_flushes s"
    and "evd_buffered_output_stream_on_base_stream_flushed s err = (s', ev)"
  shows "bo_inv (s', log @ ev)"
  using assms
  by (auto simp: evd_buffered_output_stream_on_base_stream_flushed_def bo_inv_def Let_def
      split: option.splits intro: flushes_ok_done flushes_ok_append)

lemma bo_inv_close:
  assumes "bo_inv (s, log)" and "evd_buffered_output_stream_close s = (s', ev)"
  shows "bo_inv (s', log @ ev)"
  using assms
  by (auto simp: evd_buffered_output_stream_close_def bo_inv_def Let_def
      split: option.splits intro: flushes_ok_append)

lemma bo_inv_step:
  assumes "bo_inv (s, log)" and "bo_step s op = (s', ev)"
  shows "bo_inv (s', log @ ev)"
proof (cases op)
  case (Bo_set_auto_flush b os)
  have "bo_inv (s\<lparr>bo_auto_flush := b\<rparr>, log)" using assms(1) by (simp add: bo_inv_def)
  with Bo_set_auto_flush assms show ?thesis
    by (auto simp: bo_step_def evd_buffered_output_stream_set_auto_flush_def Let_def
        split: if_splits intro: bo_inv_notify_write)
qed (use assms in \<open>auto simp: bo_step_def Let_def split: if_splits prod.splits
      dest: bo_inv_write bo_inv_write_async bo_inv_flush bo_inv_flush_async bo_inv_base_flushed
        bo_inv_close bo_inv_notify_write\<close>)

interpretation bo: invariant_machine bo_log_step bo_inv "\<lambda>_. True"
proof
  fix s op
  assume "bo_inv s"
  then show "\<exists>s'. bo_log_step s op = Some s' \<and> bo_inv s'"
    by (cases s) (auto simp: bo_log_step_def split: prod.split intro: bo_inv_step)
qed

lemma bo_inv_init: "bo_inv (evd_buffered_output_stream_init, [])"
  by (simp add: bo_inv_def evd_buffered_output_stream_init_def flushes_ok_def)

lemma bo_run: "\<exists>s log. run_ops bo_log_step (evd_buffered_output_stream_init, []) ops = Some (s, log) \<and>
    bo_inv (s, log)"
  using bo.run_ops_defined [OF bo_inv_init, of ops] by (auto simp: list_all_iff)

section \<open>Properties\<close>

text \<open>
  C33. After any sequence of writes, flushes, notifications, completions and closing, with any
  outcomes of the base stream, the bytes the user had accepted are the bytes written to the base
  stream followed by the bytes still in the buffer: nothing is lost, duplicated or reordered.
\<close>

theorem buffered_output_in_order:
  "\<exists>s log. run_ops bo_log_step (evd_buffered_output_stream_init, []) ops = Some (s, log) \<and>
     accepted_bytes log = base_bytes log @ bo_buffer s"
  using bo_run [of ops] by (auto simp: bo_inv_def)

text \<open>
  C34. Whenever an asynchronous flush (\<open>evd_buffered_output_stream_flush_async\<close>) completes with success, the base
  stream was flushed before, at a time when every byte accepted until the completion had been written to
  it. A synchronous flush promises less (lemma \<open>buffered_output_sync_flush_partial\<close>).
\<close>

theorem buffered_output_flush_complete:
  assumes "run_ops bo_log_step (evd_buffered_output_stream_init, []) ops =
      Some (s, pre @ Async_done req Tag_flush_async None # post)"
  shows "\<exists>a b. pre = a @ Base_flush # b \<and> base_bytes a = accepted_bytes pre"
proof -
  from bo_run [of ops] assms
  have "flushes_ok (pre @ Async_done req Tag_flush_async None # post)" by (auto simp: bo_inv_def)
  then show ?thesis by (auto simp: flushes_ok_def flushed_def)
qed

theorem buffered_output_flush_complete_witness:
  "\<exists>a b. [Accepted [1, 2, 3], Base_write [1], Flush_start 7, Base_write [2], Base_write [3], Base_flush] =
     a @ Base_flush # b \<and> base_bytes a = [1, 2, 3]"
proof -
  have "run_ops bo_log_step (evd_buffered_output_stream_init, [])
      [Bo_write [1, 2, 3] (Inr 1), Bo_flush_async 7 (Inr 1), Bo_notify_write (Inr 5), Bo_base_flushed None] =
    Some (evd_buffered_output_stream_init\<lparr>bo_actual_size := 2\<rparr>,
      [Accepted [1, 2, 3], Base_write [1], Flush_start 7, Base_write [2], Base_write [3], Base_flush] @
      Async_done 7 Tag_flush_async None # [])"
    by (simp add: bo_log_step_def bo_step_def accepted_def evd_eval)
  from buffered_output_flush_complete [OF this] show ?thesis by simp
qed

text \<open>
  A synchronous flush succeeds although the base stream has taken only some of the bytes, or none, and
  does not flush the base stream.
\<close>

lemma buffered_output_sync_flush_partial:
  assumes "bo_async s = None" and "k < length (bo_buffer s)"
  shows "\<exists>s' ev. evd_buffered_output_stream_flush s (Inr k) = (s', ev, None) \<and> bo_buffer s' \<noteq> [] \<and> Base_flush \<notin> set ev"
  using assms by (auto simp: evd_buffered_output_stream_flush_def evd_buffered_output_stream_real_write_def Let_def)

text \<open>
  If the base stream would block when a pending asynchronous flush is continued, the flush is
  completed with the error \<open>WOULD_BLOCK\<close>, although the bytes stay in the buffer and the stream
  still counts as flushing.
\<close>

theorem buffered_output_would_block_flush:
  assumes "bo_async s = Some (req, Tag_flush_async)" and "bo_buffer s \<noteq> []" and "bo_flushing s"
  shows "evd_buffered_output_stream_notify_write s (Inl G_IO_ERROR_WOULD_BLOCK) =
    (s\<lparr>bo_async := None\<rparr>, [Async_done req Tag_flush_async (Some G_IO_ERROR_WOULD_BLOCK)])"
  using assms by (simp add: evd_buffered_output_stream_notify_write_def flush_pending)

theorem buffered_output_would_block_flush_witness:
  "snd (evd_buffered_output_stream_notify_write
     (fst (evd_buffered_output_stream_flush_async
        (evd_buffered_output_stream_init\<lparr>bo_buffer := [1, 2]\<rparr>) 7 (Inr 1))) (Inl G_IO_ERROR_WOULD_BLOCK)) =
     [Async_done 7 Tag_flush_async (Some G_IO_ERROR_WOULD_BLOCK)]"
proof -
  have "fst (evd_buffered_output_stream_flush_async
        (evd_buffered_output_stream_init\<lparr>bo_buffer := [1, 2]\<rparr>) 7 (Inr 1)) =
     evd_buffered_output_stream_init\<lparr>bo_buffer := [2], bo_actual_size := 1,
       bo_async := Some (7, Tag_flush_async), bo_flushing := True\<rparr>"
    by (simp add: bo_log_step_def bo_step_def accepted_def evd_eval)
  then show ?thesis by (simp add: buffered_output_would_block_flush)
qed

end
