(* ===== verification/Promise.thy ===== *)
theory Promise
  imports Evd_Prelude
begin

text \<open>
  Deferred operations and promises, \<open>evd/evd-promise.c\<close>: a deferred object, its promise, the
  listeners of the promise and the idle sources of the main loop that concern them. Objects have
  their reference counts and may be freed; what a listener does in its callback is a parameter of
  the model (\<open>acts\<close>), so that callbacks may register listeners or drop references while the
  notification is running. The value \<^term>\<open>None\<close> is an access to a freed object or a closure
  freed twice. The user calls operations on live objects only, and gives up only references that
  it has.
\<close>

section \<open>State\<close>

record PromiseClosure =
  cl_id :: nat
  cl_callback :: nat
  cl_user_data :: nat

record EvdPromise =
  p_ref_count :: nat
  p_completed :: bool
  p_src_obj :: "nat option"
  p_tag :: nat
  p_cancellable :: "nat option"
  p_user_data :: nat
  p_res_pointer :: "nat option"
  p_res_pointer_free_func :: bool
  p_res_size :: int
  p_res_boolean :: bool
  p_res_error :: "gio_error option"
  p_resolve_funcs :: bool
  p_listeners :: "PromiseClosure list"

record EvdDeferred =
  d_ref_count :: nat
  d_completed :: bool
  d_resolve_funcs :: bool

datatype idle_source = Deferred_complete_in_idle | Call_listener_in_idle PromiseClosure

text \<open>
  What can be observed: a listener registered; a callback called, with what
  \<open>g_async_result_get_user_data\<close> gives in it; a result pointer freed; a cancellable cancelled.
\<close>

datatype promise_event =
    Registered PromiseClosure
  | Called PromiseClosure nat
  | Pointer_freed nat
  | Cancelled nat

record promise_world =
  w_promise :: "EvdPromise option"
  w_deferred :: "EvdDeferred option"
  w_user_refs :: nat
  w_src_refs :: int
  w_live :: "nat set"
  w_next :: nat
  w_idle :: "idle_source list"
  w_log :: "promise_event list"

section \<open>The promise\<close>

definition evd_promise_init :: EvdPromise where
  "evd_promise_init =
     \<lparr>p_ref_count = 1, p_completed = False, p_src_obj = None, p_tag = 0, p_cancellable = None,
      p_user_data = 0, p_res_pointer = None, p_res_pointer_free_func = False, p_res_size = 0,
      p_res_boolean = False, p_res_error = None, p_resolve_funcs = True, p_listeners = []\<rparr>"

definition evd_promise_new :: "nat option \<Rightarrow> nat option \<Rightarrow> nat \<Rightarrow> EvdPromise \<times> int" where
  "evd_promise_new source_object cancellable tag =
     (evd_promise_init\<lparr>p_src_obj := source_object, p_cancellable := cancellable, p_tag := tag\<rparr>,
      case source_object of None \<Rightarrow> 0 | Some a \<Rightarrow> 1)"

definition async_result_get_user_data :: "EvdPromise \<Rightarrow> nat" where
  "async_result_get_user_data p = p_user_data p"

definition async_result_get_source_object :: "promise_world \<Rightarrow> EvdPromise \<Rightarrow> promise_world \<times> nat option" where
  "async_result_get_source_object w p =
     (case p_src_obj p of
        Some a \<Rightarrow> (w\<lparr>w_src_refs := w_src_refs w + 1\<rparr>, Some a)
      | None \<Rightarrow> (w, None))"

definition async_result_is_tagged :: "EvdPromise \<Rightarrow> nat \<Rightarrow> bool" where
  "async_result_is_tagged p source_tag \<longleftrightarrow> p_tag p = source_tag"

definition steal_resolve_funcs :: "EvdPromise \<Rightarrow> EvdPromise \<times> bool" where
  "steal_resolve_funcs p = (p\<lparr>p_resolve_funcs := False\<rparr>, p_resolve_funcs p)"

definition log_event :: "promise_event \<Rightarrow> promise_world \<Rightarrow> promise_world" where
  "log_event e w = w\<lparr>w_log := w_log w @ [e]\<rparr>"

text \<open>
  Disposal runs while the last reference is being dropped. It frees the result pointer, then the
  closures in the list of listeners (undefined if one of them was freed before; each of them that
  is alive has a reference of its own to the promise, so that the count would not be down to one),
  then the reference to the source object.
\<close>

fun dispose_listeners :: "PromiseClosure list \<Rightarrow> promise_world \<Rightarrow> promise_world option" where
  "dispose_listeners [] w = Some w"
| "dispose_listeners (c # cs) w =
     (if cl_id c \<notin> w_live w then None
      else case w_promise w of
             None \<Rightarrow> None
           | Some p \<Rightarrow>
               if p_ref_count p \<le> 1 then None
               else dispose_listeners cs
                      (w\<lparr>w_live := w_live w - {cl_id c},
                         w_promise := Some (p\<lparr>p_ref_count := p_ref_count p - 1\<rparr>)\<rparr>))"

definition evd_promise_dispose :: "EvdPromise \<Rightarrow> promise_world \<Rightarrow> promise_world option" where
  "evd_promise_dispose p w =
     (let w = (if p_res_pointer p \<noteq> None \<and> p_res_pointer_free_func p
               then log_event (Pointer_freed (the (p_res_pointer p))) w else w)
      in do {
        w \<leftarrow> dispose_listeners (p_listeners p) w;
        Some (if p_src_obj p \<noteq> None then w\<lparr>w_src_refs := w_src_refs w - 1\<rparr> else w)
      })"

text \<open>\<open>evd_promise_finalize\<close> releases the memory of the promise.\<close>

definition evd_promise_finalize :: "promise_world \<Rightarrow> promise_world" where
  "evd_promise_finalize w = w\<lparr>w_promise := None\<rparr>"

definition promise_unref :: "promise_world \<Rightarrow> promise_world option" where
  "promise_unref w =
     (case w_promise w of
        None \<Rightarrow> None
      | Some p \<Rightarrow>
          if p_ref_count p > 1
          then Some (w\<lparr>w_promise := Some (p\<lparr>p_ref_count := p_ref_count p - 1\<rparr>)\<rparr>)
          else map_option evd_promise_finalize (evd_promise_dispose p w))"

definition free_promise_closure :: "PromiseClosure \<Rightarrow> promise_world \<Rightarrow> promise_world option" where
  "free_promise_closure c w =
     (if cl_id c \<notin> w_live w then None
      else map_option (\<lambda>w. w\<lparr>w_live := w_live w - {cl_id c}\<rparr>) (promise_unref w))"

definition evd_promise_then :: "nat \<Rightarrow> nat \<Rightarrow> promise_world \<Rightarrow> promise_world option" where
  "evd_promise_then callback user_data w =
     (case w_promise w of
        None \<Rightarrow> None
      | Some p \<Rightarrow>
          let c = \<lparr>cl_id = w_next w, cl_callback = callback, cl_user_data = user_data\<rparr>;
              p = p\<lparr>p_ref_count := p_ref_count p + 1, p_user_data := user_data\<rparr>;
              w = log_event (Registered c) (w\<lparr>w_next := w_next w + 1, w_live := insert (cl_id c) (w_live w)\<rparr>)
          in Some (if p_completed p
                   then w\<lparr>w_promise := Some p, w_idle := w_idle w @ [Call_listener_in_idle c]\<rparr>
                   else w\<lparr>w_promise := Some (p\<lparr>p_listeners := p_listeners p @ [c]\<rparr>)\<rparr>))"

definition evd_promise_get_result_pointer :: "EvdPromise \<Rightarrow> nat option" where
  "evd_promise_get_result_pointer p = p_res_pointer p"

definition evd_promise_get_result_size :: "EvdPromise \<Rightarrow> int" where
  "evd_promise_get_result_size p = p_res_size p"

definition evd_promise_get_result_boolean :: "EvdPromise \<Rightarrow> bool" where
  "evd_promise_get_result_boolean p = p_res_boolean p"

definition evd_promise_propagate_error :: "EvdPromise \<Rightarrow> gio_error option" where
  "evd_promise_propagate_error p = p_res_error p"

definition evd_promise_get_cancellable :: "EvdPromise \<Rightarrow> nat option" where
  "evd_promise_get_cancellable p = p_cancellable p"

definition evd_promise_cancel :: "promise_world \<Rightarrow> promise_world option" where
  "evd_promise_cancel w =
     (case w_promise w of
        None \<Rightarrow> None
      | Some p \<Rightarrow>
          (case p_cancellable p of None \<Rightarrow> Some w | Some c \<Rightarrow> Some (log_event (Cancelled c) w)))"

section \<open>Setting the result\<close>

definition resolve_pointer_real :: "nat option \<Rightarrow> bool \<Rightarrow> EvdPromise \<Rightarrow> EvdPromise" where
  "resolve_pointer_real data data_free_func p =
     (if p_completed p then p
      else p\<lparr>p_res_pointer := data, p_res_pointer_free_func := data_free_func\<rparr>)"

definition resolve_size_real :: "int \<Rightarrow> EvdPromise \<Rightarrow> EvdPromise" where
  "resolve_size_real n p = (if p_completed p then p else p\<lparr>p_res_size := n\<rparr>)"

definition resolve_boolean_real :: "bool \<Rightarrow> EvdPromise \<Rightarrow> EvdPromise" where
  "resolve_boolean_real b p = (if p_completed p then p else p\<lparr>p_res_boolean := b\<rparr>)"

definition reject_real :: "gio_error \<Rightarrow> EvdPromise \<Rightarrow> EvdPromise" where
  "reject_real e p = (if p_completed p then p else p\<lparr>p_res_error := Some e\<rparr>)"

text \<open>The four setters of the deferred call the stolen function on its promise.\<close>

definition call_resolve :: "(EvdPromise \<Rightarrow> EvdPromise) \<Rightarrow> promise_world \<Rightarrow> promise_world option" where
  "call_resolve f w =
     (case (w_deferred w, w_promise w) of
        (Some d, Some p) \<Rightarrow> if d_resolve_funcs d then Some (w\<lparr>w_promise := Some (f p)\<rparr>) else None
      | _ \<Rightarrow> None)"

definition evd_deferred_set_result_pointer :: "nat option \<Rightarrow> bool \<Rightarrow> promise_world \<Rightarrow> promise_world option" where
  "evd_deferred_set_result_pointer data free_func = call_resolve (resolve_pointer_real data free_func)"

definition evd_deferred_set_result_size :: "int \<Rightarrow> promise_world \<Rightarrow> promise_world option" where
  "evd_deferred_set_result_size n = call_resolve (resolve_size_real n)"

definition evd_deferred_set_result_boolean :: "bool \<Rightarrow> promise_world \<Rightarrow> promise_world option" where
  "evd_deferred_set_result_boolean b = call_resolve (resolve_boolean_real b)"

definition evd_deferred_take_result_error :: "gio_error \<Rightarrow> promise_world \<Rightarrow> promise_world option" where
  "evd_deferred_take_result_error e = call_resolve (reject_real e)"

section \<open>The deferred\<close>

definition evd_deferred_new :: "nat option \<Rightarrow> nat option \<Rightarrow> nat \<Rightarrow> promise_world" where
  "evd_deferred_new source_object cancellable tag =
     (let (p, src_refs) = evd_promise_new source_object cancellable tag;
          (p, funcs) = steal_resolve_funcs p
      in \<lparr>w_promise = Some p,
          w_deferred = Some \<lparr>d_ref_count = 1, d_completed = False, d_resolve_funcs = funcs\<rparr>,
          w_user_refs = 0, w_src_refs = src_refs, w_live = {}, w_next = 0, w_idle = [], w_log = []\<rparr>)"

definition evd_deferred_ref :: "promise_world \<Rightarrow> promise_world option" where
  "evd_deferred_ref w =
     (case w_deferred w of
        None \<Rightarrow> None
      | Some d \<Rightarrow> Some (w\<lparr>w_deferred := Some (d\<lparr>d_ref_count := d_ref_count d + 1\<rparr>)\<rparr>))"

definition deferred_free :: "promise_world \<Rightarrow> promise_world option" where
  "deferred_free w = map_option (\<lambda>w. w\<lparr>w_deferred := None\<rparr>) (promise_unref w)"

definition evd_deferred_unref :: "promise_world \<Rightarrow> promise_world option" where
  "evd_deferred_unref w =
     (case w_deferred w of
        None \<Rightarrow> None
      | Some d \<Rightarrow>
          if d_ref_count d > 1
          then Some (w\<lparr>w_deferred := Some (d\<lparr>d_ref_count := d_ref_count d - 1\<rparr>)\<rparr>)
          else deferred_free w)"

text \<open>References of the user to the promise, by \<open>g_object_ref\<close> and \<open>g_object_unref\<close>.\<close>

definition user_promise_ref :: "promise_world \<Rightarrow> promise_world option" where
  "user_promise_ref w =
     (case w_promise w of
        None \<Rightarrow> None
      | Some p \<Rightarrow> Some (w\<lparr>w_promise := Some (p\<lparr>p_ref_count := p_ref_count p + 1\<rparr>),
                        w_user_refs := w_user_refs w + 1\<rparr>))"

definition user_promise_unref :: "promise_world \<Rightarrow> promise_world option" where
  "user_promise_unref w =
     map_option (\<lambda>w. w\<lparr>w_user_refs := w_user_refs w - 1\<rparr>) (promise_unref w)"

section \<open>Completion\<close>

text \<open>
  What the user may do at any time, also in a callback (where completing again does nothing,
  because the deferred is then marked as completed).
\<close>

datatype user_op =
    Then nat nat
  | Set_pointer "nat option" bool
  | Set_size int
  | Set_boolean bool
  | Take_error gio_error
  | Cancel
  | Deferred_ref
  | Deferred_unref
  | Promise_ref
  | Promise_unref

definition user_act :: "user_op \<Rightarrow> promise_world \<Rightarrow> promise_world option" where
  "user_act op w =
     (let on_promise = (\<lambda>f. if w_promise w = None then Some w else f w);
          on_deferred = (\<lambda>f. if w_deferred w = None then Some w else f w)
      in case op of
           Then cb ud \<Rightarrow> on_promise (evd_promise_then cb ud)
         | Set_pointer data f \<Rightarrow> on_deferred (evd_deferred_set_result_pointer data f)
         | Set_size n \<Rightarrow> on_deferred (evd_deferred_set_result_size n)
         | Set_boolean b \<Rightarrow> on_deferred (evd_deferred_set_result_boolean b)
         | Take_error e \<Rightarrow> on_deferred (evd_deferred_take_result_error e)
         | Cancel \<Rightarrow> on_promise evd_promise_cancel
         | Deferred_ref \<Rightarrow> on_deferred evd_deferred_ref
         | Deferred_unref \<Rightarrow> on_deferred evd_deferred_unref
         | Promise_ref \<Rightarrow> on_promise user_promise_ref
         | Promise_unref \<Rightarrow> if w_user_refs w = 0 then Some w else user_promise_unref w)"

primrec user_acts :: "user_op list \<Rightarrow> promise_world \<Rightarrow> promise_world option" where
  "user_acts [] w = Some w"
| "user_acts (a # as) w = do { w \<leftarrow> user_act a w; user_acts as w }"

text \<open>Calling a listener: the callback runs, then the closure is freed.\<close>

definition call_closure ::
  "(nat \<Rightarrow> user_op list) \<Rightarrow> PromiseClosure \<Rightarrow> promise_world \<Rightarrow> promise_world option"
where
  "call_closure acts c w =
     (if cl_id c \<notin> w_live w then None
      else case w_promise w of
             None \<Rightarrow> None
           | Some p \<Rightarrow> do {
               w \<leftarrow> user_acts (acts (cl_callback c)) (log_event (Called c (async_result_get_user_data p)) w);
               free_promise_closure c w
             })"

fun notify_loop ::
  "(nat \<Rightarrow> user_op list) \<Rightarrow> PromiseClosure list \<Rightarrow> promise_world \<Rightarrow> promise_world option"
where
  "notify_loop acts [] w = Some w"
| "notify_loop acts (c # cs) w =
     (if cl_id c \<notin> w_live w then None
      else case w_promise w of
             None \<Rightarrow> None
           | Some p \<Rightarrow> do {
               w \<leftarrow> call_closure acts c (w\<lparr>w_promise := Some (p\<lparr>p_user_data := cl_user_data c\<rparr>)\<rparr>);
               notify_loop acts cs w
             })"

definition evd_promise_notify_completion ::
  "(nat \<Rightarrow> user_op list) \<Rightarrow> promise_world \<Rightarrow> promise_world option"
where
  "evd_promise_notify_completion acts w =
     (case w_promise w of
        None \<Rightarrow> None
      | Some p \<Rightarrow> do {
          w \<leftarrow> notify_loop acts (p_listeners p) (w\<lparr>w_promise := Some (p\<lparr>p_completed := True\<rparr>)\<rparr>);
          case w_promise w of
            None \<Rightarrow> None
          | Some p \<Rightarrow> Some (w\<lparr>w_promise := Some (p\<lparr>p_listeners := []\<rparr>)\<rparr>)
        })"

definition evd_deferred_complete ::
  "(nat \<Rightarrow> user_op list) \<Rightarrow> promise_world \<Rightarrow> promise_world option"
where
  "evd_deferred_complete acts w =
     (case w_deferred w of
        None \<Rightarrow> None
      | Some d \<Rightarrow>
          if d_completed d then Some w
          else evd_promise_notify_completion acts (w\<lparr>w_deferred := Some (d\<lparr>d_completed := True\<rparr>)\<rparr>))"

definition evd_deferred_complete_in_idle :: "promise_world \<Rightarrow> promise_world option" where
  "evd_deferred_complete_in_idle w =
     (case w_deferred w of
        None \<Rightarrow> None
      | Some d \<Rightarrow>
          if d_completed d then Some w
          else Some (w\<lparr>w_deferred := Some (d\<lparr>d_completed := True\<rparr>),
                       w_idle := w_idle w @ [Deferred_complete_in_idle]\<rparr>))"

definition deferred_complete_in_idle_cb ::
  "(nat \<Rightarrow> user_op list) \<Rightarrow> promise_world \<Rightarrow> promise_world option"
where
  "deferred_complete_in_idle_cb acts w =
     (case w_deferred w of None \<Rightarrow> None | Some d \<Rightarrow> evd_promise_notify_completion acts w)"

definition call_listener_in_idle ::
  "(nat \<Rightarrow> user_op list) \<Rightarrow> PromiseClosure \<Rightarrow> promise_world \<Rightarrow> promise_world option"
where
  "call_listener_in_idle acts c w = call_closure acts c w"

section \<open>All steps\<close>

text \<open>The operations of the user and the main loop, which runs the oldest idle source.\<close>

datatype promise_op = User user_op | Complete | Complete_in_idle | Main_loop

definition promise_step ::
  "(nat \<Rightarrow> user_op list) \<Rightarrow> promise_world \<Rightarrow> promise_op \<Rightarrow> promise_world option"
where
  "promise_step acts w op =
     (case op of
        User u \<Rightarrow> user_act u w
      | Complete \<Rightarrow> if w_deferred w = None then Some w else evd_deferred_complete acts w
      | Complete_in_idle \<Rightarrow> if w_deferred w = None then Some w else evd_deferred_complete_in_idle w
      | Main_loop \<Rightarrow>
          (case w_idle w of
             [] \<Rightarrow> Some w
           | Deferred_complete_in_idle # idle \<Rightarrow> deferred_complete_in_idle_cb acts (w\<lparr>w_idle := idle\<rparr>)
           | Call_listener_in_idle c # idle \<Rightarrow> call_listener_in_idle acts c (w\<lparr>w_idle := idle\<rparr>)))"

section \<open>Invariant\<close>

fun idle_closures :: "idle_source list \<Rightarrow> PromiseClosure list" where
  "idle_closures [] = []"
| "idle_closures (Deferred_complete_in_idle # idle) = idle_closures idle"
| "idle_closures (Call_listener_in_idle c # idle) = c # idle_closures idle"

fun registered :: "promise_event list \<Rightarrow> PromiseClosure list" where
  "registered [] = []"
| "registered (Registered c # log) = c # registered log"
| "registered (ev # log) = registered log"

fun called :: "promise_event list \<Rightarrow> PromiseClosure list" where
  "called [] = []"
| "called (Called c ud # log) = c # called log"
| "called (ev # log) = called log"

lemma idle_closures_append [simp]: "idle_closures (xs @ ys) = idle_closures xs @ idle_closures ys"
  by (induction xs rule: idle_closures.induct) simp_all

lemma registered_append [simp]: "registered (xs @ ys) = registered xs @ registered ys"
  by (induction xs rule: registered.induct) simp_all

lemma called_append [simp]: "called (xs @ ys) = called xs @ called ys"
  by (induction xs rule: called.induct) simp_all

text \<open>
  The references of the promise: the one of the deferred, those of the user, and one for every
  closure that has not been freed: the closure whose callback is running (\<open>held\<close>), those that the
  notification has yet to call (\<open>cs\<close>, outside of a notification the list of listeners) and those
  in idle sources. Listeners registered are those called, in order, then those to be called.
\<close>

definition late :: "promise_world \<Rightarrow> PromiseClosure list" where
  "late w = idle_closures (w_idle w)"

definition completing :: "promise_world \<Rightarrow> nat" where
  "completing w = count_list (w_idle w) Deferred_complete_in_idle"

definition promise_refs_ok :: "nat \<Rightarrow> promise_world \<Rightarrow> bool" where
  "promise_refs_ok closures w \<longleftrightarrow>
     (case w_promise w of
        None \<Rightarrow> w_deferred w = None \<and> w_user_refs w = 0 \<and> closures = 0 \<and> w_src_refs w = 0
      | Some p \<Rightarrow>
          p_ref_count p = (if w_deferred w = None then 0 else 1) + w_user_refs w + closures \<and>
          0 < p_ref_count p \<and> (p_completed p \<or> late w = []) \<and>
          w_src_refs w = (if p_src_obj p = None then 0 else 1))"

definition deferred_ok :: "promise_world \<Rightarrow> bool" where
  "deferred_ok w \<longleftrightarrow>
     (case w_deferred w of
        None \<Rightarrow> completing w = 0
      | Some d \<Rightarrow>
          0 < d_ref_count d \<and> d_resolve_funcs d \<and> completing w \<le> 1 \<and>
          (\<exists>p. w_promise w = Some p \<and> (0 < completing w \<longrightarrow> \<not> p_completed p) \<and>
             (d_completed d \<longleftrightarrow> p_completed p \<or> 0 < completing w)))"

definition closures_ok :: "PromiseClosure list \<Rightarrow> PromiseClosure list \<Rightarrow> promise_world \<Rightarrow> bool" where
  "closures_ok held cs w \<longleftrightarrow>
     distinct (map cl_id (held @ cs @ late w)) \<and> w_live w = cl_id ` set (held @ cs @ late w) \<and>
     (\<forall>i \<in> w_live w. i < w_next w) \<and> registered (w_log w) = called (w_log w) @ cs @ late w"

definition promise_inv :: "PromiseClosure list \<Rightarrow> PromiseClosure list \<Rightarrow> promise_world \<Rightarrow> bool" where
  "promise_inv held cs w \<longleftrightarrow>
     promise_refs_ok (length held + length cs + length (late w)) w \<and> deferred_ok w \<and>
     closures_ok held cs w"

definition listeners :: "promise_world \<Rightarrow> PromiseClosure list" where
  "listeners w = (case w_promise w of None \<Rightarrow> [] | Some p \<Rightarrow> p_listeners p)"

definition completed :: "promise_world \<Rightarrow> bool" where
  "completed w = (case w_promise w of None \<Rightarrow> False | Some p \<Rightarrow> p_completed p)"

lemmas promise_inv_defs = promise_inv_def promise_refs_ok_def deferred_ok_def closures_ok_def
  late_def completing_def log_event_def

text \<open>Dropping a reference that is counted apart from the closures.\<close>

lemma promise_unref_ok:
  assumes "w_promise w = Some p" and "p_ref_count p = Suc n" and "n = 0 \<Longrightarrow> p_listeners p = []"
  shows "promise_unref w =
    Some (if n = 0
      then w\<lparr>w_promise := None,
             w_log := w_log w @ (if p_res_pointer p \<noteq> None \<and> p_res_pointer_free_func p
                                 then [Pointer_freed (the (p_res_pointer p))] else []),
             w_src_refs := w_src_refs w - (if p_src_obj p = None then 0 else 1)\<rparr>
      else w\<lparr>w_promise := Some (p\<lparr>p_ref_count := n\<rparr>)\<rparr>)"
  using assms
  by (auto simp: promise_unref_def evd_promise_dispose_def evd_promise_finalize_def log_event_def Let_def)

definition new_closure :: "promise_world \<Rightarrow> nat \<Rightarrow> nat \<Rightarrow> PromiseClosure" where
  "new_closure w cb ud = \<lparr>cl_id = w_next w, cl_callback = cb, cl_user_data = ud\<rparr>"

lemma new_closure_id [simp]: "cl_id (new_closure w cb ud) = w_next w"
  by (simp add: new_closure_def)

lemma then_completed:
  assumes "w_promise w = Some p" and "p_completed p"
  shows "evd_promise_then cb ud w =
    Some (w\<lparr>w_promise := Some (p\<lparr>p_ref_count := p_ref_count p + 1, p_user_data := ud\<rparr>),
            w_live := insert (w_next w) (w_live w), w_next := w_next w + 1,
            w_idle := w_idle w @ [Call_listener_in_idle (new_closure w cb ud)],
            w_log := w_log w @ [Registered (new_closure w cb ud)]\<rparr>)"
  using assms by (simp add: evd_promise_then_def log_event_def new_closure_def Let_def)

lemma then_pending:
  assumes "w_promise w = Some p" and "\<not> p_completed p"
  shows "evd_promise_then cb ud w =
    Some (w\<lparr>w_promise := Some (p\<lparr>p_ref_count := p_ref_count p + 1, p_user_data := ud,
               p_listeners := p_listeners p @ [new_closure w cb ud]\<rparr>),
            w_live := insert (w_next w) (w_live w), w_next := w_next w + 1,
            w_log := w_log w @ [Registered (new_closure w cb ud)]\<rparr>)"
  using assms by (simp add: evd_promise_then_def log_event_def new_closure_def Let_def)

lemma closures_fresh: "closures_ok held cs w \<Longrightarrow> w_next w \<notin> cl_id ` set (held @ cs @ late w)"
  by (auto simp: closures_ok_def)

lemma inv_then_completed:
  assumes "promise_inv held cs w" and "w_promise w = Some p" and "p_completed p"
    and "evd_promise_then cb ud w = Some w'"
  shows "promise_inv held cs w' \<and> listeners w' = listeners w \<and> completed w' \<and>
    w_deferred w' = w_deferred w"
proof -
  note w' = assms(4) [unfolded then_completed [OF assms(2,3)], THEN option.inject [THEN iffD1], symmetric]
  have l: "late w' = late w @ [new_closure w cb ud]" by (simp add: w' late_def)
  from assms(1) have "closures_ok held cs w" by (simp add: promise_inv_def)
  from closures_fresh [OF this] this have "closures_ok held cs w'"
    unfolding closures_ok_def l by (auto simp: w' less_Suc_eq)
  moreover from assms(1,2) have "promise_refs_ok (length held + length cs + length (late w')) w'"
    by (simp add: promise_inv_def promise_refs_ok_def l) (simp add: w' assms(3))
  moreover from assms(1,2) have "deferred_ok w'"
    by (simp add: promise_inv_def deferred_ok_def completing_def w' split: option.splits)
  ultimately show ?thesis using assms(2,3) by (simp add: promise_inv_def w' listeners_def completed_def)
qed

lemma inv_then_pending:
  assumes "promise_inv held (listeners w) w" and "w_promise w = Some p" and "\<not> p_completed p"
    and "evd_promise_then cb ud w = Some w'"
  shows "promise_inv held (listeners w') w' \<and> \<not> completed w' \<and> w_deferred w' = w_deferred w"
proof -
  note w' = assms(4) [unfolded then_pending [OF assms(2,3)], THEN option.inject [THEN iffD1], symmetric]
  have l: "late w' = []" "late w = []" using assms(1-3)
    by (auto simp: w' late_def promise_inv_def promise_refs_ok_def)
  have ls: "listeners w' = listeners w @ [new_closure w cb ud]" using assms(2) by (simp add: w' listeners_def)
  from assms(1) have "closures_ok held (listeners w) w" by (simp add: promise_inv_def)
  from closures_fresh [OF this] this have "closures_ok held (listeners w') w'"
    by (auto simp: closures_ok_def l ls) (auto simp: w' less_Suc_eq)
  moreover from assms(1,2) have "promise_refs_ok (length held + length (listeners w') + length (late w')) w'"
    by (simp add: promise_inv_def promise_refs_ok_def l ls) (simp add: w' late_def l(2) [unfolded late_def])
  moreover from assms(1,2) have "deferred_ok w'"
    by (simp add: promise_inv_def deferred_ok_def completing_def w' split: option.splits)
  ultimately show ?thesis using assms(2,3) by (simp add: promise_inv_def w' completed_def)
qed

lemma resolve_real_update:
  "\<exists>a b c e g. resolve_pointer_real data fr p = p\<lparr>p_res_pointer := a, p_res_pointer_free_func := b,
     p_res_size := c, p_res_boolean := e, p_res_error := g\<rparr>"
  "\<exists>a b c e g. resolve_size_real n p = p\<lparr>p_res_pointer := a, p_res_pointer_free_func := b,
     p_res_size := c, p_res_boolean := e, p_res_error := g\<rparr>"
  "\<exists>a b c e g. resolve_boolean_real bl p = p\<lparr>p_res_pointer := a, p_res_pointer_free_func := b,
     p_res_size := c, p_res_boolean := e, p_res_error := g\<rparr>"
  "\<exists>a b c e g. reject_real er p = p\<lparr>p_res_pointer := a, p_res_pointer_free_func := b,
     p_res_size := c, p_res_boolean := e, p_res_error := g\<rparr>"
  by (cases p; auto simp: resolve_pointer_real_def resolve_size_real_def resolve_boolean_real_def
      reject_real_def)+

lemma inv_call_resolve:
  assumes "promise_inv held cs w" and "w_deferred w \<noteq> None"
    and "\<And>p. \<exists>a b c e g. f p = p\<lparr>p_res_pointer := a, p_res_pointer_free_func := b, p_res_size := c,
           p_res_boolean := e, p_res_error := g\<rparr>"
  shows "\<exists>w'. call_resolve f w = Some w' \<and> promise_inv held cs w' \<and> listeners w' = listeners w \<and>
    completed w' = completed w \<and> w_deferred w' = w_deferred w"
proof -
  from assms(1,2) obtain d p where d: "w_deferred w = Some d" and p: "w_promise w = Some p"
    and r: "d_resolve_funcs d"
    by (auto simp: promise_inv_defs split: option.splits)
  obtain a b c e g where f: "f p = p\<lparr>p_res_pointer := a, p_res_pointer_free_func := b, p_res_size := c,
           p_res_boolean := e, p_res_error := g\<rparr>"
    using assms(3) by blast
  show ?thesis
    using assms(1) d p r f by (auto simp: call_resolve_def promise_inv_defs listeners_def completed_def)
qed

lemma promise_inv_update:
  assumes "promise_inv held cs w" and "w_promise w = Some p"
    and "p_completed q = p_completed p" "p_src_obj q = p_src_obj p"
    and "p_ref_count q + w_user_refs w = p_ref_count p + n" "0 < p_ref_count q"
  shows "promise_inv held cs (w\<lparr>w_promise := Some q, w_user_refs := n\<rparr>)"
  using assms by (auto simp: promise_inv_defs split: option.splits)

lemma inv_promise_ref:
  assumes "promise_inv held cs w" and "w_promise w = Some p"
  shows "\<exists>w'. user_promise_ref w = Some w' \<and> promise_inv held cs w' \<and> listeners w' = listeners w \<and>
    completed w' = completed w \<and> w_deferred w' = w_deferred w"
  using promise_inv_update [OF assms, of "p\<lparr>p_ref_count := p_ref_count p + 1\<rparr>" "w_user_refs w + 1"] assms(2)
  by (simp add: user_promise_ref_def listeners_def completed_def)

lemma promise_inv_log:
  assumes "registered ev = []" and "called ev = []"
  shows "promise_inv held cs (w\<lparr>w_log := w_log w @ ev\<rparr>) = promise_inv held cs w"
  using assms by (cases "w_promise w"; cases "w_deferred w"; simp add: promise_inv_defs)

lemma inv_cancel:
  assumes "promise_inv held cs w" and "w_promise w = Some p"
  shows "\<exists>w'. evd_promise_cancel w = Some w' \<and> promise_inv held cs w' \<and> listeners w' = listeners w \<and>
    completed w' = completed w \<and> w_deferred w' = w_deferred w"
  using assms
  by (cases "p_cancellable p")
    (simp_all add: evd_promise_cancel_def log_event_def promise_inv_log listeners_def completed_def)

lemma promise_inv_deferred:
  assumes "promise_inv held cs w" and "w_deferred w = Some d" and "0 < n"
  shows "promise_inv held cs (w\<lparr>w_deferred := Some (d\<lparr>d_ref_count := n\<rparr>)\<rparr>)"
  using assms by (cases "w_promise w"; simp add: promise_inv_defs)

lemma inv_deferred_ref:
  assumes "promise_inv held cs w" and "w_deferred w = Some d"
  shows "\<exists>w'. evd_deferred_ref w = Some w' \<and> promise_inv held cs w' \<and> listeners w' = listeners w \<and>
    completed w' = completed w \<and> w_deferred w' \<noteq> None"
  using promise_inv_deferred [OF assms] assms(2)
  by (simp add: evd_deferred_ref_def listeners_def completed_def)

text \<open>
  Dropping a reference of the user, or the one of the deferred; the promise can be disposed of only
  when no closure is left.
\<close>

lemma inv_promise_unref:
  assumes "promise_inv held cs w" and "0 < w_user_refs w" and "held \<noteq> [] \<or> listeners w = cs"
  shows "\<exists>w'. user_promise_unref w = Some w' \<and> promise_inv held cs w' \<and>
    (w_promise w' \<noteq> None \<longrightarrow> listeners w' = listeners w \<and> completed w' = completed w) \<and>
    (w_promise w' = None \<longrightarrow> held = [] \<and> cs = []) \<and> w_deferred w' = w_deferred w"
proof -
  from assms(1,2) obtain p where p: "w_promise w = Some p"
    by (auto simp: promise_inv_defs split: option.splits)
  let ?n = "(if w_deferred w = None then 0 else 1) + (w_user_refs w - 1) +
    (length held + length cs + length (late w))"
  have n: "p_ref_count p = Suc ?n" and r: "promise_refs_ok (length held + length cs + length (late w)) w"
    using assms(1,2) p by (auto simp: promise_inv_def promise_refs_ok_def)
  have z: "p_listeners p = []" if "?n = 0"
    using that assms(3) p by (auto simp: listeners_def split: if_splits)
  show ?thesis
  proof (cases "?n = 0")
    case True
    then have z1: "w_deferred w = None" "w_user_refs w - 1 = 0" "held = []" "cs = []" "late w = []"
      by (simp_all split: if_splits)
    with assms(2) have z0: "w_user_refs w = 1" by simp
    note u = promise_unref_ok [OF p n z, unfolded if_P [OF True]]
    show ?thesis
      using assms(1) p r z0 z1
      by (auto simp: user_promise_unref_def u promise_inv_defs split: if_splits)
  next
    case False
    then show ?thesis
      using promise_inv_update [OF assms(1) p, of "p\<lparr>p_ref_count := ?n\<rparr>" "w_user_refs w - 1"] assms(2) n p
      by (simp add: user_promise_unref_def promise_unref_ok [OF p n z] listeners_def completed_def)
  qed
qed

lemma inv_deferred_unref:
  assumes "promise_inv [] (listeners w) w" and "w_deferred w = Some d"
    and "d_ref_count d = 1 \<Longrightarrow> completing w = 0"
  shows "\<exists>w'. evd_deferred_unref w = Some w' \<and> promise_inv [] (listeners w') w' \<and>
    (completed w' \<longrightarrow> completed w) \<and> (w_promise w' \<noteq> None \<longrightarrow> listeners w' = listeners w)"
proof (cases "d_ref_count d = 1")
  case False
  then have "d_ref_count d > 1" using assms(1,2) by (auto simp: promise_inv_defs)
  then show ?thesis
    using promise_inv_deferred [OF assms(1,2), of "d_ref_count d - 1"] assms(2)
    by (simp add: evd_deferred_unref_def listeners_def completed_def)
next
  case True
  from assms(1,2) obtain p where p: "w_promise w = Some p"
    by (auto simp: promise_inv_defs split: option.splits)
  let ?n = "w_user_refs w + (length (listeners w) + length (late w))"
  have n: "p_ref_count p = Suc ?n" using assms(1,2) p by (auto simp: promise_inv_def promise_refs_ok_def)
  have z: "p_listeners p = []" if "?n = 0" using that p by (simp add: listeners_def)
  have l: "listeners w = p_listeners p" using p by (simp add: listeners_def)
  show ?thesis
  proof (cases "?n = 0")
    case z0: True
    note u = promise_unref_ok [OF p n z, unfolded if_P [OF z0]]
    from z0 have "w_user_refs w = 0" "p_listeners p = []" "late w = []" by (simp_all add: l)
    then show ?thesis
      using assms(1,2) assms(3) [OF True] p True
      by (auto simp: evd_deferred_unref_def deferred_free_def u promise_inv_defs
          listeners_def completed_def split: if_splits)
  next
    case nz: False
    then have "promise_unref w = Some (w\<lparr>w_promise := Some (p\<lparr>p_ref_count := ?n\<rparr>)\<rparr>)"
      using promise_unref_ok [OF p n z] by simp
    then have "evd_deferred_unref w =
        Some (w\<lparr>w_promise := Some (p\<lparr>p_ref_count := ?n\<rparr>), w_deferred := None\<rparr>)"
      using True assms(2) by (simp add: evd_deferred_unref_def deferred_free_def)
    then show ?thesis
      using assms(1,2) assms(3) [OF True] p n l nz
      by (simp add: promise_inv_defs listeners_def completed_def)
  qed
qed

text \<open>The operations of the user that neither register a listener nor drop a reference.\<close>

lemma user_act_frame:
  assumes "promise_inv held cs w" and "a \<noteq> Deferred_unref" and "a \<noteq> Promise_unref"
    and "\<forall>cb ud. a \<noteq> Then cb ud"
  shows "\<exists>w'. user_act a w = Some w' \<and> promise_inv held cs w' \<and> completed w' = completed w \<and>
    listeners w' = listeners w \<and> (w_deferred w' = None \<longleftrightarrow> w_deferred w = None)"
proof -
  have res: "\<exists>w'. call_resolve f w = Some w' \<and> promise_inv held cs w' \<and> completed w' = completed w \<and>
      listeners w' = listeners w \<and> (w_deferred w' = None \<longleftrightarrow> w_deferred w = None)"
    if "w_deferred w \<noteq> None" "\<And>p. \<exists>a b c e g. f p = p\<lparr>p_res_pointer := a, p_res_pointer_free_func := b,
      p_res_size := c, p_res_boolean := e, p_res_error := g\<rparr>" for f
    using inv_call_resolve [OF assms(1) that] by auto
  note setters = evd_deferred_set_result_pointer_def evd_deferred_set_result_size_def
    evd_deferred_set_result_boolean_def evd_deferred_take_result_error_def
  show ?thesis
  proof (cases a)
    case Deferred_ref
    then show ?thesis
      using inv_deferred_ref [OF assms(1)] assms(1) by (cases "w_deferred w") (auto simp: user_act_def)
  next
    case Cancel
    then show ?thesis
      using inv_cancel [OF assms(1)] assms(1) by (cases "w_promise w") (auto simp: user_act_def)
  next
    case Promise_ref
    then show ?thesis
      using inv_promise_ref [OF assms(1)] assms(1) by (cases "w_promise w") (auto simp: user_act_def)
  qed (use assms res [OF _ resolve_real_update(1)] res [OF _ resolve_real_update(2)]
      res [OF _ resolve_real_update(3)] res [OF _ resolve_real_update(4)] in
      \<open>cases "w_deferred w = None"; simp add: user_act_def setters\<close>)+
qed

text \<open>
  In a callback, with the promise completed: whatever the callback does except giving up the
  deferred keeps the invariant, with the closure of the callback still holding its reference.
\<close>

lemma user_act_in_callback:
  assumes "promise_inv held cs w" and "held \<noteq> []" and "completed w" and "a \<noteq> Deferred_unref"
  shows "\<exists>w'. user_act a w = Some w' \<and> promise_inv held cs w' \<and> completed w' \<and>
    listeners w' = listeners w \<and> (w_deferred w' = None \<longleftrightarrow> w_deferred w = None)"
proof (cases "a = Promise_unref \<or> (\<exists>cb ud. a = Then cb ud)")
  case False
  with user_act_frame [OF assms(1,4)] assms(3) show ?thesis by auto
next
  case True
  from assms(3) obtain p where p: "w_promise w = Some p" "p_completed p"
    by (auto simp: completed_def split: option.splits)
  from True show ?thesis
  proof
    assume "a = Promise_unref"
    with inv_promise_unref [OF assms(1)] assms show ?thesis
      by (cases "w_user_refs w = 0") (auto simp: user_act_def)
  next
    assume "\<exists>cb ud. a = Then cb ud"
    then obtain cb ud w' where "a = Then cb ud" "evd_promise_then cb ud w = Some w'"
      using p by (auto simp: then_completed)
    with inv_then_completed [OF assms(1) p] p show ?thesis by (auto simp: user_act_def)
  qed
qed

lemma user_acts_in_callback:
  assumes "promise_inv held cs w" and "held \<noteq> []" and "completed w" and "Deferred_unref \<notin> set as"
  shows "\<exists>w'. user_acts as w = Some w' \<and> promise_inv held cs w' \<and> completed w' \<and>
    listeners w' = listeners w \<and> (w_deferred w' = None \<longleftrightarrow> w_deferred w = None)"
  using assms(1,3,4)
proof (induction as arbitrary: w)
  case Nil
  then show ?case by simp
next
  case (Cons a as)
  from user_act_in_callback [OF Cons.prems(1) assms(2) Cons.prems(2), of a] Cons.prems(3)
  obtain w1 where w1: "user_act a w = Some w1" "promise_inv held cs w1" "completed w1"
    "listeners w1 = listeners w" "w_deferred w1 = None \<longleftrightarrow> w_deferred w = None"
    by auto
  from Cons.IH [OF w1(2,3)] Cons.prems(3) w1 show ?case by auto
qed

lemma inv_free_closure:
  assumes "promise_inv [c] cs w" and "completed w" and "w_deferred w \<noteq> None \<or> listeners w = []"
  shows "\<exists>w'. free_promise_closure c w = Some w' \<and> promise_inv [] cs w' \<and> w_deferred w' = w_deferred w \<and>
    (w_promise w' = None \<or> completed w' \<and> listeners w' = listeners w)"
proof -
  from assms(2) obtain p where p: "w_promise w = Some p" "p_completed p"
    by (auto simp: completed_def split: option.splits)
  let ?n = "(if w_deferred w = None then 0 else 1) + w_user_refs w + (length cs + length (late w))"
  from assms(1) p have n: "p_ref_count p = Suc ?n" and live: "cl_id c \<in> w_live w"
    by (auto simp: promise_inv_def promise_refs_ok_def closures_ok_def)
  have z: "p_listeners p = []" if "?n = 0"
    using that assms(3) p by (auto simp: listeners_def split: if_splits)
  show ?thesis
  proof (cases "?n = 0")
    case True
    then have "w_deferred w = None" "w_user_refs w = 0" "cs = []" "late w = []" by (simp_all split: if_splits)
    moreover from True promise_unref_ok [OF p(1) n z]
    obtain ev r where "promise_unref w = Some (w\<lparr>w_promise := None, w_log := w_log w @ ev, w_src_refs := r\<rparr>)"
      and "registered ev = []" "called ev = []" "r = 0"
      using assms(1) p by (force simp: promise_inv_def promise_refs_ok_def)
    ultimately show ?thesis
      using assms(1) live by (simp add: free_promise_closure_def promise_inv_defs)
  next
    case False
    with promise_unref_ok [OF p(1) n z]
    have "promise_unref w = Some (w\<lparr>w_promise := Some (p\<lparr>p_ref_count := ?n\<rparr>)\<rparr>)" by simp
    then have f: "free_promise_closure c w =
        Some (w\<lparr>w_promise := Some (p\<lparr>p_ref_count := ?n\<rparr>), w_live := w_live w - {cl_id c}\<rparr>)" (is "_ = Some ?w'")
      using live by (simp add: free_promise_closure_def)
    have l: "late ?w' = late w" by (simp add: late_def)
    from assms(1) have "closures_ok [c] cs w" by (simp add: promise_inv_def)
    then have "closures_ok [] cs ?w'"
      unfolding closures_ok_def l by (simp add: insert_Diff_if) blast
    moreover from assms(1) p n False have "promise_refs_ok (length cs + length (late w)) ?w'"
      by (simp add: promise_inv_def promise_refs_ok_def l)
    moreover from assms(1) p have "deferred_ok ?w'"
      by (cases "w_deferred w") (simp_all add: promise_inv_def deferred_ok_def completing_def)
    ultimately show ?thesis using f p by (simp add: promise_inv_def l listeners_def completed_def)
  qed
qed

lemma inv_call_closure:
  assumes "promise_inv [] (c # cs) w" and "completed w" and "w_deferred w \<noteq> None \<or> listeners w = []"
    and "Deferred_unref \<notin> set (acts (cl_callback c))"
  shows "\<exists>w'. call_closure acts c w = Some w' \<and> promise_inv [] cs w' \<and>
    (w_deferred w' = None \<longleftrightarrow> w_deferred w = None) \<and>
    (w_promise w' = None \<or> completed w' \<and> listeners w' = listeners w)"
proof -
  from assms(2) obtain p where p: "w_promise w = Some p"
    by (auto simp: completed_def split: option.splits)
  let ?w = "log_event (Called c (async_result_get_user_data p)) w"
  have "promise_inv [c] cs ?w" "completed ?w" "listeners ?w = listeners w" "w_deferred ?w = w_deferred w"
    using assms(1,2) p
    by (cases "w_deferred w"; simp add: promise_inv_defs listeners_def completed_def)+
  moreover have "cl_id c \<in> w_live w" using assms(1) by (simp add: promise_inv_def closures_ok_def)
  ultimately obtain w1 where w1: "user_acts (acts (cl_callback c)) ?w = Some w1" "promise_inv [c] cs w1"
    "completed w1" "listeners w1 = listeners w" "w_deferred w1 = None \<longleftrightarrow> w_deferred w = None"
    and live: "cl_id c \<in> w_live w"
    using user_acts_in_callback [of "[c]" cs ?w "acts (cl_callback c)"] assms(4) by auto
  from w1(4,5) assms(3) have "w_deferred w1 \<noteq> None \<or> listeners w1 = []" by simp
  from inv_free_closure [OF w1(2,3) this] w1 live p show ?thesis by (auto simp: call_closure_def)
qed

lemma inv_notify_loop:
  assumes "promise_inv [] cs w" and "completed w" and "w_deferred w \<noteq> None"
    and "\<forall>cb. Deferred_unref \<notin> set (acts cb)"
  shows "\<exists>w'. notify_loop acts cs w = Some w' \<and> promise_inv [] [] w' \<and> completed w' \<and> w_deferred w' \<noteq> None"
  using assms(1-3)
proof (induction cs arbitrary: w)
  case Nil
  then show ?case by simp
next
  case (Cons c cs)
  from Cons.prems(2) obtain p where p: "w_promise w = Some p"
    by (auto simp: completed_def split: option.splits)
  let ?w = "w\<lparr>w_promise := Some (p\<lparr>p_user_data := cl_user_data c\<rparr>)\<rparr>"
  have i: "promise_inv [] (c # cs) ?w"
    using promise_inv_update [OF Cons.prems(1) p, of "p\<lparr>p_user_data := cl_user_data c\<rparr>" "w_user_refs w"]
      Cons.prems(1) p by (simp add: promise_inv_def promise_refs_ok_def)
  have live: "cl_id c \<in> w_live w" using Cons.prems(1) by (simp add: promise_inv_def closures_ok_def)
  from inv_call_closure [OF i, of acts] Cons.prems p assms(4)
  obtain w1 where w1: "call_closure acts c ?w = Some w1" "promise_inv [] cs w1" "w_deferred w1 \<noteq> None"
    "w_promise w1 = None \<or> completed w1"
    by (auto simp: completed_def)
  then have "completed w1" by (auto simp: promise_inv_def promise_refs_ok_def)
  from Cons.IH [OF w1(2) this w1(3)] w1 live p show ?case by simp
qed

section \<open>Steps keep the invariant\<close>

definition promise_ok :: "promise_world \<Rightarrow> bool" where
  "promise_ok w \<longleftrightarrow> promise_inv [] (listeners w) w \<and> (completed w \<longrightarrow> listeners w = [])"

lemma promise_inv_promise:
  assumes "promise_inv held cs w" and "w_promise w = Some p"
    and "p_completed q = p_completed p" "p_src_obj q = p_src_obj p" "p_ref_count q = p_ref_count p"
  shows "promise_inv held cs (w\<lparr>w_promise := Some q\<rparr>)"
  using assms by (cases "w_deferred w") (auto simp: promise_inv_defs)

lemma inv_notify_completion:
  assumes "promise_inv [] (listeners w) (w\<lparr>w_promise := Some (p\<lparr>p_completed := True\<rparr>)\<rparr>)"
    and "w_deferred w \<noteq> None" and "w_promise w = Some p" and "\<forall>cb. Deferred_unref \<notin> set (acts cb)"
  shows "\<exists>w'. evd_promise_notify_completion acts w = Some w' \<and> promise_ok w'"
proof -
  let ?w = "w\<lparr>w_promise := Some (p\<lparr>p_completed := True\<rparr>)\<rparr>"
  have "p_listeners p = listeners w" using assms(3) by (simp add: listeners_def)
  moreover from inv_notify_loop [OF assms(1), of acts] assms(2,4) obtain w1 where
    w1: "notify_loop acts (listeners w) ?w = Some w1" "promise_inv [] [] w1" "completed w1"
    by (auto simp: completed_def)
  moreover from w1(3) obtain q where q: "w_promise w1 = Some q" "p_completed q"
    by (auto simp: completed_def split: option.splits)
  moreover have "promise_ok (w1\<lparr>w_promise := Some (q\<lparr>p_listeners := []\<rparr>)\<rparr>)"
    using promise_inv_promise [OF w1(2) q(1), of "q\<lparr>p_listeners := []\<rparr>"]
    by (simp add: promise_ok_def listeners_def)
  ultimately show ?thesis using assms(3) by (simp add: evd_promise_notify_completion_def)
qed

lemma user_act_ok:
  assumes "promise_ok w"
    and "\<forall>d. a = Deferred_unref \<and> w_deferred w = Some d \<longrightarrow> completing w = 0 \<or> 1 < d_ref_count d"
  shows "\<exists>w'. user_act a w = Some w' \<and> promise_ok w'"
proof -
  from assms(1) have i: "promise_inv [] (listeners w) w" and c: "completed w \<longrightarrow> listeners w = []"
    by (simp_all add: promise_ok_def)
  consider (frame) "a \<noteq> Deferred_unref" "a \<noteq> Promise_unref" "\<forall>cb ud. a \<noteq> Then cb ud"
    | (dunref) "a = Deferred_unref" | (punref) "a = Promise_unref" | (th) cb ud where "a = Then cb ud"
    by blast
  then show ?thesis
  proof cases
    case frame
    from user_act_frame [OF i this] c show ?thesis by (auto simp: promise_ok_def)
  next
    case dunref
    show ?thesis
    proof (cases "w_deferred w")
      case None
      with dunref assms(1) show ?thesis by (simp add: user_act_def)
    next
      case (Some d)
      with dunref assms(2) have "d_ref_count d = 1 \<Longrightarrow> completing w = 0" by fastforce
      from inv_deferred_unref [OF i Some this] Some dunref c show ?thesis
        by (fastforce simp: user_act_def promise_ok_def completed_def)
    qed
  next
    case punref
    with inv_promise_unref [OF i] assms(1) c show ?thesis
      by (cases "w_user_refs w = 0") (auto simp: user_act_def promise_ok_def listeners_def completed_def)
  next
    case th
    show ?thesis
    proof (cases "w_promise w")
      case None
      with th assms(1) show ?thesis by (simp add: user_act_def)
    next
      case (Some p)
      show ?thesis
        using inv_then_completed [OF i Some] inv_then_pending [OF i Some] Some th c
          then_completed [OF Some, of cb ud] then_pending [OF Some, of cb ud]
        by (cases "p_completed p") (auto simp: user_act_def promise_ok_def completed_def)
    qed
  qed
qed

lemma complete_ok:
  assumes "promise_ok w" and "w_deferred w = Some d" and "\<forall>cb. Deferred_unref \<notin> set (acts cb)"
  shows "\<exists>w'. evd_deferred_complete acts w = Some w' \<and> promise_ok w'"
proof (cases "d_completed d")
  case True
  with assms show ?thesis by (simp add: evd_deferred_complete_def)
next
  case False
  let ?w = "w\<lparr>w_deferred := Some (d\<lparr>d_completed := True\<rparr>)\<rparr>"
  from assms(1) have i: "promise_inv [] (listeners w) w" by (simp add: promise_ok_def)
  with assms(2) False obtain p where p: "w_promise w = Some p" "\<not> p_completed p" "completing w = 0"
    by (auto simp: promise_inv_def deferred_ok_def)
  have "promise_inv [] (listeners w) (?w\<lparr>w_promise := Some (p\<lparr>p_completed := True\<rparr>)\<rparr>)"
    using i assms(2) p by (simp add: promise_inv_defs)
  moreover have "listeners ?w = listeners w" by (simp add: listeners_def)
  ultimately show ?thesis
    using inv_notify_completion [of ?w p acts] assms(2,3) p False by (simp add: evd_deferred_complete_def)
qed

lemma complete_in_idle_ok:
  assumes "promise_ok w" and "w_deferred w = Some d"
  shows "\<exists>w'. evd_deferred_complete_in_idle w = Some w' \<and> promise_ok w'"
proof (cases "d_completed d")
  case True
  with assms show ?thesis by (simp add: evd_deferred_complete_in_idle_def)
next
  case False
  from assms(1) have i: "promise_inv [] (listeners w) w" by (simp add: promise_ok_def)
  with assms(2) False obtain p where p: "w_promise w = Some p" "\<not> p_completed p" "completing w = 0"
    by (auto simp: promise_inv_def deferred_ok_def)
  then show ?thesis
    using i assms False
    by (simp add: evd_deferred_complete_in_idle_def promise_ok_def promise_inv_defs listeners_def completed_def)
qed

lemma main_loop_ok:
  assumes "promise_ok w" and "\<forall>cb. Deferred_unref \<notin> set (acts cb)"
  shows "\<exists>w'. promise_step acts w Main_loop = Some w' \<and> promise_ok w'"
proof (cases "w_idle w")
  case Nil
  with assms(1) show ?thesis by (simp add: promise_step_def)
next
  case (Cons src idle)
  let ?w = "w\<lparr>w_idle := idle\<rparr>"
  from assms(1) have i: "promise_inv [] (listeners w) w" by (simp add: promise_ok_def)
  show ?thesis
  proof (cases src)
    case Deferred_complete_in_idle
    with i Cons obtain d p where p: "w_deferred w = Some d" "w_promise w = Some p" "\<not> p_completed p"
      "d_completed d" "count_list idle Deferred_complete_in_idle = 0"
      by (auto simp: promise_inv_def deferred_ok_def completing_def split: option.splits)
    then have "promise_inv [] (listeners w) (?w\<lparr>w_promise := Some (p\<lparr>p_completed := True\<rparr>)\<rparr>)"
      using i Cons Deferred_complete_in_idle by (simp add: promise_inv_defs)
    moreover have "listeners ?w = listeners w" by (simp add: listeners_def)
    ultimately show ?thesis
      using inv_notify_completion [of ?w p acts] p Cons Deferred_complete_in_idle assms(2)
      by (simp add: promise_step_def deferred_complete_in_idle_cb_def)
  next
    case (Call_listener_in_idle c)
    have l: "late w = c # late ?w" using Cons Call_listener_in_idle by (simp add: late_def)
    with i obtain p where p: "w_promise w = Some p" "p_completed p"
      by (auto simp: promise_inv_def promise_refs_ok_def split: option.splits)
    with assms(1) have e: "listeners w = []" by (simp add: promise_ok_def completed_def)
    from i p Cons Call_listener_in_idle have "promise_inv [] [c] ?w"
      unfolding e by (cases "w_deferred w") (auto simp: promise_inv_defs)
    from inv_call_closure [OF this, of acts] assms(2) p e obtain w' where
      "call_closure acts c ?w = Some w'" "promise_inv [] [] w'" "w_promise w' = None \<or> listeners w' = []"
      by (auto simp: completed_def listeners_def)
    moreover from this have "listeners w' = []" by (auto simp: listeners_def)
    ultimately show ?thesis
      using Cons Call_listener_in_idle
      by (simp add: promise_step_def call_listener_in_idle_def promise_ok_def)
  qed
qed

text \<open>
  What the code relies on: the user keeps its deferred until an announced completion has run (lemma
  \<open>promise_idle_use_after_free\<close>), and no callback gives it up (lemma \<open>promise_callback_double_free\<close>).
\<close>

definition gives_up :: "promise_world \<Rightarrow> promise_op \<Rightarrow> bool" where
  "gives_up w op \<longleftrightarrow> op = User Deferred_unref \<and> Deferred_complete_in_idle \<in> set (w_idle w) \<and>
     (case w_deferred w of None \<Rightarrow> False | Some d \<Rightarrow> d_ref_count d \<le> 1)"

definition keeps_deferred :: "promise_world \<Rightarrow> promise_op \<Rightarrow> bool" where
  "keeps_deferred w op \<longleftrightarrow> \<not> gives_up w op"

definition callbacks_keep :: "(nat \<Rightarrow> user_op list) \<Rightarrow> bool" where
  "callbacks_keep acts \<longleftrightarrow> (\<forall>cb. Deferred_unref \<notin> set (acts cb))"

lemma promise_step_ok:
  assumes "promise_ok w" and "callbacks_keep acts" and "keeps_deferred w op"
  shows "\<exists>w'. promise_step acts w op = Some w' \<and> promise_ok w'"
proof -
  have acts: "\<forall>cb. Deferred_unref \<notin> set (acts cb)" using assms(2) by (simp add: callbacks_keep_def)
  show ?thesis
  proof (cases op)
    case (User a)
    have "completing w = 0 \<longleftrightarrow> Deferred_complete_in_idle \<notin> set (w_idle w)"
      by (simp add: completing_def count_list_0_iff)
    then show ?thesis
      using User user_act_ok [OF assms(1), of a] assms(1,3)
      by (auto simp: keeps_deferred_def gives_up_def promise_step_def not_le split: option.splits)
  next
    case Complete
    with complete_ok [OF assms(1) _ acts] assms(1) show ?thesis
      by (cases "w_deferred w") (auto simp: promise_step_def)
  next
    case Complete_in_idle
    with complete_in_idle_ok [OF assms(1)] assms(1) show ?thesis
      by (cases "w_deferred w") (auto simp: promise_step_def)
  next
    case Main_loop
    with main_loop_ok [OF assms(1) acts] show ?thesis by auto
  qed
qed

interpretation pr: guarded_machine "promise_step acts" promise_ok "\<lambda>w op. callbacks_keep acts \<and> keeps_deferred w op" for acts
  by unfold_locales (simp add: promise_step_ok)

lemma promise_ok_new: "promise_ok (evd_deferred_new src cancellable tag)"
  by (simp add: evd_deferred_new_def evd_promise_new_def evd_promise_init_def steal_resolve_funcs_def
      promise_ok_def promise_inv_defs listeners_def completed_def split: option.splits)

lemma promise_run:
  assumes "callbacks_keep acts" "steps_allowed keeps_deferred (promise_step acts) (evd_deferred_new src cancellable tag) ops"
  shows "\<exists>w. run_ops (promise_step acts) (evd_deferred_new src cancellable tag) ops = Some w \<and> promise_ok w"
  using pr.allowed_run [OF promise_ok_new, of acts src cancellable tag ops] assms by simp

section \<open>Which callbacks are called, and the result\<close>

definition results :: "EvdPromise \<Rightarrow> nat option \<times> bool \<times> int \<times> bool \<times> gio_error option" where
  "results p = (p_res_pointer p, p_res_pointer_free_func p, p_res_size p, p_res_boolean p, p_res_error p)"

text \<open>A completed promise stays completed with the same result as long as it exists.\<close>

definition resolved_as :: "promise_world \<Rightarrow> promise_world \<Rightarrow> bool" where
  "resolved_as w w' \<longleftrightarrow>
     (case w_promise w of
        None \<Rightarrow> w_promise w' = None
      | Some p \<Rightarrow>
          (case w_promise w' of
             None \<Rightarrow> True
           | Some q \<Rightarrow> p_completed p \<longrightarrow> p_completed q \<and> results q = results p))"

lemma resolved_as_refl [simp]: "resolved_as w w"
  by (simp add: resolved_as_def split: option.split)

lemma resolved_as_trans [trans]: "resolved_as w w1 \<Longrightarrow> resolved_as w1 w2 \<Longrightarrow> resolved_as w w2"
  by (auto simp: resolved_as_def split: option.splits)

lemma resolved_as_same: "w_promise w1 = w_promise w2 \<Longrightarrow> resolved_as w w1 = resolved_as w w2"
  by (simp add: resolved_as_def split: option.split)

text \<open>Steps that call no callback.\<close>

definition silent :: "promise_world \<Rightarrow> promise_world \<Rightarrow> bool" where
  "silent w w' \<longleftrightarrow> resolved_as w w' \<and> called (w_log w') = called (w_log w)"

lemma dispose_listeners_log: "dispose_listeners cs w = Some w' \<Longrightarrow> w_log w' = w_log w"
  by (induction cs w rule: dispose_listeners.induct) (auto split: if_splits option.splits)

lemma promise_unref_silent: "promise_unref w = Some w' \<Longrightarrow> silent w w'"
  by (auto simp: silent_def promise_unref_def evd_promise_dispose_def evd_promise_finalize_def resolved_as_def
      results_def log_event_def Let_def bind_eq_Some_conv dest!: dispose_listeners_log
      split: option.splits if_splits)

lemma user_act_silent:
  assumes "user_act a w = Some w'"
  shows "silent w w'"
proof -
  have r: "silent w w'" if "call_resolve f w = Some w'" "\<And>p. p_completed p \<Longrightarrow> f p = p" for f
    using that by (auto simp: call_resolve_def silent_def resolved_as_def split: option.splits if_splits)
  have d: "silent w w'" if "promise_unref w = Some w1" "w_promise w' = w_promise w1" "w_log w' = w_log w1" for w1
    using promise_unref_silent [OF that(1)] that(2,3) resolved_as_same [of w' w1 w] by (simp add: silent_def)
  show ?thesis
  proof (cases a)
    case (Set_pointer data fr)
    with assms r [of "resolve_pointer_real data fr"] show ?thesis
      by (simp add: user_act_def evd_deferred_set_result_pointer_def resolve_pointer_real_def silent_def
          split: if_splits)
  next
    case (Set_size n)
    with assms r [of "resolve_size_real n"] show ?thesis
      by (simp add: user_act_def evd_deferred_set_result_size_def resolve_size_real_def silent_def split: if_splits)
  next
    case (Set_boolean b)
    with assms r [of "resolve_boolean_real b"] show ?thesis
      by (simp add: user_act_def evd_deferred_set_result_boolean_def resolve_boolean_real_def silent_def
          split: if_splits)
  next
    case (Take_error e)
    with assms r [of "reject_real e"] show ?thesis
      by (simp add: user_act_def evd_deferred_take_result_error_def reject_real_def silent_def split: if_splits)
  next
    case Deferred_unref
    with assms d show ?thesis
      by (auto simp: user_act_def evd_deferred_unref_def deferred_free_def silent_def resolved_as_def
          split: if_splits option.splits)
  next
    case Promise_unref
    with assms d show ?thesis
      by (auto simp: user_act_def user_promise_unref_def silent_def split: if_splits)
  next
    case (Then cb ud)
    with assms show ?thesis
      by (cases "w_promise w") (auto simp: user_act_def evd_promise_then_def log_event_def Let_def silent_def
          resolved_as_def results_def split: if_splits)
  qed (use assms in \<open>auto simp: user_act_def evd_promise_cancel_def evd_deferred_ref_def user_promise_ref_def
      log_event_def silent_def resolved_as_def results_def split: if_splits option.splits\<close>)
qed

lemma user_acts_silent: "user_acts as w = Some w' \<Longrightarrow> silent w w'"
proof (induction as arbitrary: w)
  case Nil
  then show ?case by (simp add: silent_def)
next
  case (Cons a as)
  then obtain w1 where "user_act a w = Some w1" "user_acts as w1 = Some w'"
    by (auto simp: bind_eq_Some_conv)
  with Cons.IH [of w1] user_act_silent [of a w w1] show ?case
    by (auto simp: silent_def intro: resolved_as_trans)
qed

lemma call_closure_calls:
  assumes "call_closure acts c w = Some w'"
  shows "resolved_as w w' \<and> called (w_log w') = called (w_log w) @ [c]"
proof -
  from assms obtain p w1 w2 where "w_promise w = Some p"
    and w1: "user_acts (acts (cl_callback c)) (log_event (Called c (async_result_get_user_data p)) w) = Some w1"
    and w2: "promise_unref w1 = Some w2" and w': "w_promise w' = w_promise w2" "w_log w' = w_log w2"
    by (auto simp: call_closure_def free_promise_closure_def bind_eq_Some_conv split: if_splits option.splits)
  from user_acts_silent [OF w1] promise_unref_silent [OF w2] have
    "resolved_as (log_event (Called c (async_result_get_user_data p)) w) w2"
    "called (w_log w2) = called (w_log w) @ [c]"
    by (auto simp: silent_def log_event_def intro: resolved_as_trans)
  then show ?thesis
    using w' resolved_as_same [of w' w2 w] by (simp add: resolved_as_def log_event_def split: option.splits)
qed

lemma notify_loop_calls:
  "notify_loop acts cs w = Some w' \<Longrightarrow>
     resolved_as w w' \<and> called (w_log w') = called (w_log w) @ cs"
proof (induction cs arbitrary: w)
  case Nil
  then show ?case by simp
next
  case (Cons c cs)
  then obtain p w1 where p: "w_promise w = Some p"
    and w1: "call_closure acts c (w\<lparr>w_promise := Some (p\<lparr>p_user_data := cl_user_data c\<rparr>)\<rparr>) = Some w1"
    and l: "notify_loop acts cs w1 = Some w'"
    by (auto simp: bind_eq_Some_conv split: if_splits option.splits)
  have "resolved_as w (w\<lparr>w_promise := Some (p\<lparr>p_user_data := cl_user_data c\<rparr>)\<rparr>)"
    using p by (simp add: resolved_as_def results_def)
  with call_closure_calls [OF w1] Cons.IH [OF l] show ?case by (auto intro: resolved_as_trans)
qed

lemma notify_completion_calls:
  assumes "evd_promise_notify_completion acts w = Some w'"
  shows "resolved_as w w' \<and> called (w_log w') = called (w_log w) @ listeners w \<and> listeners w' = [] \<and> completed w'"
proof -
  from assms obtain p w1 q where p: "w_promise w = Some p" and q: "w_promise w1 = Some q"
    and w1: "notify_loop acts (p_listeners p) (w\<lparr>w_promise := Some (p\<lparr>p_completed := True\<rparr>)\<rparr>) = Some w1"
    and w': "w' = w1\<lparr>w_promise := Some (q\<lparr>p_listeners := []\<rparr>)\<rparr>"
    by (auto simp: evd_promise_notify_completion_def bind_eq_Some_conv split: option.splits)
  from notify_loop_calls [OF w1] p q w' show ?thesis
    by (auto simp: resolved_as_def results_def listeners_def completed_def)
qed

lemma promise_step_resolved:
  assumes "promise_step acts w op = Some w'"
  shows "resolved_as w w'"
proof -
  have n: "resolved_as w w'" if "evd_promise_notify_completion acts w1 = Some w'" "w_promise w1 = w_promise w" for w1
    using notify_completion_calls [OF that(1)] that(2) by (simp add: resolved_as_def)
  have c: "resolved_as w w'" if "call_closure acts c w1 = Some w'" "w_promise w1 = w_promise w" for c w1
    using call_closure_calls [OF that(1)] that(2) by (simp add: resolved_as_def)
  show ?thesis
  proof (cases op)
    case (User a)
    with assms user_act_silent [of a w w'] show ?thesis by (simp add: promise_step_def silent_def)
  next
    case Complete
    with assms n show ?thesis
      by (auto simp: promise_step_def evd_deferred_complete_def split: if_splits option.splits)
  next
    case Complete_in_idle
    with assms show ?thesis
      by (auto simp: promise_step_def evd_deferred_complete_in_idle_def resolved_as_def
          split: if_splits option.splits)
  next
    case Main_loop
    with assms n c show ?thesis
      by (auto simp: promise_step_def deferred_complete_in_idle_cb_def call_listener_in_idle_def
          split: list.splits idle_source.splits option.splits)
  qed
qed

lemma promise_run_resolved:
  "run_ops (promise_step acts) w ops = Some w' \<Longrightarrow> resolved_as w w'"
  by (induction ops arbitrary: w)
    (auto split: option.splits dest: promise_step_resolved intro: resolved_as_trans)

lemmas promise_eval [evd_eval] = promise_step_def user_act_def evd_promise_then_def log_event_def Let_def
  evd_deferred_set_result_size_def call_resolve_def resolve_size_real_def evd_deferred_new_def
  evd_promise_new_def evd_promise_init_def steal_resolve_funcs_def evd_deferred_complete_in_idle_def
  deferred_complete_in_idle_cb_def evd_deferred_unref_def deferred_free_def promise_unref_def
  evd_promise_dispose_def evd_promise_finalize_def evd_deferred_complete_def
  evd_promise_notify_completion_def call_closure_def free_promise_closure_def
  async_result_get_user_data_def call_listener_in_idle_def

section \<open>Properties\<close>

text \<open>
  C24. For users that keep the deferred until an announced completion has run, and callbacks that may do
  anything but give up the deferred: nothing that was freed is used; the listeners called are those
  registered, in the order of registration, each once; those not called yet wait, in order, in the
  list of the promise and then in the idle sources; and the promise has exactly the references of the
  deferred, of the user and of the waiting listeners.
\<close>

theorem promise_listeners_in_order:
  assumes "callbacks_keep acts"
    and "steps_allowed keeps_deferred (promise_step acts) (evd_deferred_new src cancellable tag) ops"
  shows "\<exists>w. run_ops (promise_step acts) (evd_deferred_new src cancellable tag) ops = Some w \<and>
     registered (w_log w) = called (w_log w) @ listeners w @ idle_closures (w_idle w) \<and>
     (\<forall>p. w_promise w = Some p \<longrightarrow>
        p_ref_count p = (if w_deferred w = None then 0 else 1) + w_user_refs w + length (listeners w) +
          length (idle_closures (w_idle w)))"
  using promise_run [OF assms] by (auto simp: promise_ok_def promise_inv_defs)

text \<open>
  A listener that registers another when it is called, and one that is registered after the completion:
  two have been called, in order, and the third waits for the main loop.
\<close>

definition demo_acts :: "nat \<Rightarrow> user_op list" where
  "demo_acts cb = (if cb = 1 then [Then 3 7] else [])"

definition demo_ops :: "promise_op list" where
  "demo_ops = [User (Then 1 5), User Promise_ref, Complete, User (Then 2 6), Main_loop]"

lemma demo_acts_keep: "callbacks_keep demo_acts"
  by (simp add: callbacks_keep_def demo_acts_def)

theorem promise_listeners_in_order_witness:
  "\<exists>w p. run_ops (promise_step demo_acts) (evd_deferred_new None None 0) demo_ops = Some w \<and>
    w_promise w = Some p \<and> p_ref_count p = 3 \<and> map cl_callback (called (w_log w)) = [1, 3] \<and>
    map cl_callback (registered (w_log w)) = [1, 3, 2]"
proof -
  let ?w = "evd_deferred_new None None 0"
  have c: "steps_allowed keeps_deferred (promise_step demo_acts) ?w demo_ops" by code_simp
  have e: "case run_ops (promise_step demo_acts) ?w demo_ops of None \<Rightarrow> False
    | Some w \<Rightarrow> map cl_callback (called (w_log w)) = [1, 3] \<and> map cl_callback (idle_closures (w_idle w)) = [2] \<and>
        w_promise w \<noteq> None \<and> w_deferred w \<noteq> None \<and> w_user_refs w = 1 \<and> listeners w = []"
    by code_simp
  from promise_listeners_in_order [OF demo_acts_keep c] obtain w where
    w: "run_ops (promise_step demo_acts) ?w demo_ops = Some w"
    "registered (w_log w) = called (w_log w) @ listeners w @ idle_closures (w_idle w)"
    "\<forall>p. w_promise w = Some p \<longrightarrow>
        p_ref_count p = (if w_deferred w = None then 0 else 1) + w_user_refs w + length (listeners w) +
          length (idle_closures (w_idle w))" by blast
  moreover have "length (idle_closures (w_idle w)) = 1" using e w(1) by (auto dest: arg_cong [of _ _ length])
  ultimately show ?thesis using e by auto
qed

text \<open>
  Completing an operation calls every listener that was registered and not called, in order,
  whatever the callbacks do (short of giving up the deferred), and returns.
\<close>

theorem promise_completion_calls_all:
  assumes "callbacks_keep acts"
    and "steps_allowed keeps_deferred (promise_step acts) (evd_deferred_new src cancellable tag) ops"
    and "run_ops (promise_step acts) (evd_deferred_new src cancellable tag) ops = Some w"
    and "w_deferred w = Some d" and "\<not> d_completed d"
  shows "\<exists>w'. evd_deferred_complete acts w = Some w' \<and> called (w_log w') = registered (w_log w)"
proof -
  from promise_run [OF assms(1,2)] assms(3) have ok: "promise_ok w" by simp
  have "\<forall>cb. Deferred_unref \<notin> set (acts cb)" using assms(1) by (simp add: callbacks_keep_def)
  from complete_ok [OF ok assms(4) this] obtain w' where w': "evd_deferred_complete acts w = Some w'"
    by blast
  have "late w = []" using ok assms(4,5)
    by (auto simp: promise_ok_def promise_inv_def deferred_ok_def promise_refs_ok_def)
  then have "registered (w_log w) = called (w_log w) @ listeners w"
    using ok by (simp add: promise_ok_def promise_inv_def closures_ok_def)
  moreover have "called (w_log w') = called (w_log w) @ listeners w"
    using w' assms(4,5) notify_completion_calls
    by (fastforce simp: evd_deferred_complete_def listeners_def)
  ultimately show ?thesis using w' by simp
qed

text \<open>
  Once a promise is completed, no sequence of operations, allowed or not, changes its result
  while the promise exists.
\<close>

theorem promise_result_immutable:
  assumes "run_ops (promise_step acts) w ops = Some w'" and "w_promise w = Some p" and "p_completed p"
    and "w_promise w' = Some q"
  shows "evd_promise_get_result_pointer q = evd_promise_get_result_pointer p \<and>
    evd_promise_get_result_size q = evd_promise_get_result_size p \<and>
    evd_promise_get_result_boolean q = evd_promise_get_result_boolean p \<and>
    evd_promise_propagate_error q = evd_promise_propagate_error p"
  using promise_run_resolved [OF assms(1)] assms(2-)
  by (simp add: resolved_as_def results_def evd_promise_get_result_pointer_def
      evd_promise_get_result_size_def evd_promise_get_result_boolean_def evd_promise_propagate_error_def)

theorem promise_result_immutable_witness:
  "\<exists>w p w' q. run_ops (promise_step (\<lambda>cb. [])) (evd_deferred_new None None 0)
      [User (Set_size 3), Complete] = Some w \<and> w_promise w = Some p \<and>
    run_ops (promise_step (\<lambda>cb. [])) w [User (Set_size 4)] = Some w' \<and> w_promise w' = Some q \<and>
    evd_promise_get_result_size q = evd_promise_get_result_size p"
proof -
  obtain w p where w: "run_ops (promise_step (\<lambda>cb. [])) (evd_deferred_new None None 0)
      [User (Set_size 3), Complete] = Some w" and p: "w_promise w = Some p" "p_completed p"
    by (simp add: evd_eval)
  obtain w' q where w': "run_ops (promise_step (\<lambda>cb. [])) w [User (Set_size 4)] = Some w'"
    and q: "w_promise w' = Some q"
    using w by (auto simp: evd_eval)
  from promise_result_immutable [OF w' p q] w p w' q show ?thesis by blast
qed

text \<open>
  \<open>evd_deferred_complete_in_idle\<close> takes no reference: if the deferred is given up before
  the main loop runs the idle source, the source uses a freed deferred.
\<close>

theorem promise_idle_use_after_free:
  "run_ops (promise_step acts) (evd_deferred_new src cancellable tag)
     [Complete_in_idle, User Deferred_unref, Main_loop] = None"
  by (cases src) (simp_all add: evd_eval)

text \<open>
  A callback that gives up the last reference to the deferred makes the notification free its
  closures twice, because they are still in the list of listeners when the promise is disposed of.
\<close>

lemma promise_callback_double_free:
  "run_ops (promise_step (\<lambda>cb. [Deferred_unref])) (evd_deferred_new None None 0)
     [User (Then 1 5), Complete] = None"
  by (simp add: evd_eval)

text \<open>
  Two listeners registered after the completion: in the callback of the first one,
  \<open>g_async_result_get_user_data\<close> gives the data of the second one.
\<close>

lemma promise_late_user_data:
  "\<exists>w. run_ops (promise_step (\<lambda>cb. [])) (evd_deferred_new None None 0)
     [Complete, User (Then 1 5), User (Then 2 6), Main_loop] = Some w \<and>
     Called \<lparr>cl_id = 0, cl_callback = 1, cl_user_data = 5\<rparr> 6 \<in> set (w_log w)"
  by (simp add: evd_eval)

text \<open>
  A listener keeps its promise: if the deferred is given up before completion, a promise with
  listeners is never freed, whatever happens afterwards.
\<close>

definition abandoned :: "promise_world \<Rightarrow> bool" where
  "abandoned w \<longleftrightarrow> promise_ok w \<and> w_deferred w = None \<and> \<not> completed w \<and> listeners w \<noteq> []"

lemma abandoned_idle: "abandoned w \<Longrightarrow> w_idle w = []"
proof -
  assume a: "abandoned w"
  then obtain p where "w_promise w = Some p" by (auto simp: abandoned_def listeners_def split: option.splits)
  with a have "idle_closures (w_idle w) = []" "count_list (w_idle w) Deferred_complete_in_idle = 0"
    by (auto simp: abandoned_def promise_ok_def promise_inv_defs completed_def)
  then show ?thesis by (cases "w_idle w" rule: idle_closures.cases) auto
qed

lemma abandoned_act:
  assumes "abandoned w" and "user_act a w = Some w'"
  shows "abandoned w'"
proof -
  from assms(1) have ok: "promise_ok w" and i: "promise_inv [] (listeners w) w"
    and d: "w_deferred w = None" and c: "\<not> completed w" and l: "listeners w \<noteq> []"
    by (simp_all add: abandoned_def promise_ok_def)
  from l obtain p where p: "w_promise w = Some p" by (auto simp: listeners_def split: option.splits)
  have ok': "promise_ok w'" using user_act_ok [OF ok, of a] d assms(2) by auto
  consider (frame) "a \<noteq> Deferred_unref" "a \<noteq> Promise_unref" "\<forall>cb ud. a \<noteq> Then cb ud"
    | (dunref) "a = Deferred_unref" | (punref) "a = Promise_unref" | (th) cb ud where "a = Then cb ud"
    by blast
  then show ?thesis
  proof cases
    case frame
    from user_act_frame [OF i this] ok' assms(2) d c l show ?thesis by (auto simp: abandoned_def)
  next
    case dunref
    with assms d show ?thesis by (auto simp: user_act_def)
  next
    case punref
    with inv_promise_unref [OF i] assms ok' d c l show ?thesis
      by (cases "w_user_refs w = 0") (auto simp: user_act_def abandoned_def)
  next
    case th
    with p assms(2) have "evd_promise_then cb ud w = Some w'" by (simp add: user_act_def)
    moreover have "\<not> p_completed p" using p c by (simp add: completed_def)
    ultimately show ?thesis
      using then_pending [OF p, of cb ud] inv_then_pending [OF i p] ok' d
      by (auto simp: abandoned_def listeners_def)
  qed
qed

lemma promise_listener_leak:
  "abandoned w \<Longrightarrow> run_ops (promise_step acts) w ops = Some w' \<Longrightarrow> w_promise w' \<noteq> None"
proof (induction ops arbitrary: w)
  case Nil
  then show ?case by (auto simp: abandoned_def listeners_def split: option.splits)
next
  case (Cons op ops)
  then obtain w1 where w1: "promise_step acts w op = Some w1" "run_ops (promise_step acts) w1 ops = Some w'"
    by (auto split: option.splits)
  have "abandoned w1"
    using Cons.prems(1) w1(1) abandoned_idle [OF Cons.prems(1)] abandoned_act [OF Cons.prems(1)]
    by (cases op) (auto simp: promise_step_def abandoned_def)
  with Cons.IH w1(2) show ?case by blast
qed

end
