(* ===== verification/Http_Writer.thy ===== *)
theory Http_Writer
  imports Chunked_Decoder Buffered_Output
begin

text \<open>
  Writing responses, \<open>evd/evd-http-connection.c\<close>: the response headers and the content, in
  chunks when the encoding is chunked. The output stream of the connection is a parameter; what
  the writer relies on is the interface \<open>output_stream\<close>, which the buffered output stream
  implements.
\<close>

section \<open>Numbers in hexadecimal\<close>

text \<open>What \<open>printf\<close> makes of a number with the format \<open>%x\<close>.\<close>

definition hex_char :: "nat \<Rightarrow> byte" where
  "hex_char k = (if k < 10 then of_nat (48 + k) else of_nat (87 + k))"

fun hex_text :: "nat \<Rightarrow> byte list" where
  "hex_text n = (if n < 16 then [hex_char n] else hex_text (n div 16) @ [hex_char (n mod 16)])"

declare hex_text.simps [simp del]

lemma hex_char_all: "list_all (\<lambda>k. hex_digit (hex_char k) \<and> hex_digit_value (hex_char k) = k) [0..<16]"
  by code_simp

lemma hex_char_props:
  assumes "k < 16"
  shows "hex_digit (hex_char k)" "hex_digit_value (hex_char k) = k"
  using hex_char_all assms by (simp_all add: list_all_iff)

lemma hex_text_digits: "list_all hex_digit (hex_text n)"
  by (induction n rule: hex_text.induct) (subst hex_text.simps, auto simp: hex_char_props)

lemma hex_text_not_empty [simp]: "hex_text n \<noteq> []"
  by (subst hex_text.simps) simp

lemma hex_value_append: "hex_value (h @ [c]) = 16 * hex_value h + hex_digit_value c"
  by (simp add: hex_value_def)

lemma hex_value_text: "hex_value (hex_text n) = n"
proof (induction n rule: hex_text.induct)
  case (1 n)
  show ?case
  proof (cases "n < 16")
    case True
    then show ?thesis by (subst hex_text.simps) (simp add: hex_value_def hex_char_props)
  next
    case False
    with 1 show ?thesis by (subst hex_text.simps) (simp add: hex_value_append hex_char_props)
  qed
qed

lemma hex_text_length: "n < 16 ^ Suc k \<Longrightarrow> length (hex_text n) \<le> Suc k"
proof (induction k arbitrary: n)
  case 0
  then show ?case by (subst hex_text.simps) simp
next
  case (Suc k)
  show ?case
  proof (cases "n < 16")
    case True
    then show ?thesis by (subst hex_text.simps) simp
  next
    case False
    from Suc.prems have "n div 16 < 16 ^ Suc k" by (simp add: less_mult_imp_div_less mult.commute)
    from Suc.IH [OF this] False show ?thesis by (subst hex_text.simps) simp
  qed
qed

lemma digits_not_space: "list_all hex_digit h \<Longrightarrow> dropWhile (\<lambda>c. c = 32) h = h"
  by (cases h) (auto simp: hex_digit_def)

lemma size_text_hex:
  assumes "n < 2 ^ 32"
  shows "size_text (hex_text n) n"
proof -
  have "length (hex_text n) \<le> Suc 7" using assms by (intro hex_text_length) simp
  moreover have "takeWhile hex_digit (dropWhile (\<lambda>c. c = 32) (hex_text n)) = hex_text n"
    using hex_text_digits [of n] by (simp add: digits_not_space takeWhile_eq_all_conv list_all_iff)
  moreover have "list_all header_char (hex_text n)"
    using hex_text_digits [of n] by (simp add: list_all_iff header_char_def)
  ultimately show ?thesis
    using assms by (simp add: size_text_def sscanf_hex_def hex_value_text Let_def)
qed

section \<open>Interface: an output stream\<close>

text \<open>
  \<open>g_output_stream_write\<close>: an error, after which nothing more is written, or the number of bytes
  from the front of the buffer that were taken.
\<close>

locale output_stream =
  fixes put :: "'s \<Rightarrow> byte list \<Rightarrow> 's \<times> (gio_error + nat)"
    and written :: "'s \<Rightarrow> byte list"
  assumes put_taken:
      "put s buf = (s', Inr n) \<Longrightarrow> n \<le> length buf \<and> written s' = written s @ take n buf"
    and put_failed: "put s buf = (s', Inl e) \<Longrightarrow> written s' = written s"
begin

lemma put_extends: "put s buf = (s', r) \<Longrightarrow> \<exists>bs. written s' = written s @ bs"
  by (cases r) (auto dest: put_taken put_failed)

end

text \<open>A stream in a state in which it takes everything, now and later.\<close>

locale reliable_stream = output_stream +
  fixes healthy :: "'s \<Rightarrow> bool"
  assumes healthy_put: "healthy s \<Longrightarrow> \<exists>s'. put s buf = (s', Inr (length buf)) \<and> healthy s'"

section \<open>The buffered output stream as an output stream\<close>

text \<open>
  \<open>g_output_stream_write\<close> refuses to write while another operation is pending and after closing,
  takes nothing when asked for nothing, and calls the class function otherwise. The outcomes of
  the base stream come from a list; when the list is used up, the base stream would block.
\<close>

record bo_stream =
  bs_stream :: buffered_output
  bs_log :: "bo_event list"
  bs_base :: "(gio_error + nat) list"

definition next_outcome :: "bo_stream \<Rightarrow> gio_error + nat" where
  "next_outcome b = (case bs_base b of [] \<Rightarrow> Inl G_IO_ERROR_WOULD_BLOCK | os # _ \<Rightarrow> os)"

definition g_output_stream_write :: "bo_stream \<Rightarrow> byte list \<Rightarrow> bo_stream \<times> (gio_error + nat)" where
  "g_output_stream_write b buf =
     (if buf = [] then (b, Inr 0)
      else if bo_closed (bs_stream b) then (b, Inl G_IO_ERROR_CLOSED)
      else if bo_async (bs_stream b) \<noteq> None then (b, Inl G_IO_ERROR_PENDING)
      else case evd_buffered_output_stream_write (bs_stream b) buf (next_outcome b) of
             (s', ev, r) \<Rightarrow>
               (\<lparr>bs_stream = s', bs_log = bs_log b @ accepted buf r @ ev, bs_base = drop 1 (bs_base b)\<rparr>, r))"

definition bs_bytes :: "bo_stream \<Rightarrow> byte list" where
  "bs_bytes b = base_bytes (bs_log b) @ bo_buffer (bs_stream b)"

lemma base_bytes_accepted [simp]: "base_bytes (accepted buf r) = []"
  by (cases r) (simp_all add: accepted_def)

lemma fill_takes:
  "evd_buffered_output_stream_fill s buf = (s', n) \<Longrightarrow>
     n \<le> length buf \<and> bo_buffer s' = bo_buffer s @ take n buf"
  by (auto simp: evd_buffered_output_stream_fill_def Let_def split: if_splits)

lemma buffered_write_takes:
  assumes "evd_buffered_output_stream_write s buf os = (s', ev, r)"
  shows "case r of
      Inl e \<Rightarrow> base_bytes ev @ bo_buffer s' = bo_buffer s
    | Inr n \<Rightarrow> n \<le> length buf \<and> base_bytes ev @ bo_buffer s' = bo_buffer s @ take n buf"
proof (cases "length (bo_buffer s) > 0 \<or> \<not> bo_auto_flush s")
  case True
  with assms show ?thesis
    by (auto simp: evd_buffered_output_stream_write_def dest: fill_takes split: prod.splits)
next
  case False
  then show ?thesis
    using assms
    by (auto simp: evd_buffered_output_stream_write_def evd_buffered_output_stream_real_write_def min_def
        take_add dest!: fill_takes split: sum.splits prod.splits if_splits)
qed

interpretation bs: output_stream g_output_stream_write bs_bytes
proof
  fix b b' buf n e
  show "n \<le> length buf \<and> bs_bytes b' = bs_bytes b @ take n buf" if "g_output_stream_write b buf = (b', Inr n)"
    using that buffered_write_takes [of "bs_stream b" buf "next_outcome b"]
    by (auto simp: g_output_stream_write_def bs_bytes_def split: if_splits prod.splits)
  show "bs_bytes b' = bs_bytes b" if "g_output_stream_write b buf = (b', Inl e)"
    using that buffered_write_takes [of "bs_stream b" buf "next_outcome b"]
    by (auto simp: g_output_stream_write_def bs_bytes_def split: if_splits prod.splits)
qed

text \<open>
  The buffered output stream takes everything as long as nothing is pending on it and the base
  stream gives no error but WOULD_BLOCK.
\<close>

definition bs_healthy :: "bo_stream \<Rightarrow> bool" where
  "bs_healthy b \<longleftrightarrow>
     bo_auto_grow (bs_stream b) \<and> \<not> bo_closed (bs_stream b) \<and> bo_async (bs_stream b) = None \<and>
     list_all (\<lambda>os. os = Inl G_IO_ERROR_WOULD_BLOCK \<or> (\<exists>n. os = Inr n)) (bs_base b)"

interpretation bs: reliable_stream g_output_stream_write bs_bytes bs_healthy
proof
  fix b buf
  assume h: "bs_healthy b"
  have o: "next_outcome b = Inl G_IO_ERROR_WOULD_BLOCK \<or> (\<exists>n. next_outcome b = Inr n)"
    using h by (auto simp: next_outcome_def bs_healthy_def split: list.split)
  have d: "list_all P (drop 1 xs)" if "list_all P xs" for P and xs :: "(gio_error + nat) list"
    using that by (cases xs) auto
  have g: "bo_auto_grow (bs_stream b)" using h by (simp add: bs_healthy_def)
  show "\<exists>b'. g_output_stream_write b buf = (b', Inr (length buf)) \<and> bs_healthy b'"
    using h o d by (auto simp: g_output_stream_write_def write_grow [OF g] bs_healthy_def grown_def)
qed

section \<open>The writer\<close>

datatype SoupEncoding =
    SOUP_ENCODING_UNRECOGNIZED
  | SOUP_ENCODING_NONE
  | SOUP_ENCODING_CONTENT_LENGTH
  | SOUP_ENCODING_EOF
  | SOUP_ENCODING_CHUNKED
  | SOUP_ENCODING_BYTERANGES

record 's http_out =
  ho_encoding :: SoupEncoding
  ho_stream :: 's

text \<open>
  The functions give the error that was set, or \<^term>\<open>None\<close> for TRUE. \<open>write_plain\<close> is the second
  branch of \<open>evd_http_connection_write_content\<close>, which \<open>evd_http_connection_write_chunk\<close> uses
  because it sets the encoding to EOF first (\<open>write_content_eof\<close> below).
\<close>

definition write_plain ::
  "('s \<Rightarrow> byte list \<Rightarrow> 's \<times> (gio_error + nat)) \<Rightarrow> 's http_out \<Rightarrow> byte list \<Rightarrow> 's http_out \<times> gio_error option"
where
  "write_plain put c buffer =
     (case put (ho_stream c) buffer of
        (s, Inl e) \<Rightarrow> (c\<lparr>ho_stream := s\<rparr>, Some e)
      | (s, Inr size_written) \<Rightarrow>
          if size_written < length buffer then (c\<lparr>ho_stream := s\<rparr>, Some G_IO_ERROR_OTHER)
          else (c\<lparr>ho_stream := s\<rparr>, None))"

definition evd_http_connection_write_chunk ::
  "('s \<Rightarrow> byte list \<Rightarrow> 's \<times> (gio_error + nat)) \<Rightarrow> 's http_out \<Rightarrow> byte list \<Rightarrow> 's http_out \<times> gio_error option"
where
  "evd_http_connection_write_chunk put c buffer =
     (let c = c\<lparr>ho_encoding := SOUP_ENCODING_EOF\<rparr>;
          chunk_hdr = hex_text (length buffer mod 2 ^ 32) @ [13, 10];
          (c, r) = write_plain put c chunk_hdr;
          (c, r) = (if r = None \<and> length buffer > 0 then write_plain put c buffer else (c, r));
          (c, r) = (if r = None then write_plain put c [13, 10] else (c, r))
      in (c\<lparr>ho_encoding := SOUP_ENCODING_CHUNKED\<rparr>, r))"

definition evd_http_connection_write_content ::
  "('s \<Rightarrow> byte list \<Rightarrow> 's \<times> (gio_error + nat)) \<Rightarrow> 's http_out \<Rightarrow> byte list \<Rightarrow> bool \<Rightarrow>
     's http_out \<times> gio_error option"
where
  "evd_http_connection_write_content put c buffer has_more =
     (if ho_encoding c = SOUP_ENCODING_CHUNKED
      then (case (if length buffer = 0 then (c, None) else evd_http_connection_write_chunk put c buffer) of
              (c, None) \<Rightarrow> if \<not> has_more then evd_http_connection_write_chunk put c [] else (c, None)
            | (c, Some e) \<Rightarrow> (c, Some e))
      else write_plain put c buffer)"

lemma write_content_eof:
  "ho_encoding c = SOUP_ENCODING_EOF \<Longrightarrow>
     evd_http_connection_write_content put c buffer has_more = write_plain put c buffer"
  by (simp add: evd_http_connection_write_content_def)

text \<open>
  The status line and the headers, as name and value; \<open>reason\<close> is the phrase given or the one of
  \<open>soup_status_get_phrase\<close>, \<open>enc\<close> what \<open>soup_message_headers_get_encoding\<close> says of the headers.
\<close>

fun decimal_text :: "nat \<Rightarrow> byte list" where
  "decimal_text n =
     (if n < 10 then [of_nat (48 + n)] else decimal_text (n div 10) @ [of_nat (48 + n mod 10)])"

definition response_head ::
  "nat \<Rightarrow> nat \<Rightarrow> string \<Rightarrow> (string \<times> string) list option \<Rightarrow> byte list"
where
  "response_head version status_code reason headers =
     ascii ''HTTP/1.'' @ decimal_text version @ ascii '' '' @ decimal_text status_code @ ascii '' '' @
     ascii reason @ [13, 10] @
     (case headers of
        None \<Rightarrow> []
      | Some hs \<Rightarrow> concat (map (\<lambda>(name, value). ascii name @ ascii '': '' @ ascii value @ [13, 10]) hs)) @
     [13, 10]"

definition evd_http_connection_write_response_headers ::
  "('s \<Rightarrow> byte list \<Rightarrow> 's \<times> (gio_error + nat)) \<Rightarrow> 's http_out \<Rightarrow> nat \<Rightarrow> nat \<Rightarrow> string \<Rightarrow>
     (string \<times> string) list option \<Rightarrow> SoupEncoding \<Rightarrow> 's http_out \<times> gio_error option"
where
  "evd_http_connection_write_response_headers put c version status_code reason headers enc =
     (let c = c\<lparr>ho_encoding := (if headers = None then SOUP_ENCODING_EOF else enc)\<rparr>
      in case put (ho_stream c) (response_head version status_code reason headers) of
           (s, Inl e) \<Rightarrow> (c\<lparr>ho_stream := s\<rparr>, Some e)
         | (s, Inr n) \<Rightarrow> (c\<lparr>ho_stream := s\<rparr>, None))"

text \<open>A whole body: pieces announced to be followed by more, then the end of the content.\<close>

primrec write_pieces ::
  "('s \<Rightarrow> byte list \<Rightarrow> 's \<times> (gio_error + nat)) \<Rightarrow> 's http_out \<Rightarrow> byte list list \<Rightarrow>
     's http_out \<times> gio_error option"
where
  "write_pieces put c [] = (c, None)"
| "write_pieces put c (b # bs) =
     (case evd_http_connection_write_content put c b True of
        (c, None) \<Rightarrow> write_pieces put c bs
      | (c, Some e) \<Rightarrow> (c, Some e))"

definition write_body ::
  "('s \<Rightarrow> byte list \<Rightarrow> 's \<times> (gio_error + nat)) \<Rightarrow> 's http_out \<Rightarrow> byte list list \<Rightarrow>
     's http_out \<times> gio_error option"
where
  "write_body put c bs =
     (case write_pieces put c bs of
        (c, None) \<Rightarrow> evd_http_connection_write_content put c [] False
      | (c, Some e) \<Rightarrow> (c, Some e))"

section \<open>What the writer writes\<close>

definition chunk_of :: "byte list \<Rightarrow> byte list \<times> byte list" where
  "chunk_of b = (hex_text (length b mod 2 ^ 32), b)"

text \<open>The bytes of the chunks for a list of pieces; empty pieces make none.\<close>

definition pieces_text :: "byte list list \<Rightarrow> byte list" where
  "pieces_text bs = concat (map (chunk_text \<circ> chunk_of) (filter (\<lambda>b. b \<noteq> []) bs))"

lemma pieces_text_simps [simp]:
  "pieces_text [] = []"
  "pieces_text (b # bs) = (if b = [] then [] else chunk_text (chunk_of b)) @ pieces_text bs"
  "pieces_text (bs @ bs') = pieces_text bs @ pieces_text bs'"
  by (simp_all add: pieces_text_def)

definition last_chunk :: "byte list" where
  "last_chunk = hex_text 0 @ crlf @ crlf"

context output_stream
begin

lemma write_plain_done:
  assumes "write_plain put c buf = (c', None)"
  shows "written (ho_stream c') = written (ho_stream c) @ buf \<and> ho_encoding c' = ho_encoding c"
  using assms put_taken [of "ho_stream c" buf]
  by (fastforce simp: write_plain_def split: prod.splits sum.splits if_splits)

lemma write_chunk_done:
  assumes "evd_http_connection_write_chunk put c buf = (c', None)"
  shows "written (ho_stream c') = written (ho_stream c) @
      (if buf = [] then last_chunk else chunk_text (chunk_of buf)) \<and>
    ho_encoding c' = SOUP_ENCODING_CHUNKED"
proof -
  let ?c = "c\<lparr>ho_encoding := SOUP_ENCODING_EOF\<rparr>"
  obtain c1 r1 where 1: "write_plain put ?c (hex_text (length buf mod 2 ^ 32) @ [13, 10]) = (c1, r1)"
    by fastforce
  have r1: "r1 = None" using assms 1 by (cases r1) (auto simp: evd_http_connection_write_chunk_def Let_def)
  obtain c2 r2 where 2: "(if length buf > 0 then write_plain put c1 buf else (c1, None)) = (c2, r2)"
    by fastforce
  have r2: "r2 = None" using assms 1 r1 2
    by (cases r2) (auto simp: evd_http_connection_write_chunk_def Let_def split: if_splits)
  obtain c3 where 3: "write_plain put c2 [13, 10] = (c3, None)" "c' = c3\<lparr>ho_encoding := SOUP_ENCODING_CHUNKED\<rparr>"
    using assms 1 r1 2 r2
    by (auto simp: evd_http_connection_write_chunk_def Let_def split: if_splits prod.splits)
  have "written (ho_stream c2) = written (ho_stream c1) @ buf"
    using 2 r2 write_plain_done [of c1 buf c2] by (auto split: if_splits)
  with write_plain_done [OF 1 [unfolded r1]] write_plain_done [OF 3(1)] 3(2) show ?thesis
    by (simp add: chunk_text_def chunk_of_def last_chunk_def crlf_def)
qed

lemma write_content_done:
  assumes "evd_http_connection_write_content put c buf has_more = (c', None)"
    and "ho_encoding c = SOUP_ENCODING_CHUNKED"
  shows "written (ho_stream c') = written (ho_stream c) @ pieces_text [buf] @ (if has_more then [] else last_chunk) \<and>
    ho_encoding c' = SOUP_ENCODING_CHUNKED"
proof (cases "buf = []")
  case True
  with assms show ?thesis
    by (auto simp: evd_http_connection_write_content_def dest: write_chunk_done split: if_splits)
next
  case False
  then obtain c1 where "evd_http_connection_write_chunk put c buf = (c1, None)"
    "if has_more then c' = c1 else evd_http_connection_write_chunk put c1 [] = (c', None)"
    using assms by (auto simp: evd_http_connection_write_content_def split: prod.splits option.splits if_splits)
  with False show ?thesis by (auto dest!: write_chunk_done split: if_splits)
qed

lemma write_pieces_done:
  "write_pieces put c bs = (c', None) \<Longrightarrow> ho_encoding c = SOUP_ENCODING_CHUNKED \<Longrightarrow>
     written (ho_stream c') = written (ho_stream c) @ pieces_text bs \<and> ho_encoding c' = SOUP_ENCODING_CHUNKED"
proof (induction bs arbitrary: c)
  case Nil
  then show ?case by simp
next
  case (Cons b bs)
  then obtain c1 where 1: "evd_http_connection_write_content put c b True = (c1, None)"
    "write_pieces put c1 bs = (c', None)"
    by (auto split: prod.splits option.splits)
  from write_content_done [OF 1(1) Cons.prems(2)] Cons.IH [OF 1(2)] show ?case by simp
qed

lemma write_body_done:
  assumes "write_body put c bs = (c', None)" and "ho_encoding c = SOUP_ENCODING_CHUNKED"
  shows "written (ho_stream c') = written (ho_stream c) @ pieces_text bs @ last_chunk"
proof -
  from assms(1) obtain c1 where 1: "write_pieces put c bs = (c1, None)"
    "evd_http_connection_write_content put c1 [] False = (c', None)"
    by (auto simp: write_body_def split: prod.splits option.splits)
  from write_pieces_done [OF 1(1) assms(2)] write_content_done [OF 1(2)] show ?thesis by simp
qed

end

text \<open>On a stream that takes everything, every write succeeds.\<close>

context reliable_stream
begin

lemma write_plain_healthy:
  "healthy (ho_stream c) \<Longrightarrow> \<exists>c'. write_plain put c buf = (c', None) \<and> healthy (ho_stream c')"
  using healthy_put [of "ho_stream c" buf] by (auto simp: write_plain_def)

lemma write_chunk_healthy:
  assumes "healthy (ho_stream c)"
  shows "\<exists>c'. evd_http_connection_write_chunk put c buf = (c', None) \<and> healthy (ho_stream c')"
proof -
  let ?c = "c\<lparr>ho_encoding := SOUP_ENCODING_EOF\<rparr>"
  obtain c1 where 1: "write_plain put ?c (hex_text (length buf mod 2 ^ 32) @ [13, 10]) = (c1, None)"
    "healthy (ho_stream c1)"
    using write_plain_healthy [of ?c] assms by auto
  obtain c2 where 2: "(if length buf > 0 then write_plain put c1 buf else (c1, None)) = (c2, None)"
    "healthy (ho_stream c2)"
    using write_plain_healthy [OF 1(2)] 1(2) by (cases "length buf > 0") auto
  obtain c3 where 3: "write_plain put c2 [13, 10] = (c3, None)" "healthy (ho_stream c3)"
    using write_plain_healthy [OF 2(2)] by auto
  from 1 2 3 show ?thesis by (simp add: evd_http_connection_write_chunk_def Let_def split: if_splits)
qed

lemma write_content_healthy:
  assumes "healthy (ho_stream c)"
  shows "\<exists>c'. evd_http_connection_write_content put c buf has_more = (c', None) \<and> healthy (ho_stream c')"
proof (cases "ho_encoding c = SOUP_ENCODING_CHUNKED")
  case True
  obtain c1 where 1: "(if length buf = 0 then (c, None) else evd_http_connection_write_chunk put c buf) = (c1, None)"
    "healthy (ho_stream c1)"
    using write_chunk_healthy [OF assms] assms by (cases "length buf = 0") auto
  with True write_chunk_healthy [OF 1(2), of "[]"] show ?thesis
    by (auto simp: evd_http_connection_write_content_def)
next
  case False
  with write_plain_healthy [OF assms] show ?thesis by (simp add: evd_http_connection_write_content_def)
qed

end

lemma chunk_of_ok: "b \<noteq> [] \<Longrightarrow> length b < 2 ^ 32 \<Longrightarrow> chunk_ok (chunk_of b)"
  by (simp add: chunk_of_def chunk_ok_def size_text_hex)

lemma concat_nonempty: "concat (filter (\<lambda>b. b \<noteq> []) bs) = concat bs"
  by (induction bs) auto

lemma decode_pieces:
  assumes "concat blocks = pieces_text bs @ last_chunk" and "\<forall>b \<in> set bs. length b < 2 ^ 32"
  shows "read_content evd_http_chunked_decoder_init blocks = Some (concat bs, True, None)"
proof -
  let ?cs = "map chunk_of (filter (\<lambda>b. b \<noteq> []) bs)"
  have "concat blocks = concat (map chunk_text ?cs) @ hex_text 0 @ crlf @ crlf"
    using assms(1) by (simp add: pieces_text_def last_chunk_def)
  moreover have "list_all chunk_ok ?cs" using assms(2) by (auto simp: list_all_iff chunk_of_ok)
  moreover have "size_text (hex_text 0) 0" by (rule size_text_hex) simp
  ultimately have "read_content evd_http_chunked_decoder_init blocks = Some (concat (map snd ?cs), True, None)"
    using decode_chunks [OF between_chunks_init, of ?cs "hex_text 0" crlf]
    by (auto simp: read_content_decode content_result_def)
  then show ?thesis by (simp add: comp_def chunk_of_def concat_nonempty)
qed

section \<open>Properties\<close>

text \<open>
  C30. What the HTTP writer writes in chunked encoding through the buffered output stream, pieces
  of less than 4 GiB and then the end of the content, the chunked decoder of the receiving end
  turns back into the pieces, however the bytes are cut into blocks on the way.
\<close>

theorem http_chunked_roundtrip:
  assumes "write_body g_output_stream_write c bs = (c', None)" and "ho_encoding c = SOUP_ENCODING_CHUNKED"
    and "\<forall>b \<in> set bs. length b < 2 ^ 32"
    and "bs_bytes (ho_stream c') = bs_bytes (ho_stream c) @ concat blocks"
  shows "read_content evd_http_chunked_decoder_init blocks = Some (concat bs, True, None)"
  using decode_pieces [OF _ assms(3)] bs.write_body_done [OF assms(1,2)] assms(4) by simp

lemmas writer_eval [evd_eval] = write_body_def evd_http_connection_write_content_def evd_http_connection_write_chunk_def
  write_plain_def g_output_stream_write_def next_outcome_def accepted_def hex_text.simps hex_char_def

theorem http_chunked_roundtrip_witness:
  "\<exists>c'. write_body g_output_stream_write
      \<lparr>ho_encoding = SOUP_ENCODING_CHUNKED,
       ho_stream = \<lparr>bs_stream = evd_buffered_output_stream_init, bs_log = [],
                   bs_base = [Inr 9, Inr 1, Inl G_IO_ERROR_WOULD_BLOCK]\<rparr>\<rparr> [[0x61, 0x62], [], [0x63]] = (c', None) \<and>
    read_content evd_http_chunked_decoder_init [[0x32, 13, 10, 0x61], [0x62, 13, 10, 0x31, 13, 10, 0x63, 13],
      [10, 0x30, 13, 10], [13, 10]] = Some ([0x61, 0x62, 0x63], True, None)"
proof -
  let ?c = "\<lparr>ho_encoding = SOUP_ENCODING_CHUNKED,
       ho_stream = \<lparr>bs_stream = evd_buffered_output_stream_init, bs_log = [],
                   bs_base = [Inr 9, Inr 1, Inl G_IO_ERROR_WOULD_BLOCK]\<rparr>\<rparr>"
  let ?bs = "[[0x61, 0x62], [], [0x63]] :: byte list list"
  have "snd (write_body g_output_stream_write ?c ?bs) = None" by (simp add: evd_eval)
  then obtain c' where c': "write_body g_output_stream_write ?c ?bs = (c', None)"
    by (metis prod.collapse)
  have w: "bs_bytes (ho_stream c') = bs_bytes (ho_stream ?c) @
      concat [[0x32, 13, 10, 0x61], [0x62, 13, 10, 0x31, 13, 10, 0x63, 13], [10, 0x30, 13, 10], [13, 10]]"
    using bs.write_body_done [OF c'] by (simp add: chunk_text_def chunk_of_def crlf_def last_chunk_def
        hex_text.simps hex_char_def)
  from http_chunked_roundtrip [OF c' _ _ w] c' show ?thesis by (simp del: read_content.simps)
qed

end
