(* ===== verification/Peer.thy ===== *)
theory Peer
  imports Evd_Prelude
begin

text \<open>
  Peers, \<open>evd/evd-peer.c\<close>, the peer manager, \<open>evd/evd-peer-manager.c\<close>, and the functions that
  every transport shares, \<open>evd/evd-transport.c\<close>. Peers are objects with a reference count on a heap;
  the manager keeps a table from identifiers to peers; the main loop has the idle sources that the
  manager started. The value \<^term>\<open>None\<close> is the use of a freed object. Signal handlers are
  observers: the signals and the hook \<open>peer_closed\<close> of the transport go to a log.
\<close>

section \<open>Messages waiting for a peer\<close>

record BacklogFrame =
  bf_type :: EvdMessageType
  bf_buf :: "byte list"

text \<open>
  What a transport relies on: messages pushed at the tail come out at the head in order, and a
  message that could not be delivered goes back to the head.
\<close>

locale message_queue =
  fixes messages :: "'q \<Rightarrow> 'm list"
    and push :: "'q \<Rightarrow> 'm \<Rightarrow> 'q"
    and unshift :: "'q \<Rightarrow> 'm \<Rightarrow> 'q"
    and pop :: "'q \<Rightarrow> ('m \<times> 'q) option"
    and storable :: "'m \<Rightarrow> bool"
  assumes push_messages: "messages (push q m) = messages q @ [m]"
    and unshift_messages: "storable m \<Longrightarrow> messages (unshift q m) = m # messages q"
    and pop_empty: "messages q = [] \<Longrightarrow> pop q = None"
    and pop_first: "messages q = m # ms \<Longrightarrow> \<exists>q'. pop q = Some (m, q') \<and> messages q' = ms"
begin

lemma pop_SomeD: "pop q = Some (m, q') \<Longrightarrow> messages q = m # messages q'"
  using pop_empty [of q] pop_first [of q] by (cases "messages q") auto

lemma unshift_pop: "pop q = Some (m, q') \<Longrightarrow> storable m \<Longrightarrow> messages (unshift q' m) = messages q"
  by (simp add: unshift_messages pop_SomeD)

end

definition create_new_backlog_frame :: "byte list \<Rightarrow> EvdMessageType \<Rightarrow> BacklogFrame" where
  "create_new_backlog_frame message type = \<lparr>bf_type = type, bf_buf = message\<rparr>"

section \<open>Peers\<close>

definition DEFAULT_TIMEOUT_INTERVAL :: nat where "DEFAULT_TIMEOUT_INTERVAL = 15"

text \<open>
  Times are in microseconds. \<open>pe_closing\<close> is the data \<open>PEER_CLOSING_KEY\<close> of the transport,
  \<open>pe_manager\<close> the data \<open>PEER_DATA_KEY\<close> of the peer manager.
\<close>

record EvdPeer =
  pe_id :: string
  pe_closed :: bool
  pe_backlog :: "BacklogFrame list"
  pe_idle_timer :: nat
  pe_timeout_interval :: nat
  pe_ref_count :: nat
  pe_closing :: bool
  pe_manager :: bool

definition evd_peer_init :: "string \<Rightarrow> nat \<Rightarrow> EvdPeer" where
  "evd_peer_init uuid now =
     \<lparr>pe_id = uuid, pe_closed = False, pe_backlog = [], pe_idle_timer = now,
      pe_timeout_interval = DEFAULT_TIMEOUT_INTERVAL, pe_ref_count = 1, pe_closing = False,
      pe_manager = False\<rparr>"

definition evd_peer_push_message :: "EvdPeer \<Rightarrow> byte list \<Rightarrow> EvdMessageType \<Rightarrow> EvdPeer \<times> bool" where
  "evd_peer_push_message e message type =
     (e\<lparr>pe_backlog := pe_backlog e @ [create_new_backlog_frame message type]\<rparr>, True)"

definition evd_peer_unshift_message :: "EvdPeer \<Rightarrow> byte list \<Rightarrow> EvdMessageType \<Rightarrow> EvdPeer \<times> bool" where
  "evd_peer_unshift_message e message type =
     (if length message = 0 then (e, True)
      else (e\<lparr>pe_backlog := create_new_backlog_frame message type # pe_backlog e\<rparr>, True))"

definition evd_peer_pop_message :: "EvdPeer \<Rightarrow> EvdPeer \<times> (byte list \<times> EvdMessageType) option" where
  "evd_peer_pop_message e =
     (case pe_backlog e of
        [] \<Rightarrow> (e, None)
      | frame # frames \<Rightarrow> (e\<lparr>pe_backlog := frames\<rparr>, Some (bf_buf frame, bf_type frame)))"

definition evd_peer_backlog_get_length :: "EvdPeer \<Rightarrow> nat" where
  "evd_peer_backlog_get_length e = length (pe_backlog e)"

definition evd_peer_backlog_push_frame :: "EvdPeer \<Rightarrow> byte list \<Rightarrow> EvdPeer \<times> bool" where
  "evd_peer_backlog_push_frame e frame = evd_peer_push_message e frame EVD_MESSAGE_TYPE_TEXT"

definition evd_peer_backlog_unshift_frame :: "EvdPeer \<Rightarrow> byte list \<Rightarrow> EvdPeer \<times> bool" where
  "evd_peer_backlog_unshift_frame e frame = evd_peer_unshift_message e frame EVD_MESSAGE_TYPE_TEXT"

definition evd_peer_backlog_pop_frame :: "EvdPeer \<Rightarrow> EvdPeer \<times> byte list option" where
  "evd_peer_backlog_pop_frame e =
     (case evd_peer_pop_message e of (e', r) \<Rightarrow> (e', map_option fst r))"

definition evd_peer_touch :: "nat \<Rightarrow> EvdPeer \<Rightarrow> EvdPeer" where
  "evd_peer_touch now e = e\<lparr>pe_idle_timer := now\<rparr>"

definition evd_peer_is_closed :: "EvdPeer \<Rightarrow> bool" where
  "evd_peer_is_closed e = pe_closed e"

text \<open>The messages of a peer, with their types, as a queue.\<close>

definition peer_messages :: "EvdPeer \<Rightarrow> (byte list \<times> EvdMessageType) list" where
  "peer_messages e = map (\<lambda>f. (bf_buf f, bf_type f)) (pe_backlog e)"

interpretation backlog: message_queue peer_messages
    "\<lambda>e m. fst (evd_peer_push_message e (fst m) (snd m))"
    "\<lambda>e m. fst (evd_peer_unshift_message e (fst m) (snd m))"
    "\<lambda>e. case evd_peer_pop_message e of (e', r) \<Rightarrow> map_option (\<lambda>m. (m, e')) r"
    "\<lambda>m. fst m \<noteq> []"
  by unfold_locales
    (auto simp: peer_messages_def evd_peer_push_message_def evd_peer_unshift_message_def
      evd_peer_pop_message_def create_new_backlog_frame_def split: list.splits)

section \<open>The peer manager\<close>

definition DEFAULT_PEER_CLEANUP_INTERVAL :: nat where "DEFAULT_PEER_CLEANUP_INTERVAL = 5"

definition seconds :: "nat \<Rightarrow> nat" where "seconds n = n * 1000000"

datatype manager_source = Notify_new_peer nat | Cleanup_peers

datatype peer_event =
    Transport_peer_closed_hook nat bool
  | Transport_peer_closed nat bool
  | Transport_new_peer nat
  | Manager_peer_closed nat bool
  | Manager_new_peer nat

text \<open>
  \<open>pw_connected\<close> is what the transport answers about each peer; \<open>pw_sources\<close> are the idle sources
  with their numbers, the oldest first.
\<close>

record peer_world =
  pw_heap :: "nat \<Rightarrow> EvdPeer option"
  pw_peers :: "(string \<times> nat) list"
  pw_removal_list :: "nat list"
  pw_cleanup_timer :: nat
  pw_cleanup_interval :: nat
  pw_cleanup_src_id :: nat
  pw_manager_alive :: bool
  pw_sources :: "(nat \<times> manager_source) list"
  pw_next_source :: nat
  pw_now :: nat
  pw_connected :: "nat \<Rightarrow> bool"
  pw_log :: "peer_event list"

definition evd_peer_manager_init :: "nat \<Rightarrow> peer_world" where
  "evd_peer_manager_init now =
     \<lparr>pw_heap = (\<lambda>p. None), pw_peers = [], pw_removal_list = [], pw_cleanup_timer = now,
      pw_cleanup_interval = DEFAULT_PEER_CLEANUP_INTERVAL, pw_cleanup_src_id = 0,
      pw_manager_alive = True, pw_sources = [], pw_next_source = 1, pw_now = now,
      pw_connected = (\<lambda>p. False), pw_log = []\<rparr>"

definition peer_log :: "peer_event \<Rightarrow> peer_world \<Rightarrow> peer_world" where
  "peer_log ev w = w\<lparr>pw_log := pw_log w @ [ev]\<rparr>"

definition set_peer :: "nat \<Rightarrow> EvdPeer \<Rightarrow> peer_world \<Rightarrow> peer_world" where
  "set_peer p e w = w\<lparr>pw_heap := (pw_heap w)(p := Some e)\<rparr>"

definition peer_ref :: "nat \<Rightarrow> peer_world \<Rightarrow> peer_world option" where
  "peer_ref p w =
     (case pw_heap w p of
        None \<Rightarrow> None
      | Some e \<Rightarrow> Some (set_peer p (e\<lparr>pe_ref_count := pe_ref_count e + 1\<rparr>) w))"

text \<open>Dropping the last reference disposes of the peer and frees its backlog.\<close>

definition peer_unref :: "nat \<Rightarrow> peer_world \<Rightarrow> peer_world option" where
  "peer_unref p w =
     (case pw_heap w p of
        None \<Rightarrow> None
      | Some e \<Rightarrow>
          if pe_ref_count e > 1 then Some (set_peer p (e\<lparr>pe_ref_count := pe_ref_count e - 1\<rparr>) w)
          else Some (w\<lparr>pw_heap := (pw_heap w)(p := None)\<rparr>))"

definition add_source :: "manager_source \<Rightarrow> peer_world \<Rightarrow> peer_world \<times> nat" where
  "add_source src w =
     (w\<lparr>pw_sources := pw_sources w @ [(pw_next_source w, src)], pw_next_source := pw_next_source w + 1\<rparr>,
      pw_next_source w)"

section \<open>Closing\<close>

text \<open>
  Closing a peer goes back and forth between the peer, its transport and the manager, each of which
  may be called first; flags stop the recursion. The number is fuel for it: \<open>close_fuel\<close> is shown
  to be enough below.
\<close>

fun evd_peer_close :: "nat \<Rightarrow> nat \<Rightarrow> bool \<Rightarrow> peer_world \<Rightarrow> peer_world option"
  and evd_transport_close_peer :: "nat \<Rightarrow> nat \<Rightarrow> bool \<Rightarrow> peer_world \<Rightarrow> peer_world option"
  and evd_peer_manager_close_peer :: "nat \<Rightarrow> nat \<Rightarrow> bool \<Rightarrow> peer_world \<Rightarrow> peer_world option"
  and evd_peer_manager_close_peer_internal :: "nat \<Rightarrow> nat \<Rightarrow> bool \<Rightarrow> peer_world \<Rightarrow> peer_world option"
where
  "evd_peer_close 0 p gracefully w = None"
| "evd_peer_close (Suc n) p gracefully w = do {
     e \<leftarrow> pw_heap w p;
     if pe_closed e then Some w
     else evd_transport_close_peer n p gracefully (set_peer p (e\<lparr>pe_closed := True\<rparr>) w)
   }"
| "evd_transport_close_peer 0 p gracefully w = None"
| "evd_transport_close_peer (Suc n) p gracefully w = do {
     e \<leftarrow> pw_heap w p;
     if pe_closing e then Some w
     else do {
       w \<leftarrow> peer_ref p (set_peer p (e\<lparr>pe_closing := True\<rparr>) w);
       w \<leftarrow> evd_peer_manager_close_peer n p gracefully w;
       w \<leftarrow> evd_peer_close n p gracefully w;
       let w = peer_log (Transport_peer_closed p gracefully) (peer_log (Transport_peer_closed_hook p gracefully) w);
       e \<leftarrow> pw_heap w p;
       peer_unref p (set_peer p (e\<lparr>pe_closing := False\<rparr>) w)
     }
   }"
| "evd_peer_manager_close_peer 0 p gracefully w = None"
| "evd_peer_manager_close_peer (Suc n) p gracefully w = do {
     e \<leftarrow> pw_heap w p;
     case map_of (pw_peers w) (pe_id e) of
       None \<Rightarrow> Some w
     | Some q \<Rightarrow> do {
         w \<leftarrow> peer_unref q (w\<lparr>pw_peers := filter (\<lambda>kv. fst kv \<noteq> pe_id e) (pw_peers w)\<rparr>);
         evd_peer_manager_close_peer_internal n p gracefully w
       }
   }"
| "evd_peer_manager_close_peer_internal 0 p gracefully w = None"
| "evd_peer_manager_close_peer_internal (Suc n) p gracefully w =
     map_option (peer_log (Manager_peer_closed p gracefully)) (evd_peer_close n p gracefully w)"

definition close_fuel :: nat where "close_fuel = 8"

section \<open>Cleaning up\<close>

definition evd_transport_peer_is_connected :: "nat \<Rightarrow> peer_world \<Rightarrow> (peer_world \<times> bool) option" where
  "evd_transport_peer_is_connected p w =
     (if pw_connected w p
      then do { e \<leftarrow> pw_heap w p; Some (set_peer p (evd_peer_touch (pw_now w) e) w, True) }
      else Some (w, False))"

definition evd_peer_is_alive :: "nat \<Rightarrow> peer_world \<Rightarrow> (peer_world \<times> bool) option" where
  "evd_peer_is_alive p w = do {
     e \<leftarrow> pw_heap w p;
     if pe_closed e then Some (w, False)
     else if pw_now w - pe_idle_timer e \<le> seconds (pe_timeout_interval e) then Some (w, True)
     else evd_transport_peer_is_connected p w
   }"

text \<open>\<open>evd_peer_manager_check_peer\<close>: whether the peer is to be removed from the table.\<close>

definition evd_peer_manager_check_peer :: "nat \<Rightarrow> peer_world \<Rightarrow> (peer_world \<times> bool) option" where
  "evd_peer_manager_check_peer p w = do {
     (w, alive) \<leftarrow> evd_peer_is_alive p w;
     if alive then Some (w, False)
     else do {
       w \<leftarrow> peer_ref p w;
       Some (w\<lparr>pw_removal_list := pw_removal_list w @ [p]\<rparr>, True)
     }
   }"

text \<open>\<open>g_hash_table_foreach_remove\<close> over the entries of the table.\<close>

primrec foreach_remove :: "(string \<times> nat) list \<Rightarrow> peer_world \<Rightarrow> peer_world option" where
  "foreach_remove [] w = Some w"
| "foreach_remove (kv # kvs) w = do {
     (w, removed) \<leftarrow> evd_peer_manager_check_peer (snd kv) w;
     w \<leftarrow> (if removed
           then peer_unref (snd kv) (w\<lparr>pw_peers := filter (\<lambda>kv'. fst kv' \<noteq> fst kv) (pw_peers w)\<rparr>)
           else Some w);
     foreach_remove kvs w
   }"

text \<open>The loop that closes the peers of the removal list, from its head.\<close>

primrec close_removed :: "nat list \<Rightarrow> peer_world \<Rightarrow> peer_world option" where
  "close_removed [] w = Some w"
| "close_removed (p # ps) w = do {
     w \<leftarrow> evd_peer_manager_close_peer_internal close_fuel p False (w\<lparr>pw_removal_list := ps\<rparr>);
     w \<leftarrow> peer_unref p w;
     close_removed ps w
   }"

definition evd_peer_manager_cleanup_peers :: "peer_world \<Rightarrow> peer_world option" where
  "evd_peer_manager_cleanup_peers w =
     (if pw_now w - pw_cleanup_timer w \<le> seconds (pw_cleanup_interval w) then Some w
      else do {
        w \<leftarrow> foreach_remove (pw_peers w) (w\<lparr>pw_cleanup_timer := pw_now w\<rparr>);
        close_removed (pw_removal_list w) w
      })"

section \<open>Adding and looking up\<close>

definition insert_peer :: "string \<Rightarrow> nat \<Rightarrow> peer_world \<Rightarrow> peer_world option" where
  "insert_peer key p w = do {
     let w' = w\<lparr>pw_peers := filter (\<lambda>kv. fst kv \<noteq> key) (pw_peers w) @ [(key, p)]\<rparr>;
     case map_of (pw_peers w) key of None \<Rightarrow> Some w' | Some q \<Rightarrow> peer_unref q w'
   }"

definition evd_peer_manager_add_peer :: "nat \<Rightarrow> peer_world \<Rightarrow> peer_world option" where
  "evd_peer_manager_add_peer p w = do {
     w \<leftarrow> peer_ref p w;
     e \<leftarrow> pw_heap w p;
     w \<leftarrow> insert_peer (pe_id e) p w;
     e \<leftarrow> pw_heap w p;
     let w = set_peer p (e\<lparr>pe_manager := True\<rparr>) w;
     evd_peer_manager_cleanup_peers (fst (add_source (Notify_new_peer p) w))
   }"

definition evd_peer_manager_notify_new_peer :: "nat \<Rightarrow> peer_world \<Rightarrow> peer_world option" where
  "evd_peer_manager_notify_new_peer p w = do {
     e \<leftarrow> pw_heap w p;
     if pe_manager e
     then Some (set_peer p (e\<lparr>pe_manager := False\<rparr>) (peer_log (Manager_new_peer p) w))
     else None
   }"

definition evd_peer_manager_lookup_peer :: "string option \<Rightarrow> peer_world \<Rightarrow> peer_world \<times> nat option" where
  "evd_peer_manager_lookup_peer peer_id w =
     (case peer_id of
        None \<Rightarrow> (w, None)
      | Some key \<Rightarrow>
          (case add_source Cleanup_peers w of
             (w', src) \<Rightarrow> (w'\<lparr>pw_cleanup_src_id := src\<rparr>, map_of (pw_peers w) key)))"

definition evd_peer_manager_cleanup_peers_cb :: "peer_world \<Rightarrow> peer_world option" where
  "evd_peer_manager_cleanup_peers_cb w =
     (if pw_manager_alive w then evd_peer_manager_cleanup_peers (w\<lparr>pw_cleanup_src_id := 0\<rparr>) else None)"

definition evd_peer_manager_get_all_peers :: "peer_world \<Rightarrow> (peer_world \<times> nat list) option" where
  "evd_peer_manager_get_all_peers w =
     map_option (\<lambda>w. (w, map snd (pw_peers w))) (evd_peer_manager_cleanup_peers w)"

primrec unref_all :: "nat list \<Rightarrow> peer_world \<Rightarrow> peer_world option" where
  "unref_all [] w = Some w"
| "unref_all (p # ps) w = do { w \<leftarrow> peer_unref p w; unref_all ps w }"

definition evd_peer_manager_dispose :: "peer_world \<Rightarrow> peer_world option" where
  "evd_peer_manager_dispose w = do {
     w \<leftarrow> close_removed (pw_removal_list w) w;
     unref_all (map snd (pw_peers w)) (w\<lparr>pw_peers := []\<rparr>)
   }"

text \<open>Finalization removes the source whose number was stored last.\<close>

definition evd_peer_manager_finalize :: "peer_world \<Rightarrow> peer_world" where
  "evd_peer_manager_finalize w =
     w\<lparr>pw_manager_alive := False,
       pw_sources := (if pw_cleanup_src_id w \<noteq> 0
                      then filter (\<lambda>s. fst s \<noteq> pw_cleanup_src_id w) (pw_sources w) else pw_sources w)\<rparr>"

definition run_source :: "manager_source \<Rightarrow> peer_world \<Rightarrow> peer_world option" where
  "run_source src w =
     (case src of
        Notify_new_peer p \<Rightarrow> evd_peer_manager_notify_new_peer p w
      | Cleanup_peers \<Rightarrow> evd_peer_manager_cleanup_peers_cb w)"

section \<open>The transport\<close>

datatype EvdValidate = EVD_VALIDATE_ACCEPT | EVD_VALIDATE_REJECT | EVD_VALIDATE_PENDING

text \<open>The accumulator of the signal \<open>validate-peer\<close>: the new result, and whether to go on.\<close>

definition evd_transport_validate_peer_signal_acc ::
  "EvdValidate \<Rightarrow> EvdValidate \<Rightarrow> EvdValidate \<times> bool"
where
  "evd_transport_validate_peer_signal_acc global_result signal_result =
     (let r = (if signal_result = EVD_VALIDATE_REJECT then EVD_VALIDATE_REJECT
               else if signal_result = EVD_VALIDATE_PENDING then EVD_VALIDATE_PENDING
               else if global_result \<noteq> EVD_VALIDATE_PENDING then EVD_VALIDATE_ACCEPT
               else global_result)
      in (r, r \<noteq> EVD_VALIDATE_REJECT))"

fun emit_validate :: "EvdValidate \<Rightarrow> EvdValidate list \<Rightarrow> EvdValidate" where
  "emit_validate acc [] = acc"
| "emit_validate acc (h # hs) =
     (case evd_transport_validate_peer_signal_acc acc h of
        (r, True) \<Rightarrow> emit_validate r hs
      | (r, False) \<Rightarrow> r)"

definition evd_transport_lookup_peer :: "string option \<Rightarrow> peer_world \<Rightarrow> peer_world \<times> nat option" where
  "evd_transport_lookup_peer peer_id w =
     (if peer_id = None then (w, None) else evd_peer_manager_lookup_peer peer_id w)"

definition evd_transport_accept_peer_internal :: "nat \<Rightarrow> peer_world \<Rightarrow> peer_world option" where
  "evd_transport_accept_peer_internal p w = do {
     e \<leftarrow> pw_heap w p;
     case evd_peer_manager_lookup_peer (Some (pe_id e)) w of
       (w, Some q) \<Rightarrow> Some w
     | (w, None) \<Rightarrow> do {
         w \<leftarrow> evd_peer_manager_add_peer p w;
         w \<leftarrow> peer_unref p w;
         e \<leftarrow> pw_heap w p;
         Some (peer_log (Transport_new_peer p) w)
       }
   }"

text \<open>
  A new peer, at a free address, with a fresh identifier; \<open>handlers\<close> are the answers of the
  handlers of \<open>validate-peer\<close>, which start from EVD_VALIDATE_ACCEPT (the value 0).
\<close>

definition evd_transport_create_new_peer_internal ::
  "nat \<Rightarrow> string \<Rightarrow> EvdValidate list \<Rightarrow> peer_world \<Rightarrow> (peer_world \<times> nat option) option"
where
  "evd_transport_create_new_peer_internal p uuid handlers w =
     (let w = set_peer p (evd_peer_init uuid (pw_now w)) w
      in case emit_validate EVD_VALIDATE_ACCEPT handlers of
           EVD_VALIDATE_REJECT \<Rightarrow> map_option (\<lambda>w. (w, None)) (peer_unref p w)
         | EVD_VALIDATE_ACCEPT \<Rightarrow> map_option (\<lambda>w. (w, Some p)) (evd_transport_accept_peer_internal p w)
         | EVD_VALIDATE_PENDING \<Rightarrow> Some (w, Some p))"

definition evd_transport_reject_peer :: "nat \<Rightarrow> peer_world \<Rightarrow> (peer_world \<times> bool) option" where
  "evd_transport_reject_peer p w = map_option (\<lambda>w. (w, True)) (peer_unref p w)"

section \<open>Closing, in one step\<close>

text \<open>What closing a peer of the table does, from the peer or from the transport.\<close>

definition drop_peer :: "nat \<Rightarrow> EvdPeer \<Rightarrow> peer_world \<Rightarrow> peer_world" where
  "drop_peer p e w =
     w\<lparr>pw_heap := (pw_heap w)(p :=
        if 1 < pe_ref_count e then Some (e\<lparr>pe_closed := True, pe_ref_count := pe_ref_count e - 1\<rparr>) else None)\<rparr>"

definition closed_world :: "nat \<Rightarrow> bool \<Rightarrow> EvdPeer \<Rightarrow> peer_world \<Rightarrow> peer_world" where
  "closed_world p gracefully e w =
     (drop_peer p e w)\<lparr>pw_peers := filter (\<lambda>kv. fst kv \<noteq> pe_id e) (pw_peers w),
       pw_log := pw_log w @ [Manager_peer_closed p gracefully, Transport_peer_closed_hook p gracefully,
                             Transport_peer_closed p gracefully]\<rparr>"

lemmas close_simps = set_peer_def peer_ref_def peer_unref_def peer_log_def drop_peer_def closed_world_def Let_def

lemma peer_close_steps:
  "evd_peer_close (Suc n) p g w = (case pw_heap w p of None \<Rightarrow> None | Some e \<Rightarrow>
     if pe_closed e then Some w else evd_transport_close_peer n p g (set_peer p (e\<lparr>pe_closed := True\<rparr>) w))"
  by (simp split: option.split)

lemma close_closed:
  "pw_heap w p = Some e \<Longrightarrow> pe_closed e \<Longrightarrow> evd_peer_close (Suc n) p g w = Some w"
  by simp

lemma close_closing:
  "pw_heap w p = Some e \<Longrightarrow> pe_closing e \<Longrightarrow> evd_transport_close_peer (Suc n) p g w = Some w"
  by simp

lemma transport_close_in_table:
  assumes "pw_heap w p = Some e" and "map_of (pw_peers w) (pe_id e) = Some p" and "\<not> pe_closing e"
    and "0 < pe_ref_count e"
  shows "evd_transport_close_peer (Suc (Suc (Suc (Suc (Suc n))))) p g w = Some (closed_world p g e w)"
  using assms by (cases w; cases e; cases "pe_closed e") (auto simp: close_simps)

lemma peer_close_in_table:
  assumes "pw_heap w p = Some e" and "map_of (pw_peers w) (pe_id e) = Some p" and "\<not> pe_closing e"
    and "0 < pe_ref_count e" and "\<not> pe_closed e"
  shows "evd_peer_close (Suc (Suc (Suc (Suc (Suc (Suc n)))))) p g w = Some (closed_world p g e w)"
  using assms by (cases w; cases e) (auto simp: close_simps)

text \<open>A peer that is not in the table.\<close>

lemma peer_close_not_in_table:
  assumes "pw_heap w p = Some e" and "map_of (pw_peers w) (pe_id e) = None" and "\<not> pe_closing e"
    and "0 < pe_ref_count e" and "\<not> pe_closed e"
  shows "evd_peer_close (Suc (Suc (Suc (Suc n)))) p g w =
    Some (w\<lparr>pw_heap := (pw_heap w)(p \<mapsto> e\<lparr>pe_closed := True\<rparr>),
            pw_log := pw_log w @ [Transport_peer_closed_hook p g, Transport_peer_closed p g]\<rparr>)"
  using assms by (cases w; cases e) (auto simp: close_simps)

lemma close_fuel_unfold: "close_fuel = Suc (Suc (Suc (Suc (Suc (Suc (Suc (Suc 0)))))))"
  by (simp add: close_fuel_def eval_nat_numeral)

section \<open>Cleaning up, in one step\<close>

definition expired :: "peer_world \<Rightarrow> EvdPeer \<Rightarrow> bool" where
  "expired w e \<longleftrightarrow> seconds (pe_timeout_interval e) < pw_now w - pe_idle_timer e"

text \<open>A peer that counts as dead: it is closed, or has expired and is not connected.\<close>

definition dead :: "peer_world \<Rightarrow> nat \<Rightarrow> bool" where
  "dead w p \<longleftrightarrow> (case pw_heap w p of None \<Rightarrow> False | Some e \<Rightarrow> pe_closed e \<or> (expired w e \<and> \<not> pw_connected w p))"

lemma is_alive_result:
  assumes "pw_heap w p = Some e"
  shows "map_option snd (evd_peer_is_alive p w) = Some (\<not> dead w p)"
  using assms by (auto simp: evd_peer_is_alive_def dead_def expired_def evd_transport_peer_is_connected_def)

definition checked :: "peer_world \<Rightarrow> nat \<Rightarrow> EvdPeer \<Rightarrow> EvdPeer" where
  "checked w p e = (if expired w e \<and> pw_connected w p then evd_peer_touch (pw_now w) e else e)"

definition open_peer :: "peer_world \<Rightarrow> string \<times> nat \<Rightarrow> bool" where
  "open_peer w kv \<longleftrightarrow>
     (\<exists>e. pw_heap w (snd kv) = Some e \<and> pe_id e = fst kv \<and> \<not> pe_closed e \<and> \<not> pe_closing e \<and>
        0 < pe_ref_count e)"

lemma dead_cong:
  "pw_heap w1 q = pw_heap w q \<Longrightarrow> pw_now w1 = pw_now w \<Longrightarrow> pw_connected w1 = pw_connected w \<Longrightarrow>
     dead w1 q = dead w q"
  by (simp add: dead_def expired_def split: option.split)

lemma checked_cong:
  "pw_now w1 = pw_now w \<Longrightarrow> pw_connected w1 = pw_connected w \<Longrightarrow> checked w1 q = checked w q"
  by (simp add: checked_def expired_def fun_eq_iff)

lemma check_peer_alive:
  assumes "pw_heap w p = Some e" and "\<not> pe_closed e" and "\<not> dead w p"
  shows "evd_peer_manager_check_peer p w = Some (set_peer p (checked w p e) w, False)"
proof (cases "expired w e")
  case True
  with assms show ?thesis
    by (auto simp: evd_peer_manager_check_peer_def evd_peer_is_alive_def dead_def expired_def checked_def
        evd_transport_peer_is_connected_def)
next
  case False
  with assms have "set_peer p (checked w p e) w = w"
    by (auto simp: set_peer_def checked_def fun_upd_idem)
  with False assms show ?thesis
    by (auto simp: evd_peer_manager_check_peer_def evd_peer_is_alive_def expired_def)
qed

lemma check_peer_dead:
  assumes "pw_heap w p = Some e" and "\<not> pe_closed e" and "dead w p"
  shows "evd_peer_manager_check_peer p w =
    Some (w\<lparr>pw_heap := (pw_heap w)(p \<mapsto> e\<lparr>pe_ref_count := pe_ref_count e + 1\<rparr>),
            pw_removal_list := pw_removal_list w @ [p]\<rparr>, True)"
  using assms
  by (simp add: evd_peer_manager_check_peer_def evd_peer_is_alive_def dead_def expired_def
      evd_transport_peer_is_connected_def peer_ref_def set_peer_def)

lemma foreach_remove_Cons:
  assumes "open_peer w kv" and "pw_heap w (snd kv) = Some e"
  shows "foreach_remove (kv # kvs) w = foreach_remove kvs
    (if dead w (snd kv)
     then w\<lparr>pw_peers := filter (\<lambda>kv'. fst kv' \<noteq> fst kv) (pw_peers w),
            pw_removal_list := pw_removal_list w @ [snd kv]\<rparr>
     else set_peer (snd kv) (checked w (snd kv) e) w)"
proof (cases "dead w (snd kv)")
  case True
  with assms have "foreach_remove (kv # kvs) w = foreach_remove kvs
      (w\<lparr>pw_peers := filter (\<lambda>kv'. fst kv' \<noteq> fst kv) (pw_peers w),
         pw_removal_list := pw_removal_list w @ [snd kv], pw_heap := (pw_heap w)(snd kv \<mapsto> e)\<rparr>)"
    by (cases w; cases e) (auto simp: open_peer_def check_peer_dead peer_unref_def set_peer_def)
  moreover have "(pw_heap w)(snd kv \<mapsto> e) = pw_heap w" using assms(2) by (simp add: fun_upd_idem)
  ultimately show ?thesis using True by simp
next
  case False
  with assms show ?thesis by (auto simp: open_peer_def check_peer_alive)
qed

definition checked_heap :: "peer_world \<Rightarrow> (string \<times> nat) list \<Rightarrow> nat \<Rightarrow> EvdPeer option" where
  "checked_heap w kvs p =
     (if p \<in> snd ` set kvs then map_option (checked w p) (pw_heap w p) else pw_heap w p)"

lemma foreach_remove_result:
  assumes "\<forall>kv \<in> set kvs. open_peer w kv" and "distinct (map snd kvs)"
  shows "foreach_remove kvs w =
    Some (w\<lparr>pw_heap := checked_heap w kvs,
            pw_peers := filter (\<lambda>kv. fst kv \<notin> fst ` set (filter (dead w \<circ> snd) kvs)) (pw_peers w),
            pw_removal_list := pw_removal_list w @ map snd (filter (dead w \<circ> snd) kvs)\<rparr>)"
  using assms
proof (induction kvs arbitrary: w)
  case Nil
  have "checked_heap w [] = pw_heap w" by (simp add: checked_heap_def fun_eq_iff)
  then show ?case by simp
next
  case (Cons kv kvs)
  then obtain e where e: "pw_heap w (snd kv) = Some e" by (auto simp: open_peer_def)
  have op: "\<not> pe_closed e" using Cons.prems(1) e by (auto simp: open_peer_def)
  define w1 where "w1 = (if dead w (snd kv)
     then w\<lparr>pw_peers := filter (\<lambda>kv'. fst kv' \<noteq> fst kv) (pw_peers w),
            pw_removal_list := pw_removal_list w @ [snd kv]\<rparr>
     else set_peer (snd kv) (checked w (snd kv) e) w)"
  have other: "pw_heap w1 q = pw_heap w q" if "q \<noteq> snd kv" for q
    using that by (simp add: w1_def set_peer_def)
  have same: "pw_now w1 = pw_now w" "pw_connected w1 = pw_connected w" by (simp_all add: w1_def set_peer_def)
  have ops: "\<forall>kv' \<in> set kvs. open_peer w1 kv'"
  proof
    fix kv'
    assume "kv' \<in> set kvs"
    with Cons.prems have "snd kv' \<noteq> snd kv" "open_peer w kv'" by (auto simp: image_iff)
    with other show "open_peer w1 kv'" by (simp add: open_peer_def)
  qed
  have f: "filter (dead w1 \<circ> snd) kvs = filter (dead w \<circ> snd) kvs"
    using Cons.prems(2) dead_cong [OF other same] by (intro filter_cong) (auto simp: image_iff)
  have h: "checked_heap w1 kvs = checked_heap w (kv # kvs)"
  proof
    fix q
    show "checked_heap w1 kvs q = checked_heap w (kv # kvs) q"
    proof (cases "q = snd kv")
      case True
      with Cons.prems(2) e show ?thesis
        by (auto simp: checked_heap_def w1_def set_peer_def checked_def dead_def op)
    next
      case False
      with other [OF False] checked_cong [OF same] show ?thesis by (simp add: checked_heap_def)
    qed
  qed
  have "foreach_remove (kv # kvs) w = foreach_remove kvs w1"
    using foreach_remove_Cons [OF _ e, of kvs] Cons.prems(1) by (simp add: w1_def del: foreach_remove.simps)
  also have "\<dots> = Some (w1\<lparr>pw_heap := checked_heap w (kv # kvs),
            pw_peers := filter (\<lambda>kv. fst kv \<notin> fst ` set (filter (dead w \<circ> snd) kvs)) (pw_peers w1),
            pw_removal_list := pw_removal_list w1 @ map snd (filter (dead w \<circ> snd) kvs)\<rparr>)"
    using Cons.IH [OF ops, unfolded f h] Cons.prems(2) by simp
  also have "\<dots> = Some (w\<lparr>pw_heap := checked_heap w (kv # kvs),
            pw_peers := filter (\<lambda>kv'. fst kv' \<notin> fst ` set (filter (dead w \<circ> snd) (kv # kvs))) (pw_peers w),
            pw_removal_list := pw_removal_list w @ map snd (filter (dead w \<circ> snd) (kv # kvs))\<rparr>)"
    by (cases w) (auto simp: w1_def set_peer_def intro!: filter_cong)
  finally show ?case .
qed

text \<open>The loop that closes what was removed.\<close>

definition dropped_heap :: "peer_world \<Rightarrow> nat list \<Rightarrow> nat \<Rightarrow> EvdPeer option" where
  "dropped_heap w ps p = (if p \<in> set ps then pw_heap (drop_peer p (the (pw_heap w p)) w) p else pw_heap w p)"

definition closing_events :: "nat \<Rightarrow> peer_event list" where
  "closing_events p =
     [Transport_peer_closed_hook p False, Transport_peer_closed p False, Manager_peer_closed p False]"

definition removed_peer :: "peer_world \<Rightarrow> nat \<Rightarrow> bool" where
  "removed_peer w p \<longleftrightarrow>
     (\<exists>e. pw_heap w p = Some e \<and> \<not> pe_closed e \<and> \<not> pe_closing e \<and> 0 < pe_ref_count e \<and>
        map_of (pw_peers w) (pe_id e) = None)"

lemma close_removed_Cons:
  assumes "pw_heap w p = Some e" and "removed_peer w p"
  shows "close_removed (p # ps) w = close_removed ps
    ((drop_peer p e w)\<lparr>pw_removal_list := ps, pw_log := pw_log w @ closing_events p\<rparr>)"
proof -
  let ?w = "w\<lparr>pw_removal_list := ps\<rparr>"
  have "evd_peer_close (Suc (Suc (Suc (Suc (Suc (Suc (Suc 0))))))) p False ?w =
    Some (?w\<lparr>pw_heap := (pw_heap w)(p \<mapsto> e\<lparr>pe_closed := True\<rparr>),
            pw_log := pw_log w @ [Transport_peer_closed_hook p False, Transport_peer_closed p False]\<rparr>)"
    using assms by (subst peer_close_not_in_table) (auto simp: removed_peer_def)
  then show ?thesis
    by (cases w) (simp add: close_fuel_unfold closing_events_def peer_log_def peer_unref_def set_peer_def
        drop_peer_def del: evd_peer_close.simps)
qed

lemma close_removed_result:
  assumes "\<forall>p \<in> set ps. removed_peer w p" and "distinct ps" and "pw_removal_list w = ps"
  shows "close_removed ps w = Some (w\<lparr>pw_heap := dropped_heap w ps, pw_removal_list := [],
    pw_log := pw_log w @ concat (map closing_events ps)\<rparr>)"
  using assms
proof (induction ps arbitrary: w)
  case Nil
  have "dropped_heap w [] = pw_heap w" by (simp add: dropped_heap_def fun_eq_iff)
  with Nil show ?case by simp
next
  case (Cons p ps)
  then obtain e where e: "pw_heap w p = Some e" by (auto simp: removed_peer_def)
  define w1 where "w1 = (drop_peer p e w)\<lparr>pw_removal_list := ps, pw_log := pw_log w @ closing_events p\<rparr>"
  have other: "pw_heap w1 q = pw_heap w q" if "q \<noteq> p" for q using that by (simp add: w1_def drop_peer_def)
  have "\<forall>q \<in> set ps. removed_peer w1 q"
  proof
    fix q
    assume "q \<in> set ps"
    with Cons.prems have "q \<noteq> p" "removed_peer w q" by auto
    with other [of q] show "removed_peer w1 q" by (simp add: removed_peer_def w1_def drop_peer_def)
  qed
  moreover have "dropped_heap w1 ps = dropped_heap w (p # ps)"
  proof
    fix q
    show "dropped_heap w1 ps q = dropped_heap w (p # ps) q"
      using other [of q] Cons.prems(2) e by (cases "q = p") (auto simp: dropped_heap_def w1_def drop_peer_def)
  qed
  ultimately show ?case
    using Cons.IH [of w1] Cons.prems close_removed_Cons [OF e] by (simp add: w1_def drop_peer_def)
qed

section \<open>The invariant\<close>

text \<open>
  Every entry of the table is a live, open peer with the identifier of its key; nobody waits to be
  removed; and a peer whose announcement is pending is in the table and has not expired.
\<close>

definition peers_ok :: "peer_world \<Rightarrow> bool" where
  "peers_ok w \<longleftrightarrow>
     distinct (map fst (pw_peers w)) \<and> distinct (map snd (pw_peers w)) \<and>
     (\<forall>kv \<in> set (pw_peers w). open_peer w kv) \<and> pw_removal_list w = [] \<and> pw_manager_alive w"

definition pending :: "peer_world \<Rightarrow> nat \<Rightarrow> bool" where
  "pending w p \<longleftrightarrow> Notify_new_peer p \<in> set (map snd (pw_sources w))"

definition announcements_ok :: "peer_world \<Rightarrow> bool" where
  "announcements_ok w \<longleftrightarrow>
     distinct (filter (\<lambda>src. src \<noteq> Cleanup_peers) (map snd (pw_sources w))) \<and>
     (\<forall>p. pending w p \<longrightarrow> p \<in> snd ` set (pw_peers w) \<and>
        (\<exists>e. pw_heap w p = Some e \<and> pe_manager e \<and> \<not> expired w e))"

definition dead_peers :: "peer_world \<Rightarrow> nat list" where
  "dead_peers w = map snd (filter (dead w \<circ> snd) (pw_peers w))"

definition cleaned :: "peer_world \<Rightarrow> peer_world" where
  "cleaned w = w\<lparr>pw_cleanup_timer := pw_now w,
     pw_heap := (\<lambda>p. if p \<in> set (dead_peers w) then pw_heap (drop_peer p (the (pw_heap w p)) w) p
                     else if p \<in> snd ` set (pw_peers w) then map_option (checked w p) (pw_heap w p)
                     else pw_heap w p),
     pw_peers := filter (\<lambda>kv. \<not> dead w (snd kv)) (pw_peers w),
     pw_log := pw_log w @ concat (map closing_events (dead_peers w))\<rparr>"

lemma filter_keys:
  assumes "distinct (map fst kvs)"
  shows "filter (\<lambda>kv. fst kv \<notin> fst ` set (filter P kvs)) kvs = filter (\<lambda>kv. \<not> P kv) kvs"
proof (rule filter_cong)
  fix kv
  assume "kv \<in> set kvs"
  then show "(fst kv \<notin> fst ` set (filter P kvs)) = (\<not> P kv)"
    using assms by (auto simp: distinct_map inj_on_def)
qed simp

lemma cleanup_result:
  assumes "peers_ok w"
  shows "evd_peer_manager_cleanup_peers w =
    Some (if pw_now w - pw_cleanup_timer w \<le> seconds (pw_cleanup_interval w) then w else cleaned w)"
proof (cases "pw_now w - pw_cleanup_timer w \<le> seconds (pw_cleanup_interval w)")
  case True
  then show ?thesis by (simp add: evd_peer_manager_cleanup_peers_def)
next
  case False
  let ?w = "w\<lparr>pw_cleanup_timer := pw_now w\<rparr>"
  have d: "dead ?w = dead w" and c: "checked ?w = checked w"
    by (simp_all add: fun_eq_iff dead_def expired_def checked_def split: option.split)
  define w2 where "w2 = ?w\<lparr>pw_heap := checked_heap ?w (pw_peers w),
      pw_peers := filter (\<lambda>kv. \<not> dead w (snd kv)) (pw_peers w), pw_removal_list := dead_peers w\<rparr>"
  have ok: "\<forall>kv \<in> set (pw_peers w). open_peer ?w kv" "distinct (map snd (pw_peers w))"
    "distinct (map fst (pw_peers w))" "pw_removal_list w = []"
    using assms by (auto simp: peers_ok_def open_peer_def)
  have 1: "foreach_remove (pw_peers w) ?w = Some w2"
    using foreach_remove_result [OF ok(1,2)] ok(4)
    by (simp add: w2_def d dead_peers_def comp_def filter_keys [OF ok(3), of "\<lambda>kv. dead w (snd kv)", simplified])
  have heap: "pw_heap w2 p = pw_heap w p" if "p \<in> set (dead_peers w)" for p
  proof -
    have "\<not> pe_closed e" if "pw_heap w p = Some e" for e
      using that \<open>p \<in> set (dead_peers w)\<close> assms by (auto simp: dead_peers_def peers_ok_def open_peer_def)
    with that show ?thesis
      by (auto simp: w2_def checked_heap_def dead_peers_def dead_def checked_def expired_def split: option.splits)
  qed
  have "removed_peer w2 p" if p: "p \<in> set (dead_peers w)" for p
  proof -
    from p obtain k where kv: "(k, p) \<in> set (pw_peers w)" "dead w p" by (auto simp: dead_peers_def)
    then obtain e where e: "pw_heap w p = Some e" "pe_id e = k" "\<not> pe_closed e" "\<not> pe_closing e"
      "0 < pe_ref_count e" using assms by (auto simp: peers_ok_def open_peer_def)
    have "map_of (pw_peers w2) k = None"
      using kv by (auto simp: w2_def map_of_eq_None_iff dest: eq_key_imp_eq_value [OF ok(3)])
    with e heap [OF p] show ?thesis by (simp add: removed_peer_def)
  qed
  moreover have "distinct (dead_peers w)" using ok(2) by (simp add: dead_peers_def distinct_map_filter)
  ultimately have "close_removed (dead_peers w) w2 =
      Some (w2\<lparr>pw_heap := dropped_heap w2 (dead_peers w), pw_removal_list := [],
        pw_log := pw_log w2 @ concat (map closing_events (dead_peers w))\<rparr>)"
    by (intro close_removed_result) (auto simp: w2_def)
  moreover have "dropped_heap w2 (dead_peers w) = pw_heap (cleaned w)"
  proof
    fix p
    show "dropped_heap w2 (dead_peers w) p = pw_heap (cleaned w) p"
      using heap [of p]
      by (cases "p \<in> set (dead_peers w)")
        (auto simp: dropped_heap_def cleaned_def w2_def checked_heap_def c drop_peer_def)
  qed
  ultimately show ?thesis
    using False 1 ok(4)
    by (cases w) (auto simp: evd_peer_manager_cleanup_peers_def w2_def cleaned_def)
qed

text \<open>Peers outside of the table; identifiers are unique.\<close>

definition heap_ok :: "peer_world \<Rightarrow> bool" where
  "heap_ok w \<longleftrightarrow>
     (\<forall>p e. pw_heap w p = Some e \<longrightarrow> \<not> pe_closing e \<and> 0 < pe_ref_count e) \<and>
     (\<forall>p q e f. pw_heap w p = Some e \<longrightarrow> pw_heap w q = Some f \<longrightarrow> pe_id e = pe_id f \<longrightarrow> p = q)"

definition world_ok :: "peer_world \<Rightarrow> bool" where
  "world_ok w \<longleftrightarrow> peers_ok w \<and> announcements_ok w \<and> heap_ok w"

lemma pending_cong: "pw_sources w' = pw_sources w \<Longrightarrow> pending w' = pending w"
  by (simp add: pending_def fun_eq_iff)

lemma expired_cong: "pw_now w' = pw_now w \<Longrightarrow> expired w' = expired w"
  by (simp add: expired_def fun_eq_iff)

lemma dead_peers_iff: "p \<in> set (dead_peers w) \<longleftrightarrow> p \<in> snd ` set (pw_peers w) \<and> dead w p"
  by (auto simp: dead_peers_def)

lemma checked_fields [simp]:
  "pe_id (checked w p e) = pe_id e" "pe_closed (checked w p e) = pe_closed e"
  "pe_closing (checked w p e) = pe_closing e" "pe_ref_count (checked w p e) = pe_ref_count e"
  "pe_manager (checked w p e) = pe_manager e"
  by (simp_all add: checked_def evd_peer_touch_def)

lemma cleaned_heap:
  "pw_heap (cleaned w) p = Some f \<Longrightarrow> \<exists>e. pw_heap w p = Some e \<and> pe_id f = pe_id e \<and>
     pe_closing f = pe_closing e \<and> (0 < pe_ref_count e \<longrightarrow> 0 < pe_ref_count f)"
  by (auto simp: cleaned_def drop_peer_def dead_peers_iff dead_def split: if_splits option.splits)

lemma cleaned_alive:
  "p \<in> snd ` set (pw_peers w) \<Longrightarrow> \<not> dead w p \<Longrightarrow> pw_heap (cleaned w) p = map_option (checked w p) (pw_heap w p)"
  by (simp add: cleaned_def dead_peers_iff)

lemma cleaned_other: "p \<notin> snd ` set (pw_peers w) \<Longrightarrow> pw_heap (cleaned w) p = pw_heap w p"
  by (simp add: cleaned_def dead_peers_iff)

lemma cleaned_fields [simp]:
  "pw_peers (cleaned w) = filter (\<lambda>kv. \<not> dead w (snd kv)) (pw_peers w)"
  "pw_sources (cleaned w) = pw_sources w" "pw_now (cleaned w) = pw_now w"
  "pw_manager_alive (cleaned w) = pw_manager_alive w" "pw_removal_list (cleaned w) = pw_removal_list w"
  by (simp_all add: cleaned_def)

lemma cleaned_ok:
  assumes "world_ok w"
  shows "world_ok (cleaned w)"
proof -
  have p: "peers_ok w" and a: "announcements_ok w" and h: "heap_ok w" using assms by (simp_all add: world_ok_def)
  have "open_peer (cleaned w) kv" if kv: "kv \<in> set (pw_peers w)" "\<not> dead w (snd kv)" for kv
  proof -
    have "snd kv \<in> snd ` set (pw_peers w)" using kv(1) by simp
    with kv p cleaned_alive [of "snd kv" w] show ?thesis by (auto simp: peers_ok_def open_peer_def)
  qed
  with p have "peers_ok (cleaned w)" by (auto simp: peers_ok_def distinct_map_filter)
  moreover have "announcements_ok (cleaned w)"
    unfolding announcements_ok_def
  proof (intro conjI allI impI)
    show "distinct (filter (\<lambda>src. src \<noteq> Cleanup_peers) (map snd (pw_sources (cleaned w))))"
      using a by (simp add: announcements_ok_def)
    fix q
    assume "pending (cleaned w) q"
    then have "pending w q" by (simp add: pending_def)
    with a obtain e where q: "q \<in> snd ` set (pw_peers w)" "pw_heap w q = Some e" "pe_manager e" "\<not> expired w e"
      by (auto simp: announcements_ok_def)
    moreover have "\<not> pe_closed e" using q(1,2) p by (auto simp: peers_ok_def open_peer_def)
    ultimately have "\<not> dead w q" by (simp add: dead_def)
    with q show "q \<in> snd ` set (pw_peers (cleaned w))" by auto
    from \<open>\<not> dead w q\<close> q show "\<exists>e. pw_heap (cleaned w) q = Some e \<and> pe_manager e \<and> \<not> expired (cleaned w) e"
      by (auto simp: cleaned_alive expired_cong [of "cleaned w" w] checked_def)
  qed
  moreover have "heap_ok (cleaned w)"
    using h unfolding heap_ok_def by (metis cleaned_heap)
  ultimately show ?thesis by (simp add: world_ok_def)
qed

lemma cleanup_ok:
  assumes "world_ok w"
  shows "\<exists>w'. evd_peer_manager_cleanup_peers w = Some w' \<and> world_ok w'"
  using cleanup_result [of w] cleaned_ok assms by (auto simp: world_ok_def)

section \<open>Every operation keeps the invariant\<close>

abbreviation announcements :: "peer_world \<Rightarrow> manager_source list" where
  "announcements w \<equiv> filter (\<lambda>src. src \<noteq> Cleanup_peers) (map snd (pw_sources w))"

lemma pending_announcements: "pending w p \<longleftrightarrow> Notify_new_peer p \<in> set (announcements w)"
  by (simp add: pending_def)

lemma open_peer_cong: "pw_heap w' (snd kv) = pw_heap w (snd kv) \<Longrightarrow> open_peer w' kv = open_peer w kv"
  by (simp add: open_peer_def)

lemma world_ok_cong:
  assumes "pw_heap w' = pw_heap w" "pw_peers w' = pw_peers w" "pw_removal_list w' = pw_removal_list w"
    "pw_manager_alive w' = pw_manager_alive w" "pw_now w' = pw_now w" "announcements w' = announcements w"
  shows "world_ok w' = world_ok w"
proof -
  have "open_peer w' = open_peer w" using assms(1) by (simp add: fun_eq_iff open_peer_def)
  moreover have "pending w' = pending w" using assms(6) by (simp add: fun_eq_iff pending_announcements)
  moreover have "expired w' = expired w" using assms(5) by (rule expired_cong)
  ultimately show ?thesis
    using assms by (simp add: world_ok_def peers_ok_def announcements_ok_def heap_ok_def)
qed

lemma world_ok_log [simp]: "world_ok (peer_log ev w) = world_ok w"
  by (rule world_ok_cong) (simp_all add: peer_log_def)

lemma lookup_ok:
  assumes "world_ok w" and "evd_peer_manager_lookup_peer k w = (w', r)"
  shows "world_ok w' \<and> pw_heap w' = pw_heap w \<and> pw_peers w' = pw_peers w \<and> pw_now w' = pw_now w"
proof (cases k)
  case None
  with assms show ?thesis by (simp add: evd_peer_manager_lookup_peer_def)
next
  case (Some key)
  with assms(2) have w': "w' = w\<lparr>pw_sources := pw_sources w @ [(pw_next_source w, Cleanup_peers)],
      pw_next_source := pw_next_source w + 1, pw_cleanup_src_id := pw_next_source w\<rparr>"
    by (simp add: evd_peer_manager_lookup_peer_def add_source_def)
  have "world_ok w' = world_ok w" by (rule world_ok_cong) (simp_all add: w')
  with assms(1) w' show ?thesis by simp
qed

text \<open>Closing a peer that is not waiting to be announced.\<close>

lemma pw_sources_closed: "pw_sources (closed_world p g e w) = pw_sources w"
  by (simp add: closed_world_def drop_peer_def)

lemma closed_world_ok:
  assumes "world_ok w" and "pw_heap w p = Some e" and "map_of (pw_peers w) (pe_id e) = Some p"
    and "\<not> pending w p"
  shows "world_ok (closed_world p g e w)"
proof -
  let ?w = "closed_world p g e w"
  have P: "peers_ok w" and A: "announcements_ok w" and H: "heap_ok w" using assms(1) by (simp_all add: world_ok_def)
  have in_table: "(pe_id e, p) \<in> set (pw_peers w)" using assms(3) by (rule map_of_SomeD)
  have other: "pw_heap ?w q = pw_heap w q" if "q \<noteq> p" for q
    using that by (simp add: closed_world_def drop_peer_def)
  have key: "fst kv = pe_id e \<longleftrightarrow> snd kv = p" if "kv \<in> set (pw_peers w)" for kv
    using P in_table that inj_onD [of fst "set (pw_peers w)" kv "(pe_id e, p)"]
      inj_onD [of snd "set (pw_peers w)" kv "(pe_id e, p)"]
    by (cases kv) (auto simp: peers_ok_def distinct_map)
  have rest: "pw_peers ?w = filter (\<lambda>kv. snd kv \<noteq> p) (pw_peers w)"
    using key by (auto simp: closed_world_def intro: filter_cong)
  have "\<forall>kv \<in> set (pw_peers ?w). open_peer ?w kv"
    using P other open_peer_cong [of ?w _ w] by (simp add: rest peers_ok_def)
  then have "peers_ok ?w"
    using P by (simp add: peers_ok_def rest distinct_map_filter) (simp add: closed_world_def drop_peer_def)
  moreover have "pending ?w = pending w" by (rule pending_cong) (simp add: closed_world_def drop_peer_def)
  moreover have "expired ?w = expired w" by (rule expired_cong) (simp add: closed_world_def drop_peer_def)
  ultimately have "peers_ok ?w \<and> announcements_ok ?w"
    using A assms(4) other
    by (fastforce simp: announcements_ok_def rest pw_sources_closed)
  moreover have "heap_ok ?w"
    using H assms(2) by (auto simp: heap_ok_def closed_world_def drop_peer_def split: if_splits)
  ultimately show ?thesis by (simp add: world_ok_def)
qed

lemma set_peer_ok:
  assumes "world_ok w" and "pw_heap w p = Some e" and "pe_id f = pe_id e" "pe_closing f = pe_closing e"
    "0 < pe_ref_count f" and "p \<in> snd ` set (pw_peers w) \<longrightarrow> pe_closed f = pe_closed e"
    and "pending w p \<longrightarrow> pe_manager f \<and> \<not> expired w f"
  shows "world_ok (set_peer p f w)"
proof -
  let ?w = "set_peer p f w"
  have P: "peers_ok w" and A: "announcements_ok w" and H: "heap_ok w" using assms(1) by (simp_all add: world_ok_def)
  have "open_peer ?w kv" if "kv \<in> set (pw_peers w)" for kv
    using that P assms(2-6) by (cases "snd kv = p") (auto simp: peers_ok_def open_peer_def set_peer_def)
  then have "peers_ok ?w" using P by (simp add: peers_ok_def) (simp add: set_peer_def)
  moreover have "pending ?w = pending w" by (rule pending_cong) (simp add: set_peer_def)
  moreover have "expired ?w = expired w" by (rule expired_cong) (simp add: set_peer_def)
  ultimately have "peers_ok ?w \<and> announcements_ok ?w"
    using A assms(7) by (auto simp: announcements_ok_def) (auto simp: set_peer_def)
  moreover have "heap_ok ?w"
    using H assms(2-5) by (auto simp: heap_ok_def set_peer_def split: if_splits)
  ultimately show ?thesis by (simp add: world_ok_def)
qed

lemma transport_close_not_in_table:
  assumes "pw_heap w p = Some e" and "map_of (pw_peers w) (pe_id e) = None" and "\<not> pe_closing e"
    and "0 < pe_ref_count e"
  shows "evd_transport_close_peer (Suc (Suc (Suc n))) p g w =
    Some (w\<lparr>pw_heap := (pw_heap w)(p \<mapsto> e\<lparr>pe_closed := True\<rparr>),
            pw_log := pw_log w @ [Transport_peer_closed_hook p g, Transport_peer_closed p g]\<rparr>)"
  using assms by (cases w; cases e; cases "pe_closed e") (auto simp: close_simps)

lemma table_id:
  assumes "world_ok w" and "pw_heap w p = Some e"
  shows "map_of (pw_peers w) (pe_id e) = (if p \<in> snd ` set (pw_peers w) then Some p else None)"
proof (cases "p \<in> snd ` set (pw_peers w)")
  case True
  then obtain k where k: "(k, p) \<in> set (pw_peers w)" by auto
  with assms have "open_peer w (k, p)" by (auto simp: world_ok_def peers_ok_def)
  with assms(2) have "k = pe_id e" by (simp add: open_peer_def)
  moreover from assms(1) have "distinct (map fst (pw_peers w))" by (simp add: world_ok_def peers_ok_def)
  ultimately show ?thesis using k True by (simp add: map_of_is_SomeI)
next
  case False
  have "(pe_id e, q) \<notin> set (pw_peers w)" for q
  proof
    assume q: "(pe_id e, q) \<in> set (pw_peers w)"
    with assms(1) have "open_peer w (pe_id e, q)" by (auto simp: world_ok_def peers_ok_def)
    then obtain f where f: "pw_heap w q = Some f" "pe_id f = pe_id e" by (auto simp: open_peer_def)
    from assms(1) have "heap_ok w" by (simp add: world_ok_def)
    with f assms(2) have "q = p" unfolding heap_ok_def by blast
    with q False show False by (metis image_eqI snd_conv)
  qed
  then show ?thesis using False by (auto simp: map_of_eq_None_iff)
qed

lemma close_ok:
  assumes "world_ok w" and "pw_heap w p = Some e" and "\<not> pending w p"
  shows "\<exists>w'. evd_peer_close close_fuel p g w = Some w' \<and> world_ok w'"
    "\<exists>w'. evd_transport_close_peer close_fuel p g w = Some w' \<and> world_ok w'"
proof -
  have e: "\<not> pe_closing e" "0 < pe_ref_count e" using assms(1,2) by (auto simp: world_ok_def heap_ok_def)
  have out: "world_ok (w\<lparr>pw_heap := (pw_heap w)(p \<mapsto> e\<lparr>pe_closed := True\<rparr>),
            pw_log := pw_log w @ [Transport_peer_closed_hook p g, Transport_peer_closed p g]\<rparr>)"
    if "p \<notin> snd ` set (pw_peers w)"
  proof -
    have "world_ok (set_peer p (e\<lparr>pe_closed := True\<rparr>) w)"
      using that e assms by (intro set_peer_ok) auto
    then show ?thesis
      by (rule iffD2 [OF world_ok_cong, rotated -1]) (simp_all add: set_peer_def)
  qed
  show "\<exists>w'. evd_transport_close_peer close_fuel p g w = Some w' \<and> world_ok w'"
    using transport_close_in_table [OF assms(2) _ e] transport_close_not_in_table [OF assms(2) _ e]
      closed_world_ok [OF assms(1,2) _ assms(3)] table_id [OF assms(1,2)] out
    by (cases "p \<in> snd ` set (pw_peers w)") (auto simp: close_fuel_unfold simp del: evd_transport_close_peer.simps)
  show "\<exists>w'. evd_peer_close close_fuel p g w = Some w' \<and> world_ok w'"
  proof (cases "pe_closed e")
    case True
    with assms show ?thesis by (simp add: close_fuel_unfold)
  next
    case False
    then show ?thesis
      using peer_close_in_table [OF assms(2) _ e] peer_close_not_in_table [OF assms(2) _ e]
        closed_world_ok [OF assms(1,2) _ assms(3)] table_id [OF assms(1,2)] out
      by (cases "p \<in> snd ` set (pw_peers w)") (auto simp: close_fuel_unfold simp del: evd_peer_close.simps)
  qed
qed

text \<open>A new peer, before and after it is accepted.\<close>

lemma new_peer_ok:
  assumes "world_ok w" and "pw_heap w p = None" and "\<forall>q e. pw_heap w q = Some e \<longrightarrow> pe_id e \<noteq> uuid"
  shows "world_ok (set_peer p (evd_peer_init uuid (pw_now w)) w)" "p \<notin> snd ` set (pw_peers w)"
proof -
  let ?w = "set_peer p (evd_peer_init uuid (pw_now w)) w"
  have P: "peers_ok w" and A: "announcements_ok w" and H: "heap_ok w" using assms(1) by (simp_all add: world_ok_def)
  from P assms(2) show np: "p \<notin> snd ` set (pw_peers w)" by (auto simp: peers_ok_def open_peer_def)
  have other: "pw_heap ?w q = pw_heap w q" if "q \<noteq> p" for q using that by (simp add: set_peer_def)
  have "open_peer ?w kv" if "kv \<in> set (pw_peers w)" for kv
    using that P np open_peer_cong [OF other, of kv] by (auto simp: peers_ok_def)
  then have "peers_ok ?w" using P by (simp add: peers_ok_def) (simp add: set_peer_def)
  moreover have "pending ?w = pending w" by (rule pending_cong) (simp add: set_peer_def)
  moreover have "expired ?w = expired w" by (rule expired_cong) (simp add: set_peer_def)
  ultimately have "peers_ok ?w \<and> announcements_ok ?w"
    using A np by (auto simp: announcements_ok_def) (auto simp: set_peer_def)
  moreover have "heap_ok ?w"
    using H assms(3) by (auto simp: heap_ok_def set_peer_def evd_peer_init_def split: if_splits)
  ultimately show "world_ok ?w" by (simp add: world_ok_def)
qed

lemma insert_ok:
  assumes "world_ok w" and "pw_heap w p = Some e" and "p \<notin> snd ` set (pw_peers w)" and "\<not> pe_closed e"
    and "\<not> expired w e"
  defines "w1 \<equiv> w\<lparr>pw_heap := (pw_heap w)(p \<mapsto> e\<lparr>pe_ref_count := pe_ref_count e + 1, pe_manager := True\<rparr>),
    pw_peers := pw_peers w @ [(pe_id e, p)],
    pw_sources := pw_sources w @ [(pw_next_source w, Notify_new_peer p)], pw_next_source := pw_next_source w + 1\<rparr>"
  shows "evd_peer_manager_add_peer p w = evd_peer_manager_cleanup_peers w1" "world_ok w1"
proof -
  have P: "peers_ok w" and A: "announcements_ok w" and H: "heap_ok w" using assms(1) by (simp_all add: world_ok_def)
  have n: "map_of (pw_peers w) (pe_id e) = None" using table_id [OF assms(1,2)] assms(3) by simp
  then have f: "filter (\<lambda>kv. fst kv \<noteq> pe_id e) (pw_peers w) = pw_peers w"
    by (force simp: map_of_eq_None_iff filter_id_conv)
  show "evd_peer_manager_add_peer p w = evd_peer_manager_cleanup_peers w1"
    using assms(2) n f
    by (cases w; cases e) (auto simp: evd_peer_manager_add_peer_def insert_peer_def add_source_def peer_ref_def
        set_peer_def w1_def Let_def)
  have np: "\<not> pending w p" using A assms(3) by (auto simp: announcements_ok_def)
  have other: "pw_heap w1 q = pw_heap w q" if "q \<noteq> p" for q using that by (simp add: w1_def)
  have "open_peer w1 kv" if "kv \<in> set (pw_peers w)" for kv
    using that P assms(3) open_peer_cong [OF other, of kv] by (auto simp: peers_ok_def)
  moreover have "open_peer w1 (pe_id e, p)" using H assms(2,4) by (auto simp: open_peer_def w1_def heap_ok_def)
  moreover have "pe_id e \<notin> fst ` set (pw_peers w)" using n by (simp add: map_of_eq_None_iff)
  ultimately have "peers_ok w1" using P assms(3) by (auto simp: peers_ok_def) (auto simp: w1_def)
  moreover have "pending w1 q \<longleftrightarrow> q = p \<or> pending w q" for q by (auto simp: pending_def w1_def)
  moreover have "expired w1 = expired w" by (rule expired_cong) (simp add: w1_def)
  moreover have "distinct (announcements w1)" using A np by (simp add: announcements_ok_def pending_def w1_def)
  ultimately have "peers_ok w1 \<and> announcements_ok w1"
    using A assms(3,5) by (auto simp: announcements_ok_def) (auto simp: w1_def expired_def)
  moreover have "heap_ok w1"
    using H assms(2) by (auto simp: heap_ok_def w1_def split: if_splits)
  ultimately show "world_ok w1" by (simp add: world_ok_def)
qed

lemma accept_ok:
  assumes "world_ok w" and "pw_heap w p = Some e" and "p \<notin> snd ` set (pw_peers w)" and "\<not> pe_closed e"
    and "\<not> expired w e"
  shows "\<exists>w'. evd_transport_accept_peer_internal p w = Some w' \<and> world_ok w'"
proof -
  obtain w1 r where l: "evd_peer_manager_lookup_peer (Some (pe_id e)) w = (w1, r)" by fastforce
  then have r: "r = None"
    using table_id [OF assms(1,2)] assms(3) by (auto simp: evd_peer_manager_lookup_peer_def add_source_def)
  from lookup_ok [OF assms(1) l] have w1: "world_ok w1" "pw_heap w1 p = Some e"
    "p \<notin> snd ` set (pw_peers w1)" "\<not> expired w1 e"
    using assms by (auto simp: expired_def)
  define w2 where "w2 = w1\<lparr>pw_heap := (pw_heap w1)(p \<mapsto> e\<lparr>pe_ref_count := pe_ref_count e + 1, pe_manager := True\<rparr>),
    pw_peers := pw_peers w1 @ [(pe_id e, p)],
    pw_sources := pw_sources w1 @ [(pw_next_source w1, Notify_new_peer p)], pw_next_source := pw_next_source w1 + 1\<rparr>"
  note add = insert_ok [OF w1(1-3) assms(4) w1(4), folded w2_def]
  define w3 where "w3 = (if pw_now w2 - pw_cleanup_timer w2 \<le> seconds (pw_cleanup_interval w2) then w2 else cleaned w2)"
  let ?e = "e\<lparr>pe_ref_count := pe_ref_count e + 1, pe_manager := True\<rparr>"
  have h2: "pw_heap w2 p = Some ?e" "p \<in> snd ` set (pw_peers w2)" "\<not> expired w2 ?e"
    using w1(4) by (simp_all add: w2_def expired_def)
  have w3: "evd_peer_manager_cleanup_peers w2 = Some w3" "world_ok w3"
    using cleanup_result [of w2] cleaned_ok add(2) by (auto simp: w3_def world_ok_def)
  have "pw_heap w3 p = Some ?e"
    using h2 assms(4) cleaned_alive [of p w2] by (simp add: w3_def dead_def checked_def)
  moreover have "0 < pe_ref_count e" using assms(1,2) by (auto simp: world_ok_def heap_ok_def)
  moreover have "\<not> expired w3 ?e" using w1(4) by (simp add: w3_def w2_def expired_def)
  ultimately have "peer_unref p w3 = Some (set_peer p (?e\<lparr>pe_ref_count := pe_ref_count e\<rparr>) w3)"
    "world_ok (set_peer p (?e\<lparr>pe_ref_count := pe_ref_count e\<rparr>) w3)"
    using set_peer_ok [OF w3(2), of p ?e "?e\<lparr>pe_ref_count := pe_ref_count e\<rparr>"]
    by (auto simp: peer_unref_def expired_def)
  then show ?thesis
    using assms(2) l r add(1) w3(1)
    by (simp add: evd_transport_accept_peer_internal_def) (simp add: set_peer_def)
qed

section \<open>All steps\<close>

text \<open>
  The operations of the user, the passing of time, the transport's knowledge of connections, and
  the main loop. Peers are accepted at once, rejected, or accepted or rejected later; they are closed
  by the user or the transport, looked up, sent messages and cleaned up.
\<close>

datatype peer_op =
    New_peer nat string "EvdValidate list"
  | Accept_peer nat
  | Reject_peer nat
  | Close_peer nat bool
  | Close_transport_peer nat bool
  | Lookup_peer "string option"
  | Get_all_peers
  | Push_message nat "byte list" EvdMessageType
  | Pass_time nat
  | Connections "nat \<Rightarrow> bool"
  | Run_main_loop

definition peer_step :: "peer_world \<Rightarrow> peer_op \<Rightarrow> peer_world option" where
  "peer_step w op =
     (case op of
        New_peer p uuid handlers \<Rightarrow> map_option fst (evd_transport_create_new_peer_internal p uuid handlers w)
      | Accept_peer p \<Rightarrow> evd_transport_accept_peer_internal p w
      | Reject_peer p \<Rightarrow> map_option fst (evd_transport_reject_peer p w)
      | Close_peer p g \<Rightarrow> evd_peer_close close_fuel p g w
      | Close_transport_peer p g \<Rightarrow> evd_transport_close_peer close_fuel p g w
      | Lookup_peer k \<Rightarrow> Some (fst (evd_transport_lookup_peer k w))
      | Get_all_peers \<Rightarrow> map_option fst (evd_peer_manager_get_all_peers w)
      | Push_message p b t \<Rightarrow> do { e \<leftarrow> pw_heap w p; Some (set_peer p (fst (evd_peer_push_message e b t)) w) }
      | Pass_time t \<Rightarrow> Some (w\<lparr>pw_now := pw_now w + t\<rparr>)
      | Connections c \<Rightarrow> Some (w\<lparr>pw_connected := c\<rparr>)
      | Run_main_loop \<Rightarrow>
          (case pw_sources w of
             [] \<Rightarrow> Some w
           | (n, src) # srcs \<Rightarrow> run_source src (w\<lparr>pw_sources := srcs\<rparr>)))"

text \<open>
  What the code relies on. New peers are at free addresses and have fresh identifiers; operations on a
  peer are called while it exists. The main loop announces a new peer before it is closed (lemma
  \<open>peer_announce_use_after_free\<close>) and before time passes, in which it could expire; a peer is accepted
  before it has expired (lemma \<open>late_accept_use_after_free\<close>) and rejected only if it has not been accepted.
\<close>

definition peer_op_allowed :: "peer_world \<Rightarrow> peer_op \<Rightarrow> bool" where
  "peer_op_allowed w op \<longleftrightarrow>
     (case op of
        New_peer p uuid handlers \<Rightarrow> pw_heap w p = None \<and> (\<forall>q e. pw_heap w q = Some e \<longrightarrow> pe_id e \<noteq> uuid)
      | Accept_peer p \<Rightarrow> (case pw_heap w p of None \<Rightarrow> False | Some e \<Rightarrow> \<not> pe_closed e \<and> \<not> expired w e)
      | Reject_peer p \<Rightarrow> pw_heap w p \<noteq> None \<and> p \<notin> snd ` set (pw_peers w)
      | Close_peer p g \<Rightarrow> pw_heap w p \<noteq> None \<and> \<not> pending w p
      | Close_transport_peer p g \<Rightarrow> pw_heap w p \<noteq> None \<and> \<not> pending w p
      | Push_message p b t \<Rightarrow> pw_heap w p \<noteq> None
      | Pass_time t \<Rightarrow> announcements w = []
      | _ \<Rightarrow> True)"

lemma create_peer_ok:
  assumes "world_ok w" and "peer_op_allowed w (New_peer p uuid handlers)"
  shows "\<exists>r. evd_transport_create_new_peer_internal p uuid handlers w = Some r \<and> world_ok (fst r)"
proof -
  let ?e = "evd_peer_init uuid (pw_now w)"
  let ?w = "set_peer p ?e w"
  have a: "pw_heap w p = None" "\<forall>q e. pw_heap w q = Some e \<longrightarrow> pe_id e \<noteq> uuid"
    using assms(2) by (simp_all add: peer_op_allowed_def)
  note n = new_peer_ok [OF assms(1) a]
  have h: "pw_heap ?w p = Some ?e" "p \<notin> snd ` set (pw_peers ?w)" "\<not> pe_closed ?e" "\<not> expired ?w ?e"
    using n(2) by (simp_all add: set_peer_def evd_peer_init_def expired_def)
  have gone: "peer_unref p ?w = Some w"
    using a(1) by (cases w) (auto simp: peer_unref_def set_peer_def evd_peer_init_def)
  show ?thesis
    using accept_ok [OF n(1) h] n(1) gone assms(1)
    by (auto simp: evd_transport_create_new_peer_internal_def Let_def split: EvdValidate.split)
qed

lemma main_loop_peer_ok:
  assumes "world_ok w"
  shows "\<exists>w'. peer_step w Run_main_loop = Some w' \<and> world_ok w'"
proof (cases "pw_sources w")
  case Nil
  with assms show ?thesis by (simp add: peer_step_def)
next
  case (Cons s srcs)
  obtain n src where s: "s = (n, src)" by (cases s)
  show ?thesis
  proof (cases src)
    case Cleanup_peers
    let ?w = "w\<lparr>pw_sources := srcs, pw_cleanup_src_id := 0\<rparr>"
    have "world_ok ?w = world_ok w" by (rule world_ok_cong) (simp_all add: Cons s Cleanup_peers)
    with assms cleanup_ok [of ?w] Cons s Cleanup_peers show ?thesis
      by (auto simp: peer_step_def run_source_def evd_peer_manager_cleanup_peers_cb_def world_ok_def peers_ok_def)
  next
    case (Notify_new_peer p)
    let ?w = "w\<lparr>pw_sources := srcs\<rparr>"
    have A: "announcements_ok w" using assms by (simp add: world_ok_def)
    have "pending w p" by (simp add: pending_def Cons s Notify_new_peer)
    with A obtain e where e: "pw_heap w p = Some e" "pe_manager e" by (auto simp: announcements_ok_def)
    have np: "\<not> pending ?w p" using A by (auto simp: announcements_ok_def Cons s Notify_new_peer pending_def)
    have "pending ?w q \<Longrightarrow> pending w q" for q by (auto simp: pending_def Cons)
    moreover have "expired ?w = expired w" by (rule expired_cong) simp
    moreover have "open_peer ?w = open_peer w" by (simp add: fun_eq_iff open_peer_def)
    ultimately have ok: "world_ok ?w"
      using assms by (auto simp: world_ok_def announcements_ok_def peers_ok_def heap_ok_def Cons s Notify_new_peer)
    have "0 < pe_ref_count e" using assms e(1) by (auto simp: world_ok_def heap_ok_def)
    then have "world_ok (set_peer p (e\<lparr>pe_manager := False\<rparr>) (peer_log (Manager_new_peer p) ?w))"
      using ok np e by (intro set_peer_ok [where e = e]) (simp_all, simp_all add: peer_log_def pending_def)
    then show ?thesis
      using Cons s Notify_new_peer e
      by (simp add: peer_step_def run_source_def evd_peer_manager_notify_new_peer_def)
  qed
qed

lemma accept_known:
  assumes "world_ok w" "pw_heap w p = Some e" "p \<in> snd ` set (pw_peers w)"
  shows "\<exists>w'. evd_transport_accept_peer_internal p w = Some w' \<and> world_ok w'"
proof -
  obtain w1 r where l: "evd_peer_manager_lookup_peer (Some (pe_id e)) w = (w1, r)" by fastforce
  have "map_of (pw_peers w) (pe_id e) = Some p" using table_id [OF assms(1,2)] assms(3) by auto
  with l have "r = Some p" by (auto simp: evd_peer_manager_lookup_peer_def add_source_def)
  with lookup_ok [OF assms(1) l] l assms(2) show ?thesis by (simp add: evd_transport_accept_peer_internal_def)
qed

lemma reject_ok:
  assumes "world_ok w" "pw_heap w p = Some e" "p \<notin> snd ` set (pw_peers w)"
  shows "\<exists>w'. peer_unref p w = Some w' \<and> world_ok w'"
proof -
  have np: "\<not> pending w p" using assms(1,3) by (auto simp: world_ok_def announcements_ok_def)
  have "world_ok (set_peer p (e\<lparr>pe_ref_count := pe_ref_count e - 1\<rparr>) w)" if "1 < pe_ref_count e"
    using that np by (intro set_peer_ok [OF assms(1,2)]) simp_all
  moreover have "world_ok (w\<lparr>pw_heap := (pw_heap w)(p := None)\<rparr>)"
  proof -
    let ?w = "w\<lparr>pw_heap := (pw_heap w)(p := None)\<rparr>"
    have P: "peers_ok w" and A: "announcements_ok w" and H: "heap_ok w" using assms(1) by (simp_all add: world_ok_def)
    have "open_peer ?w kv" if "kv \<in> set (pw_peers w)" for kv
    proof -
      have "open_peer w kv" "snd kv \<noteq> p" using that P assms(3) by (auto simp: peers_ok_def)
      then show ?thesis by (simp add: open_peer_def)
    qed
    with P have "peers_ok ?w" by (simp add: peers_ok_def)
    moreover have "heap_ok ?w" using H by (simp add: heap_ok_def)
    moreover have "announcements_ok ?w"
    proof -
      have e: "pending ?w = pending w" "expired ?w = expired w" by (rule pending_cong, simp, rule expired_cong, simp)
      have "pw_heap ?w q = pw_heap w q" if "pending w q" for q using that np by auto
      with A show ?thesis unfolding announcements_ok_def e by simp
    qed
    ultimately show ?thesis by (simp add: world_ok_def)
  qed
  ultimately show ?thesis using assms(2) by (simp add: peer_unref_def)
qed

lemma peer_step_ok:
  assumes "world_ok w" and "peer_op_allowed w op"
  shows "\<exists>w'. peer_step w op = Some w' \<and> world_ok w'"
proof (cases op)
  case (New_peer p uuid handlers)
  from create_peer_ok [OF assms(1), of p uuid handlers] assms(2) New_peer show ?thesis
    by (auto simp: peer_step_def)
next
  case (Accept_peer p)
  with assms(2) obtain e where e: "pw_heap w p = Some e" "\<not> pe_closed e" "\<not> expired w e"
    by (auto simp: peer_op_allowed_def split: option.splits)
  show ?thesis
  proof (cases "p \<in> snd ` set (pw_peers w)")
    case True
    then show ?thesis using accept_known [OF assms(1) e(1)] Accept_peer by (simp add: peer_step_def)
  next
    case False
    then show ?thesis using accept_ok [OF assms(1) e(1) _ e(2,3)] Accept_peer by (simp add: peer_step_def)
  qed
next
  case (Reject_peer p)
  with assms(2) obtain e where e: "pw_heap w p = Some e" "p \<notin> snd ` set (pw_peers w)" by (auto simp: peer_op_allowed_def)
  then show ?thesis using reject_ok [OF assms(1)] Reject_peer by (fastforce simp: peer_step_def evd_transport_reject_peer_def)
next
  case (Close_peer p g)
  with assms(2) obtain e where "pw_heap w p = Some e" "\<not> pending w p" by (auto simp: peer_op_allowed_def)
  with close_ok(1) [OF assms(1) this] Close_peer show ?thesis
    by (simp add: peer_step_def)
next
  case (Close_transport_peer p g)
  with assms(2) obtain e where "pw_heap w p = Some e" "\<not> pending w p" by (auto simp: peer_op_allowed_def)
  with close_ok(2) [OF assms(1) this] Close_transport_peer show ?thesis
    by (simp add: peer_step_def)
next
  case (Lookup_peer k)
  obtain w' r where l: "evd_peer_manager_lookup_peer k w = (w', r)" by fastforce
  with lookup_ok [OF assms(1) l] assms(1) Lookup_peer show ?thesis
    by (simp add: peer_step_def evd_transport_lookup_peer_def)
next
  case Get_all_peers
  then show ?thesis
    using cleanup_ok [OF assms(1)]
    by (auto simp: peer_step_def evd_peer_manager_get_all_peers_def)
next
  case (Push_message p b t)
  with assms(2) obtain e where e: "pw_heap w p = Some e" by (auto simp: peer_op_allowed_def)
  have "0 < pe_ref_count e" using assms(1) e by (auto simp: world_ok_def heap_ok_def)
  moreover have "pending w p \<longrightarrow> pe_manager e \<and> \<not> expired w e"
    using assms(1) e by (auto simp: world_ok_def announcements_ok_def)
  ultimately have "world_ok (set_peer p (fst (evd_peer_push_message e b t)) w)"
    by (intro set_peer_ok [OF assms(1) e]) (simp_all add: evd_peer_push_message_def expired_def)
  with Push_message e show ?thesis by (simp add: peer_step_def)
next
  case (Pass_time t)
  let ?w = "w\<lparr>pw_now := pw_now w + t\<rparr>"
  from assms(2) Pass_time have n: "announcements w = []" by (simp add: peer_op_allowed_def)
  have "open_peer ?w = open_peer w" by (simp add: fun_eq_iff open_peer_def)
  moreover have "\<not> pending ?w q" for q using n by (auto simp: pending_def filter_empty_conv)
  ultimately have "world_ok ?w"
    using assms(1) by (auto simp: world_ok_def peers_ok_def announcements_ok_def heap_ok_def)
  with Pass_time show ?thesis by (simp add: peer_step_def)
next
  case (Connections f)
  have "world_ok (w\<lparr>pw_connected := f\<rparr>) = world_ok w" by (rule world_ok_cong) simp_all
  with Connections assms(1) show ?thesis by (simp add: peer_step_def)
next
  case Run_main_loop
  with main_loop_peer_ok [OF assms(1)] show ?thesis by simp
qed

interpretation pm: guarded_machine peer_step world_ok peer_op_allowed
  by unfold_locales (rule peer_step_ok)

lemma world_ok_init: "world_ok (evd_peer_manager_init now)"
  by (simp add: evd_peer_manager_init_def world_ok_def peers_ok_def announcements_ok_def heap_ok_def pending_def)

lemma peer_run:
  assumes "steps_allowed peer_op_allowed peer_step (evd_peer_manager_init now) ops"
  shows "\<exists>w. run_ops peer_step (evd_peer_manager_init now) ops = Some w \<and> world_ok w"
  by (rule pm.allowed_run [OF world_ok_init assms])

text \<open>
  \<open>evd_peer_manager_close_peer\<close>, called by the user on a peer that only the manager refers to, takes
  it out of the table, which frees it, and then closes it.
\<close>

lemma manager_close_use_after_free:
  assumes "pw_heap w p = Some e" and "map_of (pw_peers w) (pe_id e) = Some p" and "pe_ref_count e = 1"
  shows "evd_peer_manager_close_peer n p g w = None"
proof (cases n)
  case (Suc m)
  then show ?thesis
    using assms by (cases m; cases "m - 1") (auto simp: peer_unref_def)
qed simp

section \<open>Properties\<close>

text \<open>
  C25. For users that keep to the rules (\<open>peer_op_allowed\<close>), after any sequence of creating, accepting,
  rejecting, closing, looking up, cleaning up and sending to peers, nothing freed was used, and a peer that
  a lookup returns has not been freed, is open, neither closed nor being closed, and has the identifier
  asked for. It can have expired since the last clean-up, so that \<open>evd_peer_is_alive\<close> can be FALSE.
\<close>

theorem peer_lookup_open:
  assumes "steps_allowed peer_op_allowed peer_step (evd_peer_manager_init now) ops"
  shows "\<exists>w. run_ops peer_step (evd_peer_manager_init now) ops = Some w \<and>
     (\<forall>key p. snd (evd_peer_manager_lookup_peer (Some key) w) = Some p \<longrightarrow>
        (\<exists>e. pw_heap w p = Some e \<and> pe_id e = key \<and> \<not> evd_peer_is_closed e \<and> \<not> pe_closing e \<and> 0 < pe_ref_count e))"
proof -
  obtain w where w: "run_ops peer_step (evd_peer_manager_init now) ops = Some w" "world_ok w"
    using peer_run [OF assms] by blast
  have "\<exists>e. pw_heap w p = Some e \<and> pe_id e = key \<and> \<not> evd_peer_is_closed e \<and> \<not> pe_closing e \<and> 0 < pe_ref_count e"
    if "snd (evd_peer_manager_lookup_peer (Some key) w) = Some p" for key p
  proof -
    from that have "map_of (pw_peers w) key = Some p"
      by (simp add: evd_peer_manager_lookup_peer_def add_source_def)
    then have "(key, p) \<in> set (pw_peers w)" by (rule map_of_SomeD)
    with w(2) have "open_peer w (key, p)" by (auto simp: world_ok_def peers_ok_def)
    then show ?thesis by (auto simp: open_peer_def evd_peer_is_closed_def)
  qed
  with w(1) show ?thesis by blast
qed

text \<open>
  C26. Closing a peer of the manager, from the peer or from its transport, returns although the two
  and the manager call each other, and has the same effect: the peer leaves the table, loses the
  reference of the table, and the manager, the transport and its hook are told once each. Closing it
  from the manager, with \<open>evd_peer_manager_close_peer\<close>, uses it after it was freed, unless somebody but the
  table has a reference.
\<close>

theorem peer_close_once:
  assumes "steps_allowed peer_op_allowed peer_step (evd_peer_manager_init now) ops"
    and "run_ops peer_step (evd_peer_manager_init now) ops = Some w"
    and "map_of (pw_peers w) key = Some p" and "pw_heap w p = Some e" and "5 < n"
  shows "evd_peer_close n p g w = Some (closed_world p g e w) \<and>
    evd_transport_close_peer n p g w = Some (closed_world p g e w) \<and>
    (pe_ref_count e = 1 \<longrightarrow> evd_peer_manager_close_peer n p g w = None)"
proof -
  from peer_run [OF assms(1)] assms(2) have ok: "world_ok w" by simp
  from map_of_SomeD [OF assms(3)] ok have "open_peer w (key, p)" by (auto simp: world_ok_def peers_ok_def)
  with assms(4) have e: "pe_id e = key" "\<not> pe_closed e" "\<not> pe_closing e" "0 < pe_ref_count e"
    by (auto simp: open_peer_def)
  from assms(5) obtain k where n: "n = Suc (Suc (Suc (Suc (Suc (Suc k)))))"
    using less_imp_Suc_add [OF assms(5)] by (auto simp: eval_nat_numeral)
  show ?thesis
    using peer_close_in_table [OF assms(4) _ e(3,4,2)] transport_close_in_table [OF assms(4) _ e(3,4)]
      manager_close_use_after_free [OF assms(4)]
      assms(3) e(1) by (simp add: n del: evd_peer_close.simps evd_transport_close_peer.simps evd_peer_manager_close_peer.simps)
qed

text \<open>
  C27. \<open>evd_peer_is_alive\<close> is TRUE exactly for the peers that are not closed and have not been idle for longer
  than their time-out, or are connected. When more than the cleaning interval has passed since the last
  time, cleaning up removes from the table exactly the peers for which it is FALSE, and closes each of
  them, in order, telling the transport and the manager once; the others stay. For users that keep to the
  rules (\<open>peer_op_allowed\<close>).
\<close>

theorem peer_cleanup:
  assumes "steps_allowed peer_op_allowed peer_step (evd_peer_manager_init now) ops"
    and "run_ops peer_step (evd_peer_manager_init now) ops = Some w"
    and "seconds (pw_cleanup_interval w) < pw_now w - pw_cleanup_timer w"
  shows "(\<forall>p e. pw_heap w p = Some e \<longrightarrow> map_option snd (evd_peer_is_alive p w) = Some (\<not> dead w p)) \<and>
    (\<exists>w'. evd_peer_manager_cleanup_peers w = Some w' \<and>
      pw_peers w' = filter (\<lambda>kv. \<not> dead w (snd kv)) (pw_peers w) \<and>
      pw_log w' = pw_log w @ concat (map closing_events (dead_peers w)))"
proof -
  from peer_run [OF assms(1)] assms(2) have "world_ok w" by simp
  then have "evd_peer_manager_cleanup_peers w = Some (cleaned w)"
    using cleanup_result [of w] assms(3) by (simp add: world_ok_def)
  then show ?thesis using is_alive_result by (simp add: cleaned_def)
qed

lemmas peer_eval [evd_eval] = evd_peer_manager_init_def peer_step_def evd_transport_create_new_peer_internal_def
  evd_transport_accept_peer_internal_def evd_peer_manager_lookup_peer_def evd_peer_manager_add_peer_def
  evd_peer_manager_cleanup_peers_def insert_peer_def add_source_def set_peer_def peer_ref_def peer_unref_def
  peer_log_def evd_peer_init_def run_source_def evd_peer_manager_notify_new_peer_def
  evd_peer_manager_cleanup_peers_cb_def seconds_def DEFAULT_PEER_CLEANUP_INTERVAL_def
  DEFAULT_TIMEOUT_INTERVAL_def Let_def

definition demo_peer :: EvdPeer where
  "demo_peer = \<lparr>pe_id = ''a'', pe_closed = False, pe_backlog = [], pe_idle_timer = 0, pe_timeout_interval = 15,
     pe_ref_count = 1, pe_closing = False, pe_manager = False\<rparr>"

text \<open>A peer that is accepted after its validation and expires; a second one that is closed.\<close>

definition demo_peer_ops :: "peer_op list" where
  "demo_peer_ops = [New_peer 7 ''a'' [EVD_VALIDATE_PENDING], Accept_peer 7, Run_main_loop, Run_main_loop, New_peer 8 ''b'' [],
     Run_main_loop, Run_main_loop, Close_peer 8 True, Pass_time 20000000]"

lemma demo_run:
  "steps_allowed peer_op_allowed peer_step (evd_peer_manager_init 0) demo_peer_ops"
  "\<exists>w. run_ops peer_step (evd_peer_manager_init 0) demo_peer_ops = Some w \<and>
     pw_peers w = [(''a'', 7)] \<and> pw_heap w 7 = Some demo_peer \<and> pw_now w = 20000000 \<and>
     pw_cleanup_timer w = 0 \<and> pw_cleanup_interval w = 5 \<and> \<not> pw_connected w 7"
  by (simp_all add: demo_peer_ops_def peer_op_allowed_def evd_eval demo_peer_def close_fuel_unfold
      evd_transport_validate_peer_signal_acc_def pending_def expired_def)

theorem peer_lookup_open_witness:
  "\<exists>w e. run_ops peer_step (evd_peer_manager_init 0) demo_peer_ops = Some w \<and>
     snd (evd_peer_manager_lookup_peer (Some ''a'') w) = Some 7 \<and>
     pw_heap w 7 = Some e \<and> pe_id e = ''a'' \<and> \<not> evd_peer_is_closed e"
proof -
  obtain w where w: "run_ops peer_step (evd_peer_manager_init 0) demo_peer_ops = Some w"
    "pw_peers w = [(''a'', 7)]" using demo_run(2) by blast
  have l: "snd (evd_peer_manager_lookup_peer (Some ''a'') w) = Some 7"
    using w(2) by (simp add: evd_peer_manager_lookup_peer_def add_source_def)
  with peer_lookup_open [OF demo_run(1)] w(1) show ?thesis by fastforce
qed

theorem peer_close_once_witness:
  "\<exists>w. run_ops peer_step (evd_peer_manager_init 0) demo_peer_ops = Some w \<and>
     evd_peer_close 9 7 True w = Some (closed_world 7 True demo_peer w)"
proof -
  obtain w where w: "run_ops peer_step (evd_peer_manager_init 0) demo_peer_ops = Some w"
    "pw_peers w = [(''a'', 7)]" "pw_heap w 7 = Some demo_peer"
    using demo_run(2) by blast
  then show ?thesis using peer_close_once [OF demo_run(1) w(1), of "''a''" 7 demo_peer 9 True] by simp
qed

theorem peer_cleanup_witness:
  "\<exists>w w'. run_ops peer_step (evd_peer_manager_init 0) demo_peer_ops = Some w \<and>
     map_option snd (evd_peer_is_alive 7 w) = Some False \<and>
     evd_peer_manager_cleanup_peers w = Some w' \<and> pw_peers w' = [] \<and>
     pw_log w' = pw_log w @ [Transport_peer_closed_hook 7 False, Transport_peer_closed 7 False,
       Manager_peer_closed 7 False]"
proof -
  obtain w where w: "run_ops peer_step (evd_peer_manager_init 0) demo_peer_ops = Some w"
    "pw_peers w = [(''a'', 7)]" "pw_heap w 7 = Some demo_peer" "pw_now w = 20000000"
    "pw_cleanup_timer w = 0" "pw_cleanup_interval w = 5" "\<not> pw_connected w 7"
    using demo_run(2) by blast
  have d: "dead w 7" using w by (simp add: dead_def expired_def demo_peer_def seconds_def)
  have "seconds (pw_cleanup_interval w) < pw_now w - pw_cleanup_timer w" by (simp add: w seconds_def)
  from peer_cleanup [OF demo_run(1) w(1) this] obtain w' where
    c: "map_option snd (evd_peer_is_alive 7 w) = Some (\<not> dead w 7)" "evd_peer_manager_cleanup_peers w = Some w'"
      "pw_peers w' = filter (\<lambda>kv. \<not> dead w (snd kv)) (pw_peers w)"
      "pw_log w' = pw_log w @ concat (map closing_events (dead_peers w))"
    using w(3) by blast
  have "pw_peers w' = []" "pw_log w' = pw_log w @ [Transport_peer_closed_hook 7 False, Transport_peer_closed 7 False, Manager_peer_closed 7 False]"
    using c(3,4) w(2) d by (simp_all add: dead_peers_def closing_events_def)
  with w(1) c(1,2) d show ?thesis by blast
qed

section \<open>Uses of freed objects\<close>

text \<open>
  The idle source that announces a new peer has no reference to it: closing the peer first leaves
  the source with a freed peer.
\<close>

lemma peer_announce_use_after_free:
  "run_ops peer_step (evd_peer_manager_init 0)
     [New_peer 7 ''a'' [], Close_peer 7 True, Run_main_loop, Run_main_loop] = None"
  by (simp add: evd_eval close_fuel_unfold)

text \<open>
  Accepting a peer whose validation took longer than its time-out: the clean-up that comes with
  adding it closes it at once, and the announcement of the transport uses it after it was freed.
\<close>

lemma late_accept_use_after_free:
  "(case run_ops peer_step (evd_peer_manager_init 0) [New_peer 7 ''a'' [EVD_VALIDATE_PENDING], Pass_time 20000000] of
      None \<Rightarrow> True | Some w \<Rightarrow> evd_transport_accept_peer_internal 7 w \<noteq> None) = False"
  by (simp add: evd_eval close_fuel_unfold evd_peer_manager_check_peer_def evd_peer_is_alive_def
      evd_transport_peer_is_connected_def evd_transport_validate_peer_signal_acc_def)

text \<open>
  Every lookup starts a source, but the manager remembers only the last one: a source of an earlier
  lookup outlives the manager and uses it.
\<close>

lemma lookup_source_outlives_manager:
  "(case run_ops peer_step (evd_peer_manager_init 0) [Lookup_peer (Some ''a''), Lookup_peer (Some ''b'')] of
      None \<Rightarrow> True
    | Some w \<Rightarrow> peer_step (evd_peer_manager_finalize w) Run_main_loop \<noteq> None) = False"
  by (simp add: evd_eval evd_transport_lookup_peer_def evd_peer_manager_finalize_def)

end
