(* ===== verification/Longpolling.thy ===== *)
theory Longpolling
  imports Http_Writer Peer
begin

text \<open>
  The long-polling transport, \<open>evd/evd-longpolling-server.c\<close>, with the sending function of
  \<open>evd/evd-transport.c\<close>: messages for a peer travel in the responses to its requests, each behind a
  small header with its length, and wait in the backlog of the peer while there is no request to
  respond to. The model follows one peer; \<open>lp_conn\<close> are the writers of the connections. The output
  streams of the connections and what libsoup says of headers are parameters (\<open>lp_env\<close>).
\<close>

section \<open>The header of a message\<close>

definition pad_left :: "nat \<Rightarrow> byte \<Rightarrow> byte list \<Rightarrow> byte list" where
  "pad_left k c s = replicate (k - length s) c @ s"

text \<open>
  The first part of \<open>evd_longpolling_server_write_frame_delivery\<close>: the formats are \<open>%04x\<close>, padded
  with zeros, and \<open>%16x\<close>, padded with spaces.
\<close>

definition frame_header :: "nat \<Rightarrow> byte list" where
  "frame_header n =
     (if n \<le> 0x7F - 2 then [of_nat n]
      else if n \<le> 0xFFFF then (0x7F - 1) # take 4 (pad_left 4 48 (hex_text n))
      else 0x7F # take 16 (pad_left 16 32 (hex_text (n mod 2 ^ 32))))"

text \<open>
  \<open>sscanf\<close> with \<open>%x\<close> and a width: white space is skipped and does not count, then a sign, a prefix
  \<open>0x\<close> and digits up to the width; without digits nothing is stored. The result is a \<open>guint\<close>.
\<close>

definition is_space :: "byte \<Rightarrow> bool" where
  "is_space c \<longleftrightarrow> c = 32 \<or> 9 \<le> c \<and> c \<le> 13"

definition drop_sign :: "byte list \<Rightarrow> bool \<times> byte list" where
  "drop_sign s = (case s of [] \<Rightarrow> (False, []) | c # cs \<Rightarrow>
     if c = 45 then (True, cs) else if c = 43 then (False, cs) else (False, s))"

definition drop_prefix_0x :: "byte list \<Rightarrow> byte list" where
  "drop_prefix_0x s = (case s of a # b # cs \<Rightarrow> if a = 48 \<and> (b = 120 \<or> b = 88) then cs else s | _ \<Rightarrow> s)"

definition sscanf_hex_width :: "nat \<Rightarrow> byte list \<Rightarrow> nat option" where
  "sscanf_hex_width width s =
     (case drop_sign (take width (dropWhile is_space s)) of
        (neg, t) \<Rightarrow>
          let digits = takeWhile hex_digit (drop_prefix_0x t); v = hex_value digits mod 2 ^ 32
          in if digits = [] then None
             else Some (if neg then (2 ^ 32 - v) mod 2 ^ 32 else v))"

text \<open>
  The length of the header and of the message; \<open>msg_len\<close> is the value that the variable has from
  the message before.
\<close>

definition evd_longpolling_server_read_msg_header :: "byte list \<Rightarrow> nat \<Rightarrow> nat \<times> nat" where
  "evd_longpolling_server_read_msg_header buf msg_len =
     (let hdr = unat (hd buf AND 0x7F)
      in if hdr \<le> 0x7F - 2 then (1, hdr)
         else if hdr = 0x7F - 1
         then (5, case sscanf_hex_width 4 (tl buf) of None \<Rightarrow> msg_len | Some v \<Rightarrow> v)
         else (17, case sscanf_hex_width 16 (tl buf) of None \<Rightarrow> msg_len | Some v \<Rightarrow> v))"

text \<open>
  The loop over the content of a request, which hands every message to \<open>receive\<close>; \<^term>\<open>None\<close> if it
  hands over bytes after the end of the content.
\<close>

function read_messages :: "nat \<Rightarrow> byte list \<Rightarrow> byte list list option" where
  "read_messages msg_len content =
     (if content = [] then Some []
      else case evd_longpolling_server_read_msg_header content msg_len of
             (hdr_len, msg_len) \<Rightarrow>
               if length content < hdr_len + msg_len then None
               else map_option (\<lambda>ms. take msg_len (drop hdr_len content) # ms)
                      (read_messages msg_len (drop (hdr_len + msg_len) content)))"
  by pat_completeness auto

termination
  by (relation "measure (length \<circ> snd)")
    (auto simp: evd_longpolling_server_read_msg_header_def Let_def split: if_splits)

declare read_messages.simps [simp del]

section \<open>The client in the browser\<close>

text \<open>
  The receiving side of \<open>evd/js/evdWebTransport.js\<close>, on responses of ASCII characters, of which the text has the
  same characters (others are decoded as UTF-8, which is not modelled). Positions and lengths are integers, or \<^term>\<open>None\<close> for NaN, which
  \<open>substr\<close> takes for 0; a negative position counts from the end.
\<close>

definition js_response_text :: "byte list \<Rightarrow> byte list option" where
  "js_response_text content = (if list_all (\<lambda>b. b < 128) content then Some content else None)"

definition js_position :: "byte list \<Rightarrow> int option \<Rightarrow> nat" where
  "js_position s start = (case start of None \<Rightarrow> 0 | Some i \<Rightarrow> if i < 0 then nat (int (length s) + i) else nat i)"

definition js_substr :: "byte list \<Rightarrow> int option \<Rightarrow> int option \<Rightarrow> byte list" where
  "js_substr s start len = take (case len of None \<Rightarrow> 0 | Some l \<Rightarrow> nat l) (drop (js_position s start) s)"

definition js_substr_from :: "byte list \<Rightarrow> int option \<Rightarrow> byte list" where
  "js_substr_from s start = drop (js_position s start) s"

text \<open>\<open>parseInt (s, 16)\<close>.\<close>

definition js_parse_int_16 :: "byte list \<Rightarrow> int option" where
  "js_parse_int_16 s =
     (case drop_sign (dropWhile is_space s) of
        (neg, t) \<Rightarrow>
          let digits = takeWhile hex_digit (drop_prefix_0x t)
          in if digits = [] then None
             else Some (if neg then - int (hex_value digits) else int (hex_value digits)))"

definition js_readMsgHeader :: "byte list \<Rightarrow> int \<times> int option" where
  "js_readMsgHeader data =
     (let hdr = unat (hd data)
      in if hdr \<le> 0x7F - 2 then (1, Some (int hdr))
         else if hdr = 0x7F - 1 then (5, js_parse_int_16 (js_substr data (Some 1) (Some 4)))
         else (17, js_parse_int_16 (js_substr data (Some 1) (Some 16))))"

text \<open>The loop of \<open>_xhrOnLoad\<close>, which ends if the data gets used up.\<close>

partial_function (option) js_xhrOnLoad :: "byte list \<Rightarrow> byte list list option" where
  "js_xhrOnLoad data =
     (if data = [] then Some []
      else case js_readMsgHeader data of
             (hdr_len, msg_len) \<Rightarrow>
               Option.bind (js_xhrOnLoad (js_substr_from data (map_option ((+) hdr_len) msg_len)))
                 (\<lambda>frames. Some (js_substr data (Some hdr_len) msg_len # frames)))"

section \<open>Sending\<close>

record 's lp_env =
  env_put :: "'s \<Rightarrow> byte list \<Rightarrow> 's \<times> (gio_error + nat)"
  env_encoding :: "(string \<times> string) list \<Rightarrow> SoupEncoding"
  env_origin_allowed :: "string \<Rightarrow> bool"
  env_keepalive :: "nat \<Rightarrow> bool"
  env_origin :: "nat \<Rightarrow> string option"

text \<open>
  \<open>lp_data\<close> is the queue of waiting connections of the peer, \<open>lp_get\<close> the connections with the key
  \<open>CONN_PEER_KEY_GET\<close>, \<open>lp_posts\<close> those whose content is being read (\<open>CONN_PEER_KEY_POST\<close>).
  \<open>lp_responded\<close> are the connections that got a response with a status alone, \<open>lp_returned\<close> those
  given back to the service, \<open>lp_received\<close> the messages handed to the user, \<open>lp_delivered\<close> the
  messages written on connections, \<open>lp_lost\<close> those reported as sent when the headers of the
  response could not be written.
\<close>

record 's lp_world =
  lp_peer :: EvdPeer
  lp_current_peer_id :: "string option"
  lp_data :: "nat list option"
  lp_get :: "nat list"
  lp_posts :: "nat list"
  lp_conn :: "nat \<Rightarrow> 's http_out"
  lp_now :: nat
  lp_responded :: "(nat \<times> nat) list"
  lp_returned :: "nat list"
  lp_received :: "byte list list"
  lp_delivered :: "byte list list"
  lp_lost :: "byte list list"

definition evd_longpolling_server_write_frame_delivery ::
  "('s \<Rightarrow> byte list \<Rightarrow> 's \<times> (gio_error + nat)) \<Rightarrow> 's http_out \<Rightarrow> byte list \<Rightarrow> 's http_out \<times> bool"
where
  "evd_longpolling_server_write_frame_delivery put c buf =
     (case evd_http_connection_write_content put c (frame_header (length buf)) True of
        (c, err) \<Rightarrow>
          (case evd_http_connection_write_content put c buf True of (c, err) \<Rightarrow> (c, err = None)))"

definition response_headers :: "'s lp_env \<Rightarrow> nat \<Rightarrow> (string \<times> string) list" where
  "response_headers env conn =
     [(''Content-type'', ''text/plain; charset=utf-8''), (''Transfer-Encoding'', ''chunked''),
      (''Connection'', if env_keepalive env conn then ''keep-alive'' else ''close'')] @
     (case env_origin env conn of
        None \<Rightarrow> []
      | Some origin \<Rightarrow> if env_origin_allowed env origin then [(''Access-Control-Allow-Origin'', origin)] else [])"

text \<open>The loop that sends the backlog: the peer, the connection, the result, the messages written.\<close>

function send_backlog ::
  "('s \<Rightarrow> byte list \<Rightarrow> 's \<times> (gio_error + nat)) \<Rightarrow> EvdPeer \<Rightarrow> 's http_out \<Rightarrow>
     EvdPeer \<times> 's http_out \<times> bool \<times> byte list list"
where
  "send_backlog put e c =
     (case evd_peer_pop_message e of
        (e', None) \<Rightarrow> (e', c, True, [])
      | (e', Some (frame, type)) \<Rightarrow>
          (case evd_longpolling_server_write_frame_delivery put c frame of
             (c', False) \<Rightarrow> (fst (evd_peer_unshift_message e' frame type), c', False, [])
           | (c', True) \<Rightarrow>
               (case send_backlog put e' c' of (e'', c'', result, sent) \<Rightarrow> (e'', c'', result, frame # sent))))"
  by pat_completeness auto

termination
  by (relation "measure (\<lambda>(put, e, c). length (pe_backlog e))")
    (auto simp: evd_peer_pop_message_def split: list.splits)

declare send_backlog.simps [simp del]

definition evd_longpolling_server_actual_send ::
  "'s lp_env \<Rightarrow> nat \<Rightarrow> byte list option \<Rightarrow> 's lp_world \<Rightarrow> 's lp_world \<times> bool"
where
  "evd_longpolling_server_actual_send env conn buffer w =
     (let put = env_put env; hs = response_headers env conn in
      case evd_http_connection_write_response_headers put (lp_conn w conn) 1 200 ''OK'' (Some hs)
             (env_encoding env hs) of
        (c, Some e) \<Rightarrow>
          (w\<lparr>lp_conn := (lp_conn w)(conn := c),
             lp_lost := lp_lost w @ (case buffer of None \<Rightarrow> [] | Some b \<Rightarrow> [b])\<rparr>, True)
      | (c, None) \<Rightarrow>
          let (peer, c, result, sent) = send_backlog put (lp_peer w) c;
              (c, result, sent) =
                (case buffer of
                   None \<Rightarrow> (c, result, sent)
                 | Some b \<Rightarrow>
                     if result
                     then (case evd_longpolling_server_write_frame_delivery put c b of
                             (c, True) \<Rightarrow> (c, True, sent @ [b])
                           | (c, False) \<Rightarrow> (c, False, sent))
                     else (c, result, sent));
              (c, err) = evd_http_connection_write_content put c [] False
          in (w\<lparr>lp_peer := peer, lp_conn := (lp_conn w)(conn := c), lp_delivered := lp_delivered w @ sent,
                lp_returned := lp_returned w @ [conn]\<rparr>, result))"

definition evd_longpolling_server_select_conn_and_send ::
  "'s lp_env \<Rightarrow> byte list \<Rightarrow> 's lp_world \<Rightarrow> 's lp_world \<times> bool"
where
  "evd_longpolling_server_select_conn_and_send env buffer w =
     (case lp_data w of
        None \<Rightarrow> (w, False)
      | Some [] \<Rightarrow> (w, False)
      | Some (conn # conns) \<Rightarrow>
          evd_longpolling_server_actual_send env conn (Some buffer)
            (w\<lparr>lp_peer := evd_peer_touch (lp_now w) (lp_peer w), lp_data := Some conns\<rparr>))"

definition evd_longpolling_server_send ::
  "'s lp_env \<Rightarrow> byte list \<Rightarrow> 's lp_world \<Rightarrow> 's lp_world \<times> bool"
where
  "evd_longpolling_server_send env buffer w = evd_longpolling_server_select_conn_and_send env buffer w"

text \<open>\<open>send_frame\<close> of the transport: what cannot be sent is pushed to the backlog.\<close>

definition send_frame ::
  "'s lp_env \<Rightarrow> byte list \<Rightarrow> EvdMessageType \<Rightarrow> 's lp_world \<Rightarrow> 's lp_world \<times> bool"
where
  "send_frame env buffer type w =
     (case evd_longpolling_server_send env buffer w of
        (w, True) \<Rightarrow> (w, True)
      | (w, False) \<Rightarrow>
          (case evd_peer_push_message (lp_peer w) buffer type of (peer, r) \<Rightarrow> (w\<lparr>lp_peer := peer\<rparr>, r)))"

definition evd_transport_send :: "'s lp_env \<Rightarrow> byte list \<Rightarrow> 's lp_world \<Rightarrow> 's lp_world \<times> bool" where
  "evd_transport_send env buffer w = send_frame env buffer EVD_MESSAGE_TYPE_BINARY w"

definition evd_transport_send_text :: "'s lp_env \<Rightarrow> byte list \<Rightarrow> 's lp_world \<Rightarrow> 's lp_world \<times> bool" where
  "evd_transport_send_text env text w = send_frame env text EVD_MESSAGE_TYPE_TEXT w"

section \<open>Requests\<close>

text \<open>The last part of a path, by \<open>g_strsplit\<close> with at most 32 parts.\<close>

fun split_path :: "nat \<Rightarrow> string \<Rightarrow> string \<Rightarrow> string list" where
  "split_path 0 acc s = [acc @ s]"
| "split_path n acc [] = [acc]"
| "split_path (Suc n) acc (c # s) = (if c = CHR ''/'' then acc # split_path n [] s else split_path (Suc n) (acc @ [c]) s)"

definition evd_longpolling_server_resolve_action :: "string \<Rightarrow> string" where
  "evd_longpolling_server_resolve_action path = last (split_path 31 [] path)"

text \<open>A request to receive: sends the backlog, or waits.\<close>

definition handle_receive :: "'s lp_env \<Rightarrow> nat \<Rightarrow> 's lp_world \<Rightarrow> 's lp_world" where
  "handle_receive env conn w =
     (let conns = (case lp_data w of None \<Rightarrow> [] | Some conns \<Rightarrow> conns)
      in if evd_peer_backlog_get_length (lp_peer w) > 0
         then fst (evd_longpolling_server_actual_send env conn None (w\<lparr>lp_data := Some conns\<rparr>))
         else w\<lparr>lp_get := List.insert conn (lp_get w), lp_data := Some (conns @ [conn])\<rparr>)"

text \<open>
  A request to send, when its content has been read (\<^term>\<open>None\<close> if reading it failed). The result is
  \<^term>\<open>None\<close> if the loop over the content leaves the content.
\<close>

definition evd_longpolling_server_conn_on_content_read ::
  "'s lp_env \<Rightarrow> nat \<Rightarrow> byte list option \<Rightarrow> 's lp_world \<Rightarrow> 's lp_world option"
where
  "evd_longpolling_server_conn_on_content_read env conn content w =
     map_option (\<lambda>ms. fst (evd_longpolling_server_actual_send env conn None
         (w\<lparr>lp_posts := remove1 conn (lp_posts w), lp_received := lp_received w @ ms\<rparr>)))
       (case content of None \<Rightarrow> Some [] | Some content \<Rightarrow> read_messages 0 content)"

text \<open>The hook that the transport calls when it closes the peer: the waiting connections are returned.\<close>

definition evd_longpolling_server_peer_closed :: "'s lp_world \<Rightarrow> 's lp_world" where
  "evd_longpolling_server_peer_closed w =
     (case lp_data w of
        None \<Rightarrow> w
      | Some conns \<Rightarrow>
          w\<lparr>lp_returned := lp_returned w @ conns, lp_get := filter (\<lambda>c. c \<notin> set conns) (lp_get w),
            lp_data := None\<rparr>)"

definition evd_longpolling_server_remove :: "nat \<Rightarrow> 's lp_world \<Rightarrow> 's lp_world" where
  "evd_longpolling_server_remove conn w =
     (if conn \<in> set (lp_get w)
      then w\<lparr>lp_peer := evd_peer_touch (lp_now w) (lp_peer w), lp_get := filter (\<lambda>c. c \<noteq> conn) (lp_get w),
             lp_data := map_option (remove1 conn) (lp_data w)\<rparr>
      else w)"

definition evd_longpolling_server_peer_is_connected :: "'s lp_world \<Rightarrow> bool" where
  "evd_longpolling_server_peer_is_connected w \<longleftrightarrow>
     \<not> (lp_current_peer_id w \<noteq> Some (pe_id (lp_peer w)) \<and> (lp_data w = None \<or> lp_data w = Some []))"

definition SOUP_STATUS_OK :: nat where "SOUP_STATUS_OK = 200"

definition SOUP_STATUS_NOT_FOUND :: nat where "SOUP_STATUS_NOT_FOUND = 404"

record lp_request =
  rq_conn :: nat
  rq_path :: string
  rq_query :: "string option"

text \<open>
  The peer is the one that the query names (\<open>evd_transport_lookup_peer\<close> finds it while it is open).
  To close it, the transport calls the hook above (theory \<open>Peer\<close>).
\<close>

definition evd_longpolling_server_request_handler ::
  "'s lp_env \<Rightarrow> lp_request \<Rightarrow> 's lp_world \<Rightarrow> 's lp_world"
where
  "evd_longpolling_server_request_handler env req w =
     (let w = w\<lparr>lp_current_peer_id := rq_query req\<rparr>; conn = rq_conn req
      in if rq_query req \<noteq> Some (pe_id (lp_peer w)) \<or> pe_closed (lp_peer w)
         then w\<lparr>lp_responded := lp_responded w @ [(conn, SOUP_STATUS_NOT_FOUND)]\<rparr>
         else
           let w = w\<lparr>lp_peer := evd_peer_touch (lp_now w) (lp_peer w)\<rparr>;
               action = evd_longpolling_server_resolve_action (rq_path req);
               w = (if action = ''receive'' then handle_receive env conn w
                    else if action = ''send'' then w\<lparr>lp_posts := lp_posts w @ [conn]\<rparr>
                    else if action = ''close''
                    then evd_longpolling_server_peer_closed
                           (w\<lparr>lp_responded := lp_responded w @ [(conn, SOUP_STATUS_OK)],
                              lp_peer := (lp_peer w)\<lparr>pe_closed := True\<rparr>\<rparr>)
                    else w)
           in w\<lparr>lp_current_peer_id := None\<rparr>)"

section \<open>Reading what was written\<close>

definition frame_text :: "byte list \<Rightarrow> byte list" where
  "frame_text m = frame_header (length m) @ m"

lemma unat_and_7F: "unat ((x :: byte) AND 0x7F) = unat x mod 128"
proof -
  have "(0x7F :: byte) = mask 7" by (simp add: mask_eq_exp_minus_1)
  then have "x AND 0x7F = take_bit 7 x" by (simp add: take_bit_eq_mask)
  then show ?thesis by (simp only: unsigned_take_bit_eq) (simp add: take_bit_eq_mod)
qed

lemma hex_value_zeros: "hex_value (replicate k 48 @ h) = hex_value h"
proof -
  have "foldl (\<lambda>n c. 16 * n + hex_digit_value c) 0 (replicate k 48) = 0"
    by (induction k) (simp_all add: hex_digit_value_def)
  then show ?thesis by (simp add: hex_value_def)
qed

lemma hex_digit_plain:
  "hex_digit c \<Longrightarrow> \<not> is_space c \<and> c \<noteq> 45 \<and> c \<noteq> 43 \<and> c \<noteq> 120 \<and> c \<noteq> 88"
  by (auto simp: hex_digit_def is_space_def word_le_nat_alt)

lemma sscanf_hex_width_digits:
  assumes "list_all hex_digit h" and "h \<noteq> []" and "length h = width"
  shows "sscanf_hex_width width (h @ rest) = Some (hex_value h mod 2 ^ 32)"
proof -
  obtain c cs where h: "h = c # cs" using assms(2) by (cases h) auto
  have c: "hex_digit c" using assms(1) h by simp
  have "dropWhile is_space (h @ rest) = h @ rest" using h hex_digit_plain [OF c] by simp
  moreover have "drop_sign h = (False, h)" using h hex_digit_plain [OF c] by (simp add: drop_sign_def)
  moreover have "drop_prefix_0x h = h"
    using assms(1) h by (auto simp: drop_prefix_0x_def hex_digit_def split: list.split)
  moreover have w: "takeWhile hex_digit h = h" using assms(1) by (simp add: takeWhile_eq_all_conv list_all_iff)
  ultimately show ?thesis using assms by (simp add: sscanf_hex_width_def Let_def w)
qed

lemma padded_length:
  assumes "n \<le> 0xFFFF"
  shows "length (pad_left 4 48 (hex_text n)) = 4" "list_all hex_digit (pad_left 4 48 (hex_text n))"
    "hex_value (pad_left 4 48 (hex_text n)) = n"
proof -
  have "length (hex_text n) \<le> Suc 3" using assms by (intro hex_text_length) simp
  then show "length (pad_left 4 48 (hex_text n)) = 4" by (simp add: pad_left_def)
  show "list_all hex_digit (pad_left 4 48 (hex_text n))"
    using hex_text_digits [of n] by (auto simp: pad_left_def list_all_iff hex_digit_def)
  show "hex_value (pad_left 4 48 (hex_text n)) = n"
    by (simp add: pad_left_def hex_value_zeros hex_value_text)
qed

lemma read_header_of_frame:
  assumes "n \<le> 0xFFFF"
  shows "evd_longpolling_server_read_msg_header (frame_header n @ rest) prev = (length (frame_header n), n)"
proof (cases "n \<le> 0x7F - 2")
  case True
  then have "unat ((of_nat n :: byte) AND 0x7F) = n" by (simp add: unat_and_7F unat_of_nat)
  with True show ?thesis
    by (simp add: evd_longpolling_server_read_msg_header_def frame_header_def Let_def)
next
  case False
  have "sscanf_hex_width 4 (pad_left 4 48 (hex_text n) @ rest) = Some n"
    using sscanf_hex_width_digits [of "pad_left 4 48 (hex_text n)" 4 rest] padded_length [OF assms] assms
    by (cases "pad_left 4 48 (hex_text n) = []") auto
  with False assms padded_length(1) [OF assms] show ?thesis
    by (simp add: evd_longpolling_server_read_msg_header_def frame_header_def Let_def)
qed

lemma frame_header_not_empty [simp]: "frame_header n \<noteq> []"
  by (simp add: frame_header_def)

lemma read_frame:
  assumes "length m \<le> 0xFFFF"
  shows "read_messages prev (frame_text m @ rest) = map_option (\<lambda>ms. m # ms) (read_messages (length m) rest)"
  using read_header_of_frame [OF assms, of "m @ rest" prev]
  by (subst read_messages.simps) (simp add: frame_text_def)

lemma read_frames:
  "list_all (\<lambda>m. length m \<le> 0xFFFF) ms \<Longrightarrow> read_messages prev (concat (map frame_text ms)) = Some ms"
proof (induction ms arbitrary: prev)
  case Nil
  then show ?case by (simp add: read_messages.simps)
next
  case (Cons m ms)
  then show ?case by (simp add: read_frame)
qed

text \<open>The client finds the messages, also those whose length is padded with spaces.\<close>

lemma drop_padding: "dropWhile is_space (replicate k 32 @ s) = dropWhile is_space s"
  by (induction k) (simp_all add: is_space_def)

lemma js_parse_padded:
  assumes "list_all hex_digit h" and "h \<noteq> []"
  shows "js_parse_int_16 (replicate k 32 @ h) = Some (int (hex_value h))"
proof -
  obtain c cs where h: "h = c # cs" using assms(2) by (cases h) auto
  have c: "hex_digit c" using assms(1) h by simp
  have "dropWhile is_space (replicate k 32 @ h) = h" unfolding drop_padding using h hex_digit_plain [OF c] by simp
  moreover have "drop_sign h = (False, h)" using h hex_digit_plain [OF c] by (simp add: drop_sign_def)
  moreover have "drop_prefix_0x h = h"
    using assms(1) h by (auto simp: drop_prefix_0x_def hex_digit_def split: list.split)
  moreover have w: "takeWhile hex_digit h = h" using assms(1) by (simp add: takeWhile_eq_all_conv list_all_iff)
  ultimately show ?thesis using assms(2) by (simp add: js_parse_int_16_def w)
qed

lemma js_header_of_frame:
  assumes "n < 2 ^ 32"
  shows "js_readMsgHeader (frame_header n @ rest) = (int (length (frame_header n)), Some (int n))"
proof -
  consider "n \<le> 0x7F - 2" | "0x7F - 2 < n" "n \<le> 0xFFFF" | "0xFFFF < n" by linarith
  then show ?thesis
  proof cases
    case 1
    then have "unat (of_nat n :: byte) = n" by (simp add: unat_of_nat)
    with 1 show ?thesis by (simp add: js_readMsgHeader_def frame_header_def Let_def)
  next
    case 2
    have "js_parse_int_16 (pad_left 4 48 (hex_text n)) = Some (int n)"
      using js_parse_padded [of "pad_left 4 48 (hex_text n)" 0] padded_length [OF 2(2)] by (auto simp: pad_left_def)
    with 2 padded_length(1) [OF 2(2)] show ?thesis
      by (simp add: js_readMsgHeader_def frame_header_def js_substr_def js_position_def Let_def)
  next
    case 3
    have "length (hex_text n) \<le> Suc 7" using assms by (intro hex_text_length) simp
    then have len: "length (pad_left 16 32 (hex_text n)) = 16" by (simp add: pad_left_def)
    have "js_parse_int_16 (pad_left 16 32 (hex_text n)) = Some (int n)"
      using js_parse_padded [OF hex_text_digits, of n "16 - length (hex_text n)"] by (simp add: pad_left_def hex_value_text)
    with 3 len assms show ?thesis
      by (simp add: js_readMsgHeader_def frame_header_def js_substr_def js_position_def Let_def)
  qed
qed

lemma js_read_frames:
  "list_all (\<lambda>m. length m < 2 ^ 32) ms \<Longrightarrow> js_xhrOnLoad (concat (map frame_text ms)) = Some ms"
proof (induction ms)
  case Nil
  then show ?case by (simp add: js_xhrOnLoad.simps)
next
  case (Cons m ms)
  let ?rest = "concat (map frame_text ms)"
  have data: "concat (map frame_text (m # ms)) = frame_header (length m) @ m @ ?rest" by (simp add: frame_text_def)
  have h: "js_readMsgHeader (frame_header (length m) @ m @ ?rest) = (int (length (frame_header (length m))), Some (int (length m)))"
    using Cons.prems by (intro js_header_of_frame) simp
  have pos: "nat (int a + int b) = a + b" "\<not> int a + int b < 0" for a b by simp_all
  show ?case
    unfolding data using Cons by (subst js_xhrOnLoad.simps) (simp add: h js_substr_def js_substr_from_def js_position_def pos)
qed

lemma frame_header_ascii: "list_all (\<lambda>b. b < 128) (frame_header n)"
proof -
  have digits: "list_all (\<lambda>b. b < 128) h" if "list_all hex_digit h" for h
    using that by (auto simp: list_all_iff hex_digit_def word_less_nat_alt word_le_nat_alt)
  have "list_all (\<lambda>b. b < 128) (take k (replicate j c @ hex_text m))" if "c < 128" for k j m c
    using digits [OF hex_text_digits, of m] that by (auto simp: list_all_iff dest: in_set_takeD)
  moreover have "of_nat n < (128 :: byte)" if "n \<le> 125" using that by (simp add: word_less_nat_alt unat_of_nat)
  ultimately show ?thesis unfolding frame_header_def pad_left_def by (simp del: take_append list_all_append)
qed

lemma frames_ascii:
  "list_all (list_all (\<lambda>b. b < 128)) ms \<Longrightarrow> js_response_text (concat (map frame_text ms)) = Some (concat (map frame_text ms))"
  using frame_header_ascii by (auto simp: js_response_text_def frame_text_def list_all_iff)

section \<open>What a response contains\<close>

text \<open>
  The backlog and the message, as they are written when every write succeeds: header and content
  of each message as pieces in chunked encoding.
\<close>

definition frame_pieces :: "byte list list \<Rightarrow> byte list list" where
  "frame_pieces ms = concat (map (\<lambda>m. [frame_header (length m), m]) ms)"

lemma frame_pieces_simps [simp]:
  "frame_pieces [] = []" "frame_pieces (m # ms) = [frame_header (length m), m] @ frame_pieces ms"
  "frame_pieces (ms @ ms') = frame_pieces ms @ frame_pieces ms'"
  by (simp_all add: frame_pieces_def)

lemma concat_frame_pieces: "concat (frame_pieces ms) = concat (map frame_text ms)"
  by (induction ms) (simp_all add: frame_text_def)

lemma frame_pieces_small:
  assumes "list_all (\<lambda>m. length m < 2 ^ 32) ms"
  shows "\<forall>b \<in> set (frame_pieces ms). length b < 2 ^ 32"
proof -
  have "length (frame_header n) \<le> 17" for n by (auto simp: frame_header_def min_def)
  then have "length (frame_header n) < 2 ^ 32" for n by (rule le_less_trans) simp
  moreover have "length m < 2 ^ 32" if "m \<in> set ms" for m using assms that unfolding list_all_iff by blast
  ultimately show ?thesis unfolding frame_pieces_def by fastforce
qed

context reliable_stream
begin

lemma write_frame_healthy:
  assumes "healthy (ho_stream c)" and "ho_encoding c = SOUP_ENCODING_CHUNKED"
  shows "\<exists>c'. evd_longpolling_server_write_frame_delivery put c m = (c', True) \<and> healthy (ho_stream c') \<and>
    ho_encoding c' = SOUP_ENCODING_CHUNKED \<and>
    written (ho_stream c') = written (ho_stream c) @ pieces_text [frame_header (length m), m]"
proof -
  obtain c1 where 1: "evd_http_connection_write_content put c (frame_header (length m)) True = (c1, None)"
    "healthy (ho_stream c1)" using write_content_healthy [OF assms(1)] by blast
  obtain c2 where 2: "evd_http_connection_write_content put c1 m True = (c2, None)" "healthy (ho_stream c2)"
    using write_content_healthy [OF 1(2)] by blast
  from write_content_done [OF 1(1) assms(2)] write_content_done [OF 2(1)] 1 2 show ?thesis
    by (simp add: evd_longpolling_server_write_frame_delivery_def)
qed

lemma send_backlog_healthy:
  assumes "healthy (ho_stream c)" and "ho_encoding c = SOUP_ENCODING_CHUNKED"
  shows "\<exists>c'. send_backlog put e c = (e\<lparr>pe_backlog := []\<rparr>, c', True, map bf_buf (pe_backlog e)) \<and>
    healthy (ho_stream c') \<and> ho_encoding c' = SOUP_ENCODING_CHUNKED \<and>
    written (ho_stream c') = written (ho_stream c) @ pieces_text (frame_pieces (map bf_buf (pe_backlog e)))"
  using assms
proof (induction "pe_backlog e" arbitrary: e c)
  case Nil
  then show ?case by (subst send_backlog.simps) (auto simp: evd_peer_pop_message_def)
next
  case (Cons f fs)
  let ?e = "e\<lparr>pe_backlog := fs\<rparr>"
  obtain c1 where 1: "evd_longpolling_server_write_frame_delivery put c (bf_buf f) = (c1, True)"
    "healthy (ho_stream c1)" "ho_encoding c1 = SOUP_ENCODING_CHUNKED"
    "written (ho_stream c1) = written (ho_stream c) @ pieces_text [frame_header (length (bf_buf f)), bf_buf f]"
    using write_frame_healthy [OF Cons.prems] by blast
  from Cons.hyps(1) [of ?e c1] 1(2,3) obtain c2 where 2:
    "send_backlog put ?e c1 = (?e\<lparr>pe_backlog := []\<rparr>, c2, True, map bf_buf fs)"
    "healthy (ho_stream c2)" "ho_encoding c2 = SOUP_ENCODING_CHUNKED"
    "written (ho_stream c2) = written (ho_stream c1) @ pieces_text (frame_pieces (map bf_buf fs))"
    by auto
  have p: "evd_peer_pop_message e = (?e, Some (bf_buf f, bf_type f))"
    by (simp add: evd_peer_pop_message_def flip: Cons.hyps(2))
  have "send_backlog put e c = (e\<lparr>pe_backlog := []\<rparr>, c2, True, bf_buf f # map bf_buf fs)"
    by (subst send_backlog.simps) (simp add: p 1 2)
  with 1 2 show ?case by (simp flip: Cons.hyps(2))
qed

lemma actual_send_healthy:
  fixes buffer :: "byte list option"
  assumes "healthy (ho_stream (lp_conn w conn))" and "env_put env = put"
    and "env_encoding env (response_headers env conn) = SOUP_ENCODING_CHUNKED"
  defines "ms \<equiv> map bf_buf (pe_backlog (lp_peer w)) @ (case buffer of None \<Rightarrow> [] | Some b \<Rightarrow> [b])"
  shows "\<exists>w'. evd_longpolling_server_actual_send env conn buffer w = (w', True) \<and>
    pe_backlog (lp_peer w') = [] \<and> lp_delivered w' = lp_delivered w @ ms \<and>
    written (ho_stream (lp_conn w' conn)) = written (ho_stream (lp_conn w conn)) @
      response_head 1 200 ''OK'' (Some (response_headers env conn)) @ pieces_text (frame_pieces ms) @ last_chunk"
proof -
  let ?hs = "response_headers env conn"
  obtain s where s: "put (ho_stream (lp_conn w conn)) (response_head 1 200 ''OK'' (Some ?hs)) =
      (s, Inr (length (response_head 1 200 ''OK'' (Some ?hs))))" "healthy s"
    using healthy_put [OF assms(1)] by blast
  let ?c = "(lp_conn w conn)\<lparr>ho_encoding := SOUP_ENCODING_CHUNKED, ho_stream := s\<rparr>"
  have head: "evd_http_connection_write_response_headers put (lp_conn w conn) 1 200 ''OK'' (Some ?hs)
      SOUP_ENCODING_CHUNKED = (?c, None)"
    using s by (simp add: evd_http_connection_write_response_headers_def Let_def)
  have head_bytes: "written s = written (ho_stream (lp_conn w conn)) @ response_head 1 200 ''OK'' (Some ?hs)"
    using put_taken [OF s(1)] by simp
  obtain c1 where c1: "send_backlog put (lp_peer w) ?c =
      ((lp_peer w)\<lparr>pe_backlog := []\<rparr>, c1, True, map bf_buf (pe_backlog (lp_peer w)))"
    "healthy (ho_stream c1)" "ho_encoding c1 = SOUP_ENCODING_CHUNKED"
    "written (ho_stream c1) = written s @ pieces_text (frame_pieces (map bf_buf (pe_backlog (lp_peer w))))"
    using send_backlog_healthy [of ?c "lp_peer w"] s(2) by auto
  obtain c2 where c2: "case buffer of None \<Rightarrow> c2 = c1
      | Some b \<Rightarrow> evd_longpolling_server_write_frame_delivery put c1 b = (c2, True)"
    "healthy (ho_stream c2)" "ho_encoding c2 = SOUP_ENCODING_CHUNKED"
    "written (ho_stream c2) = written s @ pieces_text (frame_pieces ms)"
    using write_frame_healthy [OF c1(2,3)] c1 by (cases buffer) (auto simp: ms_def)
  obtain c3 where c3: "evd_http_connection_write_content put c2 [] False = (c3, None)"
    using write_content_healthy [OF c2(2)] by blast
  from write_content_done [OF c3 c2(3)] c2(4) head_bytes
  have "written (ho_stream c3) = written (ho_stream (lp_conn w conn)) @
      response_head 1 200 ''OK'' (Some ?hs) @ pieces_text (frame_pieces ms) @ last_chunk"
    by simp
  with head c1(1) c2(1) c3 assms(2,3) show ?thesis
    by (cases buffer) (simp_all add: evd_longpolling_server_actual_send_def Let_def ms_def)
qed

end

section \<open>No message is lost or reordered\<close>

lemma write_chunk_encoding: "ho_encoding (fst (evd_http_connection_write_chunk put c buf)) = SOUP_ENCODING_CHUNKED"
  by (simp add: evd_http_connection_write_chunk_def Let_def split: prod.split)

lemma write_content_encoding:
  assumes "ho_encoding c = SOUP_ENCODING_CHUNKED"
  shows "ho_encoding (fst (evd_http_connection_write_content put c buf has_more)) = SOUP_ENCODING_CHUNKED"
  using assms write_chunk_encoding [of put c buf] write_chunk_encoding [of put _ "[]"]
  by (auto simp: evd_http_connection_write_content_def split: prod.split option.split)

lemma write_frame_encoding:
  assumes "ho_encoding c = SOUP_ENCODING_CHUNKED"
    and "evd_longpolling_server_write_frame_delivery put c m = (c', ok)"
  shows "ho_encoding c' = SOUP_ENCODING_CHUNKED \<and> (m = [] \<longrightarrow> ok)"
proof -
  obtain c1 e1 where 1: "evd_http_connection_write_content put c (frame_header (length m)) True = (c1, e1)"
    by fastforce
  obtain c2 e2 where 2: "evd_http_connection_write_content put c1 m True = (c2, e2)" by fastforce
  have c1: "ho_encoding c1 = SOUP_ENCODING_CHUNKED" using write_content_encoding [OF assms(1), of put] 1 by (metis fst_conv)
  have c2: "ho_encoding c2 = SOUP_ENCODING_CHUNKED" using write_content_encoding [OF c1, of put] 2 by (metis fst_conv)
  have "m = [] \<Longrightarrow> e2 = None" using 2 c1 by (simp add: evd_http_connection_write_content_def)
  with 1 2 c2 assms(2) show ?thesis
    by (auto simp: evd_longpolling_server_write_frame_delivery_def)
qed

text \<open>
  Sending the backlog splits it: what was written comes before what is left, also when a write
  fails and the message goes back to the front.
\<close>

lemma send_backlog_order:
  assumes "send_backlog put e c = (e', c', ok, sent)" and "ho_encoding c = SOUP_ENCODING_CHUNKED"
  shows "sent @ map bf_buf (pe_backlog e') = map bf_buf (pe_backlog e) \<and> (ok \<longrightarrow> pe_backlog e' = []) \<and>
    ho_encoding c' = SOUP_ENCODING_CHUNKED"
  using assms
proof (induction "pe_backlog e" arbitrary: e c e' c' ok sent)
  case Nil
  then show ?case by (subst (asm) send_backlog.simps) (auto simp: evd_peer_pop_message_def)
next
  case (Cons f fs)
  have p: "evd_peer_pop_message e = (e\<lparr>pe_backlog := fs\<rparr>, Some (bf_buf f, bf_type f))"
    by (simp add: evd_peer_pop_message_def flip: Cons.hyps(2))
  obtain c1 ok1 where 1: "evd_longpolling_server_write_frame_delivery put c (bf_buf f) = (c1, ok1)" by fastforce
  note enc = write_frame_encoding [OF Cons.prems(2) 1]
  show ?case
  proof (cases ok1)
    case True
    obtain e2 c2 ok2 sent2 where 2: "send_backlog put (e\<lparr>pe_backlog := fs\<rparr>) c1 = (e2, c2, ok2, sent2)"
      by (metis prod.exhaust)
    have "send_backlog put e c = (e2, c2, ok2, bf_buf f # sent2)"
      by (subst send_backlog.simps) (simp add: p 1 2 True)
    with Cons.hyps(1) [OF _ 2 conjunct1 [OF enc]] Cons.prems(1) enc show ?thesis by (auto simp flip: Cons.hyps(2))
  next
    case False
    have "send_backlog put e c = (fst (evd_peer_unshift_message (e\<lparr>pe_backlog := fs\<rparr>) (bf_buf f) (bf_type f)), c1, False, [])"
      by (subst send_backlog.simps) (simp add: p 1 False)
    with Cons.prems(1) enc False show ?thesis
      by (auto simp: evd_peer_unshift_message_def create_new_backlog_frame_def simp flip: Cons.hyps(2))
  qed
qed

definition backlog_messages :: "'s lp_world \<Rightarrow> byte list list" where
  "backlog_messages w = map bf_buf (pe_backlog (lp_peer w))"

text \<open>What libsoup says of a response with the header \<open>Transfer-Encoding: chunked\<close>.\<close>

definition chunked_env :: "'s lp_env \<Rightarrow> bool" where
  "chunked_env env \<longleftrightarrow> (\<forall>conn. env_encoding env (response_headers env conn) = SOUP_ENCODING_CHUNKED)"

lemma actual_send_order:
  assumes "chunked_env env" and "evd_longpolling_server_actual_send env conn buffer w = (w', ok)"
  shows "(case buffer of
        None \<Rightarrow> lp_lost w' = lp_lost w \<and>
          lp_delivered w' @ backlog_messages w' = lp_delivered w @ backlog_messages w
      | Some b \<Rightarrow>
          if \<not> ok then lp_lost w' = lp_lost w \<and>
            lp_delivered w' @ backlog_messages w' = lp_delivered w @ backlog_messages w
          else if lp_lost w' = lp_lost w
          then lp_delivered w' @ backlog_messages w' = lp_delivered w @ backlog_messages w @ [b]
          else lp_lost w' = lp_lost w @ [b])"
proof -
  let ?hs = "response_headers env conn"
  have enc: "env_encoding env ?hs = SOUP_ENCODING_CHUNKED" using assms(1) by (simp add: chunked_env_def)
  obtain c e where head: "evd_http_connection_write_response_headers (env_put env) (lp_conn w conn) 1 200 ''OK''
      (Some ?hs) SOUP_ENCODING_CHUNKED = (c, e)" by fastforce
  show ?thesis
  proof (cases e)
    case (Some e')
    with head enc assms(2) show ?thesis
      by (auto simp: evd_longpolling_server_actual_send_def Let_def backlog_messages_def split: option.splits)
  next
    case None
    have c: "ho_encoding c = SOUP_ENCODING_CHUNKED"
      using head None by (auto simp: evd_http_connection_write_response_headers_def Let_def split: prod.splits sum.splits)
    obtain e1 c1 ok1 sent where b: "send_backlog (env_put env) (lp_peer w) c = (e1, c1, ok1, sent)"
      by (metis prod.exhaust)
    from send_backlog_order [OF b c] show ?thesis
      using head enc None b assms(2)
      by (auto simp: evd_longpolling_server_actual_send_def Let_def backlog_messages_def
          split: option.splits prod.splits if_splits bool.splits)
  qed
qed

lemma touch_backlog [simp]: "pe_backlog (evd_peer_touch now e) = pe_backlog e"
  by (simp add: evd_peer_touch_def)

lemma receive_order:
  assumes "chunked_env env" and "handle_receive env conn w = w'"
  shows "lp_lost w' = lp_lost w \<and> lp_delivered w' @ backlog_messages w' = lp_delivered w @ backlog_messages w"
proof (cases "pe_backlog (lp_peer w) = []")
  case True
  with assms(2) show ?thesis
    by (auto simp: handle_receive_def evd_peer_backlog_get_length_def Let_def backlog_messages_def)
next
  case False
  define w1 where "w1 = w\<lparr>lp_data := Some (case lp_data w of None \<Rightarrow> [] | Some conns \<Rightarrow> conns)\<rparr>"
  obtain w2 ok where 2: "evd_longpolling_server_actual_send env conn None w1 = (w2, ok)" by fastforce
  from actual_send_order [OF assms(1) 2] False 2 assms(2) show ?thesis
    by (simp add: handle_receive_def evd_peer_backlog_get_length_def Let_def w1_def backlog_messages_def)
qed

lemma request_order:
  assumes "chunked_env env"
  shows "let w' = evd_longpolling_server_request_handler env req w
    in lp_lost w' = lp_lost w \<and> lp_delivered w' @ backlog_messages w' = lp_delivered w @ backlog_messages w"
proof -
  define w1 where "w1 = w\<lparr>lp_current_peer_id := Some (pe_id (lp_peer w)), lp_peer := evd_peer_touch (lp_now w) (lp_peer w)\<rparr>"
  have "lp_lost w1 = lp_lost w" "lp_delivered w1 = lp_delivered w" "backlog_messages w1 = backlog_messages w"
    by (simp_all add: w1_def backlog_messages_def)
  with receive_order [OF assms refl, of "rq_conn req" w1] show ?thesis
    by (simp add: evd_longpolling_server_request_handler_def Let_def backlog_messages_def
        evd_longpolling_server_peer_closed_def flip: w1_def split: option.split)
qed

lemma content_order:
  assumes "chunked_env env" and "evd_longpolling_server_conn_on_content_read env conn content w = Some w'"
  shows "lp_lost w' = lp_lost w \<and> lp_delivered w' @ backlog_messages w' = lp_delivered w @ backlog_messages w"
proof -
  obtain ms where w': "w' = fst (evd_longpolling_server_actual_send env conn None
      (w\<lparr>lp_posts := remove1 conn (lp_posts w), lp_received := lp_received w @ ms\<rparr>))"
    using assms(2) by (auto simp: evd_longpolling_server_conn_on_content_read_def)
  obtain w2 ok where 2: "evd_longpolling_server_actual_send env conn None
      (w\<lparr>lp_posts := remove1 conn (lp_posts w), lp_received := lp_received w @ ms\<rparr>) = (w2, ok)" by fastforce
  from actual_send_order [OF assms(1) 2] w' 2 show ?thesis by (simp add: backlog_messages_def)
qed

lemma send_order:
  assumes "chunked_env env" and "send_frame env buffer type w = (w', ok)" and "lp_lost w' = []"
  shows "ok \<and> lp_lost w = [] \<and>
    lp_delivered w' @ backlog_messages w' = lp_delivered w @ backlog_messages w @ [buffer]"
proof -
  obtain w1 ok1 where 1: "evd_longpolling_server_send env buffer w = (w1, ok1)" by fastforce
  have o: "if \<not> ok1 then lp_lost w1 = lp_lost w \<and>
        lp_delivered w1 @ backlog_messages w1 = lp_delivered w @ backlog_messages w
      else if lp_lost w1 = lp_lost w
      then lp_delivered w1 @ backlog_messages w1 = lp_delivered w @ backlog_messages w @ [buffer]
      else lp_lost w1 = lp_lost w @ [buffer]"
  proof (cases "lp_data w = None \<or> lp_data w = Some []")
    case True
    with 1 show ?thesis
      by (auto simp: evd_longpolling_server_send_def evd_longpolling_server_select_conn_and_send_def)
  next
    case False
    then obtain conn conns where d: "lp_data w = Some (conn # conns)" by (metis list.exhaust option.exhaust)
    define w0 where "w0 = w\<lparr>lp_peer := evd_peer_touch (lp_now w) (lp_peer w), lp_data := Some conns\<rparr>"
    have 0: "evd_longpolling_server_actual_send env conn (Some buffer) w0 = (w1, ok1)"
      using 1 d
      by (simp add: evd_longpolling_server_send_def evd_longpolling_server_select_conn_and_send_def w0_def)
    have "lp_lost w0 = lp_lost w" "lp_delivered w0 = lp_delivered w" "backlog_messages w0 = backlog_messages w"
      by (simp_all add: w0_def backlog_messages_def)
    with actual_send_order [OF assms(1) 0] show ?thesis by (auto split: if_splits)
  qed
  show ?thesis
  proof (cases ok1)
    case True
    with 1 assms(2,3) o show ?thesis by (auto simp: send_frame_def split: if_splits)
  next
    case False
    with 1 assms(2,3) o show ?thesis
      by (auto simp: send_frame_def evd_peer_push_message_def create_new_backlog_frame_def backlog_messages_def)
  qed
qed

text \<open>
  The server as a machine: messages are sent, requests come in, the content of a request has been
  read, a connection leaves the group. The second component of the state collects the messages
  for which the transport reported success.
\<close>

datatype lp_op =
    Lp_send "byte list" EvdMessageType
  | Lp_request lp_request
  | Lp_content nat "byte list option"
  | Lp_remove nat
  | Lp_time nat

definition lp_step ::
  "'s lp_env \<Rightarrow> 's lp_world \<times> byte list list \<Rightarrow> lp_op \<Rightarrow> ('s lp_world \<times> byte list list) option"
where
  "lp_step env = (\<lambda>(w, taken) op. case op of
       Lp_send buffer type \<Rightarrow>
         (case send_frame env buffer type w of (w', ok) \<Rightarrow> Some (w', if ok then taken @ [buffer] else taken))
     | Lp_request req \<Rightarrow> Some (evd_longpolling_server_request_handler env req w, taken)
     | Lp_content conn content \<Rightarrow>
         map_option (\<lambda>w'. (w', taken)) (evd_longpolling_server_conn_on_content_read env conn content w)
     | Lp_remove conn \<Rightarrow> Some (evd_longpolling_server_remove conn w, taken)
     | Lp_time now \<Rightarrow> Some (w\<lparr>lp_now := now\<rparr>, taken))"

definition lp_inv :: "'s lp_world \<times> byte list list \<Rightarrow> bool" where
  "lp_inv = (\<lambda>(w, taken). lp_lost w = [] \<longrightarrow> lp_delivered w @ backlog_messages w = taken)"

text \<open>Content that is a sequence of messages, or that could not be read.\<close>

fun well_framed :: "lp_op \<Rightarrow> bool" where
  "well_framed (Lp_content conn (Some content)) = (read_messages 0 content \<noteq> None)"
| "well_framed _ = True"

lemma lp_step_ok:
  assumes inv: "lp_inv (w, taken)" and env: "chunked_env env" and op: "well_framed op"
  shows "\<exists>w' taken'. lp_step env (w, taken) op = Some (w', taken') \<and> lp_inv (w', taken')"
proof (cases op)
  case (Lp_send buffer type)
  obtain w' ok where "send_frame env buffer type w = (w', ok)" by fastforce
  with send_order [OF env this] inv Lp_send show ?thesis by (auto simp: lp_step_def lp_inv_def)
next
  case (Lp_request req)
  with request_order [OF env, of req w] inv show ?thesis by (simp add: lp_step_def lp_inv_def Let_def)
next
  case (Lp_content conn content)
  then obtain w' where w': "evd_longpolling_server_conn_on_content_read env conn content w = Some w'"
    using op by (cases content) (auto simp: evd_longpolling_server_conn_on_content_read_def)
  with content_order [OF env w'] inv Lp_content show ?thesis by (simp add: lp_step_def lp_inv_def)
next
  case (Lp_remove conn)
  with inv show ?thesis
    by (simp add: lp_step_def lp_inv_def evd_longpolling_server_remove_def backlog_messages_def)
next
  case (Lp_time now)
  with inv show ?thesis by (simp add: lp_step_def lp_inv_def backlog_messages_def)
qed

interpretation lp: invariant_machine "lp_step env" lp_inv "\<lambda>op. chunked_env env \<and> well_framed op" for env :: "'s lp_env"
proof
  fix s :: "'s lp_world \<times> byte list list" and op
  assume "lp_inv s" and "chunked_env env \<and> well_framed op"
  then show "\<exists>s'. lp_step env s op = Some s' \<and> lp_inv s'"
    using lp_step_ok [of "fst s" "snd s" env op] by (cases s) auto
qed

section \<open>Properties\<close>

text \<open>
  C6. Whatever the order in which messages are sent, requests come in and connections leave, as long as the
  contents of the requests that bring messages are well framed (each message as long as its header says;
  lemma \<open>longpolling_over_read\<close>) and responses are chunked, and whatever the streams of the connections do: the server gets
  through it, and the messages that were written on connections, followed by those that wait in the
  backlog of the peer, are the messages for which the transport reported success, in the order in which
  they were sent. The exception are messages that got lost because the headers of a response could not be
  written (lemma \<open>longpolling_loses_message\<close>).
\<close>

theorem longpolling_keeps_order:
  assumes "chunked_env env" and "list_all well_framed ops"
    and "lp_delivered w = []" and "pe_backlog (lp_peer w) = []"
  shows "\<exists>w' sent. run_ops (lp_step env) (w, []) ops = Some (w', sent) \<and>
    (lp_lost w' = [] \<longrightarrow> lp_delivered w' @ map bf_buf (pe_backlog (lp_peer w')) = sent)"
proof -
  have "lp_inv (w, [])" using assms(3,4) by (simp add: lp_inv_def backlog_messages_def)
  moreover have "list_all (\<lambda>op. chunked_env env \<and> well_framed op) ops"
    using assms(1,2) by (simp add: list_all_iff)
  ultimately obtain s where "run_ops (lp_step env) (w, []) ops = Some s" and "lp_inv s"
    using lp.run_ops_defined by blast
  then show ?thesis by (cases s) (auto simp: lp_inv_def backlog_messages_def)
qed

text \<open>
  C5. When a connection waits and its stream takes what is written, a message that is sent to the
  peer goes out at once, behind the messages in the backlog: the client in the browser
  (\<open>_xhrOnLoad\<close>), given the body of the response, decoded from its chunks in whatever blocks it arrives, gets exactly
  these messages, provided they are of ASCII characters and have less than 4294967296 bytes (\<open>2 ^ 32\<close>).
\<close>

theorem longpolling_delivers:
  assumes "env_put env = g_output_stream_write" and "chunked_env env"
    and "lp_data w = Some (conn # conns)" and "bs_healthy (ho_stream (lp_conn w conn))"
    and "list_all (\<lambda>m. length m < 2 ^ 32 \<and> list_all (\<lambda>b. b < 128) m) (map bf_buf (pe_backlog (lp_peer w)) @ [buffer])"
  shows "\<exists>w' body. evd_transport_send env buffer w = (w', True) \<and> pe_backlog (lp_peer w') = [] \<and>
    bs_bytes (ho_stream (lp_conn w' conn)) = bs_bytes (ho_stream (lp_conn w conn)) @
      response_head 1 200 ''OK'' (Some (response_headers env conn)) @ body \<and>
    (\<forall>blocks. concat blocks = body \<longrightarrow>
      (\<exists>content. read_content evd_http_chunked_decoder_init blocks = Some (content, True, None) \<and>
        Option.bind (js_response_text content) js_xhrOnLoad = Some (map bf_buf (pe_backlog (lp_peer w)) @ [buffer])))"
proof -
  let ?ms = "map bf_buf (pe_backlog (lp_peer w)) @ [buffer]"
  let ?body = "pieces_text (frame_pieces ?ms) @ last_chunk"
  let ?w = "w\<lparr>lp_peer := evd_peer_touch (lp_now w) (lp_peer w), lp_data := Some conns\<rparr>"
  have small: "list_all (\<lambda>m. length m < 2 ^ 32) ?ms" "list_all (list_all (\<lambda>b. b < 128)) ?ms"
    using assms(5) unfolding list_all_iff by blast+
  have enc: "env_encoding env (response_headers env conn) = SOUP_ENCODING_CHUNKED"
    using assms(2) by (simp add: chunked_env_def)
  obtain w' where w': "evd_longpolling_server_actual_send env conn (Some buffer) ?w = (w', True)"
    "pe_backlog (lp_peer w') = []"
    "bs_bytes (ho_stream (lp_conn w' conn)) = bs_bytes (ho_stream (lp_conn w conn)) @
      response_head 1 200 ''OK'' (Some (response_headers env conn)) @ ?body"
    using bs.actual_send_healthy [of ?w conn env "Some buffer"] assms(1,4) enc by auto
  have "evd_transport_send env buffer w = (w', True)"
    using w'(1) assms(3) by (simp add: evd_transport_send_def send_frame_def evd_longpolling_server_send_def
        evd_longpolling_server_select_conn_and_send_def)
  moreover have "read_content evd_http_chunked_decoder_init blocks = Some (concat (map frame_text ?ms), True, None)"
    if "concat blocks = ?body" for blocks
    using decode_pieces [OF that] frame_pieces_small [OF small(1)] by (simp add: concat_frame_pieces frame_text_def)
  moreover have "Option.bind (js_response_text (concat (map frame_text ?ms))) js_xhrOnLoad = Some ?ms"
    using frames_ascii [OF small(2)] js_read_frames [OF small(1)] by simp
  ultimately show ?thesis using w'(2,3) by blast
qed

text \<open>A peer and its connections, on streams that take everything that is written.\<close>

definition demo_env :: "('s \<Rightarrow> byte list \<Rightarrow> 's \<times> (gio_error + nat)) \<Rightarrow> 's lp_env" where
  "demo_env put = \<lparr>env_put = put, env_encoding = (\<lambda>_. SOUP_ENCODING_CHUNKED),
     env_origin_allowed = (\<lambda>_. False), env_keepalive = (\<lambda>_. True), env_origin = (\<lambda>_. None)\<rparr>"

definition demo_lp :: "'s \<Rightarrow> nat list option \<Rightarrow> BacklogFrame list \<Rightarrow> 's lp_world" where
  "demo_lp stream conns frames =
     \<lparr>lp_peer = (evd_peer_init ''id'' 0)\<lparr>pe_backlog := frames\<rparr>, lp_current_peer_id = None,
      lp_data = conns, lp_get = [], lp_posts = [],
      lp_conn = (\<lambda>_. \<lparr>ho_encoding = SOUP_ENCODING_NONE, ho_stream = stream\<rparr>),
      lp_now = 0, lp_responded = [], lp_returned = [], lp_received = [], lp_delivered = [], lp_lost = []\<rparr>"

definition demo_put :: "unit \<Rightarrow> byte list \<Rightarrow> unit \<times> (gio_error + nat)" where
  "demo_put s buf = (s, Inr (length buf))"

lemma demo_lp_fields:
  "lp_delivered (demo_lp stream conns frames) = []" "pe_backlog (lp_peer (demo_lp stream conns frames)) = frames"
  "lp_data (demo_lp stream conns frames) = conns" "ho_stream (lp_conn (demo_lp stream conns frames) c) = stream"
  by (simp_all add: demo_lp_def)

lemma chunked_demo: "chunked_env (demo_env put)"
  by (simp add: chunked_env_def demo_env_def)

lemma demo_writes:
  "evd_longpolling_server_write_frame_delivery demo_put \<lparr>ho_encoding = SOUP_ENCODING_CHUNKED, ho_stream = ()\<rparr> m =
     (\<lparr>ho_encoding = SOUP_ENCODING_CHUNKED, ho_stream = ()\<rparr>, True)"
  "evd_http_connection_write_response_headers demo_put c v n r (Some hs) SOUP_ENCODING_CHUNKED =
     (\<lparr>ho_encoding = SOUP_ENCODING_CHUNKED, ho_stream = ()\<rparr>, None)"
  "evd_http_connection_write_content demo_put \<lparr>ho_encoding = SOUP_ENCODING_CHUNKED, ho_stream = ()\<rparr> [] False =
     (\<lparr>ho_encoding = SOUP_ENCODING_CHUNKED, ho_stream = ()\<rparr>, None)"
  by (simp_all add: evd_longpolling_server_write_frame_delivery_def evd_http_connection_write_content_def
      evd_http_connection_write_chunk_def write_plain_def evd_http_connection_write_response_headers_def
      demo_put_def Let_def)

lemma demo_backlog:
  "send_backlog demo_put e \<lparr>ho_encoding = SOUP_ENCODING_CHUNKED, ho_stream = ()\<rparr> =
     (e\<lparr>pe_backlog := []\<rparr>, \<lparr>ho_encoding = SOUP_ENCODING_CHUNKED, ho_stream = ()\<rparr>, True, map bf_buf (pe_backlog e))"
proof (induction "pe_backlog e" arbitrary: e)
  case Nil
  then show ?case by (subst send_backlog.simps) (simp add: evd_peer_pop_message_def)
next
  case (Cons f fs)
  from Cons.hyps(1) [of "e\<lparr>pe_backlog := fs\<rparr>"] show ?case
    by (subst send_backlog.simps) (simp add: evd_peer_pop_message_def demo_writes flip: Cons.hyps(2))
qed

lemma demo_path: "evd_longpolling_server_resolve_action ''/lp/receive'' = ''receive''"
  by code_simp

lemmas lp_eval = lp_step_def send_frame_def evd_longpolling_server_send_def handle_receive_def
  evd_longpolling_server_select_conn_and_send_def evd_longpolling_server_request_handler_def
  evd_longpolling_server_actual_send_def demo_backlog demo_path demo_writes
  evd_peer_pop_message_def evd_peer_push_message_def evd_peer_backlog_get_length_def evd_peer_touch_def
  create_new_backlog_frame_def demo_lp_def demo_env_def evd_peer_init_def Let_def

theorem longpolling_keeps_order_witness:
  "\<exists>w'. run_ops (lp_step (demo_env demo_put)) (demo_lp () None [], [])
      [Lp_send [1] EVD_MESSAGE_TYPE_TEXT, Lp_send [2] EVD_MESSAGE_TYPE_TEXT,
       Lp_request \<lparr>rq_conn = 7, rq_path = ''/lp/receive'', rq_query = Some ''id''\<rparr>,
       Lp_request \<lparr>rq_conn = 8, rq_path = ''/lp/receive'', rq_query = Some ''id''\<rparr>,
       Lp_send [3] EVD_MESSAGE_TYPE_BINARY, Lp_send [4] EVD_MESSAGE_TYPE_BINARY] = Some (w', [[1], [2], [3], [4]]) \<and>
    lp_delivered w' = [[1], [2], [3]] \<and> map bf_buf (pe_backlog (lp_peer w')) = [[4]]"
proof -
  let ?ops = "[Lp_send [1] EVD_MESSAGE_TYPE_TEXT, Lp_send [2] EVD_MESSAGE_TYPE_TEXT,
       Lp_request \<lparr>rq_conn = 7, rq_path = ''/lp/receive'', rq_query = Some ''id''\<rparr>,
       Lp_request \<lparr>rq_conn = 8, rq_path = ''/lp/receive'', rq_query = Some ''id''\<rparr>,
       Lp_send [3] EVD_MESSAGE_TYPE_BINARY, Lp_send [4] EVD_MESSAGE_TYPE_BINARY]"
  have ops: "list_all well_framed ?ops" by simp
  obtain w' sent where w': "run_ops (lp_step (demo_env demo_put)) (demo_lp () None [], []) ?ops = Some (w', sent)"
    "lp_lost w' = [] \<longrightarrow> lp_delivered w' @ map bf_buf (pe_backlog (lp_peer w')) = sent"
    using longpolling_keeps_order [OF chunked_demo ops demo_lp_fields(1) demo_lp_fields(2) [of "()" None "[]"]]
    by blast
  have "map_option (\<lambda>(w, sent). (lp_lost w, map bf_buf (pe_backlog (lp_peer w)), sent))
      (run_ops (lp_step (demo_env demo_put)) (demo_lp () None [], []) ?ops) = Some ([], [[4]], [[1], [2], [3], [4]])"
    by (simp add: lp_eval)
  with w' show ?thesis by auto
qed

theorem longpolling_delivers_witness:
  "let frames = [\<lparr>bf_type = EVD_MESSAGE_TYPE_TEXT, bf_buf = []\<rparr>,
                 \<lparr>bf_type = EVD_MESSAGE_TYPE_TEXT, bf_buf = replicate 200 0x61\<rparr>];
       stream = \<lparr>bs_stream = evd_buffered_output_stream_init, bs_log = [], bs_base = [Inr 5]\<rparr>
   in \<exists>w' body content.
        evd_transport_send (demo_env g_output_stream_write) [1, 2] (demo_lp stream (Some [7]) frames) = (w', True) \<and>
        read_content evd_http_chunked_decoder_init [body] = Some (content, True, None) \<and>
        Option.bind (js_response_text content) js_xhrOnLoad = Some [[], replicate 200 0x61, [1, 2]]"
proof -
  let ?frames = "[\<lparr>bf_type = EVD_MESSAGE_TYPE_TEXT, bf_buf = []\<rparr>,
      \<lparr>bf_type = EVD_MESSAGE_TYPE_TEXT, bf_buf = replicate 200 0x61\<rparr>]"
  let ?stream = "\<lparr>bs_stream = evd_buffered_output_stream_init, bs_log = [], bs_base = [Inr 5]\<rparr>"
  have h: "bs_healthy ?stream" by (simp add: bs_healthy_def evd_buffered_output_stream_init_def)
  have p: "env_put (demo_env g_output_stream_write) = g_output_stream_write" by (simp add: demo_env_def)
  have d: "lp_data (demo_lp ?stream (Some [7]) ?frames) = Some [7]" by (simp add: demo_lp_fields)
  have t: "list_all (\<lambda>b. b < 128) (replicate 200 (0x61 :: byte))" by (simp add: list_all_iff)
  from longpolling_delivers [OF p chunked_demo d, of "[1, 2]"] h t
  obtain w' body where w': "evd_transport_send (demo_env g_output_stream_write) [1, 2]
      (demo_lp ?stream (Some [7]) ?frames) = (w', True)"
    "\<forall>blocks. concat blocks = body \<longrightarrow>
      (\<exists>content. read_content evd_http_chunked_decoder_init blocks = Some (content, True, None) \<and>
        Option.bind (js_response_text content) js_xhrOnLoad = Some (map bf_buf ?frames @ [[1, 2]]))"
    by (auto simp: demo_lp_fields simp del: read_content.simps)
  from w'(1) spec [OF w'(2), of "[body]"] show ?thesis
    by (auto simp: Let_def simp del: read_content.simps)
qed

section \<open>What the code gets wrong\<close>

text \<open>
  A message that is sent when the headers of the response cannot be written is reported as sent,
  and is neither written nor put in the backlog.
\<close>

lemma longpolling_loses_message:
  assumes "lp_data w = Some (conn # conns)"
    and "env_put env (ho_stream (lp_conn w conn)) (response_head 1 200 ''OK'' (Some (response_headers env conn))) = (s, Inl e)"
  shows "\<exists>w'. evd_transport_send env buffer w = (w', True) \<and> lp_delivered w' = lp_delivered w \<and>
    pe_backlog (lp_peer w') = pe_backlog (lp_peer w) \<and> lp_lost w' = lp_lost w @ [buffer]"
  using assms by (simp add: evd_transport_send_def send_frame_def evd_longpolling_server_send_def
      evd_longpolling_server_select_conn_and_send_def evd_longpolling_server_actual_send_def
      evd_http_connection_write_response_headers_def Let_def)

text \<open>
  The length of a message of more than 65535 bytes is padded with spaces; the reader skips them
  and reads on into the message, here one that starts with the letter \<open>f\<close>.
\<close>

lemma longpolling_long_header:
  "evd_longpolling_server_read_msg_header (frame_header 0x10000 @ [0x66, 0x6F, 0x6F]) 0 = (17, 0x10000F)"
  by (simp add: evd_longpolling_server_read_msg_header_def frame_header_def pad_left_def hex_text.simps
      hex_char_def sscanf_hex_width_def drop_padding is_space_def drop_sign_def drop_prefix_0x_def hex_digit_def
      hex_value_def hex_digit_value_def unat_and_7F Let_def)

text \<open>A content whose length field promises more than there is: the loop hands out what lies behind it.\<close>

lemma longpolling_over_read: "read_messages 0 [5, 0x61] = None"
  by (simp add: read_messages.simps evd_longpolling_server_read_msg_header_def unat_and_7F)

text \<open>A request that names no peer leaves the pointer to its query in \<open>current_peer_id\<close>.\<close>

lemma longpolling_stale_peer_id:
  assumes "rq_query req \<noteq> Some (pe_id (lp_peer w))"
  shows "lp_current_peer_id (evd_longpolling_server_request_handler env req w) = rq_query req"
  using assms by (simp add: evd_longpolling_server_request_handler_def Let_def)

end
