(* ===== verification/Jsonrpc.thy ===== *)
theory Jsonrpc
  imports Json_Grammar "HOL-Library.Multiset"
begin

text \<open>
  JSON-RPC, \<open>evd/evd-jsonrpc.c\<close>: calls of remote methods and their responses, incoming calls and
  notifications, over a byte stream that the JSON filter cuts into messages. json-glib, which turns
  messages into text and back, is a parameter (\<open>rpc_lib\<close>). The callbacks of the user are observers;
  what the code calls goes to a log. The value \<^term>\<open>None\<close> is a failed assertion or an access through
  a NULL pointer.
\<close>

section \<open>Messages\<close>

datatype JsonNode =
    JSON_NODE_NULL
  | JSON_NODE_STRING string
  | JSON_NODE_BOOLEAN bool
  | JSON_NODE_NUMBER int
  | JSON_NODE_ARRAY "JsonNode list"
  | JSON_NODE_OBJECT "(string \<times> JsonNode) list"

text \<open>\<open>json_node_get_string\<close> gives NULL for a node that is not a string.\<close>

fun json_node_get_string :: "JsonNode \<Rightarrow> string option" where
  "json_node_get_string (JSON_NODE_STRING s) = Some s"
| "json_node_get_string _ = None"

fun json_node_holds_array :: "JsonNode \<Rightarrow> bool" where
  "json_node_holds_array (JSON_NODE_ARRAY ns) = True"
| "json_node_holds_array _ = False"

record rpc_lib =
  lib_generate :: "JsonNode \<Rightarrow> byte list"
  lib_parse :: "byte list \<Rightarrow> JsonNode option"
  lib_char_signed :: bool

definition node_or_null :: "JsonNode option \<Rightarrow> JsonNode" where
  "node_or_null n = (case n of None \<Rightarrow> JSON_NODE_NULL | Some n \<Rightarrow> n)"

definition request_node :: "string \<Rightarrow> JsonNode option \<Rightarrow> JsonNode option \<Rightarrow> JsonNode" where
  "request_node method_name id_node params =
     JSON_NODE_OBJECT
       [(''id'', node_or_null id_node), (''method'', JSON_NODE_STRING method_name),
        (''params'', case params of None \<Rightarrow> JSON_NODE_ARRAY [] | Some p \<Rightarrow> p)]"

definition response_node :: "JsonNode option \<Rightarrow> JsonNode option \<Rightarrow> JsonNode option \<Rightarrow> JsonNode" where
  "response_node id_node params error =
     JSON_NODE_OBJECT
       [(''id'', node_or_null id_node), (''error'', node_or_null error), (''result'', node_or_null params)]"

text \<open>The method name is \<^term>\<open>None\<close> for a response (the argument \<open>request\<close> of the code is FALSE).\<close>

definition evd_jsonrpc_build_message ::
  "rpc_lib \<Rightarrow> string option \<Rightarrow> JsonNode option \<Rightarrow> JsonNode option \<Rightarrow> JsonNode option \<Rightarrow> byte list"
where
  "evd_jsonrpc_build_message lib method_name id_node params error =
     lib_generate lib
       (case method_name of
          Some name \<Rightarrow> request_node name id_node params
        | None \<Rightarrow> response_node id_node params error)"

section \<open>State\<close>

text \<open>The transport context is a peer or some other object.\<close>

datatype rpc_context = Peer_context nat | Other_context nat

type_synonym rpc_outcome = "gio_error + (JsonNode option \<times> JsonNode option)"

record InvocationData =
  inv_result :: "nat option"
  inv_remote_id :: "JsonNode option"
  inv_context :: "rpc_context option"

datatype rpc_event =
    Sent_to_peer nat "byte list"
  | Send_cb nat "byte list" "rpc_context option" "32 word"
  | Method_called nat string JsonNode "32 word" "rpc_context option"
  | Notified nat "string option" JsonNode "rpc_context option"
  | Completed nat rpc_outcome

text \<open>
  The results of calls (\<open>GSimpleAsyncResult\<close>) are numbered, \<open>rpc_calls\<close> is their number;
  \<open>rpc_idle\<close> are the results to be completed by the main loop, \<open>rpc_peer_error\<close> is what sending to
  each peer gives, \<open>rpc_total\<close> counts the invocations without the wrap-around of the counter.
\<close>

record EvdJsonrpc =
  rpc_invocation_counter :: "32 word"
  rpc_send_cb :: "nat option"
  rpc_invocations :: "(string \<times> InvocationData) list"
  rpc_json_filter :: json_filter
  rpc_current :: "rpc_context option"
  rpc_method_call_cb :: "nat option"
  rpc_notification_cb :: "nat option"
  rpc_peer_error :: "nat \<Rightarrow> gio_error option"
  rpc_calls :: nat
  rpc_total :: nat
  rpc_idle :: "(nat \<times> rpc_outcome) list"
  rpc_log :: "rpc_event list"

definition evd_jsonrpc_init :: "(nat \<Rightarrow> gio_error option) \<Rightarrow> EvdJsonrpc option" where
  "evd_jsonrpc_init peer_error = do {
     f \<leftarrow> evd_json_filter_init;
     Some \<lparr>rpc_invocation_counter = 0, rpc_send_cb = None, rpc_invocations = [],
       rpc_json_filter = fst (evd_json_filter_set_packet_handler f (Some 0) None None),
       rpc_current = None, rpc_method_call_cb = None, rpc_notification_cb = None,
       rpc_peer_error = peer_error, rpc_calls = 0, rpc_total = 0, rpc_idle = [], rpc_log = []\<rparr>
   }"

definition rpc_emit :: "rpc_event \<Rightarrow> EvdJsonrpc \<Rightarrow> EvdJsonrpc" where
  "rpc_emit ev w = w\<lparr>rpc_log := rpc_log w @ [ev]\<rparr>"

text \<open>The keys of the table: the number of the invocation, by \<open>printf\<close> with \<open>%u\<close>.\<close>

definition id_string :: "32 word \<Rightarrow> string" where
  "id_string i = decimal_string (unat i)"

definition table_insert :: "string \<Rightarrow> InvocationData \<Rightarrow> EvdJsonrpc \<Rightarrow> EvdJsonrpc" where
  "table_insert k d w = w\<lparr>rpc_invocations := (k, d) # filter (\<lambda>kd. fst kd \<noteq> k) (rpc_invocations w)\<rparr>"

definition table_remove :: "string \<Rightarrow> EvdJsonrpc \<Rightarrow> EvdJsonrpc" where
  "table_remove k w = w\<lparr>rpc_invocations := filter (\<lambda>kd. fst kd \<noteq> k) (rpc_invocations w)\<rparr>"

section \<open>Sending\<close>

definition evd_jsonrpc_transport_error :: "32 word \<Rightarrow> gio_error \<Rightarrow> EvdJsonrpc \<Rightarrow> EvdJsonrpc" where
  "evd_jsonrpc_transport_error invocation_id error w =
     (case map_of (rpc_invocations w) (id_string invocation_id) of
        None \<Rightarrow> w
      | Some inv_data \<Rightarrow>
          let w = (case inv_result inv_data of
                     Some res \<Rightarrow> w\<lparr>rpc_idle := rpc_idle w @ [(res, Inl error)]\<rparr>
                   | None \<Rightarrow> w)
          in table_remove (id_string invocation_id) w)"

definition evd_jsonrpc_transport_write ::
  "byte list \<Rightarrow> rpc_context option \<Rightarrow> 32 word \<Rightarrow> EvdJsonrpc \<Rightarrow> EvdJsonrpc"
where
  "evd_jsonrpc_transport_write msg user_context invocation_id w =
     (case user_context of
        Some (Peer_context p) \<Rightarrow>
          (case rpc_peer_error w p of
             None \<Rightarrow> rpc_emit (Sent_to_peer p msg) w
           | Some e \<Rightarrow> evd_jsonrpc_transport_error invocation_id e w)
      | _ \<Rightarrow>
          (case rpc_send_cb w of
             Some cb \<Rightarrow> rpc_emit (Send_cb cb msg user_context invocation_id) w
           | None \<Rightarrow> evd_jsonrpc_transport_error invocation_id G_IO_ERROR_CLOSED w))"

definition no_transport :: "rpc_context option \<Rightarrow> EvdJsonrpc \<Rightarrow> bool" where
  "no_transport context w \<longleftrightarrow>
     (case context of Some (Peer_context p) \<Rightarrow> False | _ \<Rightarrow> True) \<and> rpc_send_cb w = None"

text \<open>The number of a new invocation.\<close>

definition next_invocation :: "EvdJsonrpc \<Rightarrow> EvdJsonrpc \<times> 32 word" where
  "next_invocation w =
     (w\<lparr>rpc_invocation_counter := rpc_invocation_counter w + 1, rpc_total := rpc_total w + 1\<rparr>,
      rpc_invocation_counter w + 1)"

definition evd_jsonrpc_call_method ::
  "rpc_lib \<Rightarrow> string \<Rightarrow> JsonNode option \<Rightarrow> rpc_context option \<Rightarrow> EvdJsonrpc \<Rightarrow> EvdJsonrpc"
where
  "evd_jsonrpc_call_method lib method_name params context w =
     (let res = rpc_calls w; w = w\<lparr>rpc_calls := rpc_calls w + 1\<rparr>
      in if no_transport context w
         then w\<lparr>rpc_idle := rpc_idle w @ [(res, Inl G_IO_ERROR_CLOSED)]\<rparr>
         else
           let (w, i) = next_invocation w;
               w = table_insert (id_string i)
                     \<lparr>inv_result = Some res, inv_remote_id = None, inv_context = context\<rparr> w;
               msg = evd_jsonrpc_build_message lib (Some method_name)
                       (Some (JSON_NODE_STRING (id_string i))) params None
           in evd_jsonrpc_transport_write msg context i w)"

definition evd_jsonrpc_send_notification ::
  "rpc_lib \<Rightarrow> string \<Rightarrow> JsonNode option \<Rightarrow> rpc_context option \<Rightarrow> EvdJsonrpc \<Rightarrow> EvdJsonrpc \<times> gio_error option"
where
  "evd_jsonrpc_send_notification lib notification_name params context w =
     (if no_transport context w then (w, Some G_IO_ERROR_CLOSED)
      else (evd_jsonrpc_transport_write
              (evd_jsonrpc_build_message lib (Some notification_name) None params None) context 0 w, None))"

text \<open>The result is TRUE or FALSE, and the error that was set.\<close>

definition evd_jsonrpc_respond_full ::
  "rpc_lib \<Rightarrow> 32 word \<Rightarrow> JsonNode option \<Rightarrow> JsonNode option \<Rightarrow> EvdJsonrpc \<Rightarrow>
     EvdJsonrpc \<times> bool \<times> gio_error option"
where
  "evd_jsonrpc_respond_full lib invocation_id result_node error_node w =
     (if invocation_id = 0 then (w, False, None)
      else case map_of (rpc_invocations w) (id_string invocation_id) of
        None \<Rightarrow> (w, False, Some G_IO_ERROR_INVALID_ARGUMENT)
      | Some inv_data \<Rightarrow>
          if inv_context inv_data = None then (w, False, Some G_IO_ERROR_CLOSED)
          else
            let w = table_remove (id_string invocation_id) w;
                msg = evd_jsonrpc_build_message lib None (inv_remote_id inv_data) result_node error_node
            in (evd_jsonrpc_transport_write msg (inv_context inv_data) invocation_id w, True, None))"

definition evd_jsonrpc_respond ::
  "rpc_lib \<Rightarrow> 32 word \<Rightarrow> JsonNode option \<Rightarrow> EvdJsonrpc \<Rightarrow> EvdJsonrpc \<times> bool \<times> gio_error option"
where
  "evd_jsonrpc_respond lib invocation_id result w =
     evd_jsonrpc_respond_full lib invocation_id result None w"

definition evd_jsonrpc_respond_error ::
  "rpc_lib \<Rightarrow> 32 word \<Rightarrow> JsonNode option \<Rightarrow> EvdJsonrpc \<Rightarrow> EvdJsonrpc \<times> bool \<times> gio_error option"
where
  "evd_jsonrpc_respond_error lib invocation_id json_error w =
     evd_jsonrpc_respond_full lib invocation_id None json_error w"

definition evd_jsonrpc_respond_from_error ::
  "rpc_lib \<Rightarrow> 32 word \<Rightarrow> int \<Rightarrow> string \<Rightarrow> EvdJsonrpc \<Rightarrow> EvdJsonrpc \<times> bool \<times> gio_error option"
where
  "evd_jsonrpc_respond_from_error lib invocation_id code message w =
     evd_jsonrpc_respond_error lib invocation_id
       (Some (JSON_NODE_OBJECT [(''code'', JSON_NODE_NUMBER code), (''message'', JSON_NODE_STRING message)])) w"

section \<open>Receiving\<close>

definition evd_jsonrpc_on_method_called ::
  "(string \<times> JsonNode) list \<Rightarrow> rpc_context option \<Rightarrow> EvdJsonrpc \<Rightarrow> EvdJsonrpc \<times> gio_error option"
where
  "evd_jsonrpc_on_method_called msg context w =
     (let args = node_or_null (map_of msg ''params'')
      in case json_node_get_string (node_or_null (map_of msg ''method'')) of
           None \<Rightarrow> (w, Some G_IO_ERROR_INVALID_DATA)
         | Some method_name \<Rightarrow>
             if \<not> json_node_holds_array args then (w, Some G_IO_ERROR_INVALID_DATA)
             else
               let (w, i) = next_invocation w;
                   w = table_insert (id_string i)
                         \<lparr>inv_result = None, inv_remote_id = map_of msg ''id'', inv_context = context\<rparr> w
               in (case rpc_method_call_cb w of
                     None \<Rightarrow> w
                   | Some cb \<Rightarrow> rpc_emit (Method_called cb method_name args i context) w, None))"

text \<open>
  The identifier of a response is looked up as a string: a response whose identifier is not a
  string makes the hash function read through a NULL pointer. An invocation without a result (one
  of the remote end) has nothing to complete.
\<close>

definition response_outcome :: "JsonNode \<Rightarrow> JsonNode \<Rightarrow> rpc_outcome" where
  "response_outcome result_node error_node =
     (if result_node \<noteq> JSON_NODE_NULL \<and> error_node \<noteq> JSON_NODE_NULL then Inl G_IO_ERROR_INVALID_DATA
      else if result_node \<noteq> JSON_NODE_NULL then Inr (Some result_node, None)
      else Inr (None, Some error_node))"

definition evd_jsonrpc_on_method_result ::
  "(string \<times> JsonNode) list \<Rightarrow> EvdJsonrpc \<Rightarrow> EvdJsonrpc option"
where
  "evd_jsonrpc_on_method_result msg w =
     (case json_node_get_string (node_or_null (map_of msg ''id'')) of
        None \<Rightarrow> None
      | Some i \<Rightarrow>
          (case map_of (rpc_invocations w) i of
             None \<Rightarrow> Some w
           | Some inv_data \<Rightarrow>
               let w = table_remove i w;
                   outcome = response_outcome (node_or_null (map_of msg ''result'')) (node_or_null (map_of msg ''error''))
               in Some (case inv_result inv_data of
                          None \<Rightarrow> w
                        | Some res \<Rightarrow> rpc_emit (Completed res outcome) w)))"

definition evd_jsonrpc_on_notification ::
  "(string \<times> JsonNode) list \<Rightarrow> rpc_context option \<Rightarrow> EvdJsonrpc \<Rightarrow> EvdJsonrpc"
where
  "evd_jsonrpc_on_notification msg context w =
     (case rpc_notification_cb w of
        None \<Rightarrow> w
      | Some cb \<Rightarrow>
          rpc_emit (Notified cb (json_node_get_string (node_or_null (map_of msg ''method'')))
                      (node_or_null (map_of msg ''params'')) context) w)"

definition has_member :: "(string \<times> JsonNode) list \<Rightarrow> string \<Rightarrow> bool" where
  "has_member obj name \<longleftrightarrow> map_of obj name \<noteq> None"

definition evd_jsonrpc_on_json_packet :: "rpc_lib \<Rightarrow> byte list \<Rightarrow> EvdJsonrpc \<Rightarrow> EvdJsonrpc option" where
  "evd_jsonrpc_on_json_packet lib buffer w =
     (case lib_parse lib buffer of
        None \<Rightarrow> None
      | Some (JSON_NODE_OBJECT obj) \<Rightarrow>
          if \<not> has_member obj ''id'' then Some w
          else if has_member obj ''result'' \<and> has_member obj ''error''
          then evd_jsonrpc_on_method_result obj w
          else if has_member obj ''method'' \<and> has_member obj ''params''
          then if map_of obj ''id'' \<noteq> Some JSON_NODE_NULL
               then Some (fst (evd_jsonrpc_on_method_called obj (rpc_current w) w))
               else Some (evd_jsonrpc_on_notification obj (rpc_current w) w)
          else Some w
      | Some root \<Rightarrow> Some w)"

primrec on_packets :: "rpc_lib \<Rightarrow> json_delivery list \<Rightarrow> EvdJsonrpc \<Rightarrow> EvdJsonrpc option" where
  "on_packets lib [] w = Some w"
| "on_packets lib (d # ds) w = do { w \<leftarrow> evd_jsonrpc_on_json_packet lib (snd (snd d)) w; on_packets lib ds w }"

definition evd_jsonrpc_transport_receive ::
  "rpc_lib \<Rightarrow> byte list \<Rightarrow> rpc_context option \<Rightarrow> 32 word \<Rightarrow> EvdJsonrpc \<Rightarrow> (EvdJsonrpc \<times> gio_error option) option"
where
  "evd_jsonrpc_transport_receive lib message context invocation_id w =
     (let message = takeWhile (\<lambda>c. c \<noteq> 0) message
      in if message = [] then Some (w, None)
         else do {
           let w = w\<lparr>rpc_current := context\<rparr>;
           (f, ds, r) \<leftarrow> evd_json_filter_feed_len (lib_char_signed lib) (rpc_json_filter w) message;
           w \<leftarrow> on_packets lib ds (w\<lparr>rpc_json_filter := f\<rparr>);
           Some (case r of
                   FeedOk \<Rightarrow> (w\<lparr>rpc_current := None\<rparr>, None)
                 | FeedError e i \<Rightarrow> ((evd_jsonrpc_transport_error invocation_id e w)\<lparr>rpc_current := None\<rparr>, Some e))
         })"

text \<open>
  What a peer sends, as its transport hands it over: \<open>data\<close> and the memory \<open>behind\<close> it. The size is ignored and
  the bytes up to the next NUL are taken, wherever it is; if there is none, memory is read out of bounds.
\<close>

definition transport_on_receive :: "rpc_lib \<Rightarrow> nat \<Rightarrow> byte list \<times> byte list \<Rightarrow> EvdJsonrpc \<Rightarrow> EvdJsonrpc option" where
  "transport_on_receive lib peer data w =
     (let memory = fst data @ snd data
      in if 0 \<notin> set memory then None
         else map_option fst (evd_jsonrpc_transport_receive lib memory (Some (Peer_context peer)) 0 w))"

definition evd_jsonrpc_transport_set_send_callback :: "nat option \<Rightarrow> EvdJsonrpc \<Rightarrow> EvdJsonrpc" where
  "evd_jsonrpc_transport_set_send_callback callback w = w\<lparr>rpc_send_cb := callback\<rparr>"

definition evd_jsonrpc_set_callbacks :: "nat option \<Rightarrow> nat option \<Rightarrow> EvdJsonrpc \<Rightarrow> EvdJsonrpc" where
  "evd_jsonrpc_set_callbacks method_call_cb notification_cb w =
     w\<lparr>rpc_method_call_cb := method_call_cb, rpc_notification_cb := notification_cb\<rparr>"

text \<open>Finalization frees the table with the results in it, which are not completed.\<close>

definition evd_jsonrpc_finalize :: "EvdJsonrpc \<Rightarrow> EvdJsonrpc" where
  "evd_jsonrpc_finalize w = w\<lparr>rpc_invocations := []\<rparr>"

section \<open>Keys of the table\<close>

definition char_digit :: "char \<Rightarrow> nat" where
  "char_digit c = of_char c - 48"

definition string_value :: "string \<Rightarrow> nat" where
  "string_value s = foldl (\<lambda>n c. 10 * n + char_digit c) 0 s"

lemma char_digit_decimal: "k < 10 \<Longrightarrow> char_digit (decimal_char k) = k"
  by (simp add: char_digit_def decimal_char_def)

lemma string_value_decimal: "string_value (decimal_string n) = n"
proof (induction n rule: decimal_string.induct)
  case (1 n)
  show ?case
  proof (cases "n < 10")
    case True
    then show ?thesis by (subst decimal_string.simps) (simp add: string_value_def char_digit_decimal)
  next
    case False
    with 1 show ?thesis
      by (subst decimal_string.simps) (simp add: string_value_def char_digit_decimal)
  qed
qed

lemma id_string_eq_iff: "id_string i = decimal_string n \<longleftrightarrow> unat i = n"
  unfolding id_string_def by (metis string_value_decimal)

section \<open>Every call is completed once\<close>

text \<open>The calls that were completed, will be completed by the main loop, or wait for a response.\<close>

fun completed_call :: "rpc_event \<Rightarrow> nat option" where
  "completed_call (Completed res outcome) = Some res"
| "completed_call _ = None"

definition completed_calls :: "EvdJsonrpc \<Rightarrow> nat list" where
  "completed_calls w = List.map_filter completed_call (rpc_log w)"

definition pending_calls :: "EvdJsonrpc \<Rightarrow> nat list" where
  "pending_calls w = List.map_filter (inv_result \<circ> snd) (rpc_invocations w)"

definition all_calls :: "EvdJsonrpc \<Rightarrow> nat multiset" where
  "all_calls w = mset (completed_calls w) + mset (map fst (rpc_idle w)) + mset (pending_calls w)"

definition rpc_inv :: "EvdJsonrpc \<Rightarrow> bool" where
  "rpc_inv w \<longleftrightarrow> rpc_invocation_counter w = of_nat (rpc_total w) \<and>
     (rpc_total w < 2 ^ 32 \<longrightarrow>
        distinct (map fst (rpc_invocations w)) \<and>
        (\<forall>k \<in> fst ` set (rpc_invocations w). \<exists>n \<le> rpc_total w. k = decimal_string n) \<and>
        all_calls w = mset [0..<rpc_calls w])"

lemma map_filter_append: "List.map_filter f (xs @ ys) = List.map_filter f xs @ List.map_filter f ys"
  by (simp add: List.map_filter_def)

lemma mset_map_filter:
  "mset (List.map_filter f xs) = (\<Sum>x\<in>#mset xs. case f x of None \<Rightarrow> {#} | Some y \<Rightarrow> {#y#})"
  by (induction xs) (simp_all add: List.map_filter_simps split: option.split)

lemma filter_absent_key: "k \<notin> fst ` set kds \<Longrightarrow> filter (\<lambda>kd. fst kd \<noteq> k) kds = kds"
  by (induction kds) auto

lemma mset_remove_key:
  assumes "distinct (map fst kds)" and "map_of kds k = Some d"
  shows "mset kds = add_mset (k, d) (mset (filter (\<lambda>kd. fst kd \<noteq> k) kds))"
  using assms
proof (induction kds)
  case (Cons kd kds)
  show ?case
  proof (cases "fst kd = k")
    case True
    with Cons.prems have "filter (\<lambda>kd. fst kd \<noteq> k) kds = kds"
      by (intro filter_absent_key) auto
    with True Cons.prems show ?thesis by (cases kd) auto
  next
    case False
    with Cons show ?thesis by (cases kd) auto
  qed
qed simp

lemma pending_remove:
  assumes "distinct (map fst (rpc_invocations w))" and "map_of (rpc_invocations w) k = Some d"
  shows "mset (pending_calls w) =
    (case inv_result d of None \<Rightarrow> {#} | Some r \<Rightarrow> {#r#}) + mset (pending_calls (table_remove k w))"
  using arg_cong [OF mset_remove_key [OF assms],
      of "\<lambda>M. \<Sum>x\<in>#M. case (inv_result \<circ> snd) x of None \<Rightarrow> {#} | Some y \<Rightarrow> {#y#}"]
  by (simp add: pending_calls_def mset_map_filter table_remove_def)

lemma completed_emit:
  "completed_calls (rpc_emit ev w) =
     completed_calls w @ (case completed_call ev of None \<Rightarrow> [] | Some r \<Rightarrow> [r])"
  by (simp add: completed_calls_def rpc_emit_def map_filter_append List.map_filter_simps split: option.split)

lemma rpc_inv_cong:
  assumes "rpc_invocation_counter w' = rpc_invocation_counter w" "rpc_total w' = rpc_total w"
    "rpc_invocations w' = rpc_invocations w" "rpc_calls w' = rpc_calls w" "rpc_idle w' = rpc_idle w"
    "completed_calls w' = completed_calls w"
  shows "rpc_inv w' = rpc_inv w"
  using assms by (simp add: rpc_inv_def all_calls_def pending_calls_def)

lemma emit_inv: "completed_call ev = None \<Longrightarrow> rpc_inv (rpc_emit ev w) = rpc_inv w"
  by (rule rpc_inv_cong) (simp_all add: completed_emit, simp_all add: rpc_emit_def)

lemma table_remove_fields [simp]:
  "rpc_invocation_counter (table_remove k w) = rpc_invocation_counter w"
  "rpc_total (table_remove k w) = rpc_total w" "rpc_calls (table_remove k w) = rpc_calls w"
  "rpc_idle (table_remove k w) = rpc_idle w" "completed_calls (table_remove k w) = completed_calls w"
  "rpc_invocations (table_remove k w) = filter (\<lambda>kd. fst kd \<noteq> k) (rpc_invocations w)"
  by (simp_all add: table_remove_def completed_calls_def)

text \<open>Taking an invocation out of the table, with what becomes of its call.\<close>

lemma take_out_inv:
  assumes "rpc_inv w" and "map_of (rpc_invocations w) k = Some d"
    and "rpc_invocation_counter w' = rpc_invocation_counter w" "rpc_total w' = rpc_total w"
      "rpc_invocations w' = filter (\<lambda>kd. fst kd \<noteq> k) (rpc_invocations w)" "rpc_calls w' = rpc_calls w"
    and "mset (completed_calls w') + mset (map fst (rpc_idle w')) =
      mset (completed_calls w) + mset (map fst (rpc_idle w)) + (case inv_result d of None \<Rightarrow> {#} | Some r \<Rightarrow> {#r#})"
  shows "rpc_inv w'"
proof -
  have p: "pending_calls w' = pending_calls (table_remove k w)"
    using assms(5) by (simp add: pending_calls_def)
  show ?thesis
    using assms pending_remove [OF _ assms(2)]
    by (auto simp: rpc_inv_def all_calls_def p distinct_map_filter ac_simps)
qed

lemma transport_error_inv:
  assumes "rpc_inv w"
  shows "rpc_inv (evd_jsonrpc_transport_error i e w)"
proof (cases "map_of (rpc_invocations w) (id_string i)")
  case None
  with assms show ?thesis by (simp add: evd_jsonrpc_transport_error_def)
next
  case (Some d)
  show ?thesis
    by (rule take_out_inv [OF assms Some])
      (simp_all add: evd_jsonrpc_transport_error_def Some Let_def split: option.split,
       simp_all add: completed_calls_def)
qed

lemma transport_write_inv: "rpc_inv w \<Longrightarrow> rpc_inv (evd_jsonrpc_transport_write msg c i w)"
  by (auto simp: evd_jsonrpc_transport_write_def emit_inv transport_error_inv
      split: option.split rpc_context.split)

lemma next_invocation_fields:
  assumes "next_invocation w = (w', i)"
  shows "w' = w\<lparr>rpc_invocation_counter := i, rpc_total := rpc_total w + 1\<rparr>" "i = rpc_invocation_counter w + 1"
  using assms by (auto simp: next_invocation_def)

text \<open>A new invocation gets a key that is not in the table.\<close>

lemma insert_inv:
  assumes "rpc_inv w" and "next_invocation w1 = (w2, i)"
    and w1: "rpc_invocation_counter w1 = rpc_invocation_counter w" "rpc_total w1 = rpc_total w"
      "rpc_invocations w1 = rpc_invocations w" "rpc_idle w1 = rpc_idle w" "completed_calls w1 = completed_calls w"
    and d: "case inv_result d of None \<Rightarrow> rpc_calls w1 = rpc_calls w
      | Some r \<Rightarrow> r = rpc_calls w \<and> rpc_calls w1 = rpc_calls w + 1"
  shows "rpc_inv (table_insert (id_string i) d w2)"
proof -
  let ?w = "table_insert (id_string i) d w2"
  have i: "i = of_nat (rpc_total w + 1)"
    using assms(1) w1(1) next_invocation_fields(2) [OF assms(2)] by (simp add: rpc_inv_def)
  have f: "rpc_invocation_counter ?w = i" "rpc_total ?w = rpc_total w + 1" "rpc_calls ?w = rpc_calls w1"
      "rpc_idle ?w = rpc_idle w" "completed_calls ?w = completed_calls w"
    using next_invocation_fields(1) [OF assms(2)] w1
    by (simp_all add: table_insert_def completed_calls_def)
  show ?thesis
  proof (cases "rpc_total w + 1 < 2 ^ 32")
    case False
    with f i show ?thesis by (simp add: rpc_inv_def)
  next
    case True
    then have u: "unat i = rpc_total w + 1" using i by (simp only: unat_of_nat) simp
    have inv: "distinct (map fst (rpc_invocations w))"
      "\<forall>k \<in> fst ` set (rpc_invocations w). \<exists>n \<le> rpc_total w. k = decimal_string n"
      "all_calls w = mset [0..<rpc_calls w]"
      using assms(1) True by (simp_all add: rpc_inv_def)
    have fresh: "id_string i \<notin> fst ` set (rpc_invocations w)"
      using inv(2) u by (force simp: id_string_eq_iff)
    then have t: "rpc_invocations ?w = (id_string i, d) # rpc_invocations w"
      using next_invocation_fields(1) [OF assms(2)] w1(3) by (simp add: table_insert_def filter_absent_key)
    have k: "\<forall>k \<in> fst ` set (rpc_invocations ?w). \<exists>n \<le> rpc_total ?w. k = decimal_string n"
      using inv(2) u t f(2) by (auto simp: id_string_def le_Suc_eq)
    have "all_calls ?w = mset [0..<rpc_calls ?w]"
      using inv(3) d f t
      by (auto simp: all_calls_def pending_calls_def List.map_filter_simps atLeast0_lessThan_Suc
          split: option.splits)
    with f i t k inv(1) fresh show ?thesis by (simp add: rpc_inv_def)
  qed
qed

lemma call_method_inv:
  assumes "rpc_inv w"
  shows "rpc_inv (evd_jsonrpc_call_method lib name params c w)"
proof -
  define w1 where "w1 = w\<lparr>rpc_calls := rpc_calls w + 1\<rparr>"
  obtain w2 i where n: "next_invocation w1 = (w2, i)" by fastforce
  have f: "rpc_invocation_counter w1 = rpc_invocation_counter w" "rpc_total w1 = rpc_total w"
      "rpc_invocations w1 = rpc_invocations w" "rpc_idle w1 = rpc_idle w" "completed_calls w1 = completed_calls w"
    by (simp_all add: w1_def completed_calls_def)
  have "rpc_inv (table_insert (id_string i)
      \<lparr>inv_result = Some (rpc_calls w), inv_remote_id = None, inv_context = c\<rparr> w2)"
    by (rule insert_inv [OF assms n f]) (simp add: w1_def)
  moreover have "rpc_inv (w1\<lparr>rpc_idle := rpc_idle w1 @ [(rpc_calls w, Inl G_IO_ERROR_CLOSED)]\<rparr>)"
    using assms by (auto simp: rpc_inv_def all_calls_def pending_calls_def completed_calls_def w1_def
        atLeast0_lessThan_Suc)
  ultimately show ?thesis
    using n transport_write_inv by (simp add: evd_jsonrpc_call_method_def Let_def w1_def)
qed

lemma respond_inv:
  assumes "rpc_inv w" and "\<forall>d. map_of (rpc_invocations w) (id_string i) = Some d \<longrightarrow> inv_result d = None"
  shows "rpc_inv (fst (evd_jsonrpc_respond_full lib i r e w))"
proof (cases "map_of (rpc_invocations w) (id_string i)")
  case None
  with assms show ?thesis by (simp add: evd_jsonrpc_respond_full_def)
next
  case (Some d)
  have "rpc_inv (table_remove (id_string i) w)"
    by (rule take_out_inv [OF assms(1) Some]) (use assms(2) Some in simp_all)
  with Some assms(1) show ?thesis
    by (simp add: evd_jsonrpc_respond_full_def Let_def transport_write_inv)
qed

lemma method_called_inv:
  assumes "rpc_inv w"
  shows "rpc_inv (fst (evd_jsonrpc_on_method_called msg c w))"
proof -
  obtain w2 i where n: "next_invocation w = (w2, i)" by fastforce
  have "rpc_inv (table_insert (id_string i) \<lparr>inv_result = None, inv_remote_id = rid, inv_context = c\<rparr> w2)" for rid
    by (rule insert_inv [OF assms n]) simp_all
  with assms n show ?thesis
    by (simp add: evd_jsonrpc_on_method_called_def Let_def emit_inv split: option.split)
qed

lemma method_result_inv:
  assumes "rpc_inv w" and "evd_jsonrpc_on_method_result msg w = Some w'"
  shows "rpc_inv w'"
proof -
  obtain i where i: "json_node_get_string (node_or_null (map_of msg ''id'')) = Some i"
    using assms(2) by (auto simp: evd_jsonrpc_on_method_result_def split: option.splits)
  show ?thesis
  proof (cases "map_of (rpc_invocations w) i")
    case None
    with assms i show ?thesis by (simp add: evd_jsonrpc_on_method_result_def)
  next
    case (Some d)
    show ?thesis
      by (rule take_out_inv [OF assms(1) Some]; use assms(2) i Some in
          \<open>auto simp: evd_jsonrpc_on_method_result_def Let_def completed_emit split: option.splits\<close>)
        (auto simp: rpc_emit_def)
  qed
qed

lemma packet_inv:
  assumes "rpc_inv w" and "evd_jsonrpc_on_json_packet lib b w = Some w'"
  shows "rpc_inv w'"
  using assms method_called_inv [OF assms(1)] method_result_inv [OF assms(1)]
  by (auto simp: evd_jsonrpc_on_json_packet_def evd_jsonrpc_on_notification_def emit_inv
      split: option.splits JsonNode.splits if_splits)

lemma packets_inv: "rpc_inv w \<Longrightarrow> on_packets lib ds w = Some w' \<Longrightarrow> rpc_inv w'"
  by (induction ds arbitrary: w) (auto simp: bind_eq_Some_conv dest: packet_inv)

lemma rpc_inv_frame [simp]:
  "rpc_inv (w\<lparr>rpc_current := c\<rparr>) = rpc_inv w" "rpc_inv (w\<lparr>rpc_json_filter := f\<rparr>) = rpc_inv w"
  "rpc_inv (w\<lparr>rpc_send_cb := cb\<rparr>) = rpc_inv w" "rpc_inv (w\<lparr>rpc_peer_error := p\<rparr>) = rpc_inv w"
  "rpc_inv (w\<lparr>rpc_method_call_cb := cb, rpc_notification_cb := cb'\<rparr>) = rpc_inv w"
  by (rule rpc_inv_cong; simp add: completed_calls_def)+

lemma receive_inv:
  assumes "rpc_inv w" and "evd_jsonrpc_transport_receive lib data c i w = Some (w', e)"
  shows "rpc_inv w'"
proof (cases "takeWhile (\<lambda>c. c \<noteq> 0) data = []")
  case True
  with assms show ?thesis by (simp add: evd_jsonrpc_transport_receive_def)
next
  case False
  then obtain f ds r w1 where 1: "on_packets lib ds (w\<lparr>rpc_current := c, rpc_json_filter := f\<rparr>) = Some w1"
    and w': "(case r of
       FeedOk \<Rightarrow> (w1\<lparr>rpc_current := None\<rparr>, None)
     | FeedError e j \<Rightarrow> ((evd_jsonrpc_transport_error i e w1)\<lparr>rpc_current := None\<rparr>, Some e)) = (w', e)"
    using assms(2) by (auto simp: evd_jsonrpc_transport_receive_def Let_def bind_eq_Some_conv)
  from packets_inv [OF _ 1] assms(1) have "rpc_inv w1" by simp
  with w' show ?thesis by (cases r) (auto simp: transport_error_inv)
qed

text \<open>
  What happens to the object. The user responds to invocations that a remote end made, never to
  its own calls (a step that would is not taken).
\<close>

datatype rpc_op =
    Rpc_call string "JsonNode option" "rpc_context option"
  | Rpc_notify string "JsonNode option" "rpc_context option"
  | Rpc_respond "32 word" "JsonNode option" "JsonNode option"
  | Rpc_receive "byte list" "rpc_context option" "32 word"
  | Rpc_transport_error "32 word" gio_error
  | Rpc_main_loop
  | Rpc_set_send_callback "nat option"
  | Rpc_set_callbacks "nat option" "nat option"
  | Rpc_peers "nat \<Rightarrow> gio_error option"

definition own_call :: "32 word \<Rightarrow> EvdJsonrpc \<Rightarrow> bool" where
  "own_call i w \<longleftrightarrow>
     (case map_of (rpc_invocations w) (id_string i) of None \<Rightarrow> False | Some d \<Rightarrow> inv_result d \<noteq> None)"

definition rpc_step :: "rpc_lib \<Rightarrow> EvdJsonrpc \<Rightarrow> rpc_op \<Rightarrow> EvdJsonrpc option" where
  "rpc_step lib w op =
     (case op of
        Rpc_call name params c \<Rightarrow> Some (evd_jsonrpc_call_method lib name params c w)
      | Rpc_notify name params c \<Rightarrow> Some (fst (evd_jsonrpc_send_notification lib name params c w))
      | Rpc_respond i r e \<Rightarrow> Some (if own_call i w then w else fst (evd_jsonrpc_respond_full lib i r e w))
      | Rpc_receive data c i \<Rightarrow> map_option fst (evd_jsonrpc_transport_receive lib data c i w)
      | Rpc_transport_error i e \<Rightarrow> Some (evd_jsonrpc_transport_error i e w)
      | Rpc_main_loop \<Rightarrow>
          (case rpc_idle w of
             [] \<Rightarrow> Some w
           | (res, outcome) # idle \<Rightarrow> Some (rpc_emit (Completed res outcome) (w\<lparr>rpc_idle := idle\<rparr>)))
      | Rpc_set_send_callback cb \<Rightarrow> Some (evd_jsonrpc_transport_set_send_callback cb w)
      | Rpc_set_callbacks cb cb' \<Rightarrow> Some (evd_jsonrpc_set_callbacks cb cb' w)
      | Rpc_peers p \<Rightarrow> Some (w\<lparr>rpc_peer_error := p\<rparr>))"

lemma main_loop_inv:
  assumes "rpc_inv w" and "rpc_idle w = (res, outcome) # idle"
  shows "rpc_inv (rpc_emit (Completed res outcome) (w\<lparr>rpc_idle := idle\<rparr>))"
proof -
  let ?w = "rpc_emit (Completed res outcome) (w\<lparr>rpc_idle := idle\<rparr>)"
  have "completed_calls ?w = completed_calls w @ [res]"
    by (simp only: completed_emit) (simp add: completed_calls_def)
  moreover have "rpc_invocation_counter ?w = rpc_invocation_counter w" "rpc_total ?w = rpc_total w"
    "rpc_invocations ?w = rpc_invocations w" "rpc_calls ?w = rpc_calls w" "rpc_idle ?w = idle"
    by (simp_all add: rpc_emit_def)
  ultimately show ?thesis using assms by (simp add: rpc_inv_def all_calls_def pending_calls_def)
qed

lemma rpc_step_inv:
  assumes "rpc_inv w" and "rpc_step lib w op = Some w'"
  shows "rpc_inv w'"
proof (cases op)
  case (Rpc_respond i r e)
  with assms respond_inv [OF assms(1), of i lib r e] show ?thesis
    by (auto simp: rpc_step_def own_call_def split: option.splits if_splits)
next
  case Rpc_main_loop
  with assms main_loop_inv [OF assms(1)] show ?thesis
    by (auto simp: rpc_step_def split: list.splits)
qed (use assms in \<open>auto simp: rpc_step_def call_method_inv transport_error_inv transport_write_inv
    evd_jsonrpc_send_notification_def evd_jsonrpc_transport_set_send_callback_def
    evd_jsonrpc_set_callbacks_def dest: receive_inv\<close>)

lemma rpc_run_inv: "run_ops (rpc_step lib) w ops = Some w' \<Longrightarrow> rpc_inv w \<Longrightarrow> rpc_inv w'"
  by (induction ops arbitrary: w) (auto split: option.splits dest: rpc_step_inv)

lemma rpc_init_inv: "evd_jsonrpc_init p = Some w \<Longrightarrow> rpc_inv w"
  by (auto simp: evd_jsonrpc_init_def rpc_inv_def all_calls_def pending_calls_def completed_calls_def
      bind_eq_Some_conv List.map_filter_simps)

section \<open>From one end to the other\<close>

text \<open>
  json-glib carries a message: it writes a text of the grammar that the JSON filter accepts, without NUL,
  and reads it back as the message.
\<close>

definition carries :: "rpc_lib \<Rightarrow> JsonNode \<Rightarrow> bool" where
  "carries lib n \<longleftrightarrow>
     lib_parse lib (lib_generate lib n) = Some n \<and> 0 \<notin> set (lib_generate lib n) \<and>
     json_packet (lib_char_signed lib) (lib_generate lib n)"

text \<open>Data that arrive one after the other, each with the memory behind it.\<close>

primrec receive_all :: "rpc_lib \<Rightarrow> nat \<Rightarrow> (byte list \<times> byte list) list \<Rightarrow> EvdJsonrpc \<Rightarrow> EvdJsonrpc option" where
  "receive_all lib peer [] w = Some w"
| "receive_all lib peer (c # cs) w = do { w \<leftarrow> transport_on_receive lib peer c w; receive_all lib peer cs w }"

text \<open>A transport that puts a NUL behind the data it hands over.\<close>

definition terminated :: "byte list \<times> byte list \<Rightarrow> bool" where
  "terminated c \<longleftrightarrow> (\<exists>rest. snd c = 0 # rest)"

lemma packets_append: "on_packets lib (ds @ ds') w = do { w \<leftarrow> on_packets lib ds w; on_packets lib ds' w }"
  by (induction ds arbitrary: w) simp_all

text \<open>The filter waits for a new message.\<close>

definition between_messages :: "EvdJsonrpc \<Rightarrow> bool" where
  "between_messages w \<longleftrightarrow>
     jf_ready (rpc_json_filter w) \<and> jf_state (rpc_json_filter w) = GO \<and> jf_modes (rpc_json_filter w) = [] \<and>
     jf_packet_cb (rpc_json_filter w) \<noteq> None \<and> rpc_current w = None"

text \<open>Handling a packet neither looks at the filter nor changes it.\<close>

lemma packet_filter:
  "evd_jsonrpc_on_json_packet lib b (w\<lparr>rpc_json_filter := f\<rparr>) =
     map_option (\<lambda>w. w\<lparr>rpc_json_filter := f\<rparr>) (evd_jsonrpc_on_json_packet lib b w)"
  by (simp add: evd_jsonrpc_on_json_packet_def evd_jsonrpc_on_method_result_def evd_jsonrpc_on_method_called_def
      evd_jsonrpc_on_notification_def table_remove_def table_insert_def next_invocation_def rpc_emit_def Let_def
      split: option.split JsonNode.split)

lemma packets_filter:
  "on_packets lib ds (w\<lparr>rpc_json_filter := f\<rparr>) = map_option (\<lambda>w. w\<lparr>rpc_json_filter := f\<rparr>) (on_packets lib ds w)"
proof (induction ds arbitrary: w)
  case (Cons d ds)
  then show ?case
    by (cases "evd_jsonrpc_on_json_packet lib (snd (snd d)) w") (simp_all add: packet_filter)
qed simp

lemma packet_current:
  "evd_jsonrpc_on_json_packet lib b w = Some w' \<Longrightarrow> rpc_current w' = rpc_current w"
  by (auto simp: evd_jsonrpc_on_json_packet_def evd_jsonrpc_on_method_result_def evd_jsonrpc_on_method_called_def
      evd_jsonrpc_on_notification_def table_remove_def table_insert_def next_invocation_def rpc_emit_def Let_def
      split: option.splits JsonNode.splits if_splits)

lemma packets_current: "on_packets lib ds w = Some w' \<Longrightarrow> rpc_current w' = rpc_current w"
  by (induction ds arbitrary: w) (auto simp: bind_eq_Some_conv dest: packet_current)

lemma receive_all_feed:
  assumes "feed_chunks (json_run (lib_char_signed lib)) (rpc_json_filter w) (map fst cs) = (Some f', ds)"
    and "jf_ready (rpc_json_filter w)" and "\<forall>c \<in> set cs. 0 \<notin> set (fst c) \<and> terminated c" and "rpc_current w = None"
    and "on_packets lib ds (w\<lparr>rpc_current := Some (Peer_context p)\<rparr>) = Some w1"
  shows "receive_all lib p cs w = Some (w1\<lparr>rpc_current := None, rpc_json_filter := f'\<rparr>)"
  using assms
proof (induction cs arbitrary: w ds w1)
  case Nil
  then show ?case by (cases w) auto
next
  case (Cons c cs)
  let ?f = "rpc_json_filter w" and ?sg = "lib_char_signed lib" and ?c = "Some (Peer_context p)"
  from Cons.prems(1) obtain f1 out1 out2 where 1: "json_run ?sg ?f (fst c) = (Some f1, out1)"
    and 2: "feed_chunks (json_run ?sg) f1 (map fst cs) = (Some f', out2)" and ds: "ds = out1 @ out2"
    by (auto split: prod.splits option.splits)
  have ready: "jf_ready f1" using json.feed_ready [OF Cons.prems(2) 1] .
  have c: "0 \<notin> set (fst c)" "terminated c" using Cons.prems(3) by simp_all
  have tw: "takeWhile (\<lambda>x. x \<noteq> 0) (fst c @ snd c) = fst c" "0 \<in> set (snd c)"
    using c by (auto simp: terminated_def takeWhile_append takeWhile_eq_all_conv)
  show ?case
  proof (cases "fst c = []")
    case True
    with 1 json.feed_empty [OF Cons.prems(2), of ?sg] have "f1 = ?f" "out1 = []" by auto
    with True Cons.IH [of w ds w1] Cons.prems 2 ds tw show ?thesis
      by (simp add: transport_on_receive_def evd_jsonrpc_transport_receive_def)
  next
    case False
    have feed: "evd_json_filter_feed_len ?sg ?f (fst c) = Some (f1, out1, FeedOk)"
      using 1 by (auto simp: json_run_def split: option.splits prod.splits json_result.splits)
    obtain wa where wa: "on_packets lib out1 (w\<lparr>rpc_current := ?c\<rparr>) = Some wa" "on_packets lib out2 wa = Some w1"
      using Cons.prems(5) ds packets_append [of lib out1 out2] by (auto simp: bind_eq_Some_conv)
    have cur: "rpc_current wa = ?c" using packets_current [OF wa(1)] by simp
    define wb where "wb = wa\<lparr>rpc_json_filter := f1, rpc_current := None\<rparr>"
    have "on_packets lib out1 (w\<lparr>rpc_current := ?c, rpc_json_filter := f1\<rparr>) = Some (wa\<lparr>rpc_json_filter := f1\<rparr>)"
      using packets_filter [of lib out1 f1 "w\<lparr>rpc_current := ?c\<rparr>"] wa(1) by simp
    then have r: "transport_on_receive lib p c w = Some wb"
      using False feed tw
      by (simp add: transport_on_receive_def evd_jsonrpc_transport_receive_def wb_def Let_def)
    have "wb\<lparr>rpc_current := ?c\<rparr> = wa\<lparr>rpc_json_filter := f1\<rparr>" using cur by (cases wa) (simp add: wb_def)
    then have "on_packets lib out2 (wb\<lparr>rpc_current := ?c\<rparr>) = Some (w1\<lparr>rpc_json_filter := f1\<rparr>)"
      using packets_filter [of lib out2 f1 wa] wa(2) by simp
    with Cons.IH [of wb out2 "w1\<lparr>rpc_json_filter := f1\<rparr>"] 2 ready Cons.prems(3) r show ?thesis
      by (simp add: wb_def)
  qed
qed

lemma rpc_receive_message:
  assumes "between_messages w" and "carries lib n" and "concat (map fst cs) = lib_generate lib n" and "list_all terminated cs"
    and "evd_jsonrpc_on_json_packet lib (lib_generate lib n) (w\<lparr>rpc_current := Some (Peer_context p)\<rparr>) = Some w1"
  shows "\<exists>f'. receive_all lib p cs w = Some (w1\<lparr>rpc_current := None, rpc_json_filter := f'\<rparr>)"
proof -
  let ?f = "rpc_json_filter w"
  let ?t = "lib_generate lib n" and ?sg = "lib_char_signed lib"
  have t: "json_packet ?sg ?t" using assms(2) by (simp add: carries_def)
  obtain h where h: "jf_packet_cb ?f = Some h" using assms(1) by (auto simp: between_messages_def)
  have b: "jf_ready ?f" "jf_state ?f = GO" "jf_modes ?f = []" using assms(1) by (simp_all add: between_messages_def)
  from run_packets [OF b, of ?sg "[([], ?t)]" h] t h obtain f' where
    "json_run ?sg ?f ?t = (Some f', [(h, jf_user_data ?f, ?t)])" by (auto simp: ws_ok_def)
  then have feed: "feed_chunks (json_run ?sg) ?f (map fst cs) = (Some f', [(h, jf_user_data ?f, ?t)])"
    using json.feed_chunks_concat [OF b(1), of ?sg "map fst cs"] assms(3) by simp
  have "0 \<notin> set (concat (map fst cs))" using assms(2,3) by (simp add: carries_def)
  then have "\<forall>c \<in> set cs. 0 \<notin> set (fst c) \<and> terminated c" using assms(4) by (auto simp: list_all_iff)
  then show ?thesis
    using receive_all_feed [OF feed b(1), of p w1] assms(1,5) by (auto simp: between_messages_def)
qed

lemma call_to_peer:
  assumes "rpc_peer_error w p = None"
  shows "\<exists>w'. evd_jsonrpc_call_method lib name params (Some (Peer_context p)) w = w' \<and>
    rpc_log w' = rpc_log w @ [Sent_to_peer p (lib_generate lib
      (request_node name (Some (JSON_NODE_STRING (id_string (rpc_invocation_counter w + 1)))) params))] \<and>
    map_of (rpc_invocations w') (id_string (rpc_invocation_counter w + 1)) =
      Some \<lparr>inv_result = Some (rpc_calls w), inv_remote_id = None, inv_context = Some (Peer_context p)\<rparr> \<and>
    rpc_json_filter w' = rpc_json_filter w \<and> rpc_current w' = rpc_current w"
  using assms
  by (simp add: evd_jsonrpc_call_method_def no_transport_def next_invocation_def table_insert_def
      evd_jsonrpc_transport_write_def evd_jsonrpc_build_message_def rpc_emit_def Let_def)

lemma request_packet:
  assumes "carries lib (request_node name (Some rid) (Some (JSON_NODE_ARRAY args)))" (is "carries lib ?n")
    and "rid \<noteq> JSON_NODE_NULL" and "rpc_method_call_cb w = Some cb"
  shows "\<exists>w'. evd_jsonrpc_on_json_packet lib (lib_generate lib ?n) w = Some w' \<and>
    rpc_log w' = rpc_log w @ [Method_called cb name (JSON_NODE_ARRAY args) (rpc_invocation_counter w + 1) (rpc_current w)] \<and>
    map_of (rpc_invocations w') (id_string (rpc_invocation_counter w + 1)) =
      Some \<lparr>inv_result = None, inv_remote_id = Some rid, inv_context = rpc_current w\<rparr> \<and>
    rpc_peer_error w' = rpc_peer_error w"
  using assms
  by (simp add: carries_def evd_jsonrpc_on_json_packet_def request_node_def node_or_null_def has_member_def
      evd_jsonrpc_on_method_called_def next_invocation_def table_insert_def rpc_emit_def Let_def)

lemma response_packet:
  assumes "carries lib (response_node (Some (JSON_NODE_STRING k)) r e)" (is "carries lib ?n")
    and "map_of (rpc_invocations w) k = Some d" and "inv_result d = Some res"
  shows "\<exists>w'. evd_jsonrpc_on_json_packet lib (lib_generate lib ?n) w = Some w' \<and>
    rpc_log w' = rpc_log w @ [Completed res (response_outcome (node_or_null r) (node_or_null e))]"
  using assms
  by (simp add: carries_def evd_jsonrpc_on_json_packet_def response_node_def node_or_null_def has_member_def
      evd_jsonrpc_on_method_result_def table_remove_def rpc_emit_def Let_def)

section \<open>Properties\<close>

text \<open>
  C7. A method call between two ends that are connected, with any cutting of the bytes on the way:
  the callee is told the method and the arguments once; when it responds with a result or an error,
  the caller is told this once, and nothing else happens on either side. Both ends are between
  messages; json-glib has to write the two messages as texts that the JSON filter accepts and to
  read them back (\<open>carries\<close>); and the transport has to put a NUL behind the data it hands over. The
  caller is told the result if it is not null and there is no error, and the error otherwise: a null
  result is told as an error (\<open>jsonrpc_null_result\<close>).
\<close>

theorem jsonrpc_round_trip:
  fixes a b :: EvdJsonrpc
  defines "rid \<equiv> JSON_NODE_STRING (id_string (rpc_invocation_counter a + 1))"
    and "i \<equiv> rpc_invocation_counter b + 1"
  assumes "between_messages a" and "between_messages b" and "i \<noteq> 0"
    and "rpc_peer_error a pb = None" and "rpc_peer_error b pa = None" and "rpc_method_call_cb b = Some cb"
    and "carries lib (request_node name (Some rid) (Some (JSON_NODE_ARRAY args)))"
    and "carries lib (response_node (Some rid) r e)"
  shows "\<exists>request response a1.
    evd_jsonrpc_call_method lib name (Some (JSON_NODE_ARRAY args)) (Some (Peer_context pb)) a = a1 \<and>
    rpc_log a1 = rpc_log a @ [Sent_to_peer pb request] \<and>
    (\<forall>cs. concat (map fst cs) = request \<and> list_all terminated cs \<longrightarrow>
      (\<exists>b1 b2. receive_all lib pa cs b = Some b1 \<and>
        rpc_log b1 = rpc_log b @ [Method_called cb name (JSON_NODE_ARRAY args) i (Some (Peer_context pa))] \<and>
        evd_jsonrpc_respond_full lib i r e b1 = (b2, True, None) \<and>
        rpc_log b2 = rpc_log b1 @ [Sent_to_peer pa response])) \<and>
    (\<forall>cs. concat (map fst cs) = response \<and> list_all terminated cs \<longrightarrow>
      (\<exists>a2. receive_all lib pb cs a1 = Some a2 \<and>
        rpc_log a2 = rpc_log a1 @ [Completed (rpc_calls a) (response_outcome (node_or_null r) (node_or_null e))]))"
proof -
  let ?request = "lib_generate lib (request_node name (Some rid) (Some (JSON_NODE_ARRAY args)))"
  let ?response = "lib_generate lib (response_node (Some rid) r e)"
  let ?pa = "Some (Peer_context pa)" and ?pb = "Some (Peer_context pb)"
  from call_to_peer [OF assms(6), of lib name "Some (JSON_NODE_ARRAY args)"] obtain a1 where
    a1: "evd_jsonrpc_call_method lib name (Some (JSON_NODE_ARRAY args)) ?pb a = a1"
      "rpc_log a1 = rpc_log a @ [Sent_to_peer pb ?request]"
      "map_of (rpc_invocations a1) (id_string (rpc_invocation_counter a + 1)) =
        Some \<lparr>inv_result = Some (rpc_calls a), inv_remote_id = None, inv_context = ?pb\<rparr>"
      "rpc_json_filter a1 = rpc_json_filter a" "rpc_current a1 = rpc_current a"
    unfolding rid_def by blast
  have b: "\<exists>b1 b2. receive_all lib pa cs b = Some b1 \<and>
        rpc_log b1 = rpc_log b @ [Method_called cb name (JSON_NODE_ARRAY args) i ?pa] \<and>
        evd_jsonrpc_respond_full lib i r e b1 = (b2, True, None) \<and>
        rpc_log b2 = rpc_log b1 @ [Sent_to_peer pa ?response]" if cs: "concat (map fst cs) = ?request" "list_all terminated cs" for cs
  proof -
    from request_packet [OF assms(9), of "b\<lparr>rpc_current := ?pa\<rparr>" cb] assms(8) obtain w1 where
      w1: "evd_jsonrpc_on_json_packet lib ?request (b\<lparr>rpc_current := ?pa\<rparr>) = Some w1"
        "rpc_log w1 = rpc_log b @ [Method_called cb name (JSON_NODE_ARRAY args) i ?pa]"
        "map_of (rpc_invocations w1) (id_string i) =
          Some \<lparr>inv_result = None, inv_remote_id = Some rid, inv_context = ?pa\<rparr>"
        "rpc_peer_error w1 = rpc_peer_error b"
      by (auto simp: rid_def i_def)
    from rpc_receive_message [OF assms(4,9) cs w1(1)] obtain f' where
      "receive_all lib pa cs b = Some (w1\<lparr>rpc_current := None, rpc_json_filter := f'\<rparr>)" by blast
    with w1 assms(5,7) show ?thesis
      by (simp add: evd_jsonrpc_respond_full_def evd_jsonrpc_transport_write_def table_remove_def
          evd_jsonrpc_build_message_def rpc_emit_def Let_def)
  qed
  have "between_messages a1" using assms(3) a1(4,5) by (simp add: between_messages_def)
  note ret = rpc_receive_message [OF this assms(10)]
  have "\<exists>a2. receive_all lib pb cs a1 = Some a2 \<and>
      rpc_log a2 = rpc_log a1 @ [Completed (rpc_calls a) (response_outcome (node_or_null r) (node_or_null e))]"
    if cs: "concat (map fst cs) = ?response" "list_all terminated cs" for cs
    using response_packet [OF assms(10) [unfolded rid_def], of "a1\<lparr>rpc_current := ?pb\<rparr>"] a1(3)
      ret [OF cs, where p = pb] by (fastforce simp: rid_def)
  with a1(1,2) b show ?thesis by blast
qed

text \<open>A library that writes messages without white space and reads back those of a list.\<close>

fun node_text :: "JsonNode \<Rightarrow> byte list" and nodes_text :: "JsonNode list \<Rightarrow> byte list" and members_text :: "(string \<times> JsonNode) list \<Rightarrow> byte list" where
  "node_text JSON_NODE_NULL = ascii ''null''"
| "node_text (JSON_NODE_STRING s) = 34 # ascii s @ [34]"
| "node_text (JSON_NODE_BOOLEAN b) = ascii (if b then ''true'' else ''false'')"
| "node_text (JSON_NODE_NUMBER i) = (if i < 0 then [45] else []) @ ascii (decimal_string (nat \<bar>i\<bar>))"
| "node_text (JSON_NODE_ARRAY ns) = 91 # nodes_text ns @ [93]"
| "node_text (JSON_NODE_OBJECT ms) = 123 # members_text ms @ [125]"
| "nodes_text [] = []"
| "nodes_text (n # ns) = node_text n @ (if ns = [] then [] else 44 # nodes_text ns)"
| "members_text [] = []"
| "members_text ((k, n) # ms) = 34 # ascii k @ 34 # 58 # node_text n @ (if ms = [] then [] else 44 # members_text ms)"

definition demo_lib :: "JsonNode list \<Rightarrow> rpc_lib" where
  "demo_lib ns = \<lparr>lib_generate = node_text, lib_parse = (\<lambda>b. List.find (\<lambda>n. node_text n = b) ns), lib_char_signed = True\<rparr>"

definition demo_rpc :: EvdJsonrpc where
  "demo_rpc =
     \<lparr>rpc_invocation_counter = 0, rpc_send_cb = None, rpc_invocations = [],
      rpc_json_filter = idle_filter (Some 0) None None,
      rpc_current = None, rpc_method_call_cb = Some 5, rpc_notification_cb = None,
      rpc_peer_error = (\<lambda>p. None), rpc_calls = 0, rpc_total = 0, rpc_idle = [], rpc_log = []\<rparr>"

definition demo_request :: JsonNode where
  "demo_request = request_node ''sum'' (Some (JSON_NODE_STRING (id_string 1)))
     (Some (JSON_NODE_ARRAY [JSON_NODE_NUMBER 1, JSON_NODE_NUMBER 2]))"

definition demo_response :: JsonNode where
  "demo_response = response_node (Some (JSON_NODE_STRING (id_string 1))) (Some (JSON_NODE_NUMBER 3)) None"

lemma between_demo: "between_messages demo_rpc"
  using idle_ready by (simp add: between_messages_def demo_rpc_def) (simp add: idle_filter_def jf_modes_def)

lemma member_packet:
  assumes "json_chars sg (ascii k)" "json_value sg n t"
  shows "json_members sg n (34 # ascii k @ 34 # 58 # t)" "json_members sg n ts \<Longrightarrow> json_members sg n (34 # ascii k @ 34 # 58 # t @ 44 # ts)"
  using members_last [of sg "34 # ascii k @ [34]" "[]" "[]" n t "[]"] members_more [of sg "34 # ascii k @ [34]" "[]" "[]" n t "[]" "[]" ts] assms
  by (simp_all add: json_string_def ws_ok_def)

lemma ascii_chars:
  assumes "list_all (\<lambda>c. string_byte sg (of_nat (of_char c))) s"
  shows "json_chars sg (ascii s)"
  using assms by (induction s) (auto simp: ascii_def intro: chars_end chars_plain)

lemma demo_texts:
  "json_packet True (node_text demo_request)" "json_packet True (node_text demo_response)"
proof -
  have req: "node_text demo_request = 123 # (34 # ascii ''id'' @ 34 # 58 # (34 # ascii ''1'' @ [34]) @ 44 #
      (34 # ascii ''method'' @ 34 # 58 # (34 # ascii ''sum'' @ [34]) @ 44 # (34 # ascii ''params'' @ 34 # 58 # ascii ''[1,2]''))) @ [125]"
    by code_simp
  have res: "node_text demo_response = 123 # (34 # ascii ''id'' @ 34 # 58 # (34 # ascii ''1'' @ [34]) @ 44 #
      (34 # ascii ''error'' @ 34 # 58 # ascii ''null'' @ 44 # (34 # ascii ''result'' @ 34 # 58 # ascii ''3''))) @ [125]"
    by code_simp
  have c: "json_chars True (ascii k)" if "k \<in> {''id'', ''method'', ''params'', ''error'', ''result'', ''1'', ''sum''}" for k
    using that by (elim insertE emptyE) (simp_all only: ascii_chars, (rule ascii_chars, code_simp)+)
  have str: "json_value True n (34 # ascii k @ [34])" if "k \<in> {''id'', ''method'', ''params'', ''error'', ''result'', ''1'', ''sum''}" for k n
    using c [OF that] by (intro value_string) (auto simp: json_string_def)
  have num: "json_value True n [x]" if "x \<in> {49, 50, 51}" for n x
    using that
    by (intro value_number, unfold json_number_def, intro exI [of _ "[]"] exI [of _ "[x]"]) (auto simp: json_digits_def digit_bytes_def)
  have "json_elements True 125 ([49] @ [] @ 44 # [] @ ([50] @ []))"
    using num [of 49 125] num [of 50 125] by (intro elements_more elements_last) (simp_all add: ws_ok_def)
  from value_array [OF _ this, of "[]"] have arr: "json_value True 126 (ascii ''[1,2]'')" by (simp add: ws_ok_def ascii_def)
  have "json_members True 126 (34 # ascii ''id'' @ 34 # 58 # (34 # ascii ''1'' @ [34]) @ 44 #
      (34 # ascii ''method'' @ 34 # 58 # (34 # ascii ''sum'' @ [34]) @ 44 # (34 # ascii ''params'' @ 34 # 58 # ascii ''[1,2]'')))"
    using c str arr by (intro member_packet) simp_all
  from value_object [OF _ this, of "[]"] have "json_value True 127 (node_text demo_request)" by (simp add: ws_ok_def req)
  then show "json_packet True (node_text demo_request)" by (simp add: json_packet_def req)
  have "json_members True 126 (34 # ascii ''id'' @ 34 # 58 # (34 # ascii ''1'' @ [34]) @ 44 #
      (34 # ascii ''error'' @ 34 # 58 # ascii ''null'' @ 44 # (34 # ascii ''result'' @ 34 # 58 # ascii ''3'')))"
  proof -
    have v: "json_value True 126 (ascii ''3'')" "json_value True 126 (ascii ''null'')"
      using num [of 51 126] value_null [of True 126] by (simp_all add: ascii_def)
    note m1 = member_packet(1) [OF c v(1), of "''result''"]
    note m2 = member_packet(2) [OF c v(2) m1, of "''error''"]
    show ?thesis by (rule member_packet(2) [OF c str m2]) simp_all
  qed
  from value_object [OF _ this, of "[]"] have "json_value True 127 (node_text demo_response)" by (simp add: ws_ok_def res)
  then show "json_packet True (node_text demo_response)" by (simp add: json_packet_def res)
qed

lemma demo_carries:
  "carries (demo_lib [demo_request, demo_response]) demo_request"
  "carries (demo_lib [demo_request, demo_response]) demo_response"
proof -
  have t: "node_text demo_request \<noteq> node_text demo_response"
    "list_all (\<lambda>c. c \<noteq> 0) (node_text demo_request)" "list_all (\<lambda>c. c \<noteq> 0) (node_text demo_response)"
    by code_simp+
  show "carries (demo_lib [demo_request, demo_response]) demo_request"
    "carries (demo_lib [demo_request, demo_response]) demo_response"
    using t demo_texts by (auto simp: carries_def demo_lib_def list_all_iff)
qed

theorem jsonrpc_round_trip_witness:
  "\<exists>request response a1 b1 a2. let lib = demo_lib [demo_request, demo_response] in
    evd_jsonrpc_call_method lib ''sum'' (Some (JSON_NODE_ARRAY [JSON_NODE_NUMBER 1, JSON_NODE_NUMBER 2]))
      (Some (Peer_context 9)) demo_rpc = a1 \<and>
    receive_all lib 8 [(request, [0])] demo_rpc = Some b1 \<and>
    rpc_log b1 = [Method_called 5 ''sum'' (JSON_NODE_ARRAY [JSON_NODE_NUMBER 1, JSON_NODE_NUMBER 2]) 1
      (Some (Peer_context 8))] \<and>
    receive_all lib 9 [(response, [0])] a1 = Some a2 \<and>
    rpc_log a2 = rpc_log a1 @ [Completed 0 (Inr (Some (JSON_NODE_NUMBER 3), None))]"
proof -
  let ?lib = "demo_lib [demo_request, demo_response]"
  have c: "rpc_invocation_counter demo_rpc = 0" "rpc_calls demo_rpc = 0" "rpc_log demo_rpc = []"
    "rpc_peer_error demo_rpc p = None" "rpc_method_call_cb demo_rpc = Some 5" for p
    by (simp_all add: demo_rpc_def)
  from jsonrpc_round_trip [of demo_rpc demo_rpc 9 8 5 ?lib "''sum''" "[JSON_NODE_NUMBER 1, JSON_NODE_NUMBER 2]"
      "Some (JSON_NODE_NUMBER 3)" None] between_demo demo_carries
  obtain request response a1 where
    1: "evd_jsonrpc_call_method ?lib ''sum'' (Some (JSON_NODE_ARRAY [JSON_NODE_NUMBER 1, JSON_NODE_NUMBER 2]))
      (Some (Peer_context 9)) demo_rpc = a1"
    and 2: "\<forall>cs. concat (map fst cs) = request \<and> list_all terminated cs \<longrightarrow> (\<exists>b1 b2. receive_all ?lib 8 cs demo_rpc = Some b1 \<and>
        rpc_log b1 = [Method_called 5 ''sum'' (JSON_NODE_ARRAY [JSON_NODE_NUMBER 1, JSON_NODE_NUMBER 2]) 1
          (Some (Peer_context 8))] \<and>
        evd_jsonrpc_respond_full ?lib 1 (Some (JSON_NODE_NUMBER 3)) None b1 = (b2, True, None) \<and>
        rpc_log b2 = rpc_log b1 @ [Sent_to_peer 8 response])"
    and 3: "\<forall>cs. concat (map fst cs) = response \<and> list_all terminated cs \<longrightarrow> (\<exists>a2. receive_all ?lib 9 cs a1 = Some a2 \<and>
        rpc_log a2 = rpc_log a1 @ [Completed 0 (Inr (Some (JSON_NODE_NUMBER 3), None))])"
    by (auto simp: c demo_request_def demo_response_def response_outcome_def node_or_null_def)
  from spec [OF 2, of "[(request, [0])]"] spec [OF 3, of "[(response, [0])]"] 1 show ?thesis by (auto simp: Let_def terminated_def)
qed

text \<open>
  C8. Whatever is called, received and responded, every call of a method is at any time either
  completed, once, or about to be completed by the main loop, or waiting for its response, as long
  as there were fewer than \<open>2 ^ 32\<close> invocations.
\<close>

theorem jsonrpc_calls_once:
  assumes "evd_jsonrpc_init peers = Some w" and "run_ops (rpc_step lib) w ops = Some w'"
    and "rpc_total w' < 2 ^ 32"
  shows "mset (completed_calls w') + mset (map fst (rpc_idle w')) + mset (pending_calls w') =
    mset [0..<rpc_calls w']"
  using rpc_run_inv [OF assms(2) rpc_init_inv [OF assms(1)]] assms(3) by (simp add: rpc_inv_def all_calls_def)

theorem jsonrpc_calls_once_witness:
  "\<exists>w w'. evd_jsonrpc_init (\<lambda>p. if p = 2 then Some G_IO_ERROR_CLOSED else None) = Some w \<and>
    run_ops (rpc_step (demo_lib [])) w
      [Rpc_call ''a'' None (Some (Peer_context 1)), Rpc_call ''b'' None (Some (Peer_context 2)),
       Rpc_call ''c'' None None, Rpc_main_loop] = Some w' \<and>
    mset (completed_calls w') + mset (map fst (rpc_idle w')) + mset (pending_calls w') = mset [0, 1, 2]"
proof -
  let ?ops = "[Rpc_call ''a'' None (Some (Peer_context 1)), Rpc_call ''b'' None (Some (Peer_context 2)),
       Rpc_call ''c'' None None, Rpc_main_loop]"
  let ?p = "\<lambda>p :: nat. if p = 2 then Some G_IO_ERROR_CLOSED else None"
  obtain w where w: "evd_jsonrpc_init ?p = Some w" by (simp add: evd_jsonrpc_init_def init_idle)
  obtain w' where w': "run_ops (rpc_step (demo_lib [])) w ?ops = Some w'" "rpc_total w' = 2" "rpc_calls w' = 3"
    using w by (auto simp: evd_jsonrpc_init_def init_idle rpc_step_def evd_jsonrpc_call_method_def no_transport_def
        next_invocation_def table_insert_def evd_jsonrpc_transport_write_def evd_jsonrpc_transport_error_def
        table_remove_def rpc_emit_def Let_def)
  have "rpc_total w' < 2 ^ 32" using w'(2) by simp
  from jsonrpc_calls_once [OF w w'(1) this] w w'(1,3) show ?thesis by (auto simp: upt_rec)
qed

text \<open>
  C40. The packets that crash the program: those that the filter lets through but json-glib does not
  parse, and responses whose identifier is not a string.
\<close>

theorem jsonrpc_crashing_packets:
  "evd_jsonrpc_on_json_packet lib b w = None \<longleftrightarrow>
     lib_parse lib b = None \<or>
     (\<exists>obj. lib_parse lib b = Some (JSON_NODE_OBJECT obj) \<and> has_member obj ''id'' \<and> has_member obj ''result'' \<and>
        has_member obj ''error'' \<and> (\<forall>s. map_of obj ''id'' \<noteq> Some (JSON_NODE_STRING s)))"
proof -
  have s: "json_node_get_string n = Some s \<longleftrightarrow> n = JSON_NODE_STRING s"
      "json_node_get_string n = None \<longleftrightarrow> (\<forall>s. n \<noteq> JSON_NODE_STRING s)" for n s by (cases n; auto)+
  show ?thesis
    by (auto simp: s evd_jsonrpc_on_json_packet_def evd_jsonrpc_on_method_result_def has_member_def
        node_or_null_def Let_def split: option.split JsonNode.split)
qed

section \<open>What the code gets wrong\<close>

text \<open>
  Invocations of the remote end and calls share the table and its numbers, so that a response with
  the number of an incoming call takes it out of the table: it can no longer be responded to.
\<close>

lemma jsonrpc_response_drops_invocation:
  assumes "map_of (rpc_invocations w) (id_string i) = Some d" and "inv_result d = None" and "i \<noteq> 0"
  shows "\<exists>w'. evd_jsonrpc_on_method_result [(''id'', JSON_NODE_STRING (id_string i))] w = Some w' \<and>
    rpc_log w' = rpc_log w \<and>
    evd_jsonrpc_respond lib i result w' = (w', False, Some G_IO_ERROR_INVALID_ARGUMENT)"
proof -
  have "map_of (filter (\<lambda>kd. fst kd \<noteq> id_string i) (rpc_invocations w)) (id_string i) = None"
    by (auto simp: map_of_eq_None_iff)
  with assms show ?thesis
    by (simp add: evd_jsonrpc_on_method_result_def node_or_null_def table_remove_def Let_def
        evd_jsonrpc_respond_def evd_jsonrpc_respond_full_def)
qed

text \<open>A response is accepted from any peer, not only from the one that was called.\<close>

lemma jsonrpc_any_peer_responds:
  "evd_jsonrpc_on_method_result msg (w\<lparr>rpc_current := c\<rparr>) =
     map_option (\<lambda>w. w\<lparr>rpc_current := c\<rparr>) (evd_jsonrpc_on_method_result msg w)"
  by (simp add: evd_jsonrpc_on_method_result_def table_remove_def rpc_emit_def Let_def split: option.split)

text \<open>
  The size of what a transport hands over is ignored: bytes behind it up to the next NUL are taken for
  part of it, and without a NUL memory is read out of bounds. (Long polling hands over parts of a buffer,
  with the header of the next message behind them.)
\<close>

lemma jsonrpc_ignores_size:
  "transport_on_receive lib p (data, behind @ 0 # rest) w = transport_on_receive lib p (data @ behind, 0 # rest) w"
  "0 \<notin> set data \<Longrightarrow> 0 \<notin> set behind \<Longrightarrow> transport_on_receive lib p (data, behind) w = None"
  by (simp_all add: transport_on_receive_def)

text \<open>A method that returns null is reported with an error node.\<close>

lemma jsonrpc_null_result: "response_outcome JSON_NODE_NULL JSON_NODE_NULL = Inr (None, Some JSON_NODE_NULL)"
  by (simp add: response_outcome_def)

end
