(* ===== verification/Connection_Pool.thy ===== *)
theory Connection_Pool
  imports Evd_Prelude "HOL-Library.Multiset"
begin

text \<open>
  Streams and their groups, \<open>evd/evd-io-stream.c\<close> and \<open>evd/evd-io-stream-group.c\<close>, and the pool of
  connections, \<open>evd/evd-connection-pool.c\<close>, which is a group with its own functions for adding and
  removing a stream. A stream has at most one group, and the throttle of its group (the handler
  \<open>on_group_changed\<close> of \<open>evd/evd-connection.c\<close>). Streams, groups and requests are numbers; the pool
  is the group \<open>POOL\<close>, every other group is a plain one. Of a connection the pool uses closing and
  \<open>evd_connection_starttls\<close>, which are modelled as far as the pool sees them.
\<close>

section \<open>State\<close>

definition POOL :: nat where "POOL = 0"

definition DEFAULT_MIN_CONNS :: nat where "DEFAULT_MIN_CONNS = 1"

definition DEFAULT_MAX_CONNS :: nat where "DEFAULT_MAX_CONNS = 5"

text \<open>
  The first fields are those of all streams and groups, the others those of the pool.
  \<open>cp_handlers\<close> are the streams with the handler \<open>connection_on_close\<close>, \<open>cp_tls_handshaking\<close> those
  whose TLS handshake is running, \<open>cp_tls_done\<close> the calls of \<open>connection_on_tls_started\<close> that wait in
  the main loop, \<open>cp_sources\<close> the retry sources of the main loop, \<open>cp_idle\<close> the requests that the main
  loop will complete and \<open>cp_completed\<close> those that are, with their connections or an error.
\<close>

record pool_world =
  iw_group :: "nat \<Rightarrow> nat option"
  iw_recursed :: "nat \<Rightarrow> bool"
  iw_throttles :: "nat \<Rightarrow> nat list"
  iw_connected :: "nat \<Rightarrow> bool"
  iw_closed :: "nat \<Rightarrow> bool"
  iw_tls_active :: "nat \<Rightarrow> bool"
  cp_alive :: bool
  cp_min_conns :: nat
  cp_max_conns :: nat
  cp_conns :: "nat list"
  cp_requests :: "nat list"
  cp_connecting_sockets :: nat
  cp_tls_autostart :: bool
  cp_retry_src_id :: nat
  cp_handlers :: "nat list"
  cp_tls_handshaking :: "nat list"
  cp_tls_done :: "(nat \<times> bool) list"
  cp_sources :: "nat list"
  cp_next_source :: nat
  cp_idle :: "(nat \<times> nat) list"
  cp_completed :: "(nat \<times> nat option) list"

section \<open>Creating sockets\<close>

text \<open>The macro \<open>TOTAL_SOCKETS\<close>.\<close>

definition total_sockets :: "pool_world \<Rightarrow> nat" where
  "total_sockets w = cp_connecting_sockets w + length (cp_conns w)"

definition evd_connection_pool_create_new_socket :: "pool_world \<Rightarrow> pool_world" where
  "evd_connection_pool_create_new_socket w = w\<lparr>cp_connecting_sockets := cp_connecting_sockets w + 1\<rparr>"

function create_loop :: "pool_world \<Rightarrow> pool_world" where
  "create_loop w =
     (if total_sockets w < cp_min_conns w then create_loop (evd_connection_pool_create_new_socket w) else w)"
  by pat_completeness auto

termination
  by (relation "measure (\<lambda>w. cp_min_conns w - total_sockets w)")
    (auto simp: total_sockets_def evd_connection_pool_create_new_socket_def)

declare create_loop.simps [simp del]

definition evd_connection_pool_create_min_conns :: "pool_world \<Rightarrow> pool_world" where
  "evd_connection_pool_create_min_conns w = create_loop (w\<lparr>cp_retry_src_id := 0\<rparr>)"

section \<open>Starting TLS\<close>

text \<open>
  Of \<open>evd_connection_starttls\<close>: a connection that is not connected, or has TLS already, fails with the
  next turn of the main loop. The handshake itself goes on with the events of the socket.
\<close>

definition evd_connection_starttls :: "nat \<Rightarrow> pool_world \<Rightarrow> pool_world" where
  "evd_connection_starttls s w =
     (if \<not> iw_connected w s \<or> iw_tls_active w s then w\<lparr>cp_tls_done := cp_tls_done w @ [(s, False)]\<rparr>
      else w\<lparr>iw_tls_active := (iw_tls_active w)(s := True), cp_tls_handshaking := cp_tls_handshaking w @ [s]\<rparr>)"

definition connection_starttls :: "nat \<Rightarrow> pool_world \<Rightarrow> pool_world" where
  "connection_starttls s w = evd_connection_starttls s w"

section \<open>Streams and groups\<close>

text \<open>The throttle of a group goes by the number of the group.\<close>

definition on_group_changed :: "nat \<Rightarrow> nat option \<Rightarrow> nat option \<Rightarrow> pool_world \<Rightarrow> pool_world" where
  "on_group_changed s new_group old_group w =
     (let ts = iw_throttles w s;
          ts = (case old_group of None \<Rightarrow> ts | Some g \<Rightarrow> remove1 g ts);
          ts = (case new_group of None \<Rightarrow> ts | Some g \<Rightarrow> if g \<in> set ts then ts else g # ts)
      in w\<lparr>iw_throttles := (iw_throttles w)(s := ts)\<rparr>)"

text \<open>
  Setting the group of a stream calls the groups, which call the function of their class, which sets
  the group of the stream; the flag \<open>recursed\<close> of a group and the comparison with the present group
  end the recursion. The three functions that call each other through the class are written with the
  calls they make as an argument; \<open>group_dispatch\<close> makes the calls, to a depth that is given.
\<close>

datatype group_call = SetGroup nat "nat option" | GroupAdd nat nat | GroupRemove nat nat

type_synonym group_caller = "group_call \<Rightarrow> pool_world \<Rightarrow> (pool_world \<times> bool) option"

definition evd_io_stream_set_group ::
    "group_caller \<Rightarrow> nat \<Rightarrow> nat option \<Rightarrow> pool_world \<Rightarrow> (pool_world \<times> bool) option" where
  "evd_io_stream_set_group call s grp w =
     (if grp = iw_group w s then Some (w, False)
      else
        let old_group = iw_group w s in do {
          w \<leftarrow> (case old_group of
                 None \<Rightarrow> Some w
               | Some g \<Rightarrow> map_option fst (call (GroupRemove g s) (w\<lparr>iw_group := (iw_group w)(s := None)\<rparr>)));
          let w = w\<lparr>iw_group := (iw_group w)(s := grp)\<rparr>;
          w \<leftarrow> (case grp of None \<Rightarrow> Some w | Some g \<Rightarrow> map_option fst (call (GroupAdd g s) w));
          Some (on_group_changed s grp old_group w, True)
        })"

definition evd_io_stream_group_add_internal ::
    "group_caller \<Rightarrow> nat \<Rightarrow> nat \<Rightarrow> pool_world \<Rightarrow> (pool_world \<times> bool) option" where
  "evd_io_stream_group_add_internal call g s w = call (SetGroup s (Some g)) w"

definition evd_io_stream_group_remove_internal ::
    "group_caller \<Rightarrow> nat \<Rightarrow> nat \<Rightarrow> pool_world \<Rightarrow> (pool_world \<times> bool) option" where
  "evd_io_stream_group_remove_internal call g s w = call (SetGroup s None) w"

section \<open>Adding and removing\<close>

definition evd_connection_pool_finish_request ::
    "group_caller \<Rightarrow> nat \<Rightarrow> nat \<Rightarrow> pool_world \<Rightarrow> pool_world option" where
  "evd_connection_pool_finish_request call s res w =
     map_option fst (call (GroupRemove POOL s) (w\<lparr>cp_idle := cp_idle w @ [(res, s)]\<rparr>))"

definition connection_available :: "group_caller \<Rightarrow> nat \<Rightarrow> pool_world \<Rightarrow> pool_world option" where
  "connection_available call s w =
     (case cp_requests w of
        res # requests \<Rightarrow>
          map_option evd_connection_pool_create_min_conns
            (evd_connection_pool_finish_request call s res (w\<lparr>cp_requests := requests\<rparr>))
      | [] \<Rightarrow> Some (w\<lparr>cp_handlers := cp_handlers w @ [s], cp_conns := cp_conns w @ [s]\<rparr>))"

definition group_add_stream :: "group_caller \<Rightarrow> nat \<Rightarrow> pool_world \<Rightarrow> (pool_world \<times> bool) option" where
  "group_add_stream call s w = do {
     (w, added) \<leftarrow> evd_io_stream_group_add_internal call POOL s w;
     if \<not> added then Some (w, False)
     else if cp_tls_autostart w \<and> \<not> iw_tls_active w s then Some (connection_starttls s w, True)
     else map_option (\<lambda>w. (w, True)) (connection_available call s w)
   }"

definition group_remove_stream :: "group_caller \<Rightarrow> nat \<Rightarrow> pool_world \<Rightarrow> (pool_world \<times> bool) option" where
  "group_remove_stream call s w = do {
     (w, removed) \<leftarrow> evd_io_stream_group_remove_internal call POOL s w;
     if \<not> removed then Some (w, False)
     else Some (w\<lparr>cp_handlers := filter (\<lambda>s'. s' \<noteq> s) (cp_handlers w), cp_conns := remove1 s (cp_conns w)\<rparr>, True)
   }"

definition evd_io_stream_group_add :: "group_caller \<Rightarrow> nat \<Rightarrow> nat \<Rightarrow> pool_world \<Rightarrow> (pool_world \<times> bool) option" where
  "evd_io_stream_group_add call g s w =
     (if iw_recursed w g then Some (w, True)
      else do {
        (w, result) \<leftarrow> (if g = POOL then group_add_stream call s else evd_io_stream_group_add_internal call g s)
          (w\<lparr>iw_recursed := (iw_recursed w)(g := True)\<rparr>);
        Some (w\<lparr>iw_recursed := (iw_recursed w)(g := False)\<rparr>, result)
      })"

definition evd_io_stream_group_remove :: "group_caller \<Rightarrow> nat \<Rightarrow> nat \<Rightarrow> pool_world \<Rightarrow> (pool_world \<times> bool) option" where
  "evd_io_stream_group_remove call g s w =
     (if iw_recursed w g then Some (w, True)
      else do {
        (w, result) \<leftarrow> (if g = POOL then group_remove_stream call s else evd_io_stream_group_remove_internal call g s)
          (w\<lparr>iw_recursed := (iw_recursed w)(g := True)\<rparr>);
        Some (w\<lparr>iw_recursed := (iw_recursed w)(g := False)\<rparr>, result)
      })"

primrec group_dispatch :: "nat \<Rightarrow> group_caller" where
  "group_dispatch 0 call w = None"
| "group_dispatch (Suc n) call w =
     (case call of
        SetGroup s g \<Rightarrow> evd_io_stream_set_group (group_dispatch n) s g w
      | GroupAdd g s \<Rightarrow> evd_io_stream_group_add (group_dispatch n) g s w
      | GroupRemove g s \<Rightarrow> evd_io_stream_group_remove (group_dispatch n) g s w)"

definition group_fuel :: nat where "group_fuel = 6"

text \<open>A call from outside.\<close>

definition group_call :: group_caller where
  "group_call = group_dispatch group_fuel"

section \<open>The pool\<close>

definition evd_connection_pool_init :: "pool_world \<Rightarrow> pool_world" where
  "evd_connection_pool_init w =
     w\<lparr>iw_recursed := (iw_recursed w)(POOL := False), cp_alive := True, cp_min_conns := DEFAULT_MIN_CONNS,
       cp_max_conns := DEFAULT_MAX_CONNS, cp_conns := [], cp_requests := [], cp_connecting_sockets := 0,
       cp_tls_autostart := False, cp_retry_src_id := 0\<rparr>"

definition evd_connection_pool_constructed :: "pool_world \<Rightarrow> pool_world" where
  "evd_connection_pool_constructed w = evd_connection_pool_create_min_conns w"

definition evd_connection_pool_has_free_connections :: "pool_world \<Rightarrow> bool" where
  "evd_connection_pool_has_free_connections w \<longleftrightarrow> length (cp_conns w) > 0"

definition evd_connection_pool_get_connection :: "nat \<Rightarrow> pool_world \<Rightarrow> pool_world option" where
  "evd_connection_pool_get_connection res w =
     (case cp_conns w of
        conn # conns \<Rightarrow>
          map_option evd_connection_pool_create_min_conns
            (evd_connection_pool_finish_request group_call conn res (w\<lparr>cp_conns := conns\<rparr>))
      | [] \<Rightarrow> Some (evd_connection_pool_create_min_conns (w\<lparr>cp_requests := cp_requests w @ [res]\<rparr>)))"

definition evd_connection_pool_recycle :: "nat \<Rightarrow> pool_world \<Rightarrow> (pool_world \<times> bool) option" where
  "evd_connection_pool_recycle conn w =
     (if iw_closed w conn then Some (w, False)
      else if total_sockets w \<ge> cp_max_conns w then Some (w, False)
      else group_call (GroupAdd POOL conn) w)"

text \<open>
  A socket has connected, with its stream, or failed to. Removing the retry source by its number
  removes it from the main loop.
\<close>

definition remove_retry_source :: "pool_world \<Rightarrow> pool_world" where
  "remove_retry_source w =
     (if cp_retry_src_id w \<noteq> 0
      then w\<lparr>cp_sources := remove1 (cp_retry_src_id w) (cp_sources w), cp_retry_src_id := 0\<rparr> else w)"

definition evd_connection_pool_socket_on_connect :: "nat option \<Rightarrow> pool_world \<Rightarrow> pool_world option" where
  "evd_connection_pool_socket_on_connect io_stream w =
     (let w = w\<lparr>cp_connecting_sockets := cp_connecting_sockets w - 1\<rparr>
      in case io_stream of
           Some s \<Rightarrow> map_option fst (group_call (GroupAdd POOL s) (remove_retry_source w))
         | None \<Rightarrow>
             Some (w\<lparr>cp_sources := cp_sources w @ [cp_next_source w], cp_retry_src_id := cp_next_source w,
                     cp_next_source := cp_next_source w + 1\<rparr>))"

definition connection_on_close :: "nat \<Rightarrow> pool_world \<Rightarrow> pool_world option" where
  "connection_on_close s w =
     map_option (\<lambda>(w, _). evd_connection_pool_create_min_conns w) (group_call (GroupRemove POOL s) w)"

text \<open>The signal \<open>close\<close> is emitted, then the stream leaves its group.\<close>

definition io_stream_on_close :: "nat \<Rightarrow> pool_world \<Rightarrow> pool_world option" where
  "io_stream_on_close s w = do {
     w \<leftarrow> (if s \<in> set (cp_handlers w) then connection_on_close s w else Some w);
     map_option fst (group_call (SetGroup s None) w)
   }"

text \<open>
  Closing, by \<open>g_io_stream_close\<close>, which does it once. A handshake that is running ends with an error:
  \<open>connection_on_tls_started\<close> is called and its attempt to close the stream is refused.
\<close>

definition evd_connection_close_internal :: "nat \<Rightarrow> pool_world \<Rightarrow> pool_world option" where
  "evd_connection_close_internal s w =
     io_stream_on_close s (w\<lparr>iw_connected := (iw_connected w)(s := False),
       cp_tls_handshaking := remove1 s (cp_tls_handshaking w), iw_tls_active := (iw_tls_active w)(s := False)\<rparr>)"

definition g_io_stream_close :: "nat \<Rightarrow> pool_world \<Rightarrow> pool_world option" where
  "g_io_stream_close s w =
     (if iw_closed w s then Some w
      else map_option (\<lambda>w. w\<lparr>iw_closed := (iw_closed w)(s := True)\<rparr>) (evd_connection_close_internal s w))"

definition evd_connection_close_in_idle :: "nat \<Rightarrow> pool_world \<Rightarrow> pool_world" where
  "evd_connection_close_in_idle s w = w\<lparr>iw_connected := (iw_connected w)(s := False)\<rparr>"

text \<open>The handshake succeeds or fails.\<close>

definition evd_connection_tls_handshake :: "nat \<Rightarrow> bool \<Rightarrow> pool_world \<Rightarrow> pool_world option" where
  "evd_connection_tls_handshake s ok w =
     (let w = w\<lparr>cp_tls_handshaking := remove1 s (cp_tls_handshaking w), cp_tls_done := cp_tls_done w @ [(s, ok)]\<rparr>
      in if ok then Some w else g_io_stream_close s w)"

definition connection_on_tls_started :: "nat \<Rightarrow> bool \<Rightarrow> pool_world \<Rightarrow> pool_world option" where
  "connection_on_tls_started s ok w =
     (if ok then connection_available group_call s w else g_io_stream_close s w)"

definition evd_connection_pool_set_tls_autostart :: "bool \<Rightarrow> pool_world \<Rightarrow> pool_world" where
  "evd_connection_pool_set_tls_autostart autostart w =
     (let w = w\<lparr>cp_tls_autostart := autostart\<rparr>
      in if autostart then fold connection_starttls (cp_conns w) (w\<lparr>cp_conns := []\<rparr>) else w)"

text \<open>
  The retry source fires; it does not keep the pool alive. When the pool is destroyed, its
  connections are checked and let go, requests that wait are completed with an error, and the streams
  of the group are told through their weak references.
\<close>

definition retry_source :: "nat \<Rightarrow> pool_world \<Rightarrow> pool_world option" where
  "retry_source src w =
     (let w = w\<lparr>cp_sources := remove1 src (cp_sources w)\<rparr>
      in if cp_alive w then Some (evd_connection_pool_create_min_conns w) else None)"

definition free_connection_in_queue :: "nat \<Rightarrow> pool_world \<Rightarrow> pool_world option" where
  "free_connection_in_queue s w =
     (if iw_group w s = Some POOL then Some (w\<lparr>cp_handlers := filter (\<lambda>s'. s' \<noteq> s) (cp_handlers w)\<rparr>) else None)"

definition evd_connection_pool_unref_request :: "nat \<Rightarrow> pool_world \<Rightarrow> pool_world" where
  "evd_connection_pool_unref_request res w = w\<lparr>cp_completed := cp_completed w @ [(res, None)]\<rparr>"

primrec free_connections :: "nat list \<Rightarrow> pool_world \<Rightarrow> pool_world option" where
  "free_connections [] w = Some w"
| "free_connections (s # ss) w = Option.bind (free_connection_in_queue s w) (free_connections ss)"

definition evd_connection_pool_dispose :: "pool_world \<Rightarrow> pool_world option" where
  "evd_connection_pool_dispose w = do {
     w \<leftarrow> free_connections (cp_conns w) w;
     let w = w\<lparr>cp_conns := []\<rparr>;
     Some (fold evd_connection_pool_unref_request (cp_requests w) (w\<lparr>cp_requests := []\<rparr>))
   }"

definition evd_connection_pool_finalize :: "pool_world \<Rightarrow> pool_world" where
  "evd_connection_pool_finalize w = (remove_retry_source w)\<lparr>cp_alive := False\<rparr>"

definition on_group_destroyed :: "nat \<Rightarrow> pool_world \<Rightarrow> pool_world" where
  "on_group_destroyed s w = on_group_changed s None None (w\<lparr>iw_group := (iw_group w)(s := None)\<rparr>)"

text \<open>The group goes, and each of its streams is told; what one does concerns no other.\<close>

definition group_destroyed :: "nat \<Rightarrow> pool_world \<Rightarrow> pool_world" where
  "group_destroyed g w =
     w\<lparr>iw_group := (\<lambda>s. if iw_group w s = Some g then iw_group (on_group_destroyed s w) s else iw_group w s),
       iw_throttles := (\<lambda>s. if iw_group w s = Some g then iw_throttles (on_group_destroyed s w) s else iw_throttles w s)\<rparr>"

text \<open>A stream is disposed of.\<close>

definition evd_io_stream_dispose :: "nat \<Rightarrow> pool_world \<Rightarrow> pool_world option" where
  "evd_io_stream_dispose s w =
     (case iw_group w s of
        None \<Rightarrow> Some w
      | Some g \<Rightarrow> map_option fst (group_call (GroupRemove g s) (w\<lparr>iw_group := (iw_group w)(s := None)\<rparr>)))"

section \<open>Closed forms\<close>

lemma create_loop_result: "create_loop w = w\<lparr>cp_connecting_sockets := max (cp_connecting_sockets w)
    (cp_min_conns w - length (cp_conns w))\<rparr>"
proof (induction w rule: create_loop.induct)
  case (1 w)
  then show ?case
    by (subst create_loop.simps)
      (auto simp: total_sockets_def evd_connection_pool_create_new_socket_def max_def)
qed

lemma create_min_conns_result:
  "evd_connection_pool_create_min_conns w =
     w\<lparr>cp_retry_src_id := 0, cp_connecting_sockets := max (cp_connecting_sockets w)
        (cp_min_conns w - length (cp_conns w))\<rparr>"
  by (simp add: evd_connection_pool_create_min_conns_def create_loop_result)

text \<open>A group that is asked to remove a stream it does not have, or to add one it has, does nothing.\<close>

lemmas group_functions = evd_io_stream_group_add_def evd_io_stream_group_remove_def group_add_stream_def
  group_remove_stream_def evd_io_stream_group_add_internal_def evd_io_stream_group_remove_internal_def

lemma recursed_restored:
  assumes "\<not> iw_recursed w g" "iw_recursed v = iw_recursed w"
  shows "v\<lparr>iw_recursed := (iw_recursed w)(g := False)\<rparr> = v"
  using assms by (cases v) (simp add: fun_upd_idem)

lemma group_remove_detached:
  assumes "iw_group w s = None"
  shows "group_dispatch (Suc (Suc n)) (GroupRemove g s) w = Some (w, iw_recursed w g)"
  using assms by (simp add: group_functions evd_io_stream_set_group_def recursed_restored)

lemma group_add_member:
  assumes "iw_group w s = Some g"
  shows "group_dispatch (Suc (Suc n)) (GroupAdd g s) w = Some (w, iw_recursed w g)"
  using assms by (simp add: group_functions evd_io_stream_set_group_def recursed_restored)

definition moved :: "nat \<Rightarrow> nat option \<Rightarrow> pool_world \<Rightarrow> pool_world" where
  "moved s g w = on_group_changed s g (iw_group w s) (w\<lparr>iw_group := (iw_group w)(s := g)\<rparr>)"

text \<open>So setting the group of a stream only moves it: the functions of the groups' class are called in vain.\<close>

lemma set_group_result:
  "group_dispatch (Suc (Suc (Suc n))) (SetGroup s g) w =
    Some (if g = iw_group w s then (w, False) else (moved s g w, True))"
  using group_remove_detached [of "w\<lparr>iw_group := (iw_group w)(s := None)\<rparr>" s n]
    group_add_member [of "w\<lparr>iw_group := (iw_group w)(s := g)\<rparr>" s _ n]
  by (cases "iw_group w s"; cases g) (simp_all add: evd_io_stream_set_group_def moved_def Let_def del: group_dispatch.simps add: group_dispatch.simps(2) [of "Suc (Suc n)"])

lemma moved_fields [simp]:
  "iw_group (moved s g w) = (iw_group w)(s := g)"
  "iw_recursed (moved s g w) = iw_recursed w" "iw_connected (moved s g w) = iw_connected w"
  "iw_closed (moved s g w) = iw_closed w" "iw_tls_active (moved s g w) = iw_tls_active w"
  "cp_alive (moved s g w) = cp_alive w" "cp_min_conns (moved s g w) = cp_min_conns w"
  "cp_max_conns (moved s g w) = cp_max_conns w" "cp_conns (moved s g w) = cp_conns w"
  "cp_requests (moved s g w) = cp_requests w"
  "cp_connecting_sockets (moved s g w) = cp_connecting_sockets w"
  "cp_tls_autostart (moved s g w) = cp_tls_autostart w" "cp_retry_src_id (moved s g w) = cp_retry_src_id w"
  "cp_handlers (moved s g w) = cp_handlers w" "cp_tls_handshaking (moved s g w) = cp_tls_handshaking w"
  "cp_tls_done (moved s g w) = cp_tls_done w" "cp_sources (moved s g w) = cp_sources w"
  "cp_next_source (moved s g w) = cp_next_source w" "cp_idle (moved s g w) = cp_idle w"
  "cp_completed (moved s g w) = cp_completed w"
  by (simp_all add: moved_def on_group_changed_def Let_def)

lemma moved_recursed: "moved s g (w\<lparr>iw_recursed := r\<rparr>) = (moved s g w)\<lparr>iw_recursed := r\<rparr>"
  by (simp add: moved_def on_group_changed_def Let_def)

text \<open>What \<open>connection_available\<close> does inside \<open>group_add_stream\<close>, and what it does alone.\<close>

definition given :: "nat \<Rightarrow> pool_world \<Rightarrow> pool_world" where
  "given s w =
     (case cp_requests w of
        [] \<Rightarrow> w\<lparr>cp_handlers := cp_handlers w @ [s], cp_conns := cp_conns w @ [s]\<rparr>
      | r # rs \<Rightarrow> evd_connection_pool_create_min_conns (w\<lparr>cp_requests := rs, cp_idle := cp_idle w @ [(r, s)]\<rparr>))"

definition pool_removed :: "nat \<Rightarrow> pool_world \<Rightarrow> pool_world" where
  "pool_removed s w = (moved s None w)\<lparr>cp_handlers := filter (\<lambda>s'. s' \<noteq> s) (cp_handlers w),
     cp_conns := remove1 s (cp_conns w)\<rparr>"

definition pool_added :: "nat \<Rightarrow> pool_world \<Rightarrow> pool_world" where
  "pool_added s w =
     (let w = moved s (Some POOL) w
      in if cp_tls_autostart w \<and> \<not> iw_tls_active w s then connection_starttls s w else given s w)"

lemma group_call_steps: "group_call = group_dispatch (Suc (Suc (Suc (Suc (Suc (Suc 0))))))"
  by (simp only: group_call_def group_fuel_def eval_nat_numeral BitM.simps One_nat_def)

lemma group_call_set_group:
  "group_call (SetGroup s g) w = Some (if g = iw_group w s then (w, False) else (moved s g w, True))"
  unfolding group_call_steps by (rule set_group_result)

lemma pool_remove_result:
  assumes "\<not> iw_recursed w POOL" "iw_group w s = Some POOL"
  shows "group_call (GroupRemove POOL s) w = Some (pool_removed s w, True)"
  using assms unfolding group_call_steps group_dispatch.simps(2) [of "Suc (Suc (Suc (Suc (Suc 0))))"] group_call.case
  by (simp add: group_functions set_group_result moved_recursed pool_removed_def
      recursed_restored [of w POOL "pool_removed s w", unfolded pool_removed_def, simplified] del: group_dispatch.simps)

lemma pool_remove_other:
  assumes "iw_group w s = None"
  shows "group_call (GroupRemove g s) w = Some (w, iw_recursed w g)"
  using assms unfolding group_call_steps by (rule group_remove_detached)

lemma given_inside:
  assumes "iw_recursed w POOL"
  shows "connection_available (group_dispatch (Suc n)) s w = Some (given s w)"
  using assms
  by (simp add: connection_available_def given_def evd_connection_pool_finish_request_def
      evd_io_stream_group_remove_def split: list.split)

lemma given_recursed: "given s (w\<lparr>iw_recursed := r\<rparr>) = (given s w)\<lparr>iw_recursed := r\<rparr>"
  by (simp add: given_def create_min_conns_result split: list.split)

lemma starttls_recursed:
  "connection_starttls s (w\<lparr>iw_recursed := r\<rparr>) = (connection_starttls s w)\<lparr>iw_recursed := r\<rparr>"
  by (simp add: connection_starttls_def evd_connection_starttls_def)

lemma given_same_recursed [simp]: "iw_recursed (given s w) = iw_recursed w"
  by (simp add: given_def create_min_conns_result split: list.split)

lemma starttls_same_recursed [simp]: "iw_recursed (connection_starttls s w) = iw_recursed w"
  by (simp add: connection_starttls_def evd_connection_starttls_def)

lemma pool_add_result:
  assumes "\<not> iw_recursed w POOL" "iw_group w s \<noteq> Some POOL"
  shows "group_call (GroupAdd POOL s) w = Some (pool_added s w, True)"
  using assms unfolding group_call_steps group_dispatch.simps(2) [of "Suc (Suc (Suc (Suc (Suc 0))))"] group_call.case
  by (simp add: group_functions set_group_result moved_recursed pool_added_def recursed_restored
      given_inside given_recursed starttls_recursed Let_def del: group_dispatch.simps)

lemma pool_add_member:
  assumes "iw_group w s = Some POOL"
  shows "group_call (GroupAdd POOL s) w = Some (w, iw_recursed w POOL)"
  using assms unfolding group_call_steps by (rule group_add_member)

lemma connection_available_result:
  assumes "\<not> iw_recursed w POOL" "iw_group w s = Some POOL"
  shows "connection_available group_call s w =
    Some (case cp_requests w of
        [] \<Rightarrow> given s w
      | r # rs \<Rightarrow> evd_connection_pool_create_min_conns
          (pool_removed s (w\<lparr>cp_requests := rs, cp_idle := cp_idle w @ [(r, s)]\<rparr>)))"
  using assms
  by (simp add: connection_available_def given_def evd_connection_pool_finish_request_def pool_remove_result
      split: list.split)

section \<open>Events\<close>

text \<open>
  What happens to a pool and its streams: requests and recycling, a socket that connects or fails, a
  connection that hangs up or is closed, the end of a TLS handshake and the call of the main loop that
  follows, TLS switched on and off, the retry source, the completion of a request by the main loop, a
  stream that is put in another group, a plain group that is destroyed and the destruction of the pool.
\<close>

datatype pool_event =
    Get nat
  | Recycle nat
  | Connect "nat option"
  | HangUp nat
  | Close nat
  | Handshake nat bool
  | TlsStarted
  | Autostart bool
  | Retry nat
  | Complete
  | PutInGroup nat "nat option"
  | GroupDestroyed nat
  | Destroy

fun pool_step :: "pool_event \<Rightarrow> pool_world \<Rightarrow> pool_world option" where
  "pool_step (Get res) w = evd_connection_pool_get_connection res w"
| "pool_step (Recycle s) w = map_option fst (evd_connection_pool_recycle s w)"
| "pool_step (Connect None) w = evd_connection_pool_socket_on_connect None w"
| "pool_step (Connect (Some s)) w =
     evd_connection_pool_socket_on_connect (Some s) (w\<lparr>iw_connected := (iw_connected w)(s := True)\<rparr>)"
| "pool_step (HangUp s) w = Some (evd_connection_close_in_idle s w)"
| "pool_step (Close s) w = g_io_stream_close s w"
| "pool_step (Handshake s ok) w = evd_connection_tls_handshake s ok w"
| "pool_step TlsStarted w =
     (case cp_tls_done w of
        [] \<Rightarrow> Some w
      | (s, ok) # calls \<Rightarrow> connection_on_tls_started s ok (w\<lparr>cp_tls_done := calls\<rparr>))"
| "pool_step (Autostart on) w = Some (evd_connection_pool_set_tls_autostart on w)"
| "pool_step (Retry src) w = retry_source src w"
| "pool_step Complete w =
     (case cp_idle w of
        [] \<Rightarrow> Some w
      | (res, s) # idle \<Rightarrow> Some (w\<lparr>cp_idle := idle, cp_completed := cp_completed w @ [(res, Some s)]\<rparr>))"
| "pool_step (PutInGroup s g) w = map_option fst (group_call (SetGroup s g) w)"
| "pool_step (GroupDestroyed g) w = Some (group_destroyed g w)"
| "pool_step Destroy w =
     map_option (\<lambda>w. evd_connection_pool_finalize (group_destroyed POOL w)) (evd_connection_pool_dispose w)"

text \<open>The connections the pool is busy with.\<close>

definition starting_tls :: "pool_world \<Rightarrow> nat list" where
  "starting_tls w = cp_tls_handshaking w @ map fst (cp_tls_done w)"

text \<open>
  When an event can happen: a socket connects if one is connecting, with a stream that is in no group;
  handshakes and sources are those there are; sockets, handshakes and requests under way keep the pool
  alive, and its functions are called while it is.
\<close>

fun pool_possible :: "pool_event \<Rightarrow> pool_world \<Rightarrow> bool" where
  "pool_possible (Get res) w \<longleftrightarrow> cp_alive w"
| "pool_possible (Recycle s) w \<longleftrightarrow> cp_alive w"
| "pool_possible (Connect None) w \<longleftrightarrow> cp_alive w \<and> cp_connecting_sockets w > 0"
| "pool_possible (Connect (Some s)) w \<longleftrightarrow>
     cp_alive w \<and> cp_connecting_sockets w > 0 \<and> iw_group w s = None \<and> \<not> iw_closed w s"
| "pool_possible (HangUp s) w \<longleftrightarrow> True"
| "pool_possible (Close s) w \<longleftrightarrow> True"
| "pool_possible (Handshake s ok) w \<longleftrightarrow> s \<in> set (cp_tls_handshaking w)"
| "pool_possible TlsStarted w \<longleftrightarrow> True"
| "pool_possible (Autostart on) w \<longleftrightarrow> cp_alive w"
| "pool_possible (Retry src) w \<longleftrightarrow> src \<in> set (cp_sources w)"
| "pool_possible Complete w \<longleftrightarrow> True"
| "pool_possible (PutInGroup s g) w \<longleftrightarrow> (g = Some POOL \<longrightarrow> cp_alive w)"
| "pool_possible (GroupDestroyed g) w \<longleftrightarrow> g \<noteq> POOL"
| "pool_possible Destroy w \<longleftrightarrow>
     cp_alive w \<and> cp_connecting_sockets w = 0 \<and> starting_tls w = [] \<and> cp_requests w = [] \<and> cp_idle w = []"

text \<open>
  What the code does not check and relies on: a connection is not closed between the end of its
  handshake and the call that follows (lemma \<open>pool_offers_closed_connection\<close>), a connection that the pool
  holds is not put in another group, and the retry source does not fire after the pool has gone (lemma
  \<open>pool_retry_use_after_free\<close>). Runs of the pool leave such events out.
\<close>

definition pool_spared :: "pool_event \<Rightarrow> pool_world \<Rightarrow> bool" where
  "pool_spared e w \<longleftrightarrow> (case e of
      Close s \<Rightarrow> (s, True) \<notin> set (cp_tls_done w)
    | PutInGroup s g \<Rightarrow> s \<notin> set (cp_conns w) \<union> set (starting_tls w)
    | Retry src \<Rightarrow> cp_alive w
    | _ \<Rightarrow> True)"

definition pool_enabled :: "pool_event \<Rightarrow> pool_world \<Rightarrow> bool" where
  "pool_enabled e w \<longleftrightarrow> pool_possible e w \<and> pool_spared e w"

lemmas pool_enabled_simps [simp] =
  pool_enabled_def [of "Get res" for res] pool_enabled_def [of "Recycle s" for s] pool_enabled_def [of "Connect None"]
  pool_enabled_def [of "Connect (Some s)" for s] pool_enabled_def [of "HangUp s" for s] pool_enabled_def [of "Close s" for s]
  pool_enabled_def [of "Handshake s ok" for s ok] pool_enabled_def [of TlsStarted] pool_enabled_def [of "Autostart on" for on]
  pool_enabled_def [of "Retry src" for src] pool_enabled_def [of Complete] pool_enabled_def [of "PutInGroup s g" for s g]
  pool_enabled_def [of "GroupDestroyed g" for g] pool_enabled_def [of Destroy]

lemma pool_spared_simps [simp]:
  "pool_spared (Get res) w" "pool_spared (Recycle s) w" "pool_spared (Connect c) w" "pool_spared (HangUp s) w"
  "pool_spared (Handshake s ok) w" "pool_spared TlsStarted w" "pool_spared (Autostart on) w" "pool_spared Complete w"
  "pool_spared (GroupDestroyed h) w" "pool_spared Destroy w"
  "pool_spared (Close s) w \<longleftrightarrow> (s, True) \<notin> set (cp_tls_done w)" "pool_spared (Retry src) w \<longleftrightarrow> cp_alive w"
  "pool_spared (PutInGroup s g) w \<longleftrightarrow> s \<notin> set (cp_conns w) \<and> s \<notin> set (starting_tls w)"
  by (simp_all add: pool_spared_def)

definition pool_try :: "pool_world \<Rightarrow> pool_event \<Rightarrow> pool_world option" where
  "pool_try w e = (if pool_enabled e w then pool_step e w else Some w)"

text \<open>The pool, made in a world without streams.\<close>

definition no_streams :: pool_world where
  "no_streams = \<lparr>iw_group = (\<lambda>_. None), iw_recursed = (\<lambda>_. False), iw_throttles = (\<lambda>_. []),
     iw_connected = (\<lambda>_. False), iw_closed = (\<lambda>_. False), iw_tls_active = (\<lambda>_. False), cp_alive = False,
     cp_min_conns = 0, cp_max_conns = 0, cp_conns = [], cp_requests = [], cp_connecting_sockets = 0,
     cp_tls_autostart = False, cp_retry_src_id = 0, cp_handlers = [], cp_tls_handshaking = [],
     cp_tls_done = [], cp_sources = [], cp_next_source = 1, cp_idle = [], cp_completed = []\<rparr>"

definition new_pool :: pool_world where
  "new_pool = evd_connection_pool_constructed (evd_connection_pool_init no_streams)"

section \<open>Invariant\<close>

text \<open>
  A connection that the pool holds is held once, is in the group of the pool, is open and, when free,
  watched; only such connections are watched. Requests wait only when no connection is free. A retry
  source that is known is armed.
\<close>

definition held :: "pool_world \<Rightarrow> nat \<Rightarrow> bool" where
  "held w s \<longleftrightarrow> iw_group w s = Some POOL \<and> \<not> iw_closed w s"

definition pool_holds :: "pool_world \<Rightarrow> bool" where
  "pool_holds w \<longleftrightarrow>
     distinct (cp_conns w @ starting_tls w) \<and>
     (\<forall>s \<in> set (cp_conns w). held w s \<and> s \<in> set (cp_handlers w)) \<and>
     (\<forall>s \<in> set (cp_tls_handshaking w). held w s) \<and>
     (\<forall>c \<in> set (cp_tls_done w). held w (fst c) \<or> (\<not> snd c \<and> iw_closed w (fst c))) \<and>
     (\<forall>s \<in> set (cp_handlers w). s \<in> set (cp_conns w @ starting_tls w) \<and> held w s)"

definition pool_inv :: "pool_world \<Rightarrow> bool" where
  "pool_inv w \<longleftrightarrow>
     (\<forall>g. \<not> iw_recursed w g) \<and> cp_min_conns w = DEFAULT_MIN_CONNS \<and> cp_max_conns w = DEFAULT_MAX_CONNS \<and>
     (cp_alive w \<longrightarrow> pool_holds w) \<and>
     (\<not> cp_alive w \<longrightarrow> cp_conns w = [] \<and> cp_handlers w = [] \<and> starting_tls w = [] \<and> cp_requests w = []) \<and>
     (cp_requests w = [] \<or> cp_conns w = [])"

lemma create_min_fields [simp]:
  "iw_group (evd_connection_pool_create_min_conns w) = iw_group w"
  "iw_recursed (evd_connection_pool_create_min_conns w) = iw_recursed w"
  "iw_throttles (evd_connection_pool_create_min_conns w) = iw_throttles w"
  "iw_connected (evd_connection_pool_create_min_conns w) = iw_connected w"
  "iw_closed (evd_connection_pool_create_min_conns w) = iw_closed w"
  "iw_tls_active (evd_connection_pool_create_min_conns w) = iw_tls_active w"
  "cp_alive (evd_connection_pool_create_min_conns w) = cp_alive w"
  "cp_min_conns (evd_connection_pool_create_min_conns w) = cp_min_conns w"
  "cp_max_conns (evd_connection_pool_create_min_conns w) = cp_max_conns w"
  "cp_conns (evd_connection_pool_create_min_conns w) = cp_conns w"
  "cp_requests (evd_connection_pool_create_min_conns w) = cp_requests w"
  "cp_tls_autostart (evd_connection_pool_create_min_conns w) = cp_tls_autostart w"
  "cp_handlers (evd_connection_pool_create_min_conns w) = cp_handlers w"
  "cp_tls_handshaking (evd_connection_pool_create_min_conns w) = cp_tls_handshaking w"
  "cp_tls_done (evd_connection_pool_create_min_conns w) = cp_tls_done w"
  "cp_sources (evd_connection_pool_create_min_conns w) = cp_sources w"
  "cp_next_source (evd_connection_pool_create_min_conns w) = cp_next_source w"
  "cp_idle (evd_connection_pool_create_min_conns w) = cp_idle w"
  "cp_completed (evd_connection_pool_create_min_conns w) = cp_completed w"
  by (simp_all add: create_min_conns_result)

lemma create_min_inv [simp]: "pool_inv (evd_connection_pool_create_min_conns w) = pool_inv w"
  by (simp add: pool_inv_def pool_holds_def held_def starting_tls_def)

lemma pool_inv_recursed: "pool_inv w \<Longrightarrow> \<not> iw_recursed w g"
  by (simp add: pool_inv_def)

lemma get_inv:
  assumes "pool_inv w" "cp_alive w"
  shows "\<exists>w'. evd_connection_pool_get_connection res w = Some w' \<and> pool_inv w'"
proof (cases "cp_conns w")
  case Nil
  then show ?thesis using assms
    by (simp add: evd_connection_pool_get_connection_def pool_inv_def pool_holds_def held_def starting_tls_def)
next
  case (Cons conn conns)
  with assms have g: "iw_group w conn = Some POOL" "\<not> iw_recursed w POOL" "cp_requests w = []"
    by (auto simp: pool_inv_def pool_holds_def held_def)
  then show ?thesis using assms Cons
    by (simp add: evd_connection_pool_get_connection_def evd_connection_pool_finish_request_def
        pool_remove_result pool_removed_def)
      (auto simp: pool_inv_def pool_holds_def held_def starting_tls_def)
qed

text \<open>A connection comes to the pool.\<close>

lemma starttls_inv:
  assumes "pool_inv w" "cp_alive w" "iw_group w s = Some POOL" "\<not> iw_closed w s"
    and "s \<notin> set (cp_conns w @ starting_tls w)"
  shows "pool_inv (connection_starttls s w)"
  using assms
  by (auto simp: pool_inv_def pool_holds_def held_def connection_starttls_def evd_connection_starttls_def
      starting_tls_def)

lemma given_inv:
  assumes "pool_inv w" "cp_alive w" "iw_group w s = Some POOL" "\<not> iw_closed w s"
    and "s \<notin> set (cp_conns w @ starting_tls w)"
  shows "pool_inv (given s w)"
  using assms
  by (auto simp: given_def split: list.split)
    (auto simp: pool_inv_def pool_holds_def held_def starting_tls_def)

lemma pool_fresh:
  assumes "pool_inv w" "cp_alive w" "iw_group w s \<noteq> Some POOL" "\<not> iw_closed w s"
  shows "s \<notin> set (cp_conns w @ starting_tls w)" "s \<notin> set (cp_handlers w)"
  using assms by (force simp: pool_inv_def pool_holds_def held_def starting_tls_def)+

lemma moved_in_inv:
  assumes "pool_inv w" "s \<notin> set (cp_conns w @ starting_tls w)"
  shows "pool_inv (moved s g w)"
proof (cases "cp_alive w")
  case True
  with assms show ?thesis
    by (auto simp: pool_inv_def pool_holds_def held_def starting_tls_def)
next
  case False
  with assms show ?thesis by (auto simp: pool_inv_def starting_tls_def)
qed

lemma pool_added_inv:
  assumes "pool_inv w" "cp_alive w" "iw_group w s \<noteq> Some POOL" "\<not> iw_closed w s"
  shows "pool_inv (pool_added s w)"
proof -
  note fresh = pool_fresh [OF assms]
  have "pool_inv (moved s (Some POOL) w)" using assms(1) fresh(1) by (rule moved_in_inv)
  then show ?thesis
    using assms fresh by (auto simp: pool_added_def Let_def starting_tls_def intro!: starttls_inv given_inv)
qed

text \<open>A stream is closed: it leaves the pool, its group and the handshakes.\<close>

definition closed_stream :: "nat \<Rightarrow> pool_world \<Rightarrow> pool_world" where
  "closed_stream s w =
     (let w0 = w\<lparr>iw_connected := (iw_connected w)(s := False),
            cp_tls_handshaking := remove1 s (cp_tls_handshaking w), iw_tls_active := (iw_tls_active w)(s := False)\<rparr>;
          w1 = (if s \<in> set (cp_handlers w) then evd_connection_pool_create_min_conns (pool_removed s w0)
                else if iw_group w s = None then w0 else moved s None w0)
      in w1\<lparr>iw_closed := (iw_closed w)(s := True)\<rparr>)"

lemma close_result:
  assumes "\<not> iw_recursed w POOL" "s \<in> set (cp_handlers w) \<longrightarrow> iw_group w s = Some POOL"
  shows "g_io_stream_close s w = Some (if iw_closed w s then w else closed_stream s w)"
  using assms
  by (auto simp: g_io_stream_close_def evd_connection_close_internal_def io_stream_on_close_def
      connection_on_close_def pool_remove_result group_call_set_group closed_stream_def Let_def
      pool_removed_def)

lemma close_result_inv:
  assumes "pool_inv w"
  shows "g_io_stream_close s w = Some (if iw_closed w s then w else closed_stream s w)"
  using assms by (intro close_result; cases "cp_alive w") (auto simp: pool_inv_def pool_holds_def held_def)

lemma closed_stream_fields:
  "iw_group (closed_stream s w) = (iw_group w)(s := None)"
  "iw_recursed (closed_stream s w) = iw_recursed w"
  "iw_closed (closed_stream s w) = (iw_closed w)(s := True)"
  "cp_alive (closed_stream s w) = cp_alive w"
  "cp_min_conns (closed_stream s w) = cp_min_conns w"
  "cp_max_conns (closed_stream s w) = cp_max_conns w"
  "cp_conns (closed_stream s w) = (if s \<in> set (cp_handlers w) then remove1 s (cp_conns w) else cp_conns w)"
  "cp_requests (closed_stream s w) = cp_requests w"
  "cp_tls_autostart (closed_stream s w) = cp_tls_autostart w"
  "cp_handlers (closed_stream s w) = filter (\<lambda>s'. s' \<noteq> s) (cp_handlers w)"
  "cp_tls_handshaking (closed_stream s w) = remove1 s (cp_tls_handshaking w)"
  "cp_tls_done (closed_stream s w) = cp_tls_done w"
  "cp_sources (closed_stream s w) = cp_sources w"
  "cp_idle (closed_stream s w) = cp_idle w"
  "cp_completed (closed_stream s w) = cp_completed w"
  by (auto simp: closed_stream_def Let_def pool_removed_def fun_upd_idem intro!: filter_True [symmetric])

lemma closed_stream_inv:
  assumes "pool_inv w" "(s, True) \<notin> set (cp_tls_done w)"
  shows "pool_inv (closed_stream s w)"
proof (cases "cp_alive w")
  case True
  have "\<not> snd c" if "c \<in> set (cp_tls_done w)" "fst c = s" for c using that assms(2) by (metis (full_types) prod.collapse)
  then show ?thesis using assms(1) True
    by (auto simp: pool_inv_def pool_holds_def held_def starting_tls_def closed_stream_fields distinct_remove1)
next
  case False
  then show ?thesis using assms(1)
    by (auto simp: pool_inv_def starting_tls_def closed_stream_fields)
qed

text \<open>TLS.\<close>

definition handshake_ended :: "nat \<Rightarrow> bool \<Rightarrow> pool_world \<Rightarrow> pool_world" where
  "handshake_ended s ok w =
     w\<lparr>cp_tls_handshaking := remove1 s (cp_tls_handshaking w), cp_tls_done := cp_tls_done w @ [(s, ok)]\<rparr>"

lemma handshake_ended_inv:
  assumes "pool_inv w" "s \<in> set (cp_tls_handshaking w)"
  shows "pool_inv (handshake_ended s ok w)"
proof -
  have "cp_alive w" using assms by (auto simp: pool_inv_def starting_tls_def)
  with assms show ?thesis
    by (auto simp: pool_inv_def pool_holds_def held_def starting_tls_def handshake_ended_def)
qed

lemma handshake_result:
  assumes "pool_inv w" "s \<in> set (cp_tls_handshaking w)"
  shows "evd_connection_tls_handshake s ok w =
    Some (if ok then handshake_ended s ok w else closed_stream s (handshake_ended s ok w))"
proof -
  have "\<not> iw_closed w s" using assms by (cases "cp_alive w") (auto simp: pool_inv_def pool_holds_def held_def starting_tls_def)
  with close_result_inv [OF handshake_ended_inv [OF assms]] show ?thesis
    by (simp add: evd_connection_tls_handshake_def handshake_ended_def Let_def)
qed

lemma handshake_inv:
  assumes "pool_inv w" "s \<in> set (cp_tls_handshaking w)"
  shows "\<exists>w'. evd_connection_tls_handshake s ok w = Some w' \<and> pool_inv w'"
proof -
  have "s \<notin> fst ` set (cp_tls_done w)" using assms
    by (cases "cp_alive w") (auto simp: pool_inv_def pool_holds_def starting_tls_def)
  then have "(s, True) \<notin> set (cp_tls_done (handshake_ended s False w))" by (force simp: handshake_ended_def)
  with handshake_ended_inv [OF assms] closed_stream_inv show ?thesis by (simp add: handshake_result [OF assms])
qed

lemma starttls_fields [simp]:
  "iw_group (connection_starttls s w) = iw_group w" "iw_closed (connection_starttls s w) = iw_closed w"
  "iw_throttles (connection_starttls s w) = iw_throttles w"
  "cp_alive (connection_starttls s w) = cp_alive w" "cp_conns (connection_starttls s w) = cp_conns w"
  "cp_requests (connection_starttls s w) = cp_requests w" "cp_idle (connection_starttls s w) = cp_idle w"
  "cp_completed (connection_starttls s w) = cp_completed w"
  "cp_connecting_sockets (connection_starttls s w) = cp_connecting_sockets w"
  "cp_sources (connection_starttls s w) = cp_sources w"
  "cp_handlers (connection_starttls s w) = cp_handlers w"
  "cp_retry_src_id (connection_starttls s w) = cp_retry_src_id w"
  "cp_tls_autostart (connection_starttls s w) = cp_tls_autostart w"
  "set (starting_tls (connection_starttls s w)) = insert s (set (starting_tls w))"
  by (auto simp: connection_starttls_def evd_connection_starttls_def starting_tls_def)

lemma done_facts:
  assumes "pool_inv w" "cp_tls_done w = (s, ok) # calls"
  shows "cp_alive w" "s \<notin> set (cp_conns w) \<union> set (cp_tls_handshaking w) \<union> fst ` set calls"
    "s \<in> set (cp_handlers w) \<Longrightarrow> held w s" "\<not> iw_recursed w POOL" "held w s \<or> (\<not> ok \<and> iw_closed w s)"
proof -
  show "cp_alive w" using assms by (auto simp: pool_inv_def starting_tls_def)
  with assms show "s \<notin> set (cp_conns w) \<union> set (cp_tls_handshaking w) \<union> fst ` set calls"
    "s \<in> set (cp_handlers w) \<Longrightarrow> held w s" "\<not> iw_recursed w POOL" "held w s \<or> (\<not> ok \<and> iw_closed w s)"
    by (auto simp: pool_inv_def pool_holds_def starting_tls_def)
qed

text \<open>What the call after a handshake does.\<close>

definition tls_answered :: "nat \<Rightarrow> bool \<Rightarrow> pool_world \<Rightarrow> pool_world" where
  "tls_answered s ok w =
     (if \<not> ok then (if iw_closed w s then w else closed_stream s w)
      else case cp_requests w of
          [] \<Rightarrow> given s w
        | r # rs \<Rightarrow> evd_connection_pool_create_min_conns
            (pool_removed s (w\<lparr>cp_requests := rs, cp_idle := cp_idle w @ [(r, s)]\<rparr>)))"

lemma tls_started_result:
  assumes "pool_inv w" "cp_tls_done w = (s, ok) # calls"
  shows "connection_on_tls_started s ok (w\<lparr>cp_tls_done := calls\<rparr>) =
    Some (tls_answered s ok (w\<lparr>cp_tls_done := calls\<rparr>))"
  using done_facts [OF assms]
  by (cases ok) (auto simp: connection_on_tls_started_def connection_available_result close_result held_def
      tls_answered_def split: list.split)

lemma tls_answered_inv:
  assumes "pool_inv w" "cp_tls_done w = (s, ok) # calls"
  shows "pool_inv (tls_answered s ok (w\<lparr>cp_tls_done := calls\<rparr>))"
proof -
  note d = done_facts [OF assms]
  show ?thesis
  proof (cases ok)
    case True
    then show ?thesis using assms d
      by (cases "cp_requests w")
        (auto simp: tls_answered_def given_def pool_removed_def pool_inv_def pool_holds_def held_def starting_tls_def)
  next
    case False
    then show ?thesis using assms d
      by (auto simp: tls_answered_def)
        (auto simp: pool_inv_def pool_holds_def held_def starting_tls_def closed_stream_fields remove1_idem)
  qed
qed

lemma tls_started_inv:
  assumes "pool_inv w" "cp_tls_done w = (s, ok) # calls"
  shows "\<exists>w'. connection_on_tls_started s ok (w\<lparr>cp_tls_done := calls\<rparr>) = Some w' \<and> pool_inv w'"
  using tls_started_result [OF assms] tls_answered_inv [OF assms] by blast

lemma starttls_free_inv:
  assumes i: "pool_inv (w\<lparr>cp_conns := s # ys\<rparr>)" and a: "cp_alive w"
  shows "pool_inv ((connection_starttls s w)\<lparr>cp_conns := ys\<rparr>)"
proof -
  have "pool_inv (w\<lparr>iw_tls_active := t, cp_tls_handshaking := cp_tls_handshaking w @ [s], cp_conns := ys\<rparr>)"
    "pool_inv (w\<lparr>cp_tls_done := cp_tls_done w @ [(s, False)], cp_conns := ys\<rparr>)" for t
    using i a unfolding pool_inv_def pool_holds_def held_def starting_tls_def by force+
  then show ?thesis by (simp add: connection_starttls_def evd_connection_starttls_def)
qed

lemma autostart_fold_inv:
  assumes "pool_inv w" "cp_alive w" "cp_conns w = conns"
  shows "pool_inv (fold connection_starttls conns (w\<lparr>cp_conns := []\<rparr>))"
proof -
  have "pool_inv (fold connection_starttls xs (w\<lparr>cp_conns := []\<rparr>)\<lparr>cp_conns := ys\<rparr>)" if "conns = xs @ ys" for xs ys
    using that
  proof (induction xs arbitrary: ys rule: rev_induct)
    case Nil
    with assms(3) have "w\<lparr>cp_conns := ys\<rparr> = w" by (cases w) simp
    with assms(1) show ?case by simp
  next
    case (snoc s xs)
    let ?w = "fold connection_starttls xs (w\<lparr>cp_conns := []\<rparr>)"
    have "pool_inv (?w\<lparr>cp_conns := s # ys\<rparr>)" using snoc by simp
    moreover have "cp_alive ?w" using assms(2) by (induction xs rule: rev_induct) simp_all
    ultimately show ?case using starttls_free_inv [where w = ?w and s = s and ys = ys] by simp
  qed
  from this [of conns "[]"] have "pool_inv (fold connection_starttls conns (w\<lparr>cp_conns := []\<rparr>)\<lparr>cp_conns := []\<rparr>)"
    by simp
  moreover have "cp_conns (fold connection_starttls conns (w\<lparr>cp_conns := []\<rparr>)) = []"
    by (induction conns rule: rev_induct) simp_all
  ultimately show ?thesis by (simp add: pool_inv_def pool_holds_def held_def starting_tls_def)
qed

lemma autostart_inv:
  assumes "pool_inv w" "cp_alive w"
  shows "pool_inv (evd_connection_pool_set_tls_autostart on w)"
proof -
  have "pool_inv (w\<lparr>cp_tls_autostart := on\<rparr>)"
    using assms by (simp add: pool_inv_def pool_holds_def held_def starting_tls_def)
  then show ?thesis
    using autostart_fold_inv [of "w\<lparr>cp_tls_autostart := on\<rparr>" "cp_conns w"] assms(2)
    by (auto simp: evd_connection_pool_set_tls_autostart_def Let_def)
qed

text \<open>The end of the pool.\<close>

lemma free_connections_result:
  assumes "\<forall>s \<in> set conns. iw_group w s = Some POOL"
  shows "free_connections conns w = Some (w\<lparr>cp_handlers := filter (\<lambda>s. s \<notin> set conns) (cp_handlers w)\<rparr>)"
  using assms
  by (induction conns arbitrary: w) (auto simp: free_connection_in_queue_def intro: filter_cong)

lemma unref_requests_result:
  "fold evd_connection_pool_unref_request rs w = w\<lparr>cp_completed := cp_completed w @ map (\<lambda>r. (r, None)) rs\<rparr>"
  by (induction rs arbitrary: w) (simp_all add: evd_connection_pool_unref_request_def)

lemma dispose_result:
  assumes "pool_inv w" "cp_alive w" "starting_tls w = []"
  shows "evd_connection_pool_dispose w =
    Some (w\<lparr>cp_handlers := [], cp_conns := [], cp_requests := [],
            cp_completed := cp_completed w @ map (\<lambda>r. (r, None)) (cp_requests w)\<rparr>)"
proof -
  have "\<forall>s \<in> set (cp_conns w). iw_group w s = Some POOL" "filter (\<lambda>s. s \<notin> set (cp_conns w)) (cp_handlers w) = []"
    using assms by (auto simp: pool_inv_def pool_holds_def held_def filter_empty_conv)
  then show ?thesis by (simp add: evd_connection_pool_dispose_def free_connections_result unref_requests_result)
qed

lemma finalize_fields [simp]:
  "iw_group (remove_retry_source w) = iw_group w" "iw_recursed (remove_retry_source w) = iw_recursed w"
  "iw_throttles (remove_retry_source w) = iw_throttles w" "iw_closed (remove_retry_source w) = iw_closed w"
  "cp_alive (remove_retry_source w) = cp_alive w" "cp_min_conns (remove_retry_source w) = cp_min_conns w"
  "cp_max_conns (remove_retry_source w) = cp_max_conns w" "cp_conns (remove_retry_source w) = cp_conns w"
  "cp_requests (remove_retry_source w) = cp_requests w" "cp_handlers (remove_retry_source w) = cp_handlers w"
  "cp_connecting_sockets (remove_retry_source w) = cp_connecting_sockets w"
  "cp_tls_autostart (remove_retry_source w) = cp_tls_autostart w"
  "cp_tls_handshaking (remove_retry_source w) = cp_tls_handshaking w"
  "cp_tls_done (remove_retry_source w) = cp_tls_done w" "cp_idle (remove_retry_source w) = cp_idle w"
  "cp_completed (remove_retry_source w) = cp_completed w"
  by (simp_all add: remove_retry_source_def)

lemma remove_source_inv: "pool_inv (remove_retry_source w) = pool_inv w"
  by (simp add: pool_inv_def pool_holds_def held_def starting_tls_def)

lemma group_destroyed_fields [simp]:
  "iw_recursed (group_destroyed g w) = iw_recursed w" "iw_closed (group_destroyed g w) = iw_closed w"
  "cp_alive (group_destroyed g w) = cp_alive w" "cp_min_conns (group_destroyed g w) = cp_min_conns w"
  "cp_max_conns (group_destroyed g w) = cp_max_conns w" "cp_conns (group_destroyed g w) = cp_conns w"
  "cp_requests (group_destroyed g w) = cp_requests w" "cp_handlers (group_destroyed g w) = cp_handlers w"
  "cp_connecting_sockets (group_destroyed g w) = cp_connecting_sockets w"
  "cp_tls_handshaking (group_destroyed g w) = cp_tls_handshaking w"
  "cp_tls_autostart (group_destroyed g w) = cp_tls_autostart w"
  "cp_tls_done (group_destroyed g w) = cp_tls_done w" "cp_idle (group_destroyed g w) = cp_idle w"
  "cp_completed (group_destroyed g w) = cp_completed w" "cp_sources (group_destroyed g w) = cp_sources w"
  "iw_group (group_destroyed g w) s = (if iw_group w s = Some g then None else iw_group w s)"
  by (simp_all add: group_destroyed_def on_group_destroyed_def on_group_changed_def)

lemma group_destroyed_inv: "pool_inv w \<Longrightarrow> g \<noteq> POOL \<Longrightarrow> pool_inv (group_destroyed g w)"
  by (auto simp: pool_inv_def pool_holds_def held_def starting_tls_def)

lemma destroy_inv:
  assumes "pool_inv w" "cp_alive w" "starting_tls w = []"
  shows "\<exists>w'. pool_step Destroy w = Some w' \<and> pool_inv w'"
  using assms
  by (simp add: dispose_result evd_connection_pool_finalize_def) (simp add: pool_inv_def starting_tls_def)

section \<open>All events\<close>

definition socket_gone :: "nat \<Rightarrow> pool_world \<Rightarrow> pool_world" where
  "socket_gone s w = remove_retry_source (w\<lparr>iw_connected := (iw_connected w)(s := True),
     cp_connecting_sockets := cp_connecting_sockets w - Suc 0\<rparr>)"

lemma socket_gone_inv: "pool_inv w \<Longrightarrow> pool_inv (socket_gone s w)"
  unfolding socket_gone_def remove_source_inv by (simp add: pool_inv_def pool_holds_def held_def starting_tls_def)

lemma connect_result:
  assumes "pool_inv w" "pool_enabled (Connect (Some s)) w"
  shows "pool_step (Connect (Some s)) w = Some (pool_added s (socket_gone s w))"
  using assms pool_add_result [of "socket_gone s w" s] pool_inv_recursed [of w POOL]
  by (simp add: evd_connection_pool_socket_on_connect_def Let_def socket_gone_def)

lemma connect_inv:
  assumes "pool_inv w" "pool_enabled (Connect c) w"
  shows "\<exists>w'. pool_step (Connect c) w = Some w' \<and> pool_inv w'"
proof (cases c)
  case None
  then show ?thesis using assms
    by (simp add: evd_connection_pool_socket_on_connect_def pool_inv_def pool_holds_def held_def starting_tls_def)
next
  case (Some s)
  have "pool_inv (pool_added s (socket_gone s w))"
    using assms Some by (intro pool_added_inv socket_gone_inv) (auto simp: socket_gone_def)
  with connect_result [of w s] assms Some show ?thesis by blast
qed

lemma recycle_inv:
  assumes "pool_inv w" "cp_alive w"
  shows "\<exists>w'. pool_step (Recycle s) w = Some w' \<and> pool_inv w'"
  using assms pool_add_result [of w s] pool_add_member [of w s] pool_added_inv [of w s] pool_inv_recursed [of w]
  by (cases "iw_group w s = Some POOL") (auto simp: evd_connection_pool_recycle_def)

lemma pool_step_inv:
  assumes "pool_inv w" "pool_enabled e w"
  shows "\<exists>w'. pool_step e w = Some w' \<and> pool_inv w'"
proof (cases e)
  case (Get res)
  with assms get_inv show ?thesis by simp
next
  case (Recycle s)
  with assms recycle_inv show ?thesis by simp
next
  case (Connect c)
  with assms connect_inv show ?thesis by blast
next
  case (HangUp s)
  with assms show ?thesis
    by (simp add: evd_connection_close_in_idle_def pool_inv_def pool_holds_def held_def starting_tls_def)
next
  case (Close s)
  with assms close_result_inv closed_stream_inv show ?thesis by simp
next
  case (Handshake s ok)
  with assms handshake_inv show ?thesis by simp
next
  case TlsStarted
  with assms tls_started_inv show ?thesis by (cases "cp_tls_done w") auto
next
  case (Autostart on)
  with assms autostart_inv show ?thesis by simp
next
  case (Retry src)
  with assms show ?thesis
    by (simp add: retry_source_def Let_def) (simp add: pool_inv_def pool_holds_def held_def starting_tls_def)
next
  case Complete
  with assms show ?thesis
    by (cases "cp_idle w") (auto simp: pool_inv_def pool_holds_def held_def starting_tls_def)
next
  case (PutInGroup s g)
  with assms moved_in_inv show ?thesis by (auto simp: group_call_set_group)
next
  case (GroupDestroyed g)
  with assms group_destroyed_inv show ?thesis by simp
next
  case Destroy
  with assms destroy_inv show ?thesis by simp
qed

interpretation pool: invariant_machine pool_try pool_inv "\<lambda>_. True"
  by unfold_locales (use pool_step_inv in \<open>auto simp: pool_try_def\<close>)

lemma new_pool_result: "new_pool = no_streams\<lparr>cp_alive := True, cp_min_conns := DEFAULT_MIN_CONNS,
    cp_max_conns := DEFAULT_MAX_CONNS, cp_connecting_sockets := 1\<rparr>"
  by (simp add: new_pool_def evd_connection_pool_constructed_def create_min_conns_result
      evd_connection_pool_init_def no_streams_def DEFAULT_MIN_CONNS_def fun_upd_idem)

lemma new_pool_inv: "pool_inv new_pool"
  by (simp add: new_pool_result no_streams_def pool_inv_def pool_holds_def starting_tls_def)

lemma pool_runs: "\<exists>w. run_ops pool_try new_pool es = Some w \<and> pool_inv w"
  using pool.run_ops_defined [OF new_pool_inv] by (simp add: list_all_iff)

section \<open>Requests are served in order\<close>

text \<open>The requests that events make, and those that the pool has or has served.\<close>

primrec requests_made :: "pool_world \<Rightarrow> pool_event list \<Rightarrow> nat list" where
  "requests_made w [] = []"
| "requests_made w (e # es) =
     (case e of Get r \<Rightarrow> if pool_enabled e w then [r] else [] | _ \<Rightarrow> []) @
     (case pool_try w e of None \<Rightarrow> [] | Some w' \<Rightarrow> requests_made w' es)"

definition all_requests :: "pool_world \<Rightarrow> nat list" where
  "all_requests w = map fst (cp_completed w) @ map fst (cp_idle w) @ cp_requests w"

lemma given_requests: "all_requests (given s w) = all_requests w"
  by (simp add: given_def all_requests_def split: list.split)

lemma pool_added_requests: "all_requests (pool_added s w) = all_requests w"
  by (simp add: pool_added_def Let_def given_requests) (simp add: all_requests_def)

lemma closed_stream_requests: "all_requests (closed_stream s w) = all_requests w"
  by (simp add: all_requests_def closed_stream_fields)

lemma autostart_requests: "all_requests (evd_connection_pool_set_tls_autostart on w) = all_requests w"
proof -
  have "all_requests (fold connection_starttls conns v) = all_requests v" for conns v
    by (induction conns arbitrary: v) (simp_all add: all_requests_def)
  then show ?thesis by (simp add: evd_connection_pool_set_tls_autostart_def Let_def all_requests_def)
qed

lemma remove_source_requests: "all_requests (remove_retry_source w) = all_requests w"
  by (simp add: all_requests_def)

lemma connect_requests:
  assumes "pool_inv w" "pool_enabled (Connect c) w" "pool_step (Connect c) w = Some w'"
  shows "all_requests w' = all_requests w"
proof (cases c)
  case None
  with assms show ?thesis by (auto simp: evd_connection_pool_socket_on_connect_def all_requests_def)
next
  case (Some s)
  with assms have "w' = pool_added s (socket_gone s w)" using connect_result [of w s] by simp
  then show ?thesis
    by (simp add: pool_added_requests socket_gone_def remove_source_requests) (simp add: all_requests_def)
qed

lemma recycle_requests:
  assumes "pool_inv w" "pool_step (Recycle s) w = Some w'"
  shows "all_requests w' = all_requests w"
  using assms pool_add_result [of w s] pool_add_member [of w s] pool_inv_recursed [of w POOL]
  by (cases "iw_group w s = Some POOL")
    (auto simp: evd_connection_pool_recycle_def pool_added_requests split: if_splits)

lemma get_requests:
  assumes "pool_inv w" "cp_alive w" "evd_connection_pool_get_connection r w = Some w'"
  shows "all_requests w' = all_requests w @ [r]"
proof (cases "cp_conns w")
  case Nil
  with assms show ?thesis by (auto simp: evd_connection_pool_get_connection_def all_requests_def)
next
  case (Cons conn conns)
  with assms have "iw_group w conn = Some POOL" "\<not> iw_recursed w POOL" "cp_requests w = []"
    by (auto simp: pool_inv_def pool_holds_def held_def)
  with assms Cons show ?thesis
    by (auto simp: evd_connection_pool_get_connection_def evd_connection_pool_finish_request_def
        pool_remove_result pool_removed_def all_requests_def)
qed

lemma close_requests:
  "pool_inv w \<Longrightarrow> g_io_stream_close s w = Some w' \<Longrightarrow> all_requests w' = all_requests w"
  by (auto simp: close_result_inv closed_stream_requests split: if_splits)

lemma tls_answered_requests: "all_requests (tls_answered s ok w) = all_requests w"
  by (auto simp: tls_answered_def given_requests closed_stream_requests split: list.split)
    (simp_all add: all_requests_def pool_removed_def)

lemma pool_step_requests:
  assumes "pool_inv w" "pool_enabled e w" "pool_step e w = Some w'"
  shows "all_requests w' = all_requests w @ (case e of Get r \<Rightarrow> [r] | _ \<Rightarrow> [])"
proof (cases e)
  case (Get r)
  with assms get_requests show ?thesis by simp
next
  case (Recycle s)
  with assms recycle_requests show ?thesis by simp
next
  case (Connect c)
  with assms connect_requests show ?thesis by simp
next
  case (HangUp s)
  with assms show ?thesis by (auto simp: evd_connection_close_in_idle_def all_requests_def)
next
  case (Close s)
  with assms close_requests show ?thesis by simp
next
  case (Handshake s ok)
  with assms have "w' = (if ok then handshake_ended s ok w else closed_stream s (handshake_ended s ok w))"
    using handshake_result [of w s ok] by simp
  then show ?thesis using Handshake
    by (simp add: closed_stream_requests) (simp add: all_requests_def handshake_ended_def)
next
  case TlsStarted
  show ?thesis
  proof (cases "cp_tls_done w")
    case Nil
    with assms TlsStarted show ?thesis by simp
  next
    case (Cons c calls)
    obtain s ok where c: "c = (s, ok)" by (cases c)
    have "w' = tls_answered s ok (w\<lparr>cp_tls_done := calls\<rparr>)"
      using tls_started_result [of w s ok calls] assms TlsStarted Cons c by simp
    then show ?thesis using TlsStarted by (simp add: tls_answered_requests) (simp add: all_requests_def)
  qed
next
  case (Autostart on)
  with assms autostart_requests show ?thesis by auto
next
  case (Retry src)
  with assms show ?thesis by (auto simp: retry_source_def Let_def all_requests_def)
next
  case Complete
  with assms show ?thesis by (cases "cp_idle w") (auto simp: all_requests_def)
next
  case (PutInGroup s g)
  with assms show ?thesis by (auto simp: group_call_set_group all_requests_def)
next
  case (GroupDestroyed g)
  with assms show ?thesis by (auto simp: all_requests_def)
next
  case Destroy
  with assms show ?thesis by (auto simp: dispose_result evd_connection_pool_finalize_def all_requests_def)
qed

lemma run_requests:
  assumes "pool_inv w" "run_ops pool_try w es = Some w'"
  shows "all_requests w' = all_requests w @ requests_made w es"
  using assms
proof (induction es arbitrary: w)
  case Nil
  then show ?case by simp
next
  case (Cons e es)
  from pool.step_defined [OF Cons.prems(1), of e] obtain w1 where w1: "pool_try w e = Some w1" "pool_inv w1"
    by blast
  have "all_requests w1 = all_requests w @ (case e of Get r \<Rightarrow> if pool_enabled e w then [r] else [] | _ \<Rightarrow> [])"
    using pool_step_requests [OF Cons.prems(1), of e w1] w1(1) by (cases e) (auto simp: pool_try_def split: if_splits)
  with Cons.IH [OF w1(2)] Cons.prems(2) w1(1) show ?case by simp
qed

section \<open>Without TLS\<close>

text \<open>
  As long as TLS is not switched on, no connection is held up in a handshake, the pool does not go
  beyond its limit, and it always has a connection, a socket that is connecting or a retry source.
\<close>

definition plain_pool :: "pool_world \<Rightarrow> bool" where
  "plain_pool w \<longleftrightarrow> \<not> cp_tls_autostart w \<and> starting_tls w = [] \<and> total_sockets w \<le> DEFAULT_MAX_CONNS \<and>
     (cp_alive w \<longrightarrow> cp_conns w \<noteq> [] \<or> cp_connecting_sockets w > 0 \<or> cp_sources w \<noteq> [])"

lemmas plain_defs = plain_pool_def starting_tls_def total_sockets_def create_min_conns_result
  DEFAULT_MIN_CONNS_def DEFAULT_MAX_CONNS_def

lemma pool_min_max: "pool_inv w \<Longrightarrow> cp_min_conns w = 1 \<and> cp_max_conns w = 5"
  by (simp add: pool_inv_def DEFAULT_MIN_CONNS_def DEFAULT_MAX_CONNS_def)

lemma given_plain:
  assumes "cp_min_conns w = 1" "\<not> cp_tls_autostart w" "starting_tls w = []" "total_sockets w < DEFAULT_MAX_CONNS"
  shows "plain_pool (given s w)"
  using assms by (auto simp: given_def plain_defs split: list.split)

lemma pool_added_plain:
  assumes "cp_min_conns w = 1" "\<not> cp_tls_autostart w" "starting_tls w = []" "total_sockets w < DEFAULT_MAX_CONNS"
  shows "plain_pool (pool_added s w)"
  using assms given_plain [of "moved s (Some POOL) w" s]
  by (simp add: pool_added_def Let_def starting_tls_def total_sockets_def)

lemma closed_stream_plain:
  assumes "pool_inv w" "plain_pool w"
  shows "plain_pool (closed_stream s w)"
  using assms pool_min_max [OF assms(1)]
  by (auto simp: plain_defs closed_stream_def pool_removed_def Let_def length_remove1)

lemma recycle_plain:
  assumes "pool_inv w" "plain_pool w" "pool_step (Recycle s) w = Some w'"
  shows "plain_pool w'"
  using assms pool_add_result [of w s] pool_add_member [of w s] pool_inv_recursed [of w POOL] pool_min_max [of w]
    pool_added_plain [of w s]
  by (cases "iw_group w s = Some POOL")
    (auto simp: evd_connection_pool_recycle_def plain_pool_def DEFAULT_MAX_CONNS_def split: if_splits)

lemma connect_plain:
  assumes "pool_inv w" "plain_pool w" "pool_enabled (Connect c) w" "pool_step (Connect c) w = Some w'"
  shows "plain_pool w'"
proof (cases c)
  case None
  with assms show ?thesis by (auto simp: evd_connection_pool_socket_on_connect_def plain_defs)
next
  case (Some s)
  with assms have "w' = pool_added s (socket_gone s w)" using connect_result [of w s] by simp
  moreover have "plain_pool (pool_added s (socket_gone s w))"
    using assms Some pool_min_max [OF assms(1)]
    by (intro pool_added_plain) (auto simp: socket_gone_def plain_defs)
  ultimately show ?thesis by simp
qed

lemma get_plain:
  assumes "pool_inv w" "cp_alive w" "plain_pool w" "evd_connection_pool_get_connection r w = Some w'"
  shows "plain_pool w'"
proof (cases "cp_conns w")
  case Nil
  with assms pool_min_max [OF assms(1)] show ?thesis
    by (auto simp: evd_connection_pool_get_connection_def plain_defs)
next
  case (Cons conn conns)
  with assms have "iw_group w conn = Some POOL" "\<not> iw_recursed w POOL" "conn \<notin> set conns"
    by (auto simp: pool_inv_def pool_holds_def held_def)
  with assms Cons pool_min_max [OF assms(1)] show ?thesis
    by (auto simp: evd_connection_pool_get_connection_def evd_connection_pool_finish_request_def
        pool_remove_result pool_removed_def plain_defs remove1_idem)
qed

lemma plain_step:
  assumes "pool_inv w" "plain_pool w" "pool_enabled e w" "e \<noteq> Autostart True" "pool_step e w = Some w'"
  shows "plain_pool w'"
proof (cases e)
  case (Get r)
  with assms get_plain [of w r w'] show ?thesis by simp
next
  case (Recycle s)
  with assms recycle_plain show ?thesis by blast
next
  case (Connect c)
  with assms connect_plain show ?thesis by blast
next
  case (HangUp s)
  with assms show ?thesis by (auto simp: evd_connection_close_in_idle_def plain_defs)
next
  case (Close s)
  with assms closed_stream_plain show ?thesis by (auto simp: close_result_inv split: if_splits)
next
  case (Handshake s ok)
  with assms show ?thesis by (auto simp: plain_defs)
next
  case TlsStarted
  with assms show ?thesis by (simp add: plain_defs)
next
  case (Autostart on)
  with assms show ?thesis by (auto simp: evd_connection_pool_set_tls_autostart_def plain_defs)
next
  case (Retry src)
  with assms pool_min_max [OF assms(1)] show ?thesis by (auto simp: retry_source_def Let_def plain_defs)
next
  case Complete
  with assms show ?thesis by (cases "cp_idle w") (auto simp: plain_defs)
next
  case (PutInGroup s g)
  with assms show ?thesis by (auto simp: group_call_set_group plain_defs split: if_splits)
next
  case (GroupDestroyed g)
  with assms show ?thesis by (auto simp: plain_defs)
next
  case Destroy
  with assms show ?thesis by (auto simp: dispose_result evd_connection_pool_finalize_def plain_defs)
qed

lemma plain_run:
  assumes "run_ops pool_try w es = Some w'" "pool_inv w" "plain_pool w" "Autostart True \<notin> set es"
  shows "pool_inv w' \<and> plain_pool w'"
  using assms
proof (induction es arbitrary: w)
  case Nil
  then show ?case by simp
next
  case (Cons e es)
  from pool.step_defined [OF Cons.prems(2), of e] obtain w1 where w1: "pool_try w e = Some w1" "pool_inv w1"
    by blast
  then have "plain_pool w1"
    using plain_step [OF Cons.prems(2,3), of e w1] Cons.prems by (auto simp: pool_try_def split: if_splits)
  with Cons.IH [of w1] Cons.prems w1 show ?case by simp
qed

lemma new_pool_plain: "plain_pool new_pool"
  by (simp add: new_pool_result no_streams_def plain_defs)

section \<open>Throttles\<close>

definition group_throttles :: "pool_world \<Rightarrow> bool" where
  "group_throttles w \<longleftrightarrow> (\<forall>s. iw_throttles w s = (case iw_group w s of None \<Rightarrow> [] | Some g \<Rightarrow> [g]))"

lemma moved_throttles: "group_throttles w \<Longrightarrow> group_throttles (moved s g w)"
  by (auto simp: group_throttles_def moved_def on_group_changed_def Let_def split: option.splits)

lemma given_throttles: "group_throttles (given s w) = group_throttles w"
  by (simp add: group_throttles_def given_def split: list.split)

lemma pool_added_throttles: "group_throttles w \<Longrightarrow> group_throttles (pool_added s w)"
  using moved_throttles [of w s "Some POOL"]
  by (simp add: pool_added_def Let_def given_throttles) (simp add: group_throttles_def)

lemma removed_throttles: "group_throttles w \<Longrightarrow> group_throttles (pool_removed s w)"
  using moved_throttles [of w s None] by (simp add: pool_removed_def group_throttles_def)

lemma throttles_cong:
  "iw_throttles v = iw_throttles w \<Longrightarrow> iw_group v = iw_group w \<Longrightarrow> group_throttles v = group_throttles w"
  by (simp add: group_throttles_def)

lemma closed_stream_throttles:
  assumes "group_throttles w"
  shows "group_throttles (closed_stream s w)"
proof -
  let ?w = "w\<lparr>iw_connected := (iw_connected w)(s := False), cp_tls_handshaking := remove1 s (cp_tls_handshaking w),
    iw_tls_active := (iw_tls_active w)(s := False)\<rparr>"
  have "group_throttles ?w" using assms by (simp add: group_throttles_def)
  from this removed_throttles [OF this] moved_throttles [OF this] show ?thesis
    by (simp add: closed_stream_def Let_def group_throttles_def)
qed

lemma tls_answered_throttles:
  assumes "group_throttles w"
  shows "group_throttles (tls_answered s ok w)"
proof -
  have "group_throttles (w\<lparr>cp_requests := rs, cp_idle := i\<rparr>)" for rs i using assms by (simp add: group_throttles_def)
  from removed_throttles [OF this] have
    "group_throttles (evd_connection_pool_create_min_conns (pool_removed s (w\<lparr>cp_requests := rs, cp_idle := i\<rparr>)))" for rs i
    by (subst throttles_cong [of _ "pool_removed s (w\<lparr>cp_requests := rs, cp_idle := i\<rparr>)"]) simp_all
  with assms closed_stream_throttles [OF assms] show ?thesis
    by (simp add: tls_answered_def given_throttles split: list.split)
qed

lemma autostart_throttles:
  assumes "group_throttles w"
  shows "group_throttles (evd_connection_pool_set_tls_autostart on w)"
proof -
  have "group_throttles v \<Longrightarrow> group_throttles (fold connection_starttls conns v)" for conns v
    by (induction conns arbitrary: v) (simp_all add: group_throttles_def)
  with assms show ?thesis by (simp add: evd_connection_pool_set_tls_autostart_def Let_def group_throttles_def)
qed

lemma get_throttles:
  assumes "pool_inv w" "cp_alive w" "group_throttles w" "evd_connection_pool_get_connection r w = Some w'"
  shows "group_throttles w'"
proof (cases "cp_conns w")
  case Nil
  with assms show ?thesis by (auto simp: evd_connection_pool_get_connection_def group_throttles_def)
next
  case (Cons conn conns)
  let ?w = "w\<lparr>cp_conns := conns, cp_idle := cp_idle w @ [(r, conn)]\<rparr>"
  from Cons assms have "iw_group w conn = Some POOL" "\<not> iw_recursed w POOL"
    by (auto simp: pool_inv_def pool_holds_def held_def)
  with Cons assms have "w' = evd_connection_pool_create_min_conns (pool_removed conn ?w)"
    by (auto simp: evd_connection_pool_get_connection_def evd_connection_pool_finish_request_def pool_remove_result)
  moreover have "group_throttles (pool_removed conn ?w)"
    using assms by (intro removed_throttles) (simp add: group_throttles_def)
  ultimately show ?thesis by (simp add: group_throttles_def)
qed

lemma connect_throttles:
  assumes "pool_inv w" "group_throttles w" "pool_enabled (Connect c) w" "pool_step (Connect c) w = Some w'"
  shows "group_throttles w'"
proof (cases c)
  case None
  with assms show ?thesis by (auto simp: evd_connection_pool_socket_on_connect_def group_throttles_def)
next
  case (Some s)
  with assms have "w' = pool_added s (socket_gone s w)" using connect_result [of w s] by simp
  moreover have "group_throttles (socket_gone s w)" using assms(2) by (simp add: socket_gone_def group_throttles_def)
  ultimately show ?thesis by (simp add: pool_added_throttles)
qed

lemma recycle_throttles:
  assumes "pool_inv w" "group_throttles w" "pool_step (Recycle s) w = Some w'"
  shows "group_throttles w'"
  using assms pool_add_result [of w s] pool_add_member [of w s] pool_inv_recursed [of w POOL]
    pool_added_throttles [of w s]
  by (cases "iw_group w s = Some POOL") (auto simp: evd_connection_pool_recycle_def split: if_splits)

fun destroys_group :: "pool_event \<Rightarrow> bool" where
  "destroys_group (GroupDestroyed g) = True"
| "destroys_group Destroy = True"
| "destroys_group e = False"

lemma throttles_step:
  assumes "pool_inv w" "group_throttles w" "pool_enabled e w" "\<not> destroys_group e" "pool_step e w = Some w'"
  shows "group_throttles w'"
proof (cases e)
  case (Get r)
  with assms get_throttles [of w r w'] show ?thesis by simp
next
  case (Recycle s)
  with assms recycle_throttles show ?thesis by blast
next
  case (Connect c)
  with assms connect_throttles show ?thesis by blast
next
  case (HangUp s)
  with assms show ?thesis by (auto simp: evd_connection_close_in_idle_def group_throttles_def)
next
  case (Close s)
  with assms closed_stream_throttles show ?thesis by (auto simp: close_result_inv split: if_splits)
next
  case (Handshake s ok)
  have "group_throttles (handshake_ended s ok w)" using assms(2) by (simp add: handshake_ended_def group_throttles_def)
  with Handshake assms closed_stream_throttles show ?thesis by (auto simp: handshake_result split: if_splits)
next
  case TlsStarted
  show ?thesis
  proof (cases "cp_tls_done w")
    case Nil
    with assms TlsStarted show ?thesis by simp
  next
    case (Cons c calls)
    obtain s ok where c: "c = (s, ok)" by (cases c)
    have "w' = tls_answered s ok (w\<lparr>cp_tls_done := calls\<rparr>)"
      using tls_started_result [of w s ok calls] assms TlsStarted Cons c by simp
    moreover have "group_throttles (w\<lparr>cp_tls_done := calls\<rparr>)" using assms(2) by (simp add: group_throttles_def)
    ultimately show ?thesis by (simp add: tls_answered_throttles)
  qed
next
  case (Autostart on)
  with assms autostart_throttles show ?thesis by auto
next
  case (Retry src)
  with assms show ?thesis by (auto simp: retry_source_def Let_def group_throttles_def)
next
  case Complete
  with assms show ?thesis by (cases "cp_idle w") (auto simp: group_throttles_def)
next
  case (PutInGroup s g)
  with assms moved_throttles show ?thesis by (auto simp: group_call_set_group split: if_splits)
qed (use assms in auto)

lemma throttles_run:
  assumes "run_ops pool_try w es = Some w'" "pool_inv w" "group_throttles w" "\<not> list_ex destroys_group es"
  shows "group_throttles w'"
  using assms
proof (induction es arbitrary: w)
  case Nil
  then show ?case by simp
next
  case (Cons e es)
  from pool.step_defined [OF Cons.prems(2), of e] obtain w1 where w1: "pool_try w e = Some w1" "pool_inv w1"
    by blast
  then have "group_throttles w1"
    using throttles_step [OF Cons.prems(2,3), of e w1] Cons.prems by (auto simp: pool_try_def split: if_splits)
  with Cons.IH [of w1] Cons.prems w1 show ?case by simp
qed

lemma connect_serves:
  assumes "pool_inv v" "cp_connecting_sockets v > 0" "cp_alive v" "iw_group v s = None" "\<not> iw_closed v s"
    and "cp_requests v = r # rs" "\<not> cp_tls_autostart v"
  shows "\<exists>w'. run_ops pool_try v [Connect (Some s)] = Some w' \<and> cp_idle w' = cp_idle v @ [(r, s)] \<and> cp_requests w' = rs"
  using assms connect_result [of v s]
  by (simp add: pool_try_def pool_added_def given_def socket_gone_def Let_def del: pool_step.simps)

section \<open>Properties\<close>

text \<open>
  C9. From a new pool, after any sequence of events that leaves out those the code relies on not to
  happen (\<open>pool_spared\<close>), every event that can happen next completes, save one: the recursion between
  streams and groups ends and the assertions hold, and the only crash is a retry source that fires after
  the pool has gone. The connections that the pool holds are different, open and in its group, and
  requests wait only while no connection is free.
\<close>

theorem pool_well_formed:
  assumes "run_ops pool_try new_pool es = Some w" and "pool_possible e w"
  shows "(pool_step e w = None \<longleftrightarrow> (\<exists>src. e = Retry src) \<and> \<not> cp_alive w) \<and> distinct (cp_conns w) \<and>
    list_all (\<lambda>s. iw_group w s = Some POOL \<and> \<not> iw_closed w s) (cp_conns w) \<and>
    (cp_requests w = [] \<or> \<not> evd_connection_pool_has_free_connections w)"
proof -
  have i: "pool_inv w" using assms(1) pool_runs [of es] by auto
  have "pool_step e w = None \<longleftrightarrow> (\<exists>src. e = Retry src) \<and> \<not> cp_alive w"
  proof (cases "pool_spared e w")
    case True
    with assms(2) have "pool_enabled e w" by (simp add: pool_enabled_def)
    with pool_step_inv [OF i] True show ?thesis by fastforce
  next
    case False
    then show ?thesis using close_result_inv [OF i]
      by (cases e) (simp_all add: group_call_set_group retry_source_def)
  qed
  then show ?thesis using i
    by (cases "cp_alive w") (auto simp: pool_inv_def pool_holds_def held_def list_all_iff
        evd_connection_pool_has_free_connections_def)
qed

text \<open>
  C10. Requests are served once each and in the order they are made: those completed, those about to
  be and those that wait are, one after the other, all the requests.
\<close>

theorem pool_requests_in_order:
  assumes "run_ops pool_try new_pool es = Some w"
  shows "requests_made new_pool es = map fst (cp_completed w) @ map fst (cp_idle w) @ cp_requests w"
  using run_requests [OF new_pool_inv assms]
  by (simp add: all_requests_def) (simp add: new_pool_result no_streams_def)

text \<open>
  C11. Without TLS a request that waits is not forgotten, and the pool keeps to its limit: the next
  socket that connects serves the request, and if no socket is connecting, a retry source is armed
  that makes one connect.
\<close>

theorem pool_serves_waiting:
  assumes "run_ops pool_try new_pool es = Some w" and "Autostart True \<notin> set es"
    and "cp_requests w = r # rs" and "iw_group w s = None" and "\<not> iw_closed w s"
  shows "total_sockets w \<le> DEFAULT_MAX_CONNS \<and>
    (\<exists>es' w'. set es' \<subseteq> insert (Connect (Some s)) (Retry ` set (cp_sources w)) \<and>
      run_ops pool_try w es' = Some w' \<and> cp_idle w' = cp_idle w @ [(r, s)] \<and> cp_requests w' = rs)"
proof -
  have i: "pool_inv w" "plain_pool w"
    using plain_run [OF assms(1) new_pool_inv new_pool_plain assms(2)] by auto
  have a: "cp_alive w" "cp_conns w = []" using i(1) assms(3) by (auto simp: pool_inv_def)
  show ?thesis
  proof (cases "cp_connecting_sockets w > 0")
    case True
    with connect_serves [OF i(1) _ a(1) assms(4,5,3)] i(2) obtain w' where
      "run_ops pool_try w [Connect (Some s)] = Some w'" "cp_idle w' = cp_idle w @ [(r, s)]" "cp_requests w' = rs"
      by (auto simp: plain_pool_def)
    with i(2) show ?thesis
      unfolding plain_pool_def by (intro conjI exI [of _ "[Connect (Some s)]"] exI [of _ w']) auto
  next
    case False
    with i(2) a obtain src where src: "src \<in> set (cp_sources w)" unfolding plain_pool_def by (metis hd_in_set)
    define v where "v = evd_connection_pool_create_min_conns (w\<lparr>cp_sources := remove1 src (cp_sources w)\<rparr>)"
    have v: "pool_try w (Retry src) = Some v" using src a by (simp add: pool_try_def retry_source_def v_def)
    have "pool_inv v" using pool.step_defined [OF i(1), of "Retry src"] v by simp
    moreover have "cp_connecting_sockets v > 0"
      using pool_min_max [OF i(1)] a by (simp add: v_def create_min_conns_result)
    ultimately obtain w' where "run_ops pool_try v [Connect (Some s)] = Some w'"
      "cp_idle w' = cp_idle w @ [(r, s)]" "cp_requests w' = rs"
      using connect_serves [of v s r rs] a i assms by (auto simp: v_def plain_pool_def)
    then have "run_ops pool_try w [Retry src, Connect (Some s)] = Some w'" using v by simp
    with src i(2) \<open>cp_idle w' = _\<close> \<open>cp_requests w' = rs\<close> show ?thesis
      unfolding plain_pool_def
      by (intro conjI exI [of _ "[Retry src, Connect (Some s)]"] exI [of _ w']) auto
  qed
qed

text \<open>
  As long as no group is destroyed, a stream is throttled by the throttle of the group it is in,
  once, and by no other group's, wherever it is moved, given out, recycled or closed.
\<close>

theorem pool_group_throttle:
  assumes "run_ops pool_try new_pool es = Some w" and "\<not> list_ex destroys_group es"
  shows "iw_throttles w s = (case iw_group w s of None \<Rightarrow> [] | Some g \<Rightarrow> [g])"
proof -
  have "group_throttles new_pool" by (simp add: new_pool_result no_streams_def group_throttles_def)
  with throttles_run [OF assms(1) new_pool_inv] assms(2) show ?thesis by (simp add: group_throttles_def)
qed

text \<open>
  A pool whose connections are asked for, given back and lost: stream 10 goes to request 1 and is put
  in group 3, the next socket fails, and request 2 waits for the retry source.
\<close>

definition demo_events :: "pool_event list" where
  "demo_events = [Get 1, Connect (Some 10), Complete, PutInGroup 10 (Some 3), Connect None, Get 2, Connect None]"

definition demo_pool :: pool_world where
  "demo_pool = the (run_ops pool_try new_pool demo_events)"

lemma demo_pool_run: "run_ops pool_try new_pool demo_events = Some demo_pool"
  unfolding demo_pool_def using pool_runs [of demo_events] by auto

lemma demo_pool_state:
  "cp_requests demo_pool = [2] \<and> cp_conns demo_pool = [] \<and> cp_sources demo_pool = [1, 2] \<and>
   iw_group demo_pool 10 = Some 3 \<and> iw_group demo_pool 11 = None \<and> \<not> iw_closed demo_pool 11 \<and>
   cp_completed demo_pool = [(1, Some 10)] \<and> cp_idle demo_pool = [] \<and> pool_possible (Retry 1) demo_pool \<and> cp_alive demo_pool"
  by code_simp

theorem pool_well_formed_witness:
  "pool_step (Retry 1) demo_pool \<noteq> None \<and> distinct (cp_conns demo_pool) \<and> cp_requests demo_pool = [2]"
  using pool_well_formed [OF demo_pool_run, of "Retry 1"] demo_pool_state by blast

theorem pool_requests_in_order_witness:
  "requests_made new_pool demo_events = [1, 2]"
  using pool_requests_in_order [OF demo_pool_run] demo_pool_state by simp

theorem pool_serves_waiting_witness:
  "total_sockets demo_pool \<le> DEFAULT_MAX_CONNS \<and>
   (\<exists>es' w'. run_ops pool_try demo_pool es' = Some w' \<and> cp_idle w' = [(2, 11)] \<and> cp_requests w' = [])"
proof -
  have "Autostart True \<notin> set demo_events" by (simp add: demo_events_def)
  from pool_serves_waiting [OF demo_pool_run this, of 2 "[]" 11] demo_pool_state show ?thesis by auto
qed

theorem pool_group_throttle_witness:
  "iw_throttles demo_pool 10 = [3]"
proof -
  have "\<not> list_ex destroys_group demo_events" by (simp add: demo_events_def)
  from pool_group_throttle [OF demo_pool_run this, of 10] demo_pool_state show ?thesis by simp
qed

section \<open>What goes wrong\<close>

definition pool_after :: "pool_event list \<Rightarrow> pool_world" where
  "pool_after es = the (run_ops pool_try new_pool es)"

text \<open>
  With TLS, a handshake that fails takes the connection away and asks for no other: the request waits
  for ever, with no socket connecting, no handshake and no source.
\<close>

lemma pool_tls_failure_starves:
  "let w = pool_after [Autostart True, Get 1, Connect (Some 10), Handshake 10 False, TlsStarted]
   in cp_requests w = [1] \<and> cp_conns w = [] \<and> cp_connecting_sockets w = 0 \<and> cp_sources w = [] \<and> starting_tls w = []"
  by code_simp

text \<open>
  A connection that goes to a waiting request as soon as it is there stays in the group of the pool:
  it is given back in vain.
\<close>

lemma pool_recycle_refused:
  "let w = pool_after [Get 1, Connect (Some 10), Complete]
   in cp_completed w = [(1, Some 10)] \<and> iw_group w 10 = Some POOL \<and> \<not> iw_closed w 10 \<and>
      map_option snd (evd_connection_pool_recycle 10 w) = Some False"
  by code_simp

text \<open>
  A connection that is closed between the end of its handshake and the call that follows becomes a
  free connection of the pool; the next request gets it, or the assertion fails when the pool goes.
\<close>

lemma pool_offers_closed_connection:
  "let w = pool_after [Autostart True, Connect (Some 10), Handshake 10 True]
   in case Option.bind (pool_step (Close 10) w) (pool_step TlsStarted) of
        None \<Rightarrow> False
      | Some w \<Rightarrow> cp_conns w = [10] \<and> iw_closed w 10 \<and>
          map_option cp_idle (pool_step (Get 1) w) = Some [(1, 10)] \<and> pool_step Destroy w = None"
  by code_simp

text \<open>
  Creating sockets forgets the number of a retry source that is still armed; the source then fires
  after the pool has gone.
\<close>

lemma pool_retry_use_after_free:
  "let w = pool_after [Recycle 7, Connect None, Get 1, Complete, Connect None, Destroy]
   in \<not> cp_alive w \<and> cp_sources w = [1] \<and> pool_step (Retry 1) w = None"
  by code_simp

text \<open>TLS switched on a second time closes the free connections, which have TLS.\<close>

lemma pool_autostart_twice_closes:
  "let w = pool_after [Autostart True, Connect (Some 10), Handshake 10 True, TlsStarted]
   in cp_conns w = [10] \<and> iw_tls_active w 10 \<and>
      map_option (\<lambda>w. iw_closed w 10) (run_ops pool_try w [Autostart True, TlsStarted]) = Some True"
  by code_simp

text \<open>
  A stream that is put in the group of the pool, rather than added to it, does not become a free
  connection, and one that is moved away stays one: the functions of the class do nothing.
\<close>

lemma pool_set_group_ignored:
  "let w = pool_after [PutInGroup 10 (Some POOL), Recycle 11]
   in iw_group w 10 = Some POOL \<and> cp_conns w = [11] \<and>
      map_option (\<lambda>w. (iw_group w 11, cp_conns w)) (pool_step (PutInGroup 11 None) w) = Some (None, [11])"
  by code_simp

text \<open>The throttle of a group that is destroyed stays on its streams.\<close>

lemma destroyed_group_throttle:
  assumes "iw_group w s = Some g" "iw_throttles w s = [g]"
  shows "iw_group (group_destroyed g w) s = None \<and> iw_throttles (group_destroyed g w) s = [g]"
  using assms by (simp add: group_destroyed_def on_group_destroyed_def on_group_changed_def Let_def)

end
