(* ===== verification/Poll.thy ===== *)
theory Poll
  imports Evd_Prelude
begin

unbundle bit_operations_syntax

text \<open>
  The poll object, \<open>evd/evd-poll.c\<close>: a thread waits for events of file descriptors and hands them to
  the main thread, which adds, changes and deletes sessions in the meantime. Two mutexes protect the
  sessions and the array of events; a pipe wakes the thread that waits. Sessions are counted
  references in an explicit heap: access to a session that has been freed is \<open>Crash\<close>.
\<close>

section \<open>Conditions\<close>

definition G_IO_IN :: "32 word" where "G_IO_IN = 1"

definition G_IO_OUT :: "32 word" where "G_IO_OUT = 4"

definition G_IO_ERR :: "32 word" where "G_IO_ERR = 8"

definition G_IO_HUP :: "32 word" where "G_IO_HUP = 16"

definition EPOLLIN :: "32 word" where "EPOLLIN = 1"

definition EPOLLPRI :: "32 word" where "EPOLLPRI = 2"

definition EPOLLOUT :: "32 word" where "EPOLLOUT = 4"

definition EPOLLERR :: "32 word" where "EPOLLERR = 8"

definition EPOLLHUP :: "32 word" where "EPOLLHUP = 16"

definition EPOLLRDHUP :: "32 word" where "EPOLLRDHUP = 0x2000"

definition EPOLLET :: "32 word" where "EPOLLET = 0x80000000"

text \<open>From a condition to the events that are asked for, and from events to a condition.\<close>

definition epoll_events :: "32 word \<Rightarrow> 32 word" where
  "epoll_events cond = EPOLLET OR EPOLLRDHUP
     OR (if cond AND G_IO_IN \<noteq> 0 then EPOLLIN OR EPOLLPRI else 0)
     OR (if cond AND G_IO_OUT \<noteq> 0 then EPOLLOUT else 0)"

definition io_condition :: "32 word \<Rightarrow> 32 word" where
  "io_condition ev =
     (if ev AND EPOLLIN \<noteq> 0 \<or> ev AND EPOLLPRI \<noteq> 0 then G_IO_IN else 0)
     OR (if ev AND EPOLLOUT \<noteq> 0 then G_IO_OUT else 0)
     OR (if ev AND EPOLLHUP \<noteq> 0 \<or> ev AND EPOLLRDHUP \<noteq> 0 then G_IO_HUP else 0)
     OR (if ev AND EPOLLERR \<noteq> 0 then G_IO_ERR else 0)"

section \<open>State\<close>

text \<open>
  A pointer in the array of events. The kernel keeps the set of descriptors with their session and
  the events asked for; \<open>po_edge\<close> says that the pipe has been written to since the kernel last reported
  it. \<open>po_sources\<close> are the sources of the main loop, a number and the session. \<open>po_owned\<close> are the
  sessions that clients have, \<open>po_calls\<close> the calls of their callbacks. \<open>po_deleting\<close> is the session for
  whose deletion the main thread waits.
\<close>

datatype event_ptr = Null | Interrupt_fds | Session nat

datatype poll_thread =
    Not_started
  | Starting
  | Between
  | Waiting
  | Returned
  | Loop_without_source
  | Ended

datatype mutex_owner = Main_thread | Dispatch_thread

record EvdPollSession =
  ps_ref_count :: nat
  ps_fd :: nat
  ps_cond_in :: "32 word"
  ps_cond_out :: "32 word"
  ps_priority :: int
  ps_callback :: bool
  ps_src_id :: nat

record EvdPoll =
  po_started :: bool
  po_main_loop :: bool
  po_quit :: bool
  po_thread :: poll_thread
  po_sessions :: "nat \<Rightarrow> EvdPollSession option"
  po_next :: nat
  po_epoll :: "(nat \<times> nat \<times> 32 word) list"
  po_events :: "(event_ptr \<times> 32 word) list"
  po_interrupt_fd :: nat
  po_pipe :: nat
  po_edge :: bool
  po_epoll_mutex :: "mutex_owner option"
  po_interrupt_mutex :: "mutex_owner option"
  po_deleting :: "nat option"
  po_stopping :: bool
  po_sources :: "(nat \<times> nat) list"
  po_next_src :: nat
  po_owned :: "nat list"
  po_calls :: "(nat \<times> 32 word) list"

definition evd_poll_init :: EvdPoll where
  "evd_poll_init =
     \<lparr>po_started = False, po_main_loop = False, po_quit = False, po_thread = Not_started, po_sessions = (\<lambda>_. None),
      po_next = 0, po_epoll = [], po_events = [], po_interrupt_fd = 0, po_pipe = 0, po_edge = False,
      po_epoll_mutex = None, po_interrupt_mutex = None, po_deleting = None, po_stopping = False, po_sources = [], po_next_src = 1,
      po_owned = [], po_calls = []\<rparr>"

text \<open>An operation waits for a mutex or is not possible now, crashes or hangs, or is done.\<close>

datatype outcome = Blocked | Crash | Done EvdPoll

section \<open>Sessions\<close>

abbreviation set_session :: "nat \<Rightarrow> EvdPollSession \<Rightarrow> EvdPoll \<Rightarrow> EvdPoll" where
  "set_session s x p \<equiv> p\<lparr>po_sessions := (po_sessions p)(s := Some x)\<rparr>"

definition g_source_remove :: "nat \<Rightarrow> EvdPoll \<Rightarrow> EvdPoll" where
  "g_source_remove src p = p\<lparr>po_sources := filter (\<lambda>e. fst e \<noteq> src) (po_sources p)\<rparr>"

definition evd_poll_session_ref :: "nat \<Rightarrow> EvdPoll \<Rightarrow> EvdPoll option" where
  "evd_poll_session_ref s p = do {
     x \<leftarrow> po_sessions p s;
     Some (set_session s (x\<lparr>ps_ref_count := ps_ref_count x + 1\<rparr>) p)
   }"

text \<open>Whether the session is still there.\<close>

definition evd_poll_session_unref :: "nat \<Rightarrow> EvdPoll \<Rightarrow> (EvdPoll \<times> bool) option" where
  "evd_poll_session_unref s p = do {
     x \<leftarrow> po_sessions p s;
     Some (if ps_ref_count x > 1 then (set_session s (x\<lparr>ps_ref_count := ps_ref_count x - 1\<rparr>) p, True)
           else let p = (if ps_src_id x \<noteq> 0 then g_source_remove (ps_src_id x) p else p)
                in (p\<lparr>po_sessions := (po_sessions p)(s := None)\<rparr>, False))
   }"

definition evd_poll_callback_wrapper :: "nat \<Rightarrow> EvdPoll \<Rightarrow> EvdPoll option" where
  "evd_poll_callback_wrapper s p = do {
     x \<leftarrow> po_sessions p s;
     (p, alive) \<leftarrow> evd_poll_session_unref s (set_session s (x\<lparr>ps_src_id := 0\<rparr>) p);
     if alive then do {
       x \<leftarrow> po_sessions p s;
       let p = set_session s (x\<lparr>ps_cond_out := 0\<rparr>) p;
       Some (if ps_callback x then p\<lparr>po_calls := po_calls p @ [(s, ps_cond_out x)]\<rparr> else p)
     } else Some p
   }"

section \<open>The dispatching thread\<close>

text \<open>
  The first integer behind the pointer is compared with the descriptor of the pipe; of a session that
  is its reference count. Reading from an empty pipe does not end.
\<close>

definition evd_poll_check_and_consume_interrupt_event :: "event_ptr \<Rightarrow> EvdPoll \<Rightarrow> (EvdPoll \<times> bool) option" where
  "evd_poll_check_and_consume_interrupt_event ptr p = do {
     v \<leftarrow> (case ptr of Null \<Rightarrow> None | Interrupt_fds \<Rightarrow> Some (po_interrupt_fd p) | Session s \<Rightarrow> map_option ps_ref_count (po_sessions p s));
     if v = po_interrupt_fd p then (if po_pipe p = 0 then None else Some (p\<lparr>po_pipe := po_pipe p - 1024\<rparr>, True))
     else Some (p, False)
   }"

definition evd_poll_dispatch_event :: "event_ptr \<times> 32 word \<Rightarrow> EvdPoll \<Rightarrow> EvdPoll option" where
  "evd_poll_dispatch_event e p =
     (if fst e = Null then Some p
      else do {
        (p, consumed) \<leftarrow> evd_poll_check_and_consume_interrupt_event (fst e) p;
        if consumed then Some p
        else (case fst e of
                Session s \<Rightarrow> do {
                  (p, alive) \<leftarrow> evd_poll_session_unref s p;
                  if \<not> alive then Some p
                  else do {
                    p \<leftarrow> evd_poll_session_ref s p;
                    x \<leftarrow> po_sessions p s;
                    let x = x\<lparr>ps_cond_out := ps_cond_out x OR io_condition (snd e)\<rparr>;
                    if ps_src_id x \<noteq> 0 then Some (set_session s x p)
                    else do {
                      p \<leftarrow> evd_poll_session_ref s (set_session s x p);
                      x \<leftarrow> po_sessions p s;
                      Some ((set_session s (x\<lparr>ps_src_id := po_next_src p\<rparr>) p)
                              \<lparr>po_sources := po_sources p @ [(po_next_src p, s)], po_next_src := po_next_src p + 1\<rparr>)
                    }
                  }
                }
              | _ \<Rightarrow> None)
      })"

primrec dispatch_events :: "(event_ptr \<times> 32 word) list \<Rightarrow> EvdPoll \<Rightarrow> EvdPoll option" where
  "dispatch_events [] p = Some p"
| "dispatch_events (e # es) p = Option.bind (evd_poll_dispatch_event e p) (dispatch_events es)"

text \<open>
  \<open>evd_poll_dispatch\<close> locks one mutex to wait and the other one to hand out events: it goes to wait,
  the kernel lets it return with events, and the events are handed out. When the program has stopped the
  poll object, the main loop of the thread ends if it has been told to.
\<close>

definition dispatch_wait :: "EvdPoll \<Rightarrow> outcome" where
  "dispatch_wait p =
     (if po_thread p \<noteq> Between then Blocked
      else if po_quit p then Done (p\<lparr>po_thread := Ended, po_main_loop := False\<rparr>)
      else if po_interrupt_mutex p \<noteq> None then Blocked
      else Done (p\<lparr>po_thread := Waiting, po_interrupt_mutex := Some Dispatch_thread\<rparr>))"

text \<open>
  What the kernel can report: descriptors of its set with events that were asked for, errors and
  hang-ups, each at most once; the pipe when it has been written to and is not empty.
\<close>

definition reportable :: "EvdPoll \<Rightarrow> event_ptr \<times> 32 word \<Rightarrow> bool" where
  "reportable p e = (case fst e of
      Null \<Rightarrow> False
    | Interrupt_fds \<Rightarrow> po_edge p \<and> 0 < po_pipe p
    | Session s \<Rightarrow> list_ex (\<lambda>(fd, s', mask). s' = s \<and> snd e AND NOT (mask OR EPOLLERR OR EPOLLHUP) = 0) (po_epoll p))"

definition dispatch_return :: "(event_ptr \<times> 32 word) list \<Rightarrow> EvdPoll \<Rightarrow> outcome" where
  "dispatch_return es p =
     (if po_thread p = Waiting \<and> es \<noteq> [] \<and> list_all (reportable p) es \<and> distinct (map fst es)
      then Done (p\<lparr>po_thread := Returned, po_events := es, po_interrupt_mutex := None,
                   po_edge := po_edge p \<and> Interrupt_fds \<notin> set (map fst es)\<rparr>)
      else Blocked)"

definition dispatch_process :: "EvdPoll \<Rightarrow> outcome" where
  "dispatch_process p =
     (if po_thread p \<noteq> Returned \<or> po_epoll_mutex p \<noteq> None then Blocked
      else case (if po_started p then dispatch_events (po_events p) p else Some p) of
             None \<Rightarrow> Crash
           | Some p \<Rightarrow> Done (p\<lparr>po_events := [],
                 po_thread := (if po_started p then Between else if po_quit p then Ended else Loop_without_source),
                 po_main_loop := (po_main_loop p \<and> (po_started p \<or> \<not> po_quit p))\<rparr>))"

text \<open>The thread has its main loop, and its source.\<close>

definition evd_poll_thread_loop :: "EvdPoll \<Rightarrow> outcome" where
  "evd_poll_thread_loop p =
     (if po_thread p = Starting then Done (p\<lparr>po_thread := Between, po_main_loop := True\<rparr>) else Blocked)"

section \<open>The kernel\<close>

definition epoll_ctl_add :: "bool \<Rightarrow> nat \<Rightarrow> 32 word \<Rightarrow> nat \<Rightarrow> EvdPoll \<Rightarrow> EvdPoll \<times> bool" where
  "epoll_ctl_add ok fd cond s p =
     (if ok \<and> fd \<notin> fst ` set (po_epoll p) then (p\<lparr>po_epoll := po_epoll p @ [(fd, s, epoll_events cond)]\<rparr>, True) else (p, False))"

definition epoll_ctl_mod :: "nat \<Rightarrow> 32 word \<Rightarrow> nat \<Rightarrow> EvdPoll \<Rightarrow> EvdPoll \<times> bool" where
  "epoll_ctl_mod fd cond s p =
     (if fd \<in> fst ` set (po_epoll p)
      then (p\<lparr>po_epoll := map (\<lambda>e. if fst e = fd then (fd, s, epoll_events cond) else e) (po_epoll p)\<rparr>, True)
      else (p, False))"

definition epoll_ctl_del :: "nat \<Rightarrow> EvdPoll \<Rightarrow> EvdPoll \<times> bool" where
  "epoll_ctl_del fd p =
     (if fd \<in> fst ` set (po_epoll p) then (p\<lparr>po_epoll := filter (\<lambda>e. fst e \<noteq> fd) (po_epoll p)\<rparr>, True) else (p, False))"

text \<open>Closing a descriptor takes it out of the set.\<close>

definition close_fd :: "nat \<Rightarrow> EvdPoll \<Rightarrow> EvdPoll" where
  "close_fd fd p = fst (epoll_ctl_del fd p)"

definition evd_poll_interrupt_epoll_wait :: "EvdPoll \<Rightarrow> EvdPoll" where
  "evd_poll_interrupt_epoll_wait p = p\<lparr>po_pipe := po_pipe p + 1, po_edge := True\<rparr>"

section \<open>The operations of the main thread\<close>

text \<open>
  The main thread waits for the mutex of the sessions, within the deletion of a session, or for the
  other thread to end.
\<close>

definition main_waits :: "EvdPoll \<Rightarrow> bool" where
  "main_waits p \<longleftrightarrow> po_epoll_mutex p \<noteq> None \<or> po_deleting p \<noteq> None \<or> po_stopping p"

text \<open>
  The thread is started with the first session; \<open>start\<close> is the descriptor of the pipe, if it and the
  set of descriptors can be made. If not, \<open>evd_poll_add\<close> returns with the mutex locked.
\<close>

definition evd_poll_start :: "nat option \<Rightarrow> EvdPoll \<Rightarrow> EvdPoll \<times> bool" where
  "evd_poll_start start p =
     (case start of
        None \<Rightarrow> (p\<lparr>po_started := True\<rparr>, False)
      | Some fd \<Rightarrow> (p\<lparr>po_started := True, po_interrupt_fd := fd, po_thread := Starting\<rparr>, True))"

definition evd_poll_add :: "nat option \<Rightarrow> bool \<Rightarrow> nat \<Rightarrow> 32 word \<Rightarrow> int \<Rightarrow> EvdPoll \<Rightarrow> outcome" where
  "evd_poll_add start ok fd cond priority p =
     (if main_waits p then Blocked
      else
        let (p, running) = (if po_started p then (p, True) else evd_poll_start start p)
        in if \<not> running then Done (p\<lparr>po_epoll_mutex := Some Main_thread\<rparr>)
        else
          let s = po_next p;
              x = \<lparr>ps_ref_count = 1, ps_fd = fd, ps_cond_in = cond, ps_cond_out = 0, ps_priority = priority,
                   ps_callback = True, ps_src_id = 0\<rparr>;
              (p, added) = epoll_ctl_add ok fd cond s ((set_session s x p)\<lparr>po_next := s + 1\<rparr>)
          in if \<not> added then (case evd_poll_session_unref s p of None \<Rightarrow> Crash | Some (p, _) \<Rightarrow> Done p)
             else (case evd_poll_session_ref s p of None \<Rightarrow> Crash | Some p \<Rightarrow> Done (p\<lparr>po_owned := s # po_owned p\<rparr>)))"

definition evd_poll_mod :: "nat \<Rightarrow> 32 word \<Rightarrow> int \<Rightarrow> EvdPoll \<Rightarrow> outcome" where
  "evd_poll_mod s cond priority p =
     (if main_waits p then Blocked
      else case po_sessions p s of
        None \<Rightarrow> Crash
      | Some x \<Rightarrow>
          let changed = (ps_cond_in x \<noteq> cond);
              p = set_session s (x\<lparr>ps_priority := priority, ps_cond_in := cond\<rparr>) p
          in Done (if changed then fst (epoll_ctl_mod (ps_fd x) cond s p) else p))"

text \<open>
  A session is deleted with both mutexes locked. If the thread waits, it is woken up, and the main
  thread waits for the second mutex.
\<close>

definition delete_session :: "nat \<Rightarrow> EvdPoll \<Rightarrow> EvdPoll option" where
  "delete_session s p = do {
     let p = p\<lparr>po_events := map (\<lambda>e. if fst e = Session s then (Null, snd e) else e) (po_events p)\<rparr>;
     x \<leftarrow> po_sessions p s;
     p \<leftarrow> (if ps_src_id x \<noteq> 0
           then map_option fst (evd_poll_session_unref s (set_session s (x\<lparr>ps_src_id := 0\<rparr>) (g_source_remove (ps_src_id x) p)))
           else Some p);
     x \<leftarrow> po_sessions p s;
     let p = set_session s (x\<lparr>ps_callback := False\<rparr>) p;
     let (p, deleted) = epoll_ctl_del (ps_fd x) p;
     p \<leftarrow> (if deleted then map_option fst (evd_poll_session_unref s p) else Some p);
     (p, _) \<leftarrow> evd_poll_session_unref s p;
     Some (p\<lparr>po_owned := removeAll s (po_owned p)\<rparr>)
   }"

definition evd_poll_del :: "nat \<Rightarrow> EvdPoll \<Rightarrow> outcome" where
  "evd_poll_del s p =
     (if main_waits p then Blocked
      else if po_interrupt_mutex p = None
      then (case delete_session s p of None \<Rightarrow> Crash | Some p \<Rightarrow> Done p)
      else Done ((evd_poll_interrupt_epoll_wait p)\<lparr>po_epoll_mutex := Some Main_thread, po_deleting := Some s\<rparr>))"

definition del_locked :: "EvdPoll \<Rightarrow> outcome" where
  "del_locked p =
     (case po_deleting p of
        None \<Rightarrow> Blocked
      | Some s \<Rightarrow>
          if po_interrupt_mutex p \<noteq> None then Blocked
          else case delete_session s p of
                 None \<Rightarrow> Crash
               | Some p \<Rightarrow> Done (p\<lparr>po_deleting := None, po_epoll_mutex := None\<rparr>))"

text \<open>The main loop runs a source, which is then gone.\<close>

definition run_poll_source :: "nat \<Rightarrow> EvdPoll \<Rightarrow> outcome" where
  "run_poll_source src p =
     (if main_waits p then Blocked
      else case map_of (po_sources p) src of
        None \<Rightarrow> Blocked
      | Some s \<Rightarrow> (case evd_poll_callback_wrapper s (g_source_remove src p) of None \<Rightarrow> Crash | Some p \<Rightarrow> Done p))"

text \<open>Stopping, up to the point where the main thread waits for the other one to end.\<close>

definition evd_poll_stop :: "EvdPoll \<Rightarrow> outcome" where
  "evd_poll_stop p =
     (if main_waits p then Blocked
      else Done ((evd_poll_interrupt_epoll_wait p)\<lparr>po_started := False, po_stopping := True, po_quit := po_quit p \<or> po_main_loop p\<rparr>))"

section \<open>Steps of the two threads\<close>

datatype poll_op =
    Add "nat option" bool nat "32 word" int
  | Mod nat "32 word" int
  | Del nat
  | Del_locked
  | Run_source nat
  | Stop
  | Thread_loop
  | Wait
  | Return "(event_ptr \<times> 32 word) list"
  | Process
  | Close_fd nat

text \<open>Clients change and delete only sessions that they have.\<close>

primrec poll_do :: "poll_op \<Rightarrow> EvdPoll \<Rightarrow> outcome" where
  "poll_do (Add start ok fd cond priority) p = evd_poll_add start ok fd cond priority p"
| "poll_do (Mod s cond priority) p = (if s \<in> set (po_owned p) then evd_poll_mod s cond priority p else Blocked)"
| "poll_do (Del s) p = (if s \<in> set (po_owned p) then evd_poll_del s p else Blocked)"
| "poll_do Del_locked p = del_locked p"
| "poll_do (Run_source src) p = run_poll_source src p"
| "poll_do Stop p = evd_poll_stop p"
| "poll_do Thread_loop p = evd_poll_thread_loop p"
| "poll_do Wait p = dispatch_wait p"
| "poll_do (Return es) p = dispatch_return es p"
| "poll_do Process p = dispatch_process p"
| "poll_do (Close_fd fd) p = Done (close_fd fd p)"

text \<open>The descriptor of the pipe is not one of the first, which a reference count can equal.\<close>

primrec pipe_fd_ok :: "poll_op \<Rightarrow> bool" where
  "pipe_fd_ok (Add start ok fd cond priority) = (case start of None \<Rightarrow> True | Some fd' \<Rightarrow> 3 < fd')"
| "pipe_fd_ok (Mod s cond priority) = True"
| "pipe_fd_ok (Del s) = True"
| "pipe_fd_ok Del_locked = True"
| "pipe_fd_ok (Run_source src) = True"
| "pipe_fd_ok Stop = True"
| "pipe_fd_ok Thread_loop = True"
| "pipe_fd_ok Wait = True"
| "pipe_fd_ok (Return es) = True"
| "pipe_fd_ok Process = True"
| "pipe_fd_ok (Close_fd fd) = True"

inductive poll_reachable :: "EvdPoll \<Rightarrow> bool" where
  poll_start: "poll_reachable evd_poll_init"
| poll_step: "poll_reachable p \<Longrightarrow> pipe_fd_ok op \<Longrightarrow> poll_do op p = Done p' \<Longrightarrow> poll_reachable p'"

section \<open>Invariant\<close>

text \<open>
  A session that a client has is counted twice, and once more if its source is armed; events that have
  not been handed out arm it. A session that could not be taken out of the set of the kernel has one
  reference left and is never used again.
\<close>

definition session_ok :: "bool \<Rightarrow> EvdPollSession \<Rightarrow> bool" where
  "session_ok has x \<longleftrightarrow>
     (if has then ps_ref_count x = (if ps_src_id x = 0 then 2 else 3) \<and> ps_callback x \<and> (ps_cond_out x \<noteq> 0 \<longrightarrow> ps_src_id x \<noteq> 0)
      else ps_ref_count x = 1 \<and> ps_src_id x = 0)"

definition sessions_ok :: "EvdPoll \<Rightarrow> bool" where
  "sessions_ok p \<longleftrightarrow>
     (\<forall>s x. po_sessions p s = Some x \<longrightarrow> s < po_next p \<and> session_ok (s \<in> set (po_owned p)) x \<and>
        (ps_src_id x \<noteq> 0 \<longrightarrow> (ps_src_id x, s) \<in> set (po_sources p))) \<and>
     (\<forall>s \<in> set (po_owned p). po_sessions p s \<noteq> None)"

definition sources_ok :: "EvdPoll \<Rightarrow> bool" where
  "sources_ok p \<longleftrightarrow> 0 < po_next_src p \<and> distinct (map fst (po_sources p)) \<and>
     (\<forall>e \<in> set (po_sources p). 0 < fst e \<and> fst e < po_next_src p \<and>
        (\<exists>x. po_sessions p (snd e) = Some x \<and> ps_src_id x = fst e))"

definition kernel_ok :: "EvdPoll \<Rightarrow> bool" where
  "kernel_ok p \<longleftrightarrow> distinct (map fst (po_epoll p)) \<and>
     (\<forall>e \<in> set (po_epoll p). fst (snd e) \<in> set (po_owned p) \<and> (\<exists>x. po_sessions p (fst (snd e)) = Some x \<and> ps_fd x = fst e))"

definition events_ok :: "(event_ptr \<times> 32 word) list \<Rightarrow> EvdPoll \<Rightarrow> bool" where
  "events_ok es p \<longleftrightarrow>
     (Interrupt_fds \<in> fst ` set es \<longrightarrow> 0 < po_pipe p) \<and> (\<forall>s. Session s \<in> fst ` set es \<longrightarrow> s \<in> set (po_owned p)) \<and>
     length (filter (\<lambda>e. fst e = Interrupt_fds) es) \<le> 1"

definition threads_ok :: "EvdPoll \<Rightarrow> bool" where
  "threads_ok p \<longleftrightarrow>
     (po_interrupt_mutex p \<noteq> None \<longleftrightarrow> po_thread p = Waiting) \<and>
     (po_deleting p \<noteq> None \<longrightarrow> po_thread p = Returned \<or> (po_thread p = Waiting \<and> po_edge p \<and> 0 < po_pipe p)) \<and>
     (po_events p \<noteq> [] \<longrightarrow> po_thread p = Returned) \<and>
     (\<forall>s. po_deleting p = Some s \<longrightarrow> s \<in> set (po_owned p) \<and> po_epoll_mutex p \<noteq> None) \<and>
     (po_thread p \<noteq> Not_started \<longrightarrow> 3 < po_interrupt_fd p) \<and>
     (po_thread p = Not_started \<longrightarrow> po_owned p = []) \<and> (\<not> po_started p \<and> \<not> po_stopping p \<longrightarrow> po_thread p = Not_started) \<and>
     (po_started p \<and> po_thread p = Not_started \<longrightarrow> po_epoll_mutex p \<noteq> None) \<and> (po_stopping p \<longrightarrow> \<not> po_started p)"

definition poll_inv :: "EvdPoll \<Rightarrow> bool" where
  "poll_inv p \<longleftrightarrow> sessions_ok p \<and> sources_ok p \<and> kernel_ok p \<and> events_ok (po_events p) p \<and> threads_ok p"

lemma poll_inv_init: "poll_inv evd_poll_init"
  by (simp add: poll_inv_def sessions_ok_def sources_ok_def kernel_ok_def events_ok_def threads_ok_def evd_poll_init_def)

section \<open>What operations do to a session of a client\<close>

lemma owned_session:
  assumes "sessions_ok p" "s \<in> set (po_owned p)"
  obtains x where "po_sessions p s = Some x" "session_ok True x"
  using assms by (fastforce simp: sessions_ok_def)

definition event_session :: "nat \<Rightarrow> 32 word \<Rightarrow> EvdPollSession \<Rightarrow> EvdPoll \<Rightarrow> EvdPoll" where
  "event_session s ev x p =
     (if ps_src_id x \<noteq> 0 then set_session s (x\<lparr>ps_cond_out := ps_cond_out x OR io_condition ev\<rparr>) p
      else (set_session s (x\<lparr>ps_ref_count := 3, ps_cond_out := ps_cond_out x OR io_condition ev, ps_src_id := po_next_src p\<rparr>) p)
             \<lparr>po_sources := po_sources p @ [(po_next_src p, s)], po_next_src := po_next_src p + 1\<rparr>)"

lemma dispatch_session:
  assumes "po_sessions p s = Some x" "session_ok True x" "3 < po_interrupt_fd p"
  shows "evd_poll_dispatch_event (Session s, ev) p = Some (event_session s ev x p)"
  using assms
  by (cases x) (auto simp: evd_poll_dispatch_event_def evd_poll_check_and_consume_interrupt_event_def evd_poll_session_ref_def
      evd_poll_session_unref_def session_ok_def event_session_def numeral_3_eq_3 Let_def split: if_splits)

lemma dispatch_interrupt:
  "0 < po_pipe p \<Longrightarrow> evd_poll_dispatch_event (Interrupt_fds, ev) p = Some (p\<lparr>po_pipe := po_pipe p - 1024\<rparr>)"
  by (simp add: evd_poll_dispatch_event_def evd_poll_check_and_consume_interrupt_event_def)

lemma wrapper_session:
  assumes "po_sessions p s = Some x" "session_ok True x" "ps_src_id x \<noteq> 0"
  shows "evd_poll_callback_wrapper s p =
    Some ((set_session s (x\<lparr>ps_ref_count := 2, ps_cond_out := 0, ps_src_id := 0\<rparr>) p)\<lparr>po_calls := po_calls p @ [(s, ps_cond_out x)]\<rparr>)"
  using assms by (cases x) (simp add: evd_poll_callback_wrapper_def evd_poll_session_unref_def session_ok_def)

text \<open>Deleted, the session is freed, or left with one reference if its descriptor was not in the set.\<close>

definition deleted_session :: "nat \<Rightarrow> EvdPollSession \<Rightarrow> EvdPoll \<Rightarrow> EvdPoll" where
  "deleted_session s x p =
     p\<lparr>po_events := map (\<lambda>e. if fst e = Session s then (Null, snd e) else e) (po_events p),
       po_sources := (if ps_src_id x \<noteq> 0 then filter (\<lambda>e. fst e \<noteq> ps_src_id x) (po_sources p) else po_sources p),
       po_epoll := filter (\<lambda>e. fst e \<noteq> ps_fd x) (po_epoll p),
       po_sessions := (po_sessions p)(s := (if ps_fd x \<in> fst ` set (po_epoll p) then None
         else Some (x\<lparr>ps_ref_count := 1, ps_src_id := 0, ps_callback := False\<rparr>))),
       po_owned := removeAll s (po_owned p)\<rparr>"

lemma filter_absent: "fd \<notin> fst ` set es \<Longrightarrow> filter (\<lambda>e. fst e \<noteq> fd) es = es"
  by (induction es) auto

lemma delete_owned:
  assumes "po_sessions p s = Some x" "session_ok True x"
  shows "delete_session s p = Some (deleted_session s x p)"
  using assms
  by (cases x, cases p) (auto simp: delete_session_def evd_poll_session_unref_def session_ok_def deleted_session_def g_source_remove_def
      epoll_ctl_del_def filter_absent Let_def)
section \<open>The invariant is kept\<close>

abbreviation core_inv :: "EvdPoll \<Rightarrow> bool" where
  "core_inv p \<equiv> sessions_ok p \<and> sources_ok p \<and> kernel_ok p"

lemmas core_defs = sessions_ok_def sources_ok_def kernel_ok_def

lemma owned_less: "sessions_ok p \<Longrightarrow> s \<in> set (po_owned p) \<Longrightarrow> s < po_next p"
  by (fastforce simp: sessions_ok_def)

lemma owned_ok:
  assumes "sessions_ok p" "s \<in> set (po_owned p)" "po_sessions p s = Some x"
  shows "session_ok True x"
proof -
  from assms have "session_ok (s \<in> set (po_owned p)) x" unfolding sessions_ok_def by blast
  with assms(2) show ?thesis by simp
qed

lemma source_of:
  assumes "sources_ok p" "(src, s) \<in> set (po_sources p)" "(src, s') \<in> set (po_sources p)"
  shows "s' = s"
  using assms by (auto simp: sources_ok_def intro: eq_key_imp_eq_value)

lemma unarmed_source:
  assumes "sources_ok p" "po_sessions p s = Some x" "ps_src_id x = 0"
  shows "(src, s) \<notin> set (po_sources p)"
  using assms by (fastforce simp: sources_ok_def)

lemma armed_source:
  assumes "sources_ok p" "po_sessions p s = Some x" "(src, s) \<in> set (po_sources p)"
  shows "ps_src_id x = src"
  using assms by (fastforce simp: sources_ok_def)

lemma event_session_inv:
  assumes "core_inv p" "s \<in> set (po_owned p)" "po_sessions p s = Some x"
  shows "core_inv (event_session s ev x p)"
proof -
  have x: "session_ok True x" using assms by (blast intro: owned_ok)
  show ?thesis
  proof (cases "ps_src_id x = 0")
    case True
    have "\<And>src. (src, s) \<notin> set (po_sources p)" using unarmed_source [OF _ assms(3) True] assms(1) by blast
    with True x assms show ?thesis
      by (fastforce simp: core_defs event_session_def session_ok_def)
  next
    case False
    with x assms show ?thesis by (fastforce simp: core_defs event_session_def session_ok_def)
  qed
qed

definition same_threads :: "EvdPoll \<Rightarrow> EvdPoll \<Rightarrow> bool" where
  "same_threads p p' \<longleftrightarrow> po_started p' = po_started p \<and> po_main_loop p' = po_main_loop p \<and> po_quit p' = po_quit p \<and>
     po_thread p' = po_thread p \<and> po_interrupt_fd p' = po_interrupt_fd p \<and> po_edge p' = po_edge p \<and>
     po_interrupt_mutex p' = po_interrupt_mutex p \<and> po_epoll_mutex p' = po_epoll_mutex p \<and>
     po_deleting p' = po_deleting p \<and> po_stopping p' = po_stopping p \<and> po_events p' = po_events p \<and> po_owned p' = po_owned p"

lemma dispatch_event_inv:
  assumes "core_inv p" "events_ok (e # es) p" "3 < po_interrupt_fd p"
  shows "\<exists>p'. evd_poll_dispatch_event e p = Some p' \<and> core_inv p' \<and> events_ok es p' \<and> same_threads p p' \<and> po_calls p' = po_calls p"
proof (cases e)
  case (Pair ptr ev)
  show ?thesis
  proof (cases ptr)
    case Null
    with Pair assms show ?thesis by (auto simp: evd_poll_dispatch_event_def events_ok_def same_threads_def)
  next
    case Interrupt_fds
    have none: "Interrupt_fds \<notin> fst ` set es" using assms(2) Pair Interrupt_fds by (auto simp: events_ok_def filter_empty_conv)
    have "0 < po_pipe p" using assms(2) Pair Interrupt_fds by (simp add: events_ok_def)
    then have "evd_poll_dispatch_event e p = Some (p\<lparr>po_pipe := po_pipe p - 1024\<rparr>)"
      using dispatch_interrupt Pair Interrupt_fds by simp
    moreover have "core_inv (p\<lparr>po_pipe := po_pipe p - 1024\<rparr>)" using assms(1) by (simp add: core_defs)
    moreover have "events_ok es (p\<lparr>po_pipe := po_pipe p - 1024\<rparr>)"
      using assms(2) none by (auto simp: events_ok_def Pair Interrupt_fds)
    ultimately show ?thesis by (auto simp: same_threads_def)
  next
    case (Session s)
    then have s: "s \<in> set (po_owned p)" using assms(2) Pair by (simp add: events_ok_def)
    then obtain x where x: "po_sessions p s = Some x" "session_ok True x" using assms(1) owned_session by metis
    have "events_ok es (event_session s ev x p)"
      using assms(2) by (auto simp: events_ok_def event_session_def Pair Session)
    with dispatch_session [OF x assms(3)] event_session_inv [OF assms(1) s x(1)] show ?thesis
      by (auto simp: Pair Session same_threads_def event_session_def)
  qed
qed

lemma same_threads_trans: "same_threads a b \<Longrightarrow> same_threads b c \<Longrightarrow> same_threads a c"
  by (simp add: same_threads_def)

lemma dispatch_events_inv:
  assumes "core_inv p" "events_ok es p" "3 < po_interrupt_fd p"
  shows "\<exists>p'. dispatch_events es p = Some p' \<and> core_inv p' \<and> same_threads p p' \<and> po_calls p' = po_calls p"
  using assms
proof (induction es arbitrary: p)
  case Nil
  then show ?case by (simp add: same_threads_def)
next
  case (Cons e es)
  obtain p1 where p1: "evd_poll_dispatch_event e p = Some p1" "core_inv p1" "events_ok es p1" "same_threads p p1" "po_calls p1 = po_calls p"
    using dispatch_event_inv [OF Cons.prems] by blast
  then have "3 < po_interrupt_fd p1" using Cons.prems(3) by (simp add: same_threads_def)
  with Cons.IH p1 show ?case by (fastforce intro: same_threads_trans)
qed

lemma deleted_session_inv:
  assumes "core_inv p" "s \<in> set (po_owned p)" "po_sessions p s = Some x"
  shows "core_inv (deleted_session s x p)"
proof -
  have x: "session_ok True x" using assms by (blast intro: owned_ok)
  have src: "t = s" if "(ps_src_id x, t) \<in> set (po_sources p)" "ps_src_id x \<noteq> 0" for t
    using assms that by (auto simp: sessions_ok_def intro: source_of)
  have fd: "fst (snd e) \<noteq> s" if "e \<in> set (po_epoll p)" "fst e \<noteq> ps_fd x" for e
    using assms that by (fastforce simp: kernel_ok_def)
  have other: "t \<noteq> s" if "(i, t) \<in> set (po_sources p)" "ps_src_id x = 0 \<or> i \<noteq> ps_src_id x" for i t
    using assms(1) that armed_source [OF _ assms(3)] unarmed_source [OF _ assms(3)] by blast
  have "sessions_ok (deleted_session s x p)"
    unfolding sessions_ok_def
  proof (intro conjI allI impI ballI)
    fix t y assume y: "po_sessions (deleted_session s x p) t = Some y"
    have s: "s < po_next p" using assms owned_less by blast
    have "t < po_next p \<and> session_ok (t \<in> set (removeAll s (po_owned p))) y \<and>
        (ps_src_id y \<noteq> 0 \<longrightarrow> (ps_src_id y, t) \<in> set (po_sources p) \<and> ps_src_id y \<noteq> ps_src_id x)"
    proof (cases "t = s")
      case True
      with y s show ?thesis by (auto simp: deleted_session_def session_ok_def split: if_splits)
    next
      case False
      with y have "po_sessions p t = Some y" by (simp add: deleted_session_def)
      with assms(1) have "t < po_next p" "session_ok (t \<in> set (po_owned p)) y" "ps_src_id y \<noteq> 0 \<longrightarrow> (ps_src_id y, t) \<in> set (po_sources p)"
        unfolding sessions_ok_def by blast+
      with False src [of t] show ?thesis by auto
    qed
    then show "t < po_next (deleted_session s x p)" "session_ok (t \<in> set (po_owned (deleted_session s x p))) y"
      "ps_src_id y \<noteq> 0 \<Longrightarrow> (ps_src_id y, t) \<in> set (po_sources (deleted_session s x p))"
      by (simp_all add: deleted_session_def)
  next
    fix t assume "t \<in> set (po_owned (deleted_session s x p))"
    with assms(1) show "po_sessions (deleted_session s x p) t \<noteq> None" by (auto simp: deleted_session_def sessions_ok_def)
  qed
  moreover have "sources_ok (deleted_session s x p)"
    using assms(1) by (auto simp: sources_ok_def deleted_session_def distinct_map_filter dest: other)
  moreover have "kernel_ok (deleted_session s x p)"
    unfolding kernel_ok_def
  proof (intro conjI ballI)
    show "distinct (map fst (po_epoll (deleted_session s x p)))"
      using assms(1) by (simp add: kernel_ok_def deleted_session_def distinct_map_filter)
    fix e assume "e \<in> set (po_epoll (deleted_session s x p))"
    then have e: "e \<in> set (po_epoll p)" "fst e \<noteq> ps_fd x" by (auto simp: deleted_session_def)
    with assms(1) fd [OF e] show "fst (snd e) \<in> set (po_owned (deleted_session s x p))"
      "\<exists>x'. po_sessions (deleted_session s x p) (fst (snd e)) = Some x' \<and> ps_fd x' = fst e"
      by (auto simp: kernel_ok_def deleted_session_def)
  qed
  ultimately show ?thesis by blast
qed
lemma wrapper_inv:
  assumes "core_inv p" "s \<in> set (po_owned p)" "po_sessions p s = Some x" "ps_src_id x = src" "src \<noteq> 0"
  shows "core_inv ((set_session s (x\<lparr>ps_ref_count := 2, ps_cond_out := 0, ps_src_id := 0\<rparr>) (g_source_remove src p))\<lparr>po_calls := cs\<rparr>)"
proof -
  let ?p = "(set_session s (x\<lparr>ps_ref_count := 2, ps_cond_out := 0, ps_src_id := 0\<rparr>) (g_source_remove src p))\<lparr>po_calls := cs\<rparr>"
  have x: "session_ok True x" using assms by (blast intro: owned_ok)
  have src: "t = s" if "(src, t) \<in> set (po_sources p)" for t
    using assms that by (auto simp: sessions_ok_def intro: source_of)
  have other: "t \<noteq> s" if "(i, t) \<in> set (po_sources p)" "i \<noteq> src" for i t
    using assms that armed_source [OF _ assms(3)] by blast
  have "sessions_ok ?p"
    unfolding sessions_ok_def
  proof (intro conjI allI impI ballI)
    fix t y assume y: "po_sessions ?p t = Some y"
    have "t < po_next p \<and> session_ok (t \<in> set (po_owned p)) y \<and>
        (ps_src_id y \<noteq> 0 \<longrightarrow> (ps_src_id y, t) \<in> set (po_sources p) \<and> ps_src_id y \<noteq> src)"
    proof (cases "t = s")
      case True
      with y x assms show ?thesis using owned_less [of p s] by (auto simp: session_ok_def g_source_remove_def)
    next
      case False
      with y have "po_sessions p t = Some y" by (simp add: g_source_remove_def)
      with assms(1) have "t < po_next p" "session_ok (t \<in> set (po_owned p)) y" "ps_src_id y \<noteq> 0 \<longrightarrow> (ps_src_id y, t) \<in> set (po_sources p)"
        unfolding sessions_ok_def by blast+
      with False src [of t] show ?thesis by auto
    qed
    then show "t < po_next ?p" "session_ok (t \<in> set (po_owned ?p)) y" "ps_src_id y \<noteq> 0 \<Longrightarrow> (ps_src_id y, t) \<in> set (po_sources ?p)"
      by (simp_all add: g_source_remove_def)
  next
    fix t assume "t \<in> set (po_owned ?p)"
    with assms(1) show "po_sessions ?p t \<noteq> None" by (auto simp: g_source_remove_def sessions_ok_def)
  qed
  moreover have "sources_ok ?p"
    using assms(1) by (auto simp: sources_ok_def g_source_remove_def distinct_map_filter dest: other)
  moreover have "kernel_ok ?p"
    using assms(1,3) by (fastforce simp: kernel_ok_def g_source_remove_def)
  ultimately show ?thesis by blast
qed

text \<open>Adding a session.\<close>

lemma added_inv:
  assumes "core_inv p" "fd \<notin> fst ` set (po_epoll p)" "session_ok True x" "ps_src_id x = 0" "ps_fd x = fd" "s = po_next p"
  shows "core_inv ((set_session s x p)\<lparr>po_next := s + 1, po_epoll := po_epoll p @ [(fd, s, evs)], po_owned := s # po_owned p\<rparr>)"
proof -
  have fresh: "po_sessions p s = None" "s \<notin> set (po_owned p)"
    using assms(1,6) owned_less [of p s] by (fastforce simp: sessions_ok_def)+
  let ?p = "(set_session s x p)\<lparr>po_next := s + 1, po_epoll := po_epoll p @ [(fd, s, evs)], po_owned := s # po_owned p\<rparr>"
  have "sessions_ok ?p"
    unfolding sessions_ok_def
  proof (intro conjI allI impI ballI)
    fix t y assume y: "po_sessions ?p t = Some y"
    have "t < po_next p + 1 \<and> session_ok (t = s \<or> t \<in> set (po_owned p)) y \<and> (ps_src_id y \<noteq> 0 \<longrightarrow> (ps_src_id y, t) \<in> set (po_sources p))"
    proof (cases "t = s")
      case True
      with y assms show ?thesis by simp
    next
      case False
      with y have "po_sessions p t = Some y" by simp
      with assms(1) have "t < po_next p" "session_ok (t \<in> set (po_owned p)) y" "ps_src_id y \<noteq> 0 \<longrightarrow> (ps_src_id y, t) \<in> set (po_sources p)"
        unfolding sessions_ok_def by blast+
      with False show ?thesis by auto
    qed
    with assms(6) show "t < po_next ?p" "session_ok (t \<in> set (po_owned ?p)) y" "ps_src_id y \<noteq> 0 \<Longrightarrow> (ps_src_id y, t) \<in> set (po_sources ?p)"
      by simp_all
  next
    fix t assume "t \<in> set (po_owned ?p)"
    with assms(1) show "po_sessions ?p t \<noteq> None" by (auto simp: sessions_ok_def)
  qed
  moreover have "sources_ok ?p" using assms(1) fresh by (fastforce simp: sources_ok_def)
  moreover have "kernel_ok ?p" using assms fresh by (auto simp: kernel_ok_def)
  ultimately show ?thesis by blast
qed

lemma not_added_inv:
  assumes "core_inv p" "s = po_next p"
  shows "core_inv (p\<lparr>po_next := s + 1, po_sessions := (po_sessions p)(s := None)\<rparr>)"
proof -
  have "po_sessions p s = None" using assms by (fastforce simp: sessions_ok_def)
  then have "(po_sessions p)(s := None) = po_sessions p" by auto
  with assms show ?thesis by (fastforce simp: core_defs)
qed

text \<open>Changing what is asked for, and closing a descriptor.\<close>

lemma mod_inv:
  assumes "core_inv p" "s \<in> set (po_owned p)" "po_sessions p s = Some x"
  shows "core_inv (set_session s (x\<lparr>ps_priority := pr, ps_cond_in := c\<rparr>) p)"
proof -
  have x: "session_ok True x" using assms by (blast intro: owned_ok)
  let ?y = "x\<lparr>ps_priority := pr, ps_cond_in := c\<rparr>"
  have y: "session_ok True ?y" "ps_src_id ?y = ps_src_id x" "ps_fd ?y = ps_fd x" using x by (auto simp: session_ok_def)
  have "s < po_next p" "ps_src_id x \<noteq> 0 \<longrightarrow> (ps_src_id x, s) \<in> set (po_sources p)" using assms unfolding sessions_ok_def by blast+
  with assms y have "sessions_ok (set_session s ?y p)" by (auto simp: sessions_ok_def)
  moreover have "sources_ok (set_session s ?y p)" "kernel_ok (set_session s ?y p)"
    using assms(1,3) by (fastforce simp: sources_ok_def kernel_ok_def)+
  ultimately show ?thesis by blast
qed

lemma epoll_mod_inv:
  assumes "core_inv p" "s \<in> set (po_owned p)" "po_sessions p s = Some x"
  shows "core_inv (fst (epoll_ctl_mod (ps_fd x) c s p))"
proof -
  have "fst \<circ> (\<lambda>e. if fst e = ps_fd x then (ps_fd x, s, epoll_events c) else e) = fst" by auto
  with assms have "kernel_ok (p\<lparr>po_epoll := map (\<lambda>e. if fst e = ps_fd x then (ps_fd x, s, epoll_events c) else e) (po_epoll p)\<rparr>)"
    by (auto simp: kernel_ok_def)
  with assms show ?thesis by (auto simp: epoll_ctl_mod_def sessions_ok_def sources_ok_def)
qed

lemma close_fd_inv: "core_inv p \<Longrightarrow> core_inv (close_fd fd p)"
  by (auto simp: close_fd_def epoll_ctl_del_def core_defs distinct_map_filter)
primrec safe :: "outcome \<Rightarrow> bool" where
  "safe Blocked = True"
| "safe Crash = False"
| "safe (Done p) = poll_inv p"

lemma events_ok_mono:
  assumes "events_ok es p" "0 < po_pipe p \<Longrightarrow> 0 < po_pipe p'" "set (po_owned p) \<subseteq> set (po_owned p')"
  shows "events_ok es p'"
  using assms by (auto simp: events_ok_def)

lemma poll_inv_frame:
  assumes "poll_inv p" "core_inv p'" "same_threads p p'" "po_pipe p' = po_pipe p"
  shows "poll_inv p'"
proof -
  have "events_ok (po_events p') p'" using assms events_ok_mono [of "po_events p" p p'] by (simp add: poll_inv_def same_threads_def)
  moreover have "threads_ok p'" using assms by (simp add: poll_inv_def threads_ok_def same_threads_def)
  ultimately show ?thesis using assms(2) by (simp add: poll_inv_def)
qed

definition same_core :: "EvdPoll \<Rightarrow> EvdPoll \<Rightarrow> bool" where
  "same_core p p' \<longleftrightarrow> po_sessions p' = po_sessions p \<and> po_next p' = po_next p \<and> po_epoll p' = po_epoll p \<and>
     po_sources p' = po_sources p \<and> po_next_src p' = po_next_src p \<and> po_owned p' = po_owned p \<and>
     po_events p' = po_events p \<and> po_pipe p \<le> po_pipe p'"

lemma same_core_inv: "same_core p p' \<Longrightarrow> core_inv p \<Longrightarrow> core_inv p'"
  by (simp add: same_core_def core_defs)

lemma poll_inv_core:
  assumes "poll_inv p" "same_core p p'" "threads_ok p'"
  shows "poll_inv p'"
proof -
  have "events_ok (po_events p') p'"
    using assms(1,2) events_ok_mono [of "po_events p" p p'] by (simp add: poll_inv_def same_core_def)
  with assms same_core_inv [OF assms(2)] show ?thesis by (simp add: poll_inv_def)
qed

lemma events_ok_deleted:
  assumes "events_ok (po_events p) p"
  shows "events_ok (po_events (deleted_session s x p)) (deleted_session s x p)"
proof -
  let ?null = "\<lambda>e. if fst e = Session s then (Null, snd e) else e :: event_ptr \<times> 32 word"
  have fields: "po_events (deleted_session s x p) = map ?null (po_events p)" "po_pipe (deleted_session s x p) = po_pipe p"
    "set (po_owned (deleted_session s x p)) = set (po_owned p) - {s}"
    by (simp_all add: deleted_session_def)
  have len: "length (filter (\<lambda>e. fst e = Interrupt_fds) (map ?null es)) = length (filter (\<lambda>e. fst e = Interrupt_fds) es)" for es
    by (induction es) auto
  have int: "Interrupt_fds \<in> fst ` set (map ?null es) \<longleftrightarrow> Interrupt_fds \<in> fst ` set es" for es
    by (induction es) auto
  have ses: "Session t \<in> fst ` set (map ?null es) \<longleftrightarrow> t \<noteq> s \<and> Session t \<in> fst ` set es" for es t
    by (induction es) auto
  show ?thesis using assms unfolding events_ok_def fields len int ses by blast
qed

lemma add_safe: "poll_inv p \<Longrightarrow> pipe_fd_ok (Add start ok fd cond priority) \<Longrightarrow> safe (evd_poll_add start ok fd cond priority p)"
proof (cases "main_waits p")
  case False
  assume inv: "poll_inv p" and fd: "pipe_fd_ok (Add start ok fd cond priority)"
  define q where "q = (if po_started p then p else fst (evd_poll_start start p))"
  define running where "running = (if po_started p then True else snd (evd_poll_start start p))"
  have frame: "po_sessions q = po_sessions p" "po_next q = po_next p" "po_epoll q = po_epoll p" "po_owned q = po_owned p"
    "po_sources q = po_sources p" "po_next_src q = po_next_src p" "po_pipe q = po_pipe p" "po_events q = po_events p"
    "po_edge q = po_edge p" "po_interrupt_mutex q = po_interrupt_mutex p" "po_deleting q = po_deleting p"
    "po_epoll_mutex q = po_epoll_mutex p"
    by (auto simp: q_def evd_poll_start_def split: option.splits)
  then have core: "core_inv q" "events_ok (po_events q) q" using inv by (auto simp: poll_inv_def core_defs events_ok_def)
  have no: "po_deleting p = None" "po_epoll_mutex p = None" "\<not> po_stopping p" using False by (auto simp: main_waits_def)
  show ?thesis
  proof (cases running)
    case False
    then have q: "\<not> po_started p" "q = p\<lparr>po_started := True\<rparr>" by (auto simp: running_def q_def evd_poll_start_def split: if_splits option.splits)
    have "threads_ok (q\<lparr>po_epoll_mutex := Some Main_thread\<rparr>)"
      using inv no q by (auto simp: poll_inv_def threads_ok_def)
    then have "poll_inv (q\<lparr>po_epoll_mutex := Some Main_thread\<rparr>)"
      using core by (auto simp: poll_inv_def core_defs events_ok_def)
    with q no show ?thesis using False
      by (simp add: evd_poll_add_def main_waits_def running_def split: prod.split) (simp add: evd_poll_start_def split: option.splits)
  next
    case True
    have th: "threads_ok q" "po_thread q \<noteq> Not_started"
      using inv no True fd by (auto simp: poll_inv_def threads_ok_def q_def running_def evd_poll_start_def split: if_splits option.splits)
    let ?s = "po_next q"
    let ?x = "\<lparr>ps_ref_count = 2, ps_fd = fd, ps_cond_in = cond, ps_cond_out = 0, ps_priority = priority, ps_callback = True, ps_src_id = 0\<rparr>"
    have res: "evd_poll_add start ok fd cond priority p =
        (if ok \<and> fd \<notin> fst ` set (po_epoll q)
         then Done ((set_session ?s ?x q)\<lparr>po_next := ?s + 1, po_epoll := po_epoll q @ [(fd, ?s, epoll_events cond)], po_owned := ?s # po_owned q\<rparr>)
         else Done (q\<lparr>po_next := ?s + 1, po_sessions := (po_sessions q)(?s := None)\<rparr>))"
      using True False \<open>\<not> main_waits p\<close>
      by (cases q) (auto simp: evd_poll_add_def running_def q_def epoll_ctl_add_def evd_poll_session_unref_def evd_poll_session_ref_def
          Let_def numeral_2_eq_2 split: prod.splits if_splits)
    show ?thesis
    proof (cases "ok \<and> fd \<notin> fst ` set (po_epoll q)")
      case True
      let ?p = "(set_session ?s ?x q)\<lparr>po_next := ?s + 1, po_epoll := po_epoll q @ [(fd, ?s, epoll_events cond)], po_owned := ?s # po_owned q\<rparr>"
      have "core_inv ?p" using added_inv [OF core(1), of fd ?x ?s] True by (simp add: session_ok_def)
      moreover have "events_ok (po_events ?p) ?p" using core(2) by (auto intro: events_ok_mono)
      moreover have "threads_ok ?p" using th by (auto simp: threads_ok_def split: option.splits)
      ultimately show ?thesis using res True by (simp add: poll_inv_def)
    next
      case False
      let ?p = "q\<lparr>po_next := ?s + 1, po_sessions := (po_sessions q)(?s := None)\<rparr>"
      have "core_inv ?p" by (rule not_added_inv [OF core(1) refl])
      moreover have "events_ok (po_events ?p) ?p" using core(2) by (auto intro: events_ok_mono)
      moreover have "threads_ok ?p" using th by (auto simp: threads_ok_def split: option.splits)
      ultimately show ?thesis using res False by (simp add: poll_inv_def)
    qed
  qed
qed (simp add: evd_poll_add_def)

lemma mod_safe: "poll_inv p \<Longrightarrow> s \<in> set (po_owned p) \<Longrightarrow> safe (evd_poll_mod s cond priority p)"
proof (cases "main_waits p")
  case False
  assume inv: "poll_inv p" and s: "s \<in> set (po_owned p)"
  then obtain x where x: "po_sessions p s = Some x" using owned_session unfolding poll_inv_def by metis
  let ?y = "x\<lparr>ps_priority := priority, ps_cond_in := cond\<rparr>"
  let ?p = "set_session s ?y p"
  have c: "core_inv ?p" using mod_inv [OF _ s x] inv by (simp add: poll_inv_def)
  then have "core_inv (fst (epoll_ctl_mod (ps_fd ?y) cond s ?p))" by (rule epoll_mod_inv) (use s in simp_all)
  then have c': "core_inv (fst (epoll_ctl_mod (ps_fd x) cond s ?p))" by simp
  have "poll_inv ?p" "poll_inv (fst (epoll_ctl_mod (ps_fd x) cond s ?p))"
    using poll_inv_frame [OF inv c] poll_inv_frame [OF inv c'] by (auto simp: same_threads_def epoll_ctl_mod_def)
  with False x show ?thesis by (simp add: evd_poll_mod_def Let_def)
qed (simp add: evd_poll_mod_def)

lemma delete_safe:
  assumes "poll_inv p" "s \<in> set (po_owned p)" "po_thread p \<noteq> Waiting"
  shows "\<exists>p'. delete_session s p = Some p' \<and> poll_inv (p'\<lparr>po_deleting := None, po_epoll_mutex := None\<rparr>) \<and>
    po_deleting p' = po_deleting p \<and> po_epoll_mutex p' = po_epoll_mutex p \<and> s \<notin> set (po_owned p')"
proof -
  obtain x where x: "po_sessions p s = Some x" "session_ok True x"
    using assms(1,2) owned_session unfolding poll_inv_def by metis
  let ?p = "(deleted_session s x p)\<lparr>po_deleting := None, po_epoll_mutex := None\<rparr>"
  have "core_inv (deleted_session s x p)" using deleted_session_inv [OF _ assms(2) x(1)] assms(1) by (simp add: poll_inv_def)
  then have "core_inv ?p" by (simp add: core_defs)
  moreover have "events_ok (po_events ?p) ?p"
    using events_ok_deleted [of p s x] assms(1) by (auto simp: poll_inv_def intro: events_ok_mono)
  moreover have "threads_ok ?p"
    using assms by (auto simp: poll_inv_def threads_ok_def deleted_session_def split: option.splits)
  ultimately have "poll_inv ?p" by (simp add: poll_inv_def)
  with delete_owned [OF x] show ?thesis by (simp add: deleted_session_def)
qed

lemma del_safe: "poll_inv p \<Longrightarrow> s \<in> set (po_owned p) \<Longrightarrow> safe (evd_poll_del s p)"
proof (cases "main_waits p")
  case False
  assume inv: "poll_inv p" and s: "s \<in> set (po_owned p)"
  show ?thesis
  proof (cases "po_interrupt_mutex p = None")
    case True
    then have "po_thread p \<noteq> Waiting" using inv by (simp add: poll_inv_def threads_ok_def)
    from delete_safe [OF inv s this] obtain p' where p': "delete_session s p = Some p'"
      "poll_inv (p'\<lparr>po_deleting := None, po_epoll_mutex := None\<rparr>)" "po_deleting p' = None" "po_epoll_mutex p' = None"
      using False by (auto simp: main_waits_def)
    then have "p'\<lparr>po_deleting := None, po_epoll_mutex := None\<rparr> = p'" by (cases p') simp
    with p' False True show ?thesis by (simp add: evd_poll_del_def)
  next
    case mutex: False
    let ?p = "(evd_poll_interrupt_epoll_wait p)\<lparr>po_epoll_mutex := Some Main_thread, po_deleting := Some s\<rparr>"
    have "poll_inv ?p"
      by (rule poll_inv_core [OF inv])
        (use inv s mutex in \<open>auto simp: same_core_def poll_inv_def threads_ok_def evd_poll_interrupt_epoll_wait_def\<close>)
    with False mutex show ?thesis by (auto simp: evd_poll_del_def)
  qed
qed (simp add: evd_poll_del_def)

lemma del_locked_safe: "poll_inv p \<Longrightarrow> safe (del_locked p)"
proof (cases "po_deleting p = None \<or> po_interrupt_mutex p \<noteq> None")
  case False
  assume inv: "poll_inv p"
  from False obtain s where s: "po_deleting p = Some s" by auto
  have "s \<in> set (po_owned p)" "po_thread p \<noteq> Waiting" using inv s False by (auto simp: poll_inv_def threads_ok_def)
  from delete_safe [OF inv this] False s show ?thesis by (auto simp: del_locked_def)
qed (auto simp: del_locked_def split: option.splits)
lemma run_poll_source_safe: "poll_inv p \<Longrightarrow> safe (run_poll_source src p)"
proof (cases "main_waits p \<or> map_of (po_sources p) src = None")
  case False
  assume inv: "poll_inv p"
  from False obtain s where s: "map_of (po_sources p) src = Some s" by auto
  then have mem: "(src, s) \<in> set (po_sources p)" by (rule map_of_SomeD)
  then obtain x where x: "po_sessions p s = Some x" "ps_src_id x = src" "src \<noteq> 0"
    using inv by (fastforce simp: poll_inv_def sources_ok_def)
  have own: "s \<in> set (po_owned p)"
  proof (rule ccontr)
    assume "s \<notin> set (po_owned p)"
    moreover have "session_ok (s \<in> set (po_owned p)) x" using inv x(1) unfolding poll_inv_def sessions_ok_def by blast
    ultimately have "session_ok False x" by simp
    with x show False by (simp add: session_ok_def)
  qed
  have ok: "session_ok True x" using inv own x(1) by (auto simp: poll_inv_def intro: owned_ok)
  let ?p = "(set_session s (x\<lparr>ps_ref_count := 2, ps_cond_out := 0, ps_src_id := 0\<rparr>) (g_source_remove src p))
    \<lparr>po_calls := po_calls (g_source_remove src p) @ [(s, ps_cond_out x)]\<rparr>"
  have "evd_poll_callback_wrapper s (g_source_remove src p) = Some ?p"
    by (rule wrapper_session) (use x ok in \<open>simp_all add: g_source_remove_def\<close>)
  moreover have "core_inv ?p" using wrapper_inv [OF _ own x] inv by (simp add: poll_inv_def)
  then have "poll_inv ?p" by (rule poll_inv_frame [OF inv]) (simp_all add: same_threads_def g_source_remove_def)
  ultimately show ?thesis using False s by (simp add: run_poll_source_def)
qed (auto simp: run_poll_source_def split: option.splits)

lemma process_safe: "poll_inv p \<Longrightarrow> safe (dispatch_process p)"
proof (cases "po_thread p \<noteq> Returned \<or> po_epoll_mutex p \<noteq> None")
  case False
  assume inv: "poll_inv p"
  then have fd: "3 < po_interrupt_fd p" using False by (simp add: poll_inv_def threads_ok_def)
  obtain q where q: "(if po_started p then dispatch_events (po_events p) p else Some p) = Some q" "core_inv q" "same_threads p q"
    using dispatch_events_inv [of p "po_events p"] inv fd by (cases "po_started p") (auto simp: poll_inv_def same_threads_def)
  let ?p = "q\<lparr>po_events := [], po_thread := (if po_started q then Between else if po_quit q then Ended else Loop_without_source),
    po_main_loop := (po_main_loop q \<and> (po_started q \<or> \<not> po_quit q))\<rparr>"
  have del: "po_deleting q = None" "po_started q = po_started p" "po_stopping q = po_stopping p" "po_interrupt_mutex q = None" "po_owned q = po_owned p"
    "3 < po_interrupt_fd q"
    using q(3) inv False fd by (cases "po_deleting p"; simp add: same_threads_def poll_inv_def threads_ok_def)+
  have "threads_ok ?p" using inv False del by (simp add: poll_inv_def threads_ok_def) blast
  moreover have "core_inv ?p" using q(2) by (simp add: core_defs)
  moreover have "events_ok [] ?p" by (simp add: events_ok_def)
  ultimately have "poll_inv ?p" by (simp add: poll_inv_def)
  with q(1) False show ?thesis by (simp add: dispatch_process_def)
qed (auto simp: dispatch_process_def)

lemma return_safe: "poll_inv p \<Longrightarrow> safe (dispatch_return es p)"
proof (cases "po_thread p = Waiting \<and> es \<noteq> [] \<and> list_all (reportable p) es \<and> distinct (map fst es)")
  case True
  assume inv: "poll_inv p"
  let ?p = "p\<lparr>po_thread := Returned, po_events := es, po_interrupt_mutex := None,
    po_edge := po_edge p \<and> Interrupt_fds \<notin> set (map fst es)\<rparr>"
  have "length (filter (\<lambda>e. fst e = Interrupt_fds) es) \<le> 1" if "distinct (map fst es)" for es :: "(event_ptr \<times> 32 word) list"
    using that by (induction es) (auto simp: filter_empty_conv image_iff)
  moreover have "fst e = Interrupt_fds \<Longrightarrow> 0 < po_pipe p" "fst e = Session s \<Longrightarrow> s \<in> set (po_owned p)" if "e \<in> set es" for e s
  proof -
    have "reportable p e" using True that by (auto simp: list_all_iff)
    then show "fst e = Interrupt_fds \<Longrightarrow> 0 < po_pipe p" "fst e = Session s \<Longrightarrow> s \<in> set (po_owned p)"
      using inv by (auto simp: reportable_def poll_inv_def kernel_ok_def list_ex_iff)
  qed
  ultimately have "events_ok (po_events ?p) ?p" using True by (auto simp: events_ok_def)
  moreover have "core_inv ?p" using inv by (simp add: poll_inv_def core_defs)
  moreover have "threads_ok ?p" using inv True by (auto simp: poll_inv_def threads_ok_def)
  ultimately have "poll_inv ?p" by (simp add: poll_inv_def)
  with True show ?thesis by (simp add: dispatch_return_def)
qed (auto simp: dispatch_return_def)

lemma wait_safe: "poll_inv p \<Longrightarrow> safe (dispatch_wait p)"
proof -
  assume inv: "poll_inv p"
  have "poll_inv (p\<lparr>po_thread := Ended, po_main_loop := False\<rparr>)" if "po_thread p = Between"
    by (rule poll_inv_core [OF inv]) (use inv that in \<open>auto simp: same_core_def poll_inv_def threads_ok_def\<close>)
  moreover have "poll_inv (p\<lparr>po_thread := Waiting, po_interrupt_mutex := Some Dispatch_thread\<rparr>)" if "po_thread p = Between"
    by (rule poll_inv_core [OF inv]) (use inv that in \<open>auto simp: same_core_def poll_inv_def threads_ok_def\<close>)
  ultimately show ?thesis by (simp add: dispatch_wait_def)
qed

lemma thread_loop_safe: "poll_inv p \<Longrightarrow> safe (evd_poll_thread_loop p)"
proof -
  assume inv: "poll_inv p"
  have "poll_inv (p\<lparr>po_thread := Between, po_main_loop := True\<rparr>)" if "po_thread p = Starting"
    by (rule poll_inv_core [OF inv]) (use inv that in \<open>auto simp: same_core_def poll_inv_def threads_ok_def\<close>)
  then show ?thesis by (simp add: evd_poll_thread_loop_def)
qed

lemma stop_safe: "poll_inv p \<Longrightarrow> safe (evd_poll_stop p)"
proof -
  assume inv: "poll_inv p"
  let ?p = "(evd_poll_interrupt_epoll_wait p)\<lparr>po_started := False, po_stopping := True, po_quit := po_quit p \<or> po_main_loop p\<rparr>"
  have "poll_inv ?p" if "\<not> main_waits p"
    by (rule poll_inv_core [OF inv])
      (use inv that in \<open>auto simp: same_core_def poll_inv_def threads_ok_def main_waits_def evd_poll_interrupt_epoll_wait_def\<close>)
  then show ?thesis by (simp add: evd_poll_stop_def)
qed

lemma close_fd_safe: "poll_inv p \<Longrightarrow> safe (Done (close_fd fd p))"
proof -
  assume inv: "poll_inv p"
  have "same_threads p (close_fd fd p)" "po_pipe (close_fd fd p) = po_pipe p"
    by (simp_all add: same_threads_def close_fd_def epoll_ctl_del_def)
  moreover have "core_inv (close_fd fd p)" using inv by (intro close_fd_inv) (simp add: poll_inv_def)
  ultimately show ?thesis using poll_inv_frame [OF inv] by simp
qed

lemma poll_do_safe:
  assumes "poll_inv p" "pipe_fd_ok op"
  shows "safe (poll_do op p)"
proof (cases op)
  case (Mod s c pr)
  with assms show ?thesis by (auto simp: mod_safe simp del: safe.simps) simp
next
  case (Del s)
  with assms show ?thesis by (auto simp: del_safe simp del: safe.simps) simp
next
  case (Close_fd fd)
  with assms show ?thesis using close_fd_safe by (simp del: safe.simps)
qed (use assms in \<open>simp_all add: add_safe del_locked_safe run_poll_source_safe stop_safe thread_loop_safe
      wait_safe return_safe process_safe del: safe.simps pipe_fd_ok.simps\<close>)

lemma poll_reachable_inv: "poll_reachable p \<Longrightarrow> poll_inv p"
proof (induction rule: poll_reachable.induct)
  case poll_start
  show ?case by (rule poll_inv_init)
next
  case (poll_step p op p')
  with poll_do_safe [of p op] show ?case by simp
qed

text \<open>
  As a machine of the two threads, where a step that has to wait does nothing: every schedule runs
  through.
\<close>

definition poll_turn :: "EvdPoll \<Rightarrow> poll_op \<Rightarrow> EvdPoll option" where
  "poll_turn p op = (case poll_do op p of Blocked \<Rightarrow> Some p | Crash \<Rightarrow> None | Done p' \<Rightarrow> Some p')"

interpretation schedule: invariant_machine poll_turn poll_inv pipe_fd_ok
proof
  fix p op assume "poll_inv p" "pipe_fd_ok op"
  with poll_do_safe [of p op] show "\<exists>p'. poll_turn p op = Some p' \<and> poll_inv p'"
    by (cases "poll_do op p") (simp_all add: poll_turn_def)
qed

lemma poll_schedule_defined: "list_all pipe_fd_ok ops \<Longrightarrow> \<exists>p. run_ops poll_turn evd_poll_init ops = Some p \<and> poll_inv p"
  by (rule schedule.run_ops_defined [OF poll_inv_init])

section \<open>Events reach their callbacks\<close>

definition announced :: "nat \<Rightarrow> 32 word \<Rightarrow> EvdPoll \<Rightarrow> bool" where
  "announced s c p \<longleftrightarrow> (\<exists>x. po_sessions p s = Some x \<and> ps_src_id x \<noteq> 0 \<and> ps_cond_out x AND c = c)"

lemma and_or_absorb: "(a OR b) AND b = (b :: 32 word)"
  by (simp add: bit.conj_disj_distrib2 bit_eq_iff bit_simps)

lemma and_or_keep: "a AND c = c \<Longrightarrow> (a OR b) AND c = (c :: 32 word)"
  by (auto simp: bit_eq_iff bit_simps)

lemma event_announces:
  assumes "sources_ok p"
  shows "announced s (io_condition ev) (event_session s ev x p)"
  using assms by (auto simp: announced_def event_session_def sources_ok_def and_or_absorb)

lemma event_keeps:
  assumes "announced s c p" "po_sessions p t = Some x"
  shows "announced s c (event_session t ev x p)"
  using assms by (auto simp: announced_def event_session_def and_or_keep)

lemma dispatch_event_keeps:
  assumes "core_inv p" "events_ok (e # es) p" "3 < po_interrupt_fd p" "evd_poll_dispatch_event e p = Some p'"
  shows "(announced s c p \<longrightarrow> announced s c p') \<and> (fst e = Session s \<longrightarrow> announced s (io_condition (snd e)) p')"
proof (cases e)
  case (Pair ptr ev)
  show ?thesis
  proof (cases ptr)
    case (Session t)
    then have "t \<in> set (po_owned p)" using assms(2) Pair by (auto simp: events_ok_def)
    then obtain x where x: "po_sessions p t = Some x" "session_ok True x" using assms(1) owned_session by metis
    with dispatch_session [OF x assms(3), of ev] assms(4) Pair Session have "p' = event_session t ev x p" by simp
    with x(1) assms(1) Pair Session show ?thesis by (auto intro: event_keeps event_announces)
  next
    case Interrupt_fds
    with assms Pair have "p' = p\<lparr>po_pipe := po_pipe p - 1024\<rparr>" by (auto simp: events_ok_def dispatch_interrupt)
    with Pair Interrupt_fds show ?thesis by (simp add: announced_def)
  next
    case Null
    with assms(4) Pair show ?thesis by (simp add: evd_poll_dispatch_event_def)
  qed
qed

lemma dispatch_events_announce:
  assumes "core_inv p" "events_ok es p" "3 < po_interrupt_fd p" "dispatch_events es p = Some p'"
  shows "(announced s c p \<longrightarrow> announced s c p') \<and> ((Session s, ev) \<in> set es \<longrightarrow> announced s (io_condition ev) p')"
  using assms
proof (induction es arbitrary: p c ev)
  case Nil
  then show ?case by simp
next
  case (Cons e es)
  obtain p1 where p1: "evd_poll_dispatch_event e p = Some p1" "core_inv p1" "events_ok es p1" "same_threads p p1"
    using dispatch_event_inv [OF Cons.prems(1-3)] by blast
  then have n: "3 < po_interrupt_fd p1" "dispatch_events es p1 = Some p'" using Cons.prems by (simp_all add: same_threads_def)
  have k: "(announced s d p \<longrightarrow> announced s d p1) \<and> (fst e = Session s \<longrightarrow> announced s (io_condition (snd e)) p1)" for d
    using dispatch_event_keeps [OF Cons.prems(1-3) p1(1)] by blast
  note ih = Cons.IH [OF p1(2,3) n]
  have "announced s c p \<longrightarrow> announced s c p'" using k ih by blast
  moreover have "announced s (io_condition ev) p'" if "(Session s, ev) \<in> set (e # es)"
  proof (cases "e = (Session s, ev)")
    case True
    with k have "announced s (io_condition ev) p1" by simp
    with ih show ?thesis by blast
  next
    case False
    with that ih show ?thesis by simp
  qed
  ultimately show ?case by blast
qed

lemma run_poll_source_call:
  assumes "poll_inv p" "\<not> main_waits p" "po_sessions p s = Some x" "ps_src_id x \<noteq> 0"
  shows "\<exists>q. run_poll_source (ps_src_id x) p = Done q \<and> po_calls q = po_calls p @ [(s, ps_cond_out x)] \<and> s \<in> set (po_owned p)"
proof -
  have mem: "(ps_src_id x, s) \<in> set (po_sources p)" and ok: "session_ok (s \<in> set (po_owned p)) x"
    using assms(1,3,4) unfolding poll_inv_def sessions_ok_def by blast+
  then have own: "s \<in> set (po_owned p)" "session_ok True x" using assms(4) by (auto simp: session_ok_def split: if_splits)
  have "map_of (po_sources p) (ps_src_id x) = Some s"
    using mem assms(1) by (intro map_of_is_SomeI) (auto simp: poll_inv_def sources_ok_def)
  then show ?thesis
    using assms(2,3) own wrapper_session [of "g_source_remove (ps_src_id x) p" s x] assms(4)
    by (simp add: run_poll_source_def g_source_remove_def)
qed

text \<open>Callbacks are called by sources only.\<close>

lemma unref_calls: "evd_poll_session_unref s p = Some r \<Longrightarrow> po_calls (fst r) = po_calls p"
  by (auto simp: evd_poll_session_unref_def g_source_remove_def Let_def bind_eq_Some_conv split: if_splits)

lemma ref_calls: "evd_poll_session_ref s p = Some p' \<Longrightarrow> po_calls p' = po_calls p"
  by (auto simp: evd_poll_session_ref_def bind_eq_Some_conv)

lemma delete_calls: "delete_session s p = Some p' \<Longrightarrow> po_calls p' = po_calls p"
  by (auto simp: delete_session_def bind_eq_Some_conv epoll_ctl_del_def g_source_remove_def Let_def split: if_splits
      dest!: unref_calls)

lemma add_calls: "evd_poll_add start ok fd c pr p = Done p' \<Longrightarrow> po_calls p' = po_calls p"
  by (auto simp: evd_poll_add_def evd_poll_start_def epoll_ctl_add_def Let_def split: if_splits option.splits prod.splits
      dest!: unref_calls ref_calls)

lemma mod_calls: "evd_poll_mod s c pr p = Done p' \<Longrightarrow> po_calls p' = po_calls p"
  by (auto simp: evd_poll_mod_def epoll_ctl_mod_def Let_def split: if_splits option.splits)

lemma del_calls: "evd_poll_del s p = Done p' \<Longrightarrow> po_calls p' = po_calls p"
  by (auto simp: evd_poll_del_def evd_poll_interrupt_epoll_wait_def split: if_splits option.splits dest: delete_calls)

lemma del_locked_calls: "del_locked p = Done p' \<Longrightarrow> po_calls p' = po_calls p"
  by (auto simp: del_locked_def split: if_splits option.splits dest: delete_calls)

lemma process_calls:
  assumes "poll_inv p" "dispatch_process p = Done p'"
  shows "po_calls p' = po_calls p"
proof -
  have "po_thread p = Returned" using assms(2) by (auto simp: dispatch_process_def split: if_splits)
  then have "core_inv p" "events_ok (po_events p) p" "3 < po_interrupt_fd p" using assms(1) by (auto simp: poll_inv_def threads_ok_def)
  from dispatch_events_inv [OF this] assms(2) show ?thesis by (auto simp: dispatch_process_def split: if_splits)
qed

lemmas calls_unchanged = add_calls mod_calls del_calls del_locked_calls

lemma calls_owned:
  assumes "poll_inv p" "poll_do op p = Done p'"
  shows "po_calls p' = po_calls p \<or> (\<exists>s c. po_calls p' = po_calls p @ [(s, c)] \<and> s \<in> set (po_owned p))"
proof (cases op)
  case Process
  with assms show ?thesis by (simp add: process_calls)
next
  case (Run_source src)
  with assms(2) have r: "run_poll_source src p = Done p'" by simp
  then obtain s where s: "\<not> main_waits p" "map_of (po_sources p) src = Some s" by (auto simp: run_poll_source_def split: if_splits option.splits)
  then have "(src, s) \<in> set (po_sources p)" by (simp add: map_of_SomeD)
  then obtain x where x: "po_sessions p s = Some x" "ps_src_id x = src" "src \<noteq> 0"
    using assms(1) by (fastforce simp: poll_inv_def sources_ok_def)
  from run_poll_source_call [OF assms(1) s(1) x(1)] x r show ?thesis by auto
qed (use assms(2) in \<open>auto split: if_splits dest!: calls_unchanged
      simp: evd_poll_stop_def evd_poll_interrupt_epoll_wait_def evd_poll_thread_loop_def dispatch_wait_def dispatch_return_def
        close_fd_def epoll_ctl_del_def\<close>)

text \<open>
  What becomes of an event that the kernel has reported for a session: it waits to be handed out, the
  source of the session is armed with its conditions, or the callback has got them since, unless the
  session is deleted or the poll object stopped.
\<close>

definition event_kept :: "nat \<Rightarrow> 32 word \<Rightarrow> nat \<Rightarrow> EvdPoll \<Rightarrow> bool" where
  "event_kept s ev n p \<longleftrightarrow> s < po_next p \<and>
     (s \<notin> set (po_owned p) \<or> po_stopping p \<or> (Session s, ev) \<in> set (po_events p) \<or> announced s (io_condition ev) p \<or>
      (\<exists>c. (s, c) \<in> set (drop n (po_calls p)) \<and> c AND io_condition ev = io_condition ev))"

lemma event_kept_frame:
  assumes "event_kept s ev n p" "po_next p \<le> po_next p'" "po_calls p' = po_calls p"
    "set (po_owned p') \<subseteq> insert (po_next p) (set (po_owned p))" "po_stopping p \<Longrightarrow> po_stopping p'"
    "s \<in> set (po_owned p') \<Longrightarrow> (Session s, ev) \<in> set (po_events p) \<Longrightarrow> event_kept s ev n p'"
    "s \<in> set (po_owned p') \<Longrightarrow> announced s (io_condition ev) p \<Longrightarrow> event_kept s ev n p'"
  shows "event_kept s ev n p'"
  using assms by (auto simp: event_kept_def)

lemma add_keeps:
  assumes "event_kept s ev n p" "evd_poll_add start ok fd c pr p = Done p'"
  shows "event_kept s ev n p'"
proof (rule event_kept_frame [OF assms(1)])
  show "po_calls p' = po_calls p" using assms(2) by (rule add_calls)
  have s: "s < po_next p" using assms(1) by (simp add: event_kept_def)
  show "po_next p \<le> po_next p'" "set (po_owned p') \<subseteq> insert (po_next p) (set (po_owned p))" "po_stopping p \<Longrightarrow> po_stopping p'"
    using assms(2)
    by (auto simp: evd_poll_add_def evd_poll_start_def epoll_ctl_add_def evd_poll_session_unref_def evd_poll_session_ref_def
        g_source_remove_def Let_def main_waits_def split: if_splits option.splits prod.splits)
  have "po_sessions p' s = po_sessions p s" "po_events p' = po_events p"
    using assms(2) s
    by (auto simp: evd_poll_add_def evd_poll_start_def epoll_ctl_add_def evd_poll_session_unref_def evd_poll_session_ref_def
        g_source_remove_def Let_def split: if_splits option.splits prod.splits)
  with s \<open>po_next p \<le> po_next p'\<close>
  show "(Session s, ev) \<in> set (po_events p) \<Longrightarrow> event_kept s ev n p'" "announced s (io_condition ev) p \<Longrightarrow> event_kept s ev n p'"
    by (auto simp: event_kept_def announced_def)
qed

lemma mod_keeps:
  assumes "event_kept s ev n p" "evd_poll_mod t c pr p = Done p'"
  shows "event_kept s ev n p'"
proof (rule event_kept_frame [OF assms(1)])
  show "po_calls p' = po_calls p" using assms(2) by (rule mod_calls)
  have f: "po_next p' = po_next p" "po_owned p' = po_owned p" "po_stopping p' = po_stopping p" "po_events p' = po_events p"
    using assms(2) by (auto simp: evd_poll_mod_def epoll_ctl_mod_def Let_def split: if_splits option.splits)
  then show "po_next p \<le> po_next p'" "set (po_owned p') \<subseteq> insert (po_next p) (set (po_owned p))" "po_stopping p \<Longrightarrow> po_stopping p'" by auto
  have "announced s d p'" if "announced s d p" for d
    using assms(2) that by (auto simp: evd_poll_mod_def epoll_ctl_mod_def Let_def announced_def split: if_splits option.splits)
  with f assms(1) show "(Session s, ev) \<in> set (po_events p) \<Longrightarrow> event_kept s ev n p'" "announced s (io_condition ev) p \<Longrightarrow> event_kept s ev n p'"
    by (auto simp: event_kept_def)
qed

lemma deleted_keeps:
  assumes "event_kept s ev n p" "delete_session t p = Some p'" "poll_inv p" "t \<in> set (po_owned p)"
  shows "event_kept s ev n p'"
proof -
  have core: "core_inv p" using assms(3) by (simp add: poll_inv_def)
  obtain x where x: "po_sessions p t = Some x" "session_ok True x" using owned_session core assms(4) by blast
  then have p': "p' = deleted_session t x p" using delete_owned assms(2) by simp
  show ?thesis
  proof (rule event_kept_frame [OF assms(1)])
    show "po_calls p' = po_calls p" "po_next p \<le> po_next p'" "set (po_owned p') \<subseteq> insert (po_next p) (set (po_owned p))"
      "po_stopping p \<Longrightarrow> po_stopping p'"
      by (auto simp: p' deleted_session_def)
    have "s < po_next p" using assms(1) by (simp add: event_kept_def)
    then show "s \<in> set (po_owned p') \<Longrightarrow> (Session s, ev) \<in> set (po_events p) \<Longrightarrow> event_kept s ev n p'"
      "s \<in> set (po_owned p') \<Longrightarrow> announced s (io_condition ev) p \<Longrightarrow> event_kept s ev n p'"
      by (force simp: p' deleted_session_def event_kept_def announced_def)+
  qed
qed

lemma event_kept_cong:
  assumes "event_kept s ev n p" "po_next p' = po_next p" "po_calls p' = po_calls p" "po_owned p' = po_owned p"
    "po_stopping p \<Longrightarrow> po_stopping p'" "po_events p' = po_events p" "po_sessions p' = po_sessions p"
  shows "event_kept s ev n p'"
  using assms by (auto simp: event_kept_def announced_def)

lemma del_keeps:
  assumes "event_kept s ev n p" "evd_poll_del t p = Done p'" "poll_inv p" "t \<in> set (po_owned p)"
  shows "event_kept s ev n p'"
proof (cases "po_interrupt_mutex p = None")
  case True
  with assms(2) have "delete_session t p = Some p'" by (auto simp: evd_poll_del_def split: if_splits option.splits)
  then show ?thesis by (rule deleted_keeps [OF assms(1) _ assms(3,4)])
next
  case False
  with assms(2) show ?thesis
    by (intro event_kept_cong [OF assms(1)]) (auto simp: evd_poll_del_def evd_poll_interrupt_epoll_wait_def split: if_splits)
qed

lemma del_locked_keeps:
  assumes "event_kept s ev n p" "del_locked p = Done p'" "poll_inv p"
  shows "event_kept s ev n p'"
proof -
  obtain t q where t: "po_deleting p = Some t" "delete_session t p = Some q" "p' = q\<lparr>po_deleting := None, po_epoll_mutex := None\<rparr>"
    using assms(2) by (auto simp: del_locked_def split: if_splits option.splits)
  then have "t \<in> set (po_owned p)" using assms(3) by (simp add: poll_inv_def threads_ok_def)
  then have "event_kept s ev n q" by (rule deleted_keeps [OF assms(1) t(2) assms(3)])
  then show ?thesis by (rule event_kept_cong) (simp_all add: t(3))
qed

lemma run_source_keeps:
  assumes "event_kept s ev n p" "run_poll_source src p = Done p'" "poll_inv p" "n \<le> length (po_calls p)"
  shows "event_kept s ev n p'"
proof -
  obtain t where t: "\<not> main_waits p" "map_of (po_sources p) src = Some t"
    using assms(2) by (auto simp: run_poll_source_def split: if_splits option.splits)
  then have "(src, t) \<in> set (po_sources p)" by (simp add: map_of_SomeD)
  then obtain x where x: "po_sessions p t = Some x" "ps_src_id x = src" "src \<noteq> 0"
    using assms(3) by (fastforce simp: poll_inv_def sources_ok_def)
  have "session_ok (t \<in> set (po_owned p)) x" using assms(3) x(1) by (simp add: poll_inv_def sessions_ok_def)
  then have ok: "session_ok True x" using x by (auto simp: session_ok_def split: if_splits)
  have p': "p' = (set_session t (x\<lparr>ps_ref_count := 2, ps_cond_out := 0, ps_src_id := 0\<rparr>) (g_source_remove src p))
      \<lparr>po_calls := po_calls p @ [(t, ps_cond_out x)]\<rparr>"
    using assms(2) t wrapper_session [of "g_source_remove src p" t x] x ok
    by (simp add: run_poll_source_def g_source_remove_def)
  show ?thesis
  proof (cases "t = s \<and> announced s (io_condition ev) p")
    case True
    with x(1) have "ps_cond_out x AND io_condition ev = io_condition ev" by (simp add: announced_def)
    with True assms(1,4) show ?thesis by (auto simp: p' event_kept_def g_source_remove_def)
  next
    case False
    then have "announced s (io_condition ev) p \<longrightarrow> announced s (io_condition ev) p'"
      by (auto simp: p' announced_def g_source_remove_def)
    with assms(1,4) show ?thesis by (auto simp: p' event_kept_def g_source_remove_def)
  qed
qed

lemma dispatch_events_next:
  assumes "core_inv p" "events_ok es p" "3 < po_interrupt_fd p" "dispatch_events es p = Some p'"
  shows "po_next p' = po_next p"
  using assms
proof (induction es arbitrary: p)
  case (Cons e es)
  obtain p1 where p1: "evd_poll_dispatch_event e p = Some p1" "core_inv p1" "events_ok es p1" "same_threads p p1"
    using dispatch_event_inv [OF Cons.prems(1-3)] by blast
  then have n: "3 < po_interrupt_fd p1" "dispatch_events es p1 = Some p'" using Cons.prems by (simp_all add: same_threads_def)
  have "po_next p1 = po_next p"
    using p1(1)
    by (auto simp: evd_poll_dispatch_event_def evd_poll_check_and_consume_interrupt_event_def evd_poll_session_ref_def
        evd_poll_session_unref_def g_source_remove_def Let_def bind_eq_Some_conv split: if_splits event_ptr.splits)
  with Cons.IH [OF p1(2,3) n] show ?case by simp
qed simp

lemma process_keeps_event:
  assumes "event_kept s ev n p" "dispatch_process p = Done p'" "poll_inv p"
  shows "event_kept s ev n p'"
proof -
  have th: "po_thread p = Returned" using assms(2) by (auto simp: dispatch_process_def split: if_splits)
  then have fd: "3 < po_interrupt_fd p" using assms(3) by (simp add: poll_inv_def threads_ok_def)
  have core: "core_inv p" "events_ok (po_events p) p" using assms(3) by (simp_all add: poll_inv_def)
  have stopped: "\<not> po_started p \<Longrightarrow> po_stopping p" using assms(3) th by (auto simp: poll_inv_def threads_ok_def)
  show ?thesis
  proof (cases "po_started p")
    case True
    obtain q where q: "dispatch_events (po_events p) p = Some q" "same_threads p q" "po_calls q = po_calls p"
      using dispatch_events_inv [OF core fd] by blast
    then have p': "p' = q\<lparr>po_events := [], po_thread := Between\<rparr>"
      using assms(2) th True by (cases q) (auto simp: dispatch_process_def same_threads_def split: if_splits)
    have "announced s (io_condition ev) q" if "(Session s, ev) \<in> set (po_events p) \<or> announced s (io_condition ev) p"
      using dispatch_events_announce [OF core fd q(1)] that by blast
    then have "announced s (io_condition ev) p'" if "(Session s, ev) \<in> set (po_events p) \<or> announced s (io_condition ev) p"
      using that by (simp add: p' announced_def)
    moreover have "po_next p' = po_next p" "po_owned p' = po_owned p" "po_stopping p' = po_stopping p" "po_calls p' = po_calls p"
      using dispatch_events_next [OF core fd q(1)] q(2,3) by (simp_all add: p' same_threads_def)
    ultimately show ?thesis using assms(1) unfolding event_kept_def by metis
  next
    case False
    with assms(1,2) stopped show ?thesis by (auto simp: dispatch_process_def event_kept_def split: if_splits)
  qed
qed

lemma return_keeps:
  assumes "event_kept s ev n p" "dispatch_return es p = Done p'" "poll_inv p"
  shows "event_kept s ev n p'"
proof -
  have "po_events p = []" using assms(2,3) by (auto simp: dispatch_return_def poll_inv_def threads_ok_def split: if_splits)
  with assms(1,2) show ?thesis by (auto simp: dispatch_return_def event_kept_def announced_def split: if_splits)
qed

lemma poll_do_keeps:
  assumes "event_kept s ev n p" "poll_do op p = Done p'" "poll_inv p" "n \<le> length (po_calls p)"
  shows "event_kept s ev n p'"
proof (cases op)
  case (Add start ok fd c pr)
  with assms show ?thesis using add_keeps by simp
next
  case (Mod t c pr)
  with assms show ?thesis using mod_keeps by (auto split: if_splits)
next
  case (Del t)
  with assms show ?thesis using del_keeps by (auto split: if_splits)
next
  case Del_locked
  with assms show ?thesis using del_locked_keeps by simp
next
  case (Run_source src)
  with assms show ?thesis using run_source_keeps by simp
next
  case Process
  with assms show ?thesis using process_keeps_event by simp
next
  case (Return es)
  with assms show ?thesis using return_keeps by simp
qed (use assms(2) in \<open>auto intro!: event_kept_cong [OF assms(1)]
      simp: evd_poll_stop_def evd_poll_interrupt_epoll_wait_def evd_poll_thread_loop_def dispatch_wait_def
        close_fd_def epoll_ctl_del_def split: if_splits\<close>)

lemma poll_turns_keep:
  assumes "event_kept s ev n p" "poll_inv p" "n \<le> length (po_calls p)" "list_all pipe_fd_ok ops" "run_ops poll_turn p ops = Some r"
  shows "event_kept s ev n r \<and> poll_inv r"
  using assms
proof (induction ops arbitrary: p)
  case (Cons op ops)
  then obtain p1 where p1: "poll_turn p op = Some p1" "run_ops poll_turn p1 ops = Some r" by (auto split: option.splits)
  have inv: "poll_inv p1" using schedule.step_defined [of p op] p1(1) Cons.prems(2,4) by auto
  have "event_kept s ev n p1 \<and> n \<le> length (po_calls p1)"
  proof (cases "poll_do op p")
    case (Done q)
    with p1(1) have q: "poll_do op p = Done p1" by (simp add: poll_turn_def)
    from calls_owned [OF Cons.prems(2) q] Cons.prems(3) have "n \<le> length (po_calls p1)" by auto
    with poll_do_keeps [OF Cons.prems(1) q Cons.prems(2,3)] show ?thesis by blast
  qed (use p1(1) Cons.prems in \<open>auto simp: poll_turn_def\<close>)
  with Cons.IH [OF _ inv _ _ p1(2)] Cons.prems(4) show ?case by simp
qed simp

lemma process_announces:
  assumes "poll_inv p" "(Session s, ev) \<in> set (po_events p)" "po_epoll_mutex p = None" "\<not> po_stopping p"
  shows "\<exists>q. dispatch_process p = Done q \<and> announced s (io_condition ev) q"
proof -
  have th: "po_thread p = Returned" using assms(1,2) by (auto simp: poll_inv_def threads_ok_def)
  then have fd: "3 < po_interrupt_fd p" and st: "po_started p" using assms(1,4) by (auto simp: poll_inv_def threads_ok_def)
  have core: "core_inv p" "events_ok (po_events p) p" using assms(1) by (simp_all add: poll_inv_def)
  obtain q where q: "dispatch_events (po_events p) p = Some q" using dispatch_events_inv [OF core fd] by blast
  have "announced s (io_condition ev) q" using dispatch_events_announce [OF core fd q] assms(2) by blast
  then show ?thesis using q th st assms(3) by (simp add: dispatch_process_def announced_def)
qed

section \<open>Properties\<close>

primrec poll_run :: "poll_op list \<Rightarrow> EvdPoll \<Rightarrow> outcome" where
  "poll_run [] p = Done p"
| "poll_run (op # ops) p = (case poll_do op p of Done p' \<Rightarrow> poll_run ops p' | r \<Rightarrow> r)"

lemma poll_run_reachable:
  "poll_reachable p \<Longrightarrow> list_all pipe_fd_ok ops \<Longrightarrow> poll_run ops p = Done p' \<Longrightarrow> poll_reachable p'"
  by (induction ops arbitrary: p) (auto split: outcome.splits intro: poll_step)

text \<open>A run, for the examples: a session is added and the thread waits.\<close>

definition demo_wait :: "poll_op list" where
  "demo_wait = [Add (Some 4) True 7 (G_IO_IN OR G_IO_OUT) 0, Thread_loop, Wait]"

definition demo_poll :: "poll_op list \<Rightarrow> EvdPoll" where
  "demo_poll ops = (case poll_run ops evd_poll_init of Done p \<Rightarrow> p | _ \<Rightarrow> evd_poll_init)"

primrec is_done :: "outcome \<Rightarrow> bool" where
  "is_done Blocked = False"
| "is_done Crash = False"
| "is_done (Done p) = True"

lemma demo_reachable:
  assumes "list_all pipe_fd_ok ops" "is_done (poll_run ops evd_poll_init)"
  shows "poll_reachable (demo_poll ops)"
proof -
  from assms(2) have "poll_run ops evd_poll_init = Done (demo_poll ops)"
    by (cases "poll_run ops evd_poll_init") (simp_all add: demo_poll_def)
  with assms(1) show ?thesis using poll_run_reachable [OF poll_start] by blast
qed

text \<open>
  C12. However the two threads interleave, no step uses a session that has been freed or hangs;
  sessions of clients are counted twice, and a third time while their source is armed; and callbacks
  are called only for sessions that have not been deleted.
\<close>

theorem poll_no_use_after_free:
  assumes "poll_reachable p" and "pipe_fd_ok op"
  shows "poll_do op p \<noteq> Crash \<and>
    (\<forall>s \<in> set (po_owned p). \<exists>x. po_sessions p s = Some x \<and> ps_ref_count x = (if ps_src_id x = 0 then 2 else 3)) \<and>
    (\<forall>p'. poll_do op p = Done p' \<longrightarrow> po_calls p' = po_calls p \<or> (\<exists>s c. po_calls p' = po_calls p @ [(s, c)] \<and> s \<in> set (po_owned p)))"
proof (intro conjI ballI)
  have inv: "poll_inv p" by (rule poll_reachable_inv [OF assms(1)])
  show "poll_do op p \<noteq> Crash" using poll_do_safe [OF inv assms(2)] by auto
  show "\<forall>p'. poll_do op p = Done p' \<longrightarrow> po_calls p' = po_calls p \<or> (\<exists>s c. po_calls p' = po_calls p @ [(s, c)] \<and> s \<in> set (po_owned p))"
    using calls_owned [OF inv] by blast
  fix s assume "s \<in> set (po_owned p)"
  then obtain x where "po_sessions p s = Some x" "session_ok True x" using inv owned_session unfolding poll_inv_def by metis
  then show "\<exists>x. po_sessions p s = Some x \<and> ps_ref_count x = (if ps_src_id x = 0 then 2 else 3)" by (auto simp: session_ok_def)
qed

text \<open>A client deletes a session after its events have been reported and before they are handed out.\<close>

definition demo_race :: "poll_op list" where
  "demo_race = demo_wait @ [Return [(Session 0, EPOLLIN)], Del 0]"

lemma demo_race_reachable: "poll_reachable (demo_poll demo_race)"
  by (rule demo_reachable; code_simp)

theorem poll_no_use_after_free_witness:
  "poll_reachable (demo_poll demo_race) \<and> map fst (po_events (demo_poll demo_race)) = [Null] \<and> poll_do Process (demo_poll demo_race) \<noteq> Crash"
proof -
  have "map fst (po_events (demo_poll demo_race)) = [Null]" by code_simp
  with poll_no_use_after_free [OF demo_race_reachable, of Process] demo_race_reachable show ?thesis by simp
qed

text \<open>
  C13. A deletion does not wait for ever: if the other thread waits for events, the pipe has been
  written to and the kernel reports it; then the deletion goes through, and the mutexes are free again.
\<close>

theorem poll_delete_completes:
  assumes "poll_reachable p" and "po_deleting p = Some s"
  shows "\<exists>p' q. (if po_thread p = Waiting then poll_do (Return [(Interrupt_fds, EPOLLIN)]) p = Done p' else p' = p) \<and>
    poll_do Del_locked p' = Done q \<and> s \<notin> set (po_owned q) \<and> po_deleting q = None \<and> po_epoll_mutex q = None"
proof -
  have inv: "poll_inv p" by (rule poll_reachable_inv [OF assms(1)])
  define p' where "p' = (if po_thread p = Waiting
    then p\<lparr>po_thread := Returned, po_events := [(Interrupt_fds, EPOLLIN)], po_interrupt_mutex := None, po_edge := False\<rparr> else p)"
  have wait: "poll_do (Return [(Interrupt_fds, EPOLLIN)]) p = Done p'" if "po_thread p = Waiting"
    using inv assms(2) that by (auto simp: dispatch_return_def reportable_def p'_def poll_inv_def threads_ok_def)
  have inv': "poll_inv p'"
    using wait inv return_safe [OF inv, of "[(Interrupt_fds, EPOLLIN)]"] by (cases "po_thread p = Waiting") (auto simp: p'_def)
  have p': "po_deleting p' = Some s" "po_interrupt_mutex p' = None" "po_thread p' \<noteq> Waiting"
    using assms(2) inv by (auto simp: p'_def poll_inv_def threads_ok_def)
  have "s \<in> set (po_owned p')" using inv' p'(1) by (simp add: poll_inv_def threads_ok_def)
  from delete_safe [OF inv' this p'(3)] obtain q where "delete_session s p' = Some q" "s \<notin> set (po_owned q)" by blast
  then have "poll_do Del_locked p' = Done (q\<lparr>po_deleting := None, po_epoll_mutex := None\<rparr>) \<and>
      s \<notin> set (po_owned (q\<lparr>po_deleting := None, po_epoll_mutex := None\<rparr>))"
    using p' by (simp add: del_locked_def)
  moreover have "(if po_thread p = Waiting then poll_do (Return [(Interrupt_fds, EPOLLIN)]) p = Done p' else p' = p)"
    using wait by (simp add: p'_def)
  ultimately show ?thesis by fastforce
qed

theorem poll_delete_completes_witness:
  "\<exists>p' q. poll_do (Return [(Interrupt_fds, EPOLLIN)]) (demo_poll (demo_wait @ [Del 0])) = Done p' \<and> poll_do Del_locked p' = Done q \<and>
    0 \<notin> set (po_owned q)"
proof -
  have "poll_reachable (demo_poll (demo_wait @ [Del 0]))" by (rule demo_reachable; code_simp)
  moreover have "po_deleting (demo_poll (demo_wait @ [Del 0])) = Some 0" "po_thread (demo_poll (demo_wait @ [Del 0])) = Waiting"
    by code_simp+
  ultimately show ?thesis using poll_delete_completes by fastforce
qed

text \<open>
  C14. Events are not lost, whatever the threads do after the kernel has reported them: as long as the
  session has not been deleted and the poll object not stopped, an event is among those not yet handed
  out, or the source of its session is armed and will call the callback with all its conditions when it
  runs, or the callback has been called since with all of them. An event that waits is handed out by the
  next turn of the thread, unless the main thread is within the deletion of a session.
\<close>

theorem poll_events_delivered:
  assumes "poll_reachable p" and "(Session s, ev) \<in> set (po_events p)"
    and "list_all pipe_fd_ok ops" and "run_ops poll_turn p ops = Some r"
    and "s \<in> set (po_owned r)" and "\<not> po_stopping r"
  shows "((Session s, ev) \<in> set (po_events r) \<and>
           (po_epoll_mutex r = None \<longrightarrow> (\<exists>q. poll_do Process r = Done q \<and> announced s (io_condition ev) q))) \<or>
         (\<exists>src c. (src, s) \<in> set (po_sources r) \<and> c AND io_condition ev = io_condition ev \<and>
           (\<not> main_waits r \<longrightarrow> (\<exists>q. poll_do (Run_source src) r = Done q \<and> po_calls q = po_calls r @ [(s, c)]))) \<or>
         (\<exists>c. (s, c) \<in> set (drop (length (po_calls p)) (po_calls r)) \<and> c AND io_condition ev = io_condition ev)"
proof -
  have inv: "poll_inv p" by (rule poll_reachable_inv [OF assms(1)])
  then have "s \<in> set (po_owned p)" using assms(2) by (force simp: poll_inv_def events_ok_def)
  then have "event_kept s ev (length (po_calls p)) p"
    using inv assms(2) owned_less by (auto simp: poll_inv_def event_kept_def)
  with inv assms(3,4) have r: "event_kept s ev (length (po_calls p)) r" "poll_inv r" using poll_turns_keep by blast+
  consider (waiting) "(Session s, ev) \<in> set (po_events r)" | (armed) "announced s (io_condition ev) r"
    | (called) "\<exists>c. (s, c) \<in> set (drop (length (po_calls p)) (po_calls r)) \<and> c AND io_condition ev = io_condition ev"
    using r(1) assms(5,6) unfolding event_kept_def by blast
  then show ?thesis
  proof cases
    case waiting
    have "\<exists>q. poll_do Process r = Done q \<and> announced s (io_condition ev) q" if "po_epoll_mutex r = None"
      using process_announces [OF r(2) waiting that assms(6)] by simp
    with waiting show ?thesis by blast
  next
    case armed
    then obtain x where x: "po_sessions r s = Some x" "ps_src_id x \<noteq> 0" "ps_cond_out x AND io_condition ev = io_condition ev"
      by (auto simp: announced_def)
    then have "(ps_src_id x, s) \<in> set (po_sources r)" using r(2) by (simp add: poll_inv_def sessions_ok_def)
    moreover have "\<not> main_waits r \<longrightarrow> (\<exists>q. poll_do (Run_source (ps_src_id x)) r = Done q \<and> po_calls q = po_calls r @ [(s, ps_cond_out x)])"
      using run_poll_source_call [OF r(2) _ x(1,2)] by auto
    ultimately show ?thesis using x(3) by blast
  next
    case called
    then show ?thesis by blast
  qed
qed

text \<open>
  The session is changed between the event and the run of its source, and a second event comes in between:
  the callback gets the conditions of both.
\<close>

definition demo_report :: "poll_op list" where
  "demo_report = demo_wait @ [Return [(Session 0, EPOLLIN OR EPOLLRDHUP)]]"

definition demo_busy :: "poll_op list" where
  "demo_busy = [Process, Mod 0 G_IO_OUT 0, Wait, Return [(Session 0, EPOLLOUT)], Process]"

theorem poll_events_delivered_witness:
  "\<exists>r src q c. run_ops poll_turn (demo_poll demo_report) demo_busy = Some r \<and> poll_do (Run_source src) r = Done q \<and>
    po_calls q = [(0, c)] \<and> c AND (G_IO_IN OR G_IO_HUP) = G_IO_IN OR G_IO_HUP"
proof -
  let ?p = "demo_poll demo_report"
  have reach: "poll_reachable ?p" by (rule demo_reachable; code_simp)
  have s: "po_events ?p = [(Session 0, EPOLLIN OR EPOLLRDHUP)]" "po_calls ?p = []" "list_all pipe_fd_ok demo_busy"
    "io_condition (EPOLLIN OR EPOLLRDHUP) = G_IO_IN OR G_IO_HUP" by code_simp+
  have "case run_ops poll_turn ?p demo_busy of None \<Rightarrow> False
    | Some r \<Rightarrow> po_owned r = [0] \<and> \<not> po_stopping r \<and> \<not> main_waits r \<and> po_events r = [] \<and> po_calls r = []" by code_simp
  then obtain r where r: "run_ops poll_turn ?p demo_busy = Some r" "po_owned r = [0]" "\<not> po_stopping r" "\<not> main_waits r"
    "po_events r = []" "po_calls r = []" by (auto split: option.splits)
  from poll_events_delivered [OF reach _ s(3) r(1), of 0 "EPOLLIN OR EPOLLRDHUP"] r s show ?thesis by auto
qed
section \<open>What goes wrong\<close>

text \<open>If the thread cannot be started the mutex stays locked: every later operation waits for ever.\<close>

lemma poll_start_failure_locks:
  assumes "evd_poll_add None ok fd c pr evd_poll_init = Done p"
  shows "evd_poll_add start ok' fd' c' pr' p = Blocked" "evd_poll_stop p = Blocked" "dispatch_process p = Blocked"
  using assms
  by (auto simp: evd_poll_add_def evd_poll_start_def evd_poll_init_def evd_poll_stop_def dispatch_process_def main_waits_def)

text \<open>
  A poll object that is stopped before the new thread has made its main loop cannot tell it to quit: the
  loop goes on without a source, and the main thread waits for it for ever.
\<close>

lemma poll_stop_before_loop:
  "po_thread (demo_poll [Add (Some 4) True 7 G_IO_IN 0, Stop, Thread_loop, Wait, Return [(Interrupt_fds, EPOLLIN)], Process]) = Loop_without_source"
  by code_simp

text \<open>
  A session is taken for the pipe if its reference count equals the number of the descriptor (a program
  without standard input): the thread reads from the empty pipe and hangs, with the mutex locked.
\<close>

lemma poll_refcount_mistaken:
  "poll_do Process (demo_poll [Add (Some 3) True 7 G_IO_IN 0, Thread_loop, Wait, Return [(Session 0, EPOLLIN)], Process,
     Wait, Return [(Session 0, EPOLLIN)]]) = Crash"
proof -
  have "case poll_do Process (demo_poll [Add (Some 3) True 7 G_IO_IN 0, Thread_loop, Wait, Return [(Session 0, EPOLLIN)], Process,
     Wait, Return [(Session 0, EPOLLIN)]]) of Crash \<Rightarrow> True | _ \<Rightarrow> False"
    by code_simp
  then show ?thesis by (simp split: outcome.splits)
qed

text \<open>A session whose descriptor was closed before is never freed.\<close>

lemma poll_closed_fd_leaks:
  "map_option ps_ref_count (po_sessions (demo_poll (demo_wait @ [Return [(Session 0, EPOLLIN)], Process, Close_fd 7, Del 0])) 0) = Some 1"
  by code_simp

end
