(* ===== verification/Socket.thy ===== *)
theory Socket
  imports Poll "HOL-Library.Multiset"
begin

text \<open>
  Sockets, \<open>evd/evd-socket.c\<close>, and the resolver of addresses, \<open>evd/evd-resolver.c\<close>: connecting, binding and
  listening, with and without resolution of a name, conditions, accepting and closing. The calls of the
  system are parameters. Handlers of the signal \<open>state-changed\<close> can close the socket, which the code
  takes into account.
\<close>

section \<open>Addresses and the resolver\<close>

datatype GSocketFamily = G_SOCKET_FAMILY_INVALID | G_SOCKET_FAMILY_UNIX | G_SOCKET_FAMILY_IPV4 | G_SOCKET_FAMILY_IPV6

datatype GSocketType = G_SOCKET_TYPE_INVALID | G_SOCKET_TYPE_STREAM | G_SOCKET_TYPE_DATAGRAM

datatype GSocketProtocol = G_SOCKET_PROTOCOL_UNKNOWN | G_SOCKET_PROTOCOL_DEFAULT | G_SOCKET_PROTOCOL_TCP | G_SOCKET_PROTOCOL_UDP

record GSocketAddress =
  ad_family :: GSocketFamily
  ad_name :: string
  ad_port :: nat

text \<open>What GIO says of an address: host and port, and the family of a host that is a number.\<close>

record network =
  g_network_address_parse :: "string \<Rightarrow> gio_error + string \<times> nat"
  g_inet_address_new_from_string :: "string \<Rightarrow> GSocketFamily option"

text \<open>The resolver has an answer, which comes in the main loop, or looks a name up.\<close>

datatype resolution =
    Answer "gio_error + GSocketAddress list"
  | Lookup string nat

definition evd_resolver_resolve :: "network \<Rightarrow> string \<Rightarrow> resolution" where
  "evd_resolver_resolve net address =
     (if address \<noteq> [] \<and> hd address = CHR ''/''
      then Answer (Inr [\<lparr>ad_family = G_SOCKET_FAMILY_UNIX, ad_name = address, ad_port = 0\<rparr>])
      else case g_network_address_parse net address of
             Inl e \<Rightarrow> Answer (Inl e)
           | Inr (domain, port) \<Rightarrow>
               (case g_inet_address_new_from_string net domain of
                  Some family \<Rightarrow> Answer (Inr [\<lparr>ad_family = family, ad_name = domain, ad_port = port\<rparr>])
                | None \<Rightarrow> Lookup domain port))"

definition evd_resolver_on_resolver_result :: "nat \<Rightarrow> gio_error + (GSocketFamily \<times> string) list \<Rightarrow> gio_error + GSocketAddress list" where
  "evd_resolver_on_resolver_result port r =
     map_sum (\<lambda>e. e) (map (\<lambda>(family, name). \<lparr>ad_family = family, ad_name = name, ad_port = port\<rparr>)) r"

definition evd_resolver_resolve_finish :: "resolution \<Rightarrow> gio_error + (GSocketFamily \<times> string) list \<Rightarrow> gio_error + GSocketAddress list" where
  "evd_resolver_resolve_finish x dns = (case x of Answer r \<Rightarrow> r | Lookup domain port \<Rightarrow> evd_resolver_on_resolver_result port dns)"

section \<open>State\<close>

datatype EvdSocketState =
    EVD_SOCKET_STATE_CLOSED
  | EVD_SOCKET_STATE_CONNECTING
  | EVD_SOCKET_STATE_CONNECTED
  | EVD_SOCKET_STATE_RESOLVING
  | EVD_SOCKET_STATE_BOUND
  | EVD_SOCKET_STATE_LISTENING
  | EVD_SOCKET_STATE_TLS_HANDSHAKING
  | EVD_SOCKET_STATE_CLOSING

datatype socket_signal =
    State_changed EvdSocketState EvdSocketState
  | Error_signal gio_error
  | Close_signal
  | New_connection
  | Notify_condition "32 word"

text \<open>
  \<open>sk_socket\<close> says whether there is a system socket and \<open>sk_poll_session\<close> whether it is watched.
  \<open>sk_closes_on\<close> are the states at whose announcement a handler closes the socket. \<open>sk_lookups\<close> are
  resolutions under way, \<open>sk_peers\<close> the addresses that the system was asked to connect to. An
  operation has a number; \<open>sk_started\<close> are all of them, \<open>sk_idle\<close> those that the main loop will complete.
\<close>

record EvdSocket =
  sk_socket :: bool
  sk_family :: GSocketFamily
  sk_type :: GSocketType
  sk_protocol :: GSocketProtocol
  sk_status :: EvdSocketState
  sk_sub_status :: EvdSocketState
  sk_cond :: "32 word"
  sk_actual_priority :: int
  sk_priority :: int
  sk_bind_allow_reuse :: bool
  sk_notify :: bool
  sk_has_pending :: bool
  sk_async_result :: "nat option"
  sk_poll_session :: bool
  sk_closes_on :: "EvdSocketState list"
  sk_lookups :: "resolution list"
  sk_peers :: "GSocketAddress list"
  sk_signals :: "socket_signal list"
  sk_started :: "nat list"
  sk_idle :: "(nat \<times> gio_error option) list"
  sk_completed :: "(nat \<times> gio_error option) list"

definition evd_socket_init :: "EvdSocketState list \<Rightarrow> EvdSocket" where
  "evd_socket_init closes_on =
     \<lparr>sk_socket = False, sk_family = G_SOCKET_FAMILY_INVALID, sk_type = G_SOCKET_TYPE_INVALID,
      sk_protocol = G_SOCKET_PROTOCOL_UNKNOWN, sk_status = EVD_SOCKET_STATE_CLOSED, sk_sub_status = EVD_SOCKET_STATE_CLOSED,
      sk_cond = 0, sk_actual_priority = 0, sk_priority = 0, sk_bind_allow_reuse = False, sk_notify = False,
      sk_has_pending = False, sk_async_result = None, sk_poll_session = False, sk_closes_on = closes_on, sk_lookups = [],
      sk_peers = [], sk_signals = [], sk_started = [], sk_idle = [], sk_completed = []\<rparr>"

text \<open>The outcome of system calls: \<^term>\<open>None\<close>, or an error. Connecting reports \<open>G_IO_ERROR_PENDING\<close> while it is under way.\<close>

record os =
  g_socket_new :: "gio_error option"
  g_socket_bind :: "gio_error option"
  g_socket_listen :: "gio_error option"
  g_socket_connect :: "gio_error option"
  g_socket_close :: "gio_error option"
  os_poll_watch :: "gio_error option"
  os_poll_del :: "gio_error option"

definition SOCKET_ACTIVE :: "EvdSocket \<Rightarrow> bool" where
  "SOCKET_ACTIVE s \<longleftrightarrow> sk_status s = EVD_SOCKET_STATE_CONNECTED \<or>
     (sk_status s = EVD_SOCKET_STATE_BOUND \<and> sk_protocol s = G_SOCKET_PROTOCOL_UDP)"

abbreviation emit :: "socket_signal \<Rightarrow> EvdSocket \<Rightarrow> EvdSocket" where
  "emit sig s \<equiv> s\<lparr>sk_signals := sk_signals s @ [sig]\<rparr>"

section \<open>Status and closing\<close>

text \<open>The handler of the signal, which may close the socket, is an argument.\<close>

definition set_status_with :: "(EvdSocket \<Rightarrow> EvdSocket) \<Rightarrow> EvdSocketState \<Rightarrow> EvdSocket \<Rightarrow> EvdSocket" where
  "set_status_with close status s =
     (if status = sk_status s then s
      else let s = emit (State_changed status (sk_status s)) (s\<lparr>sk_status := status\<rparr>)
           in if status \<in> set (sk_closes_on s) then close s else s)"

definition evd_socket_unwatch :: "os \<Rightarrow> EvdSocket \<Rightarrow> bool" where
  "evd_socket_unwatch os s \<longleftrightarrow> \<not> sk_poll_session s \<or> os_poll_del os = None"

definition evd_socket_cleanup_internal :: "os \<Rightarrow> EvdSocket \<Rightarrow> EvdSocket \<times> bool" where
  "evd_socket_cleanup_internal os s =
     (s\<lparr>sk_family := G_SOCKET_FAMILY_INVALID, sk_cond := 0, sk_socket := False, sk_poll_session := False, sk_has_pending := False\<rparr>,
      \<not> (sk_socket s \<and> (\<not> evd_socket_unwatch os s \<or> g_socket_close os \<noteq> None)))"

definition close_with :: "(EvdSocket \<Rightarrow> EvdSocket) \<Rightarrow> os \<Rightarrow> EvdSocket \<Rightarrow> EvdSocket \<times> bool" where
  "close_with close os s =
     (let s = (case sk_async_result s of
                 None \<Rightarrow> s
               | Some res \<Rightarrow> s\<lparr>sk_async_result := None, sk_completed := sk_completed s @ [(res, Some G_IO_ERROR_CLOSED)]\<rparr>)
      in if sk_status s \<noteq> EVD_SOCKET_STATE_CLOSED \<and> sk_status s \<noteq> EVD_SOCKET_STATE_CLOSING
         then let (s, result) = evd_socket_cleanup_internal os s
              in (emit Close_signal (set_status_with close EVD_SOCKET_STATE_CLOSED s), result)
         else (s, True))"

text \<open>Closing from a handler while closing: the second call finds nothing to do, so two calls are enough.\<close>

primrec socket_close :: "nat \<Rightarrow> os \<Rightarrow> EvdSocket \<Rightarrow> EvdSocket \<times> bool" where
  "socket_close 0 os s = (s, True)"
| "socket_close (Suc n) os s = close_with (\<lambda>s. fst (socket_close n os s)) os s"

definition evd_socket_close :: "os \<Rightarrow> EvdSocket \<Rightarrow> EvdSocket" where
  "evd_socket_close os s = fst (socket_close 2 os s)"

definition evd_socket_set_status :: "os \<Rightarrow> EvdSocketState \<Rightarrow> EvdSocket \<Rightarrow> EvdSocket" where
  "evd_socket_set_status os status s = set_status_with (evd_socket_close os) status s"

definition evd_socket_dispose :: "os \<Rightarrow> EvdSocket \<Rightarrow> EvdSocket" where
  "evd_socket_dispose os s = fst (evd_socket_cleanup_internal os (s\<lparr>sk_status := EVD_SOCKET_STATE_CLOSED\<rparr>))"

section \<open>The system socket\<close>

definition evd_socket_setup :: "os \<Rightarrow> EvdSocket \<Rightarrow> gio_error + EvdSocket" where
  "evd_socket_setup os s =
     (if sk_socket s then Inr s
      else case g_socket_new os of Some e \<Rightarrow> Inl e | None \<Rightarrow> Inr (s\<lparr>sk_socket := True\<rparr>))"

definition evd_socket_watch :: "os \<Rightarrow> EvdSocket \<Rightarrow> EvdSocket \<times> gio_error option" where
  "evd_socket_watch os s =
     (case os_poll_watch os of
        None \<Rightarrow> (s\<lparr>sk_cond := 0, sk_poll_session := True\<rparr>, None)
      | Some e \<Rightarrow> (s\<lparr>sk_cond := 0\<rparr>, Some e))"

definition evd_socket_check_address :: "GSocketAddress \<Rightarrow> EvdSocket \<Rightarrow> EvdSocket \<times> bool" where
  "evd_socket_check_address address s =
     (if sk_family s \<noteq> G_SOCKET_FAMILY_INVALID \<and> sk_family s \<noteq> ad_family address then (s, False)
      else
        (s\<lparr>sk_family := ad_family address,
           sk_type := (if sk_type s = G_SOCKET_TYPE_INVALID
                       then (if sk_protocol s = G_SOCKET_PROTOCOL_UDP then G_SOCKET_TYPE_DATAGRAM else G_SOCKET_TYPE_STREAM)
                       else sk_type s),
           sk_protocol := (if sk_protocol s = G_SOCKET_PROTOCOL_UNKNOWN then G_SOCKET_PROTOCOL_DEFAULT else sk_protocol s)\<rparr>, True))"

text \<open>The following give the error that they set, if any.\<close>

definition evd_socket_bind_addr_internal :: "os \<Rightarrow> GSocketAddress \<Rightarrow> EvdSocket \<Rightarrow> EvdSocket \<times> gio_error option" where
  "evd_socket_bind_addr_internal os address s =
     (let (s, ok) = evd_socket_check_address address s
      in if \<not> ok then (s, Some G_IO_ERROR_INVALID_ARGUMENT)
         else case evd_socket_setup os s of
                Inl e \<Rightarrow> (s, Some e)
              | Inr s \<Rightarrow>
                  (case g_socket_bind os of
                     Some e \<Rightarrow> (fst (evd_socket_cleanup_internal os s), Some e)
                   | None \<Rightarrow> (evd_socket_set_status os EVD_SOCKET_STATE_BOUND s, None)))"

text \<open>
  Listening gives its result and the error that it sets. If the system refuses to listen, the result is
  \<open>TRUE\<close> and an error is set; on a missing system socket GLib returns \<open>FALSE\<close> and sets none.
\<close>

definition evd_socket_listen_addr_internal :: "os \<Rightarrow> GSocketAddress option \<Rightarrow> EvdSocket \<Rightarrow> EvdSocket \<times> bool \<times> gio_error option" where
  "evd_socket_listen_addr_internal os address s =
     (let (s, e) = (case address of None \<Rightarrow> (s, None) | Some a \<Rightarrow> evd_socket_bind_addr_internal os a s)
      in if e \<noteq> None then (s, False, e)
         else if sk_status s \<noteq> EVD_SOCKET_STATE_BOUND then (s, False, Some G_IO_ERROR_CLOSED)
         else if \<not> sk_socket s then (s, True, None)
         else case g_socket_listen os of
                Some e \<Rightarrow> (s, True, Some e)
              | None \<Rightarrow>
                  (case evd_socket_watch os s of
                     (s, None) \<Rightarrow>
                       (evd_socket_set_status os EVD_SOCKET_STATE_LISTENING (s\<lparr>sk_cond := 0, sk_actual_priority := -99\<rparr>), True, None)
                   | (s, Some e) \<Rightarrow> (fst (evd_socket_cleanup_internal os s), False, Some e)))"

definition evd_socket_connect_addr_internal :: "os \<Rightarrow> GSocketAddress \<Rightarrow> EvdSocket \<Rightarrow> EvdSocket \<times> gio_error option" where
  "evd_socket_connect_addr_internal os address s =
     (let (s, ok) = evd_socket_check_address address s
      in if \<not> ok then (s, Some G_IO_ERROR_INVALID_ARGUMENT)
         else case evd_socket_setup os s of
                Inl e \<Rightarrow> (s, Some e)
              | Inr s \<Rightarrow>
                  let s = s\<lparr>sk_peers := sk_peers s @ [address]\<rparr>
                  in if g_socket_connect os \<noteq> None \<and> g_socket_connect os \<noteq> Some G_IO_ERROR_PENDING then (s, g_socket_connect os)
                     else (case evd_socket_watch os s of
                             (s, Some e) \<Rightarrow> (s, Some e)
                           | (s, None) \<Rightarrow> (evd_socket_set_status os EVD_SOCKET_STATE_CONNECTING (s\<lparr>sk_actual_priority := -98\<rparr>), None)))"

section \<open>Operations\<close>

definition complete_result :: "gio_error option \<Rightarrow> EvdSocket \<Rightarrow> EvdSocket" where
  "complete_result outcome s =
     (case sk_async_result s of
        None \<Rightarrow> s
      | Some res \<Rightarrow> s\<lparr>sk_async_result := None, sk_idle := sk_idle s @ [(res, outcome)]\<rparr>)"

definition evd_socket_throw_error :: "gio_error \<Rightarrow> EvdSocket \<Rightarrow> EvdSocket" where
  "evd_socket_throw_error e s = emit (Error_signal e) s"

text \<open>The first address that matches the family of the socket.\<close>

primrec match_address :: "GSocketAddress list \<Rightarrow> EvdSocket \<Rightarrow> EvdSocket \<times> GSocketAddress option" where
  "match_address [] s = (s, None)"
| "match_address (a # as) s = (let (s, ok) = evd_socket_check_address a s in if ok then (s, Some a) else match_address as s)"

definition resolved_action :: "os \<Rightarrow> GSocketAddress \<Rightarrow> EvdSocket \<Rightarrow> EvdSocket \<times> gio_error option" where
  "resolved_action os a s =
     (let sub_status = sk_sub_status s; s = s\<lparr>sk_sub_status := EVD_SOCKET_STATE_CLOSED\<rparr>
      in case sub_status of
           EVD_SOCKET_STATE_LISTENING \<Rightarrow>
             (let (s, result, e) = evd_socket_listen_addr_internal os (Some a) s
              in (if result \<and> sk_async_result s \<noteq> None then complete_result None (s\<lparr>sk_has_pending := False\<rparr>) else s, e))
         | EVD_SOCKET_STATE_BOUND \<Rightarrow>
             (let (s, e) = evd_socket_bind_addr_internal os a s
              in (if e = None \<and> sk_async_result s \<noteq> None then complete_result None (s\<lparr>sk_has_pending := False\<rparr>) else s, e))
         | EVD_SOCKET_STATE_CONNECTING \<Rightarrow> evd_socket_connect_addr_internal os a s
         | _ \<Rightarrow> (s, None))"

definition evd_socket_on_address_resolved :: "os \<Rightarrow> gio_error + GSocketAddress list \<Rightarrow> EvdSocket \<Rightarrow> EvdSocket" where
  "evd_socket_on_address_resolved os r s =
     (if sk_status s \<noteq> EVD_SOCKET_STATE_RESOLVING then s
      else
        let (s, error) = (case r of
                Inl e \<Rightarrow> (s, Some e)
              | Inr [] \<Rightarrow> (s, None)
              | Inr as \<Rightarrow> (case match_address as s of
                    (s, Some a) \<Rightarrow> resolved_action os a s
                  | (s, None) \<Rightarrow> (s, Some G_IO_ERROR_INVALID_ARGUMENT)))
        in case error of
             None \<Rightarrow> s
           | Some e \<Rightarrow> evd_socket_close os (evd_socket_throw_error e (complete_result (Some e) s)))"

definition evd_socket_resolve_address :: "network \<Rightarrow> string \<Rightarrow> EvdSocketState \<Rightarrow> EvdSocket \<Rightarrow> EvdSocket" where
  "evd_socket_resolve_address net address action s =
     s\<lparr>sk_sub_status := action, sk_lookups := sk_lookups s @ [evd_resolver_resolve net address]\<rparr>"

definition evd_socket_check_availability :: "EvdSocket \<Rightarrow> gio_error option" where
  "evd_socket_check_availability s =
     (if sk_has_pending s then Some G_IO_ERROR_PENDING
      else if SOCKET_ACTIVE s then Some G_IO_ERROR_BUSY else None)"

text \<open>The asynchronous operations on a name differ in what is done with its addresses.\<close>

definition resolve_operation :: "os \<Rightarrow> network \<Rightarrow> EvdSocketState \<Rightarrow> nat \<Rightarrow> string \<Rightarrow> EvdSocket \<Rightarrow> EvdSocket" where
  "resolve_operation os net action res address s =
     (let s = s\<lparr>sk_started := sk_started s @ [res]\<rparr>
      in case evd_socket_check_availability s of
           Some e \<Rightarrow> s\<lparr>sk_idle := sk_idle s @ [(res, Some e)]\<rparr>
         | None \<Rightarrow>
             evd_socket_resolve_address net address action
               (evd_socket_set_status os EVD_SOCKET_STATE_RESOLVING (s\<lparr>sk_async_result := Some res, sk_has_pending := True\<rparr>)))"

definition evd_socket_connect_to :: "os \<Rightarrow> network \<Rightarrow> nat \<Rightarrow> string \<Rightarrow> EvdSocket \<Rightarrow> EvdSocket" where
  "evd_socket_connect_to os net res address s = resolve_operation os net EVD_SOCKET_STATE_CONNECTING res address s"

definition evd_socket_listen :: "os \<Rightarrow> network \<Rightarrow> nat \<Rightarrow> string \<Rightarrow> EvdSocket \<Rightarrow> EvdSocket" where
  "evd_socket_listen os net res address s = resolve_operation os net EVD_SOCKET_STATE_LISTENING res address s"

definition evd_socket_bind :: "os \<Rightarrow> network \<Rightarrow> nat \<Rightarrow> string \<Rightarrow> EvdSocket \<Rightarrow> EvdSocket" where
  "evd_socket_bind os net res address s = resolve_operation os net EVD_SOCKET_STATE_BOUND res address s"

definition evd_socket_connect_addr :: "os \<Rightarrow> nat \<Rightarrow> GSocketAddress \<Rightarrow> EvdSocket \<Rightarrow> EvdSocket" where
  "evd_socket_connect_addr os res address s =
     (let (s, e) = (case evd_socket_check_availability s of Some e \<Rightarrow> (s, Some e) | None \<Rightarrow> evd_socket_connect_addr_internal os address s);
          s = s\<lparr>sk_started := sk_started s @ [res]\<rparr>
      in case e of
           Some e \<Rightarrow> s\<lparr>sk_idle := sk_idle s @ [(res, Some e)]\<rparr>
         | None \<Rightarrow> s\<lparr>sk_has_pending := True, sk_async_result := Some res\<rparr>)"

definition evd_socket_listen_addr :: "os \<Rightarrow> GSocketAddress option \<Rightarrow> EvdSocket \<Rightarrow> EvdSocket \<times> bool \<times> gio_error option" where
  "evd_socket_listen_addr os address s =
     (case evd_socket_check_availability s of
        Some e \<Rightarrow> (s, False, Some e)
      | None \<Rightarrow>
          let (s, result, e) = evd_socket_listen_addr_internal os address (s\<lparr>sk_has_pending := True\<rparr>)
          in (s\<lparr>sk_has_pending := False\<rparr>, result, e))"

definition evd_socket_bind_addr :: "os \<Rightarrow> GSocketAddress \<Rightarrow> EvdSocket \<Rightarrow> EvdSocket \<times> gio_error option" where
  "evd_socket_bind_addr os address s =
     (case evd_socket_check_availability s of
        Some e \<Rightarrow> (s, Some e)
      | None \<Rightarrow>
          let (s, e) = evd_socket_bind_addr_internal os address (s\<lparr>sk_has_pending := True\<rparr>)
          in (s\<lparr>sk_has_pending := False\<rparr>, e))"

section \<open>Conditions\<close>

definition evd_socket_set_priority :: "int \<Rightarrow> EvdSocket \<Rightarrow> EvdSocket" where
  "evd_socket_set_priority priority s =
     (if priority \<le> 300 \<and> -100 \<le> priority
      then s\<lparr>sk_actual_priority := (if sk_actual_priority s = sk_priority s then priority else sk_actual_priority s), sk_priority := priority\<rparr>
      else s)"

text \<open>A connection that waits to be accepted: whether its socket can be watched, and whether the handler closes the listener.\<close>

datatype incoming = Incoming "gio_error option" bool

definition evd_socket_accept :: "os \<Rightarrow> EvdSocket" where
  "evd_socket_accept os =
     evd_socket_set_status os EVD_SOCKET_STATE_CONNECTED ((evd_socket_init [])\<lparr>sk_socket := True, sk_poll_session := True\<rparr>)"

definition evd_socket_copy_properties :: "EvdSocket \<Rightarrow> EvdSocket \<Rightarrow> EvdSocket" where
  "evd_socket_copy_properties s target = evd_socket_set_priority (sk_priority s) target"

primrec accept_loop :: "os \<Rightarrow> gio_error \<Rightarrow> incoming list \<Rightarrow> EvdSocket \<Rightarrow> EvdSocket \<times> EvdSocket list \<times> gio_error option" where
  "accept_loop os e [] s = (s, [], if sk_status s = EVD_SOCKET_STATE_LISTENING then Some e else None)"
| "accept_loop os e (i # is) s =
     (if sk_status s \<noteq> EVD_SOCKET_STATE_LISTENING then (s, [], None)
      else case i of
        Incoming (Some e') closes \<Rightarrow> (s, [], Some e')
      | Incoming None closes \<Rightarrow>
          let client = evd_socket_copy_properties s (evd_socket_accept os);
              s = emit New_connection s;
              (s, clients, r) = accept_loop os e is (if closes then evd_socket_close os s else s)
          in (s, client # clients, r))"

definition evd_socket_handle_condition ::
    "os \<Rightarrow> gio_error \<Rightarrow> incoming list \<Rightarrow> 32 word \<Rightarrow> EvdSocket \<Rightarrow> EvdSocket \<times> EvdSocket list" where
  "evd_socket_handle_condition os accept_error waiting condition s =
     (if condition = sk_cond s then (s, [])
      else
        let s = s\<lparr>sk_cond := condition\<rparr>;
            (s, clients) =
              (if sk_status s = EVD_SOCKET_STATE_LISTENING then
                 let (s, clients, e) = accept_loop os accept_error waiting (s\<lparr>sk_cond := condition AND NOT G_IO_IN\<rparr>)
                 in (case e of
                       None \<Rightarrow> s
                     | Some e \<Rightarrow> (if e = G_IO_ERROR_WOULD_BLOCK then s else evd_socket_throw_error e s), clients)
               else if condition AND G_IO_ERR \<noteq> 0 then
                 (evd_socket_close os
                    (if sk_status s = EVD_SOCKET_STATE_CONNECTING
                     then evd_socket_throw_error G_IO_ERROR_CONNECTION_REFUSED (complete_result (Some G_IO_ERROR_CONNECTION_REFUSED) s)
                     else evd_socket_throw_error G_IO_ERROR_OTHER s), [])
               else if sk_status s = EVD_SOCKET_STATE_CONNECTING \<and> condition AND G_IO_OUT \<noteq> 0 then
                 (complete_result None
                    (evd_socket_set_status os EVD_SOCKET_STATE_CONNECTED
                       (s\<lparr>sk_has_pending := False, sk_actual_priority := sk_priority s\<rparr>)), [])
               else (s, []))
        in (if SOCKET_ACTIVE s \<and> sk_notify s then emit (Notify_condition condition) s else s, clients))"

definition evd_socket_watch_condition :: "32 word \<Rightarrow> EvdSocket \<Rightarrow> EvdSocket \<times> gio_error option" where
  "evd_socket_watch_condition cond s =
     (if SOCKET_ACTIVE s then (s\<lparr>sk_cond := NOT cond\<rparr>, None) else (s, Some G_IO_ERROR_NOT_INITIALIZED))"

definition evd_socket_set_notify_condition_callback :: "bool \<Rightarrow> EvdSocket \<Rightarrow> EvdSocket" where
  "evd_socket_set_notify_condition_callback callback s = s\<lparr>sk_notify := callback\<rparr>"

text \<open>The main loop: a resolution that is under way comes back, and operations are completed.\<close>

definition resolution_arrives :: "os \<Rightarrow> nat \<Rightarrow> gio_error + (GSocketFamily \<times> string) list \<Rightarrow> EvdSocket \<Rightarrow> EvdSocket" where
  "resolution_arrives os i dns s =
     (if i < length (sk_lookups s)
      then evd_socket_on_address_resolved os (evd_resolver_resolve_finish (sk_lookups s ! i) dns)
             (s\<lparr>sk_lookups := take i (sk_lookups s) @ drop (Suc i) (sk_lookups s)\<rparr>)
      else s)"

definition socket_idle :: "EvdSocket \<Rightarrow> EvdSocket" where
  "socket_idle s = s\<lparr>sk_idle := [], sk_completed := sk_completed s @ sk_idle s\<rparr>"
section \<open>Closing\<close>

definition drop_result :: "EvdSocket \<Rightarrow> EvdSocket" where
  "drop_result s =
     (case sk_async_result s of
        None \<Rightarrow> s
      | Some res \<Rightarrow> s\<lparr>sk_async_result := None, sk_completed := sk_completed s @ [(res, Some G_IO_ERROR_CLOSED)]\<rparr>)"

definition closed_down :: "os \<Rightarrow> EvdSocket \<Rightarrow> EvdSocket" where
  "closed_down os s =
     emit Close_signal (emit (State_changed EVD_SOCKET_STATE_CLOSED (sk_status s))
       ((fst (evd_socket_cleanup_internal os s))\<lparr>sk_status := EVD_SOCKET_STATE_CLOSED\<rparr>))"

lemma drop_result_simps [simp]:
  "sk_async_result (drop_result s) = None" "sk_status (drop_result s) = sk_status s" "sk_has_pending (drop_result s) = sk_has_pending s"
  "sk_signals (drop_result s) = sk_signals s" "sk_started (drop_result s) = sk_started s" "sk_closes_on (drop_result s) = sk_closes_on s"
  "sk_idle (drop_result s) = sk_idle s" "sk_lookups (drop_result s) = sk_lookups s" "sk_socket (drop_result s) = sk_socket s"
  "sk_poll_session (drop_result s) = sk_poll_session s" "sk_protocol (drop_result s) = sk_protocol s"
  by (simp_all add: drop_result_def split: option.split)

text \<open>Closing from within closing does nothing.\<close>

lemma socket_close_closed:
  "sk_status s = EVD_SOCKET_STATE_CLOSED \<Longrightarrow> sk_async_result s = None \<Longrightarrow> fst (socket_close n os s) = s"
  by (cases n) (simp_all add: close_with_def)

lemma socket_close_eq:
  "fst (socket_close (Suc n) os s) =
     (if sk_status s = EVD_SOCKET_STATE_CLOSED \<or> sk_status s = EVD_SOCKET_STATE_CLOSING then drop_result s
      else closed_down os (drop_result s))"
proof -
  have "set_status_with (\<lambda>s. fst (socket_close n os s)) EVD_SOCKET_STATE_CLOSED (fst (evd_socket_cleanup_internal os (drop_result s))) =
      emit (State_changed EVD_SOCKET_STATE_CLOSED (sk_status s))
        ((fst (evd_socket_cleanup_internal os (drop_result s)))\<lparr>sk_status := EVD_SOCKET_STATE_CLOSED\<rparr>)"
    if "sk_status s \<noteq> EVD_SOCKET_STATE_CLOSED"
    using that by (simp add: set_status_with_def evd_socket_cleanup_internal_def socket_close_closed Let_def)
  then show ?thesis
    by (simp add: close_with_def drop_result_def [symmetric] closed_down_def Let_def split: prod.split)
      (simp add: evd_socket_cleanup_internal_def)
qed

text \<open>So more calls make no difference.\<close>

lemma socket_close_fuel: "fst (socket_close (Suc (Suc n)) os s) = evd_socket_close os s"
  by (simp only: evd_socket_close_def numeral_2_eq_2 socket_close_eq)

lemma close_eq:
  "evd_socket_close os s =
     (if sk_status s = EVD_SOCKET_STATE_CLOSED \<or> sk_status s = EVD_SOCKET_STATE_CLOSING then drop_result s
      else closed_down os (drop_result s))"
  by (simp only: evd_socket_close_def numeral_2_eq_2 socket_close_eq)

section \<open>Invariants\<close>

text \<open>The changes of state that are announced, from a state to the next.\<close>

definition legal :: "EvdSocketState \<Rightarrow> EvdSocketState \<Rightarrow> bool" where
  "legal old new \<longleftrightarrow> (case new of
      EVD_SOCKET_STATE_CLOSED \<Rightarrow> old \<noteq> EVD_SOCKET_STATE_CLOSED
    | EVD_SOCKET_STATE_RESOLVING \<Rightarrow> old \<in> {EVD_SOCKET_STATE_CLOSED, EVD_SOCKET_STATE_BOUND, EVD_SOCKET_STATE_LISTENING}
    | EVD_SOCKET_STATE_BOUND \<Rightarrow> old \<in> {EVD_SOCKET_STATE_CLOSED, EVD_SOCKET_STATE_RESOLVING, EVD_SOCKET_STATE_LISTENING}
    | EVD_SOCKET_STATE_LISTENING \<Rightarrow> old = EVD_SOCKET_STATE_BOUND
    | EVD_SOCKET_STATE_CONNECTING \<Rightarrow>
        old \<in> {EVD_SOCKET_STATE_CLOSED, EVD_SOCKET_STATE_RESOLVING, EVD_SOCKET_STATE_BOUND, EVD_SOCKET_STATE_LISTENING}
    | EVD_SOCKET_STATE_CONNECTED \<Rightarrow> old = EVD_SOCKET_STATE_CONNECTING
    | _ \<Rightarrow> False)"

fun path_end :: "EvdSocketState \<Rightarrow> socket_signal list \<Rightarrow> EvdSocketState option" where
  "path_end st [] = Some st"
| "path_end st (State_changed new old # sigs) = (if old = st \<and> legal old new then path_end new sigs else None)"
| "path_end st (Error_signal e # sigs) = path_end st sigs"
| "path_end st (Close_signal # sigs) = path_end st sigs"
| "path_end st (New_connection # sigs) = path_end st sigs"
| "path_end st (Notify_condition c # sigs) = path_end st sigs"

lemma path_end_append: "path_end st (xs @ ys) = (case path_end st xs of None \<Rightarrow> None | Some st' \<Rightarrow> path_end st' ys)"
  by (induction st xs rule: path_end.induct) auto

text \<open>
  The life of a socket as its listeners see it: a new socket begins closed; the socket of a connection that
  was accepted announces that it is connected first.
\<close>

definition life_end :: "bool \<Rightarrow> socket_signal list \<Rightarrow> EvdSocketState option" where
  "life_end was_accepted sigs =
     (if was_accepted
      then (case sigs of [] \<Rightarrow> None
            | sig # sigs \<Rightarrow> (if sig = State_changed EVD_SOCKET_STATE_CONNECTED EVD_SOCKET_STATE_CLOSED
                            then path_end EVD_SOCKET_STATE_CONNECTED sigs else None))
      else path_end EVD_SOCKET_STATE_CLOSED sigs)"

lemma life_end_append: "life_end ac xs = Some st \<Longrightarrow> life_end ac (xs @ ys) = path_end st ys"
  by (auto simp: life_end_def path_end_append split: list.splits if_splits)

definition path_ok :: "EvdSocket \<Rightarrow> bool \<Rightarrow> bool" where
  "path_ok s ac \<longleftrightarrow> life_end ac (sk_signals s) = Some (sk_status s)"

definition balanced :: "EvdSocket \<Rightarrow> bool" where
  "balanced s \<longleftrightarrow> mset (sk_started s) =
     mset (map fst (sk_completed s)) + mset (map fst (sk_idle s)) + (case sk_async_result s of None \<Rightarrow> {#} | Some r \<Rightarrow> {#r#})"

definition core :: "EvdSocket \<Rightarrow> bool \<Rightarrow> bool" where
  "core s ac \<longleftrightarrow> path_ok s ac \<and> balanced s \<and> sk_status s \<notin> {EVD_SOCKET_STATE_TLS_HANDSHAKING, EVD_SOCKET_STATE_CLOSING}"

definition busy :: "EvdSocket \<Rightarrow> bool" where
  "busy s \<longleftrightarrow> sk_status s = EVD_SOCKET_STATE_RESOLVING \<or> sk_status s = EVD_SOCKET_STATE_CONNECTING"

definition pending_ok :: "EvdSocket \<Rightarrow> bool" where
  "pending_ok s \<longleftrightarrow>
     (busy s \<longrightarrow> sk_async_result s \<noteq> None \<and> sk_has_pending s) \<and>
     (\<not> busy s \<and> sk_status s \<noteq> EVD_SOCKET_STATE_CLOSED \<longrightarrow> sk_async_result s = None \<and> \<not> sk_has_pending s) \<and>
     (sk_async_result s \<noteq> None \<longrightarrow> sk_has_pending s) \<and>
     (sk_status s = EVD_SOCKET_STATE_CONNECTING \<or> sk_status s = EVD_SOCKET_STATE_CONNECTED \<longrightarrow> sk_socket s \<and> sk_poll_session s)"

definition socket_inv :: "EvdSocket \<Rightarrow> bool \<Rightarrow> bool" where
  "socket_inv s ac \<longleftrightarrow> core s ac \<and> pending_ok s"

lemma init_socket_inv: "socket_inv (evd_socket_init cs) False"
  by (simp add: life_end_def socket_inv_def core_def path_ok_def balanced_def pending_ok_def busy_def evd_socket_init_def)

lemma accepted_socket_inv: "socket_inv (evd_socket_copy_properties s (evd_socket_accept os)) True"
  by (simp add: socket_inv_def core_def path_ok_def balanced_def pending_ok_def busy_def evd_socket_init_def life_end_def
      evd_socket_copy_properties_def evd_socket_set_priority_def evd_socket_accept_def evd_socket_set_status_def set_status_with_def Let_def)

lemma drop_core: "core s ac \<Longrightarrow> core (drop_result s) ac"
  by (auto simp: core_def path_ok_def balanced_def drop_result_def split: option.splits)

lemma legal_closed: "st \<noteq> EVD_SOCKET_STATE_CLOSED \<Longrightarrow> legal st EVD_SOCKET_STATE_CLOSED"
  by (simp add: legal_def)

lemma closed_down_simps [simp]:
  "sk_status (closed_down os s) = EVD_SOCKET_STATE_CLOSED" "sk_async_result (closed_down os s) = sk_async_result s"
  "\<not> sk_has_pending (closed_down os s)" "sk_started (closed_down os s) = sk_started s" "\<not> sk_socket (closed_down os s)"
  "sk_closes_on (closed_down os s) = sk_closes_on s" "sk_protocol (closed_down os s) = sk_protocol s"
  by (simp_all add: closed_down_def evd_socket_cleanup_internal_def)

lemma closed_down_core:
  assumes "core s ac" "sk_status s \<noteq> EVD_SOCKET_STATE_CLOSED"
  shows "core (closed_down os s) ac"
  using assms
  by (auto simp: core_def path_ok_def balanced_def closed_down_def evd_socket_cleanup_internal_def life_end_append legal_closed)

lemma close_core: "core s ac \<Longrightarrow> core (evd_socket_close os s) ac"
  by (simp add: close_eq drop_core closed_down_core)

lemma close_facts:
  assumes "core s ac"
  shows "sk_status (evd_socket_close os s) = EVD_SOCKET_STATE_CLOSED" "sk_async_result (evd_socket_close os s) = None"
    "sk_has_pending (evd_socket_close os s) = (sk_status s = EVD_SOCKET_STATE_CLOSED \<and> sk_has_pending s)"
    "sk_started (evd_socket_close os s) = sk_started s"
  using assms by (auto simp: close_eq core_def)

lemma close_pending: "core s ac \<Longrightarrow> pending_ok (evd_socket_close os s)"
  by (simp add: pending_ok_def busy_def close_facts)

text \<open>A change of state: the new one, or the handler closes the socket.\<close>

lemma set_status_facts:
  fixes os :: os
  assumes "core s ac" "legal (sk_status s) st \<or> st = sk_status s" "st \<noteq> EVD_SOCKET_STATE_CLOSED"
  defines "s' \<equiv> evd_socket_set_status os st s"
  shows "core s' ac" "sk_started s' = sk_started s"
    "(sk_status s' = st \<and> sk_async_result s' = sk_async_result s \<and> sk_has_pending s' = sk_has_pending s \<and> sk_socket s' = sk_socket s \<and>
      sk_poll_session s' = sk_poll_session s) \<or>
     (sk_status s' = EVD_SOCKET_STATE_CLOSED \<and> sk_async_result s' = None \<and> \<not> sk_has_pending s')"
proof -
  let ?s = "emit (State_changed st (sk_status s)) (s\<lparr>sk_status := st\<rparr>)"
  have c: "core ?s ac" if "st \<noteq> sk_status s"
    using assms(1,2,3) that
    by (auto simp: core_def path_ok_def balanced_def life_end_append legal_def split: EvdSocketState.splits)
  have s': "s' = (if st = sk_status s then s else if st \<in> set (sk_closes_on s) then evd_socket_close os ?s else ?s)"
    by (simp add: s'_def evd_socket_set_status_def set_status_with_def Let_def)
  show "core s' ac" using assms(1) c close_core [of ?s] by (auto simp: s')
  have f: "sk_started (evd_socket_close os ?s) = sk_started s" "sk_status (evd_socket_close os ?s) = EVD_SOCKET_STATE_CLOSED"
    "sk_async_result (evd_socket_close os ?s) = None" "\<not> sk_has_pending (evd_socket_close os ?s)" if "st \<noteq> sk_status s"
    using close_facts [OF c [OF that], of os] assms(3) by simp_all
  show "sk_started s' = sk_started s" using f by (simp add: s')
  show "(sk_status s' = st \<and> sk_async_result s' = sk_async_result s \<and> sk_has_pending s' = sk_has_pending s \<and> sk_socket s' = sk_socket s \<and>
      sk_poll_session s' = sk_poll_session s) \<or>
     (sk_status s' = EVD_SOCKET_STATE_CLOSED \<and> sk_async_result s' = None \<and> \<not> sk_has_pending s')"
    using f by (auto simp: s')
qed

lemma core_frame:
  assumes "core s ac" "sk_status s' = sk_status s" "sk_signals s' = sk_signals s" "sk_started s' = sk_started s"
    "sk_completed s' = sk_completed s" "sk_idle s' = sk_idle s" "sk_async_result s' = sk_async_result s"
  shows "core s' ac"
  using assms by (simp add: core_def path_ok_def balanced_def)

lemma complete_core: "core s ac \<Longrightarrow> core (complete_result r s) ac"
  by (auto simp: core_def path_ok_def balanced_def complete_result_def split: option.splits)

lemma throw_core: "core s ac \<Longrightarrow> core (evd_socket_throw_error e s) ac"
  by (simp add: core_def path_ok_def balanced_def evd_socket_throw_error_def life_end_append)

lemma complete_facts [simp]:
  "sk_async_result (complete_result r s) = None" "sk_status (complete_result r s) = sk_status s"
  "sk_has_pending (complete_result r s) = sk_has_pending s" "sk_started (complete_result r s) = sk_started s"
  "sk_socket (complete_result r s) = sk_socket s" "sk_poll_session (complete_result r s) = sk_poll_session s"
  by (simp_all add: complete_result_def split: option.split)

lemma throw_facts [simp]:
  "sk_async_result (evd_socket_throw_error e s) = sk_async_result s" "sk_status (evd_socket_throw_error e s) = sk_status s"
  "sk_has_pending (evd_socket_throw_error e s) = sk_has_pending s" "sk_socket (evd_socket_throw_error e s) = sk_socket s"
  "sk_poll_session (evd_socket_throw_error e s) = sk_poll_session s" "sk_started (evd_socket_throw_error e s) = sk_started s"
  by (simp_all add: evd_socket_throw_error_def)
section \<open>The operations keep the invariant\<close>

lemma check_address_facts:
  "core s ac \<Longrightarrow> core (fst (evd_socket_check_address a s)) ac"
  "sk_status (fst (evd_socket_check_address a s)) = sk_status s"
  "sk_async_result (fst (evd_socket_check_address a s)) = sk_async_result s"
  "sk_has_pending (fst (evd_socket_check_address a s)) = sk_has_pending s"
  "sk_started (fst (evd_socket_check_address a s)) = sk_started s"
  "sk_sub_status (fst (evd_socket_check_address a s)) = sk_sub_status s"
  by (auto simp: evd_socket_check_address_def intro: core_frame)

lemma cleanup_core: "core s ac \<Longrightarrow> core (fst (evd_socket_cleanup_internal os s)) ac"
  by (auto simp: evd_socket_cleanup_internal_def intro: core_frame)

text \<open>What the internal operations leave of the status, the operation that is pending and the count.\<close>

definition outcome_ok :: "EvdSocketState \<Rightarrow> EvdSocket \<Rightarrow> EvdSocket \<Rightarrow> bool \<Rightarrow> bool" where
  "outcome_ok st s s' ac \<longleftrightarrow> core s' ac \<and> sk_started s' = sk_started s \<and>
     ((sk_status s' = st \<and> sk_async_result s' = sk_async_result s \<and> sk_has_pending s' = sk_has_pending s) \<or>
      (sk_status s' = EVD_SOCKET_STATE_CLOSED \<and> sk_async_result s' = None \<and> \<not> sk_has_pending s'))"

definition failure_ok :: "EvdSocket \<Rightarrow> EvdSocket \<Rightarrow> bool \<Rightarrow> bool" where
  "failure_ok s s' ac \<longleftrightarrow> core s' ac \<and> sk_started s' = sk_started s \<and>
     sk_async_result s' = sk_async_result s \<and> (sk_has_pending s' \<longrightarrow> sk_has_pending s) \<and> sk_status s' = sk_status s"

definition bindable :: "EvdSocket \<Rightarrow> bool" where
  "bindable s \<longleftrightarrow> sk_status s \<in> {EVD_SOCKET_STATE_CLOSED, EVD_SOCKET_STATE_RESOLVING, EVD_SOCKET_STATE_BOUND, EVD_SOCKET_STATE_LISTENING}"

lemma setup_core: "core s ac \<Longrightarrow> evd_socket_setup os s = Inr s' \<Longrightarrow>
    core s' ac \<and> sk_status s' = sk_status s \<and> sk_async_result s' = sk_async_result s \<and> sk_has_pending s' = sk_has_pending s \<and>
    sk_started s' = sk_started s \<and> sk_socket s'"
  by (auto simp: evd_socket_setup_def split: if_splits option.splits intro: core_frame)

lemma bind_facts:
  assumes "core s ac" "bindable s" "evd_socket_bind_addr_internal os a s = (s', e)"
  shows "(e = None \<longrightarrow> outcome_ok EVD_SOCKET_STATE_BOUND s s' ac) \<and> (e \<noteq> None \<longrightarrow> failure_ok s s' ac)"
proof -
  let ?s = "fst (evd_socket_check_address a s)"
  have c: "core ?s ac" using assms(1) by (simp add: check_address_facts)
  show ?thesis
  proof (cases "snd (evd_socket_check_address a s)")
    case False
    then have "s' = ?s" "e \<noteq> None" using assms(3) by (auto simp: evd_socket_bind_addr_internal_def split: prod.splits)
    with c show ?thesis by (auto simp: failure_ok_def check_address_facts)
  next
    case ok: True
    show ?thesis
    proof (cases "evd_socket_setup os ?s")
      case (Inl e')
      with ok assms(3) have "s' = ?s" "e = Some e'" by (auto simp: evd_socket_bind_addr_internal_def split: prod.splits)
      with c show ?thesis by (simp add: failure_ok_def check_address_facts)
    next
      case (Inr t)
      note t = setup_core [OF c Inr]
      show ?thesis
      proof (cases "g_socket_bind os")
        case (Some e')
        with ok Inr assms(3) have "s' = fst (evd_socket_cleanup_internal os t)" "e = Some e'"
          by (auto simp: evd_socket_bind_addr_internal_def split: prod.splits)
        with t cleanup_core [of t _ os] show ?thesis
          by (simp add: failure_ok_def check_address_facts evd_socket_cleanup_internal_def)
      next
        case None
        with ok Inr assms(3) have s': "s' = evd_socket_set_status os EVD_SOCKET_STATE_BOUND t" "e = None"
          by (auto simp: evd_socket_bind_addr_internal_def split: prod.splits)
        have "legal (sk_status t) EVD_SOCKET_STATE_BOUND \<or> EVD_SOCKET_STATE_BOUND = sk_status t"
          using assms(2) t by (auto simp: bindable_def legal_def check_address_facts)
        with set_status_facts [OF _ this, of _ os] t s' show ?thesis by (auto simp: outcome_ok_def check_address_facts)
      qed
    qed
  qed
qed

lemma watch_facts:
  "core s ac \<Longrightarrow> core (fst (evd_socket_watch os s)) ac" "sk_status (fst (evd_socket_watch os s)) = sk_status s"
  "sk_async_result (fst (evd_socket_watch os s)) = sk_async_result s" "sk_has_pending (fst (evd_socket_watch os s)) = sk_has_pending s"
  "sk_started (fst (evd_socket_watch os s)) = sk_started s" "sk_socket (fst (evd_socket_watch os s)) = sk_socket s"
  "snd (evd_socket_watch os s) = None \<Longrightarrow> sk_poll_session (fst (evd_socket_watch os s))"
  by (auto simp: evd_socket_watch_def split: option.splits intro: core_frame)

lemma connect_facts:
  assumes "core s ac" "bindable s" "evd_socket_connect_addr_internal os a s = (s', e)"
  shows "(e = None \<longrightarrow> outcome_ok EVD_SOCKET_STATE_CONNECTING s s' ac \<and>
      (sk_status s' = EVD_SOCKET_STATE_CONNECTING \<longrightarrow> sk_socket s' \<and> sk_poll_session s')) \<and> (e \<noteq> None \<longrightarrow> failure_ok s s' ac)"
proof -
  let ?s = "fst (evd_socket_check_address a s)"
  have c: "core ?s ac" using assms(1) by (simp add: check_address_facts)
  show ?thesis
  proof (cases "snd (evd_socket_check_address a s)")
    case False
    then have "s' = ?s" "e \<noteq> None" using assms(3) by (auto simp: evd_socket_connect_addr_internal_def split: prod.splits)
    with c show ?thesis by (auto simp: failure_ok_def check_address_facts)
  next
    case ok: True
    show ?thesis
    proof (cases "evd_socket_setup os ?s")
      case (Inl e')
      with ok assms(3) have "s' = ?s" "e = Some e'" by (auto simp: evd_socket_connect_addr_internal_def split: prod.splits)
      with c show ?thesis by (simp add: failure_ok_def check_address_facts)
    next
      case (Inr t)
      define u where "u = t\<lparr>sk_peers := sk_peers t @ [a]\<rparr>"
      have t: "core u ac \<and> sk_status u = sk_status s \<and> sk_async_result u = sk_async_result s \<and> sk_has_pending u = sk_has_pending s \<and>
          sk_started u = sk_started s \<and> sk_socket u"
        using setup_core [OF c Inr] by (auto simp: u_def check_address_facts intro: core_frame)
      show ?thesis
      proof (cases "g_socket_connect os \<noteq> None \<and> g_socket_connect os \<noteq> Some G_IO_ERROR_PENDING")
        case True
        with ok Inr assms(3) have "s' = u" "e = g_socket_connect os"
          by (auto simp: evd_socket_connect_addr_internal_def u_def Let_def split: prod.splits)
        with t True show ?thesis by (auto simp: failure_ok_def)
      next
        case going: False
        define w where "w = fst (evd_socket_watch os u)"
        have w: "core w ac" "sk_status w = sk_status s" "sk_async_result w = sk_async_result s" "sk_has_pending w = sk_has_pending s"
          "sk_started w = sk_started s" "sk_socket w"
          using t by (simp_all add: w_def watch_facts)
        show ?thesis
        proof (cases "snd (evd_socket_watch os u)")
          case (Some e')
          with ok Inr going assms(3) have "s' = w" "e = Some e'"
            by (auto simp: evd_socket_connect_addr_internal_def u_def w_def Let_def split: prod.splits option.splits)
          with w show ?thesis by (simp add: failure_ok_def)
        next
          case None
          then have ses: "sk_poll_session w" by (simp add: w_def watch_facts)
          from None ok Inr going assms(3)
          have s': "s' = evd_socket_set_status os EVD_SOCKET_STATE_CONNECTING (w\<lparr>sk_actual_priority := -98\<rparr>)" "e = None"
            by (auto simp: evd_socket_connect_addr_internal_def u_def w_def Let_def split: prod.splits option.splits)
          have c': "core (w\<lparr>sk_actual_priority := -98\<rparr>) ac" using w by (auto intro: core_frame)
          have "legal (sk_status (w\<lparr>sk_actual_priority := -98\<rparr>)) EVD_SOCKET_STATE_CONNECTING \<or>
              EVD_SOCKET_STATE_CONNECTING = sk_status (w\<lparr>sk_actual_priority := -98\<rparr>)"
            using assms(2) w by (auto simp: bindable_def legal_def)
          from set_status_facts [OF c' this, of os] s' w ses show ?thesis by (auto simp: outcome_ok_def)
        qed
      qed
    qed
  qed
qed
definition listen_ok :: "EvdSocket \<Rightarrow> EvdSocket \<Rightarrow> bool \<Rightarrow> gio_error option \<Rightarrow> bool \<Rightarrow> bool" where
  "listen_ok s s' result e ac \<longleftrightarrow> core s' ac \<and> sk_started s' = sk_started s \<and> (\<not> result \<longrightarrow> e \<noteq> None) \<and>
     ((sk_status s' \<in> {EVD_SOCKET_STATE_BOUND, EVD_SOCKET_STATE_LISTENING} \<union> (if result then {} else {sk_status s}) \<and>
       sk_async_result s' = sk_async_result s \<and> (sk_has_pending s' \<longrightarrow> sk_has_pending s)) \<or>
      (sk_status s' = EVD_SOCKET_STATE_CLOSED \<and> sk_async_result s' = None \<and> \<not> sk_has_pending s'))"

lemma listen_bound_facts:
  assumes "core s ac" "sk_status s = EVD_SOCKET_STATE_BOUND" "evd_socket_listen_addr_internal os None s = (s', result, e)"
  shows "listen_ok s s' result e ac"
proof -
  have "core (fst (evd_socket_watch os s)) ac" using assms(1) by (simp add: watch_facts)
  define w where "w = (fst (evd_socket_watch os s))\<lparr>sk_cond := 0, sk_actual_priority := -99\<rparr>"
  have w: "core w ac" "sk_status w = EVD_SOCKET_STATE_BOUND" "sk_async_result w = sk_async_result s" "sk_has_pending w = sk_has_pending s"
      "sk_started w = sk_started s"
    using assms(1,2) core_frame [of "fst (evd_socket_watch os s)" ac w] by (simp_all add: w_def watch_facts)
  have "legal (sk_status w) EVD_SOCKET_STATE_LISTENING \<or> EVD_SOCKET_STATE_LISTENING = sk_status w" using w(2) by (simp add: legal_def)
  note l = set_status_facts [OF w(1) this, of os]
  have k: "core (fst (evd_socket_cleanup_internal os (fst (evd_socket_watch os s)))) ac"
    using assms(1) by (simp add: cleanup_core watch_facts)
  show ?thesis
  proof (cases "\<not> sk_socket s \<or> g_socket_listen os \<noteq> None")
    case True
    with assms have "s' = s" "result" by (auto simp: evd_socket_listen_addr_internal_def split: if_splits)
    with assms(1,2) show ?thesis by (simp add: listen_ok_def)
  next
    case False
    show ?thesis
    proof (cases "snd (evd_socket_watch os s)")
      case None
      with False assms have "s' = evd_socket_set_status os EVD_SOCKET_STATE_LISTENING w" "result" "e = None"
        by (auto simp: evd_socket_listen_addr_internal_def w_def split: prod.splits)
      with l w show ?thesis by (auto simp: listen_ok_def)
    next
      case (Some e')
      with False assms have "s' = fst (evd_socket_cleanup_internal os (fst (evd_socket_watch os s)))" "\<not> result" "e = Some e'"
        by (auto simp: evd_socket_listen_addr_internal_def split: prod.splits)
      with k assms(2) show ?thesis by (auto simp: listen_ok_def evd_socket_cleanup_internal_def watch_facts)
    qed
  qed
qed

lemma listen_facts:
  assumes "core s ac" "bindable s" "evd_socket_listen_addr_internal os address s = (s', result, e)"
  shows "listen_ok s s' result e ac"
proof -
  obtain t f where t: "(case address of None \<Rightarrow> (s, None) | Some a \<Rightarrow> evd_socket_bind_addr_internal os a s) = (t, f)"
    by (cases "case address of None \<Rightarrow> (s, None) | Some a \<Rightarrow> evd_socket_bind_addr_internal os a s") auto
  have f: "(f = None \<longrightarrow> outcome_ok EVD_SOCKET_STATE_BOUND s t ac \<or> t = s) \<and> (f \<noteq> None \<longrightarrow> failure_ok s t ac)"
    using t bind_facts [OF assms(1,2), of os] by (cases address) auto
  have eq: "evd_socket_listen_addr_internal os address s =
      (if f \<noteq> None then (t, False, f)
       else if sk_status t \<noteq> EVD_SOCKET_STATE_BOUND then (t, False, Some G_IO_ERROR_CLOSED)
       else evd_socket_listen_addr_internal os None t)"
    using t by (cases address) (simp_all add: evd_socket_listen_addr_internal_def split: option.split)
  show ?thesis
  proof (cases "f \<noteq> None \<or> sk_status t \<noteq> EVD_SOCKET_STATE_BOUND")
    case True
    with eq f assms show ?thesis by (auto simp: listen_ok_def failure_ok_def outcome_ok_def split: if_splits)
  next
    case False
    then have t': "core t ac" "sk_status t = EVD_SOCKET_STATE_BOUND" "sk_async_result t = sk_async_result s" "sk_has_pending t = sk_has_pending s"
        "sk_started t = sk_started s"
      using f assms(1) by (auto simp: outcome_ok_def)
    from False eq assms(3) have "evd_socket_listen_addr_internal os None t = (s', result, e)" by simp
    from listen_bound_facts [OF t'(1,2) this] t' show ?thesis by (auto simp: listen_ok_def)
  qed
qed

lemma resolved_action_facts:
  assumes "core s ac" "sk_status s = EVD_SOCKET_STATE_RESOLVING" "sk_async_result s \<noteq> None" "sk_has_pending s"
    and "resolved_action os a s = (s', e)"
  shows "core s' ac \<and> sk_started s' = sk_started s \<and> (e = None \<longrightarrow> pending_ok s')"
proof -
  define t where "t = s\<lparr>sk_sub_status := EVD_SOCKET_STATE_CLOSED\<rparr>"
  have t: "core t ac" "bindable t" "sk_status t = EVD_SOCKET_STATE_RESOLVING" "sk_async_result t \<noteq> None" "sk_has_pending t"
      "sk_started t = sk_started s"
    using assms by (auto simp: t_def bindable_def intro: core_frame)
  have done_core: "core (complete_result r (u\<lparr>sk_has_pending := False\<rparr>)) ac" if "core u ac" for u r
    by (rule complete_core, rule core_frame [OF that]) simp_all
  consider (l) "sk_sub_status s = EVD_SOCKET_STATE_LISTENING" | (b) "sk_sub_status s = EVD_SOCKET_STATE_BOUND"
    | (c) "sk_sub_status s = EVD_SOCKET_STATE_CONNECTING"
    | (o) "sk_sub_status s \<notin> {EVD_SOCKET_STATE_LISTENING, EVD_SOCKET_STATE_BOUND, EVD_SOCKET_STATE_CONNECTING}" by blast
  then show ?thesis
  proof cases
    case l
    obtain u result e' where u: "evd_socket_listen_addr_internal os (Some a) t = (u, result, e')" by (cases "evd_socket_listen_addr_internal os (Some a) t")
    from listen_facts [OF t(1,2) u] have k: "listen_ok t u result e' ac" .
    have "s' = (if result \<and> sk_async_result u \<noteq> None then complete_result None (u\<lparr>sk_has_pending := False\<rparr>) else u)" "e = e'"
      using assms(5) l u by (auto simp: resolved_action_def t_def [symmetric] Let_def)
    with k t done_core [of u] show ?thesis by (auto simp: listen_ok_def pending_ok_def busy_def split: if_splits)
  next
    case b
    obtain u e' where u: "evd_socket_bind_addr_internal os a t = (u, e')" by (cases "evd_socket_bind_addr_internal os a t")
    from bind_facts [OF t(1,2) u]
    have k: "(e' = None \<longrightarrow> outcome_ok EVD_SOCKET_STATE_BOUND t u ac) \<and> (e' \<noteq> None \<longrightarrow> failure_ok t u ac)" .
    have "s' = (if e' = None \<and> sk_async_result u \<noteq> None then complete_result None (u\<lparr>sk_has_pending := False\<rparr>) else u)" "e = e'"
      using assms(5) b u by (auto simp: resolved_action_def t_def [symmetric] Let_def)
    with k t done_core [of u] show ?thesis by (auto simp: outcome_ok_def failure_ok_def pending_ok_def busy_def split: if_splits)
  next
    case c
    then have "evd_socket_connect_addr_internal os a t = (s', e)" using assms(5) by (simp add: resolved_action_def t_def Let_def)
    from connect_facts [OF t(1,2) this] t show ?thesis by (auto simp: outcome_ok_def failure_ok_def pending_ok_def busy_def)
  next
    case o
    then have "s' = t" "e = None" using assms(5) by (auto simp: resolved_action_def t_def Let_def split: EvdSocketState.splits)
    with t show ?thesis by (auto simp: pending_ok_def busy_def)
  qed
qed

lemma match_address_facts:
  assumes "core s ac"
  shows "core (fst (match_address as s)) ac \<and> sk_status (fst (match_address as s)) = sk_status s \<and>
    sk_async_result (fst (match_address as s)) = sk_async_result s \<and> sk_has_pending (fst (match_address as s)) = sk_has_pending s \<and>
    sk_started (fst (match_address as s)) = sk_started s"
  using assms
proof (induction as arbitrary: s)
  case Nil
  then show ?case by simp
next
  case (Cons a as)
  have c: "core (fst (evd_socket_check_address a s)) ac" using Cons.prems by (simp add: check_address_facts)
  have "match_address (a # as) s = (if snd (evd_socket_check_address a s) then (fst (evd_socket_check_address a s), Some a)
      else match_address as (fst (evd_socket_check_address a s)))"
    by (simp split: prod.split)
  with Cons.IH [OF c] c show ?case by (simp add: check_address_facts del: match_address.simps)
qed

lemma resolved_inv:
  assumes "socket_inv s ac"
  shows "socket_inv (evd_socket_on_address_resolved os r s) ac \<and> sk_started (evd_socket_on_address_resolved os r s) = sk_started s"
proof (cases "sk_status s = EVD_SOCKET_STATE_RESOLVING")
  case False
  with assms show ?thesis by (simp add: evd_socket_on_address_resolved_def)
next
  case True
  have s: "core s ac" "sk_async_result s \<noteq> None" "sk_has_pending s" using assms True by (auto simp: socket_inv_def pending_ok_def busy_def)
  define p where "p = (case r of Inl e \<Rightarrow> (s, Some e) | Inr [] \<Rightarrow> (s, None)
    | Inr as \<Rightarrow> (case match_address as s of (s, Some a) \<Rightarrow> resolved_action os a s | (s, None) \<Rightarrow> (s, Some G_IO_ERROR_INVALID_ARGUMENT)))"
  have p: "core (fst p) ac \<and> sk_started (fst p) = sk_started s \<and> (snd p = None \<longrightarrow> pending_ok (fst p))"
  proof (cases r)
    case (Inl e)
    with s show ?thesis by (simp add: p_def)
  next
    case (Inr as)
    show ?thesis
    proof (cases as)
      case Nil
      with Inr s assms show ?thesis by (simp add: p_def socket_inv_def)
    next
      case (Cons a' as')
      obtain t m where m: "match_address as s = (t, m)" by (cases "match_address as s")
      have t: "core t ac" "sk_status t = EVD_SOCKET_STATE_RESOLVING" "sk_async_result t \<noteq> None" "sk_has_pending t" "sk_started t = sk_started s"
        using match_address_facts [OF s(1), of as] s True m by simp_all
      show ?thesis
      proof (cases m)
        case None
        with Inr Cons m t show ?thesis by (simp add: p_def)
      next
        case (Some a)
        obtain u e where u: "resolved_action os a t = (u, e)" by (cases "resolved_action os a t")
        with resolved_action_facts [OF t(1-4) u] Inr Cons m Some t show ?thesis by (simp add: p_def)
      qed
    qed
  qed
  have eq: "evd_socket_on_address_resolved os r s =
      (case snd p of None \<Rightarrow> fst p | Some e \<Rightarrow> evd_socket_close os (evd_socket_throw_error e (complete_result (Some e) (fst p))))"
    using True by (simp add: evd_socket_on_address_resolved_def p_def [symmetric] case_prod_unfold)
  show ?thesis
  proof (cases "snd p")
    case None
    with eq p show ?thesis by (simp add: socket_inv_def)
  next
    case (Some e)
    have "core (evd_socket_throw_error e (complete_result (Some e) (fst p))) ac" using p by (simp add: throw_core complete_core)
    with eq Some p show ?thesis by (simp add: socket_inv_def close_core close_pending close_facts)
  qed
qed
lemma pending_free:
  assumes "socket_inv s ac" "evd_socket_check_availability s = None"
  shows "bindable s" "sk_async_result s = None" "\<not> sk_has_pending s" "\<not> busy s"
  using assms
  by (cases "sk_status s"; auto simp: evd_socket_check_availability_def SOCKET_ACTIVE_def socket_inv_def pending_ok_def core_def
      bindable_def busy_def split: if_splits)+

lemma start_refused_core:
  "core s ac \<Longrightarrow> core (s\<lparr>sk_started := sk_started s @ [res], sk_idle := sk_idle s @ [(res, e)]\<rparr>) ac"
  by (simp add: core_def path_ok_def balanced_def)

lemma start_core:
  "core s ac \<Longrightarrow> sk_async_result s = None \<Longrightarrow>
    core (s\<lparr>sk_started := sk_started s @ [res], sk_async_result := Some res, sk_has_pending := b\<rparr>) ac"
  by (simp add: core_def path_ok_def balanced_def)

lemma resolve_operation_inv:
  assumes "socket_inv s ac"
  shows "socket_inv (resolve_operation os net action res address s) ac"
proof (cases "evd_socket_check_availability s")
  case (Some e)
  moreover have "evd_socket_check_availability (s\<lparr>sk_started := xs\<rparr>) = evd_socket_check_availability s" for xs
    by (simp add: evd_socket_check_availability_def SOCKET_ACTIVE_def)
  ultimately show ?thesis
    using assms start_refused_core [of s _ res "Some e"] by (simp add: resolve_operation_def socket_inv_def pending_ok_def busy_def)
next
  case None
  note free = pending_free [OF assms None]
  have avail: "evd_socket_check_availability (s\<lparr>sk_started := xs\<rparr>) = evd_socket_check_availability s" for xs
    by (simp add: evd_socket_check_availability_def SOCKET_ACTIVE_def)
  let ?s = "s\<lparr>sk_started := sk_started s @ [res], sk_async_result := Some res, sk_has_pending := True\<rparr>"
  have c: "core ?s ac" using start_core free assms by (simp add: socket_inv_def)
  have "legal (sk_status ?s) EVD_SOCKET_STATE_RESOLVING \<or> EVD_SOCKET_STATE_RESOLVING = sk_status ?s"
    using free(1) by (auto simp: bindable_def legal_def)
  note f = set_status_facts [OF c this, of os]
  let ?t = "evd_socket_set_status os EVD_SOCKET_STATE_RESOLVING ?s"
  have "core (evd_socket_resolve_address net address action ?t) ac"
    by (rule core_frame [OF f(1)]) (simp_all add: evd_socket_resolve_address_def)
  moreover have "pending_ok (evd_socket_resolve_address net address action ?t)"
    using f(3) by (auto simp: pending_ok_def busy_def evd_socket_resolve_address_def)
  ultimately show ?thesis using None by (simp add: resolve_operation_def avail socket_inv_def)
qed

lemma connect_addr_inv:
  assumes "socket_inv s ac"
  shows "socket_inv (evd_socket_connect_addr os res address s) ac"
proof (cases "evd_socket_check_availability s")
  case (Some e)
  then show ?thesis
    using assms start_refused_core [of s _ res "Some e"]
    by (simp add: evd_socket_connect_addr_def socket_inv_def pending_ok_def busy_def)
next
  case None
  note free = pending_free [OF assms None]
  obtain t e where t: "evd_socket_connect_addr_internal os address s = (t, e)" by (cases "evd_socket_connect_addr_internal os address s")
  have "core s ac" using assms by (simp add: socket_inv_def)
  note f = connect_facts [OF this free(1) t]
  show ?thesis
  proof (cases e)
    case none: None
    with f have k: "outcome_ok EVD_SOCKET_STATE_CONNECTING s t ac" "sk_status t = EVD_SOCKET_STATE_CONNECTING \<longrightarrow> sk_socket t \<and> sk_poll_session t" by auto
    then have async: "sk_async_result t = None" using free(2) by (auto simp: outcome_ok_def)
    let ?t = "t\<lparr>sk_started := sk_started t @ [res], sk_has_pending := True, sk_async_result := Some res\<rparr>"
    have "core ?t ac" using k(1) async by (auto simp: outcome_ok_def core_def path_ok_def balanced_def)
    moreover have "pending_ok ?t" using k by (auto simp: outcome_ok_def pending_ok_def busy_def)
    ultimately show ?thesis using None none t by (simp add: evd_socket_connect_addr_def socket_inv_def)
  next
    case (Some e')
    with f have k: "failure_ok s t ac" by simp
    then have "core (t\<lparr>sk_started := sk_started t @ [res], sk_idle := sk_idle t @ [(res, e)]\<rparr>) ac"
      by (intro start_refused_core) (simp add: failure_ok_def)
    moreover have "pending_ok (t\<lparr>sk_started := sk_started t @ [res], sk_idle := sk_idle t @ [(res, e)]\<rparr>)"
      using k free by (auto simp: failure_ok_def pending_ok_def busy_def bindable_def)
    ultimately show ?thesis using Some None t by (simp add: evd_socket_connect_addr_def socket_inv_def)
  qed
qed
lemma listen_addr_inv:
  assumes "socket_inv s ac"
  shows "socket_inv (fst (evd_socket_listen_addr os address s)) ac"
proof (cases "evd_socket_check_availability s")
  case (Some e)
  with assms show ?thesis by (simp add: evd_socket_listen_addr_def)
next
  case None
  note free = pending_free [OF assms None]
  let ?s = "s\<lparr>sk_has_pending := True\<rparr>"
  have "core ?s ac" "bindable ?s" using assms free by (auto simp: socket_inv_def bindable_def intro: core_frame)
  moreover obtain t r e where t: "evd_socket_listen_addr_internal os address ?s = (t, r, e)" by (cases "evd_socket_listen_addr_internal os address ?s")
  ultimately have k: "listen_ok ?s t r e ac" using listen_facts by blast
  have "core (t\<lparr>sk_has_pending := False\<rparr>) ac" by (rule core_frame [of t]) (use k in \<open>simp_all add: listen_ok_def\<close>)
  moreover have "pending_ok (t\<lparr>sk_has_pending := False\<rparr>)"
    using k free assms by (auto simp: listen_ok_def pending_ok_def busy_def socket_inv_def bindable_def split: if_splits)
  ultimately show ?thesis using None t by (simp add: evd_socket_listen_addr_def socket_inv_def)
qed

lemma bind_addr_inv:
  assumes "socket_inv s ac"
  shows "socket_inv (fst (evd_socket_bind_addr os address s)) ac"
proof (cases "evd_socket_check_availability s")
  case (Some e)
  with assms show ?thesis by (simp add: evd_socket_bind_addr_def)
next
  case None
  note free = pending_free [OF assms None]
  let ?s = "s\<lparr>sk_has_pending := True\<rparr>"
  have "core ?s ac" "bindable ?s" using assms free by (auto simp: socket_inv_def bindable_def intro: core_frame)
  moreover obtain t e where t: "evd_socket_bind_addr_internal os address ?s = (t, e)" by (cases "evd_socket_bind_addr_internal os address ?s")
  ultimately have k: "(e = None \<longrightarrow> outcome_ok EVD_SOCKET_STATE_BOUND ?s t ac) \<and> (e \<noteq> None \<longrightarrow> failure_ok ?s t ac)" using bind_facts by blast
  have "core (t\<lparr>sk_has_pending := False\<rparr>) ac" by (rule core_frame [of t]) (use k in \<open>auto simp: outcome_ok_def failure_ok_def\<close>)
  moreover have "pending_ok (t\<lparr>sk_has_pending := False\<rparr>)"
    using k free assms by (cases e) (auto simp: outcome_ok_def failure_ok_def pending_ok_def busy_def socket_inv_def bindable_def)
  ultimately show ?thesis using None t by (simp add: evd_socket_bind_addr_def socket_inv_def)
qed

lemma accept_loop_inv:
  assumes "socket_inv s ac"
  shows "socket_inv (fst (accept_loop os e is s)) ac \<and> sk_started (fst (accept_loop os e is s)) = sk_started s"
  using assms
proof (induction "is" arbitrary: s)
  case Nil
  then show ?case by simp
next
  case (Cons i "is")
  have emitted: "socket_inv (emit New_connection s) ac"
    using Cons.prems by (simp add: socket_inv_def core_def path_ok_def balanced_def life_end_append pending_ok_def busy_def)
  then have c: "core (emit New_connection s) ac" by (simp add: socket_inv_def)
  have "socket_inv (evd_socket_close os (emit New_connection s)) ac" using c by (simp add: socket_inv_def close_core close_pending)
  with emitted Cons.IH [of "emit New_connection s"] Cons.IH [of "evd_socket_close os (emit New_connection s)"] Cons.prems
    close_facts(4) [OF c, of os]
  show ?case by (auto simp: case_prod_unfold Let_def split: incoming.splits option.splits)
qed

lemma handle_condition_inv:
  assumes "socket_inv s ac"
  shows "socket_inv (fst (evd_socket_handle_condition os e ws c s)) ac"
proof (cases "c = sk_cond s")
  case True
  with assms show ?thesis by (simp add: evd_socket_handle_condition_def)
next
  case False
  have cond: "socket_inv (s\<lparr>sk_cond := x\<rparr>) ac" for x
    using assms by (auto simp: socket_inv_def pending_ok_def busy_def intro: core_frame)
  have throw: "socket_inv (evd_socket_throw_error f t) ac" if "socket_inv t ac" for f t
    using that by (simp add: socket_inv_def throw_core pending_ok_def busy_def)
  have shut: "socket_inv (evd_socket_close os t) ac" if "core t ac" for t using that by (simp add: socket_inv_def close_core close_pending)
  have notify: "socket_inv (if b then emit (Notify_condition c) t else t) ac" if "socket_inv t ac" for t b
    using that by (simp add: socket_inv_def core_def path_ok_def balanced_def life_end_append pending_ok_def busy_def)
  let ?s = "s\<lparr>sk_cond := c\<rparr>"
  let ?r = "evd_socket_set_status os EVD_SOCKET_STATE_CONNECTED (?s\<lparr>sk_has_pending := False, sk_actual_priority := sk_priority s\<rparr>)"
  have conn: "socket_inv (complete_result None ?r) ac" if st: "sk_status s = EVD_SOCKET_STATE_CONNECTING"
  proof -
    have c': "core (?s\<lparr>sk_has_pending := False, sk_actual_priority := sk_priority s\<rparr>) ac"
      using assms by (auto simp: socket_inv_def intro: core_frame)
    have "legal (sk_status (?s\<lparr>sk_has_pending := False, sk_actual_priority := sk_priority s\<rparr>)) EVD_SOCKET_STATE_CONNECTED \<or>
        EVD_SOCKET_STATE_CONNECTED = sk_status (?s\<lparr>sk_has_pending := False, sk_actual_priority := sk_priority s\<rparr>)"
      using st by (simp add: legal_def)
    note f = set_status_facts [OF c' this, of os]
    have "sk_socket s" "sk_poll_session s" using assms st by (auto simp: socket_inv_def pending_ok_def)
    with f show ?thesis by (auto simp: socket_inv_def complete_core pending_ok_def busy_def)
  qed
  define p where "p = (if sk_status s = EVD_SOCKET_STATE_LISTENING then
      let (s, clients, e) = accept_loop os e ws (s\<lparr>sk_cond := c AND NOT G_IO_IN\<rparr>)
      in (case e of None \<Rightarrow> s | Some e \<Rightarrow> (if e = G_IO_ERROR_WOULD_BLOCK then s else evd_socket_throw_error e s), clients)
    else if c AND G_IO_ERR \<noteq> 0 then
      (evd_socket_close os
         (if sk_status s = EVD_SOCKET_STATE_CONNECTING
          then evd_socket_throw_error G_IO_ERROR_CONNECTION_REFUSED (complete_result (Some G_IO_ERROR_CONNECTION_REFUSED) ?s)
          else evd_socket_throw_error G_IO_ERROR_OTHER ?s), [])
    else if sk_status s = EVD_SOCKET_STATE_CONNECTING \<and> c AND G_IO_OUT \<noteq> 0 then (complete_result None ?r, [])
    else (?s, []))"
  have "core ?s ac" using cond by (simp add: socket_inv_def)
  then have "socket_inv (fst p) ac"
    using accept_loop_inv [OF cond, of os e ws "c AND NOT G_IO_IN"] throw cond conn
    by (auto simp: p_def case_prod_unfold Let_def shut throw_core complete_core split: option.splits)
  moreover have "fst (evd_socket_handle_condition os e ws c s) =
      (if SOCKET_ACTIVE (fst p) \<and> sk_notify (fst p) then emit (Notify_condition c) (fst p) else fst p)"
    using False by (simp add: evd_socket_handle_condition_def p_def Let_def case_prod_unfold)
  ultimately show ?thesis using notify by simp
qed
section \<open>Sequences of operations\<close>

datatype socket_op =
    Connect_to nat string
  | Connect_addr nat GSocketAddress
  | Listen_on nat string
  | Listen_addr "GSocketAddress option"
  | Bind_to nat string
  | Bind_addr GSocketAddress
  | Close_socket
  | Condition gio_error "incoming list" "32 word"
  | Resolved nat "gio_error + (GSocketFamily \<times> string) list"
  | Run_idle
  | Set_notify bool
  | Watch_condition "32 word"
  | Set_priority int

primrec socket_do :: "network \<Rightarrow> os \<Rightarrow> socket_op \<Rightarrow> EvdSocket \<Rightarrow> EvdSocket" where
  "socket_do net os (Connect_to res address) s = evd_socket_connect_to os net res address s"
| "socket_do net os (Connect_addr res address) s = evd_socket_connect_addr os res address s"
| "socket_do net os (Listen_on res address) s = evd_socket_listen os net res address s"
| "socket_do net os (Listen_addr address) s = fst (evd_socket_listen_addr os address s)"
| "socket_do net os (Bind_to res address) s = evd_socket_bind os net res address s"
| "socket_do net os (Bind_addr address) s = fst (evd_socket_bind_addr os address s)"
| "socket_do net os Close_socket s = evd_socket_close os s"
| "socket_do net os (Condition e ws c) s = fst (evd_socket_handle_condition os e ws c s)"
| "socket_do net os (Resolved i dns) s = resolution_arrives os i dns s"
| "socket_do net os Run_idle s = socket_idle s"
| "socket_do net os (Set_notify b) s = evd_socket_set_notify_condition_callback b s"
| "socket_do net os (Watch_condition c) s = fst (evd_socket_watch_condition c s)"
| "socket_do net os (Set_priority n) s = evd_socket_set_priority n s"

lemma socket_do_inv: "socket_inv s ac \<Longrightarrow> socket_inv (socket_do net os op s) ac"
proof (cases op)
  case (Resolved i dns)
  assume inv: "socket_inv s ac"
  then have "socket_inv (s\<lparr>sk_lookups := xs\<rparr>) ac" for xs by (auto simp: socket_inv_def pending_ok_def busy_def intro: core_frame)
  with inv Resolved show ?thesis by (simp add: resolution_arrives_def resolved_inv)
next
  case Run_idle
  assume "socket_inv s ac"
  then have "core (socket_idle s) ac" "pending_ok (socket_idle s)"
    by (auto simp: socket_inv_def socket_idle_def core_def path_ok_def balanced_def pending_ok_def busy_def ac_simps)
  with Run_idle show ?thesis by (simp add: socket_inv_def)
next
  case (Watch_condition c)
  assume "socket_inv s ac"
  with Watch_condition show ?thesis
    by (auto simp: evd_socket_watch_condition_def socket_inv_def pending_ok_def busy_def intro: core_frame)
next
  case (Set_priority n)
  assume "socket_inv s ac"
  with Set_priority show ?thesis
    by (auto simp: evd_socket_set_priority_def socket_inv_def pending_ok_def busy_def intro: core_frame)
next
  case (Set_notify b)
  assume "socket_inv s ac"
  with Set_notify show ?thesis
    by (auto simp: evd_socket_set_notify_condition_callback_def socket_inv_def pending_ok_def busy_def intro: core_frame)
next
  case Close_socket
  assume "socket_inv s ac"
  then show ?thesis using Close_socket close_pending [of s ac os] by (simp add: socket_inv_def close_core)
qed (simp_all add: evd_socket_connect_to_def evd_socket_listen_def evd_socket_bind_def resolve_operation_inv connect_addr_inv
      listen_addr_inv bind_addr_inv handle_condition_inv)

text \<open>A socket is a machine: every operation is defined, and keeps the invariant.\<close>

interpretation socket_machine: invariant_machine "\<lambda>s r. Some (socket_do net (fst r) (snd r) s)" "\<lambda>s. socket_inv s ac" "\<lambda>_. True"
  by unfold_locales (simp add: socket_do_inv)

definition socket_run :: "network \<Rightarrow> (os \<times> socket_op) list \<Rightarrow> EvdSocket \<Rightarrow> EvdSocket" where
  "socket_run net ops s = fold (\<lambda>r s. socket_do net (fst r) (snd r) s) ops s"

lemma run_ops_socket: "run_ops (\<lambda>s r. Some (socket_do net (fst r) (snd r) s)) s ops = Some (socket_run net ops s)"
  by (induction ops arbitrary: s) (simp_all add: socket_run_def)

lemma socket_run_inv: "socket_inv s ac \<Longrightarrow> socket_inv (socket_run net ops s) ac"
  using socket_machine.run_ops_defined [of s ac ops net] by (simp add: run_ops_socket list_all_iff)

section \<open>Properties\<close>

text \<open>
  C15. Whatever happens to a socket, each asynchronous operation is completed once, is about to be
  completed, or is the one that is pending; and while a name is being resolved or a connection being
  made there is one, and further operations are refused.
\<close>

theorem socket_operations_once:
  "let s = socket_run net ops (evd_socket_init closes_on) in
     mset (map fst (sk_completed s)) + mset (map fst (sk_idle s)) +
       (case sk_async_result s of None \<Rightarrow> {#} | Some r \<Rightarrow> {#r#}) = mset (sk_started s) \<and>
     (sk_status s = EVD_SOCKET_STATE_RESOLVING \<or> sk_status s = EVD_SOCKET_STATE_CONNECTING \<longrightarrow>
       sk_async_result s \<noteq> None \<and> evd_socket_check_availability s = Some G_IO_ERROR_PENDING)"
  using socket_run_inv [OF init_socket_inv, of net ops closes_on]
  by (auto simp: Let_def socket_inv_def core_def balanced_def pending_ok_def busy_def evd_socket_check_availability_def)

definition demo_net :: network where
  "demo_net = \<lparr>g_network_address_parse = (\<lambda>a. Inr (a, 80)), g_inet_address_new_from_string = (\<lambda>_. None)\<rparr>"

definition demo_os :: os where
  "demo_os = \<lparr>g_socket_new = None, g_socket_bind = None, g_socket_listen = None, g_socket_connect = Some G_IO_ERROR_PENDING,
     g_socket_close = None, os_poll_watch = None, os_poll_del = None\<rparr>"

theorem socket_operations_once_witness:
  "let s = socket_run demo_net [(demo_os, Connect_to 1 ''a''), (demo_os, Connect_to 2 ''b'')] (evd_socket_init []) in
     sk_status s = EVD_SOCKET_STATE_RESOLVING \<and> mset (map fst (sk_idle s)) + {#1#} = mset (sk_started s) \<and>
     evd_socket_check_availability s = Some G_IO_ERROR_PENDING"
proof -
  let ?s = "socket_run demo_net [(demo_os, Connect_to 1 ''a''), (demo_os, Connect_to 2 ''b'')] (evd_socket_init [])"
  have "sk_status ?s = EVD_SOCKET_STATE_RESOLVING" "sk_async_result ?s = Some 1" "sk_completed ?s = []" by code_simp+
  with socket_operations_once [of demo_net "[(demo_os, Connect_to 1 ''a''), (demo_os, Connect_to 2 ''b'')]" "[]"]
  show ?thesis by (simp add: Let_def)
qed

text \<open>
  C16. The changes of state that a socket announces are a path: each begins where the one before ended,
  and each is a step of the life of a socket; the last one leads to its current state. A new socket begins
  closed. The socket of a connection that a listener accepts first announces that it went from closed to
  connected, without connecting in between, and its path goes on from there.
\<close>

theorem socket_states_announced:
  "path_end EVD_SOCKET_STATE_CLOSED (sk_signals (socket_run net ops (evd_socket_init closes_on))) =
     Some (sk_status (socket_run net ops (evd_socket_init closes_on))) \<and>
   (let client = socket_run net ops (evd_socket_copy_properties listener (evd_socket_accept os)) in
    \<exists>sigs. sk_signals client = State_changed EVD_SOCKET_STATE_CONNECTED EVD_SOCKET_STATE_CLOSED # sigs \<and>
      path_end EVD_SOCKET_STATE_CONNECTED sigs = Some (sk_status client))"
  using socket_run_inv [OF init_socket_inv, of net ops closes_on] socket_run_inv [OF accepted_socket_inv, of net ops listener os]
  by (auto simp: socket_inv_def core_def path_ok_def life_end_def Let_def split: list.splits if_splits)

text \<open>
  C17. Connecting a closed socket to a name, when all goes well: the socket has no pending operation, no
  earlier name that is still being resolved (lemma \<open>socket_stale_resolution\<close>), no family from earlier use and no handler
  that closes it, and the client is to be told of conditions; the name is resolved to at least one
  address; the system makes the socket, begins to connect it, and reports it writable without an error.
  Then the socket connects to the first address and is connected, the operation succeeds, once, the
  client is told of the condition, and other operations are refused.
\<close>

theorem socket_connects:
  assumes "sk_status s = EVD_SOCKET_STATE_CLOSED" and "\<not> sk_has_pending s" and "sk_closes_on s = []" and "sk_lookups s = []"
    and "sk_family s = G_SOCKET_FAMILY_INVALID" and "sk_notify s"
    and "evd_resolver_resolve_finish (evd_resolver_resolve net address) dns = Inr (a # as)"
    and "g_socket_new os = None" and "g_socket_connect os = None \<or> g_socket_connect os = Some G_IO_ERROR_PENDING" and "os_poll_watch os = None"
    and "c AND G_IO_OUT \<noteq> 0" and "c AND G_IO_ERR = 0"
  shows "\<exists>s'. socket_run net [(os, Connect_to res address), (os, Resolved 0 dns), (os, Condition e ws c), (os, Run_idle)] s = s' \<and>
    sk_status s' = EVD_SOCKET_STATE_CONNECTED \<and> sk_peers s' = sk_peers s @ [a] \<and> sk_family s' = ad_family a \<and>
    sk_completed s' = sk_completed s @ sk_idle s @ [(res, None)] \<and> \<not> sk_has_pending s' \<and> sk_async_result s' = None \<and>
    last (sk_signals s') = Notify_condition c \<and> evd_socket_check_availability s' = Some G_IO_ERROR_BUSY"
proof -
  define s1 where "s1 = evd_socket_connect_to os net res address s"
  have s1: "sk_status s1 = EVD_SOCKET_STATE_RESOLVING" "sk_sub_status s1 = EVD_SOCKET_STATE_CONNECTING" "sk_async_result s1 = Some res"
    "sk_lookups s1 = [evd_resolver_resolve net address]" "sk_closes_on s1 = []" "sk_family s1 = G_SOCKET_FAMILY_INVALID" "sk_notify s1"
    "sk_peers s1 = sk_peers s" "sk_completed s1 = sk_completed s" "sk_idle s1 = sk_idle s"
    using assms(1-6)
    by (simp_all add: s1_def evd_socket_connect_to_def resolve_operation_def evd_socket_check_availability_def SOCKET_ACTIVE_def
        evd_socket_set_status_def set_status_with_def evd_socket_resolve_address_def Let_def)
  define s2 where "s2 = resolution_arrives os 0 dns s1"
  have s2: "sk_status s2 = EVD_SOCKET_STATE_CONNECTING" "sk_async_result s2 = Some res" "sk_closes_on s2 = []" "sk_notify s2"
    "sk_peers s2 = sk_peers s @ [a]" "sk_completed s2 = sk_completed s" "sk_idle s2 = sk_idle s" "sk_cond s2 = 0" "sk_family s2 = ad_family a"
    using assms(7-10) s1
    by (auto simp: s2_def resolution_arrives_def evd_socket_on_address_resolved_def evd_socket_check_address_def resolved_action_def
        evd_socket_connect_addr_internal_def evd_socket_setup_def evd_socket_watch_def evd_socket_set_status_def set_status_with_def Let_def)
  define s3 where "s3 = fst (evd_socket_handle_condition os e ws c s2)"
  have c: "c \<noteq> 0" using assms(11) by auto
  have s3: "sk_status s3 = EVD_SOCKET_STATE_CONNECTED" "sk_async_result s3 = None" "\<not> sk_has_pending s3"
    "sk_peers s3 = sk_peers s @ [a]" "sk_completed s3 = sk_completed s" "sk_idle s3 = sk_idle s @ [(res, None)]"
    "last (sk_signals s3) = Notify_condition c" "sk_family s3 = ad_family a"
    using assms(11,12) s2 c
    by (simp_all add: s3_def evd_socket_handle_condition_def evd_socket_set_status_def set_status_with_def complete_result_def SOCKET_ACTIVE_def Let_def)
  have "socket_run net [(os, Connect_to res address), (os, Resolved 0 dns), (os, Condition e ws c), (os, Run_idle)] s = socket_idle s3"
    by (simp add: socket_run_def s1_def s2_def s3_def)
  with s3 show ?thesis by (simp add: socket_idle_def evd_socket_check_availability_def SOCKET_ACTIVE_def)
qed

definition demo_dns :: "gio_error + (GSocketFamily \<times> string) list" where
  "demo_dns = Inr [(G_SOCKET_FAMILY_IPV6, ''::1''), (G_SOCKET_FAMILY_IPV4, ''127.0.0.1'')]"

theorem socket_connects_witness:
  "\<exists>s'. socket_run demo_net [(demo_os, Connect_to 7 ''localhost''), (demo_os, Resolved 0 demo_dns),
      (demo_os, Condition G_IO_ERROR_WOULD_BLOCK [] G_IO_OUT), (demo_os, Run_idle)] ((evd_socket_init [])\<lparr>sk_notify := True\<rparr>) = s' \<and>
    sk_status s' = EVD_SOCKET_STATE_CONNECTED \<and> sk_completed s' = [(7, None)]"
proof -
  have "evd_resolver_resolve_finish (evd_resolver_resolve demo_net ''localhost'') demo_dns =
      Inr (\<lparr>ad_family = G_SOCKET_FAMILY_IPV6, ad_name = ''::1'', ad_port = 80\<rparr> # [\<lparr>ad_family = G_SOCKET_FAMILY_IPV4, ad_name = ''127.0.0.1'', ad_port = 80\<rparr>])"
    by code_simp
  moreover have "G_IO_OUT AND G_IO_OUT \<noteq> 0" "G_IO_OUT AND G_IO_ERR = 0" by code_simp+
  ultimately show ?thesis
    using socket_connects [of "(evd_socket_init [])\<lparr>sk_notify := True\<rparr>" demo_net "''localhost''" demo_dns _ _ demo_os G_IO_OUT 7
        G_IO_ERROR_WOULD_BLOCK "[]"]
    by (simp add: evd_socket_init_def demo_os_def)
qed

section \<open>What goes wrong\<close>

definition demo_addr :: "string \<Rightarrow> GSocketAddress" where
  "demo_addr name = \<lparr>ad_family = G_SOCKET_FAMILY_IPV4, ad_name = name, ad_port = 80\<rparr>"

text \<open>If the system refuses to listen, the operation succeeds, and the socket is closed.\<close>

lemma socket_listen_failure_succeeds:
  "let s = socket_run demo_net [(demo_os, Listen_on 1 ''a''), (demo_os\<lparr>g_socket_listen := Some G_IO_ERROR_BUSY\<rparr>, Resolved 0 (Inr [(G_SOCKET_FAMILY_IPV4, ''x'')])),
      (demo_os, Run_idle)] (evd_socket_init [])
   in sk_completed s = [(1, None)] \<and> sk_status s = EVD_SOCKET_STATE_CLOSED"
  by code_simp

text \<open>
  The resolution of an operation that was given up by closing is taken for that of the next one: the
  socket connects to the old address.
\<close>

lemma socket_stale_resolution:
  "sk_peers (socket_run demo_net [(demo_os, Connect_to 1 ''old''), (demo_os, Close_socket), (demo_os, Connect_to 2 ''new''),
      (demo_os, Resolved 0 (Inr [(G_SOCKET_FAMILY_IPV4, ''old'')]))] (evd_socket_init [])) = [demo_addr ''old'']"
  by code_simp

text \<open>
  If a handler closes the socket while \<open>evd_socket_connect_addr\<close> announces that it is connecting, the
  operation is pending on a closed socket: closing completes it, but the socket stays unusable.
\<close>

lemma socket_closed_while_connecting:
  "let s = socket_run demo_net [(demo_os, Connect_addr 1 (demo_addr ''a'')), (demo_os, Close_socket)]
      (evd_socket_init [EVD_SOCKET_STATE_CONNECTING])
   in sk_status s = EVD_SOCKET_STATE_CLOSED \<and> evd_socket_check_availability s = Some G_IO_ERROR_PENDING"
  by code_simp

text \<open>Binding a bound socket again, without success, leaves it bound without a system socket; listening on it then seems to succeed.\<close>

lemma socket_bound_without_socket:
  "let s = socket_run demo_net [(demo_os, Bind_addr (demo_addr ''a'')), (demo_os\<lparr>g_socket_bind := Some G_IO_ERROR_BUSY\<rparr>, Bind_addr (demo_addr ''b''))]
      (evd_socket_init [])
   in sk_status s = EVD_SOCKET_STATE_BOUND \<and> \<not> sk_socket s \<and> snd (evd_socket_listen_addr demo_os None s) = (True, None)"
  by code_simp

text \<open>After a failed attempt to connect the socket keeps its system socket, closed as it is, and refuses other families.\<close>

lemma socket_failed_connect_keeps_family:
  "let s = socket_run demo_net [(demo_os\<lparr>g_socket_connect := Some G_IO_ERROR_CONNECTION_REFUSED\<rparr>, Connect_addr 1 (demo_addr ''a'')),
       (demo_os, Close_socket), (demo_os, Connect_addr 2 ((demo_addr ''b'')\<lparr>ad_family := G_SOCKET_FAMILY_IPV6\<rparr>)), (demo_os, Run_idle)] (evd_socket_init [])
   in sk_completed s = [(1, Some G_IO_ERROR_CONNECTION_REFUSED), (2, Some G_IO_ERROR_INVALID_ARGUMENT)]"
  by code_simp

end
