(* ===== verification/Connection.thy ===== *)
theory Connection
  imports Poll "HOL-Library.Multiset"
begin

unbundle bit_operations_syntax

text \<open>
  Connections, \<open>evd/evd-connection.c\<close>: the socket under a stack of streams, the sources of the main loop
  that wait for throttles or close the connection, TLS, and the references that keep the connection
  alive; and the streams of a socket, \<open>evd/evd-socket-input-stream.c\<close> and
  \<open>evd/evd-socket-output-stream.c\<close>. (The connection pool and the services have models of their own of
  what they use of a connection.)
\<close>

section \<open>The streams of a socket\<close>

text \<open>
  The input stream asks the socket for one byte more than the caller and keeps it (the bag), so
  that it knows whether the socket is drained. \<open>si_buffer\<close> is what the last read has written to the buffer
  of the caller, from its start; the socket gives bytes of \<open>si_incoming\<close>, or an error.
\<close>

record socket_input =
  si_initialized :: bool
  si_has_bag :: bool
  si_bag :: byte
  si_incoming :: "byte list"
  si_buffer :: "byte list"
  si_drained :: nat

definition evd_socket_input_stream_init :: "byte list \<Rightarrow> socket_input" where
  "evd_socket_input_stream_init incoming =
     \<lparr>si_initialized = True, si_has_bag = False, si_bag = 0, si_incoming = incoming, si_buffer = [], si_drained = 0\<rparr>"

text \<open>Another socket, which may not be initialized; what the stream has kept of the old one stays.\<close>

definition evd_socket_input_stream_set_socket :: "bool \<Rightarrow> byte list \<Rightarrow> socket_input \<Rightarrow> socket_input" where
  "evd_socket_input_stream_set_socket initialized incoming s = s\<lparr>si_initialized := initialized, si_incoming := incoming\<rparr>"

text \<open>\<open>g_socket_receive\<close> gives an error, or as many bytes as the system decides, up to the size.\<close>

definition g_socket_receive :: "gio_error + nat \<Rightarrow> nat \<Rightarrow> socket_input \<Rightarrow> socket_input \<times> (gio_error + byte list)" where
  "g_socket_receive outcome len s =
     (case outcome of
        Inl e \<Rightarrow> (s, Inl e)
      | Inr n \<Rightarrow> let n = min n (min len (length (si_incoming s)))
          in (s\<lparr>si_incoming := drop n (si_incoming s)\<rparr>, Inr (take n (si_incoming s))))"

definition emit_drained :: "bool \<Rightarrow> socket_input \<Rightarrow> socket_input" where
  "emit_drained drained s = (if drained then s\<lparr>si_drained := si_drained s + 1\<rparr> else s)"

definition evd_socket_input_stream_read ::
    "gio_error + nat \<Rightarrow> nat \<Rightarrow> socket_input \<Rightarrow> socket_input \<times> (gio_error + byte list)" where
  "evd_socket_input_stream_read outcome len s =
     (if \<not> si_initialized s then (s, Inl G_IO_ERROR_NOT_INITIALIZED)
      else
        let bag = (if si_has_bag s then [si_bag s] else []);
            asked = (if si_has_bag s then len else len + 1)
        in case g_socket_receive outcome asked s of
             (s, Inl e) \<Rightarrow>
               let s = s\<lparr>si_buffer := bag\<rparr>; drained = (e = G_IO_ERROR_WOULD_BLOCK)
               in if bag \<noteq> [] then (emit_drained drained (s\<lparr>si_has_bag := False\<rparr>), Inr bag)
                  else (emit_drained drained s, Inl e)
           | (s, Inr bytes) \<Rightarrow>
               if length bytes < asked
               then (emit_drained True (s\<lparr>si_has_bag := False, si_buffer := bag @ bytes\<rparr>), Inr (bag @ bytes))
               else (s\<lparr>si_bag := last (bag @ bytes), si_has_bag := True, si_buffer := butlast (bag @ bytes) @ [0]\<rparr>,
                     Inr (butlast (bag @ bytes))))"

text \<open>The output stream: what has gone to the socket, and the signal that the socket takes no more.\<close>

record socket_output =
  so_initialized :: bool
  so_sent :: "byte list"
  so_filled :: nat

definition g_socket_send :: "gio_error + nat \<Rightarrow> byte list \<Rightarrow> socket_output \<Rightarrow> socket_output \<times> (gio_error + nat)" where
  "g_socket_send outcome bytes s =
     (case outcome of
        Inl e \<Rightarrow> (s, Inl e)
      | Inr n \<Rightarrow> (s\<lparr>so_sent := so_sent s @ take n bytes\<rparr>, Inr (min n (length bytes))))"

definition evd_socket_output_stream_write ::
    "gio_error + nat \<Rightarrow> byte list \<Rightarrow> socket_output \<Rightarrow> socket_output \<times> (gio_error + nat)" where
  "evd_socket_output_stream_write outcome bytes s =
     (if \<not> so_initialized s then (s, Inl G_IO_ERROR_NOT_INITIALIZED)
      else case g_socket_send outcome bytes s of
             (s, Inl e) \<Rightarrow> (if e = G_IO_ERROR_WOULD_BLOCK then s\<lparr>so_filled := so_filled s + 1\<rparr> else s, Inl e)
           | (s, Inr n) \<Rightarrow> (if n < length bytes then s\<lparr>so_filled := so_filled s + 1\<rparr> else s, Inr n))"

section \<open>State of a connection\<close>

datatype cn_source = Read_wait | Write_wait | Close_idle

text \<open>
  The fields are those of the code. \<open>cn_tls_streams\<close> tells whether the TLS streams exist, \<open>cn_closed\<close> and
  \<open>cn_pending\<close> are the flags of the GIOStream, \<open>cn_read_pending\<close>, \<open>cn_frozen\<close> and \<open>cn_auto_flush\<close> those of
  the buffered streams, \<open>cn_watching\<close> whether the handlers of the socket are connected. The main loop
  has the sources \<open>cn_sources\<close>, by number, and the operations \<open>cn_idle\<close> to complete. The references are
  those of the user, one for each source, one of each asynchronous operation and one for each flush
  that will shut the socket down; a connection without references has been freed.
\<close>

record EvdConnection =
  cn_refs :: nat
  cn_socket :: "nat option"
  cn_streams :: bool
  cn_tls_streams :: bool
  cn_cond :: "32 word"
  cn_delayed_close :: bool
  cn_close_locked :: bool
  cn_closed :: bool
  cn_pending :: bool
  cn_read_src_id :: nat
  cn_write_src_id :: nat
  cn_close_src_id :: nat
  cn_tls_handshaking :: bool
  cn_tls_active :: bool
  cn_async_result :: "nat option"
  cn_connected :: bool
  cn_closing :: bool
  cn_remote_addr_st :: "string option"
  cn_read_pending :: bool
  cn_frozen :: bool
  cn_auto_flush :: bool
  cn_watching :: bool
  cn_sources :: "(nat \<times> cn_source) list"
  cn_next_source :: nat
  cn_idle :: "(nat \<times> gio_error option) list"
  cn_completed :: "(nat \<times> gio_error option) list"
  cn_shutdowns :: nat
  cn_write_signals :: nat
  cn_close_signals :: nat

definition conn_init :: EvdConnection where
  "conn_init = \<lparr>cn_refs = 1, cn_socket = None, cn_streams = False, cn_tls_streams = False, cn_cond = 0,
     cn_delayed_close = False, cn_close_locked = False, cn_closed = False, cn_pending = False,
     cn_read_src_id = 0, cn_write_src_id = 0, cn_close_src_id = 0, cn_tls_handshaking = False, cn_tls_active = False,
     cn_async_result = None, cn_connected = False, cn_closing = False, cn_remote_addr_st = None, cn_read_pending = False,
     cn_frozen = False, cn_auto_flush = False, cn_watching = False, cn_sources = [], cn_next_source = 1,
     cn_idle = [], cn_completed = [], cn_shutdowns = 0, cn_write_signals = 0, cn_close_signals = 0\<rparr>"

text \<open>
  What the layers below do: the signals that the streams emit while they are written to or read from,
  and the handshake of the TLS session, with its direction, the signals it causes and its result (0: to
  be continued, positive: done, negative: failed).
\<close>

datatype stream_signal = Drained | Filled | Delay_read | Delay_write

record conn_env =
  ce_notify_write :: "stream_signal list"
  ce_notify_tls :: "stream_signal list"
  ce_handshake :: "32 word \<times> stream_signal list \<times> int"
  ce_max_writable :: nat
  ce_socket_connected :: bool
  ce_socket_cond :: "32 word"
  ce_remote_address :: "string option"

definition has_cond :: "32 word \<Rightarrow> 32 word \<Rightarrow> bool" where
  "has_cond cond flag \<longleftrightarrow> cond AND flag \<noteq> 0"

section \<open>Sources\<close>

text \<open>\<open>evd_timeout_add\<close> with a reference, and \<open>g_source_remove\<close> with its release.\<close>

definition conn_add_source :: "cn_source \<Rightarrow> EvdConnection \<Rightarrow> EvdConnection" where
  "conn_add_source k c = c\<lparr>cn_refs := cn_refs c + 1, cn_sources := cn_sources c @ [(cn_next_source c, k)],
     cn_next_source := cn_next_source c + 1\<rparr>"

definition conn_drop_source :: "nat \<Rightarrow> EvdConnection \<Rightarrow> EvdConnection" where
  "conn_drop_source src c = c\<lparr>cn_refs := cn_refs c - 1, cn_sources := filter (\<lambda>s. fst s \<noteq> src) (cn_sources c)\<rparr>"

definition conn_delay_read :: "EvdConnection \<Rightarrow> EvdConnection" where
  "conn_delay_read c =
     (if cn_read_src_id c = 0 then (conn_add_source Read_wait c)\<lparr>cn_read_src_id := cn_next_source c\<rparr> else c)"

definition conn_delay_write :: "EvdConnection \<Rightarrow> EvdConnection" where
  "conn_delay_write c =
     (if cn_write_src_id c = 0 then (conn_add_source Write_wait c)\<lparr>cn_write_src_id := cn_next_source c\<rparr> else c)"

definition conn_close_in_idle :: "EvdConnection \<Rightarrow> EvdConnection" where
  "conn_close_in_idle c =
     (let c = c\<lparr>cn_connected := False\<rparr>
      in if cn_close_src_id c = 0 then (conn_add_source Close_idle c)\<lparr>cn_close_src_id := cn_next_source c\<rparr> else c)"

section \<open>Signals of the streams\<close>

text \<open>
  The socket is watched for the conditions that are missing, by \<open>evd_socket_watch_condition\<close>. The handlers
  of the throttled streams are disconnected when the connection is closed.
\<close>

definition conn_drained :: "EvdConnection \<Rightarrow> EvdConnection" where
  "conn_drained c =
     (if cn_closed c then c
      else if cn_delayed_close c \<and> \<not> cn_close_locked c then conn_close_in_idle c
      else c\<lparr>cn_cond := cn_cond c AND NOT G_IO_IN\<rparr>)"

definition conn_filled :: "EvdConnection \<Rightarrow> EvdConnection" where
  "conn_filled c = (if cn_closed c then c else c\<lparr>cn_cond := cn_cond c AND NOT G_IO_OUT\<rparr>)"

fun on_stream_signal :: "stream_signal \<Rightarrow> EvdConnection \<Rightarrow> EvdConnection" where
  "on_stream_signal Drained c = conn_drained c"
| "on_stream_signal Filled c = conn_filled c"
| "on_stream_signal Delay_read c = (if cn_closed c then c else conn_delay_read c)"
| "on_stream_signal Delay_write c = (if cn_closed c then c else conn_delay_write c)"

section \<open>Closing\<close>

text \<open>
  The operation that is pending is completed, with an error only during a handshake. The handlers of
  the throttled streams and of the socket are disconnected, the streams and the socket closed, and the
  parent emits the signal \<open>close\<close>.
\<close>

definition remove_src :: "nat \<Rightarrow> EvdConnection \<Rightarrow> EvdConnection" where
  "remove_src src c = (if src \<noteq> 0 then conn_drop_source src c else c)"

definition complete_closed :: "EvdConnection \<Rightarrow> EvdConnection" where
  "complete_closed c =
     (case cn_async_result c of
        None \<Rightarrow> c
      | Some res \<Rightarrow> c\<lparr>cn_async_result := None, cn_refs := cn_refs c - 1,
          cn_completed := cn_completed c @ [(res, if cn_tls_handshaking c then Some G_IO_ERROR_CLOSED else None)]\<rparr>)"

definition conn_close_internal :: "EvdConnection \<Rightarrow> EvdConnection" where
  "conn_close_internal c =
     (if cn_closing c then c
      else
        let c = c\<lparr>cn_closing := True, cn_connected := False\<rparr>;
            c = (remove_src (cn_close_src_id c) c)\<lparr>cn_close_src_id := 0\<rparr>;
            c = (remove_src (cn_read_src_id c) c)\<lparr>cn_read_src_id := 0\<rparr>;
            c = (remove_src (cn_write_src_id c) c)\<lparr>cn_write_src_id := 0\<rparr>;
            c = complete_closed c
        in c\<lparr>cn_tls_handshaking := False, cn_tls_active := False, cn_read_pending := False, cn_watching := False,
             cn_close_signals := cn_close_signals c + 1, cn_closing := False\<rparr>)"

text \<open>\<open>g_io_stream_close\<close>, which closes once, and not while an operation is pending.\<close>

definition conn_stream_close :: "EvdConnection \<Rightarrow> EvdConnection" where
  "conn_stream_close c =
     (if cn_closed c \<or> cn_pending c then c else (conn_close_internal c)\<lparr>cn_closed := True\<rparr>)"

text \<open>Disposing of a GIOStream, before the last reference goes, closes it.\<close>

definition conn_unref :: "EvdConnection \<Rightarrow> EvdConnection" where
  "conn_unref c = (let c = (if cn_refs c = 1 then conn_stream_close c else c) in c\<lparr>cn_refs := cn_refs c - 1\<rparr>)"

definition conn_close_in_idle_cb :: "EvdConnection \<Rightarrow> EvdConnection" where
  "conn_close_in_idle_cb c = conn_unref (conn_stream_close (c\<lparr>cn_close_src_id := 0, cn_pending := False\<rparr>))"

section \<open>TLS\<close>

text \<open>One step of the handshake; without an operation to complete the code would complete NULL.\<close>

definition conn_tls_handshake :: "conn_env \<Rightarrow> EvdConnection \<Rightarrow> EvdConnection option" where
  "conn_tls_handshake env c =
     (case ce_handshake env of
        (direction, signals, result) \<Rightarrow>
          if (direction = G_IO_IN \<and> cn_read_src_id c \<noteq> 0) \<or> (direction = G_IO_OUT \<and> cn_write_src_id c \<noteq> 0) then Some c
          else
            let c = fold on_stream_signal signals c
            in if result = 0 then Some c
               else case cn_async_result c of
                      None \<Rightarrow> None
                    | Some res \<Rightarrow>
                        let c = c\<lparr>cn_tls_handshaking := False, cn_async_result := None,
                              cn_idle := cn_idle c @ [(res, if result < 0 then Some G_IO_ERROR_FAILED else None)]\<rparr>
                        in Some (if result > 0 then c\<lparr>cn_auto_flush := True, cn_frozen := False\<rparr>
                                 else conn_close_in_idle_cb (c\<lparr>cn_refs := cn_refs c + 1\<rparr>)))"

definition conn_starttls :: "conn_env \<Rightarrow> bool \<Rightarrow> nat \<Rightarrow> EvdConnection \<Rightarrow> EvdConnection option" where
  "conn_starttls env client res c =
     (let c = c\<lparr>cn_refs := cn_refs c + 1\<rparr>
      in if \<not> cn_connected c then Some (c\<lparr>cn_idle := cn_idle c @ [(res, Some G_IO_ERROR_CLOSED)]\<rparr>)
         else if cn_tls_active c then Some (c\<lparr>cn_idle := cn_idle c @ [(res, Some G_IO_ERROR_BUSY)]\<rparr>)
         else if cn_tls_streams c then None
         else
           let c = c\<lparr>cn_async_result := Some res, cn_tls_active := True, cn_tls_streams := True, cn_read_pending := False,
                 cn_frozen := True, cn_auto_flush := False, cn_tls_handshaking := True\<rparr>
           in if client \<and> has_cond (cn_cond c) G_IO_OUT then conn_tls_handshake env c else Some c)"

section \<open>Conditions of the socket\<close>

definition conn_max_writable :: "conn_env \<Rightarrow> EvdConnection \<Rightarrow> nat" where
  "conn_max_writable env c =
     (if \<not> has_cond (cn_cond c) G_IO_OUT \<or> \<not> cn_streams c \<or> cn_closed c then 0 else ce_max_writable env)"

definition conn_manage_read_condition :: "conn_env \<Rightarrow> EvdConnection \<Rightarrow> EvdConnection option" where
  "conn_manage_read_condition env c =
     (if cn_tls_handshaking c then conn_tls_handshake env c else Some (c\<lparr>cn_frozen := False\<rparr>))"

text \<open>A connection that is used; \<^term>\<open>None\<close> if it has been freed.\<close>

definition used :: "EvdConnection \<Rightarrow> EvdConnection option" where
  "used c = (if cn_refs c = 0 then None else Some c)"

definition conn_manage_write_condition :: "conn_env \<Rightarrow> EvdConnection \<Rightarrow> EvdConnection option" where
  "conn_manage_write_condition env c = do {
     c \<leftarrow> (if cn_tls_handshaking c then conn_tls_handshake env c else Some (fold on_stream_signal (ce_notify_write env) c));
     c \<leftarrow> used c;
     let c = (if \<not> cn_closed c \<and> cn_tls_streams c then fold on_stream_signal (ce_notify_tls env) c else c);
     Some (if \<not> cn_tls_handshaking c \<and> conn_max_writable env c > 0
           then c\<lparr>cn_write_signals := cn_write_signals c + 1\<rparr> else c)
   }"

definition conn_read_wait_timeout :: "conn_env \<Rightarrow> EvdConnection \<Rightarrow> EvdConnection option" where
  "conn_read_wait_timeout env c =
     map_option conn_unref
       (if cn_closed c then Some c
        else do {
          c \<leftarrow> conn_manage_read_condition env (c\<lparr>cn_read_src_id := 0\<rparr>);
          c \<leftarrow> used c;
          Some (if cn_delayed_close c \<and> \<not> cn_read_pending c then conn_close_in_idle_cb (c\<lparr>cn_refs := cn_refs c + 1\<rparr>) else c)
        })"

definition conn_write_wait_timeout :: "conn_env \<Rightarrow> EvdConnection \<Rightarrow> EvdConnection option" where
  "conn_write_wait_timeout env c =
     map_option conn_unref
       (if cn_closed c then Some c else conn_manage_write_condition env (c\<lparr>cn_write_src_id := 0\<rparr>))"

definition conn_socket_on_condition :: "conn_env \<Rightarrow> 32 word \<Rightarrow> EvdConnection \<Rightarrow> EvdConnection option" where
  "conn_socket_on_condition env condition c =
     (if cn_closed c then Some c
      else do {
        let c = c\<lparr>cn_cond := condition\<rparr>;
        c \<leftarrow> (if has_cond condition G_IO_IN \<and> cn_read_src_id c = 0 then conn_manage_read_condition env c else Some c);
        c \<leftarrow> used c;
        if has_cond condition G_IO_HUP then
          Some (if cn_close_locked c \<or> cn_read_src_id c \<noteq> 0 \<or> cn_read_pending c then c\<lparr>cn_delayed_close := True\<rparr>
                else conn_close_in_idle c)
        else if has_cond condition G_IO_OUT \<and> cn_write_src_id c = 0 then conn_manage_write_condition env c
        else Some c
      })"

text \<open>The socket has connected, or has been closed.\<close>

definition conn_socket_on_status_changed :: "bool \<Rightarrow> EvdConnection \<Rightarrow> EvdConnection" where
  "conn_socket_on_status_changed now_connected c =
     (if now_connected then c\<lparr>cn_connected := True, cn_auto_flush := True\<rparr>
      else if cn_connected c then conn_close_in_idle c else c)"

section \<open>The socket of a connection\<close>

definition conn_setup_streams :: "conn_env \<Rightarrow> EvdConnection \<Rightarrow> EvdConnection" where
  "conn_setup_streams env c =
     c\<lparr>cn_streams := True, cn_read_pending := False, cn_connected := ce_socket_connected env,
       cn_frozen := \<not> ce_socket_connected env, cn_auto_flush := ce_socket_connected env\<rparr>"

definition conn_teardown_streams :: "EvdConnection \<Rightarrow> EvdConnection" where
  "conn_teardown_streams c = c\<lparr>cn_tls_streams := False\<rparr>"

text \<open>
  The address in the cache is freed, and then looked up in the cache: \<^term>\<open>None\<close> if there was one. When TLS
  is active an assertion takes the output stream for an input stream, which it is not.
\<close>

definition conn_get_remote_address_as_string :: "conn_env \<Rightarrow> EvdConnection \<Rightarrow> string option" where
  "conn_get_remote_address_as_string env c =
     (case cn_remote_addr_st c of Some st \<Rightarrow> Some st | None \<Rightarrow> ce_remote_address env)"

definition conn_set_socket :: "conn_env \<Rightarrow> nat \<Rightarrow> EvdConnection \<Rightarrow> EvdConnection option" where
  "conn_set_socket env socket c =
     (if cn_socket c = Some socket then Some c
      else if cn_tls_active c then None
      else do {
        let c = c\<lparr>cn_socket := Some socket, cn_watching := True\<rparr>;
        let c = (if \<not> cn_streams c then conn_setup_streams env c
                 else if cn_closed c then (conn_setup_streams env (conn_teardown_streams c))\<lparr>cn_closed := False\<rparr>
                 else c);
        c \<leftarrow> conn_socket_on_condition env (ce_socket_cond env) c;
        c \<leftarrow> used c;
        if cn_remote_addr_st c \<noteq> None then None
        else Some (c\<lparr>cn_remote_addr_st := conn_get_remote_address_as_string env c\<rparr>)
      })"

definition conn_lock_close :: "EvdConnection \<Rightarrow> EvdConnection" where
  "conn_lock_close c = c\<lparr>cn_close_locked := True\<rparr>"

definition conn_unlock_close :: "EvdConnection \<Rightarrow> EvdConnection" where
  "conn_unlock_close c =
     (let c = c\<lparr>cn_close_locked := False\<rparr> in if cn_delayed_close c then conn_close_in_idle c else c)"

definition conn_flush_and_shutdown :: "EvdConnection \<Rightarrow> EvdConnection" where
  "conn_flush_and_shutdown c = c\<lparr>cn_refs := cn_refs c + 1, cn_shutdowns := cn_shutdowns c + 1\<rparr>"

definition conn_shutdown_on_flush :: "EvdConnection \<Rightarrow> EvdConnection" where
  "conn_shutdown_on_flush c = conn_unref (c\<lparr>cn_shutdowns := cn_shutdowns c - 1\<rparr>)"

section \<open>Events\<close>

text \<open>
  The user sets a socket, starts TLS, reads, closes, locks, takes and drops references; the socket
  reports conditions and changes of its state; the streams emit signals; the main loop fires sources
  and completes operations.
\<close>

datatype connection_event =
    Set_socket nat
  | Start_tls bool nat
  | Begin_read
  | End_read
  | Set_pending bool
  | Conn_close
  | Lock_close
  | Unlock_close
  | Flush_and_shutdown
  | Ref
  | Unref
  | Condition "32 word"
  | Status_changed bool
  | Signal stream_signal
  | Fire nat
  | Complete_idle
  | Flush_done

definition fire_source :: "conn_env \<Rightarrow> cn_source \<Rightarrow> EvdConnection \<Rightarrow> EvdConnection option" where
  "fire_source env k c =
     (case k of
        Read_wait \<Rightarrow> conn_read_wait_timeout env c
      | Write_wait \<Rightarrow> conn_write_wait_timeout env c
      | Close_idle \<Rightarrow> Some (conn_close_in_idle_cb c))"

fun conn_step :: "conn_env \<Rightarrow> connection_event \<Rightarrow> EvdConnection \<Rightarrow> EvdConnection option" where
  "conn_step env (Set_socket socket) c = conn_set_socket env socket c"
| "conn_step env (Start_tls client res) c = conn_starttls env client res c"
| "conn_step env Begin_read c = Some (c\<lparr>cn_read_pending := True\<rparr>)"
| "conn_step env End_read c = Some (c\<lparr>cn_read_pending := False\<rparr>)"
| "conn_step env (Set_pending b) c = Some (c\<lparr>cn_pending := b\<rparr>)"
| "conn_step env Conn_close c = Some (conn_stream_close c)"
| "conn_step env Lock_close c = Some (conn_lock_close c)"
| "conn_step env Unlock_close c = Some (conn_unlock_close c)"
| "conn_step env Flush_and_shutdown c = Some (conn_flush_and_shutdown c)"
| "conn_step env Ref c = Some (c\<lparr>cn_refs := cn_refs c + 1\<rparr>)"
| "conn_step env Unref c = Some (conn_unref c)"
| "conn_step env (Condition condition) c = conn_socket_on_condition env condition c"
| "conn_step env (Status_changed now_connected) c = Some (conn_socket_on_status_changed now_connected c)"
| "conn_step env (Signal sig) c = Some (on_stream_signal sig c)"
| "conn_step env (Fire src) c =
     (case map_of (cn_sources c) src of
        None \<Rightarrow> Some c
      | Some k \<Rightarrow> fire_source env k (c\<lparr>cn_sources := filter (\<lambda>s. fst s \<noteq> src) (cn_sources c)\<rparr>))"
| "conn_step env Complete_idle c =
     (case cn_idle c of
        [] \<Rightarrow> Some c
      | r # rs \<Rightarrow> Some (conn_unref (c\<lparr>cn_idle := rs, cn_completed := cn_completed c @ [r]\<rparr>)))"
| "conn_step env Flush_done c = Some (conn_shutdown_on_flush c)"

text \<open>
  A connection with the references that the user has and the operations that have been started. Users
  work on a connection they have a reference to, and start TLS and close it when it has had a socket.
  Sockets report while the handlers are connected, streams while the connection is open. An operation of
  GIO that is pending keeps the connection.
\<close>

record conn_world =
  cw_users :: nat
  cw_started :: "nat list"
  cw_conn :: EvdConnection

fun conn_enabled :: "connection_event \<Rightarrow> conn_world \<Rightarrow> bool" where
  "conn_enabled (Start_tls client res) w \<longleftrightarrow> cw_users w > 0 \<and> cn_streams (cw_conn w)"
| "conn_enabled Conn_close w \<longleftrightarrow> cw_users w > 0 \<and> cn_streams (cw_conn w)"
| "conn_enabled (Condition condition) w \<longleftrightarrow> cn_watching (cw_conn w)"
| "conn_enabled (Status_changed now_connected) w \<longleftrightarrow> cn_watching (cw_conn w)"
| "conn_enabled (Signal sig) w \<longleftrightarrow> cw_users w > 0 \<and> cn_streams (cw_conn w) \<and> \<not> cn_closed (cw_conn w)"
| "conn_enabled (Fire src) w \<longleftrightarrow> src \<in> fst ` set (cn_sources (cw_conn w))"
| "conn_enabled Complete_idle w \<longleftrightarrow> cn_idle (cw_conn w) \<noteq> []"
| "conn_enabled Flush_done w \<longleftrightarrow> cn_shutdowns (cw_conn w) > 0"
| "conn_enabled Unref w \<longleftrightarrow> cw_users w > 0 \<and> \<not> cn_pending (cw_conn w)"
| "conn_enabled e w \<longleftrightarrow> cw_users w > 0"

fun count_users :: "connection_event \<Rightarrow> nat \<Rightarrow> nat" where
  "count_users Ref n = n + 1"
| "count_users Unref n = n - 1"
| "count_users e n = n"

fun count_started :: "connection_event \<Rightarrow> nat list \<Rightarrow> nat list" where
  "count_started (Start_tls client res) rs = rs @ [res]"
| "count_started e rs = rs"

definition conn_try :: "conn_world \<Rightarrow> conn_env \<times> connection_event \<Rightarrow> conn_world option" where
  "conn_try w e =
     (if \<not> conn_enabled (snd e) w then Some w
      else if cn_refs (cw_conn w) = 0 then None
      else map_option (\<lambda>c. \<lparr>cw_users = count_users (snd e) (cw_users w), cw_started = count_started (snd e) (cw_started w), cw_conn = c\<rparr>)
             (conn_step (fst e) (snd e) (cw_conn w)))"

text \<open>Another socket for a connection with TLS, or whose address is known; the code does not see to it.\<close>

definition second_socket :: "connection_event \<Rightarrow> conn_world \<Rightarrow> bool" where
  "second_socket e w \<longleftrightarrow> (case e of
      Set_socket socket \<Rightarrow> cw_users w > 0 \<and> cn_socket (cw_conn w) \<noteq> Some socket \<and>
        (cn_tls_active (cw_conn w) \<or> cn_remote_addr_st (cw_conn w) \<noteq> None)
    | _ \<Rightarrow> False)"

definition new_connection :: conn_world where
  "new_connection = \<lparr>cw_users = 1, cw_started = [], cw_conn = conn_init\<rparr>"

section \<open>Invariant\<close>

text \<open>
  The references are accounted for: \<open>u\<close> of users, \<open>h\<close> held by the function that runs, and those of
  sources, operations and flushes.
\<close>

definition refs_ok :: "nat \<Rightarrow> nat \<Rightarrow> EvdConnection \<Rightarrow> bool" where
  "refs_ok u h c \<longleftrightarrow>
     cn_refs c = u + h + length (cn_sources c) + (if cn_async_result c = None then 0 else 1) + length (cn_idle c) + cn_shutdowns c"

text \<open>The sources that the fields name are armed; of those that wait for a throttle there are no others.\<close>

definition conn_sources_ok :: "EvdConnection \<Rightarrow> bool" where
  "conn_sources_ok c \<longleftrightarrow>
     distinct (map fst (cn_sources c)) \<and> (\<forall>s \<in> set (cn_sources c). 0 < fst s \<and> fst s < cn_next_source c) \<and> 0 < cn_next_source c \<and>
     (\<forall>src. (src, Read_wait) \<in> set (cn_sources c) \<longleftrightarrow> src \<noteq> 0 \<and> src = cn_read_src_id c) \<and>
     (\<forall>src. (src, Write_wait) \<in> set (cn_sources c) \<longleftrightarrow> src \<noteq> 0 \<and> src = cn_write_src_id c) \<and>
     (cn_close_src_id c \<noteq> 0 \<longrightarrow> (cn_close_src_id c, Close_idle) \<in> set (cn_sources c))"

text \<open>
  A handshake has an operation, an operation is a handshake; a connection that is closed waits for
  nothing and nobody reports to it.
\<close>

definition flags_ok :: "EvdConnection \<Rightarrow> bool" where
  "flags_ok c \<longleftrightarrow>
     (cn_tls_handshaking c \<longleftrightarrow> cn_async_result c \<noteq> None) \<and> (cn_tls_handshaking c \<longrightarrow> cn_tls_active c) \<and>
     (cn_tls_active c \<longrightarrow> cn_tls_streams c) \<and> (cn_tls_streams c \<longrightarrow> cn_tls_active c \<or> cn_closed c) \<and>
     (cn_closed c \<longrightarrow> cn_read_src_id c = 0 \<and> cn_write_src_id c = 0 \<and> \<not> cn_tls_active c \<and> \<not> cn_connected c \<and> \<not> cn_watching c) \<and>
     (cn_watching c \<or> cn_connected c \<or> cn_delayed_close c \<or> cn_sources c \<noteq> [] \<or> cn_tls_active c \<longrightarrow> cn_streams c) \<and> \<not> cn_closing c"

definition connection_ok :: "nat \<Rightarrow> nat \<Rightarrow> EvdConnection \<Rightarrow> bool" where
  "connection_ok u h c \<longleftrightarrow> refs_ok u h c \<and> conn_sources_ok c \<and> flags_ok c \<and> (cn_pending c \<longrightarrow> 0 < u)"

text \<open>The operations that have been completed, are about to be or are pending.\<close>

definition operations :: "EvdConnection \<Rightarrow> nat multiset" where
  "operations c = mset (map fst (cn_completed c)) + mset (map fst (cn_idle c)) +
     (case cn_async_result c of None \<Rightarrow> {#} | Some res \<Rightarrow> {#res#})"

lemmas connection_ok_defs = connection_ok_def refs_ok_def conn_sources_ok_def flags_ok_def

lemma conn_sources_ok_add:
  assumes "conn_sources_ok c" "k = Read_wait \<Longrightarrow> cn_read_src_id c = 0" "k = Write_wait \<Longrightarrow> cn_write_src_id c = 0"
  shows "conn_sources_ok ((conn_add_source k c)\<lparr>cn_read_src_id := (if k = Read_wait then cn_next_source c else cn_read_src_id c),
    cn_write_src_id := (if k = Write_wait then cn_next_source c else cn_write_src_id c),
    cn_close_src_id := (if k = Close_idle then cn_next_source c else cn_close_src_id c)\<rparr>)"
  using assms by (cases k) (auto simp: conn_sources_ok_def conn_add_source_def)

lemma delay_read_ok: "connection_ok u h c \<Longrightarrow> \<not> cn_closed c \<Longrightarrow> cn_streams c \<Longrightarrow> connection_ok u h (conn_delay_read c)"
  using conn_sources_ok_add [of c Read_wait]
  by (auto simp: conn_delay_read_def connection_ok_def refs_ok_def flags_ok_def conn_add_source_def)

lemma delay_write_ok: "connection_ok u h c \<Longrightarrow> \<not> cn_closed c \<Longrightarrow> cn_streams c \<Longrightarrow> connection_ok u h (conn_delay_write c)"
  using conn_sources_ok_add [of c Write_wait]
  by (auto simp: conn_delay_write_def connection_ok_def refs_ok_def flags_ok_def conn_add_source_def)

lemma disconnected_ok: "connection_ok u h c \<Longrightarrow> connection_ok u h (c\<lparr>cn_connected := False\<rparr>)"
  by (auto simp: connection_ok_defs)

lemma close_in_idle_ok: "connection_ok u h c \<Longrightarrow> cn_streams c \<Longrightarrow> connection_ok u h (conn_close_in_idle c)"
  using conn_sources_ok_add [of "c\<lparr>cn_connected := False\<rparr>" Close_idle] disconnected_ok [of u h c]
  by (auto simp: conn_close_in_idle_def connection_ok_def refs_ok_def flags_ok_def conn_add_source_def Let_def)

text \<open>A signal of a stream leaves closing, TLS and the operations alone.\<close>

definition same_tls :: "EvdConnection \<Rightarrow> EvdConnection \<Rightarrow> bool" where
  "same_tls c c' \<longleftrightarrow> cn_closed c' = cn_closed c \<and> cn_tls_handshaking c' = cn_tls_handshaking c \<and>
     cn_async_result c' = cn_async_result c \<and> cn_idle c' = cn_idle c \<and> cn_completed c' = cn_completed c \<and>
     cn_pending c' = cn_pending c \<and> cn_streams c' = cn_streams c \<and> cn_tls_active c' = cn_tls_active c \<and>
     cn_watching c' = cn_watching c \<and> (cn_refs c \<le> cn_refs c')"

lemma same_tls_trans: "same_tls c c' \<Longrightarrow> same_tls c' c'' \<Longrightarrow> same_tls c c''"
  unfolding same_tls_def by simp

lemma stream_signal_ok:
  assumes "connection_ok u h c" "cn_streams c"
  shows "connection_ok u h (on_stream_signal sig c) \<and> same_tls c (on_stream_signal sig c)"
proof (cases sig)
  case Drained
  have "connection_ok u h (c\<lparr>cn_cond := x\<rparr>)" for x using assms(1) by (simp add: connection_ok_defs)
  then show ?thesis
    using Drained assms close_in_idle_ok [OF assms]
    by (auto simp: conn_drained_def same_tls_def conn_close_in_idle_def conn_add_source_def Let_def)
next
  case Filled
  have "connection_ok u h (c\<lparr>cn_cond := x\<rparr>)" for x using assms(1) by (simp add: connection_ok_defs)
  then show ?thesis using Filled assms by (auto simp: conn_filled_def same_tls_def)
next
  case Delay_read
  then show ?thesis using delay_read_ok [OF assms(1) _ assms(2)] assms(1) by (auto simp: conn_delay_read_def same_tls_def conn_add_source_def)
next
  case Delay_write
  then show ?thesis using delay_write_ok [OF assms(1) _ assms(2)] assms(1) by (auto simp: conn_delay_write_def same_tls_def conn_add_source_def)
qed

lemma stream_signals_ok:
  "connection_ok u h c \<Longrightarrow> cn_streams c \<Longrightarrow>
     connection_ok u h (fold on_stream_signal sigs c) \<and> same_tls c (fold on_stream_signal sigs c)"
proof (induction sigs arbitrary: c)
  case Nil
  then show ?case by (simp add: same_tls_def)
next
  case (Cons sig sigs)
  note one = stream_signal_ok [OF Cons.prems, of sig]
  then have "cn_streams (on_stream_signal sig c)" using Cons.prems by (simp add: same_tls_def)
  with one have "connection_ok u h (fold on_stream_signal sigs (on_stream_signal sig c)) \<and>
      same_tls (on_stream_signal sig c) (fold on_stream_signal sigs (on_stream_signal sig c))"
    using Cons.IH by blast
  then show ?case using one same_tls_trans by simp blast
qed

lemma same_tls_operations: "same_tls c c' \<Longrightarrow> operations c' = operations c"
  by (simp add: same_tls_def operations_def)

section \<open>Closing keeps the invariant\<close>

lemma sources_remove:
  assumes "distinct (map fst xs)" "(src, k) \<in> set xs"
  shows "Suc (length (filter (\<lambda>s. fst s \<noteq> src) xs)) = length xs"
    "(src', k') \<in> set (filter (\<lambda>s. fst s \<noteq> src) xs) \<longleftrightarrow> (src', k') \<in> set xs \<and> src' \<noteq> src"
    "distinct (map fst (filter (\<lambda>s. fst s \<noteq> src) xs))"
proof -
  show "Suc (length (filter (\<lambda>s. fst s \<noteq> src) xs)) = length xs"
    using assms
  proof (induction xs)
    case (Cons x xs)
    show ?case
    proof (cases "fst x = src")
      case True
      then have "filter (\<lambda>s. fst s \<noteq> src) xs = xs" using Cons.prems(1) by (auto simp: filter_id_conv image_iff)
      with True show ?thesis by simp
    next
      case False
      with Cons show ?thesis by auto
    qed
  qed simp
qed (use assms(1) in \<open>auto simp: distinct_map_filter\<close>)

text \<open>
  Removing the source of a field and clearing the field. The three fields are treated in turn; what
  is left are sources that close the connection and that no field names.
\<close>

definition forget_sources :: "EvdConnection \<Rightarrow> EvdConnection" where
  "forget_sources c =
     (let c = (remove_src (cn_close_src_id c) c)\<lparr>cn_close_src_id := 0\<rparr>;
          c = (remove_src (cn_read_src_id c) c)\<lparr>cn_read_src_id := 0\<rparr>
      in (remove_src (cn_write_src_id c) c)\<lparr>cn_write_src_id := 0\<rparr>)"

lemma source_ids_differ:
  assumes "conn_sources_ok c"
  shows "cn_read_src_id c \<noteq> 0 \<Longrightarrow> cn_read_src_id c \<noteq> cn_write_src_id c" "cn_read_src_id c \<noteq> 0 \<Longrightarrow> cn_read_src_id c \<noteq> cn_close_src_id c"
    "cn_write_src_id c \<noteq> 0 \<Longrightarrow> cn_write_src_id c \<noteq> cn_close_src_id c"
proof -
  have u: "(src, k) \<in> set (cn_sources c) \<Longrightarrow> (src, k') \<in> set (cn_sources c) \<Longrightarrow> k = k'" for src k k'
    using assms by (auto simp: conn_sources_ok_def intro: eq_key_imp_eq_value)
  show "cn_read_src_id c \<noteq> 0 \<Longrightarrow> cn_read_src_id c \<noteq> cn_write_src_id c" "cn_read_src_id c \<noteq> 0 \<Longrightarrow> cn_read_src_id c \<noteq> cn_close_src_id c"
    "cn_write_src_id c \<noteq> 0 \<Longrightarrow> cn_write_src_id c \<noteq> cn_close_src_id c"
    using assms u [of "cn_read_src_id c" Read_wait Write_wait] u [of "cn_read_src_id c" Read_wait Close_idle]
      u [of "cn_write_src_id c" Write_wait Close_idle]
    by (auto simp: conn_sources_ok_def)
qed

lemma forget_close:
  assumes "conn_sources_ok c" "refs_ok u h c"
  shows "conn_sources_ok ((remove_src (cn_close_src_id c) c)\<lparr>cn_close_src_id := 0\<rparr>)"
    "refs_ok u h ((remove_src (cn_close_src_id c) c)\<lparr>cn_close_src_id := 0\<rparr>)"
  using assms source_ids_differ [OF assms(1)] sources_remove [of "cn_sources c" "cn_close_src_id c" Close_idle]
  by (auto simp: conn_sources_ok_def refs_ok_def remove_src_def conn_drop_source_def)

lemma forget_read:
  assumes "conn_sources_ok c" "refs_ok u h c"
  shows "conn_sources_ok ((remove_src (cn_read_src_id c) c)\<lparr>cn_read_src_id := 0\<rparr>)"
    "refs_ok u h ((remove_src (cn_read_src_id c) c)\<lparr>cn_read_src_id := 0\<rparr>)"
  using assms source_ids_differ [OF assms(1)] sources_remove [of "cn_sources c" "cn_read_src_id c" Read_wait]
  by (auto simp: conn_sources_ok_def refs_ok_def remove_src_def conn_drop_source_def)

lemma forget_write:
  assumes "conn_sources_ok c" "refs_ok u h c"
  shows "conn_sources_ok ((remove_src (cn_write_src_id c) c)\<lparr>cn_write_src_id := 0\<rparr>)"
    "refs_ok u h ((remove_src (cn_write_src_id c) c)\<lparr>cn_write_src_id := 0\<rparr>)"
  using assms source_ids_differ [OF assms(1)] sources_remove [of "cn_sources c" "cn_write_src_id c" Write_wait]
  by (auto simp: conn_sources_ok_def refs_ok_def remove_src_def conn_drop_source_def)

lemma forget_sources_ok:
  assumes "conn_sources_ok c" "refs_ok u h c"
  shows "conn_sources_ok (forget_sources c)" "refs_ok u h (forget_sources c)"
proof -
  note close = forget_close [OF assms]
  note read = forget_read [OF close]
  note all = forget_write [OF read]
  show "conn_sources_ok (forget_sources c)" "refs_ok u h (forget_sources c)"
    unfolding forget_sources_def Let_def by (rule all)+
qed

lemma forget_sources_fields [simp]:
  "cn_read_src_id (forget_sources c) = 0" "cn_write_src_id (forget_sources c) = 0" "cn_close_src_id (forget_sources c) = 0"
  "cn_async_result (forget_sources c) = cn_async_result c" "cn_idle (forget_sources c) = cn_idle c"
  "cn_completed (forget_sources c) = cn_completed c" "cn_tls_handshaking (forget_sources c) = cn_tls_handshaking c"
  "cn_closed (forget_sources c) = cn_closed c" "cn_pending (forget_sources c) = cn_pending c"
  "cn_streams (forget_sources c) = cn_streams c" "cn_tls_streams (forget_sources c) = cn_tls_streams c"
  "cn_connected (forget_sources c) = cn_connected c" "cn_delayed_close (forget_sources c) = cn_delayed_close c"
  "cn_close_signals (forget_sources c) = cn_close_signals c" "cn_shutdowns (forget_sources c) = cn_shutdowns c"
  by (simp_all add: forget_sources_def Let_def remove_src_def conn_drop_source_def)

lemma forget_sources_subset: "set (cn_sources (forget_sources c)) \<subseteq> set (cn_sources c)"
  by (auto simp: forget_sources_def Let_def remove_src_def conn_drop_source_def)

lemma close_internal_forget:
  "conn_close_internal c =
     (if cn_closing c then c
      else let c = complete_closed (forget_sources (c\<lparr>cn_closing := True, cn_connected := False\<rparr>))
        in c\<lparr>cn_tls_handshaking := False, cn_tls_active := False, cn_read_pending := False, cn_watching := False,
             cn_close_signals := cn_close_signals c + 1, cn_closing := False\<rparr>)"
  by (simp add: conn_close_internal_def forget_sources_def Let_def)

lemma complete_closed_ok:
  assumes "conn_sources_ok c" "refs_ok u h c"
  shows "conn_sources_ok (complete_closed c)" "refs_ok u h (complete_closed c)" "cn_async_result (complete_closed c) = None"
    "operations (complete_closed c) = operations c"
  using assms by (auto simp: complete_closed_def conn_sources_ok_def refs_ok_def operations_def split: option.splits)

lemma complete_closed_fields [simp]:
  "cn_read_src_id (complete_closed c) = cn_read_src_id c" "cn_write_src_id (complete_closed c) = cn_write_src_id c"
  "cn_close_src_id (complete_closed c) = cn_close_src_id c" "cn_idle (complete_closed c) = cn_idle c"
  "cn_closed (complete_closed c) = cn_closed c" "cn_pending (complete_closed c) = cn_pending c"
  "cn_streams (complete_closed c) = cn_streams c" "cn_tls_streams (complete_closed c) = cn_tls_streams c"
  "cn_connected (complete_closed c) = cn_connected c" "cn_delayed_close (complete_closed c) = cn_delayed_close c"
  "cn_sources (complete_closed c) = cn_sources c"
  "cn_close_signals (complete_closed c) = cn_close_signals c" "cn_shutdowns (complete_closed c) = cn_shutdowns c"
  by (simp_all add: complete_closed_def split: option.splits)

text \<open>What closing a connection that is open comes to.\<close>

lemma stream_close_ok:
  assumes "connection_ok u h c"
  shows "connection_ok u h (conn_stream_close c)" "operations (conn_stream_close c) = operations c"
    "\<not> cn_pending c \<Longrightarrow> cn_closed (conn_stream_close c)" "cn_pending (conn_stream_close c) = cn_pending c"
    "cn_streams (conn_stream_close c) = cn_streams c" "cn_delayed_close (conn_stream_close c) = cn_delayed_close c" "cn_idle (conn_stream_close c) = cn_idle c" "cn_shutdowns (conn_stream_close c) = cn_shutdowns c"
proof -
  let ?d = "c\<lparr>cn_closing := True, cn_connected := False\<rparr>"
  let ?e = "complete_closed (forget_sources ?d)"
  have d: "conn_sources_ok ?d" "refs_ok u h ?d" using assms(1) by (auto simp: connection_ok_def conn_sources_ok_def refs_ok_def)
  note e = complete_closed_ok [OF forget_sources_ok [OF d]]
  have o: "operations (forget_sources ?d) = operations c" by (simp add: operations_def)
  let ?f = "?e\<lparr>cn_tls_handshaking := False, cn_tls_active := False, cn_read_pending := False, cn_watching := False,
      cn_close_signals := cn_close_signals ?e + 1, cn_closing := False, cn_closed := True\<rparr>"
  have c: "conn_stream_close c = (if cn_closed c \<or> cn_pending c then c else ?f)"
    using assms(1) by (simp add: conn_stream_close_def close_internal_forget Let_def connection_ok_def flags_ok_def)
  have "conn_sources_ok ?f" using e(1) by (simp add: conn_sources_ok_def)
  moreover have "refs_ok u h ?f" using e(2) by (simp add: refs_ok_def)
  moreover have "flags_ok ?f"
    using e(3) forget_sources_subset [of ?d] assms(1) by (auto simp: flags_ok_def connection_ok_def)
  ultimately show "connection_ok u h (conn_stream_close c)"
    using assms unfolding c by (simp add: connection_ok_def)
  show "operations (conn_stream_close c) = operations c"
    using e(4) o unfolding c by (simp add: operations_def)
qed (use assms in \<open>auto simp: conn_stream_close_def close_internal_forget Let_def\<close>)

section \<open>Every event keeps the invariant\<close>

text \<open>
  A connection that has been freed is not reported to; one that is closed has had a socket, or has been
  freed.
\<close>

definition freed_ok :: "EvdConnection \<Rightarrow> bool" where
  "freed_ok c \<longleftrightarrow> (cn_refs c = 0 \<longrightarrow> \<not> cn_watching c) \<and> (cn_closed c \<longrightarrow> cn_streams c \<or> cn_refs c = 0)"

lemma connection_ok_unheld: "connection_ok u (Suc h) c \<Longrightarrow> connection_ok u h (c\<lparr>cn_refs := cn_refs c - 1\<rparr>)"
  by (auto simp: connection_ok_defs)

lemma stream_close_refs: "cn_refs c = 1 \<Longrightarrow> connection_ok u (Suc h) c \<Longrightarrow> cn_refs (conn_stream_close c) = 1 \<and> \<not> cn_pending c"
proof -
  assume r: "cn_refs c = 1" "connection_ok u (Suc h) c"
  then have "u = 0" "cn_sources c = []" "cn_async_result c = None" by (auto simp: connection_ok_def refs_ok_def split: if_splits)
  moreover have "cn_sources (conn_stream_close c) = []" "cn_async_result (conn_stream_close c) = None"
    using calculation forget_sources_subset [of "c\<lparr>cn_closing := True, cn_connected := False\<rparr>"]
    by (auto simp: conn_stream_close_def close_internal_forget Let_def complete_closed_def)
  ultimately show ?thesis
    using r stream_close_ok(1,6-8) [OF r(2)] by (auto simp: connection_ok_def refs_ok_def)
qed

lemma unref_ok:
  assumes "connection_ok u (Suc h) c" "cn_closed c \<longrightarrow> cn_streams c"
  shows "connection_ok u h (conn_unref c)" "operations (conn_unref c) = operations c" "freed_ok (conn_unref c)"
proof -
  let ?c = "if cn_refs c = 1 then conn_stream_close c else c"
  have ok: "connection_ok u (Suc h) ?c" "operations ?c = operations c"
    using stream_close_ok(1,2) [OF assms(1)] assms(1) by simp_all
  show "connection_ok u h (conn_unref c)"
    unfolding conn_unref_def Let_def by (rule connection_ok_unheld [OF ok(1)])
  show "operations (conn_unref c) = operations c" using ok(2) by (simp add: conn_unref_def Let_def operations_def)
  show "freed_ok (conn_unref c)"
  proof (cases "cn_refs c = 1")
    case True
    with stream_close_refs [OF True assms(1)] stream_close_ok [OF assms(1)] show ?thesis
      by (auto simp: conn_unref_def Let_def freed_ok_def connection_ok_def flags_ok_def)
  next
    case False
    moreover have "cn_refs c \<noteq> 0" using assms(1) by (simp add: connection_ok_def refs_ok_def)
    ultimately show ?thesis using assms(2) by (auto simp: conn_unref_def Let_def freed_ok_def)
  qed
qed

text \<open>What a function does while a reference is held.\<close>

definition proceeds :: "nat \<Rightarrow> nat \<Rightarrow> EvdConnection \<Rightarrow> EvdConnection option \<Rightarrow> bool" where
  "proceeds u h c x \<longleftrightarrow> 
     (\<exists>c'. x = Some c' \<and> connection_ok u h c' \<and> operations c' = operations c \<and> cn_streams c' \<and> cn_refs c' \<noteq> 0)"

lemma proceeds_Some:
  "connection_ok u h c' \<Longrightarrow> operations c' = operations c \<Longrightarrow> cn_streams c' \<Longrightarrow> cn_refs c' \<noteq> 0 \<Longrightarrow> proceeds u h c (Some c')"
  by (simp add: proceeds_def)

lemma proceeds_bind:
  assumes "proceeds u h c x"
    and "\<And>c'. connection_ok u h c' \<Longrightarrow> operations c' = operations c \<Longrightarrow> cn_streams c' \<Longrightarrow> cn_refs c' \<noteq> 0 \<Longrightarrow> proceeds u h c (f c')"
  shows "proceeds u h c (Option.bind x f)"
  using assms by (auto simp: proceeds_def)

lemma close_in_idle_cb_ok:
  assumes "connection_ok u (Suc h) (c\<lparr>cn_close_src_id := 0\<rparr>)" "cn_streams c"
  shows "connection_ok u h (conn_close_in_idle_cb c)" "operations (conn_close_in_idle_cb c) = operations c"
    "freed_ok (conn_close_in_idle_cb c)" "cn_streams (conn_close_in_idle_cb c)" "cn_closed (conn_close_in_idle_cb c)"
    "cn_idle (conn_close_in_idle_cb c) = cn_idle c"
proof -
  let ?c = "c\<lparr>cn_close_src_id := 0, cn_pending := False\<rparr>"
  have ok: "connection_ok u (Suc h) ?c" using assms(1) by (simp add: connection_ok_defs)
  note s = stream_close_ok [OF ok]
  have o: "operations ?c = operations c" by (simp add: operations_def)
  note r = unref_ok [OF s(1)]
  show "connection_ok u h (conn_close_in_idle_cb c)" "operations (conn_close_in_idle_cb c) = operations c" "freed_ok (conn_close_in_idle_cb c)"
    unfolding conn_close_in_idle_cb_def using r s(2,5) o assms(2) by simp_all
  have "cn_streams (conn_unref d) = cn_streams d" "cn_closed d \<Longrightarrow> cn_closed (conn_unref d)" "cn_idle (conn_unref d) = cn_idle d" for d
    by (auto simp: conn_unref_def Let_def conn_stream_close_def close_internal_forget)
  then show "cn_streams (conn_close_in_idle_cb c)" "cn_closed (conn_close_in_idle_cb c)" "cn_idle (conn_close_in_idle_cb c) = cn_idle c"
    unfolding conn_close_in_idle_cb_def using s(3,5,7) assms(2) by simp_all
qed

lemma forget_close_id_ok: "connection_ok u h c \<Longrightarrow> connection_ok u h (c\<lparr>cn_close_src_id := 0\<rparr>)"
  by (simp add: connection_ok_defs)

lemma finish_operation_ok:
  assumes "connection_ok u h c" "cn_async_result c = Some res"
  shows "connection_ok u h (c\<lparr>cn_tls_handshaking := False, cn_async_result := None, cn_idle := cn_idle c @ [(res, e)]\<rparr>)"
    "operations (c\<lparr>cn_tls_handshaking := False, cn_async_result := None, cn_idle := cn_idle c @ [(res, e)]\<rparr>) = operations c"
  using assms by (auto simp: connection_ok_defs operations_def)

text \<open>Closing at once, with a reference of its own.\<close>

lemma close_now_ok:
  assumes "connection_ok u h c" "cn_streams c"
  shows "connection_ok u h (conn_close_in_idle_cb (c\<lparr>cn_refs := cn_refs c + 1\<rparr>))"
    "operations (conn_close_in_idle_cb (c\<lparr>cn_refs := cn_refs c + 1\<rparr>)) = operations (c\<lparr>cn_refs := cn_refs c + 1\<rparr>)"
    "cn_streams (conn_close_in_idle_cb (c\<lparr>cn_refs := cn_refs c + 1\<rparr>))" "cn_idle (conn_close_in_idle_cb (c\<lparr>cn_refs := cn_refs c + 1\<rparr>)) = cn_idle c"
proof -
  have "connection_ok u (Suc h) (c\<lparr>cn_refs := cn_refs c + 1, cn_close_src_id := 0\<rparr>)"
    using assms(1) by (simp add: connection_ok_defs)
  then show "connection_ok u h (conn_close_in_idle_cb (c\<lparr>cn_refs := cn_refs c + 1\<rparr>))"
    "operations (conn_close_in_idle_cb (c\<lparr>cn_refs := cn_refs c + 1\<rparr>)) = operations (c\<lparr>cn_refs := cn_refs c + 1\<rparr>)"
    "cn_streams (conn_close_in_idle_cb (c\<lparr>cn_refs := cn_refs c + 1\<rparr>))" "cn_idle (conn_close_in_idle_cb (c\<lparr>cn_refs := cn_refs c + 1\<rparr>)) = cn_idle c"
    using close_in_idle_cb_ok(1,2,4,6) [of u h "c\<lparr>cn_refs := cn_refs c + 1\<rparr>"] assms(2) by simp_all
qed

lemma tls_handshake_proceeds:
  assumes "connection_ok u h c" "cn_tls_handshaking c" "cn_refs c \<noteq> 0"
  shows "proceeds u h c (conn_tls_handshake env c)"
proof -
  obtain direction sigs result where env: "ce_handshake env = (direction, sigs, result)" by (metis prod_cases3)
  have open_conn: "cn_streams c" using assms by (auto simp: connection_ok_def flags_ok_def)
  let ?s = "fold on_stream_signal sigs c"
  note s = stream_signals_ok [OF assms(1) open_conn, of sigs]
  obtain res where res: "cn_async_result ?s = Some res"
    using s assms by (auto simp: same_tls_def connection_ok_def flags_ok_def)
  define d where "d = (\<lambda>e. ?s\<lparr>cn_tls_handshaking := False, cn_async_result := None, cn_idle := cn_idle ?s @ [(res, e)]\<rparr>)"
  have d: "connection_ok u h (d e)" "operations (d e) = operations c" "cn_streams (d e)"
    "cn_refs (d e) \<noteq> 0" "cn_idle (d e) \<noteq> []" for e
    using finish_operation_ok [of u h ?s res e] s res open_conn same_tls_operations [of c ?s] assms(3)
    by (simp_all add: d_def same_tls_def)
  have good: "connection_ok u h ((d e)\<lparr>cn_auto_flush := True, cn_frozen := False\<rparr>)" for e
    using d(1) [of e] by (simp add: connection_ok_defs)
  have bad: "connection_ok u h (conn_close_in_idle_cb ((d e)\<lparr>cn_refs := cn_refs (d e) + 1\<rparr>))"
    "operations (conn_close_in_idle_cb ((d e)\<lparr>cn_refs := cn_refs (d e) + 1\<rparr>)) = operations ((d e)\<lparr>cn_refs := cn_refs (d e) + 1\<rparr>)"
    "cn_streams (conn_close_in_idle_cb ((d e)\<lparr>cn_refs := cn_refs (d e) + 1\<rparr>))"
    "cn_refs (conn_close_in_idle_cb ((d e)\<lparr>cn_refs := cn_refs (d e) + 1\<rparr>)) \<noteq> 0" for e
    using close_now_ok [OF d(1,3) [of e]] d(5) [of e] by (simp_all add: connection_ok_def refs_ok_def)
  have o: "operations ((d e)\<lparr>cn_refs := n\<rparr>) = operations c" "operations ((d e)\<lparr>cn_auto_flush := True, cn_frozen := False\<rparr>) = operations c" for e n
    using d(2) [of e] by (simp_all add: operations_def)
  have h: "conn_tls_handshake env c =
      (if (direction = G_IO_IN \<and> cn_read_src_id c \<noteq> 0) \<or> (direction = G_IO_OUT \<and> cn_write_src_id c \<noteq> 0) then Some c
       else if result = 0 then Some ?s
       else Some (if result > 0 then (d None)\<lparr>cn_auto_flush := True, cn_frozen := False\<rparr>
                  else conn_close_in_idle_cb ((d (Some G_IO_ERROR_FAILED))\<lparr>cn_refs := cn_refs (d (Some G_IO_ERROR_FAILED)) + 1\<rparr>)))"
    by (simp add: conn_tls_handshake_def env res Let_def d_def)
  have "proceeds u h c (Some c)" "proceeds u h c (Some ?s)"
    using assms(1,3) s open_conn same_tls_operations [of c ?s] by (auto simp: proceeds_def same_tls_def)
  moreover have "proceeds u h c (Some ((d None)\<lparr>cn_auto_flush := True, cn_frozen := False\<rparr>))"
    using good d(3,4) o(2) by (intro proceeds_Some) simp_all
  moreover have "proceeds u h c (Some (conn_close_in_idle_cb ((d e)\<lparr>cn_refs := cn_refs (d e) + 1\<rparr>)))" for e
    using bad [of e] d(3) o(1) by (intro proceeds_Some) simp_all
  ultimately show ?thesis unfolding h by simp
qed

lemma manage_read_proceeds:
  assumes "connection_ok u h c" "cn_streams c" "cn_refs c \<noteq> 0"
  shows "proceeds u h c (conn_manage_read_condition env c)"
proof -
  have "connection_ok u h (c\<lparr>cn_frozen := False\<rparr>)" "operations (c\<lparr>cn_frozen := False\<rparr>) = operations c"
    using assms(1) by (simp_all add: connection_ok_defs operations_def)
  then show ?thesis
    using assms tls_handshake_proceeds [OF assms(1) _ assms(3)] by (simp add: conn_manage_read_condition_def proceeds_Some)
qed

lemma manage_write_proceeds:
  assumes "connection_ok u h c" "cn_streams c" "cn_refs c \<noteq> 0"
  shows "proceeds u h c (conn_manage_write_condition env c)"
proof -
  have "proceeds u h c (if cn_tls_handshaking c then conn_tls_handshake env c else Some (fold on_stream_signal (ce_notify_write env) c))"
    using tls_handshake_proceeds [OF assms(1) _ assms(3)] stream_signals_ok [OF assms(1,2), of "ce_notify_write env"] assms(2,3)
      same_tls_operations [of c "fold on_stream_signal (ce_notify_write env) c"]
    by (auto simp: proceeds_def same_tls_def)
  then show ?thesis
    unfolding conn_manage_write_condition_def
  proof (rule proceeds_bind)
    fix d
    assume d: "connection_ok u h d" "operations d = operations c" "cn_streams d" "cn_refs d \<noteq> 0"
    let ?e = "if \<not> cn_closed d \<and> cn_tls_streams d then fold on_stream_signal (ce_notify_tls env) d else d"
    have e: "connection_ok u h ?e" "operations ?e = operations c" "cn_streams ?e" "cn_refs ?e \<noteq> 0"
      using d stream_signals_ok [OF d(1,3), of "ce_notify_tls env"] same_tls_operations [of d "fold on_stream_signal (ce_notify_tls env) d"]
      by (auto simp: same_tls_def)
    then have "connection_ok u h (?e\<lparr>cn_write_signals := n\<rparr>)" "operations (?e\<lparr>cn_write_signals := n\<rparr>) = operations c" for n
      by (simp_all add: connection_ok_defs operations_def)
    with e show "proceeds u h c (used d \<bind> (\<lambda>d. let e = if \<not> cn_closed d \<and> cn_tls_streams d then fold on_stream_signal (ce_notify_tls env) d else d
        in Some (if \<not> cn_tls_handshaking e \<and> conn_max_writable env e > 0
        then e\<lparr>cn_write_signals := cn_write_signals e + 1\<rparr> else e)))"
      using d(4) by (simp add: used_def Let_def proceeds_Some)
  qed
qed

lemma on_condition_proceeds:
  assumes "connection_ok u h c" "cn_streams c" "cn_refs c \<noteq> 0"
  shows "proceeds u h c (conn_socket_on_condition env condition c)"
proof (cases "cn_closed c")
  case True
  then show ?thesis using assms by (simp add: conn_socket_on_condition_def proceeds_Some)
next
  case False
  let ?c = "c\<lparr>cn_cond := condition\<rparr>"
  have c: "connection_ok u h ?c" "cn_streams ?c" "operations ?c = operations c" "cn_refs ?c \<noteq> 0"
    using assms by (simp_all add: connection_ok_defs operations_def)
  have "proceeds u h c (if has_cond condition G_IO_IN \<and> cn_read_src_id ?c = 0 then conn_manage_read_condition env ?c else Some ?c)"
    using manage_read_proceeds [OF c(1,2,4)] c by (simp add: proceeds_def)
  then have "proceeds u h c ((if has_cond condition G_IO_IN \<and> cn_read_src_id ?c = 0 then conn_manage_read_condition env ?c else Some ?c) \<bind>
     (\<lambda>c. used c \<bind> (\<lambda>c. if has_cond condition G_IO_HUP then
          Some (if cn_close_locked c \<or> cn_read_src_id c \<noteq> 0 \<or> cn_read_pending c then c\<lparr>cn_delayed_close := True\<rparr>
                else conn_close_in_idle c)
        else if has_cond condition G_IO_OUT \<and> cn_write_src_id c = 0 then conn_manage_write_condition env c
        else Some c)))"
  proof (rule proceeds_bind)
    fix d
    assume d: "connection_ok u h d" "operations d = operations c" "cn_streams d" "cn_refs d \<noteq> 0"
    have "connection_ok u h (d\<lparr>cn_delayed_close := True\<rparr>)" "operations (d\<lparr>cn_delayed_close := True\<rparr>) = operations c"
      using d by (simp_all add: connection_ok_defs operations_def)
    moreover have "connection_ok u h (conn_close_in_idle d)" "operations (conn_close_in_idle d) = operations c" "cn_streams (conn_close_in_idle d)"
      "cn_refs (conn_close_in_idle d) \<noteq> 0"
      using close_in_idle_ok [OF d(1,3)] d(2-4) by (simp_all add: conn_close_in_idle_def conn_add_source_def operations_def Let_def)
    moreover have "proceeds u h c (conn_manage_write_condition env d)"
      using manage_write_proceeds [OF d(1,3,4)] d(2) by (simp add: proceeds_def)
    ultimately show "proceeds u h c (used d \<bind> (\<lambda>d. if has_cond condition G_IO_HUP then
          Some (if cn_close_locked d \<or> cn_read_src_id d \<noteq> 0 \<or> cn_read_pending d then d\<lparr>cn_delayed_close := True\<rparr>
                else conn_close_in_idle d)
        else if has_cond condition G_IO_OUT \<and> cn_write_src_id d = 0 then conn_manage_write_condition env d
        else Some d))"
      using d by (simp add: proceeds_Some used_def)
  qed
  then show ?thesis using False by (simp add: conn_socket_on_condition_def Let_def)
qed

lemma remote_simps [simp]:
  "cn_remote_addr_st (on_stream_signal sig c) = cn_remote_addr_st c"
  "cn_remote_addr_st (conn_stream_close c) = cn_remote_addr_st c"
  "cn_remote_addr_st (conn_unref c) = cn_remote_addr_st c"
  "cn_remote_addr_st (conn_close_in_idle_cb c) = cn_remote_addr_st c"
  by (cases sig; simp add: conn_drained_def conn_filled_def conn_delay_read_def conn_delay_write_def conn_close_in_idle_def conn_add_source_def Let_def)
    (simp_all add: conn_close_in_idle_cb_def conn_unref_def conn_stream_close_def conn_close_internal_def remove_src_def conn_drop_source_def
      complete_closed_def Let_def split: option.splits)

lemma remote_fold [simp]: "cn_remote_addr_st (fold on_stream_signal sigs c) = cn_remote_addr_st c"
  by (induction sigs arbitrary: c) simp_all

lemma remote_handshake: "conn_tls_handshake env c = Some c' \<Longrightarrow> cn_remote_addr_st c' = cn_remote_addr_st c"
  by (auto simp: conn_tls_handshake_def Let_def split: prod.splits if_splits option.splits)

lemma remote_manage_read: "conn_manage_read_condition env c = Some c' \<Longrightarrow> cn_remote_addr_st c' = cn_remote_addr_st c"
  by (auto simp: conn_manage_read_condition_def remote_handshake split: if_splits)

lemma remote_manage_write: "conn_manage_write_condition env c = Some c' \<Longrightarrow> cn_remote_addr_st c' = cn_remote_addr_st c"
  by (auto simp: conn_manage_write_condition_def used_def Let_def remote_handshake split: if_splits bind_splits)

lemma remote_on_condition: "conn_socket_on_condition env condition c = Some c' \<Longrightarrow> cn_remote_addr_st c' = cn_remote_addr_st c"
  by (auto simp: conn_socket_on_condition_def used_def Let_def conn_close_in_idle_def conn_add_source_def
      split: if_splits bind_splits dest!: remote_manage_read remote_manage_write)

text \<open>The result of an event: accounted for, and not reported to if it has been freed.\<close>

definition lands :: "nat \<Rightarrow> nat multiset \<Rightarrow> EvdConnection option \<Rightarrow> bool" where
  "lands u M x \<longleftrightarrow> (\<exists>c'. x = Some c' \<and> connection_ok u 0 c' \<and> operations c' = M \<and> freed_ok c')"

lemma lands_Some: "connection_ok u 0 c \<Longrightarrow> operations c = M \<Longrightarrow> freed_ok c \<Longrightarrow> lands u M (Some c)"
  by (simp add: lands_def)

lemma proceeds_lands: "proceeds u 0 c x \<Longrightarrow> lands u (operations c) x"
  by (auto simp: proceeds_def lands_def freed_ok_def)

lemma unref_lands:
  "connection_ok u (Suc 0) c \<Longrightarrow> cn_closed c \<longrightarrow> cn_streams c \<Longrightarrow> lands u (operations c) (Some (conn_unref c))"
  using unref_ok [of u 0 c] by (simp add: lands_Some)

lemma proceeds_unref_lands:
  assumes "proceeds u (Suc 0) c x"
  shows "lands u (operations c) (map_option conn_unref x)"
proof -
  from assms obtain c' where "x = Some c'" "connection_ok u (Suc 0) c'" "operations c' = operations c" "cn_streams c'"
    by (auto simp: proceeds_def)
  then show ?thesis using unref_lands [of u c'] by simp
qed

lemma read_wait_lands:
  assumes "connection_ok u (Suc 0) (c\<lparr>cn_read_src_id := 0\<rparr>)" "cn_streams c" "\<not> cn_closed c"
  shows "lands u (operations c) (conn_read_wait_timeout env c)"
proof -
  let ?c = "c\<lparr>cn_read_src_id := 0\<rparr>"
  have o: "operations ?c = operations c" by (simp add: operations_def)
  have r: "cn_refs d \<noteq> 0" if "connection_ok u (Suc 0) d" for d using that by (simp add: connection_ok_def refs_ok_def)
  have "proceeds u (Suc 0) ?c (conn_manage_read_condition env ?c)"
    using manage_read_proceeds [OF assms(1)] r [OF assms(1)] assms(2) by simp
  then have "proceeds u (Suc 0) ?c (conn_manage_read_condition env ?c \<bind> (\<lambda>c. used c \<bind> (\<lambda>c.
      Some (if cn_delayed_close c \<and> \<not> cn_read_pending c then conn_close_in_idle_cb (c\<lparr>cn_refs := cn_refs c + 1\<rparr>) else c))))"
  proof (rule proceeds_bind)
    fix d
    assume d: "connection_ok u (Suc 0) d" "operations d = operations ?c" "cn_streams d" "cn_refs d \<noteq> 0"
    have "operations (d\<lparr>cn_refs := n\<rparr>) = operations d" for n by (simp add: operations_def)
    then have "proceeds u (Suc 0) ?c (Some (conn_close_in_idle_cb (d\<lparr>cn_refs := cn_refs d + 1\<rparr>)))"
      using close_now_ok [OF d(1,3)] d(2) r [OF close_now_ok(1) [OF d(1,3)]] by (intro proceeds_Some) simp_all
    moreover have "proceeds u (Suc 0) ?c (Some d)" using d by (rule proceeds_Some)
    ultimately show "proceeds u (Suc 0) ?c (used d \<bind> (\<lambda>c.
      Some (if cn_delayed_close c \<and> \<not> cn_read_pending c then conn_close_in_idle_cb (c\<lparr>cn_refs := cn_refs c + 1\<rparr>) else c)))"
      using d(4) by (simp add: used_def)
  qed
  from proceeds_unref_lands [OF this] o show ?thesis
    using assms(3) by (simp add: conn_read_wait_timeout_def)
qed

lemma write_wait_lands:
  assumes "connection_ok u (Suc 0) (c\<lparr>cn_write_src_id := 0\<rparr>)" "cn_streams c" "\<not> cn_closed c"
  shows "lands u (operations c) (conn_write_wait_timeout env c)"
proof -
  let ?c = "c\<lparr>cn_write_src_id := 0\<rparr>"
  have "cn_refs ?c \<noteq> 0" using assms(1) by (simp add: connection_ok_def refs_ok_def)
  then have "proceeds u (Suc 0) ?c (conn_manage_write_condition env ?c)"
    using manage_write_proceeds [OF assms(1)] assms(2) by simp
  from proceeds_unref_lands [OF this] show ?thesis
    using assms(3) by (simp add: conn_write_wait_timeout_def operations_def)
qed

text \<open>A source that fires is no longer armed; its reference is held until its function returns.\<close>

lemma fire_lands:
  assumes "connection_ok u 0 c" "freed_ok c" "src \<in> fst ` set (cn_sources c)"
  shows "lands u (operations c) (conn_step env (Fire src) c)"
proof -
  from assms(3) obtain k where k: "(src, k) \<in> set (cn_sources c)" by auto
  have s: "conn_sources_ok c" "flags_ok c" "refs_ok u 0 c" using assms(1) by (auto simp: connection_ok_def)
  then have m: "map_of (cn_sources c) src = Some k" using k by (simp add: conn_sources_ok_def)
  have streams: "cn_streams c" using s k by (auto simp: flags_ok_def)
  let ?c = "c\<lparr>cn_sources := filter (\<lambda>s. fst s \<noteq> src) (cn_sources c)\<rparr>"
  note rm = sources_remove [OF _ k]
  have d: "distinct (map fst (cn_sources c))" using s by (simp add: conn_sources_ok_def)
  note ids = source_ids_differ [OF s(1)]
  have o: "operations (?c\<lparr>cn_read_src_id := n\<rparr>) = operations c" "operations ?c = operations c" for n by (simp_all add: operations_def)
  show ?thesis
  proof (cases k)
    case Read_wait
    then have src: "src = cn_read_src_id c" "src \<noteq> 0" using k s by (auto simp: conn_sources_ok_def)
    have "connection_ok u (Suc 0) (?c\<lparr>cn_read_src_id := 0\<rparr>)"
      using assms(1) rm(1,2,3) [OF d] src ids Read_wait by (auto simp: connection_ok_defs)
    moreover have "\<not> cn_closed c" using s src by (auto simp: flags_ok_def)
    ultimately have "lands u (operations ?c) (conn_read_wait_timeout env ?c)" using streams by (intro read_wait_lands) simp_all
    then show ?thesis using m Read_wait o by (simp add: fire_source_def)
  next
    case Write_wait
    then have src: "src = cn_write_src_id c" "src \<noteq> 0" using k s by (auto simp: conn_sources_ok_def)
    have "connection_ok u (Suc 0) (?c\<lparr>cn_write_src_id := 0\<rparr>)"
      using assms(1) rm(1,2,3) [OF d] src ids Write_wait by (auto simp: connection_ok_defs)
    moreover have "\<not> cn_closed c" using s src by (auto simp: flags_ok_def)
    ultimately have "lands u (operations ?c) (conn_write_wait_timeout env ?c)" using streams by (intro write_wait_lands) simp_all
    then show ?thesis using m Write_wait o by (simp add: fire_source_def)
  next
    case Close_idle
    then have "(src, Read_wait) \<notin> set (cn_sources c)" "(src, Write_wait) \<notin> set (cn_sources c)"
      using k d by (auto dest: eq_key_imp_eq_value)
    then have "connection_ok u (Suc 0) (?c\<lparr>cn_close_src_id := 0\<rparr>)"
      using assms(1) rm(1,2,3) [OF d] Close_idle by (auto simp: connection_ok_defs)
    from close_in_idle_cb_ok [OF this] streams show ?thesis
      using m Close_idle o by (simp add: fire_source_def lands_Some)
  qed
qed

lemma set_socket_lands:
  assumes "connection_ok u 0 c" "freed_ok c" "cn_refs c \<noteq> 0"
    and "cn_socket c = Some socket \<or> \<not> cn_tls_active c \<and> cn_remote_addr_st c = None"
  shows "lands u (operations c) (conn_set_socket env socket c)"
proof (cases "cn_socket c = Some socket")
  case True
  then show ?thesis using assms(1,2) by (simp add: conn_set_socket_def lands_Some)
next
  case False
  then have tls: "\<not> cn_tls_active c" "cn_remote_addr_st c = None" using assms(4) by auto
  let ?c = "c\<lparr>cn_socket := Some socket, cn_watching := True\<rparr>"
  define d where "d = (if \<not> cn_streams ?c then conn_setup_streams env ?c
                 else if cn_closed ?c then (conn_setup_streams env (conn_teardown_streams ?c))\<lparr>cn_closed := False\<rparr>
                 else ?c)"
  have d: "cn_streams d" "cn_refs d = cn_refs c" "operations d = operations c" "cn_remote_addr_st d = None"
    using tls(2) by (auto simp: d_def conn_setup_streams_def conn_teardown_streams_def operations_def)
  have ok: "connection_ok u 0 d"
  proof -
    have "\<not> cn_tls_handshaking c" "cn_closed c \<longrightarrow> cn_streams c" "cn_async_result c = None" "cn_tls_streams c \<longrightarrow> cn_closed c"
      using assms(1-3) tls(1) by (auto simp: connection_ok_def flags_ok_def freed_ok_def)
    moreover have "conn_sources_ok d" "refs_ok u 0 d" "cn_pending d = cn_pending c"
      using assms(1)
      by (simp_all add: d_def connection_ok_def conn_sources_ok_def refs_ok_def conn_setup_streams_def conn_teardown_streams_def)
    ultimately show ?thesis
      using assms(1) tls(1) by (auto simp: d_def connection_ok_def flags_ok_def conn_setup_streams_def conn_teardown_streams_def)
  qed
  have "proceeds u 0 d (conn_socket_on_condition env (ce_socket_cond env) d)"
    by (rule on_condition_proceeds [OF ok d(1)]) (use d(2) assms(3) in simp)
  then obtain e where e: "conn_socket_on_condition env (ce_socket_cond env) d = Some e" "connection_ok u 0 e"
      "operations e = operations c" "cn_streams e" "cn_refs e \<noteq> 0"
    using d(3) by (auto simp: proceeds_def)
  then have "cn_remote_addr_st e = None" using remote_on_condition [OF e(1)] d(4) by simp
  moreover have "conn_set_socket env socket c = conn_socket_on_condition env (ce_socket_cond env) d \<bind> (\<lambda>c. used c \<bind> (\<lambda>c.
      if cn_remote_addr_st c \<noteq> None then None
      else Some (c\<lparr>cn_remote_addr_st := conn_get_remote_address_as_string env c\<rparr>)))"
    unfolding d_def conn_set_socket_def Let_def using False tls(1) by simp
  ultimately have "conn_set_socket env socket c = Some (e\<lparr>cn_remote_addr_st := conn_get_remote_address_as_string env e\<rparr>)"
    using e(1,5) by (simp add: used_def)
  moreover have "connection_ok u 0 (e\<lparr>cn_remote_addr_st := x\<rparr>)" for x using e(2) by (simp add: connection_ok_defs)
  moreover have "operations (e\<lparr>cn_remote_addr_st := x\<rparr>) = operations c" for x using e(3) by (simp add: operations_def)
  moreover have "freed_ok (e\<lparr>cn_remote_addr_st := x\<rparr>)" for x using e(4,5) by (simp add: freed_ok_def)
  ultimately show ?thesis by (simp add: lands_Some)
qed

lemma starttls_lands:
  assumes "connection_ok u 0 c" "freed_ok c" "cn_refs c \<noteq> 0" "cn_streams c"
  shows "lands u (operations c + {#res#}) (conn_starttls env client res c)"
proof -
  let ?f = "\<lambda>e. c\<lparr>cn_refs := cn_refs c + 1, cn_idle := cn_idle c @ [(res, e)]\<rparr>"
  have fail: "lands u (operations c + {#res#}) (Some (?f e))" for e
    using assms(1,4) by (intro lands_Some) (auto simp: connection_ok_defs operations_def freed_ok_def)
  let ?d = "c\<lparr>cn_refs := cn_refs c + 1, cn_async_result := Some res, cn_tls_active := True, cn_tls_streams := True,
      cn_read_pending := False, cn_frozen := True, cn_auto_flush := False, cn_tls_handshaking := True\<rparr>"
  show ?thesis
  proof (cases "cn_connected c \<and> \<not> cn_tls_active c")
    case True
    then have open_conn: "\<not> cn_closed c" "\<not> cn_tls_streams c" "cn_async_result c = None"
      using assms(1) by (auto simp: connection_ok_def flags_ok_def)
    then have d: "connection_ok u 0 ?d" "operations ?d = operations c + {#res#}"
      using assms(1,4) by (auto simp: connection_ok_defs operations_def)
    have "proceeds u 0 ?d (conn_tls_handshake env ?d)" by (rule tls_handshake_proceeds [OF d(1)]) simp_all
    then have "lands u (operations c + {#res#}) (conn_tls_handshake env ?d)" using proceeds_lands d(2) by metis
    moreover have "lands u (operations c + {#res#}) (Some ?d)"
      using d open_conn by (intro lands_Some) (simp_all add: freed_ok_def)
    ultimately show ?thesis using True open_conn by (simp add: conn_starttls_def Let_def)
  next
    case False
    then show ?thesis using fail by (auto simp: conn_starttls_def Let_def)
  qed
qed

section \<open>Histories of a connection\<close>

definition conn_inv :: "conn_world \<Rightarrow> bool" where
  "conn_inv w \<longleftrightarrow> connection_ok (cw_users w) 0 (cw_conn w) \<and> freed_ok (cw_conn w) \<and> operations (cw_conn w) = mset (cw_started w)"

lemma freed_is_left_alone:
  assumes "conn_inv w" "cn_refs (cw_conn w) = 0"
  shows "\<not> conn_enabled e w"
  using assms by (cases e) (auto simp: conn_inv_def connection_ok_def refs_ok_def freed_ok_def)

lemma field_update_lands:
  assumes "connection_ok u 0 c" "freed_ok c"
  shows "lands u (operations c) (Some (c\<lparr>cn_read_pending := b\<rparr>))" "lands u (operations c) (Some (c\<lparr>cn_close_locked := b\<rparr>))"
    "0 < u \<Longrightarrow> lands u (operations c) (Some (c\<lparr>cn_pending := b\<rparr>))"
    "cn_refs c \<noteq> 0 \<Longrightarrow> lands u (operations c) (Some (conn_flush_and_shutdown c))"
    "cn_refs c \<noteq> 0 \<Longrightarrow> lands (u + 1) (operations c) (Some (c\<lparr>cn_refs := cn_refs c + 1\<rparr>))"
proof -
  have "connection_ok u 0 (c\<lparr>cn_read_pending := b\<rparr>)" "connection_ok u 0 (c\<lparr>cn_close_locked := b\<rparr>)"
    "0 < u \<Longrightarrow> connection_ok u 0 (c\<lparr>cn_pending := b\<rparr>)" "connection_ok u 0 (conn_flush_and_shutdown c)"
    "connection_ok (u + 1) 0 (c\<lparr>cn_refs := cn_refs c + 1\<rparr>)"
    using assms(1) by (simp_all add: connection_ok_defs conn_flush_and_shutdown_def)
  moreover have "freed_ok (c\<lparr>cn_read_pending := b\<rparr>)" "freed_ok (c\<lparr>cn_close_locked := b\<rparr>)" "freed_ok (c\<lparr>cn_pending := b\<rparr>)"
    "cn_refs c \<noteq> 0 \<Longrightarrow> freed_ok (conn_flush_and_shutdown c)" "cn_refs c \<noteq> 0 \<Longrightarrow> freed_ok (c\<lparr>cn_refs := cn_refs c + 1\<rparr>)"
    using assms(2) by (simp_all add: freed_ok_def conn_flush_and_shutdown_def)
  moreover have "operations (c\<lparr>cn_read_pending := b\<rparr>) = operations c" "operations (c\<lparr>cn_close_locked := b\<rparr>) = operations c"
    "operations (c\<lparr>cn_pending := b\<rparr>) = operations c" "operations (conn_flush_and_shutdown c) = operations c"
    "operations (c\<lparr>cn_refs := cn_refs c + 1\<rparr>) = operations c"
    by (simp_all add: operations_def conn_flush_and_shutdown_def)
  ultimately show "lands u (operations c) (Some (c\<lparr>cn_read_pending := b\<rparr>))" "lands u (operations c) (Some (c\<lparr>cn_close_locked := b\<rparr>))"
    "0 < u \<Longrightarrow> lands u (operations c) (Some (c\<lparr>cn_pending := b\<rparr>))"
    "cn_refs c \<noteq> 0 \<Longrightarrow> lands u (operations c) (Some (conn_flush_and_shutdown c))"
    "cn_refs c \<noteq> 0 \<Longrightarrow> lands (u + 1) (operations c) (Some (c\<lparr>cn_refs := cn_refs c + 1\<rparr>))"
    by (simp_all add: lands_Some)
qed

lemma close_in_idle_lands:
  assumes "connection_ok u 0 c" "cn_streams c" "cn_refs c \<noteq> 0"
  shows "lands u (operations c) (Some (conn_close_in_idle c))"
  using close_in_idle_ok [OF assms(1,2)] assms(2,3)
  by (intro lands_Some) (auto simp: operations_def freed_ok_def conn_close_in_idle_def conn_add_source_def Let_def)

lemma unlock_lands:
  assumes "connection_ok u 0 c" "freed_ok c" "cn_refs c \<noteq> 0"
  shows "lands u (operations c) (Some (conn_unlock_close c))"
proof -
  let ?c = "c\<lparr>cn_close_locked := False\<rparr>"
  have "connection_ok u 0 ?c" "cn_delayed_close c \<Longrightarrow> cn_streams c" using assms(1) by (auto simp: connection_ok_defs)
  then have "cn_delayed_close c \<Longrightarrow> lands u (operations ?c) (Some (conn_close_in_idle ?c))"
    using assms(3) by (intro close_in_idle_lands) auto
  moreover have "operations ?c = operations c" by (simp add: operations_def)
  ultimately show ?thesis using field_update_lands(2) [OF assms(1,2), of False] by (simp add: conn_unlock_close_def Let_def)
qed

lemma status_changed_lands:
  assumes "connection_ok u 0 c" "freed_ok c" "cn_refs c \<noteq> 0" "cn_watching c"
  shows "lands u (operations c) (Some (conn_socket_on_status_changed b c))"
proof -
  have open_conn: "cn_streams c" "\<not> cn_closed c" using assms(1,4) by (auto simp: connection_ok_def flags_ok_def)
  have "lands u (operations c) (Some (c\<lparr>cn_connected := True, cn_auto_flush := True\<rparr>))"
    using assms open_conn by (auto intro!: lands_Some simp: connection_ok_defs operations_def freed_ok_def)
  moreover have "lands u (operations c) (Some c)" using assms(1,2) by (simp add: lands_Some)
  ultimately show ?thesis
    using close_in_idle_lands [OF assms(1) open_conn(1) assms(3)] by (simp add: conn_socket_on_status_changed_def)
qed

lemma close_lands:
  assumes "connection_ok u 0 c" "freed_ok c" "cn_streams c" "cn_refs c \<noteq> 0" "0 < u"
  shows "lands u (operations c) (Some (conn_stream_close c))"
proof -
  note s = stream_close_ok [OF assms(1)]
  have "cn_refs (conn_stream_close c) \<noteq> 0" using s(1) assms(5) by (simp add: connection_ok_def refs_ok_def)
  then show ?thesis using s(1,2,5) assms(3) by (intro lands_Some) (simp_all add: freed_ok_def)
qed

lemma signal_lands:
  assumes "connection_ok u 0 c" "cn_streams c" "cn_refs c \<noteq> 0"
  shows "lands u (operations c) (Some (on_stream_signal sig c))"
  using stream_signal_ok [OF assms(1,2), of sig] same_tls_operations [of c "on_stream_signal sig c"] assms(2,3)
  by (intro lands_Some) (auto simp: freed_ok_def same_tls_def)

lemma user_unref_lands:
  assumes "connection_ok u 0 c" "freed_ok c" "cn_refs c \<noteq> 0" "0 < u" "\<not> cn_pending c"
  shows "lands (u - 1) (operations c) (Some (conn_unref c))"
proof (rule unref_lands)
  show "connection_ok (u - 1) (Suc 0) c" using assms(1,4,5) by (auto simp: connection_ok_def refs_ok_def)
  show "cn_closed c \<longrightarrow> cn_streams c" using assms(2,3) by (simp add: freed_ok_def)
qed

lemma complete_idle_lands:
  assumes "connection_ok u 0 c" "freed_ok c" "cn_idle c = r # rs"
  shows "lands u (operations c) (Some (conn_unref (c\<lparr>cn_idle := rs, cn_completed := cn_completed c @ [r]\<rparr>)))"
proof -
  let ?c = "c\<lparr>cn_idle := rs, cn_completed := cn_completed c @ [r]\<rparr>"
  have "connection_ok u (Suc 0) ?c" using assms(1,3) by (auto simp: connection_ok_defs)
  moreover have "cn_closed ?c \<longrightarrow> cn_streams ?c" using assms by (auto simp: freed_ok_def connection_ok_def refs_ok_def)
  moreover have "operations ?c = operations c" using assms(3) by (simp add: operations_def)
  ultimately show ?thesis using unref_lands [of u ?c] by simp
qed

lemma flush_done_lands:
  assumes "connection_ok u 0 c" "freed_ok c" "cn_shutdowns c > 0"
  shows "lands u (operations c) (Some (conn_shutdown_on_flush c))"
proof -
  let ?c = "c\<lparr>cn_shutdowns := cn_shutdowns c - 1\<rparr>"
  have "connection_ok u (Suc 0) ?c" using assms(1,3) by (auto simp: connection_ok_defs)
  moreover have "cn_closed ?c \<longrightarrow> cn_streams ?c" using assms by (auto simp: freed_ok_def connection_ok_def refs_ok_def)
  moreover have "operations ?c = operations c" by (simp add: operations_def)
  ultimately show ?thesis using unref_lands [of u ?c] by (simp add: conn_shutdown_on_flush_def)
qed

lemma step_lands:
  assumes "conn_inv w" "conn_enabled e w" "cn_refs (cw_conn w) \<noteq> 0" "\<not> second_socket e w"
  shows "lands (count_users e (cw_users w)) (mset (count_started e (cw_started w))) (conn_step env e (cw_conn w))"
proof -
  let ?c = "cw_conn w"
  have c: "connection_ok (cw_users w) 0 ?c" "freed_ok ?c" and o: "mset (cw_started w) = operations ?c"
    using assms(1) by (simp_all add: conn_inv_def)
  note ff = field_update_lands [OF c]
  show ?thesis
  proof (cases e)
    case (Set_socket socket)
    then show ?thesis using set_socket_lands [OF c assms(3), of socket env] assms(2,4) o by (auto simp: second_socket_def)
  next
    case (Start_tls client res)
    then show ?thesis using starttls_lands [OF c assms(3), of res env client] assms(2) o by simp
  next
    case Conn_close
    then show ?thesis using close_lands [OF c] assms(2,3) o by simp
  next
    case Unlock_close
    then show ?thesis using unlock_lands [OF c assms(3)] o by simp
  next
    case Unref
    then show ?thesis using user_unref_lands [OF c assms(3)] assms(2) o by simp
  next
    case (Condition condition)
    moreover have "cn_streams ?c" using c(1) assms(2) Condition by (auto simp: connection_ok_def flags_ok_def)
    ultimately show ?thesis
      using proceeds_lands [OF on_condition_proceeds [OF c(1) _ assms(3), of env condition]] o by simp
  next
    case (Status_changed now_connected)
    then show ?thesis using status_changed_lands [OF c assms(3), of now_connected] assms(2) o by simp
  next
    case (Signal sig)
    then show ?thesis using signal_lands [OF c(1) _ assms(3), of sig] assms(2) o by simp
  next
    case (Fire src)
    then show ?thesis using fire_lands [OF c, of src env] assms(2) o by (simp del: conn_step.simps)
  next
    case Complete_idle
    then obtain r rs where "cn_idle ?c = r # rs" using assms(2) by (cases "cn_idle ?c") auto
    then show ?thesis using complete_idle_lands [OF c, of r rs] Complete_idle o by simp
  next
    case Flush_done
    then show ?thesis using flush_done_lands [OF c] assms(2) o by simp
  qed (use ff assms(2,3) o in \<open>simp_all add: conn_lock_close_def\<close>)
qed

lemma conn_try_keeps:
  "conn_inv w \<Longrightarrow> \<not> second_socket (snd e) w \<Longrightarrow> \<exists>w'. conn_try w e = Some w' \<and> conn_inv w'"
  using step_lands [of w "snd e" "fst e"] freed_is_left_alone [of w "snd e"]
  by (auto simp: conn_try_def lands_def conn_inv_def)

text \<open>The second socket is the one thing that the connection does not survive.\<close>

lemma address_used_after_free:
  assumes "cn_socket c \<noteq> Some socket" "cn_remote_addr_st c \<noteq> None"
  shows "conn_set_socket env socket c = None"
proof -
  let ?c = "c\<lparr>cn_socket := Some socket, cn_watching := True\<rparr>"
  define d where "d = (if \<not> cn_streams ?c then conn_setup_streams env ?c
                 else if cn_closed ?c then (conn_setup_streams env (conn_teardown_streams ?c))\<lparr>cn_closed := False\<rparr>
                 else ?c)"
  have d: "cn_remote_addr_st d \<noteq> None"
    using assms(2) by (auto simp: d_def conn_setup_streams_def conn_teardown_streams_def)
  have "conn_set_socket env socket c = (if cn_tls_active c then None
      else conn_socket_on_condition env (ce_socket_cond env) d \<bind> (\<lambda>c. used c \<bind> (\<lambda>c.
        if cn_remote_addr_st c \<noteq> None then None
        else Some (c\<lparr>cn_remote_addr_st := conn_get_remote_address_as_string env c\<rparr>))))"
    unfolding d_def conn_set_socket_def Let_def using assms(1) by simp
  moreover have "cn_remote_addr_st e \<noteq> None" if "conn_socket_on_condition env (ce_socket_cond env) d = Some e" for e
    using remote_on_condition [OF that] d by simp
  ultimately show ?thesis
    by (cases "conn_socket_on_condition env (ce_socket_cond env) d") (auto simp: used_def)
qed

lemma second_socket_crashes:
  assumes "second_socket (snd e) w"
  shows "conn_try w e = None"
proof -
  obtain socket where e: "snd e = Set_socket socket" "0 < cw_users w" "cn_socket (cw_conn w) \<noteq> Some socket"
    "cn_tls_active (cw_conn w) \<or> cn_remote_addr_st (cw_conn w) \<noteq> None"
    using assms by (auto simp: second_socket_def split: connection_event.splits)
  then have "conn_set_socket (fst e) socket (cw_conn w) = None"
    using address_used_after_free [OF e(3), of "fst e"] by (auto simp: conn_set_socket_def)
  with e(1,2) show ?thesis by (simp add: conn_try_def)
qed

lemma conn_try_result: "conn_inv w \<Longrightarrow> conn_try w e = None \<longleftrightarrow> second_socket (snd e) w"
  using conn_try_keeps [of w e] second_socket_crashes [of e w] by (cases "second_socket (snd e) w") auto

lemma new_connection_inv: "conn_inv new_connection"
  by (simp add: conn_inv_def new_connection_def conn_init_def connection_ok_defs freed_ok_def operations_def) auto

text \<open>A machine that goes on as long as a connection does not get such a socket.\<close>

interpretation conn: invariant_machine "\<lambda>w e. if second_socket (snd e) w then Some w else conn_try w e" conn_inv "\<lambda>_. True"
  by unfold_locales (use conn_try_keeps in auto)

lemma conn_run_inv: "conn_inv w \<Longrightarrow> run_ops conn_try w es = Some w' \<Longrightarrow> conn_inv w'"
proof (induction es arbitrary: w)
  case (Cons e es)
  then obtain w1 where w1: "conn_try w e = Some w1" "run_ops conn_try w1 es = Some w'" by (auto split: option.splits)
  then have "\<not> second_socket (snd e) w" using second_socket_crashes by fastforce
  with conn.step_defined [OF Cons.prems(1), of e] w1 Cons.IH show ?case by simp
qed simp

lemma conn_reachable: "run_ops conn_try new_connection es = Some w \<Longrightarrow> conn_inv w"
  by (rule conn_run_inv [OF new_connection_inv])

lemma conn_run_crashes:
  "conn_inv w \<Longrightarrow> run_ops conn_try w es = None \<Longrightarrow>
    \<exists>es1 e es2 w'. es = es1 @ e # es2 \<and> run_ops conn_try w es1 = Some w' \<and> second_socket (snd e) w'"
proof (induction es arbitrary: w)
  case (Cons e es)
  show ?case
  proof (cases "conn_try w e")
    case None
    with conn_try_result [OF Cons.prems(1)] have "e # es = [] @ e # es \<and> run_ops conn_try w [] = Some w \<and> second_socket (snd e) w" by simp
    then show ?thesis by blast
  next
    case (Some w1)
    with Cons.prems(1) conn_run_inv [of w "[e]"] have "conn_inv w1" by simp
    moreover have "run_ops conn_try w1 es = None" using Cons.prems(2) Some by simp
    ultimately obtain es1 f es2 w' where "es = es1 @ f # es2" "run_ops conn_try w1 es1 = Some w'" "second_socket (snd f) w'"
      using Cons.IH by blast
    then have "e # es = (e # es1) @ f # es2 \<and> run_ops conn_try w (e # es1) = Some w' \<and> second_socket (snd f) w'" using Some by simp
    then show ?thesis by blast
  qed
qed simp

section \<open>Hang up\<close>












text \<open>A connection to a peer, with a handshake that waits.\<close>

definition demo_conn_env :: conn_env where
  "demo_conn_env = \<lparr>ce_notify_write = [], ce_notify_tls = [], ce_handshake = (G_IO_IN, [], 0), ce_max_writable = 1,
     ce_socket_connected = True, ce_socket_cond = G_IO_OUT, ce_remote_address = Some ''peer''\<rparr>"

definition demo_conn :: "connection_event list \<Rightarrow> conn_world" where
  "demo_conn es = the (run_ops conn_try new_connection (map (Pair demo_conn_env) es))"


text \<open>
  C18. A connection is not used after it is freed, and every operation ends once. Whatever the order of
  what users, the socket, the streams and the main loop do, each of them finds the connection alive, no
  assertion fails and no missing operation is completed, with one exception: the next step fails if, and
  only if, it gives another socket to a connection that has TLS or whose address is known. So the only
  histories that do not go on are those with such a step. After all others the references are those of
  users, of armed sources, of operations and of flushes; and each call of \<open>evd_connection_starttls\<close> has
  been completed once, is about to be, or is the handshake that goes on.
\<close>

theorem connection_references_balanced:
  "case run_ops conn_try new_connection es of
     None \<Rightarrow> \<exists>es1 e es2 w. es = es1 @ e # es2 \<and> run_ops conn_try new_connection es1 = Some w \<and> second_socket (snd e) w
   | Some w \<Rightarrow> (\<forall>e. conn_try w e = None \<longleftrightarrow> second_socket (snd e) w) \<and>
     cn_refs (cw_conn w) = cw_users w + length (cn_sources (cw_conn w)) +
       (if cn_tls_handshaking (cw_conn w) then 1 else 0) + length (cn_idle (cw_conn w)) + cn_shutdowns (cw_conn w) \<and>
     mset (map fst (cn_completed (cw_conn w))) + mset (map fst (cn_idle (cw_conn w))) +
       (case cn_async_result (cw_conn w) of None \<Rightarrow> {#} | Some res \<Rightarrow> {#res#}) = mset (cw_started w)"
proof (cases "run_ops conn_try new_connection es")
  case None
  then show ?thesis using conn_run_crashes [OF new_connection_inv None] by simp
next
  case (Some w)
  then have inv: "conn_inv w" by (rule conn_reachable)
  then have "refs_ok (cw_users w) 0 (cw_conn w)" "operations (cw_conn w) = mset (cw_started w)"
    "cn_tls_handshaking (cw_conn w) \<longleftrightarrow> cn_async_result (cw_conn w) \<noteq> None"
    by (simp_all add: conn_inv_def connection_ok_def flags_ok_def)
  then show ?thesis using Some conn_try_result [OF inv] by (auto simp: refs_ok_def operations_def)
qed

section \<open>The input of a socket is in order\<close>

fun socket_reads :: "((gio_error + nat) \<times> nat) list \<Rightarrow> socket_input \<Rightarrow> socket_input \<times> byte list" where
  "socket_reads [] s = (s, [])"
| "socket_reads ((outcome, len) # rs) s =
     (let (s, r) = evd_socket_input_stream_read outcome len s;
          (s, bytes) = socket_reads rs s
      in (s, (case r of Inl e \<Rightarrow> [] | Inr got \<Rightarrow> got) @ bytes))"

text \<open>What the stream has taken from the socket and not yet given to its reader.\<close>

definition kept_byte :: "socket_input \<Rightarrow> byte list" where
  "kept_byte s = (if si_has_bag s then [si_bag s] else [])"

lemma socket_receive_split:
  "case g_socket_receive outcome len s of
     (s', Inl e) \<Rightarrow> s' = s
   | (s', Inr bytes) \<Rightarrow> s' = s\<lparr>si_incoming := si_incoming s'\<rparr> \<and> bytes @ si_incoming s' = si_incoming s \<and> length bytes \<le> len"
  by (auto simp: g_socket_receive_def Let_def split: sum.splits)

lemma emit_drained_fields [simp]:
  "si_incoming (emit_drained b s) = si_incoming s" "kept_byte (emit_drained b s) = kept_byte s"
  "si_buffer (emit_drained b s) = si_buffer s" "si_initialized (emit_drained b s) = si_initialized s"
  "si_has_bag (emit_drained b s) = si_has_bag s" "si_drained (emit_drained b s) = si_drained s + (if b then 1 else 0)"
  by (simp_all add: emit_drained_def kept_byte_def)

lemma socket_read_in_order:
  assumes "evd_socket_input_stream_read outcome len s = (s', r)"
  shows "(case r of Inl e \<Rightarrow> [] | Inr got \<Rightarrow> got) @ kept_byte s' @ si_incoming s' = kept_byte s @ si_incoming s"
proof -
  let ?asked = "if si_has_bag s then len else len + 1"
  obtain t q where t: "g_socket_receive outcome ?asked s = (t, q)" by (metis surj_pair)
  show ?thesis
  proof (cases q)
    case (Inl e)
    then have "t = s" using t socket_receive_split [where outcome = outcome and len = ?asked and s = s] by simp
    then show ?thesis using assms t Inl
      by (auto simp: evd_socket_input_stream_read_def Let_def kept_byte_def split: if_splits)
  next
    case (Inr bytes)
    then have q: "t = s\<lparr>si_incoming := si_incoming t\<rparr>" "bytes @ si_incoming t = si_incoming s" "length bytes \<le> ?asked"
      using t socket_receive_split [where outcome = outcome and len = ?asked and s = s] by simp_all
    have "\<not> length bytes < ?asked \<Longrightarrow> kept_byte s @ bytes \<noteq> []" using q(3) by (auto simp: kept_byte_def)
    then have b: "\<not> length bytes < ?asked \<Longrightarrow> butlast (kept_byte s @ bytes) @ [last (kept_byte s @ bytes)] = kept_byte s @ bytes" by simp
    have r: "evd_socket_input_stream_read outcome len s =
        (if \<not> si_initialized s then (s, Inl G_IO_ERROR_NOT_INITIALIZED)
         else if length bytes < ?asked
         then (emit_drained True (t\<lparr>si_has_bag := False, si_buffer := kept_byte s @ bytes\<rparr>), Inr (kept_byte s @ bytes))
         else (t\<lparr>si_bag := last (kept_byte s @ bytes), si_has_bag := True, si_buffer := butlast (kept_byte s @ bytes) @ [0]\<rparr>,
               Inr (butlast (kept_byte s @ bytes))))"
      unfolding evd_socket_input_stream_read_def Let_def t Inr kept_byte_def by simp
    show ?thesis
    proof (cases "\<not> si_initialized s \<or> length bytes < ?asked")
      case True
      then show ?thesis using r assms q(2) by (auto simp: kept_byte_def split: if_splits)
    next
      case False
      then have "s' = t\<lparr>si_bag := last (kept_byte s @ bytes), si_has_bag := True, si_buffer := butlast (kept_byte s @ bytes) @ [0]\<rparr>"
        "r = Inr (butlast (kept_byte s @ bytes))" using r assms by (auto split: if_splits)
      then have "kept_byte s' = [last (kept_byte s @ bytes)]" "si_incoming s' = si_incoming t" "r = Inr (butlast (kept_byte s @ bytes))"
        by (simp_all add: kept_byte_def)
      moreover have "butlast (kept_byte s @ bytes) @ [last (kept_byte s @ bytes)] @ si_incoming t = kept_byte s @ si_incoming s"
        unfolding q(2) [symmetric] append_assoc [symmetric] using b False by metis
      ultimately show ?thesis by simp
    qed
  qed
qed

lemma socket_reads_in_order:
  "snd (socket_reads rs s) @ kept_byte (fst (socket_reads rs s)) @ si_incoming (fst (socket_reads rs s)) = kept_byte s @ si_incoming s"
proof (induction rs arbitrary: s)
  case (Cons r rs)
  obtain outcome len where r: "r = (outcome, len)" by (cases r)
  obtain t q where t: "evd_socket_input_stream_read outcome len s = (t, q)" by (metis surj_pair)
  show ?case
    using Cons.IH [of t] socket_read_in_order [OF t] by (simp add: r t split_beta Let_def)
qed simp

text \<open>How much a read gives, and when the socket is said to be drained.\<close>

lemma socket_read_size:
  assumes "evd_socket_input_stream_read outcome len s = (s', Inr got)" "0 < len"
  shows "length got \<le> len"
  using assms
  by (auto simp: evd_socket_input_stream_read_def g_socket_receive_def Let_def split: if_splits sum.splits)

lemma socket_read_drained:
  assumes "evd_socket_input_stream_read (Inr n) len s = (s', Inr got)" "si_drained s' = si_drained s"
  shows "si_has_bag s'"
  using assms
  by (auto simp: evd_socket_input_stream_read_def g_socket_receive_def Let_def emit_drained_def split: if_splits)

text \<open>
  C20. The input of a socket loses nothing and repeats nothing. After any number of reads, those that fail
  included, what a read gives comes right after what earlier reads have given; it is no more than was
  asked for; and either the stream keeps a byte, so that the socket is known not to be drained, or it
  keeps none and says that the socket is drained.
\<close>

theorem socket_input_in_order:
  assumes "socket_reads rs (evd_socket_input_stream_init incoming) = (s, bytes)"
    and "evd_socket_input_stream_read (Inr n) len s = (s', Inr got)" "0 < len"
  shows "bytes @ got @ kept_byte s' @ si_incoming s' = incoming \<and> length got \<le> len \<and>
    (kept_byte s' \<noteq> [] \<and> si_drained s' = si_drained s \<or> kept_byte s' = [] \<and> si_drained s' = si_drained s + 1)"
proof (intro conjI)
  have "kept_byte (evd_socket_input_stream_init incoming) = []" "si_incoming (evd_socket_input_stream_init incoming) = incoming"
    by (simp_all add: evd_socket_input_stream_init_def kept_byte_def)
  then have "bytes @ kept_byte s @ si_incoming s = incoming"
    using socket_reads_in_order [of rs "evd_socket_input_stream_init incoming"] assms(1) by simp
  then show "bytes @ got @ kept_byte s' @ si_incoming s' = incoming" using socket_read_in_order [OF assms(2)] by simp
  show "length got \<le> len" by (rule socket_read_size [OF assms(2,3)])
  show "kept_byte s' \<noteq> [] \<and> si_drained s' = si_drained s \<or> kept_byte s' = [] \<and> si_drained s' = si_drained s + 1"
    using assms(2)
    by (auto simp: evd_socket_input_stream_read_def g_socket_receive_def Let_def kept_byte_def split: if_splits)
qed

theorem socket_input_in_order_witness:
  "\<exists>s' got. evd_socket_input_stream_read (Inr 9) 2 (fst (socket_reads [(Inr 9, 2)] (evd_socket_input_stream_init [1, 2, 3, 4]))) = (s', Inr got) \<and>
    [1, 2] @ got @ kept_byte s' @ si_incoming s' = [1, 2, 3, 4] \<and> length got \<le> 2 \<and> kept_byte s' = []"
proof -
  let ?s = "fst (socket_reads [(Inr 9, 2)] (evd_socket_input_stream_init [1, 2, 3, 4]))"
  let ?r = "evd_socket_input_stream_read (Inr 9) 2 ?s"
  have e: "socket_reads [(Inr 9, 2)] (evd_socket_input_stream_init [1, 2, 3, 4]) = (?s, [1, 2])" "?r = (fst ?r, Inr [3, 4])"
    "kept_byte (fst ?r) = []" by code_simp+
  have "[1, 2] @ [3, 4] @ kept_byte (fst ?r) @ si_incoming (fst ?r) = [1, 2, 3, 4] \<and> length [3 :: byte, 4] \<le> 2"
    using socket_input_in_order [OF e(1,2) zero_less_numeral] by blast
  with e(2,3) show ?thesis by blast
qed

text \<open>The output goes out in order; the socket is said to be filled when it has not taken everything.\<close>

lemma socket_write_in_order:
  assumes "so_initialized s" "evd_socket_output_stream_write (Inr n) bytes s = (s', Inr m)"
  shows "so_sent s' = so_sent s @ take m bytes" "m \<le> length bytes" "so_filled s' = so_filled s \<longleftrightarrow> m = length bytes"
  using assms by (auto simp: evd_socket_output_stream_write_def g_socket_send_def min_def split: if_splits)

section \<open>What the code gets wrong\<close>

text \<open>A read that is filled writes one byte past the end of the buffer of its caller.\<close>

lemma socket_read_overruns:
  assumes "si_initialized s" "n > len" "length (si_incoming s) > len"
  shows "length (si_buffer (fst (evd_socket_input_stream_read (Inr n) len s))) = len + 1"
  using assms by (simp add: evd_socket_input_stream_read_def g_socket_receive_def Let_def)

text \<open>A byte of the old socket is the first one that is read from the new one.\<close>

lemma socket_byte_crosses_over:
  "snd (socket_reads [(Inr 9, 1)] (evd_socket_input_stream_set_socket True [4, 5]
     (fst (socket_reads [(Inr 9, 2)] (evd_socket_input_stream_init [1, 2, 3]))))) = [3]"
  by code_simp

text \<open>A connection with TLS does not get another socket: an assertion fails.\<close>

lemma tls_connection_not_reused: "cn_tls_active c \<Longrightarrow> cn_socket c \<noteq> Some socket \<Longrightarrow> conn_set_socket env socket c = None"
  by (simp add: conn_set_socket_def)

text \<open>The second socket of a connection: the cached address is read after it has been freed.\<close>

lemma second_socket_uses_freed_address:
  "conn_set_socket demo_conn_env 8 (cw_conn (demo_conn [Set_socket 7, Conn_close])) = None"
  by code_simp

text \<open>With an address that is not known a connection is used again; its old life is not over.\<close>

definition demo_reuse :: "connection_event list \<Rightarrow> conn_world" where
  "demo_reuse es = the (run_ops conn_try new_connection (map (Pair (demo_conn_env\<lparr>ce_remote_address := None\<rparr>)) es))"

text \<open>The delayed close of the first socket closes the second one, which nobody has hung up.\<close>

lemma delayed_close_survives:
  "cn_close_src_id (cw_conn (demo_reuse [Set_socket 7, Begin_read, Condition G_IO_HUP, Conn_close, Set_socket 8, Signal Drained])) \<noteq> 0"
  by code_simp

text \<open>
  A source that would have closed the first socket is forgotten, not removed, when the end of a throttle
  closes the connection; it closes the second socket.
\<close>

lemma forgotten_source_closes:
  "cn_sources (cw_conn (demo_reuse [Set_socket 7, Signal Delay_read, Condition G_IO_HUP, Status_changed False, Fire 1])) = [(2, Close_idle)]"
  "\<not> cn_closed (cw_conn (demo_reuse [Set_socket 7, Signal Delay_read, Condition G_IO_HUP, Status_changed False, Fire 1, Set_socket 8]))"
  "cn_closed (cw_conn (demo_reuse [Set_socket 7, Signal Delay_read, Condition G_IO_HUP, Status_changed False, Fire 1, Set_socket 8, Fire 2]))"
  by code_simp+

text \<open>The end of a throttle closes a connection that is locked.\<close>

lemma locked_connection_closed:
  "cn_close_locked (cw_conn (demo_conn [Set_socket 7, Lock_close, Signal Delay_read, Condition G_IO_HUP, Fire 1]))"
  "cn_closed (cw_conn (demo_conn [Set_socket 7, Lock_close, Signal Delay_read, Condition G_IO_HUP, Fire 1]))"
  by code_simp+

end
