(* ===== verification/Http_Head.thy ===== *)
theory Http_Head
  imports Evd_Prelude
begin

text \<open>
  The search for the end of the headers of an HTTP message,
  \<open>evd_http_connection_find_end_headers_mark\<close> of \<open>evd/evd-http-connection.c\<close>: it finds the empty line
  of a well-formed head, ends without it on a part of one, and does not end on some other inputs.
\<close>

section \<open>The end of the headers\<close>

text \<open>
  The characters of a \<open>GString\<close>, which ends with a NUL; behind that there is nothing to be read. The
  search looks at a position, jumps forward if it sees no part of the mark there and backward if it
  does. It need not end: \<^term>\<open>None\<close> stands for an endless search. A position before the string ends it, as
  the comparison with the length is one of unsigned numbers.
\<close>

datatype mark_step = Move int | Found int | Bad_access

definition byte_at :: "byte list \<Rightarrow> int \<Rightarrow> byte option" where
  "byte_at str i =
     (if i < 0 then None
      else if nat i < length str then Some (str ! nat i)
      else if nat i = length str then Some 0
      else None)"

definition is_crlf :: "byte \<Rightarrow> bool" where
  "is_crlf c \<longleftrightarrow> c = 13 \<or> c = 10"

definition mark_step :: "byte list \<Rightarrow> int \<Rightarrow> mark_step" where
  "mark_step str i =
     (case byte_at str i of
        None \<Rightarrow> Bad_access
      | Some a \<Rightarrow>
          if \<not> is_crlf a then Move (i + 4)
          else case byte_at str (i + 1) of
            None \<Rightarrow> Bad_access
          | Some b \<Rightarrow>
              if \<not> is_crlf b then Move (i - 3)
              else case byte_at str (i + 2) of
                None \<Rightarrow> Bad_access
              | Some c \<Rightarrow>
                  if c \<noteq> 13 then Move (i - 1)
                  else case byte_at str (i + 3) of
                    None \<Rightarrow> Bad_access
                  | Some d \<Rightarrow>
                      if d \<noteq> 10 then Move (i - 1)
                      else if a = 13 \<and> b = 10 then Found (i + 4)
                      else Move (i + 4))"

datatype mark_search = Mark int | Crash

partial_function (option) evd_http_connection_find_end_headers_mark :: "byte list \<Rightarrow> int \<Rightarrow> mark_search option" where
  "evd_http_connection_find_end_headers_mark str i =
     (if 0 \<le> i \<and> i < int (length str)
      then (case mark_step str i of
              Move j \<Rightarrow> evd_http_connection_find_end_headers_mark str j
            | Found p \<Rightarrow> Some (Mark p)
            | Bad_access \<Rightarrow> Some Crash)
      else Some (Mark (- 1)))"

declare evd_http_connection_find_end_headers_mark.simps [code]

lemma byte_at_nat: "byte_at str (int k) = (if k < length str then Some (str ! k) else if k = length str then Some 0 else None)"
  by (simp add: byte_at_def)

lemma byte_at_shift:
  "byte_at str (int k + 1) = (if k + 1 < length str then Some (str ! (k + 1)) else if k + 1 = length str then Some 0 else None)"
  "byte_at str (int k + 2) = (if k + 2 < length str then Some (str ! (k + 2)) else if k + 2 = length str then Some 0 else None)"
  "byte_at str (int k + 3) = (if k + 3 < length str then Some (str ! (k + 3)) else if k + 3 = length str then Some 0 else None)"
  by (auto simp: byte_at_def nat_add_distrib)

lemma is_crlf_0 [simp]: "\<not> is_crlf 0"
  by (simp add: is_crlf_def)

text \<open>The search does not read behind the NUL.\<close>

lemma mark_step_in_bounds:
  assumes "k < length str"
  shows "mark_step str (int k) \<noteq> Bad_access"
  using assms by (auto simp: mark_step_def byte_at_nat byte_at_shift is_crlf_def split: if_splits)

lemma find_outside [simp]:
  "int (length str) \<le> i \<Longrightarrow> evd_http_connection_find_end_headers_mark str i = Some (Mark (- 1))"
  by (subst evd_http_connection_find_end_headers_mark.simps) simp

lemma find_move:
  assumes "mark_step str (int k) = Move j" "k < length str"
  shows "evd_http_connection_find_end_headers_mark str (int k) = evd_http_connection_find_end_headers_mark str j"
  using assms by (subst evd_http_connection_find_end_headers_mark.simps) simp

lemma find_found:
  assumes "mark_step str (int k) = Found j" "k < length str"
  shows "evd_http_connection_find_end_headers_mark str (int k) = Some (Mark j)"
  using assms by (subst evd_http_connection_find_end_headers_mark.simps) simp

text \<open>
  A message head: lines of at least two characters, none of them CR or LF, each with CR and LF, and an
  empty line. \<open>head_at t m\<close> says the same of the positions up to the mark at \<open>m\<close>.
\<close>

definition head_line :: "byte list \<Rightarrow> bool" where
  "head_line l \<longleftrightarrow> 2 \<le> length l \<and> list_all (\<lambda>c. \<not> is_crlf c) l"

definition head_text :: "byte list list \<Rightarrow> byte list" where
  "head_text ls = concat (map (\<lambda>l. l @ [13, 10]) ls) @ [13, 10]"

text \<open>The moves of the search, by the characters it sees.\<close>

lemma step_plain: "k < length str \<Longrightarrow> \<not> is_crlf (str ! k) \<Longrightarrow> mark_step str (int k) = Move (int (k + 4))"
  by (simp add: mark_step_def byte_at_nat)

lemma step_back:
  assumes "k < length str" "is_crlf (str ! k)" "k + 1 < length str \<longrightarrow> \<not> is_crlf (str ! (k + 1))" "3 \<le> k"
  shows "mark_step str (int k) = Move (int (k - 3))"
  using assms by (auto simp: mark_step_def byte_at_nat byte_at_shift)

lemma step_one_back:
  assumes "k + 1 < length str" "is_crlf (str ! k)" "is_crlf (str ! (k + 1))" "1 \<le> k"
    and "k + 2 < length str \<and> str ! (k + 2) = 13 \<longrightarrow> k + 3 < length str \<longrightarrow> str ! (k + 3) \<noteq> 10"
  shows "mark_step str (int k) = Move (int (k - 1))"
  using assms by (auto simp: mark_step_def byte_at_nat byte_at_shift)

lemma step_found:
  assumes "k + 3 < length str" "str ! k = 13" "str ! (k + 1) = 10" "str ! (k + 2) = 13" "str ! (k + 3) = 10"
  shows "mark_step str (int k) = Found (int (k + 4))"
  using assms by (simp add: mark_step_def byte_at_nat byte_at_shift is_crlf_def)

lemma find_plain:
  "k < length str \<Longrightarrow> \<not> is_crlf (str ! k) \<Longrightarrow>
     evd_http_connection_find_end_headers_mark str (int k) = evd_http_connection_find_end_headers_mark str (int (k + 4))"
  by (rule find_move [OF step_plain])

lemmas find_back = find_move [OF step_back]
lemmas find_one_back = find_move [OF step_one_back]

lemma head_text_Cons: "head_text (l # ls) = l @ [13, 10] @ head_text ls"
  by (simp add: head_text_def)

lemma head_line_nth: "head_line l \<Longrightarrow> i < length l \<Longrightarrow> \<not> is_crlf (l ! i)"
  by (simp add: head_line_def list_all_iff)

lemma crlf_chars: "\<not> is_crlf c \<Longrightarrow> c \<noteq> 13 \<and> c \<noteq> 10"
  by (simp add: is_crlf_def)

text \<open>The two halves of \<open>head_at\<close>, to be shown position by position.\<close>

definition cr_at :: "byte list \<Rightarrow> nat \<Rightarrow> nat \<Rightarrow> bool" where
  "cr_at t m i \<longleftrightarrow> 2 \<le> i \<and> t ! (i + 1) = 10 \<and> \<not> is_crlf (t ! (i + 2)) \<and>
     \<not> is_crlf (t ! (i - 1)) \<and> \<not> is_crlf (t ! (i - 2)) \<and> i + 2 < m"

definition lf_at :: "byte list \<Rightarrow> nat \<Rightarrow> nat \<Rightarrow> bool" where
  "lf_at t m i \<longleftrightarrow> 3 \<le> i \<and> t ! (i - 1) = 13 \<and> \<not> is_crlf (t ! (i + 1)) \<and>
     \<not> is_crlf (t ! (i - 2)) \<and> \<not> is_crlf (t ! (i - 3)) \<and> i + 1 < m"

definition head_at :: "byte list \<Rightarrow> nat \<Rightarrow> bool" where
  "head_at t m \<longleftrightarrow>
     m + 4 \<le> length t \<and> 2 \<le> m \<and> t ! m = 13 \<and> t ! (m + 1) = 10 \<and> t ! (m + 2) = 13 \<and> t ! (m + 3) = 10 \<and>
     \<not> is_crlf (t ! (m - 1)) \<and> \<not> is_crlf (t ! (m - 2)) \<and>
     (\<forall>i < m. (t ! i = 13 \<longrightarrow> cr_at t m i) \<and> (t ! i = 10 \<longrightarrow> lf_at t m i))"

lemma head_at_first: "head_at t m \<Longrightarrow> \<not> is_crlf (t ! 0)"
  by (force simp: head_at_def cr_at_def lf_at_def is_crlf_def)

lemma head_at_line:
  assumes l: "head_line l" and h: "head_at t m"
  shows "head_at (l @ [13, 10] @ t) (length l + 2 + m)"
proof -
  define T where "T = l @ [13, 10] @ t"
  let ?n = "length l + 2"
  have l2: "2 \<le> length l" using l by (simp add: head_line_def)
  have m: "m + 4 \<le> length t" "2 \<le> m" using h by (auto simp: head_at_def)
  have rest: "T ! (?n + j) = t ! j" for j by (simp add: T_def nth_append)
  have line: "\<not> is_crlf (T ! i)" if "i < length l" for i using head_line_nth [OF l that] that by (simp add: T_def nth_append)
  have sep: "T ! length l = 13" "T ! (length l + 1) = 10" by (simp_all add: T_def nth_append)
  have pos: "(T ! i = 13 \<longrightarrow> cr_at T (?n + m) i) \<and> (T ! i = 10 \<longrightarrow> lf_at T (?n + m) i)" if i: "i < ?n + m" for i
  proof -
    consider "i < length l" | "i = length l" | "i = length l + 1" | j where "i = ?n + j" "j < m"
      using i by (metis add.commute add_2_eq_Suc' add_less_cancel_left le_Suc_ex less_Suc_eq linorder_not_less plus_1_eq_Suc)
    then show ?thesis
    proof cases
      case 1
      then show ?thesis using crlf_chars [OF line [OF 1]] by simp
    next
      case 2
      have "T ! (i + 2) = t ! 0" using rest [of 0] 2 by simp
      then show ?thesis using 2 sep l2 m head_at_first [OF h] line [of "i - 1"] line [of "i - 2"]
        by (simp add: cr_at_def)
    next
      case 3
      have "T ! (i + 1) = t ! 0" using rest [of 0] 3 by simp
      then show ?thesis using 3 sep l2 m head_at_first [OF h] line [of "i - 2"] line [of "i - 3"]
        by (simp add: lf_at_def)
    next
      case 4
      have behind: "T ! (i - d) = t ! (j - d)" if "d \<le> j" for d
      proof -
        have "i - d = ?n + (j - d)" using that 4 by simp
        with rest [of "j - d"] show ?thesis by (simp only:)
      qed
      have ahead: "T ! (i + d) = t ! (j + d)" for d using rest [of "j + d"] 4 by (simp add: add.assoc)
      have "(t ! j = 13 \<longrightarrow> cr_at t m j) \<and> (t ! j = 10 \<longrightarrow> lf_at t m j)" using h 4 by (simp add: head_at_def)
      then show ?thesis using 4 rest [of j] behind [of 1] behind [of 2] behind [of 3] ahead [of 1] ahead [of 2]
        by (cases "2 \<le> j"; cases "3 \<le> j") (simp_all add: cr_at_def lf_at_def)
    qed
  qed
  have "?n + m - 1 = ?n + (m - 1)" "?n + m - 2 = ?n + (m - 2)" using m by simp_all
  then have "T ! (?n + m - 1) = t ! (m - 1)" "T ! (?n + m - 2) = t ! (m - 2)"
    using rest [of "m - 1"] rest [of "m - 2"] by (simp_all only:)
  then show ?thesis
    using h m pos rest [of m] rest [of "m + 1"] rest [of "m + 2"] rest [of "m + 3"]
    unfolding head_at_def T_def [symmetric] by (simp add: add.assoc T_def)
qed

lemma head_at_text:
  assumes "list_all head_line ls" "ls \<noteq> []"
  shows "head_at (head_text ls) (length (head_text ls) - 4)"
  using assms
proof (induction ls)
  case (Cons l ls)
  then have l: "head_line l" "2 \<le> length l" by (auto simp: head_line_def)
  show ?case
  proof (cases "ls = []")
    case True
    have "head_text (l # ls) = l @ [13, 10, 13, 10]" using True by (simp add: head_text_def)
    with l head_line_nth [OF l(1)] show ?thesis
      by (auto simp: head_at_def nth_append is_crlf_def)
  next
    case False
    then have "head_at (head_text ls) (length (head_text ls) - 4)" using Cons by simp
    moreover from this have "4 \<le> length (head_text ls)" by (simp add: head_at_def)
    moreover have "length l + 2 + (length (head_text ls) - 4) = length (head_text (l # ls)) - 4"
      using calculation(2) by (simp add: head_text_Cons)
    ultimately show ?thesis using head_at_line [OF l(1), of "head_text ls" "length (head_text ls) - 4"]
      by (simp only: head_text_Cons)
  qed
qed simp

lemma find_before:
  "i < 0 \<Longrightarrow> evd_http_connection_find_end_headers_mark str i = Some (Mark (- 1))"
  by (subst evd_http_connection_find_end_headers_mark.simps) simp

text \<open>With all of the head in the buffer, the search finds its end from wherever it starts in it.\<close>

lemma find_complete:
  assumes h: "head_at t m" and t: "length t = m + 4" and b: "body = [] \<or> \<not> is_crlf (hd body)" and k: "k \<le> m + 3"
  shows "evd_http_connection_find_end_headers_mark (t @ body) (int k) = Some (Mark (int (m + 4)))"
  using k
proof (induction "m + 4 - k" arbitrary: k rule: less_induct)
  case less
  let ?find = "evd_http_connection_find_end_headers_mark (t @ body)"
  have at: "(t @ body) ! i = t ! i" if "i < m + 4" for i using that t by (simp add: nth_append)
  have mark: "t ! m = 13" "t ! (m + 1) = 10" "t ! (m + 2) = 13" "t ! (m + 3) = 10" "2 \<le> m" using h by (auto simp: head_at_def)
  have nxt: "m + 4 < length (t @ body) \<longrightarrow> \<not> is_crlf ((t @ body) ! (m + 4))"
    using b t by (cases body) (auto simp: nth_append)
  have suc: "t ! Suc (Suc (Suc m)) = 10" "m + 3 = Suc (Suc (Suc m))" "m + 4 = Suc (Suc (Suc (Suc m)))"
    using mark by (simp_all add: numeral_3_eq_3)
  have found: "?find (int m) = Some (Mark (int (m + 4)))"
    using mark t by (intro find_found step_found) (simp_all add: at)
  have "?find (int (m + 1)) = ?find (int (m + 1 - 1))"
    using mark t by (intro find_one_back) (auto simp: at is_crlf_def suc)
  then have one: "?find (int (m + 1)) = ?find (int m)" by simp
  show ?case
  proof (cases "k < m")
    case True
    then have c: "t ! k = 13 \<Longrightarrow> cr_at t m k" "t ! k = 10 \<Longrightarrow> lf_at t m k" using h by (auto simp: head_at_def)
    have ih: "?find (int j) = Some (Mark (int (m + 4)))" if "k < j" "j \<le> m + 3" for j using less that by simp
    consider "\<not> is_crlf (t ! k)" | "t ! k = 13" | "t ! k = 10" by (auto simp: is_crlf_def)
    then show ?thesis
    proof cases
      case 1
      with True t ih [of "k + 4"] show ?thesis by (subst find_plain) (auto simp: at)
    next
      case 2
      note cr = c(1) [OF 2, unfolded cr_at_def]
      have "?find (int k) = ?find (int (k - 1))"
        using cr 2 True t by (intro find_one_back) (auto simp: at is_crlf_def)
      also have "\<dots> = ?find (int (k - 1 + 4))" using cr True t by (intro find_plain) (auto simp: at)
      also have "\<dots> = Some (Mark (int (m + 4)))" using cr True by (intro ih) auto
      finally show ?thesis .
    next
      case 3
      note lf = c(2) [OF 3, unfolded lf_at_def]
      have "?find (int k) = ?find (int (k - 3))"
        using lf 3 True t by (intro find_back) (auto simp: at is_crlf_def)
      also have "\<dots> = ?find (int (k - 3 + 4))" using lf True t by (intro find_plain) (auto simp: at)
      also have "\<dots> = Some (Mark (int (m + 4)))" using lf True by (intro ih) auto
      finally show ?thesis .
    qed
  next
    case False
    with less.prems consider "k = m" | "k = m + 1" | "k = m + 2" | "k = m + 3" by linarith
    then show ?thesis
    proof cases
      case 1
      with found show ?thesis by simp
    next
      case 2
      with found one show ?thesis by simp
    next
      case 3
      have "?find (int (m + 2)) = ?find (int (m + 2 - 1))"
        using mark t nxt by (intro find_one_back) (auto simp: at is_crlf_def suc)
      with 3 found one show ?thesis by simp
    next
      case 4
      have "?find (int (m + 3)) = ?find (int (m + 3 - 3))"
        using mark t nxt by (intro find_back) (auto simp: at is_crlf_def suc)
      with 4 found show ?thesis by simp
    qed
  qed
qed

text \<open>With a part of the head in the buffer, the search ends and finds nothing.\<close>

lemma find_prefix_cr:
  assumes h: "head_at t m" and n: "n = k + 1" "k \<le> m" and c: "t ! k = 13" "2 \<le> k" "\<not> is_crlf (t ! (k - 1))" "\<not> is_crlf (t ! (k - 2))"
  shows "evd_http_connection_find_end_headers_mark (take n t) (int k) = Some (Mark (- 1))"
proof (cases "3 \<le> k")
  case False
  with c have "k = 2" by simp
  moreover have "length (take n t) = n" using h n by (simp add: head_at_def)
  ultimately have "mark_step (take n t) (int k) = Move (- 1)"
    using n c by (simp add: mark_step_def byte_at_def is_crlf_def)
  from find_move [OF this] \<open>length (take n t) = n\<close> n show ?thesis by (simp add: find_before)
next
  case True
  let ?find = "evd_http_connection_find_end_headers_mark (take n t)"
  have len: "length (take n t) = n" using h n by (simp add: head_at_def)
  have at: "take n t ! i = t ! i" if "i < n" for i using that by simp
  have back3: "?find (int k) = ?find (int (k - 3))"
    using c n len True by (intro find_back) (auto simp: is_crlf_def)
  have "(t ! (k - 3) = 13 \<longrightarrow> cr_at t m (k - 3)) \<and> (t ! (k - 3) = 10 \<longrightarrow> lf_at t m (k - 3))"
    using h n True by (simp add: head_at_def)
  moreover have "\<not> cr_at t m (k - 3)"
  proof
    assume "cr_at t m (k - 3)"
    then have "t ! (k - 3 + 1) = 10" by (simp add: cr_at_def)
    moreover have "k - 3 + 1 = k - 2" using True by simp
    ultimately show False using c(4) by (simp add: is_crlf_def)
  qed
  ultimately consider "\<not> is_crlf (t ! (k - 3))" | "t ! (k - 3) = 10" "lf_at t m (k - 3)" by (auto simp: is_crlf_def)
  then show ?thesis
  proof cases
    case 1
    have "?find (int (k - 3)) = ?find (int (k - 3 + 4))" using 1 n len by (intro find_plain) (auto simp: at)
    then show ?thesis using back3 n len True by simp
  next
    case 2
    then have lf: "6 \<le> k" "\<not> is_crlf (t ! (k - 3 - 3))" by (auto simp: lf_at_def)
    have "?find (int (k - 3)) = ?find (int (k - 3 - 3))"
      using 2 lf n len c True by (intro find_back) (auto simp: at is_crlf_def lf_at_def)
    also have "\<dots> = ?find (int (k - 3 - 3 + 4))" using lf n len by (intro find_plain) (auto simp: at)
    also have "k - 3 - 3 + 4 = k - 2" using lf by simp
    also have "?find (int (k - 2)) = ?find (int (k - 2 + 4))" using c n len by (intro find_plain) (auto simp: at)
    also have "\<dots> = Some (Mark (- 1))" using n len lf by simp
    finally show ?thesis using back3 by simp
  qed
qed

lemma find_prefix:
  assumes h: "head_at t m" and n: "n < m + 4"
  shows "evd_http_connection_find_end_headers_mark (take n t) (int k) = Some (Mark (- 1))"
proof (induction "n - k" arbitrary: k rule: less_induct)
  case less
  let ?find = "evd_http_connection_find_end_headers_mark (take n t)"
  have len: "length (take n t) = n" using h n by (simp add: head_at_def)
  have at: "take n t ! i = t ! i" if "i < n" for i using that by simp
  have mark: "t ! m = 13" "t ! (m + 1) = 10" "t ! (m + 2) = 13" "2 \<le> m" "\<not> is_crlf (t ! (m - 1))" "\<not> is_crlf (t ! (m - 2))"
    using h by (auto simp: head_at_def)
  show ?case
  proof (cases "k < n")
    case False
    then show ?thesis using len by simp
  next
    case True
    have ih: "?find (int j) = Some (Mark (- 1))" if "k < j" for j using less that True by simp
    have before_mark: "?find (int (m - 1)) = Some (Mark (- 1))" if "k < m + 3" "m \<le> k"
    proof -
      have "?find (int (m - 1)) = ?find (int (m - 1 + 4))" using mark that True len by (intro find_plain) (auto simp: at)
      also have "\<dots> = Some (Mark (- 1))" using that mark by (intro ih) auto
      finally show ?thesis .
    qed
    consider "k < m" "\<not> is_crlf (t ! k)" | "k \<le> m" "t ! k = 13" "k + 1 = n" | "k < m" "t ! k = 13" "k + 1 < n"
      | "k < m" "t ! k = 10" | "k = m" "m + 1 < n" | "k = m + 1" | "k = m + 2"
    proof -
      have "k < m \<or> k = m \<or> k = m + 1 \<or> k = m + 2" "k + 1 = n \<or> k + 1 < n" using True n by linarith+
      then show ?thesis using that mark(1) unfolding is_crlf_def by (cases "t ! k = 13"; cases "t ! k = 10") auto
    qed
    then show ?thesis
    proof cases
      case 1
      then have "?find (int k) = ?find (int (k + 4))" using True len by (intro find_plain) (auto simp: at)
      with ih [of "k + 4"] show ?thesis by simp
    next
      case 2
      have "cr_at t m k" if "k < m" using h that 2 by (simp add: head_at_def)
      then have "2 \<le> k" "\<not> is_crlf (t ! (k - 1))" "\<not> is_crlf (t ! (k - 2))"
        using mark 2 by (cases "k = m"; simp add: cr_at_def)+
      with find_prefix_cr [OF h, of n k] 2 show ?thesis by simp
    next
      case 3
      have cr: "cr_at t m k" using h 3 by (simp add: head_at_def)
      have "?find (int k) = ?find (int (k - 1))"
        using cr 3 len by (intro find_one_back) (auto simp: at is_crlf_def cr_at_def)
      also have "\<dots> = ?find (int (k - 1 + 4))" using cr True len by (intro find_plain) (auto simp: at cr_at_def)
      also have "\<dots> = Some (Mark (- 1))" using cr by (intro ih) (auto simp: cr_at_def)
      finally show ?thesis .
    next
      case 4
      have lf: "lf_at t m k" using h 4 by (simp add: head_at_def)
      have "?find (int k) = ?find (int (k - 3))"
        using lf 4 True len by (intro find_back) (auto simp: at is_crlf_def lf_at_def)
      also have "\<dots> = ?find (int (k - 3 + 4))" using lf True len by (intro find_plain) (auto simp: at lf_at_def)
      also have "\<dots> = Some (Mark (- 1))" using lf by (intro ih) (auto simp: lf_at_def)
      finally show ?thesis .
    next
      case 5
      have "?find (int m) = ?find (int (m - 1))"
        using mark 5 n len by (intro find_one_back) (auto simp: at is_crlf_def)
      with 5 before_mark show ?thesis by simp
    next
      case 6
      show ?thesis
      proof (cases "n = m + 2")
        case False
        then have n3: "n = m + 3" using 6 True n by simp
        have "?find (int k) = ?find (int (k - 1))"
          using mark 6 n3 len by (intro find_one_back) (auto simp: at is_crlf_def)
        also have "k - 1 = m" using 6 by simp
        also have "?find (int m) = ?find (int (m - 1))"
          using mark n3 len by (intro find_one_back) (auto simp: at is_crlf_def)
        finally show ?thesis using before_mark 6 by simp
      next
        case n2: True
        have "?find (int k) = ?find (int (k - 3))"
          using mark 6 n2 len by (intro find_back) (auto simp: at is_crlf_def)
        also have "k - 3 = m - 2" using 6 by simp
        also have "?find (int (m - 2)) = ?find (int (m - 2 + 4))" using mark n2 len by (intro find_plain) (auto simp: at)
        also have "\<dots> = Some (Mark (- 1))" using mark 6 by (intro ih) auto
        finally show ?thesis .
      qed
    next
      case 7
      have "?find (int k) = ?find (int (k - 3))"
        using mark 7 True n len by (intro find_back) (auto simp: at is_crlf_def)
      also have "k - 3 = m - 1" using 7 by simp
      finally show ?thesis using before_mark 7 by simp
    qed
  qed
qed

text \<open>A search that stays among positions from which it moves on never ends.\<close>

lemma find_endless:
  assumes "\<And>i. i \<in> S \<Longrightarrow> 0 \<le> i \<and> i < int (length str) \<and> (\<exists>j \<in> S. mark_step str i = Move j)" "i \<in> S"
  shows "evd_http_connection_find_end_headers_mark str i = None"
proof -
  have "\<not> (str' = str \<and> i' \<in> S)" if "evd_http_connection_find_end_headers_mark str' i' = Some r" for str' i' r
  proof (rule evd_http_connection_find_end_headers_mark.raw_induct
      [where P = "\<lambda>s k q. \<not> (s = str \<and> k \<in> S)", OF _ that])
    fix search s k q
    assume ih: "\<And>s k q. search s k = Some q \<Longrightarrow> \<not> (s = str \<and> k \<in> S)"
      and step: "(if 0 \<le> k \<and> k < int (length s)
        then (case mark_step s k of Move j \<Rightarrow> search s j | Found p \<Rightarrow> Some (Mark p) | Bad_access \<Rightarrow> Some Crash)
        else Some (Mark (- 1))) = Some q"
    show "\<not> (s = str \<and> k \<in> S)"
    proof
      assume a: "s = str \<and> k \<in> S"
      with assms(1) [of k] obtain j where "j \<in> S" "mark_step str k = Move j" "0 \<le> k \<and> k < int (length str)" by auto
      with step a have "search str j = Some q" by simp
      with ih [of str j q] \<open>j \<in> S\<close> show False by simp
    qed
  qed
  with assms(2) show ?thesis by (cases "evd_http_connection_find_end_headers_mark str i") auto
qed

section \<open>Properties\<close>

text \<open>
  C29. The search for the end of the headers finds the empty line of a well-formed head from wherever
  it starts in it, provided the content does not begin with CR or LF; on a part of a head, however it
  is cut, it ends and says that there is no empty line.
\<close>

theorem http_header_end_found:
  assumes "list_all head_line ls" and "ls \<noteq> []" and "body = [] \<or> \<not> is_crlf (hd body)" and "k < length (head_text ls)"
  shows "evd_http_connection_find_end_headers_mark (head_text ls @ body) (int k) = Some (Mark (int (length (head_text ls)))) \<and>
    evd_http_connection_find_end_headers_mark (take (min n (length (head_text ls) - 1)) (head_text ls)) (int j) = Some (Mark (- 1))"
proof -
  have h: "head_at (head_text ls) (length (head_text ls) - 4)" by (rule head_at_text [OF assms(1,2)])
  then have len: "4 \<le> length (head_text ls)" by (simp add: head_at_def)
  then show ?thesis
    using find_complete [OF h _ assms(3), of k] find_prefix [OF h, of "min n (length (head_text ls) - 1)" j] assms(4)
    by simp
qed

definition demo_head :: "byte list list" where
  "demo_head = [ascii ''GET / HTTP/1.1'', ascii ''Host: a'']"

theorem http_header_end_found_witness:
  "evd_http_connection_find_end_headers_mark (head_text demo_head @ ascii ''{}'') 12 = Some (Mark 27) \<and>
   evd_http_connection_find_end_headers_mark (take 24 (head_text demo_head)) 21 = Some (Mark (- 1))"
proof -
  have "list_all head_line demo_head" "demo_head \<noteq> []" "ascii ''{}'' = [] \<or> \<not> is_crlf (hd (ascii ''{}''))"
    "12 < length (head_text demo_head)" "length (head_text demo_head) = 27" by code_simp+
  from http_header_end_found [OF this(1-4), of 24 21] this(5) show ?thesis by simp
qed

text \<open>
  Five LF behind another character, not followed by CR, make the search go round for ever: any
  client can hang the program.
\<close>

theorem http_header_search_endless:
  assumes "\<not> is_crlf c" and "rest = [] \<or> hd rest \<noteq> 13"
  shows "evd_http_connection_find_end_headers_mark (pre @ [c] @ replicate 5 10 @ rest) (int (length pre)) = None"
proof -
  define str where "str = pre @ [c] @ replicate 5 10 @ rest"
  define p where "p = length pre"
  have len: "p + 6 \<le> length str" by (simp add: str_def p_def)
  have c: "str ! p = c" by (simp add: str_def p_def)
  have lf: "str ! (p + j) = 10" if "1 \<le> j" "j \<le> 5" for j
  proof -
    have "j - 1 < 5" using that by simp
    with that show ?thesis by (simp add: str_def p_def nth_append nth_Cons')
  qed
  have after: "str ! (p + 6) \<noteq> 13" if "p + 6 < length str"
    using assms(2) that by (cases rest) (simp_all add: str_def p_def nth_append nth_Cons')
  have one: "mark_step str (int (p + i)) = Move (int (p + i - 1))" if i: "1 \<le> i" "i \<le> 4" for i
  proof (rule step_one_back)
    show "p + i + 1 < length str" "1 \<le> p + i" using len i by simp_all
    show "is_crlf (str ! (p + i))" "is_crlf (str ! (p + i + 1))"
      using lf [of i] lf [of "i + 1"] i by (simp_all add: is_crlf_def)
    have "p + i + 2 < length str \<Longrightarrow> str ! (p + i + 2) \<noteq> 13"
      using lf [of "i + 2"] after i by (cases "i = 4") (simp_all add: add.assoc add.commute [of 6])
    then show "p + i + 2 < length str \<and> str ! (p + i + 2) = 13 \<longrightarrow> p + i + 3 < length str \<longrightarrow> str ! (p + i + 3) \<noteq> 10"
      by blast
  qed
  have zero: "mark_step str (int p) = Move (int (p + 4))" using c assms(1) len by (intro step_plain) simp_all
  have "evd_http_connection_find_end_headers_mark str (int p) = None"
  proof (rule find_endless [where S = "int ` {p..p + 4}"])
    fix k assume "k \<in> int ` {p..p + 4}"
    then obtain q where q: "k = int q" "p \<le> q" "q \<le> p + 4" by auto
    define i where "i = q - p"
    have i: "k = int (p + i)" "i \<le> 4" using q by (auto simp: i_def)
    have "\<exists>j \<in> int ` {p..p + 4}. mark_step str k = Move j"
    proof (cases "i = 0")
      case True
      have "mark_step str k = Move (int (p + 4))" using zero i True by simp
      moreover have "int (p + 4) \<in> int ` {p..p + 4}" by (intro imageI) simp
      ultimately show ?thesis by blast
    next
      case False
      have "mark_step str k = Move (int (p + i - 1))" using one [of i] i False by simp
      moreover have "int (p + i - 1) \<in> int ` {p..p + 4}" using i False by (intro imageI) auto
      ultimately show ?thesis by blast
    qed
    with i len show "0 \<le> k \<and> k < int (length str) \<and> (\<exists>j \<in> int ` {p..p + 4}. mark_step str k = Move j)" by simp
  qed simp
  then show ?thesis by (simp add: str_def p_def)
qed

text \<open>A request line and five LF, as the reader searches it.\<close>

theorem http_header_search_endless_witness:
  "evd_http_connection_find_end_headers_mark (ascii ''GET / HTTP/1.1'' @ replicate 5 10) 13 = None"
proof -
  have "ascii ''GET / HTTP/1.1'' = ascii ''GET / HTTP/1.'' @ [49]" "length (ascii ''GET / HTTP/1.'') = 13" "\<not> is_crlf 49"
    by code_simp+
  with http_header_search_endless [of 49 "[]" "ascii ''GET / HTTP/1.''"] show ?thesis by simp
qed

text \<open>The reader begins its search at 12, from where it gets there with the next step.\<close>

lemma http_request_line_hangs:
  "evd_http_connection_find_end_headers_mark (ascii ''GET / HTTP/1.1'' @ replicate 5 10) 12 = None"
proof (rule find_endless [where S = "{12, 13, 14, 15, 16, 17}"])
  have steps: "list_all (\<lambda>(i, j). mark_step (ascii ''GET / HTTP/1.1'' @ replicate 5 10) i = Move j)
      [(12, 16), (13, 17), (14, 13), (15, 14), (16, 15), (17, 16)]"
    by code_simp
  have len: "length (ascii ''GET / HTTP/1.1'' @ replicate 5 10) = 19" by code_simp
  fix i :: int
  assume "i \<in> {12, 13, 14, 15, 16, 17}"
  with steps len show "0 \<le> i \<and> i < int (length (ascii ''GET / HTTP/1.1'' @ replicate 5 10)) \<and>
      (\<exists>j \<in> {12, 13, 14, 15, 16, 17}. mark_step (ascii ''GET / HTTP/1.1'' @ replicate 5 10) i = Move j)"
    by auto
qed simp

text \<open>Content that begins with CR and LF loses them, when the search comes upon the mark at its third byte.\<close>

lemma http_content_loses_crlf:
  "evd_http_connection_find_end_headers_mark (head_text [ascii ''GET / HTTP/1.1'', ascii ''Host:a''] @ [13, 10]) 12 =
     Some (Mark 28) \<and> length (head_text [ascii ''GET / HTTP/1.1'', ascii ''Host:a'']) = 26"
  by code_simp

end
