(* ===== verification/Http_Reader.thy ===== *)
theory Http_Reader
  imports Http_Head Http_Writer Buffered_Input
begin

text \<open>
  Reading messages, \<open>evd/evd-http-connection.c\<close>, from the buffered input stream. Headers are read block
  by block until the search finds their end, and what was read beyond is put back to the stream;
  content is read by its length, by chunks or to the end of the stream. What libsoup makes of headers
  is a parameter. An operation has a number, its \<open>GSimpleAsyncResult\<close>, and an outcome.
\<close>

section \<open>State\<close>

definition HEADER_BLOCK_SIZE :: nat where "HEADER_BLOCK_SIZE = 256"

definition MAX_HEADERS_SIZE :: nat where "MAX_HEADERS_SIZE = 16 * 1024"

definition CONTENT_BLOCK_SIZE :: nat where "CONTENT_BLOCK_SIZE = 4096"

text \<open>
  What libsoup says of a head (without its last two bytes): the headers, the method, the path and the
  version of a request; the headers, the version, the status and the reason of a response.
\<close>

record 'h soup =
  soup_headers_parse_request :: "byte list \<Rightarrow> ('h \<times> string option \<times> string \<times> nat) option"
  soup_headers_parse_response :: "byte list \<Rightarrow> ('h \<times> nat \<times> nat \<times> string) option"
  soup_message_headers_get_encoding :: "'h \<Rightarrow> SoupEncoding"
  soup_message_headers_get_content_length :: "'h \<Rightarrow> nat"
  soup_message_headers_get_one :: "'h \<Rightarrow> string \<Rightarrow> string option"

record 'h http_request =
  rq_version :: nat
  rq_headers :: 'h
  rq_method :: string
  rq_uri :: string

definition SOUP_HTTP_1_0 :: nat where "SOUP_HTTP_1_0 = 0"

definition SOUP_HTTP_1_1 :: nat where "SOUP_HTTP_1_1 = 1"

text \<open>The operations (the source tags) and their outcomes.\<close>

datatype read_op = Read_request | Read_response | Read_content | Read_all

datatype 'h http_outcome =
    Request_read "'h http_request"
  | Response_read 'h nat nat string
  | Content_read nat bool
  | Done
  | Failed gio_error

text \<open>
  Where the block that is being read goes: to a position of the buffer, to the block for chunked
  content, or to the buffer of the caller. \<open>hi_headers\<close> says that the callback of the read is the one
  for headers. \<open>hi_idle\<close> are operations that the main loop will complete, \<open>hi_completed\<close> those that are.
\<close>

datatype block_target = Into_buf nat | Into_block | Into_user

record 'h http_in =
  hi_async_result :: "(nat \<times> read_op) option"
  hi_buf :: "byte list"
  hi_last_buf_block :: "byte list option"
  hi_last_headers_pos :: int
  hi_encoding :: SoupEncoding
  hi_content_len :: nat
  hi_content_read :: nat
  hi_current_request :: "'h http_request option"
  hi_keepalive :: bool
  hi_chunked_decoder :: chunked_decoder
  hi_pending :: bool
  hi_closed :: bool
  hi_connected :: bool
  hi_tls_active :: bool
  hi_stream :: buffered_input
  hi_target :: block_target
  hi_headers :: bool
  hi_user_buf :: "byte list"
  hi_idle :: "(nat \<times> 'h http_outcome) list"
  hi_completed :: "(nat \<times> 'h http_outcome) list"

definition evd_http_connection_init :: "buffered_input \<Rightarrow> 'h http_in" where
  "evd_http_connection_init s =
     \<lparr>hi_async_result = None, hi_buf = [], hi_last_buf_block = None, hi_last_headers_pos = 0,
      hi_encoding = SOUP_ENCODING_UNRECOGNIZED, hi_content_len = 0, hi_content_read = 0,
      hi_current_request = None, hi_keepalive = False, hi_chunked_decoder = evd_http_chunked_decoder_init,
      hi_pending = False, hi_closed = False, hi_connected = True, hi_tls_active = False, hi_stream = s,
      hi_target = Into_user, hi_headers = False, hi_user_buf = [], hi_idle = [], hi_completed = []\<rparr>"

text \<open>\<open>g_string_set_size\<close>, which leaves new bytes as they are (zero here), and a block that is read.\<close>

definition g_string_set_size :: "nat \<Rightarrow> byte list \<Rightarrow> byte list" where
  "g_string_set_size n buf = take n (buf @ replicate (n - length buf) 0)"

definition store_at :: "nat \<Rightarrow> byte list \<Rightarrow> byte list \<Rightarrow> byte list" where
  "store_at pos data buf = take pos buf @ data @ drop (pos + length data) buf"

section \<open>Completing operations\<close>

definition complete_in_idle :: "nat \<Rightarrow> 'h http_outcome \<Rightarrow> 'h http_in \<Rightarrow> 'h http_in" where
  "complete_in_idle res outcome c = c\<lparr>hi_idle := hi_idle c @ [(res, outcome)]\<rparr>"

definition complete_now :: "nat \<Rightarrow> 'h http_outcome \<Rightarrow> 'h http_in \<Rightarrow> 'h http_in" where
  "complete_now res outcome c = c\<lparr>hi_completed := hi_completed c @ [(res, outcome)]\<rparr>"

text \<open>\<open>g_io_stream_set_pending\<close>: an error, or the stream is pending.\<close>

definition set_pending :: "'h http_in \<Rightarrow> gio_error + 'h http_in" where
  "set_pending c =
     (if hi_closed c then Inl G_IO_ERROR_CLOSED
      else if hi_pending c then Inl G_IO_ERROR_PENDING
      else Inr (c\<lparr>hi_pending := True\<rparr>))"

section \<open>Reading headers\<close>

definition evd_http_connection_build_uri :: "'h soup \<Rightarrow> bool \<Rightarrow> string \<Rightarrow> 'h \<Rightarrow> string" where
  "evd_http_connection_build_uri soup tls_active path headers =
     (if tls_active then ''https'' else ''http'') @ ''://'' @
     (case soup_message_headers_get_one soup headers ''host'' of None \<Rightarrow> [] | Some host \<Rightarrow> host @ path)"

definition contains :: "string \<Rightarrow> string \<Rightarrow> bool" where
  "contains needle st = list_ex (\<lambda>i. take (length needle) (drop i st) = needle) [0..<Suc (length st)]"

definition detect_keepalive :: "nat \<Rightarrow> string option \<Rightarrow> bool" where
  "detect_keepalive version conn_header =
     (case conn_header of
        None \<Rightarrow> False
      | Some st \<Rightarrow> (version = SOUP_HTTP_1_0 \<and> contains ''keep-alive'' st) \<or>
          (version = SOUP_HTTP_1_1 \<and> \<not> contains ''close'' st))"

definition evd_http_connection_on_read_headers :: "'h soup \<Rightarrow> byte list \<Rightarrow> 'h http_in \<Rightarrow> 'h http_in" where
  "evd_http_connection_on_read_headers soup buf c =
     (case hi_async_result c of
        None \<Rightarrow> c
      | Some (res, tag) \<Rightarrow>
          let c = c\<lparr>hi_pending := False, hi_async_result := None\<rparr>;
              head = take (length buf - 2) buf
          in if tag = Read_request then
               (case soup_headers_parse_request soup head of
                  Some (headers, Some method, path, version) \<Rightarrow>
                    if version \<le> SOUP_HTTP_1_1 then
                      let request = \<lparr>rq_version = version, rq_headers = headers, rq_method = method,
                            rq_uri = evd_http_connection_build_uri soup (hi_tls_active c) path headers\<rparr>
                      in complete_in_idle res (Request_read request)
                           (c\<lparr>hi_current_request := Some request,
                              hi_encoding := soup_message_headers_get_encoding soup headers,
                              hi_content_len := soup_message_headers_get_content_length soup headers,
                              hi_keepalive := detect_keepalive version
                                (soup_message_headers_get_one soup headers ''Connection'')\<rparr>)
                    else complete_in_idle res (Failed G_IO_ERROR_INVALID_DATA) c
                | _ \<Rightarrow> complete_in_idle res (Failed G_IO_ERROR_INVALID_DATA) c)
             else if tag = Read_response then
               (case soup_headers_parse_response soup head of
                  Some (headers, version, status, reason) \<Rightarrow>
                    complete_in_idle res (Response_read headers version status reason)
                      (c\<lparr>hi_encoding := soup_message_headers_get_encoding soup headers,
                         hi_content_len := soup_message_headers_get_content_length soup headers\<rparr>)
                | None \<Rightarrow> complete_in_idle res (Failed G_IO_ERROR_INVALID_DATA) c)
             else complete_in_idle res Done c)"

text \<open>The next block, at the end of the buffer, as far as the limit allows.\<close>

definition evd_http_connection_read_headers_block :: "nat \<Rightarrow> 'h http_in \<Rightarrow> 'h http_in" where
  "evd_http_connection_read_headers_block res c =
     (let len = length (hi_buf c);
          new_block_size = min MAX_HEADERS_SIZE (len + HEADER_BLOCK_SIZE) - len
      in if new_block_size = 0 then c
         else c\<lparr>hi_buf := g_string_set_size (len + new_block_size) (hi_buf c),
                hi_stream := evd_buffered_input_stream_read_async (hi_stream c) res new_block_size,
                hi_target := Into_buf len, hi_headers := True\<rparr>)"

definition fail_headers :: "gio_error \<Rightarrow> 'h http_in \<Rightarrow> 'h http_in" where
  "fail_headers e c =
     (case hi_async_result c of
        None \<Rightarrow> c
      | Some (res, tag) \<Rightarrow> complete_in_idle res (Failed e) (c\<lparr>hi_async_result := None\<rparr>))"

text \<open>A block has been read: \<^term>\<open>None\<close> if the search does not end.\<close>

definition evd_http_connection_on_read_headers_block ::
    "'h soup \<Rightarrow> gio_error + nat \<Rightarrow> 'h http_in \<Rightarrow> 'h http_in option" where
  "evd_http_connection_on_read_headers_block soup read_result c =
     (case read_result of
        Inl e \<Rightarrow> Some (fail_headers e c)
      | Inr size' \<Rightarrow>
          let c = (if size' < HEADER_BLOCK_SIZE
                   then c\<lparr>hi_buf := take (length (hi_buf c) - (HEADER_BLOCK_SIZE - size')) (hi_buf c)\<rparr> else c)
          in case evd_http_connection_find_end_headers_mark (hi_buf c) (hi_last_headers_pos c) of
               None \<Rightarrow> None
             | Some Crash \<Rightarrow> None
             | Some (Mark pos) \<Rightarrow>
                 if pos > 0 then
                   let unread_buf = drop (nat pos) (hi_buf c);
                       (stream, r) = evd_buffered_input_stream_unread (hi_stream c) unread_buf;
                       c = (if unread_buf = [] then c else c\<lparr>hi_stream := stream\<rparr>);
                       c = (case r of Inl e \<Rightarrow> c | Inr _ \<Rightarrow> c\<lparr>hi_buf := take (nat pos) (hi_buf c)\<rparr>);
                       c = (evd_http_connection_on_read_headers soup (hi_buf c) c)\<lparr>hi_last_headers_pos := 0, hi_buf := []\<rparr>
                   in Some (case r of Inl e \<Rightarrow> fail_headers e c | Inr _ \<Rightarrow> c)
                 else if length (hi_buf c) < MAX_HEADERS_SIZE then
                   Some (evd_http_connection_read_headers_block
                     (case hi_async_result c of None \<Rightarrow> 0 | Some (res, _) \<Rightarrow> res)
                     (c\<lparr>hi_last_headers_pos := int (length (hi_buf c)) - 3\<rparr>))
                 else Some (fail_headers G_IO_ERROR_INVALID_DATA c))"

definition evd_http_connection_read_headers_async :: "nat \<Rightarrow> read_op \<Rightarrow> 'h http_in \<Rightarrow> 'h http_in" where
  "evd_http_connection_read_headers_async res source_tag c =
     (case set_pending c of
        Inl e \<Rightarrow> complete_in_idle res (Failed e) c
      | Inr c \<Rightarrow>
          evd_http_connection_read_headers_block res
            (c\<lparr>hi_keepalive := False, hi_async_result := Some (res, source_tag), hi_buf := [],
               hi_last_headers_pos := 12\<rparr>))"

definition evd_http_connection_read_request_headers :: "nat \<Rightarrow> 'h http_in \<Rightarrow> 'h http_in" where
  "evd_http_connection_read_request_headers res c = evd_http_connection_read_headers_async res Read_request c"

definition evd_http_connection_read_response_headers :: "nat \<Rightarrow> 'h http_in \<Rightarrow> 'h http_in" where
  "evd_http_connection_read_response_headers res c = evd_http_connection_read_headers_async res Read_response c"

section \<open>Reading content\<close>

definition evd_http_connection_read_content_block :: "nat \<Rightarrow> block_target \<Rightarrow> nat \<Rightarrow> 'h http_in \<Rightarrow> 'h http_in" where
  "evd_http_connection_read_content_block res target size' c =
     c\<lparr>hi_stream := evd_buffered_input_stream_read_async (hi_stream c) res size', hi_target := target, hi_headers := False\<rparr>"

definition evd_http_connection_read_next_content_block :: "nat \<Rightarrow> 'h http_in \<Rightarrow> 'h http_in" where
  "evd_http_connection_read_next_content_block res c =
     (if hi_encoding c = SOUP_ENCODING_CHUNKED then
        evd_http_connection_read_content_block res Into_block CONTENT_BLOCK_SIZE
          (c\<lparr>hi_last_buf_block := (case hi_last_buf_block c of None \<Rightarrow> Some [] | b \<Rightarrow> b)\<rparr>)
      else
        let new_block_size =
              (if hi_encoding c = SOUP_ENCODING_CONTENT_LENGTH
               then min (hi_content_len c - hi_content_read c) CONTENT_BLOCK_SIZE else CONTENT_BLOCK_SIZE);
            c = (if length (hi_buf c) < hi_content_read c + new_block_size
                 then c\<lparr>hi_buf := g_string_set_size (hi_content_read c + new_block_size) (hi_buf c)\<rparr> else c)
        in evd_http_connection_read_content_block res (Into_buf (length (hi_buf c) - new_block_size)) new_block_size c)"

text \<open>
  The block that has been read is processed: whether the content is complete. \<^term>\<open>None\<close> for chunked
  content without its block. (Errors in chunked content are not reported, see \<open>Chunked_Decoder\<close>.)
\<close>

definition process_read_content :: "nat \<Rightarrow> 'h http_in \<Rightarrow> ('h http_in \<times> bool) option" where
  "process_read_content size' c =
     (if hi_encoding c = SOUP_ENCODING_CHUNKED then
        (case hi_last_buf_block c of
           None \<Rightarrow> None
         | Some block \<Rightarrow>
             (case evd_http_connection_process_read_content (hi_chunked_decoder c) (take size' block) of
                None \<Rightarrow> None
              | Some (result, d, content, is_done, err) \<Rightarrow>
                  Some (c\<lparr>hi_chunked_decoder := d, hi_buf := hi_buf c @ content,
                          hi_content_read := hi_content_read c + length content\<rparr>, is_done)))
      else
        let c = c\<lparr>hi_content_read := hi_content_read c + size'\<rparr>
        in Some (c, \<not> hi_connected c \<or>
             (hi_encoding c = SOUP_ENCODING_CONTENT_LENGTH \<and> hi_content_len c \<le> hi_content_read c)))"

definition evd_http_connection_on_read_content_block :: "gio_error + nat \<Rightarrow> 'h http_in \<Rightarrow> 'h http_in option" where
  "evd_http_connection_on_read_content_block read_result c =
     (case hi_async_result c of
        None \<Rightarrow> None
      | Some (res, tag) \<Rightarrow> do {
          (c, is_done, outcome) \<leftarrow> (case read_result of
              Inl e \<Rightarrow> Some (c, True, Failed e)
            | Inr size' \<Rightarrow>
                if size' = 0 then Some (c, True, Done)
                else map_option (\<lambda>(c, is_done). (c, is_done, Done)) (process_read_content size' c));
          let (c, is_done, outcome) =
            (if tag = Read_all then
               (if is_done then (c\<lparr>hi_buf := g_string_set_size (hi_content_read c) (hi_buf c)\<rparr>, True, outcome)
                else (evd_http_connection_read_next_content_block res c, False, outcome))
             else if tag = Read_content then
               (case read_result of
                  Inr size' \<Rightarrow> (c, True, Content_read size' (\<not> is_done))
                | Inl e \<Rightarrow> (c, True, outcome))
             else (c, is_done, outcome));
          Some (if is_done then complete_now res outcome (c\<lparr>hi_async_result := None, hi_pending := False\<rparr>) else c)
        })"

definition evd_http_connection_read_content :: "nat \<Rightarrow> nat \<Rightarrow> 'h http_in \<Rightarrow> 'h http_in" where
  "evd_http_connection_read_content res size' c =
     (case set_pending c of
        Inl e \<Rightarrow> complete_in_idle res (Failed e) c
      | Inr c \<Rightarrow>
          if hi_encoding c = SOUP_ENCODING_CONTENT_LENGTH \<and> hi_content_len c = 0
          then complete_in_idle res (Content_read 0 False) c
          else evd_http_connection_read_content_block res Into_user size' (c\<lparr>hi_async_result := Some (res, Read_content)\<rparr>))"

definition evd_http_connection_read_all_content :: "nat \<Rightarrow> 'h http_in \<Rightarrow> 'h http_in" where
  "evd_http_connection_read_all_content res c =
     (case set_pending c of
        Inl e \<Rightarrow> complete_in_idle res (Failed e) c
      | Inr c \<Rightarrow>
          if hi_encoding c = SOUP_ENCODING_NONE \<or>
             (hi_encoding c = SOUP_ENCODING_CONTENT_LENGTH \<and> hi_content_len c = 0)
          then complete_in_idle res Done c
          else evd_http_connection_read_next_content_block res
                 (c\<lparr>hi_content_read := 0, hi_buf := [], hi_async_result := Some (res, Read_all)\<rparr>))"

definition evd_http_connection_read_all_content_finish :: "'h http_in \<Rightarrow> 'h http_in \<times> byte list \<times> nat" where
  "evd_http_connection_read_all_content_finish c = (c\<lparr>hi_buf := []\<rparr>, hi_buf c, hi_content_read c)"

section \<open>The stream and the main loop\<close>

text \<open>The stream has read a block, to where it was asked to, and calls back.\<close>

definition store_block :: "byte list \<Rightarrow> 'h http_in \<Rightarrow> 'h http_in" where
  "store_block data c =
     (case hi_target c of
        Into_buf pos \<Rightarrow> c\<lparr>hi_buf := store_at pos data (hi_buf c)\<rparr>
      | Into_block \<Rightarrow> c\<lparr>hi_last_buf_block := Some data\<rparr>
      | Into_user \<Rightarrow> c\<lparr>hi_user_buf := data\<rparr>)"

definition on_read_block :: "'h soup \<Rightarrow> gio_error + byte list \<Rightarrow> 'h http_in \<Rightarrow> 'h http_in option" where
  "on_read_block soup r c =
     (let c = (case r of Inl e \<Rightarrow> c | Inr data \<Rightarrow> store_block data c);
          read_result = map_sum (\<lambda>e. e) length r
      in if hi_headers c then evd_http_connection_on_read_headers_block soup read_result c
         else evd_http_connection_on_read_content_block read_result c)"

primrec on_stream_events :: "'h soup \<Rightarrow> bi_event list \<Rightarrow> 'h http_in \<Rightarrow> 'h http_in option" where
  "on_stream_events soup [] c = Some c"
| "on_stream_events soup (e # es) c =
     (case e of Read_complete _ r \<Rightarrow> Option.bind (on_read_block soup r c) (on_stream_events soup es))"

text \<open>The socket has become readable: the connection thaws the stream, which reads in the main loop.\<close>

definition data_arrives :: "'h soup \<Rightarrow> gio_error + nat \<Rightarrow> 'h http_in \<Rightarrow> 'h http_in option" where
  "data_arrives soup avail c =
     (let (stream, es) = do_read (evd_buffered_input_stream_thaw (hi_stream c)) avail
      in on_stream_events soup es (c\<lparr>hi_stream := stream\<rparr>))"

text \<open>The main loop completes what waits.\<close>

definition complete_idle :: "'h http_in \<Rightarrow> 'h http_in" where
  "complete_idle c = c\<lparr>hi_idle := [], hi_completed := hi_completed c @ hi_idle c\<rparr>"

text \<open>
  Closing: the parent class closes the streams, which ends a read that is under way with an error;
  what is still pending then gets an error, too.
\<close>

definition evd_http_connection_close :: "'h soup \<Rightarrow> 'h http_in \<Rightarrow> 'h http_in option" where
  "evd_http_connection_close soup c =
     (let (stream, es) = evd_buffered_input_stream_close (hi_stream c)
      in do {
        c \<leftarrow> on_stream_events soup es (c\<lparr>hi_connected := False, hi_stream := stream\<rparr>);
        let c = (case hi_async_result c of
                   None \<Rightarrow> c
                 | Some (res, tag) \<Rightarrow> complete_now res (Failed G_IO_ERROR_CLOSED) (c\<lparr>hi_async_result := None\<rparr>));
        Some (c\<lparr>hi_closed := True\<rparr>)
      })"

definition evd_http_connection_dispose :: "'h http_in \<Rightarrow> 'h http_in" where
  "evd_http_connection_dispose c =
     (let c = c\<lparr>hi_current_request := None\<rparr>
      in case hi_async_result c of
           None \<Rightarrow> c
         | Some (res, tag) \<Rightarrow> complete_now res (Failed G_IO_ERROR_FAILED) (c\<lparr>hi_async_result := None\<rparr>))"

definition evd_http_connection_set_keepalive :: "bool \<Rightarrow> 'h http_in \<Rightarrow> 'h http_in" where
  "evd_http_connection_set_keepalive keepalive c = c\<lparr>hi_keepalive := keepalive\<rparr>"

definition evd_http_connection_set_current_request :: "'h http_request option \<Rightarrow> 'h http_in \<Rightarrow> 'h http_in" where
  "evd_http_connection_set_current_request request c = c\<lparr>hi_current_request := request\<rparr>"

section \<open>What arrives\<close>

text \<open>
  With \<open>k\<close> bytes there, a read that is under way completes with a piece of the content of the stream,
  of at least \<open>k\<close> bytes unless it asked for less or there are no more.
\<close>

lemma read_bytes:
  assumes "\<not> bi_frozen s" "evd_buffered_input_stream_read s n (Inr k) = (s', r)"
  obtains out where "r = Inr out" "bi_content s = out @ bi_content s'" "length out \<le> n"
    "min (min n k) (length (bi_content s)) \<le> length out"
    "bi_frozen s' = bi_frozen s" "bi_async_result s' = bi_async_result s" "bi_buffer_size s' = bi_buffer_size s"
    "length (bi_buffer s') \<le> length (bi_buffer s)" "bi_requested_size s' = bi_requested_size s"
proof -
  obtain out where out: "r = Inr out"
    using assms by (auto simp: read_eq base_read_def split: if_splits)
  have "min (min n k) (length (bi_content s)) \<le> length out"
    using assms out by (auto simp: read_eq base_read_def bi_content_def split: if_splits)
  moreover have "bi_frozen s' = bi_frozen s" "bi_async_result s' = bi_async_result s" "bi_buffer_size s' = bi_buffer_size s"
    "length (bi_buffer s') \<le> length (bi_buffer s)" "bi_requested_size s' = bi_requested_size s"
    using assms by (auto simp: read_eq base_read_def split: if_splits)
  moreover have "bi_content s = out @ bi_content s'" "length out \<le> n"
    using read_data [of s n "Inr k" s' out] assms(2) out by auto
  ultimately show thesis using that out by blast
qed

lemma arrival:
  assumes "bi_async_result s = Some r"
  obtains s1 out where
    "do_read (evd_buffered_input_stream_thaw s) (Inr k) =
       (if out = [] then (s1, []) else (s1\<lparr>bi_async_result := None\<rparr>, [Read_complete r (Inr out)]))"
    "bi_content s = out @ bi_content s1" "length out \<le> bi_requested_size s"
    "min (min (bi_requested_size s) k) (length (bi_content s)) \<le> length out"
    "\<not> bi_frozen s1" "bi_async_result s1 = Some r" "bi_buffer_size s1 = bi_buffer_size s"
    "length (bi_buffer s1) \<le> length (bi_buffer s)" "bi_requested_size s1 = bi_requested_size s"
proof -
  define s0 where "s0 = evd_buffered_input_stream_thaw s\<lparr>bi_read_src := False\<rparr>"
  have s0: "\<not> bi_frozen s0" "bi_content s0 = bi_content s" "bi_async_result s0 = Some r"
    "bi_buffer_size s0 = bi_buffer_size s" "bi_buffer s0 = bi_buffer s" "bi_requested_size s0 = bi_requested_size s"
    using assms by (auto simp: s0_def evd_buffered_input_stream_thaw_def bi_content_def Let_def)
  obtain s1 res where rd: "evd_buffered_input_stream_read s0 (bi_requested_size s) (Inr k) = (s1, res)" by fastforce
  from s0(1) rd obtain out where out: "res = Inr out" "bi_content s0 = out @ bi_content s1" "length out \<le> bi_requested_size s"
    "min (min (bi_requested_size s) k) (length (bi_content s0)) \<le> length out"
    "bi_frozen s1 = bi_frozen s0" "bi_async_result s1 = bi_async_result s0" "bi_buffer_size s1 = bi_buffer_size s0"
    "length (bi_buffer s1) \<le> length (bi_buffer s0)" "bi_requested_size s1 = bi_requested_size s0"
    by (rule read_bytes)
  have "do_read (evd_buffered_input_stream_thaw s) (Inr k) =
      (if out = [] then (s1, []) else (s1\<lparr>bi_async_result := None\<rparr>, [Read_complete r (Inr out)]))"
    using rd out(1) s0(3,6) by (simp add: do_read_def s0_def [symmetric] Let_def)
  then show thesis using that [of out s1] out s0 by simp
qed

lemma no_arrival:
  assumes "bi_async_result s = None"
  shows "do_read (evd_buffered_input_stream_thaw s) avail =
    (evd_buffered_input_stream_thaw s\<lparr>bi_read_src := False\<rparr>, [])"
  using assms by (simp add: do_read_def evd_buffered_input_stream_thaw_def Let_def)

section \<open>Reading the headers of a message\<close>

text \<open>
  \<open>n\<close> bytes of a text that begins with a head have been read, and the next block is being read.
\<close>

definition reading_head :: "nat \<Rightarrow> read_op \<Rightarrow> byte list \<Rightarrow> nat \<Rightarrow> 'h http_in \<Rightarrow> bool" where
  "reading_head res tag text n c \<longleftrightarrow>
     hi_async_result c = Some (res, tag) \<and> hi_headers c \<and> hi_target c = Into_buf n \<and>
     length (hi_buf c) = n + HEADER_BLOCK_SIZE \<and> take n (hi_buf c) = take n text \<and> n \<le> length text \<and>
     bi_content (hi_stream c) = drop n text \<and> bi_async_result (hi_stream c) = Some res \<and>
     bi_requested_size (hi_stream c) = HEADER_BLOCK_SIZE \<and>
     length (bi_buffer (hi_stream c)) + HEADER_BLOCK_SIZE \<le> bi_buffer_size (hi_stream c) \<and>
     hi_last_headers_pos c = (if n = 0 then 12 else int n - 3) \<and> (n = 0 \<or> 3 \<le> n)"

lemma head_block_size: "len + HEADER_BLOCK_SIZE \<le> MAX_HEADERS_SIZE \<Longrightarrow>
    min MAX_HEADERS_SIZE (len + HEADER_BLOCK_SIZE) - len = HEADER_BLOCK_SIZE"
  by simp

lemma block_pos: "HEADER_BLOCK_SIZE > 0"
  by (simp add: HEADER_BLOCK_SIZE_def)

text \<open>The block is stored and the rest of the room for it cut off.\<close>

lemma head_buffer:
  assumes "length buf = n + HEADER_BLOCK_SIZE" "take n buf = take n text" "n \<le> length text"
    and "drop n text = out @ rest" "length out \<le> HEADER_BLOCK_SIZE"
  defines "b \<equiv> store_at n out buf"
  shows "(if length out < HEADER_BLOCK_SIZE then take (length b - (HEADER_BLOCK_SIZE - length out)) b else b)
    = take (n + length out) text"
proof -
  have "take (n + length out) text = take n text @ out"
    using assms(3,4) by (simp add: take_add)
  moreover have "length b = n + HEADER_BLOCK_SIZE" using assms(1,5) by (simp add: b_def store_at_def)
  moreover have "take (n + length out) b = take n text @ out"
    using assms(1,2,3,5) by (simp add: b_def store_at_def)
  ultimately show ?thesis by (cases "length out < HEADER_BLOCK_SIZE") (simp_all add: assms(5) le_antisym)
qed

text \<open>The next block is asked for.\<close>

lemma next_head_block:
  assumes "length (hi_buf c) + HEADER_BLOCK_SIZE \<le> MAX_HEADERS_SIZE" "hi_async_result c = Some (res, tag)"
    and "hi_buf c = take n text" "n \<le> length text" "bi_content (hi_stream c) = drop n text"
    and "\<not> bi_frozen (hi_stream c)"
    and "length (bi_buffer (hi_stream c)) + HEADER_BLOCK_SIZE \<le> bi_buffer_size (hi_stream c)"
    and "hi_last_headers_pos c = (if n = 0 then 12 else int n - 3)" "n = 0 \<or> 3 \<le> n"
  shows "reading_head res tag text n (evd_http_connection_read_headers_block res c)"
  using assms block_pos
  by (simp add: evd_http_connection_read_headers_block_def head_block_size Let_def reading_head_def
      g_string_set_size_def evd_buffered_input_stream_read_async_def bi_content_def)

text \<open>The head is complete in the buffer, which may have bytes behind it.\<close>

lemma head_complete:
  assumes h: "head_text ls = h" "list_all head_line ls" "ls \<noteq> []" "13 \<le> length h"
    and body: "body = [] \<or> \<not> is_crlf (hd body)"
    and n: "length h \<le> N" "N \<le> length (h @ body)" "pos = 12 \<or> 0 \<le> pos \<and> pos + 3 \<le> int (length h)"
  shows "evd_http_connection_find_end_headers_mark (take N (h @ body)) pos = Some (Mark (int (length h)))"
proof -
  have ha: "head_at h (length h - 4)" using head_at_text [OF h(2,3)] h(1) by simp
  have len: "length h = length h - 4 + 4" using h(4) by simp
  have "take N (h @ body) = h @ take (N - length h) body" using n by simp
  moreover have "take (N - length h) body = [] \<or> \<not> is_crlf (hd (take (N - length h) body))"
    using body by (auto simp: hd_take)
  moreover have "nat pos \<le> length h - 4 + 3" "pos = int (nat pos)" using n(3) h(4) by auto
  ultimately show ?thesis using find_complete [OF ha len, of "take (N - length h) body" "nat pos"] len by simp
qed

lemma head_incomplete:
  assumes "list_all head_line ls" "ls \<noteq> []" "N < length (head_text ls)" "0 \<le> pos"
  shows "evd_http_connection_find_end_headers_mark (take N (head_text ls @ body)) pos = Some (Mark (- 1))"
proof -
  have ha: "head_at (head_text ls) (length (head_text ls) - 4)" using head_at_text [OF assms(1,2)] .
  then have "N < length (head_text ls) - 4 + 4" using assms(3) by (simp add: head_at_def)
  from find_prefix [OF ha this, of "nat pos"] assms(3,4) show ?thesis by simp
qed

text \<open>
  What a block of a well-formed head does: the next block is asked for, or the head is handed to
  libsoup and what was read beyond is back in the stream.
\<close>

definition head_read :: "'h soup \<Rightarrow> byte list \<Rightarrow> byte list \<Rightarrow> 'h http_in \<Rightarrow> 'h http_in \<Rightarrow> bool" where
  "head_read soup h body c c' \<longleftrightarrow>
     (\<exists>v. c' = (evd_http_connection_on_read_headers soup h v)\<lparr>hi_last_headers_pos := 0, hi_buf := []\<rparr> \<and>
        hi_async_result v = hi_async_result c \<and> hi_idle v = hi_idle c \<and> hi_tls_active v = hi_tls_active c \<and>
        hi_completed v = hi_completed c \<and> hi_closed v = hi_closed c \<and> hi_connected v = hi_connected c \<and>
        hi_chunked_decoder v = hi_chunked_decoder c \<and>
        bi_content (hi_stream v) = body \<and> bi_async_result (hi_stream v) = None \<and> \<not> bi_frozen (hi_stream v) \<and>
        bi_buffer_size (hi_stream v) = bi_buffer_size (hi_stream c))"

definition same_operation :: "'h http_in \<Rightarrow> 'h http_in \<Rightarrow> bool" where
  "same_operation c c' \<longleftrightarrow>
     hi_idle c' = hi_idle c \<and> hi_tls_active c' = hi_tls_active c \<and> hi_completed c' = hi_completed c \<and>
     hi_async_result c' = hi_async_result c \<and> hi_closed c' = hi_closed c \<and> hi_connected c' = hi_connected c \<and>
     hi_chunked_decoder c' = hi_chunked_decoder c \<and> bi_buffer_size (hi_stream c') = bi_buffer_size (hi_stream c)"

lemma unread_result:
  assumes "length (bi_buffer s) + length b \<le> bi_buffer_size s" "\<not> bi_frozen s" "bi_async_result s = None"
  shows "\<exists>s' n. evd_buffered_input_stream_unread s b = (s', Inr n) \<and> bi_content s' = b @ bi_content s \<and>
    bi_async_result s' = None \<and> \<not> bi_frozen s' \<and> bi_buffer_size s' = bi_buffer_size s \<and> (b = [] \<longrightarrow> s' = s)"
  using assms
  by (cases "b = []")
    (auto simp: evd_buffered_input_stream_unread_def evd_buffered_input_stream_thaw_def bi_content_def Let_def)

lemma on_head_block:
  assumes h: "head_text ls = h" "list_all head_line ls" "ls \<noteq> []" "13 \<le> length h"
    and size: "length h + HEADER_BLOCK_SIZE \<le> MAX_HEADERS_SIZE"
    and body: "body = [] \<or> \<not> is_crlf (hd body)"
    and rd: "reading_head res tag (h @ body) n c" "n < length h"
    and s1: "bi_content (hi_stream c) = out @ bi_content s1" "length out \<le> HEADER_BLOCK_SIZE" "n = 0 \<Longrightarrow> 3 \<le> length out"
      "\<not> bi_frozen s1" "bi_buffer_size s1 = bi_buffer_size (hi_stream c)" "bi_async_result s1 = None"
      "length (bi_buffer s1) \<le> length (bi_buffer (hi_stream c))" "out \<noteq> []"
  shows "\<exists>c'. on_read_block soup (Inr out) (c\<lparr>hi_stream := s1\<rparr>) = Some c' \<and>
    (if n + length out < length h then reading_head res tag (h @ body) (n + length out) c' \<and> same_operation c c'
     else head_read soup h body c c')"
proof -
  let ?text = "h @ body" and ?N = "n + length out"
  define c1 where "c1 = store_block out (c\<lparr>hi_stream := s1\<rparr>)"
  define c2 where "c2 = (if length out < HEADER_BLOCK_SIZE
    then c1\<lparr>hi_buf := take (length (hi_buf c1) - (HEADER_BLOCK_SIZE - length out)) (hi_buf c1)\<rparr> else c1)"
  note r = rd(1) [unfolded reading_head_def]
  have rest: "drop n ?text = out @ bi_content s1" using r s1(1) by simp
  have N: "?N \<le> length ?text" using arg_cong [OF rest, of length] rd(2) by simp
  have buf: "hi_buf c2 = take ?N ?text"
    using head_buffer [of "hi_buf c" n ?text out "bi_content s1"] r rest s1(2)
    by (auto simp: c2_def c1_def store_block_def)
  have left: "bi_content s1 = drop ?N ?text" by (simp only: add.commute [of n] drop_drop [symmetric] rest) simp
  have c2: "hi_stream c2 = s1" "hi_async_result c2 = Some (res, tag)" "hi_last_headers_pos c2 = hi_last_headers_pos c"
    "same_operation c (c2\<lparr>hi_stream := hi_stream c\<rparr>)" "hi_headers c1"
    using r by (auto simp: c2_def c1_def store_block_def same_operation_def)
  have block: "on_read_block soup (Inr out) (c\<lparr>hi_stream := s1\<rparr>) =
      evd_http_connection_on_read_headers_block soup (Inr (length out)) c1"
    using c2(5) by (simp add: on_read_block_def c1_def Let_def)
  have pos: "hi_last_headers_pos c = 12 \<or> 0 \<le> hi_last_headers_pos c \<and> hi_last_headers_pos c + 3 \<le> int (length h)"
    using r rd(2) by auto
  show ?thesis
  proof (cases "?N < length h")
    case True
    have f: "evd_http_connection_find_end_headers_mark (hi_buf c2) (hi_last_headers_pos c) = Some (Mark (- 1))"
      unfolding buf using head_incomplete [OF h(2,3)] h(1) True pos by auto
    have len: "length (hi_buf c2) = ?N" using buf N by simp
    define c3 where "c3 = evd_http_connection_read_headers_block res (c2\<lparr>hi_last_headers_pos := int ?N - 3\<rparr>)"
    have "on_read_block soup (Inr out) (c\<lparr>hi_stream := s1\<rparr>) = Some c3"
      unfolding block evd_http_connection_on_read_headers_block_def
      using f len True size c2(2,3) by (simp add: c2_def [symmetric] c3_def Let_def)
    moreover have "reading_head res tag ?text ?N c3"
      unfolding c3_def
      by (rule next_head_block) (use len True size c2 buf N left s1 r rd in \<open>auto\<close>)
    moreover have "same_operation c c3"
      using c2(1,4) s1(5) by (auto simp: c3_def same_operation_def evd_http_connection_read_headers_block_def Let_def
          evd_buffered_input_stream_read_async_def)
    ultimately show ?thesis using True by auto
  next
    case False
    have f: "evd_http_connection_find_end_headers_mark (hi_buf c2) (hi_last_headers_pos c) = Some (Mark (int (length h)))"
      unfolding buf using head_complete [OF h body, of ?N] False N pos by simp
    have un: "length (drop (length h) (hi_buf c2)) \<le> HEADER_BLOCK_SIZE" using buf N rd(2) s1(2) by simp
    obtain s2 k where s2: "evd_buffered_input_stream_unread s1 (drop (length h) (hi_buf c2)) = (s2, Inr k)"
      "bi_content s2 = drop (length h) (hi_buf c2) @ bi_content s1" "bi_async_result s2 = None" "\<not> bi_frozen s2"
      "bi_buffer_size s2 = bi_buffer_size s1" "drop (length h) (hi_buf c2) = [] \<Longrightarrow> s2 = s1"
      using unread_result [of s1 "drop (length h) (hi_buf c2)"] s1 r un by fastforce
    have tk: "take (length h) (hi_buf c2) = h" using buf False by simp
    have ne: "h \<noteq> []" using h(4) by auto
    have st: "c2\<lparr>hi_stream := s1, hi_buf := h\<rparr> = c2\<lparr>hi_buf := h\<rparr>" using c2(1) by (cases c2) simp
    define v where "v = c2\<lparr>hi_stream := s2, hi_buf := h\<rparr>"
    have "on_read_block soup (Inr out) (c\<lparr>hi_stream := s1\<rparr>) =
        Some ((evd_http_connection_on_read_headers soup h v)\<lparr>hi_last_headers_pos := 0, hi_buf := []\<rparr>)"
      unfolding block evd_http_connection_on_read_headers_block_def
      using f c2(1,3) s2(1,6) tk ne by (cases "drop (length h) (hi_buf c2) = []") (simp_all add: c2_def [symmetric] v_def Let_def st)
    moreover have "bi_content s2 = body"
      unfolding s2(2) left buf using False N by simp
    ultimately show ?thesis
      using False c2(2,4) s2 s1(5) by (auto simp: head_read_def same_operation_def v_def intro!: exI [of _ v])
  qed
qed

text \<open>The data arrives in pieces.\<close>

primrec arrivals :: "'h soup \<Rightarrow> nat list \<Rightarrow> 'h http_in \<Rightarrow> 'h http_in option" where
  "arrivals soup [] c = Some c"
| "arrivals soup (k # ks) c = Option.bind (data_arrives soup (Inr k) c) (arrivals soup ks)"

text \<open>Once an operation is complete nothing more is read.\<close>

definition settled :: "'h http_in \<Rightarrow> 'h http_in \<Rightarrow> bool" where
  "settled c c' \<longleftrightarrow> (\<exists>s. c' = c\<lparr>hi_stream := s\<rparr> \<and> bi_content s = bi_content (hi_stream c) \<and>
     bi_async_result s = None \<and> bi_buffer_size s = bi_buffer_size (hi_stream c) \<and> bi_buffer s = bi_buffer (hi_stream c))"

lemma settled_refl: "bi_async_result (hi_stream c) = None \<Longrightarrow> settled c c"
  unfolding settled_def by (rule exI [of _ "hi_stream c"]) simp

lemma arrivals_settled:
  assumes "bi_async_result (hi_stream c) = None"
  shows "\<exists>c'. arrivals soup ks c = Some c' \<and> settled c c'"
  using assms
proof (induction ks arbitrary: c)
  case Nil
  then show ?case using settled_refl by auto
next
  case (Cons k ks)
  define s where "s = evd_buffered_input_stream_thaw (hi_stream c)\<lparr>bi_read_src := False\<rparr>"
  have s: "bi_async_result s = None" "bi_content s = bi_content (hi_stream c)" "bi_buffer s = bi_buffer (hi_stream c)"
    "bi_buffer_size s = bi_buffer_size (hi_stream c)"
    using Cons.prems by (auto simp: s_def evd_buffered_input_stream_thaw_def bi_content_def Let_def)
  have "data_arrives soup (Inr k) c = Some (c\<lparr>hi_stream := s\<rparr>)"
    using no_arrival [OF Cons.prems] by (simp add: data_arrives_def s_def)
  with Cons.IH [of "c\<lparr>hi_stream := s\<rparr>"] s show ?case by (auto simp: settled_def)
qed

lemma same_operation_trans: "same_operation a b \<Longrightarrow> same_operation b c \<Longrightarrow> same_operation a c"
  by (simp add: same_operation_def)

lemma head_read_same: "same_operation a b \<Longrightarrow> head_read soup h body b c \<Longrightarrow> head_read soup h body a c"
  by (auto simp: head_read_def same_operation_def)

lemma read_headers_stream:
  "hi_stream (evd_http_connection_on_read_headers soup h v) = hi_stream v"
  by (simp add: evd_http_connection_on_read_headers_def complete_in_idle_def Let_def split: option.split prod.split)

lemma head_read_idle: "head_read soup h body c c' \<Longrightarrow> bi_async_result (hi_stream c') = None"
  by (auto simp: head_read_def read_headers_stream)

text \<open>
  Reading a piece of the stream block by block: \<open>total\<close> bytes at the front of a text, of which \<open>n\<close> have
  been read, in blocks of a size that depends on \<open>n\<close>. Headers and content are both read like this.
\<close>

locale block_reader =
  fixes soup :: "'h soup"
    and reading :: "nat \<Rightarrow> 'h http_in \<Rightarrow> bool"
    and same finished :: "'h http_in \<Rightarrow> 'h http_in \<Rightarrow> bool"
    and res :: nat and str :: "byte list" and total :: nat and block :: "nat \<Rightarrow> nat" and full first :: nat
  assumes reading_stream: "reading n c \<Longrightarrow> n < total \<Longrightarrow>
      bi_content (hi_stream c) = drop n str \<and> bi_async_result (hi_stream c) = Some res \<and>
      bi_requested_size (hi_stream c) = block n \<and> total \<le> length str \<and> first \<le> total"
    and nothing_read: "reading n c \<Longrightarrow> n < total \<Longrightarrow> bi_content s1 = bi_content (hi_stream c) \<Longrightarrow>
      bi_async_result s1 = bi_async_result (hi_stream c) \<Longrightarrow> bi_requested_size s1 = bi_requested_size (hi_stream c) \<Longrightarrow>
      \<not> bi_frozen s1 \<Longrightarrow> bi_buffer_size s1 = bi_buffer_size (hi_stream c) \<Longrightarrow>
      length (bi_buffer s1) \<le> length (bi_buffer (hi_stream c)) \<Longrightarrow>
      reading n (c\<lparr>hi_stream := s1\<rparr>) \<and> same c (c\<lparr>hi_stream := s1\<rparr>)"
    and block_read: "reading n c \<Longrightarrow> n < total \<Longrightarrow> bi_content (hi_stream c) = out @ bi_content s1 \<Longrightarrow>
      length out \<le> block n \<Longrightarrow> out \<noteq> [] \<Longrightarrow> bi_async_result s1 = None \<Longrightarrow> (n = 0 \<Longrightarrow> first \<le> length out) \<Longrightarrow>
      \<not> bi_frozen s1 \<Longrightarrow> bi_buffer_size s1 = bi_buffer_size (hi_stream c) \<Longrightarrow>
      length (bi_buffer s1) \<le> length (bi_buffer (hi_stream c)) \<Longrightarrow>
      \<exists>c'. on_read_block soup (Inr out) (c\<lparr>hi_stream := s1\<rparr>) = Some c' \<and>
        (if n + length out < total then reading (n + length out) c' \<and> same c c' else finished c c')"
    and finished_idle: "finished c c' \<Longrightarrow> bi_async_result (hi_stream c') = None"
    and finished_same: "same a b \<Longrightarrow> finished b c \<Longrightarrow> finished a c"
    and block_size: "n < total \<Longrightarrow> block n = full \<or> total \<le> n + block n"
    and sizes: "0 < full" "first \<le> full"
begin

lemma arrivals_finish:
  assumes "reading n c" "n < total" "total \<le> n + sum_list (map (min full) ks)" "n = 0 \<longrightarrow> first \<le> hd ks"
  shows "\<exists>c' c''. arrivals soup ks c = Some c'' \<and> finished c c' \<and> settled c' c''"
  using assms
proof (induction ks arbitrary: n c)
  case Nil
  then show ?case by simp
next
  case (Cons k ks)
  note r = reading_stream [OF Cons.prems(1,2)]
  from r have a: "bi_async_result (hi_stream c) = Some res" by simp
  obtain s1 out where s1: "do_read (evd_buffered_input_stream_thaw (hi_stream c)) (Inr k) =
       (if out = [] then (s1, []) else (s1\<lparr>bi_async_result := None\<rparr>, [Read_complete res (Inr out)]))"
    "bi_content (hi_stream c) = out @ bi_content s1" "length out \<le> bi_requested_size (hi_stream c)"
    "min (min (bi_requested_size (hi_stream c)) k) (length (bi_content (hi_stream c))) \<le> length out"
    "\<not> bi_frozen s1" "bi_async_result s1 = Some res" "bi_buffer_size s1 = bi_buffer_size (hi_stream c)"
    "length (bi_buffer s1) \<le> length (bi_buffer (hi_stream c))" "bi_requested_size s1 = bi_requested_size (hi_stream c)"
    by (rule arrival [OF a])
  have enough: "min full k \<le> length out \<or> total \<le> n + length out"
    using s1(4) r block_size [OF Cons.prems(2)] by auto
  show ?case
  proof (cases "out = []")
    case True
    have k: "min full k = 0" "k = 0" using enough True Cons.prems(2) sizes(1) by auto
    then have n: "n \<noteq> 0 \<or> first = 0" using Cons.prems(4) by auto
    have "data_arrives soup (Inr k) c = Some (c\<lparr>hi_stream := s1\<rparr>)" using s1(1) True by (simp add: data_arrives_def)
    moreover have "reading n (c\<lparr>hi_stream := s1\<rparr>)" "same c (c\<lparr>hi_stream := s1\<rparr>)"
      using nothing_read [OF Cons.prems(1,2), of s1] s1 True a by auto
    moreover have "n = 0 \<longrightarrow> first \<le> hd ks" using n by auto
    ultimately show ?thesis
      using Cons.IH [of n "c\<lparr>hi_stream := s1\<rparr>"] Cons.prems(2,3) k finished_same by fastforce
  next
    case False
    let ?s = "s1\<lparr>bi_async_result := None\<rparr>"
    have "first \<le> length out" if "n = 0"
      using that enough Cons.prems(4) sizes(2) r by (auto simp: min_def split: if_splits)
    then obtain c1 where c1: "on_read_block soup (Inr out) (c\<lparr>hi_stream := ?s\<rparr>) = Some c1"
      "if n + length out < total then reading (n + length out) c1 \<and> same c c1 else finished c c1"
      using block_read [OF Cons.prems(1,2), of out ?s] s1 r False by (auto simp: bi_content_def)
    have step: "data_arrives soup (Inr k) c = Some c1" using s1(1) False c1(1) by (simp add: data_arrives_def)
    show ?thesis
    proof (cases "n + length out < total")
      case True
      with c1(2) have "reading (n + length out) c1" "same c c1" by auto
      moreover have "total \<le> n + length out + sum_list (map (min full) ks)"
        using Cons.prems(3) enough True by simp
      ultimately show ?thesis
        using Cons.IH [of "n + length out" c1] True False step finished_same by fastforce
    next
      case False
      with c1(2) have "finished c c1" by simp
      with arrivals_settled [OF finished_idle [OF this], of soup ks] step show ?thesis by auto
    qed
  qed
qed

end

text \<open>A head that the reader can cope with, and what follows it.\<close>

definition readable_head :: "byte list list \<Rightarrow> byte list \<Rightarrow> bool" where
  "readable_head ls body \<longleftrightarrow>
     list_all head_line ls \<and> ls \<noteq> [] \<and> 13 \<le> length (head_text ls) \<and>
     length (head_text ls) + HEADER_BLOCK_SIZE \<le> MAX_HEADERS_SIZE \<and> (body = [] \<or> \<not> is_crlf (hd body))"

definition reading_request :: "nat \<Rightarrow> read_op \<Rightarrow> byte list list \<Rightarrow> byte list \<Rightarrow> nat \<Rightarrow> 'h http_in \<Rightarrow> bool" where
  "reading_request res tag ls body n c \<longleftrightarrow> readable_head ls body \<and> reading_head res tag (head_text ls @ body) n c"

interpretation head: block_reader soup "reading_request res tag ls body" same_operation
    "head_read soup (head_text ls) body" res "head_text ls @ body" "length (head_text ls)"
    "\<lambda>_. HEADER_BLOCK_SIZE" HEADER_BLOCK_SIZE 3
  for soup :: "'h soup" and res tag ls body
proof
  fix n and c :: "'h http_in"
  assume r: "reading_request res tag ls body n c" and n: "n < length (head_text ls)"
  show "bi_content (hi_stream c) = drop n (head_text ls @ body) \<and> bi_async_result (hi_stream c) = Some res \<and>
      bi_requested_size (hi_stream c) = HEADER_BLOCK_SIZE \<and> length (head_text ls) \<le> length (head_text ls @ body) \<and>
      3 \<le> length (head_text ls)"
    using r by (simp add: reading_request_def readable_head_def reading_head_def)
  fix s1 :: buffered_input
  assume "bi_content s1 = bi_content (hi_stream c)" "bi_async_result s1 = bi_async_result (hi_stream c)"
    "bi_requested_size s1 = bi_requested_size (hi_stream c)" "bi_buffer_size s1 = bi_buffer_size (hi_stream c)"
    "length (bi_buffer s1) \<le> length (bi_buffer (hi_stream c))"
  then show "reading_request res tag ls body n (c\<lparr>hi_stream := s1\<rparr>) \<and> same_operation c (c\<lparr>hi_stream := s1\<rparr>)"
    using r by (auto simp: reading_request_def reading_head_def same_operation_def)
next
  fix n and c :: "'h http_in" and out s1
  assume "reading_request res tag ls body n c" "n < length (head_text ls)" "bi_content (hi_stream c) = out @ bi_content s1"
    "length out \<le> HEADER_BLOCK_SIZE" "out \<noteq> []" "bi_async_result s1 = None" "n = 0 \<Longrightarrow> 3 \<le> length out"
    "\<not> bi_frozen s1" "bi_buffer_size s1 = bi_buffer_size (hi_stream c)" "length (bi_buffer s1) \<le> length (bi_buffer (hi_stream c))"
  then show "\<exists>c'. on_read_block soup (Inr out) (c\<lparr>hi_stream := s1\<rparr>) = Some c' \<and>
      (if n + length out < length (head_text ls)
       then reading_request res tag ls body (n + length out) c' \<and> same_operation c c'
       else head_read soup (head_text ls) body c c')"
    using on_head_block [OF refl, of ls body res tag n c out s1 soup]
    by (auto simp: reading_request_def readable_head_def)
qed (auto simp: head_read_idle block_pos HEADER_BLOCK_SIZE_def intro: head_read_same)

section \<open>Reading content by its length\<close>

definition content_block :: "nat \<Rightarrow> nat \<Rightarrow> nat" where
  "content_block len n = min (len - n) CONTENT_BLOCK_SIZE"

text \<open>\<open>n\<close> bytes of the content at the front of a text have been read, and the next block is being read.\<close>

definition reading_content :: "nat \<Rightarrow> nat \<Rightarrow> byte list \<Rightarrow> nat \<Rightarrow> 'h http_in \<Rightarrow> bool" where
  "reading_content res len text n c \<longleftrightarrow>
     hi_async_result c = Some (res, Read_all) \<and> \<not> hi_headers c \<and> hi_target c = Into_buf n \<and>
     hi_encoding c = SOUP_ENCODING_CONTENT_LENGTH \<and> hi_content_len c = len \<and> hi_content_read c = n \<and> hi_connected c \<and>
     length (hi_buf c) = n + content_block len n \<and> take n (hi_buf c) = take n text \<and> len \<le> length text \<and>
     bi_content (hi_stream c) = drop n text \<and> bi_async_result (hi_stream c) = Some res \<and>
     bi_requested_size (hi_stream c) = content_block len n"

definition content_read :: "nat \<Rightarrow> byte list \<Rightarrow> byte list \<Rightarrow> 'h http_in \<Rightarrow> 'h http_in \<Rightarrow> bool" where
  "content_read res content rest c c' \<longleftrightarrow>
     hi_completed c' = hi_completed c @ [(res, Done)] \<and> hi_idle c' = hi_idle c \<and> hi_buf c' = content \<and>
     hi_content_read c' = length content \<and> hi_async_result c' = None \<and> \<not> hi_pending c' \<and>
     hi_closed c' = hi_closed c \<and> hi_connected c' = hi_connected c \<and> hi_current_request c' = hi_current_request c \<and>
     hi_keepalive c' = hi_keepalive c \<and>
     bi_content (hi_stream c') = rest \<and> bi_async_result (hi_stream c') = None"

definition same_content_operation :: "'h http_in \<Rightarrow> 'h http_in \<Rightarrow> bool" where
  "same_content_operation c c' \<longleftrightarrow>
     hi_completed c' = hi_completed c \<and> hi_idle c' = hi_idle c \<and> hi_closed c' = hi_closed c \<and>
     hi_connected c' = hi_connected c \<and> hi_current_request c' = hi_current_request c \<and> hi_keepalive c' = hi_keepalive c"

lemma next_content_block:
  assumes "hi_async_result c = Some (res, Read_all)" "hi_encoding c = SOUP_ENCODING_CONTENT_LENGTH"
    and "hi_content_len c = len" "hi_content_read c = n" "hi_connected c" "n < len" "len \<le> length str"
    and "n \<le> length (hi_buf c)" "length (hi_buf c) \<le> n + content_block len n" "take n (hi_buf c) = take n str"
    and "bi_content (hi_stream c) = drop n str"
  shows "reading_content res len str n (evd_http_connection_read_next_content_block res c)"
    "same_content_operation c (evd_http_connection_read_next_content_block res c)"
  using assms
  by (auto simp: evd_http_connection_read_next_content_block_def evd_http_connection_read_content_block_def
      reading_content_def same_content_operation_def content_block_def [symmetric] g_string_set_size_def Let_def
      evd_buffered_input_stream_read_async_def bi_content_def)

lemma content_block_bound: "content_block len n \<le> len - n"
  by (simp add: content_block_def)

lemma content_block_grows: "m \<le> n \<Longrightarrow> n \<le> len \<Longrightarrow> m + content_block len m \<le> n + content_block len n"
  by (auto simp: content_block_def)

lemma on_content_block:
  assumes rd: "reading_content res len text n c" "n < len"
    and s1: "bi_content (hi_stream c) = out @ bi_content s1" "length out \<le> content_block len n" "out \<noteq> []"
      "bi_async_result s1 = None"
  shows "\<exists>c'. on_read_block soup (Inr out) (c\<lparr>hi_stream := s1\<rparr>) = Some c' \<and>
    (if n + length out < len then reading_content res len text (n + length out) c' \<and> same_content_operation c c'
     else content_read res (take len text) (drop len text) c c')"
proof -
  let ?N = "n + length out"
  define c1 where "c1 = store_block out (c\<lparr>hi_stream := s1\<rparr>)"
  define c2 where "c2 = c1\<lparr>hi_content_read := ?N\<rparr>"
  note r = rd(1) [unfolded reading_content_def]
  have rest: "drop n text = out @ bi_content s1" using r s1(1) by simp
  have N: "?N \<le> len" using s1(2) content_block_bound [of len n] rd(2) by linarith
  have nt: "n < length text" using r rd(2) by simp
  have buf: "hi_buf c1 = store_at n out (hi_buf c)" using r by (simp add: c1_def store_block_def)
  have len: "length (hi_buf c1) = n + content_block len n" using r s1(2) nt by (simp add: buf store_at_def)
  have tk: "take ?N (hi_buf c1) = take ?N text"
    using r s1(2) rest nt by (simp add: buf store_at_def take_add)
  have left: "bi_content s1 = drop ?N text" by (simp only: add.commute [of n] drop_drop [symmetric] rest) simp
  have f: "hi_async_result c1 = Some (res, Read_all)" "hi_encoding c1 = SOUP_ENCODING_CONTENT_LENGTH" "hi_content_len c1 = len"
    "hi_content_read c1 = n" "hi_connected c1" "hi_stream c1 = s1" "\<not> hi_headers c1" "same_content_operation c c1"
    using r by (auto simp: c1_def store_block_def same_content_operation_def)
  have block: "on_read_block soup (Inr out) (c\<lparr>hi_stream := s1\<rparr>) = evd_http_connection_on_read_content_block (Inr (length out)) c1"
    using f(7) by (simp add: on_read_block_def c1_def Let_def)
  have proc: "process_read_content (length out) c1 = Some (c2, len \<le> ?N)"
    using f by (simp add: process_read_content_def c2_def Let_def)
  show ?thesis
  proof (cases "?N < len")
    case True
    have "on_read_block soup (Inr out) (c\<lparr>hi_stream := s1\<rparr>) = Some (evd_http_connection_read_next_content_block res c2)"
      unfolding block evd_http_connection_on_read_content_block_def using f(1) proc True s1(3) by simp
    moreover have "reading_content res len text ?N (evd_http_connection_read_next_content_block res c2)"
      "same_content_operation c2 (evd_http_connection_read_next_content_block res c2)"
      by (rule next_content_block [where n = ?N and str = "text" and len = len]; use f True r tk left len s1(2) content_block_grows [of n ?N len] in \<open>simp add: c2_def\<close>)+
    ultimately show ?thesis using True f(8) by (auto simp: same_content_operation_def c2_def)
  next
    case False
    then have L: "?N = len" using N by simp
    define c3 where "c3 = complete_now res Done (c2\<lparr>hi_buf := g_string_set_size len (hi_buf c2), hi_async_result := None, hi_pending := False\<rparr>)"
    have "on_read_block soup (Inr out) (c\<lparr>hi_stream := s1\<rparr>) = Some c3"
      unfolding block evd_http_connection_on_read_content_block_def
      using f(1) proc L s1(3) by (simp add: c3_def c2_def)
    moreover have "g_string_set_size len (hi_buf c1) = take len text"
      using tk L len s1(2) by (simp add: g_string_set_size_def)
    ultimately show ?thesis using L f left r s1(4)
      by (auto simp: content_read_def c3_def c2_def complete_now_def same_content_operation_def)
  qed
qed

interpretation body: block_reader soup "reading_content res len str" same_content_operation
    "content_read res (take len str) (drop len str)" res str len "content_block len" CONTENT_BLOCK_SIZE 0
  for soup :: "'h soup" and res len str
proof
  fix n and c :: "'h http_in"
  assume r: "reading_content res len str n c" and n: "n < len"
  show "bi_content (hi_stream c) = drop n str \<and> bi_async_result (hi_stream c) = Some res \<and>
      bi_requested_size (hi_stream c) = content_block len n \<and> len \<le> length str \<and> 0 \<le> len"
    using r by (simp add: reading_content_def)
  fix s1 :: buffered_input
  assume "bi_content s1 = bi_content (hi_stream c)" "bi_async_result s1 = bi_async_result (hi_stream c)"
    "bi_requested_size s1 = bi_requested_size (hi_stream c)"
  then show "reading_content res len str n (c\<lparr>hi_stream := s1\<rparr>) \<and> same_content_operation c (c\<lparr>hi_stream := s1\<rparr>)"
    using r by (simp add: reading_content_def same_content_operation_def)
next
  fix n and c :: "'h http_in" and out s1
  assume "reading_content res len str n c" "n < len" "bi_content (hi_stream c) = out @ bi_content s1"
    "length out \<le> content_block len n" "out \<noteq> []" "bi_async_result s1 = None"
  then show "\<exists>c'. on_read_block soup (Inr out) (c\<lparr>hi_stream := s1\<rparr>) = Some c' \<and>
      (if n + length out < len then reading_content res len str (n + length out) c' \<and> same_content_operation c c'
       else content_read res (take len str) (drop len str) c c')"
    by (rule on_content_block)
qed (auto simp: content_block_def same_content_operation_def content_read_def CONTENT_BLOCK_SIZE_def)

section \<open>Properties\<close>

text \<open>A connection on which nothing is going on, with a text to come.\<close>

definition at_rest :: "byte list \<Rightarrow> 'h http_in \<Rightarrow> bool" where
  "at_rest str c \<longleftrightarrow>
     hi_async_result c = None \<and> \<not> hi_pending c \<and> \<not> hi_closed c \<and> hi_connected c \<and>
     bi_content (hi_stream c) = str \<and> bi_async_result (hi_stream c) = None"

lemma start_request:
  assumes "at_rest (head_text ls @ body) c" "readable_head ls body"
    and "length (bi_buffer (hi_stream c)) + HEADER_BLOCK_SIZE \<le> bi_buffer_size (hi_stream c)"
  shows "let c1 = evd_http_connection_read_request_headers res c in reading_request res Read_request ls body 0 c1 \<and>
    hi_idle c1 = hi_idle c \<and> hi_tls_active c1 = hi_tls_active c \<and> hi_completed c1 = hi_completed c \<and>
    hi_closed c1 = hi_closed c \<and> hi_connected c1 = hi_connected c \<and> hi_async_result c1 = Some (res, Read_request)"
  using assms
  by (simp add: at_rest_def evd_http_connection_read_request_headers_def evd_http_connection_read_headers_async_def
      set_pending_def evd_http_connection_read_headers_block_def reading_request_def reading_head_def Let_def
      HEADER_BLOCK_SIZE_def MAX_HEADERS_SIZE_def g_string_set_size_def evd_buffered_input_stream_read_async_def bi_content_def)

lemma start_content:
  assumes "at_rest str c" "hi_encoding c = SOUP_ENCODING_CONTENT_LENGTH" "hi_content_len c = len" "0 < len" "len \<le> length str"
  shows "reading_content res len str 0 (evd_http_connection_read_all_content res c)"
    "same_content_operation c (evd_http_connection_read_all_content res c)"
proof -
  let ?c = "c\<lparr>hi_pending := True, hi_content_read := 0, hi_buf := [], hi_async_result := Some (res, Read_all)\<rparr>"
  have "evd_http_connection_read_all_content res c = evd_http_connection_read_next_content_block res ?c"
    using assms by (simp add: at_rest_def evd_http_connection_read_all_content_def set_pending_def)
  moreover have "reading_content res len str 0 (evd_http_connection_read_next_content_block res ?c)"
    "same_content_operation ?c (evd_http_connection_read_next_content_block res ?c)"
    by (rule next_content_block [where n = 0 and str = str and len = len]; use assms in \<open>simp add: at_rest_def\<close>)+
  ultimately show "reading_content res len str 0 (evd_http_connection_read_all_content res c)"
    "same_content_operation c (evd_http_connection_read_all_content res c)"
    by (simp_all add: same_content_operation_def)
qed

text \<open>What libsoup has to say of the head of a request with content.\<close>

definition parsed_as :: "'h soup \<Rightarrow> byte list list \<Rightarrow> 'h \<Rightarrow> string \<Rightarrow> string \<Rightarrow> nat \<Rightarrow> nat \<Rightarrow> bool" where
  "parsed_as soup ls headers method path version len \<longleftrightarrow>
     soup_headers_parse_request soup (take (length (head_text ls) - 2) (head_text ls)) = Some (headers, Some method, path, version) \<and>
     version \<le> SOUP_HTTP_1_1 \<and> soup_message_headers_get_encoding soup headers = SOUP_ENCODING_CONTENT_LENGTH \<and>
     soup_message_headers_get_content_length soup headers = len"

definition request_of :: "'h soup \<Rightarrow> bool \<Rightarrow> 'h \<Rightarrow> string \<Rightarrow> string \<Rightarrow> nat \<Rightarrow> 'h http_request" where
  "request_of soup tls headers method path version =
     \<lparr>rq_version = version, rq_headers = headers, rq_method = method,
      rq_uri = evd_http_connection_build_uri soup tls path headers\<rparr>"

lemma request_read:
  assumes "head_read soup (head_text ls) body c c'" "hi_async_result c = Some (res, Read_request)"
    and "parsed_as soup ls headers method path version len" "\<not> hi_closed c" "hi_connected c"
  shows "at_rest body c'" "hi_encoding c' = SOUP_ENCODING_CONTENT_LENGTH" "hi_content_len c' = len"
    "hi_idle c' = hi_idle c @ [(res, Request_read (request_of soup (hi_tls_active c) headers method path version))]"
    "hi_completed c' = hi_completed c" "hi_current_request c' = Some (request_of soup (hi_tls_active c) headers method path version)"
  using assms
  by (auto simp: head_read_def parsed_as_def evd_http_connection_on_read_headers_def complete_in_idle_def Let_def
      at_rest_def request_of_def)

text \<open>
  C28. A request and its content are read exactly, in whatever pieces the bytes arrive after a first read of
  three bytes at least: libsoup gets the head, the program gets the request and then the content, of the length that
  the headers announce, and the stream is left at what follows, where the next request begins. This is for a
  well-formed head of at least 13 bytes that stays a block below \<open>MAX_HEADERS_SIZE\<close> and fits into the stream buffer, which libsoup
  accepts with a \<open>Content-Length\<close>, and for content that is not empty and does not begin with CR or LF
  (lemmas \<open>http_short_first_read\<close>, \<open>http_content_loses_crlf\<close>, \<open>http_empty_content_pending\<close>).
\<close>

theorem http_message_read:
  assumes "readable_head ls (content @ rest)" and "content \<noteq> []"
    and "parsed_as soup ls headers method path version (length content)"
    and "at_rest (head_text ls @ content @ rest) c"
    and "length (bi_buffer (hi_stream c)) + HEADER_BLOCK_SIZE \<le> bi_buffer_size (hi_stream c)"
    and "length (head_text ls) \<le> sum_list (map (min HEADER_BLOCK_SIZE) ks)" and "3 \<le> hd ks"
    and "length content \<le> sum_list (map (min CONTENT_BLOCK_SIZE) ks')"
  shows "\<exists>c1 c2. arrivals soup ks (evd_http_connection_read_request_headers r1 c) = Some c1 \<and>
    hi_idle c1 = hi_idle c @ [(r1, Request_read (request_of soup (hi_tls_active c) headers method path version))] \<and>
    arrivals soup ks' (evd_http_connection_read_all_content r2 (complete_idle c1)) = Some c2 \<and>
    hi_completed c2 = hi_completed c @ hi_idle c1 @ [(r2, Done)] \<and>
    snd (evd_http_connection_read_all_content_finish c2) = (content, length content) \<and> at_rest rest c2"
proof -
  note s = start_request [OF assms(4,1,5), of r1, unfolded Let_def]
  let ?c = "evd_http_connection_read_request_headers r1 c"
  have "head_text ls \<noteq> []" by (simp add: head_text_def)
  then obtain h c1 where h: "arrivals soup ks ?c = Some c1" "head_read soup (head_text ls) (content @ rest) ?c h" "settled h c1"
    using head.arrivals_finish [of r1 Read_request ls "content @ rest" 0 ?c ks soup] s assms(6,7) by auto
  have hr: "at_rest (content @ rest) h" "hi_encoding h = SOUP_ENCODING_CONTENT_LENGTH" "hi_content_len h = length content"
    "hi_idle h = hi_idle c @ [(r1, Request_read (request_of soup (hi_tls_active c) headers method path version))]"
    "hi_completed h = hi_completed c"
    using request_read [OF h(2) _ assms(3)] s assms(4) by (auto simp: at_rest_def)
  then have c1: "at_rest (content @ rest) (complete_idle c1)" "hi_encoding (complete_idle c1) = SOUP_ENCODING_CONTENT_LENGTH"
    "hi_content_len (complete_idle c1) = length content" "hi_idle c1 = hi_idle h"
    "hi_completed (complete_idle c1) = hi_completed c @ hi_idle c1"
    using h(3) by (auto simp: settled_def at_rest_def complete_idle_def)
  let ?d = "evd_http_connection_read_all_content r2 (complete_idle c1)"
  have rc: "reading_content r2 (length content) (content @ rest) 0 ?d" "same_content_operation (complete_idle c1) ?d"
    using start_content [OF c1(1-3)] assms(2) by auto
  obtain d c2 where d: "arrivals soup ks' ?d = Some c2"
    "content_read r2 (take (length content) (content @ rest)) (drop (length content) (content @ rest)) ?d d" "settled d c2"
    using body.arrivals_finish [OF rc(1), of ks' soup] assms(2,8) by auto
  then have "hi_completed c2 = hi_completed c @ hi_idle c1 @ [(r2, Done)]"
    "snd (evd_http_connection_read_all_content_finish c2) = (content, length content)" "at_rest rest c2"
    using rc(2) c1 by (auto simp: content_read_def settled_def same_content_operation_def at_rest_def
        evd_http_connection_read_all_content_finish_def)
  with h(1) d(1) c1(4) hr(4) show ?thesis by auto
qed

text \<open>Libsoup on one request, and a connection on whose stream it comes.\<close>

definition demo_request :: "byte list list" where
  "demo_request = [ascii ''POST /a HTTP/1.1'', ascii ''Content-Length: 5'', ascii ''Connection: keep-alive'']"

definition demo_soup :: "unit soup" where
  "demo_soup = \<lparr>soup_headers_parse_request =
       (\<lambda>head. if head = take (length (head_text demo_request) - 2) (head_text demo_request)
               then Some ((), Some ''POST'', ''/a'', 1) else None),
     soup_headers_parse_response = (\<lambda>_. None), soup_message_headers_get_encoding = (\<lambda>_. SOUP_ENCODING_CONTENT_LENGTH),
     soup_message_headers_get_content_length = (\<lambda>_. 5),
     soup_message_headers_get_one = (\<lambda>_ name. if name = ''Connection'' then Some ''keep-alive'' else None)\<rparr>"

definition demo_input :: "unit http_in" where
  "demo_input = evd_http_connection_init
     (evd_buffered_input_stream_init 8192 (head_text demo_request @ ascii ''hello'' @ ascii ''GET''))"

theorem http_message_read_witness:
  "\<exists>c1 c2. arrivals demo_soup [3, 40, 0, 30] (evd_http_connection_read_request_headers 1 demo_input) = Some c1 \<and>
    arrivals demo_soup [2, 9] (evd_http_connection_read_all_content 2 (complete_idle c1)) = Some c2 \<and>
    snd (evd_http_connection_read_all_content_finish c2) = (ascii ''hello'', 5) \<and> at_rest (ascii ''GET'') c2"
proof -
  have rh: "readable_head demo_request (ascii ''hello'' @ ascii ''GET'')" "ascii ''hello'' \<noteq> []"
    "length (ascii ''hello'') = 5" by code_simp+
  have "parsed_as demo_soup demo_request () ''POST'' ''/a'' 1 (length (ascii ''hello''))"
    by (simp add: parsed_as_def demo_soup_def SOUP_HTTP_1_1_def rh(3))
  moreover have "at_rest (head_text demo_request @ ascii ''hello'' @ ascii ''GET'') demo_input"
    "length (bi_buffer (hi_stream demo_input)) + HEADER_BLOCK_SIZE \<le> bi_buffer_size (hi_stream demo_input)"
    by (simp_all add: at_rest_def demo_input_def evd_http_connection_init_def evd_buffered_input_stream_init_def
        bi_content_def HEADER_BLOCK_SIZE_def)
  moreover have "length (head_text demo_request) \<le> sum_list (map (min HEADER_BLOCK_SIZE) [3, 40, 0, 30])"
    "3 \<le> hd [3, 40, 0, 30 :: nat]" "length (ascii ''hello'') \<le> sum_list (map (min CONTENT_BLOCK_SIZE) [2, 9])" by code_simp+
  ultimately show ?thesis using http_message_read [OF rh(1,2)] rh(3) by (metis (no_types, lifting))
qed

section \<open>What goes wrong\<close>

text \<open>
  When the first two bytes of a request arrive alone, the position where the search goes on is before
  the buffer, and the search ends at once: a head that is complete with the next block is not seen.
\<close>

lemma http_short_first_read:
  "map_option (\<lambda>c. (hi_idle c, hi_async_result c \<noteq> None, bi_content (hi_stream c)))
     (arrivals demo_soup [2, 200] (evd_http_connection_read_request_headers 1
        (evd_http_connection_init (evd_buffered_input_stream_init 8192 (head_text demo_request))))) = Some ([], True, [])"
  by code_simp

text \<open>
  The last block before the limit is smaller than the others, but as much is cut off as if it were
  not: bytes that were read before are lost, and the limit is never reached.
\<close>

lemma http_last_block_truncated:
  assumes "length (hi_buf c) = MAX_HEADERS_SIZE" "hi_async_result c = Some (res, tag)"
    and "evd_http_connection_find_end_headers_mark (take 16212 (hi_buf c)) (hi_last_headers_pos c) = Some (Mark (- 1))"
  shows "evd_http_connection_on_read_headers_block soup (Inr 84) c =
    Some (evd_http_connection_read_headers_block res (c\<lparr>hi_buf := take 16212 (hi_buf c), hi_last_headers_pos := 16209\<rparr>))"
  using assms by (simp add: evd_http_connection_on_read_headers_block_def HEADER_BLOCK_SIZE_def MAX_HEADERS_SIZE_def Let_def)

text \<open>Reading content of length zero leaves the connection pending: the next request is refused.\<close>

lemma http_empty_content_pending:
  assumes "at_rest str c" "hi_encoding c = SOUP_ENCODING_NONE"
  shows "hi_idle (evd_http_connection_read_request_headers r2 (evd_http_connection_read_all_content r1 c)) =
    hi_idle c @ [(r1, Done), (r2, Failed G_IO_ERROR_PENDING)]"
  using assms
  by (simp add: at_rest_def evd_http_connection_read_all_content_def evd_http_connection_read_request_headers_def
      evd_http_connection_read_headers_async_def set_pending_def complete_in_idle_def)

text \<open>So does an error while headers are read.\<close>

lemma http_failed_headers_pending:
  assumes "hi_async_result c = Some (r1, tag)" "hi_pending c" "\<not> hi_closed c"
    and "evd_http_connection_on_read_headers_block soup (Inl e) c = Some c'"
  shows "hi_idle (evd_http_connection_read_request_headers r2 c') =
    hi_idle c @ [(r1, Failed e), (r2, Failed G_IO_ERROR_PENDING)]"
  using assms
  by (auto simp: evd_http_connection_on_read_headers_block_def fail_headers_def complete_in_idle_def
      evd_http_connection_read_request_headers_def evd_http_connection_read_headers_async_def set_pending_def)

text \<open>
  Reading chunked content into a buffer of the caller decodes a block that does not exist. Reading
  content by its length does not start counting afresh: after a message of five bytes, the first byte
  of the next one ends it.
\<close>

lemma http_read_content_chunked_crash:
  assumes "hi_encoding c = SOUP_ENCODING_CHUNKED" "hi_last_buf_block c = None" "hi_async_result c = Some (r, Read_content)"
    and "0 < n"
  shows "evd_http_connection_on_read_content_block (Inr n) c = None"
  using assms by (simp add: evd_http_connection_on_read_content_block_def process_read_content_def)

lemma http_read_content_stale_count:
  assumes "hi_encoding c = SOUP_ENCODING_CONTENT_LENGTH" "hi_content_len c = 5" "hi_content_read c = 5"
    and "hi_async_result c = Some (r, Read_content)" "0 < n"
  shows "map_option hi_completed (evd_http_connection_on_read_content_block (Inr n) c) =
    Some (hi_completed c @ [(r, Content_read n False)])"
  using assms by (simp add: evd_http_connection_on_read_content_block_def process_read_content_def complete_now_def Let_def)

text \<open>A request without the header \<open>Host\<close> loses its path.\<close>

lemma http_no_host_no_path:
  assumes "soup_message_headers_get_one soup headers ''host'' = None"
  shows "evd_http_connection_build_uri soup False path headers = ''http://''"
  using assms by (simp add: evd_http_connection_build_uri_def)

end
