(* ===== verification/Web_Service.thy ===== *)
theory Web_Service
  imports Http_Reader "HOL-Library.Sublist"
begin

text \<open>
  Services: \<open>evd/evd-service.c\<close> (connections are validated, upgraded to TLS, accepted or rejected),
  \<open>evd/evd-web-service.c\<close> (requests are read, their origin is checked, responses are sent and
  connections go back to where they came from), \<open>evd/evd-web-selector.c\<close> (requests are handed to the
  service that matches) and the functions on origins of \<open>evd/evd-http-request.c\<close>. Services,
  connections and listeners are numbers.
\<close>

section \<open>Origins of requests\<close>

record soup_uri =
  uri_scheme :: string
  uri_host :: string
  uri_port :: nat
  uri_path :: string

datatype EvdValidateEnum = EVD_VALIDATE_ACCEPT | EVD_VALIDATE_REJECT | EVD_VALIDATE_PENDING

datatype EvdPolicy = EVD_POLICY_DENY | EVD_POLICY_ALLOW

text \<open>
  What the code does not decide: the functions of libsoup and of GRegex, the answers of the handlers
  of the two validation signals for a service and a connection, and whether headers and content of a
  response can be written to a connection, and a request unread. A URI that \<open>soup_uri_new\<close> does not
  accept is \<^term>\<open>None\<close>.
\<close>

record 'h web_env = "'h soup" +
  soup_uri_new :: "string \<Rightarrow> soup_uri option"
  soup_message_headers_new :: 'h
  soup_message_headers_replace :: "'h \<Rightarrow> string \<Rightarrow> string \<Rightarrow> 'h"
  soup_message_headers_set_content_length :: "'h \<Rightarrow> nat \<Rightarrow> 'h"
  g_regex_new :: "string \<Rightarrow> bool"
  g_regex_match :: "string \<Rightarrow> string \<Rightarrow> bool"
  we_validate :: "nat \<Rightarrow> nat \<Rightarrow> EvdValidateEnum list"
  we_validate_tls :: "nat \<Rightarrow> nat \<Rightarrow> EvdValidateEnum list"
  we_write_headers :: "nat \<Rightarrow> bool"
  we_write_content :: "nat \<Rightarrow> bool"
  we_unread :: "nat \<Rightarrow> bool"

definition evd_http_request_get_origin :: "'h web_env \<Rightarrow> 'h http_request \<Rightarrow> string option" where
  "evd_http_request_get_origin env r =
     (case soup_message_headers_get_one env (rq_headers r) ''Origin'' of
        None \<Rightarrow> soup_message_headers_get_one env (rq_headers r) ''Sec-WebSocket-Origin''
      | Some origin \<Rightarrow> Some origin)"

text \<open>
  Whether a request comes from another origin: its origin is not a prefix of scheme, host and port of
  the URI. Without a URI the code reads through NULL.
\<close>

definition evd_http_request_is_cross_origin :: "'h web_env \<Rightarrow> 'h http_request \<Rightarrow> bool option" where
  "evd_http_request_is_cross_origin env r =
     (case evd_http_request_get_origin env r of
        None \<Rightarrow> Some False
      | Some origin \<Rightarrow>
          map_option (\<lambda>uri. \<not> prefix origin
              (uri_scheme uri @ ''://'' @ uri_host uri @ '':'' @ decimal_string (uri_port uri)))
            (soup_uri_new env (rq_uri r)))"

definition evd_http_request_is_cors_preflight :: "'h web_env \<Rightarrow> 'h http_request \<Rightarrow> bool" where
  "evd_http_request_is_cors_preflight env r \<longleftrightarrow>
     rq_method r = ''OPTIONS'' \<and>
     soup_message_headers_get_one env (rq_headers r) ''Origin'' \<noteq> None \<and>
     (soup_message_headers_get_one env (rq_headers r) ''Access-Control-Request-Headers'' \<noteq> None \<or>
      soup_message_headers_get_one env (rq_headers r) ''Access-Control-Request-Method'' \<noteq> None)"

section \<open>State\<close>

datatype GType =
    EVD_TYPE_CONNECTION
  | EVD_TYPE_HTTP_CONNECTION
  | EVD_TYPE_SERVICE
  | EVD_TYPE_WEB_SERVICE
  | EVD_TYPE_WEB_SELECTOR

definition EVD_IS_CONNECTION :: "GType \<Rightarrow> bool" where
  "EVD_IS_CONNECTION t \<longleftrightarrow> t = EVD_TYPE_CONNECTION \<or> t = EVD_TYPE_HTTP_CONNECTION"

definition EVD_IS_WEB_SERVICE :: "GType \<Rightarrow> bool" where
  "EVD_IS_WEB_SERVICE t \<longleftrightarrow> t = EVD_TYPE_WEB_SERVICE \<or> t = EVD_TYPE_WEB_SELECTOR"

definition EVD_IS_SERVICE :: "GType \<Rightarrow> bool" where
  "EVD_IS_SERVICE t \<longleftrightarrow> t = EVD_TYPE_SERVICE \<or> EVD_IS_WEB_SERVICE t"

record EvdWebSelectorCandidate =
  cd_domain_pattern :: "string option"
  cd_path_pattern :: "string option"
  cd_service :: nat
  cd_freed :: bool

text \<open>
  A service with what its type adds: the first fields are those of all services, then come those of
  web services and of web selectors. \<open>sv_recursed\<close> is the flag of the group that a service is.
\<close>

record EvdService =
  sv_type :: GType
  sv_alive :: bool
  sv_recursed :: bool
  sv_listeners :: "nat list"
  sv_io_stream_type :: GType
  sv_tls_autostart :: bool
  sv_origins :: "string \<Rightarrow> bool option"
  sv_origin_policy :: EvdPolicy
  sv_candidates :: "EvdWebSelectorCandidate list"
  sv_default_service :: "nat option"

text \<open>
  A connection: its group, its flags as a stream (\<open>wc_pending\<close> is that of \<open>g_io_stream_set_pending\<close>),
  the request in hand, the service under \<open>RETURN_DATA_KEY\<close>, the validation hint with the references
  it took, the services that wait for TLS, for headers (\<open>wc_reading\<close>), or for the main loop to call
  them with the headers (\<open>wc_read_done\<close>), and the flushes that will return the connection or shut it
  down.
\<close>

record 'h web_conn =
  wc_group :: "nat option"
  wc_connected :: bool
  wc_closed :: bool
  wc_pending :: bool
  wc_tls_active :: bool
  wc_current_request :: "'h http_request option"
  wc_keepalive :: bool
  wc_return_to :: "nat option"
  wc_hint :: bool
  wc_hint_refs :: nat
  wc_tls_starting :: "nat option"
  wc_reading :: "nat option"
  wc_read_done :: "(nat \<times> (gio_error + 'h http_request)) list"
  wc_flushes :: nat
  wc_shutdowns :: nat

text \<open>A listening socket: its data \<open>evd-service\<close>, the services whose handlers it has, its references.\<close>

record listener =
  ls_service :: "nat option"
  ls_handlers :: "nat list"
  ls_refs :: nat

datatype 'h web_log =
    Connection_accepted nat nat
  | Connection_rejected nat nat
  | Request_headers nat nat "'h http_request"
  | Response nat nat nat 'h
  | Shutdown nat

record 'h web_world =
  ww_services :: "EvdService list"
  ww_conns :: "nat \<Rightarrow> 'h web_conn"
  ww_listeners :: "nat \<Rightarrow> listener"
  ww_log :: "'h web_log list"

text \<open>A service that is used; \<^term>\<open>None\<close> if it has been freed.\<close>

definition get_service :: "nat \<Rightarrow> 'h web_world \<Rightarrow> EvdService option" where
  "get_service s w =
     (if s < length (ww_services w) \<and> sv_alive (ww_services w ! s) then Some (ww_services w ! s) else None)"

definition upd_service :: "nat \<Rightarrow> (EvdService \<Rightarrow> EvdService) \<Rightarrow> 'h web_world \<Rightarrow> 'h web_world" where
  "upd_service s f w = w\<lparr>ww_services := (ww_services w)[s := f (ww_services w ! s)]\<rparr>"

definition upd_conn :: "nat \<Rightarrow> ('h web_conn \<Rightarrow> 'h web_conn) \<Rightarrow> 'h web_world \<Rightarrow> 'h web_world" where
  "upd_conn c f w = w\<lparr>ww_conns := (ww_conns w)(c := f (ww_conns w c))\<rparr>"

definition web_emit :: "'h web_log \<Rightarrow> 'h web_world \<Rightarrow> 'h web_world" where
  "web_emit ev w = w\<lparr>ww_log := ww_log w @ [ev]\<rparr>"

section \<open>Closing a connection\<close>

text \<open>
  \<open>g_io_stream_close\<close> is refused while the stream has an operation pending. A handshake that is under
  way ends with an error: \<open>evd_service_connection_on_tls_started\<close> is called, and its attempt to close
  the stream is refused. So does the reading of headers: \<open>evd_web_service_conn_on_headers_read\<close> is
  called with the error \<open>CLOSED\<close>, about which it does nothing. The stream leaves its group.
\<close>

definition web_stream_close :: "nat \<Rightarrow> 'h web_world \<Rightarrow> 'h web_world option" where
  "web_stream_close c w =
     (if wc_closed (ww_conns w c) \<or> wc_pending (ww_conns w c) then Some w
      else do {
        _ \<leftarrow> (case wc_tls_starting (ww_conns w c) of None \<Rightarrow> Some () | Some s \<Rightarrow> map_option (\<lambda>_. ()) (get_service s w));
        Some (upd_conn c (\<lambda>k. k\<lparr>wc_group := None, wc_connected := False, wc_closed := True, wc_tls_active := False,
          wc_tls_starting := None, wc_reading := None\<rparr>) w)
      })"

text \<open>A connection that the other side has closed, by \<open>evd_connection_close_in_idle_cb\<close>.\<close>

definition web_conn_hang_up :: "nat \<Rightarrow> 'h web_world \<Rightarrow> 'h web_world option" where
  "web_conn_hang_up c w =
     web_stream_close c (upd_conn c (\<lambda>k. k\<lparr>wc_connected := False, wc_pending := False\<rparr>) w)"

section \<open>Responses\<close>

definition evd_web_service_origin_allowed :: "EvdService \<Rightarrow> string \<Rightarrow> bool" where
  "evd_web_service_origin_allowed sv origin =
     (case sv_origins sv origin of
        None \<Rightarrow> sv_origin_policy sv = EVD_POLICY_ALLOW
      | Some allowed \<Rightarrow> allowed)"

definition evd_web_service_allow_origin :: "nat \<Rightarrow> string \<Rightarrow> 'h web_world \<Rightarrow> 'h web_world" where
  "evd_web_service_allow_origin s origin =
     upd_service s (\<lambda>sv. sv\<lparr>sv_origins := (sv_origins sv)(origin \<mapsto> True)\<rparr>)"

definition evd_web_service_deny_origin :: "nat \<Rightarrow> string \<Rightarrow> 'h web_world \<Rightarrow> 'h web_world" where
  "evd_web_service_deny_origin s origin =
     upd_service s (\<lambda>sv. sv\<lparr>sv_origins := (sv_origins sv)(origin \<mapsto> False)\<rparr>)"

definition evd_web_service_set_origin_policy :: "nat \<Rightarrow> EvdPolicy \<Rightarrow> 'h web_world \<Rightarrow> 'h web_world" where
  "evd_web_service_set_origin_policy s policy = upd_service s (\<lambda>sv. sv\<lparr>sv_origin_policy := policy\<rparr>)"

text \<open>The headers of a response and the version of HTTP it is sent with.\<close>

definition prepare_response_headers ::
    "'h web_env \<Rightarrow> nat \<Rightarrow> nat \<Rightarrow> 'h option \<Rightarrow> 'h web_world \<Rightarrow> ('h \<times> nat) option" where
  "prepare_response_headers env s c hdrs w =
     (let headers = (case hdrs of None \<Rightarrow> soup_message_headers_new env | Some h \<Rightarrow> h)
      in case wc_current_request (ww_conns w c) of
           None \<Rightarrow> Some (headers, SOUP_HTTP_1_1)
         | Some r \<Rightarrow> do {
             sv \<leftarrow> get_service s w;
             cross \<leftarrow> evd_http_request_is_cross_origin env r;
             let origin = evd_http_request_get_origin env r;
             Some (if cross \<and> evd_web_service_origin_allowed sv (the origin)
                   then soup_message_headers_replace env headers ''Access-Control-Allow-Origin'' (the origin)
                   else headers, rq_version r)
           })"

definition evd_http_connection_respond ::
    "'h web_env \<Rightarrow> nat \<Rightarrow> nat \<Rightarrow> nat \<Rightarrow> 'h \<Rightarrow> nat option \<Rightarrow> bool \<Rightarrow> 'h web_world \<Rightarrow> 'h web_world \<times> bool" where
  "evd_http_connection_respond env c ver status headers content close_after w =
     (let headers = soup_message_headers_replace env headers ''Connection''
            (if close_after \<or> \<not> wc_keepalive (ww_conns w c) then ''close'' else ''keep-alive'');
          headers = soup_message_headers_set_content_length env headers (case content of None \<Rightarrow> 0 | Some n \<Rightarrow> n)
      in if \<not> we_write_headers env c then (w, False)
         else (web_emit (Response c ver status headers) w, content = None \<or> we_write_content env c))"

text \<open>
  The two ways to end a response: flush and give the connection back, and flush and shut it down.
  Both go on when the main loop reports the flush.
\<close>

definition evd_web_service_flush_and_return_connection :: "nat \<Rightarrow> 'h web_world \<Rightarrow> 'h web_world" where
  "evd_web_service_flush_and_return_connection c = upd_conn c (\<lambda>k. k\<lparr>wc_flushes := wc_flushes k + 1\<rparr>)"

definition evd_connection_flush_and_shutdown :: "nat \<Rightarrow> 'h web_world \<Rightarrow> 'h web_world" where
  "evd_connection_flush_and_shutdown c = upd_conn c (\<lambda>k. k\<lparr>wc_shutdowns := wc_shutdowns k + 1\<rparr>)"

definition evd_connection_shutdown_on_flush :: "nat \<Rightarrow> 'h web_world \<Rightarrow> 'h web_world" where
  "evd_connection_shutdown_on_flush c w =
     web_emit (Shutdown c) (upd_conn c (\<lambda>k. k\<lparr>wc_shutdowns := wc_shutdowns k - 1\<rparr>) w)"

definition evd_web_service_respond_internal ::
    "'h web_env \<Rightarrow> nat \<Rightarrow> nat \<Rightarrow> nat \<Rightarrow> 'h option \<Rightarrow> nat option \<Rightarrow> 'h web_world \<Rightarrow> ('h web_world \<times> bool) option" where
  "evd_web_service_respond_internal env s c status headers content w = do {
     (hdrs, ver) \<leftarrow> prepare_response_headers env s c headers w;
     Some (case evd_http_connection_respond env c ver status hdrs content False w of
             (w, ok) \<Rightarrow>
               if ok then (evd_web_service_flush_and_return_connection c w, True)
               else (evd_connection_flush_and_shutdown c w, False))
   }"

definition evd_web_service_respond ::
    "'h web_env \<Rightarrow> nat \<Rightarrow> nat \<Rightarrow> nat \<Rightarrow> 'h option \<Rightarrow> nat option \<Rightarrow> 'h web_world \<Rightarrow> ('h web_world \<times> bool) option" where
  "evd_web_service_respond env s c status headers content w =
     evd_web_service_respond_internal env s c status headers content w"

text \<open>Headers alone; the content and the return of the connection are left to the caller.\<close>

definition evd_web_service_respond_headers ::
    "'h web_env \<Rightarrow> nat \<Rightarrow> nat \<Rightarrow> nat \<Rightarrow> 'h option \<Rightarrow> 'h web_world \<Rightarrow> ('h web_world \<times> bool) option" where
  "evd_web_service_respond_headers env s c status headers w = do {
     (hdrs, ver) \<leftarrow> prepare_response_headers env s c headers w;
     Some (if we_write_headers env c then (web_emit (Response c ver status hdrs) w, True) else (w, False))
   }"

section \<open>Checking a request\<close>

definition STATUS_OK :: nat where "STATUS_OK = 200"

definition SOUP_STATUS_FORBIDDEN :: nat where "SOUP_STATUS_FORBIDDEN = 403"

definition DEFAULT_CORS_PREFLIGHT_MAX_AGE :: string where "DEFAULT_CORS_PREFLIGHT_MAX_AGE = ''600''"

definition copy_header :: "'h web_env \<Rightarrow> 'h \<Rightarrow> string \<Rightarrow> string \<Rightarrow> 'h \<Rightarrow> 'h" where
  "copy_header env req_headers from to res_headers =
     (case soup_message_headers_get_one env req_headers from of
        None \<Rightarrow> res_headers
      | Some v \<Rightarrow> soup_message_headers_replace env res_headers to v)"

definition evd_web_service_respond_cors_preflight ::
    "'h web_env \<Rightarrow> nat \<Rightarrow> nat \<Rightarrow> 'h http_request \<Rightarrow> 'h web_world \<Rightarrow> 'h web_world option" where
  "evd_web_service_respond_cors_preflight env s c r w =
     (let req_headers = rq_headers r;
          headers = soup_message_headers_new env;
          headers = copy_header env req_headers ''Access-Control-Request-Headers'' ''Access-Control-Allow-Headers'' headers;
          headers = copy_header env req_headers ''Access-Control-Request-Method'' ''Access-Control-Allow-Methods'' headers;
          headers = soup_message_headers_replace env headers ''Access-Control-Max-Age'' DEFAULT_CORS_PREFLIGHT_MAX_AGE
      in map_option fst (evd_web_service_respond_internal env s c STATUS_OK (Some headers) None w))"

definition evd_web_service_validate_request ::
    "'h web_env \<Rightarrow> nat \<Rightarrow> nat \<Rightarrow> 'h http_request \<Rightarrow> 'h web_world \<Rightarrow> ('h web_world \<times> bool) option" where
  "evd_web_service_validate_request env s c r w = do {
     sv \<leftarrow> get_service s w;
     cross \<leftarrow> evd_http_request_is_cross_origin env r;
     if cross \<and> \<not> evd_web_service_origin_allowed sv (the (evd_http_request_get_origin env r)) then
       map_option (\<lambda>(w, _). (w, False))
         (evd_web_service_respond_internal env s c SOUP_STATUS_FORBIDDEN None None w)
     else if cross \<and> evd_http_request_is_cors_preflight env r then
       map_option (\<lambda>w. (w, False)) (evd_web_service_respond_cors_preflight env s c r w)
     else Some (w, True)
   }"

section \<open>Handing requests over\<close>

text \<open>
  Adding a connection to a service validates it, which may hand it over to another service. The
  function that adds is an argument here; \<open>service_dispatch\<close> below makes the calls.
\<close>

type_synonym 'h service_caller = "nat \<Rightarrow> nat \<Rightarrow> 'h web_world \<Rightarrow> ('h web_world \<times> bool) option"

text \<open>\<open>set_current_request\<close>, the data \<open>RETURN_DATA_KEY\<close> if there is none, and adding.\<close>

definition evd_web_service_add_connection_with_request ::
    "'h service_caller \<Rightarrow> nat \<Rightarrow> nat \<Rightarrow> 'h http_request \<Rightarrow> nat option \<Rightarrow> 'h web_world \<Rightarrow> ('h web_world \<times> bool) option" where
  "evd_web_service_add_connection_with_request call s c r return_to w =
     call s c (upd_conn c (\<lambda>k. k\<lparr>wc_current_request := Some r,
       wc_return_to := (if wc_return_to k = None then return_to else wc_return_to k)\<rparr>) w)"

text \<open>The candidate that matches; \<open>g_regex_match\<close> refuses a NULL domain.\<close>

definition candidate_matches :: "'h web_env \<Rightarrow> string option \<Rightarrow> string \<Rightarrow> EvdWebSelectorCandidate \<Rightarrow> bool" where
  "candidate_matches env domain path cd \<longleftrightarrow>
     (case cd_domain_pattern cd of
        None \<Rightarrow> True
      | Some p \<Rightarrow> (case domain of None \<Rightarrow> False | Some d \<Rightarrow> g_regex_match env p d)) \<and>
     (case cd_path_pattern cd of None \<Rightarrow> True | Some p \<Rightarrow> g_regex_match env p path)"

primrec evd_web_selector_find_match ::
    "'h web_env \<Rightarrow> EvdWebSelectorCandidate list \<Rightarrow> string option \<Rightarrow> string \<Rightarrow> nat option option" where
  "evd_web_selector_find_match env [] domain path = Some None"
| "evd_web_selector_find_match env (cd # cds) domain path =
     (if cd_freed cd then None
      else if candidate_matches env domain path cd then Some (Some (cd_service cd))
      else evd_web_selector_find_match env cds domain path)"

definition evd_web_selector_request_handler ::
    "'h web_env \<Rightarrow> 'h service_caller \<Rightarrow> nat \<Rightarrow> nat \<Rightarrow> 'h http_request \<Rightarrow> 'h web_world \<Rightarrow> 'h web_world option" where
  "evd_web_selector_request_handler env call s c r w = do {
     sv \<leftarrow> get_service s w;
     uri \<leftarrow> soup_uri_new env (rq_uri r);
     let domain = soup_message_headers_get_one env (rq_headers r) ''host'';
     found \<leftarrow> evd_web_selector_find_match env (sv_candidates sv) domain (uri_path uri);
     case (if found = None then sv_default_service sv else found) of
       None \<Rightarrow> map_option fst (evd_web_service_respond_internal env s c SOUP_STATUS_FORBIDDEN None None w)
     | Some t \<Rightarrow> do {
         tv \<leftarrow> get_service t w;
         if EVD_IS_WEB_SERVICE (sv_type tv)
         then map_option fst (evd_web_service_add_connection_with_request call t c r (Some s) w)
         else if we_unread env c then map_option fst (call t c w)
         else Some w
       }
   }"

text \<open>The handler of the class, which only the selector has, then the signal.\<close>

definition evd_web_service_invoke_request_handler ::
    "'h web_env \<Rightarrow> 'h service_caller \<Rightarrow> nat \<Rightarrow> nat \<Rightarrow> 'h http_request \<Rightarrow> 'h web_world \<Rightarrow> 'h web_world option" where
  "evd_web_service_invoke_request_handler env call s c r w = do {
     sv \<leftarrow> get_service s w;
     w \<leftarrow> (if sv_type sv = EVD_TYPE_WEB_SELECTOR then evd_web_selector_request_handler env call s c r w else Some w);
     Some (web_emit (Request_headers s c r) w)
   }"

text \<open>Reading headers starts at once, or fails with the next turn of the main loop.\<close>

definition web_read_request_headers :: "nat \<Rightarrow> nat \<Rightarrow> 'h web_world \<Rightarrow> 'h web_world" where
  "web_read_request_headers s c =
     upd_conn c (\<lambda>k.
       if wc_closed k then k\<lparr>wc_read_done := wc_read_done k @ [(s, Inl G_IO_ERROR_CLOSED)]\<rparr>
       else if wc_pending k then k\<lparr>wc_read_done := wc_read_done k @ [(s, Inl G_IO_ERROR_PENDING)]\<rparr>
       else k\<lparr>wc_pending := True, wc_keepalive := False, wc_reading := Some s\<rparr>)"

definition validate_and_invoke ::
    "'h web_env \<Rightarrow> 'h service_caller \<Rightarrow> nat \<Rightarrow> nat \<Rightarrow> 'h http_request \<Rightarrow> 'h web_world \<Rightarrow> 'h web_world option" where
  "validate_and_invoke env call s c r w = do {
     (w, ok) \<leftarrow> evd_web_service_validate_request env s c r w;
     if ok then evd_web_service_invoke_request_handler env call s c r w else Some w
   }"

definition evd_web_service_connection_accepted ::
    "'h web_env \<Rightarrow> 'h service_caller \<Rightarrow> nat \<Rightarrow> nat \<Rightarrow> 'h web_world \<Rightarrow> 'h web_world option" where
  "evd_web_service_connection_accepted env call s c w =
     (case wc_current_request (ww_conns w c) of
        Some r \<Rightarrow> validate_and_invoke env call s c r w
      | None \<Rightarrow> Some (web_read_request_headers s c w))"

section \<open>Services\<close>

text \<open>
  Starting TLS fails, with the next turn of the main loop, on a connection that is not connected; the
  service that waits for it is not referenced.
\<close>

definition evd_service_connection_starttls :: "nat \<Rightarrow> nat \<Rightarrow> 'h web_world \<Rightarrow> 'h web_world" where
  "evd_service_connection_starttls s c =
     upd_conn c (\<lambda>k. k\<lparr>wc_tls_starting := Some s, wc_tls_active := (wc_connected k \<or> wc_tls_active k)\<rparr>)"

definition accept_connection_priv ::
    "'h web_env \<Rightarrow> 'h service_caller \<Rightarrow> nat \<Rightarrow> nat \<Rightarrow> 'h web_world \<Rightarrow> 'h web_world option" where
  "accept_connection_priv env call s c w = do {
     sv \<leftarrow> get_service s w;
     if sv_tls_autostart sv \<and> \<not> wc_tls_active (ww_conns w c) then Some (evd_service_connection_starttls s c w)
     else if EVD_IS_WEB_SERVICE (sv_type sv)
     then evd_web_service_connection_accepted env call s c (web_emit (Connection_accepted s c) w)
     else Some (web_emit (Connection_accepted s c) w)
   }"

definition reject_connection_priv :: "nat \<Rightarrow> nat \<Rightarrow> 'h web_world \<Rightarrow> 'h web_world option" where
  "reject_connection_priv s c w = web_stream_close c (web_emit (Connection_rejected s c) w)"

text \<open>
  The value of a validation signal: the accumulator keeps the greater number and stops after a
  rejection.
\<close>

fun validate_number :: "EvdValidateEnum \<Rightarrow> nat" where
  "validate_number EVD_VALIDATE_ACCEPT = 0"
| "validate_number EVD_VALIDATE_REJECT = 1"
| "validate_number EVD_VALIDATE_PENDING = 2"

primrec evd_service_validate_conn_signal_acc :: "EvdValidateEnum list \<Rightarrow> EvdValidateEnum \<Rightarrow> EvdValidateEnum" where
  "evd_service_validate_conn_signal_acc [] acc = acc"
| "evd_service_validate_conn_signal_acc (ret # rets) acc =
     (let acc = (if validate_number ret > validate_number acc then ret else acc)
      in if ret = EVD_VALIDATE_REJECT then acc else evd_service_validate_conn_signal_acc rets acc)"

definition validation_result ::
    "'h web_env \<Rightarrow> 'h service_caller \<Rightarrow> EvdValidateEnum list \<Rightarrow> nat \<Rightarrow> nat \<Rightarrow> 'h web_world \<Rightarrow> 'h web_world option" where
  "validation_result env call answers s c w =
     (case evd_service_validate_conn_signal_acc answers EVD_VALIDATE_ACCEPT of
        EVD_VALIDATE_ACCEPT \<Rightarrow> accept_connection_priv env call s c w
      | EVD_VALIDATE_REJECT \<Rightarrow> reject_connection_priv s c w
      | EVD_VALIDATE_PENDING \<Rightarrow> Some (upd_conn c (\<lambda>k. k\<lparr>wc_hint := True, wc_hint_refs := wc_hint_refs k + 1\<rparr>) w))"

definition evd_service_validate_tls_connection ::
    "'h web_env \<Rightarrow> 'h service_caller \<Rightarrow> nat \<Rightarrow> nat \<Rightarrow> 'h web_world \<Rightarrow> 'h web_world option" where
  "evd_service_validate_tls_connection env call s c w = validation_result env call (we_validate_tls env s c) s c w"

definition evd_service_validate_connection ::
    "'h web_env \<Rightarrow> 'h service_caller \<Rightarrow> nat \<Rightarrow> nat \<Rightarrow> 'h web_world \<Rightarrow> 'h web_world option" where
  "evd_service_validate_connection env call s c w = validation_result env call (we_validate env s c) s c w"

text \<open>
  Setting the group of a connection, by \<open>evd_io_stream_set_group\<close>: services do not override the function
  that removes a connection, which sets the group to NULL, where it is already.
\<close>

definition conn_set_group ::
    "'h service_caller \<Rightarrow> nat \<Rightarrow> nat option \<Rightarrow> 'h web_world \<Rightarrow> ('h web_world \<times> bool) option" where
  "conn_set_group call c grp w =
     (if grp = wc_group (ww_conns w c) then Some (w, False)
      else
        let w = upd_conn c (\<lambda>k. k\<lparr>wc_group := grp\<rparr>) w
        in case grp of
             None \<Rightarrow> Some (w, True)
           | Some s \<Rightarrow> map_option (\<lambda>(w, _). (w, True)) (call s c w))"

definition evd_service_add :: "'h web_env \<Rightarrow> 'h service_caller \<Rightarrow> 'h service_caller" where
  "evd_service_add env call s c w =
     (if \<not> wc_connected (ww_conns w c) then Some (w, False)
      else do {
        (w, added) \<leftarrow> conn_set_group call c (Some s) w;
        if \<not> added then Some (w, False)
        else map_option (\<lambda>w. (w, True)) (evd_service_validate_connection env call s c w)
      })"

text \<open>\<open>evd_io_stream_group_add\<close> on a service.\<close>

definition service_group_add :: "'h web_env \<Rightarrow> 'h service_caller \<Rightarrow> 'h service_caller" where
  "service_group_add env call s c w = do {
     sv \<leftarrow> get_service s w;
     if sv_recursed sv then Some (w, True)
     else do {
       (w, result) \<leftarrow> evd_service_add env call s c (upd_service s (\<lambda>sv. sv\<lparr>sv_recursed := True\<rparr>) w);
       Some (upd_service s (\<lambda>sv. sv\<lparr>sv_recursed := False\<rparr>) w, result)
     }
   }"

primrec service_dispatch :: "'h web_env \<Rightarrow> nat \<Rightarrow> 'h service_caller" where
  "service_dispatch env 0 = (\<lambda>s c w. None)"
| "service_dispatch env (Suc n) = service_group_add env (service_dispatch env n)"

definition web_fuel :: "'h web_world \<Rightarrow> nat" where
  "web_fuel w = length (ww_services w) + 2"

text \<open>A call from outside.\<close>

definition service_call :: "'h web_env \<Rightarrow> 'h service_caller" where
  "service_call env s c w = service_dispatch env (web_fuel w) s c w"

text \<open>
  The handshake has ended; the service is read from the data of the callback. A pending validation
  is decided by the user: both functions check the type of the service where they mean the connection.
\<close>

definition evd_service_connection_on_tls_started ::
    "'h web_env \<Rightarrow> nat \<Rightarrow> nat \<Rightarrow> bool \<Rightarrow> 'h web_world \<Rightarrow> 'h web_world option" where
  "evd_service_connection_on_tls_started env s c ok w = do {
     _ \<leftarrow> get_service s w;
     if ok then evd_service_validate_tls_connection env (service_call env) s c w else web_stream_close c w
   }"

definition evd_service_accept_connection :: "'h web_env \<Rightarrow> nat \<Rightarrow> nat \<Rightarrow> 'h web_world \<Rightarrow> 'h web_world option" where
  "evd_service_accept_connection env s c w = do {
     sv \<leftarrow> get_service s w;
     if \<not> EVD_IS_SERVICE (sv_type sv) \<or> \<not> EVD_IS_CONNECTION (sv_type sv) \<or> \<not> wc_hint (ww_conns w c) then Some w
     else map_option (upd_conn c (\<lambda>k. k\<lparr>wc_hint_refs := wc_hint_refs k - 1\<rparr>))
       (accept_connection_priv env (service_call env) s c (upd_conn c (\<lambda>k. k\<lparr>wc_hint := False\<rparr>) w))
   }"

definition evd_service_reject_connection :: "nat \<Rightarrow> nat \<Rightarrow> 'h web_world \<Rightarrow> 'h web_world option" where
  "evd_service_reject_connection s c w = do {
     sv \<leftarrow> get_service s w;
     if \<not> EVD_IS_SERVICE (sv_type sv) \<or> \<not> EVD_IS_CONNECTION (sv_type sv) \<or> \<not> wc_hint (ww_conns w c) then Some w
     else map_option (upd_conn c (\<lambda>k. k\<lparr>wc_hint_refs := wc_hint_refs k - 1\<rparr>))
       (reject_connection_priv s c (upd_conn c (\<lambda>k. k\<lparr>wc_hint := False\<rparr>) w))
   }"

definition evd_service_set_tls_autostart :: "nat \<Rightarrow> bool \<Rightarrow> 'h web_world \<Rightarrow> 'h web_world" where
  "evd_service_set_tls_autostart s autostart = upd_service s (\<lambda>sv. sv\<lparr>sv_tls_autostart := autostart\<rparr>)"

section \<open>Listeners\<close>

definition upd_listener :: "nat \<Rightarrow> (listener \<Rightarrow> listener) \<Rightarrow> 'h web_world \<Rightarrow> 'h web_world" where
  "upd_listener l f w = w\<lparr>ww_listeners := (ww_listeners w)(l := f (ww_listeners w l))\<rparr>"

text \<open>The handlers are disconnected for the service in the data of the socket, whichever that is.\<close>

definition evd_service_listener_destroy :: "nat \<Rightarrow> 'h web_world \<Rightarrow> 'h web_world" where
  "evd_service_listener_destroy l =
     upd_listener l (\<lambda>k. k\<lparr>ls_handlers := filter (\<lambda>s. Some s \<noteq> ls_service k) (ls_handlers k), ls_refs := ls_refs k - 1\<rparr>)"

definition evd_service_add_listener :: "nat \<Rightarrow> nat \<Rightarrow> 'h web_world \<Rightarrow> 'h web_world" where
  "evd_service_add_listener s l w =
     (let w = upd_listener l (\<lambda>k. k\<lparr>ls_refs := ls_refs k + 1\<rparr>) w;
          w = (if l \<in> set (sv_listeners (ww_services w ! s)) then evd_service_listener_destroy l w
               else upd_service s (\<lambda>sv. sv\<lparr>sv_listeners := sv_listeners sv @ [l]\<rparr>) w)
      in upd_listener l (\<lambda>k. k\<lparr>ls_handlers := ls_handlers k @ [s], ls_service := Some s\<rparr>) w)"

definition evd_service_remove_listener :: "nat \<Rightarrow> nat \<Rightarrow> 'h web_world \<Rightarrow> 'h web_world" where
  "evd_service_remove_listener s l w =
     (if l \<in> set (sv_listeners (ww_services w ! s))
      then evd_service_listener_destroy l (upd_service s (\<lambda>sv. sv\<lparr>sv_listeners := remove1 l (sv_listeners sv)\<rparr>) w)
      else w)"

text \<open>The socket of \<open>evd_service_listen\<close>, which has one reference, listens or does not.\<close>

definition evd_service_socket_on_listen :: "nat \<Rightarrow> nat \<Rightarrow> bool \<Rightarrow> 'h web_world \<Rightarrow> 'h web_world" where
  "evd_service_socket_on_listen s l ok w =
     (if ok then upd_listener l (\<lambda>k. k\<lparr>ls_refs := ls_refs k - 1\<rparr>) (evd_service_add_listener s l w) else w)"

definition evd_service_listener_on_new_connection ::
    "'h web_env \<Rightarrow> nat \<Rightarrow> nat \<Rightarrow> 'h web_world \<Rightarrow> 'h web_world option" where
  "evd_service_listener_on_new_connection env c s w = map_option fst (service_call env s c w)"

definition evd_service_listener_on_close :: "nat \<Rightarrow> nat \<Rightarrow> 'h web_world \<Rightarrow> 'h web_world option" where
  "evd_service_listener_on_close l s w = map_option (\<lambda>_. evd_service_remove_listener s l w) (get_service s w)"

text \<open>A signal of the socket, which calls the handlers of the services.\<close>

primrec signal_handlers :: "(nat \<Rightarrow> 'h web_world \<Rightarrow> 'h web_world option) \<Rightarrow> nat list \<Rightarrow> 'h web_world \<Rightarrow> 'h web_world option" where
  "signal_handlers f [] w = Some w"
| "signal_handlers f (s # ss) w = Option.bind (f s w) (signal_handlers f ss)"

section \<open>Connections come back\<close>

definition evd_web_service_return_connection ::
    "'h web_env \<Rightarrow> nat \<Rightarrow> nat \<Rightarrow> 'h web_world \<Rightarrow> 'h web_world option" where
  "evd_web_service_return_connection env s c w =
     (if wc_closed (ww_conns w c) then Some w
      else
        let w = upd_conn c (\<lambda>k. k\<lparr>wc_current_request := None\<rparr>) w
        in if wc_keepalive (ww_conns w c) then
             (case wc_return_to (ww_conns w c) of
                Some t \<Rightarrow> map_option fst (service_call env t c (upd_conn c (\<lambda>k. k\<lparr>wc_return_to := None\<rparr>) w))
              | None \<Rightarrow> evd_web_service_connection_accepted env (service_call env) s c w)
           else Some (web_emit (Shutdown c) w))"

definition evd_web_service_connection_on_flush :: "'h web_env \<Rightarrow> nat \<Rightarrow> 'h web_world \<Rightarrow> 'h web_world option" where
  "evd_web_service_connection_on_flush env c w =
     (let w = upd_conn c (\<lambda>k. k\<lparr>wc_flushes := wc_flushes k - 1\<rparr>) w
      in case wc_group (ww_conns w c) of
           None \<Rightarrow> Some w
         | Some s \<Rightarrow> do {
             sv \<leftarrow> get_service s w;
             if EVD_IS_WEB_SERVICE (sv_type sv) then evd_web_service_return_connection env s c w else Some w
           })"

text \<open>
  Headers have arrived, or an error: the connection has its request, and the callback is put in the
  main loop. The flag \<open>pending\<close> is cleared when headers have been found, parsed or not (\<open>cleared\<close>), and
  stays set when reading failed.
\<close>

definition web_headers_arrived ::
    "'h web_env \<Rightarrow> nat \<Rightarrow> gio_error + 'h http_request \<Rightarrow> bool \<Rightarrow> 'h web_world \<Rightarrow> 'h web_world" where
  "web_headers_arrived env c res cleared =
     upd_conn c (\<lambda>k.
       case wc_reading k of
         None \<Rightarrow> k
       | Some s \<Rightarrow>
           let k = k\<lparr>wc_reading := None, wc_read_done := wc_read_done k @ [(s, res)]\<rparr>
           in case res of
                Inr r \<Rightarrow> k\<lparr>wc_pending := False, wc_current_request := Some r,
                  wc_keepalive := detect_keepalive (rq_version r)
                    (soup_message_headers_get_one env (rq_headers r) ''Connection'')\<rparr>
              | Inl e \<Rightarrow> k\<lparr>wc_pending := \<not> cleared\<rparr>)"

definition evd_web_service_conn_on_headers_read ::
    "'h web_env \<Rightarrow> nat \<Rightarrow> nat \<Rightarrow> gio_error + 'h http_request \<Rightarrow> 'h web_world \<Rightarrow> 'h web_world option" where
  "evd_web_service_conn_on_headers_read env s c res w =
     (case res of
        Inr r \<Rightarrow> validate_and_invoke env (service_call env) s c r w
      | Inl e \<Rightarrow> if e = G_IO_ERROR_CLOSED then Some w else web_stream_close c w)"

section \<open>Selectors\<close>

definition evd_web_selector_add_service ::
    "'h web_env \<Rightarrow> nat \<Rightarrow> string option \<Rightarrow> string option \<Rightarrow> nat \<Rightarrow> 'h web_world \<Rightarrow> 'h web_world \<times> bool" where
  "evd_web_selector_add_service env s domain_pattern path_pattern t w =
     (if (case domain_pattern of None \<Rightarrow> False | Some p \<Rightarrow> \<not> g_regex_new env p) \<or>
         (case path_pattern of None \<Rightarrow> False | Some p \<Rightarrow> \<not> g_regex_new env p) then (w, False)
      else (upd_service s (\<lambda>sv. sv\<lparr>sv_candidates := sv_candidates sv @
              [\<lparr>cd_domain_pattern = domain_pattern, cd_path_pattern = path_pattern, cd_service = t,
                cd_freed = False\<rparr>]\<rparr>) w, True))"

text \<open>
  Removing a service. After a match the loop steps to the next link, removes that link from the list
  and frees it, and frees the candidate that matched, which stays in the list; then it reads the
  freed link. After a match in the last link there is no next one: nothing is removed.
\<close>

function remove_loop ::
    "(EvdWebSelectorCandidate \<Rightarrow> bool) \<Rightarrow> nat \<Rightarrow> EvdWebSelectorCandidate list \<Rightarrow> EvdWebSelectorCandidate list option" where
  "remove_loop found i cds =
     (if length cds \<le> i then Some cds
      else if cd_freed (cds ! i) then None
      else if found (cds ! i) then
        (if Suc i < length cds then None else Some (cds[i := (cds ! i)\<lparr>cd_freed := True\<rparr>]))
      else remove_loop found (Suc i) cds)"
  by pat_completeness auto

termination by (relation "measure (\<lambda>(_, i, cds). length cds - i)") auto

declare remove_loop.simps [simp del]

definition evd_web_selector_remove_service ::
    "nat \<Rightarrow> string option \<Rightarrow> string option \<Rightarrow> nat \<Rightarrow> 'h web_world \<Rightarrow> 'h web_world option" where
  "evd_web_selector_remove_service s domain_pattern path_pattern t w =
     map_option (\<lambda>cds. upd_service s (\<lambda>sv. sv\<lparr>sv_candidates := cds\<rparr>) w)
       (remove_loop (\<lambda>cd. cd_domain_pattern cd = domain_pattern \<and> cd_path_pattern cd = path_pattern \<and> cd_service cd = t)
         0 (sv_candidates (ww_services w ! s)))"

definition evd_web_selector_set_default_service :: "nat \<Rightarrow> nat option \<Rightarrow> 'h web_world \<Rightarrow> 'h web_world" where
  "evd_web_selector_set_default_service s t = upd_service s (\<lambda>sv. sv\<lparr>sv_default_service := t\<rparr>)"

section \<open>New services, and their end\<close>

text \<open>\<open>evd_service_init\<close>, \<open>evd_web_service_init\<close> and \<open>evd_web_selector_init\<close>.\<close>

definition evd_service_init :: "GType \<Rightarrow> EvdService" where
  "evd_service_init t =
     \<lparr>sv_type = t, sv_alive = True, sv_recursed = False, sv_listeners = [],
      sv_io_stream_type = (if EVD_IS_WEB_SERVICE t then EVD_TYPE_HTTP_CONNECTION else EVD_TYPE_CONNECTION),
      sv_tls_autostart = False, sv_origins = (\<lambda>_. None), sv_origin_policy = EVD_POLICY_DENY,
      sv_candidates = [], sv_default_service = None\<rparr>"

text \<open>
  The last reference goes: the listeners are let go, the candidates freed, and the connections of the
  service and those that were to return to it are told through their weak references.
\<close>

definition evd_web_service_on_service_destroyed :: "'h web_conn \<Rightarrow> 'h web_conn" where
  "evd_web_service_on_service_destroyed k = k\<lparr>wc_return_to := None\<rparr>"

definition service_finalize :: "nat \<Rightarrow> 'h web_world \<Rightarrow> 'h web_world" where
  "service_finalize s w =
     (let w = fold evd_service_listener_destroy (sv_listeners (ww_services w ! s)) w;
          w = upd_service s (\<lambda>sv. sv\<lparr>sv_alive := False, sv_listeners := [], sv_candidates := [],
                sv_default_service := None\<rparr>) w
      in w\<lparr>ww_conns := (\<lambda>c.
             let k = ww_conns w c;
                 k = (if wc_group k = Some s then k\<lparr>wc_group := None\<rparr> else k)
             in if wc_return_to k = Some s then evd_web_service_on_service_destroyed k else k)\<rparr>)"

section \<open>Events\<close>

datatype 'h web_event =
    New_service GType
  | New_connection nat nat
  | Group_add nat nat
  | Add_with_request nat nat "'h http_request" "nat option"
  | Set_group nat "nat option"
  | Tls_started nat bool
  | Headers_arrived nat "gio_error + 'h http_request" bool
  | Headers_callback nat
  | Respond nat nat nat "'h option" "nat option"
  | Respond_headers nat nat nat "'h option"
  | Flushed nat
  | Flushed_shutdown nat
  | Hang_up nat
  | Close_conn nat
  | Accept_conn nat nat
  | Reject_conn nat nat
  | Allow_origin nat string
  | Deny_origin nat string
  | Origin_policy nat EvdPolicy
  | Tls_autostart nat bool
  | Add_service nat "string option" "string option" nat
  | Remove_service nat "string option" "string option" nat
  | Default_service nat "nat option"
  | Listening nat nat bool
  | Add_listener nat nat
  | Remove_listener nat nat
  | Listener_closed nat
  | Finalize nat

fun web_step :: "'h web_env \<Rightarrow> 'h web_event \<Rightarrow> 'h web_world \<Rightarrow> 'h web_world option" where
  "web_step env (New_service t) w = Some (w\<lparr>ww_services := ww_services w @ [evd_service_init t]\<rparr>)"
| "web_step env (New_connection l c) w =
     signal_handlers (evd_service_listener_on_new_connection env c) (ls_handlers (ww_listeners w l))
       (upd_conn c (\<lambda>k. k\<lparr>wc_connected := \<not> wc_closed k\<rparr>) w)"
| "web_step env (Group_add s c) w = map_option fst (service_call env s c w)"
| "web_step env (Add_with_request s c r return_to) w =
     map_option fst (evd_web_service_add_connection_with_request (service_call env) s c r return_to w)"
| "web_step env (Set_group c grp) w = map_option fst (conn_set_group (service_call env) c grp w)"
| "web_step env (Tls_started c ok) w =
     (case wc_tls_starting (ww_conns w c) of
        None \<Rightarrow> Some w
      | Some s \<Rightarrow> evd_service_connection_on_tls_started env s c ok (upd_conn c (\<lambda>k. k\<lparr>wc_tls_starting := None\<rparr>) w))"
| "web_step env (Headers_arrived c res cleared) w = Some (web_headers_arrived env c res cleared w)"
| "web_step env (Headers_callback c) w =
     (case wc_read_done (ww_conns w c) of
        [] \<Rightarrow> Some w
      | (s, res) # rest \<Rightarrow> evd_web_service_conn_on_headers_read env s c res (upd_conn c (\<lambda>k. k\<lparr>wc_read_done := rest\<rparr>) w))"
| "web_step env (Respond s c status headers content) w =
     map_option fst (evd_web_service_respond env s c status headers content w)"
| "web_step env (Respond_headers s c status headers) w =
     map_option fst (evd_web_service_respond_headers env s c status headers w)"
| "web_step env (Flushed c) w = evd_web_service_connection_on_flush env c w"
| "web_step env (Flushed_shutdown c) w = Some (evd_connection_shutdown_on_flush c w)"
| "web_step env (Hang_up c) w = web_conn_hang_up c w"
| "web_step env (Close_conn c) w = web_stream_close c w"
| "web_step env (Accept_conn s c) w = evd_service_accept_connection env s c w"
| "web_step env (Reject_conn s c) w = evd_service_reject_connection s c w"
| "web_step env (Allow_origin s origin) w = Some (evd_web_service_allow_origin s origin w)"
| "web_step env (Deny_origin s origin) w = Some (evd_web_service_deny_origin s origin w)"
| "web_step env (Origin_policy s policy) w = Some (evd_web_service_set_origin_policy s policy w)"
| "web_step env (Tls_autostart s on) w = Some (evd_service_set_tls_autostart s on w)"
| "web_step env (Add_service s domain_pattern path_pattern t) w =
     Some (fst (evd_web_selector_add_service env s domain_pattern path_pattern t w))"
| "web_step env (Remove_service s domain_pattern path_pattern t) w =
     evd_web_selector_remove_service s domain_pattern path_pattern t w"
| "web_step env (Default_service s t) w = Some (evd_web_selector_set_default_service s t w)"
| "web_step env (Listening s l ok) w =
     Some (evd_service_socket_on_listen s l ok (upd_listener l (\<lambda>k. k\<lparr>ls_refs := ls_refs k + 1\<rparr>) w))"
| "web_step env (Add_listener s l) w = Some (evd_service_add_listener s l w)"
| "web_step env (Remove_listener s l) w = Some (evd_service_remove_listener s l w)"
| "web_step env (Listener_closed l) w = signal_handlers (evd_service_listener_on_close l) (ls_handlers (ww_listeners w l)) w"
| "web_step env (Finalize s) w = Some (service_finalize s w)"

definition alive :: "'h web_world \<Rightarrow> nat \<Rightarrow> bool" where
  "alive w s \<longleftrightarrow> s < length (ww_services w) \<and> sv_alive (ww_services w ! s)"

definition is_selector :: "'h web_world \<Rightarrow> nat \<Rightarrow> bool" where
  "is_selector w s \<longleftrightarrow> alive w s \<and> sv_type (ww_services w ! s) = EVD_TYPE_WEB_SELECTOR"

definition is_web_service :: "'h web_world \<Rightarrow> nat \<Rightarrow> bool" where
  "is_web_service w s \<longleftrightarrow> alive w s \<and> EVD_IS_WEB_SERVICE (sv_type (ww_services w ! s))"

text \<open>
  When an event can happen: operations are on services that are alive; a service ends when no selector
  and no reading of headers holds a reference.
\<close>

definition unreferenced :: "'h web_world \<Rightarrow> nat \<Rightarrow> bool" where
  "unreferenced w s \<longleftrightarrow>
     (\<forall>sv \<in> set (ww_services w). sv_default_service sv \<noteq> Some s \<and> (\<forall>cd \<in> set (sv_candidates sv). cd_service cd \<noteq> s)) \<and>
     (\<forall>c. wc_reading (ww_conns w c) \<noteq> Some s \<and> s \<notin> fst ` set (wc_read_done (ww_conns w c)))"

fun web_possible :: "'h web_event \<Rightarrow> 'h web_world \<Rightarrow> bool" where
  "web_possible (New_service t) w \<longleftrightarrow> EVD_IS_SERVICE t"
| "web_possible (Group_add s c) w \<longleftrightarrow> alive w s"
| "web_possible (Add_with_request s c r return_to) w \<longleftrightarrow> is_web_service w s \<and> (\<forall>t. return_to = Some t \<longrightarrow> alive w t)"
| "web_possible (Set_group c grp) w \<longleftrightarrow> (\<forall>s. grp = Some s \<longrightarrow> alive w s)"
| "web_possible (Tls_started c ok) w \<longleftrightarrow> ok \<longrightarrow> wc_tls_active (ww_conns w c)"
| "web_possible (Respond s c status headers content) w \<longleftrightarrow> is_web_service w s"
| "web_possible (Respond_headers s c status headers) w \<longleftrightarrow> is_web_service w s"
| "web_possible (Flushed c) w \<longleftrightarrow> wc_flushes (ww_conns w c) > 0"
| "web_possible (Flushed_shutdown c) w \<longleftrightarrow> wc_shutdowns (ww_conns w c) > 0"
| "web_possible (Accept_conn s c) w \<longleftrightarrow> alive w s"
| "web_possible (Reject_conn s c) w \<longleftrightarrow> alive w s"
| "web_possible (Allow_origin s origin) w \<longleftrightarrow> is_web_service w s"
| "web_possible (Deny_origin s origin) w \<longleftrightarrow> is_web_service w s"
| "web_possible (Origin_policy s policy) w \<longleftrightarrow> is_web_service w s"
| "web_possible (Tls_autostart s on) w \<longleftrightarrow> alive w s"
| "web_possible (Add_service s domain_pattern path_pattern t) w \<longleftrightarrow> is_selector w s \<and> alive w t"
| "web_possible (Remove_service s domain_pattern path_pattern t) w \<longleftrightarrow> is_selector w s"
| "web_possible (Default_service s t) w \<longleftrightarrow> is_selector w s \<and> (\<forall>t'. t = Some t' \<longrightarrow> alive w t')"
| "web_possible (Listening s l ok) w \<longleftrightarrow> alive w s"
| "web_possible (Add_listener s l) w \<longleftrightarrow> alive w s"
| "web_possible (Remove_listener s l) w \<longleftrightarrow> alive w s"
| "web_possible (Finalize s) w \<longleftrightarrow> alive w s \<and> unreferenced w s"
| "web_possible e w \<longleftrightarrow> True"

text \<open>
  What the code does not see to and relies on: requests have a URI that libsoup accepts (lemma
  \<open>web_bad_uri_crashes\<close>), a service does not end while TLS is being started for it
  (\<open>service_tls_use_after_free\<close>), a socket listens for one service (\<open>service_shared_listener\<close>), and a
  service that is removed from a selector is none that it has (\<open>web_remove_service_corrupts\<close>). Runs leave
  such events out.
\<close>

fun web_spared :: "'h web_env \<Rightarrow> 'h web_event \<Rightarrow> 'h web_world \<Rightarrow> bool" where
  "web_spared env (Add_with_request s c r return_to) w \<longleftrightarrow> soup_uri_new env (rq_uri r) \<noteq> None"
| "web_spared env (Headers_arrived c res cleared) w \<longleftrightarrow> (\<forall>r. res = Inr r \<longrightarrow> soup_uri_new env (rq_uri r) \<noteq> None)"
| "web_spared env (Remove_service s domain_pattern path_pattern t) w \<longleftrightarrow>
     (\<forall>cd \<in> set (sv_candidates (ww_services w ! s)).
        \<not> (cd_domain_pattern cd = domain_pattern \<and> cd_path_pattern cd = path_pattern \<and> cd_service cd = t))"
| "web_spared env (Listening s l ok) w \<longleftrightarrow> ls_handlers (ww_listeners w l) = []"
| "web_spared env (Add_listener s l) w \<longleftrightarrow> set (ls_handlers (ww_listeners w l)) \<subseteq> {s}"
| "web_spared env (Finalize s) w \<longleftrightarrow> (\<forall>c. wc_tls_starting (ww_conns w c) \<noteq> Some s)"
| "web_spared env e w \<longleftrightarrow> True"

definition web_enabled :: "'h web_env \<Rightarrow> 'h web_event \<Rightarrow> 'h web_world \<Rightarrow> bool" where
  "web_enabled env e w \<longleftrightarrow> web_possible e w \<and> web_spared env e w"

declare web_enabled_def [simp]

definition web_try :: "'h web_world \<Rightarrow> 'h web_env \<times> 'h web_event \<Rightarrow> 'h web_world option" where
  "web_try w e = (if web_enabled (fst e) (snd e) w then web_step (fst e) (snd e) w else Some w)"

text \<open>The world before anything has happened.\<close>

definition new_conn :: "'h web_conn" where
  "new_conn = \<lparr>wc_group = None, wc_connected = False, wc_closed = False, wc_pending = False, wc_tls_active = False,
     wc_current_request = None, wc_keepalive = False, wc_return_to = None, wc_hint = False, wc_hint_refs = 0,
     wc_tls_starting = None, wc_reading = None, wc_read_done = [], wc_flushes = 0, wc_shutdowns = 0\<rparr>"

definition no_services :: "'h web_world" where
  "no_services = \<lparr>ww_services = [], ww_conns = (\<lambda>_. new_conn),
     ww_listeners = (\<lambda>_. \<lparr>ls_service = None, ls_handlers = [], ls_refs = 0\<rparr>), ww_log = []\<rparr>"

end
