(* ===== verification/Web_Properties.thy ===== *)
theory Web_Properties
  imports Web_Service
begin

text \<open>
  The properties of services, web services and selectors (\<open>Web_Service\<close>): every pointer leads to a service
  that is alive, handing over from service to service ends, requests of foreign origins are not
  handled, and a request goes from the selector to the service and the connection back.
\<close>

section \<open>What handing over keeps\<close>

text \<open>A request that a service may handle: of its own origin, or of one that is allowed, and no preflight.\<close>

definition origin_ok :: "'h web_env \<Rightarrow> EvdService \<Rightarrow> 'h http_request \<Rightarrow> bool" where
  "origin_ok env sv r \<longleftrightarrow>
     (case evd_http_request_is_cross_origin env r of
        None \<Rightarrow> False
      | Some cross \<Rightarrow> cross \<longrightarrow>
          evd_web_service_origin_allowed sv (the (evd_http_request_get_origin env r)) \<and>
          \<not> evd_http_request_is_cors_preflight env r)"

text \<open>The pointers of a connection lead to services that are alive, and its requests have URIs.\<close>

definition conn_ok :: "(string \<Rightarrow> soup_uri option) \<Rightarrow> 'h web_world \<Rightarrow> 'h web_conn \<Rightarrow> bool" where
  "conn_ok U w k \<longleftrightarrow>
     (\<forall>s. wc_group k = Some s \<longrightarrow> alive w s) \<and>
     (\<forall>s. wc_return_to k = Some s \<longrightarrow> alive w s) \<and>
     (\<forall>s. wc_tls_starting k = Some s \<longrightarrow> alive w s) \<and>
     (\<forall>s. wc_reading k = Some s \<longrightarrow> is_web_service w s) \<and>
     (\<forall>s res. (s, res) \<in> set (wc_read_done k) \<longrightarrow>
        is_web_service w s \<and> (\<forall>r. res = Inr r \<longrightarrow> U (rq_uri r) \<noteq> None)) \<and>
     (\<forall>r. wc_current_request k = Some r \<longrightarrow> U (rq_uri r) \<noteq> None)"

definition service_ok :: "'h web_world \<Rightarrow> EvdService \<Rightarrow> bool" where
  "service_ok w sv \<longleftrightarrow>
     EVD_IS_SERVICE (sv_type sv) \<and>
     (\<forall>cd \<in> set (sv_candidates sv). alive w (cd_service cd) \<and> \<not> cd_freed cd) \<and>
     (\<forall>s. sv_default_service sv = Some s \<longrightarrow> alive w s)"

definition web_world_ok :: "(string \<Rightarrow> soup_uri option) \<Rightarrow> 'h web_world \<Rightarrow> bool" where
  "web_world_ok U w \<longleftrightarrow> (\<forall>sv \<in> set (ww_services w). service_ok w sv) \<and> (\<forall>c. conn_ok U w (ww_conns w c))"

text \<open>
  Working on a connection leaves the services, the listeners and the other connections alone, and hands
  over only requests that may be handled.
\<close>

definition conn_kept :: "'h web_env \<Rightarrow> nat \<Rightarrow> 'h web_world \<Rightarrow> 'h web_world \<Rightarrow> bool" where
  "conn_kept env c w w' \<longleftrightarrow>
     ww_services w' = ww_services w \<and> ww_listeners w' = ww_listeners w \<and>
     (\<forall>d. d \<noteq> c \<longrightarrow> ww_conns w' d = ww_conns w d) \<and>
     (\<exists>new. ww_log w' = ww_log w @ new \<and>
        (\<forall>s d r. Request_headers s d r \<in> set new \<longrightarrow> origin_ok env (ww_services w ! s) r))"

lemma alive_get_service: "alive w s \<Longrightarrow> get_service s w = Some (ww_services w ! s)"
  by (simp add: alive_def get_service_def)

lemma alive_cong: "ww_services w' = ww_services w \<Longrightarrow> alive w' = alive w"
  by (auto simp: alive_def fun_eq_iff)

lemma is_web_service_cong: "ww_services w' = ww_services w \<Longrightarrow> is_web_service w' = is_web_service w"
  by (auto simp: is_web_service_def alive_def fun_eq_iff)

lemma upd_conn_simps [simp]:
  "ww_services (upd_conn c f w) = ww_services w"
  "ww_listeners (upd_conn c f w) = ww_listeners w"
  "ww_log (upd_conn c f w) = ww_log w"
  "ww_conns (upd_conn c f w) = (ww_conns w)(c := f (ww_conns w c))"
  by (simp_all add: upd_conn_def)

lemma web_emit_simps [simp]:
  "ww_services (web_emit ev w) = ww_services w"
  "ww_listeners (web_emit ev w) = ww_listeners w"
  "ww_log (web_emit ev w) = ww_log w @ [ev]"
  "ww_conns (web_emit ev w) = ww_conns w"
  by (simp_all add: web_emit_def)

lemma alive_simps [simp]:
  "alive (upd_conn c f w) = alive w" "alive (web_emit ev w) = alive w"
  "is_web_service (upd_conn c f w) = is_web_service w" "is_web_service (web_emit ev w) = is_web_service w"
  by (auto intro!: alive_cong is_web_service_cong)

lemma conn_ok_cong: "ww_services w' = ww_services w \<Longrightarrow> conn_ok U w' = conn_ok U w"
  using alive_cong [of w' w] is_web_service_cong [of w' w] by (simp add: conn_ok_def fun_eq_iff)

lemma service_ok_cong: "ww_services w' = ww_services w \<Longrightarrow> service_ok w' = service_ok w"
  using alive_cong [of w' w] by (simp add: service_ok_def fun_eq_iff)

lemma web_world_ok_conn: "web_world_ok U w \<Longrightarrow> conn_ok U w (ww_conns w c)"
  by (simp add: web_world_ok_def)

lemma web_world_ok_upd_conn: "web_world_ok U w \<Longrightarrow> conn_ok U w (f (ww_conns w c)) \<Longrightarrow> web_world_ok U (upd_conn c f w)"
  by (simp add: web_world_ok_def conn_ok_cong [of "upd_conn c f w" w] service_ok_cong [of "upd_conn c f w" w])

lemma web_world_ok_emit [simp]: "web_world_ok U (web_emit ev w) = web_world_ok U w"
  by (simp add: web_world_ok_def conn_ok_cong [of "web_emit ev w" w] service_ok_cong [of "web_emit ev w" w])

lemma conn_kept_refl [simp]: "conn_kept env c w w"
  by (simp add: conn_kept_def)

lemma conn_kept_trans: "conn_kept env c w w' \<Longrightarrow> conn_kept env c w' w'' \<Longrightarrow> conn_kept env c w w''"
  unfolding conn_kept_def
  by (elim conjE exE, intro conjI) (auto simp del: Ball_set)

lemma conn_kept_upd_conn [simp]: "conn_kept env c w (upd_conn c f w)"
  by (simp add: conn_kept_def)

lemma conn_kept_emit: "(\<And>s d r. ev = Request_headers s d r \<Longrightarrow> origin_ok env (ww_services w ! s) r) \<Longrightarrow> conn_kept env c w (web_emit ev w)"
  by (auto simp: conn_kept_def)

lemma conn_kept_alive: "conn_kept env c w w' \<Longrightarrow> alive w' = alive w"
  unfolding conn_kept_def by (blast intro: alive_cong)

lemma conn_kept_is_web_service: "conn_kept env c w w' \<Longrightarrow> is_web_service w' = is_web_service w"
  unfolding conn_kept_def by (blast intro: is_web_service_cong)

text \<open>A function that works on a connection: it is defined, and keeps all that.\<close>

definition works :: "(string \<Rightarrow> soup_uri option) \<Rightarrow> 'h web_env \<Rightarrow> nat \<Rightarrow> 'h web_world \<Rightarrow> 'h web_world option \<Rightarrow> bool" where
  "works U env c w x \<longleftrightarrow> (\<exists>w'. x = Some w' \<and> conn_kept env c w w' \<and> web_world_ok U w')"

lemma works_bind:
  assumes "works U env c w x" "\<And>w'. conn_kept env c w w' \<Longrightarrow> web_world_ok U w' \<Longrightarrow> works U env c w' (f w')"
  shows "works U env c w (Option.bind x f)"
  using assms unfolding works_def by (fastforce intro: conn_kept_trans)

lemma works_map:
  assumes "works U env c w x" "\<And>w'. conn_kept env c w w' \<Longrightarrow> web_world_ok U w' \<Longrightarrow> conn_kept env c w' (f w') \<and> web_world_ok U (f w')"
  shows "works U env c w (map_option f x)"
  using assms unfolding works_def by (fastforce intro: conn_kept_trans)

lemma works_from:
  assumes "conn_kept env c w w1" "works U env c w1 x"
  shows "works U env c w x"
  using assms unfolding works_def by (blast intro: conn_kept_trans)

lemma works_Some: "conn_kept env c w w' \<Longrightarrow> web_world_ok U w' \<Longrightarrow> works U env c w (Some w')"
  by (simp add: works_def)

lemma conn_ok_irrelevant [simp]:
  "conn_ok U w (k\<lparr>wc_flushes := n\<rparr>) = conn_ok U w k"
  "conn_ok U w (k\<lparr>wc_shutdowns := n\<rparr>) = conn_ok U w k"
  "conn_ok U w (k\<lparr>wc_hint := b\<rparr>) = conn_ok U w k"
  "conn_ok U w (k\<lparr>wc_hint_refs := n\<rparr>) = conn_ok U w k"
  "conn_ok U w (k\<lparr>wc_connected := b\<rparr>) = conn_ok U w k"
  "conn_ok U w (k\<lparr>wc_pending := b\<rparr>) = conn_ok U w k"
  "conn_ok U w (k\<lparr>wc_closed := b\<rparr>) = conn_ok U w k"
  "conn_ok U w (k\<lparr>wc_keepalive := b\<rparr>) = conn_ok U w k"
  "conn_ok U w (k\<lparr>wc_tls_active := b\<rparr>) = conn_ok U w k"
  by (simp_all add: conn_ok_def)

lemma conn_ok_cleared:
  "conn_ok U w k \<Longrightarrow> conn_ok U w (k\<lparr>wc_group := None\<rparr>)"
  "conn_ok U w k \<Longrightarrow> conn_ok U w (k\<lparr>wc_return_to := None\<rparr>)"
  "conn_ok U w k \<Longrightarrow> conn_ok U w (k\<lparr>wc_tls_starting := None\<rparr>)"
  "conn_ok U w k \<Longrightarrow> conn_ok U w (k\<lparr>wc_reading := None\<rparr>)"
  "conn_ok U w k \<Longrightarrow> conn_ok U w (k\<lparr>wc_current_request := None\<rparr>)"
  by (simp_all add: conn_ok_def)

lemma is_web_service_alive: "is_web_service w s \<Longrightarrow> alive w s"
  by (simp add: is_web_service_def)

lemma cross_origin_defined:
  assumes "soup_uri_new env = U" "U (rq_uri r) \<noteq> None"
  shows "\<exists>b. evd_http_request_is_cross_origin env r = Some b"
  using assms by (auto simp: evd_http_request_is_cross_origin_def split: option.splits)

lemma respond_internal_works:
  assumes "soup_uri_new env = U" "web_world_ok U w" "alive w s"
  shows "works U env c w (map_option fst (evd_web_service_respond_internal env s c status headers content w))"
proof -
  have "\<exists>p. prepare_response_headers env s c headers w = Some p"
  proof (cases "wc_current_request (ww_conns w c)")
    case None
    then show ?thesis by (simp add: prepare_response_headers_def)
  next
    case (Some r)
    with web_world_ok_conn [OF assms(2), of c] have "U (rq_uri r) \<noteq> None" by (simp add: conn_ok_def)
    then obtain b where "evd_http_request_is_cross_origin env r = Some b" using cross_origin_defined [OF assms(1)] by blast
    with Some show ?thesis by (simp add: prepare_response_headers_def alive_get_service [OF assms(3)] Let_def)
  qed
  then obtain h ver where p: "prepare_response_headers env s c headers w = Some (h, ver)" by auto
  have e: "conn_kept env c w (web_emit (Response c ver status h') w)" for h' by (rule conn_kept_emit) simp
  have u: "conn_kept env c w (upd_conn c f (web_emit (Response c ver status h') w))" for f h'
    using e conn_kept_upd_conn by (rule conn_kept_trans)
  show ?thesis
    using assms(2) web_world_ok_conn [OF assms(2), of c] u
    by (simp add: evd_web_service_respond_internal_def p evd_http_connection_respond_def Let_def works_def
        evd_web_service_flush_and_return_connection_def evd_connection_flush_and_shutdown_def
        web_world_ok_upd_conn conn_ok_cong [of "web_emit _ w" w])
qed

lemma stream_close_works:
  assumes "web_world_ok U w"
  shows "works U env c w (web_stream_close c w)"
  using assms web_world_ok_conn [OF assms, of c]
  by (auto simp: web_stream_close_def conn_ok_def alive_get_service intro!: works_Some web_world_ok_upd_conn split: option.splits)

text \<open>A check that succeeds has done nothing, and the request may be handled.\<close>

lemma validate_request_cases:
  assumes "soup_uri_new env = U" "web_world_ok U w" "alive w s" "U (rq_uri r) \<noteq> None"
  obtains "evd_web_service_validate_request env s c r w = Some (w, True)" "origin_ok env (ww_services w ! s) r"
  | w' where "evd_web_service_validate_request env s c r w = Some (w', False)" "conn_kept env c w w'" "web_world_ok U w'"
      "\<not> origin_ok env (ww_services w ! s) r"
proof -
  obtain b where b: "evd_http_request_is_cross_origin env r = Some b" using cross_origin_defined assms by blast
  have "works U env c w (map_option fst (evd_web_service_respond_internal env s c SOUP_STATUS_FORBIDDEN None None w))"
    using respond_internal_works assms by blast
  then obtain w1 x where forbidden: "evd_web_service_respond_internal env s c SOUP_STATUS_FORBIDDEN None None w = Some (w1, x)"
    and w1: "conn_kept env c w w1" "web_world_ok U w1" by (auto simp: works_def)
  have "works U env c w (evd_web_service_respond_cors_preflight env s c r w)"
    unfolding evd_web_service_respond_cors_preflight_def Let_def using respond_internal_works assms by blast
  then obtain w2 where preflight: "evd_web_service_respond_cors_preflight env s c r w = Some w2"
    and w2: "conn_kept env c w w2" "web_world_ok U w2" by (auto simp: works_def)
  note v = evd_web_service_validate_request_def alive_get_service [OF assms(3)] origin_ok_def
  consider (ok) "\<not> b \<or> evd_web_service_origin_allowed (ww_services w ! s) (the (evd_http_request_get_origin env r)) \<and>
      \<not> evd_http_request_is_cors_preflight env r"
    | (bad) "b" "\<not> evd_web_service_origin_allowed (ww_services w ! s) (the (evd_http_request_get_origin env r))"
    | (pre) "b" "evd_web_service_origin_allowed (ww_services w ! s) (the (evd_http_request_get_origin env r))"
      "evd_http_request_is_cors_preflight env r"
    by blast
  then show thesis
  proof cases
    case ok
    then show ?thesis using that(1) b by (auto simp: v)
  next
    case bad
    then show ?thesis using that(2) [OF _ w1] b forbidden by (simp add: v)
  next
    case pre
    then show ?thesis using that(2) [OF _ w2] b preflight by (simp add: v)
  qed
qed

text \<open>
  Handing over ends because a service that is adding a connection does not add another: the services
  that are free to add bound the depth of the calls.
\<close>

definition free_services :: "'h web_world \<Rightarrow> nat" where
  "free_services w = length (filter (\<lambda>sv. \<not> sv_recursed sv) (ww_services w))"

definition caller_works :: "(string \<Rightarrow> soup_uri option) \<Rightarrow> 'h web_env \<Rightarrow> nat \<Rightarrow> 'h service_caller \<Rightarrow> bool" where
  "caller_works U env m call \<longleftrightarrow>
     (\<forall>s c w. web_world_ok U w \<longrightarrow> alive w s \<longrightarrow> free_services w < m \<longrightarrow> works U env c w (map_option fst (call s c w)))"

lemma conn_kept_free: "conn_kept env c w w' \<Longrightarrow> free_services w' = free_services w"
  by (simp add: conn_kept_def free_services_def)

lemma find_match_alive:
  assumes "\<forall>cd \<in> set cds. alive w (cd_service cd) \<and> \<not> cd_freed cd"
  shows "\<exists>found. evd_web_selector_find_match env cds domain path = Some found \<and> (\<forall>t. found = Some t \<longrightarrow> alive w t)"
  using assms by (induction cds) auto

lemma add_with_request_works:
  assumes "caller_works U env m call" "web_world_ok U w" "alive w s" "U (rq_uri r) \<noteq> None" "\<And>t. return_to = Some t \<Longrightarrow> alive w t"
    and "free_services w < m"
  shows "works U env c w (map_option fst (evd_web_service_add_connection_with_request call s c r return_to w))"
proof -
  let ?w = "upd_conn c (\<lambda>k. k\<lparr>wc_current_request := Some r,
       wc_return_to := (if wc_return_to k = None then return_to else wc_return_to k)\<rparr>) w"
  have "web_world_ok U ?w"
    using assms(2,4,5) web_world_ok_conn [OF assms(2), of c] by (auto simp: conn_ok_def intro!: web_world_ok_upd_conn)
  moreover have "free_services ?w < m" using assms(6) by (simp add: free_services_def)
  ultimately have "works U env c ?w (map_option fst (call s c ?w))"
    using assms(1,3) by (simp add: caller_works_def)
  then show ?thesis
    unfolding evd_web_service_add_connection_with_request_def by (rule works_from [OF conn_kept_upd_conn])
qed

lemma selector_handler_works:
  assumes "soup_uri_new env = U" "caller_works U env m call" "web_world_ok U w" "alive w s" "U (rq_uri r) \<noteq> None"
    and "free_services w < m"
  shows "works U env c w (evd_web_selector_request_handler env call s c r w)"
proof -
  obtain uri where uri: "soup_uri_new env (rq_uri r) = Some uri" using assms(1,5) by auto
  have sv: "service_ok w (ww_services w ! s)" using assms(3,4) by (simp add: web_world_ok_def alive_def)
  then obtain found where found: "evd_web_selector_find_match env (sv_candidates (ww_services w ! s))
      (soup_message_headers_get_one env (rq_headers r) ''host'') (uri_path uri) = Some found"
    and t: "\<forall>t. found = Some t \<longrightarrow> alive w t"
    unfolding service_ok_def using find_match_alive by blast
  define target where "target = (if found = None then sv_default_service (ww_services w ! s) else found)"
  have target: "alive w t" if "target = Some t" for t
    using that t sv by (auto simp: target_def service_ok_def split: if_splits)
  have handler: "evd_web_selector_request_handler env call s c r w =
      (case target of
         None \<Rightarrow> map_option fst (evd_web_service_respond_internal env s c SOUP_STATUS_FORBIDDEN None None w)
       | Some t \<Rightarrow> (if EVD_IS_WEB_SERVICE (sv_type (ww_services w ! t))
           then map_option fst (evd_web_service_add_connection_with_request call t c r (Some s) w)
           else if we_unread env c then map_option fst (call t c w) else Some w))"
    using target
    by (simp add: evd_web_selector_request_handler_def alive_get_service assms(4) uri found Let_def target_def
        split: option.splits)
  show ?thesis
  proof (cases target)
    case None
    then show ?thesis using respond_internal_works assms by (simp add: handler)
  next
    case (Some t)
    with target have "alive w t" by blast
    then have "works U env c w (map_option fst (call t c w))" using assms by (simp add: caller_works_def)
    moreover have "works U env c w (map_option fst (evd_web_service_add_connection_with_request call t c r (Some s) w))"
      by (rule add_with_request_works [OF assms(2,3) \<open>alive w t\<close> assms(5) _ assms(6)]) (use assms(4) in simp)
    ultimately show ?thesis using Some assms(3) by (simp add: handler works_Some)
  qed
qed

lemma invoke_works:
  assumes "soup_uri_new env = U" "caller_works U env m call" "web_world_ok U w" "alive w s" "U (rq_uri r) \<noteq> None"
    and "free_services w < m" "origin_ok env (ww_services w ! s) r"
  shows "works U env c w (evd_web_service_invoke_request_handler env call s c r w)"
proof -
  have "works U env c w (if sv_type (ww_services w ! s) = EVD_TYPE_WEB_SELECTOR
      then evd_web_selector_request_handler env call s c r w else Some w)"
    using selector_handler_works [OF assms(1-6)] assms(3) by (simp add: works_Some)
  then show ?thesis
    unfolding evd_web_service_invoke_request_handler_def alive_get_service [OF assms(4)] bind.bind_lunit
    by (rule works_bind) (use assms(7) in \<open>auto simp: conn_kept_def intro!: works_Some conn_kept_emit\<close>)
qed

lemma validate_and_invoke_works:
  assumes "soup_uri_new env = U" "caller_works U env m call" "web_world_ok U w" "alive w s" "U (rq_uri r) \<noteq> None"
    and "free_services w < m"
  shows "works U env c w (validate_and_invoke env call s c r w)"
proof (cases rule: validate_request_cases [OF assms(1,3,4,5), of c])
  case 1
  then show ?thesis using invoke_works [OF assms] by (simp add: validate_and_invoke_def)
next
  case (2 w')
  then show ?thesis by (simp add: validate_and_invoke_def works_Some)
qed

lemma read_request_headers_works:
  assumes "web_world_ok U w" "is_web_service w s"
  shows "works U env c w (Some (web_read_request_headers s c w))"
  unfolding web_read_request_headers_def
  by (rule works_Some [OF conn_kept_upd_conn web_world_ok_upd_conn])
    (use assms web_world_ok_conn [OF assms(1), of c] in \<open>auto simp: conn_ok_def\<close>)

lemma connection_accepted_works:
  assumes "soup_uri_new env = U" "caller_works U env m call" "web_world_ok U w" "is_web_service w s" "free_services w < m"
  shows "works U env c w (evd_web_service_connection_accepted env call s c w)"
proof (cases "wc_current_request (ww_conns w c)")
  case None
  then show ?thesis
    using read_request_headers_works assms by (simp add: evd_web_service_connection_accepted_def)
next
  case (Some r)
  with web_world_ok_conn [OF assms(3), of c] have "U (rq_uri r) \<noteq> None" by (simp add: conn_ok_def)
  with Some show ?thesis
    using validate_and_invoke_works [OF assms(1-3) is_web_service_alive [OF assms(4)] _ assms(5)]
    by (simp add: evd_web_service_connection_accepted_def)
qed

lemma accept_works:
  assumes "soup_uri_new env = U" "caller_works U env m call" "web_world_ok U w" "alive w s" "free_services w < m"
  shows "works U env c w (accept_connection_priv env call s c w)"
proof -
  let ?e = "web_emit (Connection_accepted s c) w"
  have k: "conn_kept env c w ?e" by (rule conn_kept_emit) simp
  have "works U env c w (Some (evd_service_connection_starttls s c w))"
    unfolding evd_service_connection_starttls_def
    by (rule works_Some [OF conn_kept_upd_conn web_world_ok_upd_conn])
      (use assms(3,4) web_world_ok_conn [OF assms(3), of c] in \<open>auto simp: conn_ok_def\<close>)
  moreover have "works U env c w (Some ?e)" using k assms(3) by (simp add: works_Some)
  moreover have "works U env c w (evd_web_service_connection_accepted env call s c ?e)" if "is_web_service w s"
    using k connection_accepted_works [OF assms(1,2), of ?e s c] that assms(3,5)
    by (auto simp: free_services_def intro: works_from)
  ultimately show ?thesis
    using assms(4) by (simp add: accept_connection_priv_def alive_get_service is_web_service_def)
qed

lemma reject_works:
  assumes "web_world_ok U w"
  shows "works U env c w (reject_connection_priv s c w)"
  unfolding reject_connection_priv_def
  by (rule works_from [OF conn_kept_emit stream_close_works]) (use assms in auto)

lemma validation_result_works:
  assumes "soup_uri_new env = U" "caller_works U env m call" "web_world_ok U w" "alive w s" "free_services w < m"
  shows "works U env c w (validation_result env call answers s c w)"
  using accept_works [OF assms] reject_works [OF assms(3)] assms(3) web_world_ok_conn [OF assms(3), of c]
  by (auto simp: validation_result_def intro!: works_Some web_world_ok_upd_conn split: EvdValidateEnum.splits)

lemma set_group_works:
  assumes "caller_works U env m call" "web_world_ok U w" "\<And>s. grp = Some s \<Longrightarrow> alive w s" "free_services w < m"
  shows "works U env c w (map_option fst (conn_set_group call c grp w))"
proof -
  let ?w = "upd_conn c (\<lambda>k. k\<lparr>wc_group := grp\<rparr>) w"
  have ok: "web_world_ok U ?w"
    using assms(2,3) web_world_ok_conn [OF assms(2), of c] by (auto simp: conn_ok_def intro!: web_world_ok_upd_conn)
  have "works U env c w (map_option fst (call s c ?w))" if "grp = Some s" for s
    by (rule works_from [OF conn_kept_upd_conn, of _ _ _ "\<lambda>k. k\<lparr>wc_group := grp\<rparr>"])
      (use assms(1,4) ok assms(3) [OF that] in \<open>simp add: caller_works_def free_services_def\<close>)
  then show ?thesis
    using assms(2) ok
    by (cases grp)
      (simp_all add: conn_set_group_def Let_def option.map_comp comp_def case_prod_unfold works_Some)
qed

lemma works_pair: "works U env c w (map_option fst x) \<longleftrightarrow> (\<exists>w' b. x = Some (w', b) \<and> conn_kept env c w w' \<and> web_world_ok U w')"
  by (cases x) (auto simp: works_def)

lemma service_add_works:
  assumes "soup_uri_new env = U" "caller_works U env m call" "web_world_ok U w" "alive w s" "free_services w < m"
  shows "works U env c w (map_option fst (evd_service_add env call s c w))"
proof -
  from set_group_works [OF assms(2,3) _ assms(5), of "Some s" c] assms(4)
  obtain w' b where g: "conn_set_group call c (Some s) w = Some (w', b)" "conn_kept env c w w'" "web_world_ok U w'"
    by (auto simp: works_pair)
  then have "works U env c w' (evd_service_validate_connection env call s c w')"
    unfolding evd_service_validate_connection_def
    using assms(4,5) by (intro validation_result_works [OF assms(1,2)]) (simp_all add: conn_kept_alive [OF g(2)] conn_kept_free [OF g(2)])
  then have "works U env c w (evd_service_validate_connection env call s c w')" using g(2) works_from by blast
  then show ?thesis
    using assms(3) g by (auto simp: evd_service_add_def option.map_comp comp_def option.map_ident works_Some)
qed

text \<open>While a service adds, its flag is set; nothing else looks at it.\<close>

definition flagged :: "nat \<Rightarrow> bool \<Rightarrow> 'h web_world \<Rightarrow> 'h web_world" where
  "flagged s b = upd_service s (\<lambda>sv. sv\<lparr>sv_recursed := b\<rparr>)"

lemma flagged_simps [simp]:
  "ww_conns (flagged s b w) = ww_conns w" "ww_listeners (flagged s b w) = ww_listeners w" "ww_log (flagged s b w) = ww_log w"
  "ww_services (flagged s b w) = (ww_services w)[s := (ww_services w ! s)\<lparr>sv_recursed := b\<rparr>]"
  by (simp_all add: flagged_def upd_service_def)

lemma flagged_nth:
  "ww_services (flagged s b w) ! t =
     (if t = s \<and> s < length (ww_services w) then (ww_services w ! t)\<lparr>sv_recursed := b\<rparr> else ww_services w ! t)"
  by (cases "s < length (ww_services w)") (auto simp: nth_list_update list_update_beyond)

lemma flagged_alive [simp]: "alive (flagged s b w) = alive w" "is_web_service (flagged s b w) = is_web_service w"
  by (simp_all add: fun_eq_iff alive_def is_web_service_def flagged_nth del: flagged_simps(4)) (simp_all add: flagged_def upd_service_def)

lemma flagged_service_ok [simp]: "service_ok (flagged s b w) = service_ok w" "conn_ok U (flagged s b w) = conn_ok U w"
  by (auto simp: fun_eq_iff service_ok_def conn_ok_def)

lemma service_ok_flag [simp]: "service_ok w (sv\<lparr>sv_recursed := b\<rparr>) = service_ok w sv"
  by (simp add: service_ok_def)

lemma flagged_web_world_ok: "web_world_ok U w \<Longrightarrow> alive w s \<Longrightarrow> web_world_ok U (flagged s b w)"
  unfolding web_world_ok_def
  by (auto simp: alive_def dest!: set_update_subset_insert [THEN subsetD])

lemma flagged_free:
  assumes "alive w s" "\<not> sv_recursed (ww_services w ! s)"
  shows "Suc (free_services (flagged s True w)) = free_services w"
proof -
  let ?f = "\<lambda>sv. \<not> sv_recursed sv"
  have split: "ww_services w = take s (ww_services w) @ ww_services w ! s # drop (Suc s) (ww_services w)"
    using assms(1) by (simp add: alive_def id_take_nth_drop)
  then have "length (filter ?f (ww_services w)) =
      length (filter ?f (take s (ww_services w))) + Suc (length (filter ?f (drop (Suc s) (ww_services w))))"
    by (metis (no_types, lifting) assms(2) filter.simps(2) filter_append length_Cons length_append)
  then show ?thesis
    using assms(1) by (simp add: free_services_def alive_def upd_conv_take_nth_drop)
qed

lemma origin_ok_flag [simp]: "origin_ok env (sv\<lparr>sv_recursed := b\<rparr>) r = origin_ok env sv r"
  by (simp add: origin_ok_def evd_web_service_origin_allowed_def split: option.splits)

lemma origin_ok_flagged [simp]: "origin_ok env (ww_services (flagged s b w) ! t) r = origin_ok env (ww_services w ! t) r"
  by (simp add: flagged_nth del: flagged_simps)

lemma conn_kept_flagged:
  assumes "conn_kept env c (flagged s True w) w'" "\<not> sv_recursed (ww_services w ! s)" "s < length (ww_services w)"
  shows "conn_kept env c w (flagged s False w')"
proof -
  have "(ww_services w ! s)\<lparr>sv_recursed := False\<rparr> = ww_services w ! s" using assms(2) by simp
  then have "ww_services (flagged s False w') = ww_services w"
    using assms(1,3) by (simp add: conn_kept_def)
  then show ?thesis using assms(1) unfolding conn_kept_def by (simp del: flagged_simps(4))
qed

lemma group_add_works:
  fixes env :: "'h web_env"
  assumes "soup_uri_new env = U" "caller_works U env m call"
  shows "caller_works U env (Suc m) (service_group_add env call)"
  unfolding caller_works_def
proof (intro allI impI)
  fix s c and w :: "'h web_world"
  assume w: "web_world_ok U w" "alive w s" "free_services w < Suc m"
  show "works U env c w (map_option fst (service_group_add env call s c w))"
  proof (cases "sv_recursed (ww_services w ! s)")
    case True
    then show ?thesis using w by (simp add: service_group_add_def alive_get_service works_Some)
  next
    case False
    let ?w = "flagged s True w"
    have "works U env c ?w (map_option fst (evd_service_add env call s c ?w))"
      by (rule service_add_works [OF assms]) (use w False flagged_web_world_ok flagged_free in \<open>fastforce+\<close>)
    then obtain w' b where r: "evd_service_add env call s c ?w = Some (w', b)" "conn_kept env c ?w w'" "web_world_ok U w'"
      by (auto simp: works_pair)
    then have "conn_kept env c w (flagged s False w')" using False w(2) by (intro conn_kept_flagged) (auto simp: alive_def)
    moreover have "web_world_ok U (flagged s False w')"
      using r w(2) by (intro flagged_web_world_ok) (auto simp: conn_kept_alive)
    ultimately show ?thesis
      using w(2) False r(1) by (simp add: service_group_add_def alive_get_service flagged_def [symmetric] works_Some)
  qed
qed

lemma dispatch_works: "soup_uri_new env = U \<Longrightarrow> caller_works U env n (service_dispatch env n)"
proof (induction n)
  case 0
  then show ?case by (simp add: caller_works_def)
next
  case (Suc n)
  then show ?case using group_add_works by simp
qed

lemma service_call_works:
  assumes "soup_uri_new env = U" "web_world_ok U w" "alive w s"
  shows "works U env c w (map_option fst (service_call env s c w))"
proof -
  have "free_services w < web_fuel w" by (simp add: free_services_def web_fuel_def less_Suc_eq_le le_SucI)
  then show ?thesis
    using dispatch_works [OF assms(1), of "web_fuel w"] assms(2,3) by (simp add: service_call_def caller_works_def)
qed

section \<open>Every event keeps the services well-formed\<close>

text \<open>
  Between events no service is adding; the handlers of a listening socket are those of the one service
  that has it.
\<close>

definition listeners_ok :: "'h web_world \<Rightarrow> bool" where
  "listeners_ok w \<longleftrightarrow>
     (\<forall>l s. s \<in> set (ls_handlers (ww_listeners w l)) \<longrightarrow>
        alive w s \<and> l \<in> set (sv_listeners (ww_services w ! s)) \<and> ls_service (ww_listeners w l) = Some s) \<and>
     (\<forall>s l. alive w s \<longrightarrow> l \<in> set (sv_listeners (ww_services w ! s)) \<longrightarrow> ls_handlers (ww_listeners w l) = [s]) \<and>
     (\<forall>s. alive w s \<longrightarrow> distinct (sv_listeners (ww_services w ! s)))"

definition web_inv :: "(string \<Rightarrow> soup_uri option) \<Rightarrow> 'h web_world \<Rightarrow> bool" where
  "web_inv U w \<longleftrightarrow> web_world_ok U w \<and> listeners_ok w \<and> (\<forall>sv \<in> set (ww_services w). \<not> sv_recursed sv)"

lemma listeners_ok_handler:
  "listeners_ok w \<Longrightarrow> s \<in> set (ls_handlers (ww_listeners w l)) \<Longrightarrow>
     alive w s \<and> l \<in> set (sv_listeners (ww_services w ! s)) \<and> ls_service (ww_listeners w l) = Some s"
  by (simp only: listeners_ok_def)

lemma listeners_ok_has:
  "listeners_ok w \<Longrightarrow> alive w s \<Longrightarrow> l \<in> set (sv_listeners (ww_services w ! s)) \<Longrightarrow> ls_handlers (ww_listeners w l) = [s]"
  unfolding listeners_ok_def by blast

lemma listeners_ok_distinct: "listeners_ok w \<Longrightarrow> alive w s \<Longrightarrow> distinct (sv_listeners (ww_services w ! s))"
  unfolding listeners_ok_def by blast

lemma listeners_ok_cong:
  assumes "ww_listeners w' = ww_listeners w"
    and "\<And>s. alive w' s \<and> sv_listeners (ww_services w' ! s) \<noteq> [] \<longleftrightarrow> alive w s \<and> sv_listeners (ww_services w ! s) \<noteq> []"
    and "\<And>s. alive w s \<Longrightarrow> alive w' s \<Longrightarrow> sv_listeners (ww_services w' ! s) = sv_listeners (ww_services w ! s)"
    and "listeners_ok w"
  shows "listeners_ok w'"
  unfolding listeners_ok_def
proof (intro conjI allI impI)
  fix l s
  assume "s \<in> set (ls_handlers (ww_listeners w' l))"
  then have "alive w s" "l \<in> set (sv_listeners (ww_services w ! s))" "ls_service (ww_listeners w l) = Some s"
    using assms(1) listeners_ok_handler [OF assms(4), of s l] by simp_all
  moreover from this assms(2) [of s] have "alive w' s" by auto
  ultimately show "alive w' s" "l \<in> set (sv_listeners (ww_services w' ! s))" "ls_service (ww_listeners w' l) = Some s"
    using assms(1,3) by auto
next
  fix s l
  assume s: "alive w' s" "l \<in> set (sv_listeners (ww_services w' ! s))"
  then have "alive w s" using assms(2) [of s] by auto
  with s show "ls_handlers (ww_listeners w' l) = [s]" using assms(1) assms(3) [of s] listeners_ok_has [OF assms(4), of s l] by simp
next
  fix s
  assume s: "alive w' s"
  show "distinct (sv_listeners (ww_services w' ! s))"
  proof (cases "alive w s")
    case True
    with s assms(3) [of s] listeners_ok_distinct [OF assms(4), of s] show ?thesis by simp
  next
    case False
    with s assms(2) [of s] show ?thesis by auto
  qed
qed

lemma conn_kept_web_inv: "conn_kept env c w w' \<Longrightarrow> web_world_ok U w' \<Longrightarrow> web_inv U w \<Longrightarrow> web_inv U w'"
  using listeners_ok_cong [of w' w] conn_kept_alive [of env c w w'] by (simp add: web_inv_def conn_kept_def)

text \<open>What an event does to the services is one of four things; each keeps the invariant.\<close>

lemma works_web_inv: "works U env c w x \<Longrightarrow> web_inv U w \<Longrightarrow> \<exists>w'. x = Some w' \<and> web_inv U w'"
  by (auto simp: works_def intro: conn_kept_web_inv)

definition same_shape :: "EvdService \<Rightarrow> EvdService \<Rightarrow> bool" where
  "same_shape sv sv' \<longleftrightarrow> sv_type sv' = sv_type sv \<and> sv_alive sv' = sv_alive sv \<and> sv_recursed sv' = sv_recursed sv \<and>
     sv_listeners sv' = sv_listeners sv"

lemma upd_service_simps [simp]:
  "ww_conns (upd_service s f w) = ww_conns w" "ww_listeners (upd_service s f w) = ww_listeners w"
  "ww_log (upd_service s f w) = ww_log w"
  by (simp_all add: upd_service_def)

lemma upd_service_nth:
  "alive w s \<Longrightarrow> ww_services (upd_service s f w) ! t = (if t = s then f (ww_services w ! t) else ww_services w ! t)"
  "length (ww_services (upd_service s f w)) = length (ww_services w)"
  by (auto simp: upd_service_def alive_def nth_list_update)

lemma upd_service_web_inv:
  assumes "web_inv U w" "alive w s" "same_shape (ww_services w ! s) (f (ww_services w ! s))" "service_ok w (f (ww_services w ! s))"
  shows "web_inv U (upd_service s f w)"
proof -
  let ?w = "upd_service s f w"
  have a: "alive ?w = alive w" "is_web_service ?w = is_web_service w"
    using assms(2,3) by (auto simp: fun_eq_iff alive_def is_web_service_def same_shape_def upd_service_nth)
  have ok: "service_ok ?w = service_ok w" "conn_ok U ?w = conn_ok U w"
    by (auto simp: fun_eq_iff service_ok_def conn_ok_def a)
  have set: "sv \<in> set (ww_services ?w) \<Longrightarrow> sv = f (ww_services w ! s) \<or> sv \<in> set (ww_services w)" for sv
    by (auto simp: upd_service_def dest: set_update_subset_insert [THEN subsetD])
  have "\<not> sv_recursed (f (ww_services w ! s))"
    using assms(1,2,3) by (simp add: web_inv_def same_shape_def alive_def)
  moreover have "listeners_ok ?w"
    using assms(1-3) by (intro listeners_ok_cong [of ?w w]) (auto simp: web_inv_def a upd_service_nth same_shape_def)
  ultimately show ?thesis
    using assms(1,4) set by (auto simp: web_inv_def web_world_ok_def ok)
qed

lemma new_service_web_inv:
  assumes "web_inv U w" "EVD_IS_SERVICE t"
  shows "web_inv U (w\<lparr>ww_services := ww_services w @ [evd_service_init t]\<rparr>)"
proof -
  let ?w = "w\<lparr>ww_services := ww_services w @ [evd_service_init t]\<rparr>"
  have a: "alive w s \<Longrightarrow> alive ?w s" "is_web_service w s \<Longrightarrow> is_web_service ?w s" for s
    by (auto simp: alive_def is_web_service_def nth_append)
  have n: "alive ?w s \<Longrightarrow> alive w s \<or> ww_services ?w ! s = evd_service_init t" for s
    by (auto simp: alive_def nth_append less_Suc_eq)
  have old: "alive w s \<Longrightarrow> ww_services ?w ! s = ww_services w ! s" for s by (simp add: alive_def nth_append)
  have "conn_ok U w k \<Longrightarrow> conn_ok U ?w k" "service_ok w sv \<Longrightarrow> service_ok ?w sv" for k sv
    using a by (fastforce simp: conn_ok_def, fastforce simp: service_ok_def)
  moreover have "service_ok ?w (evd_service_init t)" "\<not> sv_recursed (evd_service_init t)"
    using assms(2) by (simp_all add: service_ok_def evd_service_init_def)
  moreover have "listeners_ok ?w"
  proof (rule listeners_ok_cong [of _ w])
    have "sv_listeners (evd_service_init t) = []" by (simp add: evd_service_init_def)
    then show "alive ?w s \<and> sv_listeners (ww_services ?w ! s) \<noteq> [] \<longleftrightarrow> alive w s \<and> sv_listeners (ww_services w ! s) \<noteq> []" for s
      using a(1) n old by metis
  qed (use assms(1) old in \<open>simp_all add: web_inv_def\<close>)
  ultimately show ?thesis using assms(1) by (auto simp: web_inv_def web_world_ok_def)
qed

text \<open>Taking a socket on, and letting sockets go.\<close>

definition socket_of :: "'h web_world \<Rightarrow> nat \<Rightarrow> nat option \<times> nat list" where
  "socket_of w l = (ls_service (ww_listeners w l), ls_handlers (ww_listeners w l))"

definition listeners_of :: "'h web_world \<Rightarrow> nat \<Rightarrow> nat list" where
  "listeners_of w s = sv_listeners (ww_services w ! s)"

lemma listeners_ok_attach:
  assumes "listeners_ok w" "alive w s" "ls_handlers (ww_listeners w l) = [] \<or> l \<in> set (listeners_of w s)"
    and "alive w' = alive w" "\<And>t. t \<noteq> s \<Longrightarrow> listeners_of w' t = listeners_of w t"
    and "set (listeners_of w' s) = insert l (set (listeners_of w s))" "distinct (listeners_of w' s)"
    and "\<And>l'. socket_of w' l' = (if l' = l then (Some s, [s]) else socket_of w l')"
  shows "listeners_ok w'"
proof -
  have other: "l \<notin> set (listeners_of w t)" if "alive w t" "t \<noteq> s" for t
    using that assms(3) listeners_ok_has [OF assms(1), of t l] listeners_ok_has [OF assms(1,2), of l]
    by (auto simp: listeners_of_def)
  have socket: "ls_service (ww_listeners w' l') = fst (socket_of w' l')" "ls_handlers (ww_listeners w' l') = snd (socket_of w' l')" for l'
    by (simp_all add: socket_of_def)
  show ?thesis
    unfolding listeners_ok_def socket assms(4,8) listeners_of_def [symmetric]
  proof (intro conjI allI impI)
    fix l' t
    assume "t \<in> set (snd (if l' = l then (Some s, [s]) else socket_of w l'))"
    then show "alive w t" "l' \<in> set (listeners_of w' t)" "fst (if l' = l then (Some s, [s]) else socket_of w l') = Some t"
      using assms(2,5,6) listeners_ok_handler [OF assms(1), of t l']
      by (auto simp: socket_of_def listeners_of_def split: if_splits) (metis insertI2 listeners_of_def)
  next
    fix t l'
    assume "alive w t" "l' \<in> set (listeners_of w' t)"
    then show "snd (if l' = l then (Some s, [s]) else socket_of w l') = [t]"
      using assms(5) [of t] assms(6) other [of t] listeners_ok_has [OF assms(1), of t l']
      by (cases "t = s") (auto simp: socket_of_def listeners_of_def)
  next
    fix t
    assume "alive w t"
    then show "distinct (listeners_of w' t)"
      using assms(5) [of t] assms(7) listeners_ok_distinct [OF assms(1), of t] by (cases "t = s") (auto simp: listeners_of_def)
  qed
qed

lemma listeners_ok_detach:
  assumes "listeners_ok w" "alive w s" "D \<subseteq> set (listeners_of w s)"
    and "\<And>t. alive w' t \<Longrightarrow> alive w t" "\<And>t. t \<noteq> s \<Longrightarrow> alive w t \<Longrightarrow> alive w' t \<and> listeners_of w' t = listeners_of w t"
    and "set (listeners_of w' s) = set (listeners_of w s) - D" "distinct (listeners_of w' s)"
    and "alive w' s \<or> D = set (listeners_of w s)"
    and "\<And>l. ls_handlers (ww_listeners w' l) = (if l \<in> D then [] else ls_handlers (ww_listeners w l))"
    and "\<And>l. ls_service (ww_listeners w' l) = ls_service (ww_listeners w l)"
  shows "listeners_ok w'"
  unfolding listeners_ok_def assms(9,10) listeners_of_def [symmetric]
proof (intro conjI allI impI)
  fix l t
  assume t: "t \<in> set (if l \<in> D then [] else ls_handlers (ww_listeners w l))"
  then have l: "l \<notin> D" "alive w t" "l \<in> set (listeners_of w t)" "ls_service (ww_listeners w l) = Some t"
    using listeners_ok_handler [OF assms(1), of t l] by (auto simp: listeners_of_def split: if_splits)
  then show "ls_service (ww_listeners w l) = Some t" by simp
  show "alive w' t" "l \<in> set (listeners_of w' t)"
    using l assms(5) [of t] assms(6,8) by (cases "t = s"; auto)+
next
  fix t l
  assume t: "alive w' t" "l \<in> set (listeners_of w' t)"
  then have "alive w t" using assms(4) by simp
  then have l: "l \<in> set (listeners_of w t)" "t = s \<longrightarrow> l \<notin> D" using t assms(5) [of t] assms(6) by (cases "t = s"; auto)+
  have "l \<notin> D"
    using l assms(3) listeners_ok_has [OF assms(1,2), of l] listeners_ok_has [OF assms(1) \<open>alive w t\<close>, of l]
    by (auto simp: listeners_of_def)
  then show "(if l \<in> D then [] else ls_handlers (ww_listeners w l)) = [t]"
    using l listeners_ok_has [OF assms(1) \<open>alive w t\<close>, of l] by (simp add: listeners_of_def)
next
  fix t
  assume "alive w' t"
  then show "distinct (listeners_of w' t)"
    using assms(4) [of t] assms(5) [of t] assms(7) listeners_ok_distinct [OF assms(1), of t]
    by (cases "t = s") (auto simp: listeners_of_def)
qed

lemma upd_listener_simps [simp]:
  "ww_services (upd_listener l f w) = ww_services w" "ww_conns (upd_listener l f w) = ww_conns w"
  "ww_log (upd_listener l f w) = ww_log w"
  "ww_listeners (upd_listener l f w) = (ww_listeners w)(l := f (ww_listeners w l))"
  by (simp_all add: upd_listener_def)

text \<open>World and connections do not see the sockets.\<close>

lemma web_world_ok_listeners:
  assumes "web_world_ok U w" "ww_conns w' = ww_conns w" "length (ww_services w') = length (ww_services w)"
    and "\<And>s. s < length (ww_services w) \<Longrightarrow> \<exists>ls. ww_services w' ! s = (ww_services w ! s)\<lparr>sv_listeners := ls\<rparr>"
  shows "web_world_ok U w'" "alive w' = alive w" "(\<forall>sv \<in> set (ww_services w). \<not> sv_recursed sv) \<longrightarrow> (\<forall>sv \<in> set (ww_services w'). \<not> sv_recursed sv)"
proof -
  have field: "sv_alive (ww_services w' ! s) = sv_alive (ww_services w ! s)" "sv_type (ww_services w' ! s) = sv_type (ww_services w ! s)"
    "sv_recursed (ww_services w' ! s) = sv_recursed (ww_services w ! s)"
    if "s < length (ww_services w)" for s
    using assms(4) [OF that] by auto
  then show a: "alive w' = alive w" using assms(3) by (auto simp: fun_eq_iff alive_def)
  have "is_web_service w' = is_web_service w" using field a by (auto simp: fun_eq_iff is_web_service_def alive_def)
  then have "conn_ok U w' = conn_ok U w" by (simp add: fun_eq_iff conn_ok_def a)
  moreover have "service_ok w' (ww_services w' ! s)" if "s < length (ww_services w)" for s
  proof -
    from assms(4) [OF that] obtain ls where "ww_services w' ! s = (ww_services w ! s)\<lparr>sv_listeners := ls\<rparr>" ..
    moreover have "service_ok w (ww_services w ! s)" using assms(1) that by (simp add: web_world_ok_def)
    ultimately show ?thesis by (simp add: service_ok_def a)
  qed
  ultimately show "web_world_ok U w'" using assms(1-3) by (auto simp: web_world_ok_def in_set_conv_nth)
  show "(\<forall>sv \<in> set (ww_services w). \<not> sv_recursed sv) \<longrightarrow> (\<forall>sv \<in> set (ww_services w'). \<not> sv_recursed sv)"
    using field(3) assms(3) by (metis in_set_conv_nth)
qed

lemma add_listener_web_inv:
  assumes "web_inv U w" "alive w s" "set (ls_handlers (ww_listeners w l)) \<subseteq> {s}"
  shows "web_inv U (evd_service_add_listener s l w)"
proof -
  let ?w = "evd_service_add_listener s l w"
  have lok: "listeners_ok w" using assms(1) by (simp add: web_inv_def)
  have l: "ls_handlers (ww_listeners w l) = [] \<or> l \<in> set (listeners_of w s)"
    using assms(3) listeners_ok_handler [OF lok, of s l] by (cases "ls_handlers (ww_listeners w l)") (auto simp: listeners_of_def)
  have shape: "ww_conns ?w = ww_conns w" "length (ww_services ?w) = length (ww_services w)"
    "ww_services ?w ! t = (if t = s \<and> l \<notin> set (listeners_of w s)
       then (ww_services w ! t)\<lparr>sv_listeners := listeners_of w s @ [l]\<rparr> else ww_services w ! t)" for t
    using assms(2)
    by (auto simp: evd_service_add_listener_def Let_def evd_service_listener_destroy_def listeners_of_def upd_service_def
        alive_def nth_list_update)
  have "\<exists>ls. ww_services ?w ! t = (ww_services w ! t)\<lparr>sv_listeners := ls\<rparr>" for t
    by (cases "t = s \<and> l \<notin> set (listeners_of w s)") (auto simp: shape intro: exI [of _ "sv_listeners (ww_services w ! t)"])
  note world = web_world_ok_listeners [OF _ shape(1,2) this, of U]
  have handlers: "filter (\<lambda>s'. Some s' \<noteq> ls_service (ww_listeners w l)) (ls_handlers (ww_listeners w l)) = []"
    using listeners_ok_handler [OF lok, of _ l] by (auto simp: filter_empty_conv)
  have "listeners_ok ?w"
  proof (rule listeners_ok_attach [OF lok assms(2) l])
    show "alive ?w = alive w" using world(2) assms(1) by (simp add: web_inv_def)
    show "listeners_of ?w t = listeners_of w t" if "t \<noteq> s" for t using that by (simp add: listeners_of_def shape)
    show "set (listeners_of ?w s) = insert l (set (listeners_of w s))" "distinct (listeners_of ?w s)"
      using listeners_ok_distinct [OF lok assms(2)] by (auto simp: listeners_of_def shape)
    show "socket_of ?w l' = (if l' = l then (Some s, [s]) else socket_of w l')" for l'
      using l handlers
      by (auto simp: socket_of_def evd_service_add_listener_def Let_def evd_service_listener_destroy_def listeners_of_def)
  qed
  then show ?thesis using world assms(1) by (simp add: web_inv_def)
qed

text \<open>A socket that a service has lets go of that service and of no other.\<close>

lemma listener_destroy_handlers:
  assumes "listeners_ok w" "alive w s" "l \<in> set (listeners_of w s)"
  shows "filter (\<lambda>s'. Some s' \<noteq> ls_service (ww_listeners w l)) (ls_handlers (ww_listeners w l)) = []"
  using listeners_ok_handler [OF assms(1), of _ l] by (auto simp: filter_empty_conv)

lemma remove_listener_web_inv:
  assumes "web_inv U w" "alive w s"
  shows "web_inv U (evd_service_remove_listener s l w)"
proof (cases "l \<in> set (listeners_of w s)")
  case False
  then show ?thesis using assms by (simp add: evd_service_remove_listener_def listeners_of_def)
next
  case True
  let ?w = "evd_service_remove_listener s l w"
  have lok: "listeners_ok w" using assms(1) by (simp add: web_inv_def)
  have shape: "ww_conns ?w = ww_conns w" "length (ww_services ?w) = length (ww_services w)"
    "ww_services ?w ! t = (if t = s then (ww_services w ! t)\<lparr>sv_listeners := remove1 l (listeners_of w s)\<rparr> else ww_services w ! t)" for t
    using assms(2) True
    by (auto simp: evd_service_remove_listener_def evd_service_listener_destroy_def listeners_of_def upd_service_def
        alive_def nth_list_update)
  have "\<exists>ls. ww_services ?w ! t = (ww_services w ! t)\<lparr>sv_listeners := ls\<rparr>" for t
    by (cases "t = s") (auto simp: shape intro: exI [of _ "sv_listeners (ww_services w ! t)"])
  note world = web_world_ok_listeners [OF _ shape(1,2) this, of U]
  have a: "alive ?w = alive w" using world(2) assms(1) by (simp add: web_inv_def)
  have d: "distinct (listeners_of w s)" using listeners_ok_distinct [OF lok assms(2)] by (simp add: listeners_of_def)
  have "listeners_ok ?w"
  proof (rule listeners_ok_detach [OF lok assms(2), of "{l}"])
    show "ls_handlers (ww_listeners ?w l') = (if l' \<in> {l} then [] else ls_handlers (ww_listeners w l'))"
      "ls_service (ww_listeners ?w l') = ls_service (ww_listeners w l')" for l'
      using True listener_destroy_handlers [OF lok assms(2) True]
      by (simp_all add: evd_service_remove_listener_def evd_service_listener_destroy_def listeners_of_def)
  qed (use True d assms(2) in \<open>simp_all add: a listeners_of_def shape set_remove1_eq distinct_remove1\<close>)
  then show ?thesis using world assms(1) by (simp add: web_inv_def)
qed

lemma upd_refs_web_inv: "web_inv U (upd_listener l (\<lambda>k. k\<lparr>ls_refs := f k\<rparr>) w) = web_inv U w"
proof -
  let ?w = "upd_listener l (\<lambda>k. k\<lparr>ls_refs := f k\<rparr>) w"
  have "ls_handlers (ww_listeners ?w l') = ls_handlers (ww_listeners w l')"
    "ls_service (ww_listeners ?w l') = ls_service (ww_listeners w l')" for l'
    by simp_all
  then have "listeners_ok ?w = listeners_ok w"
    unfolding listeners_ok_def by (simp only: alive_cong [of ?w w] upd_listener_simps)
  then show ?thesis
    by (simp add: web_inv_def web_world_ok_def conn_ok_cong [of ?w w] service_ok_cong [of ?w w])
qed

lemma fold_listener_destroy:
  "ww_services (fold evd_service_listener_destroy ls w) = ww_services w"
  "ww_conns (fold evd_service_listener_destroy ls w) = ww_conns w"
  "ls_service (ww_listeners (fold evd_service_listener_destroy ls w) l) = ls_service (ww_listeners w l)"
  "ls_handlers (ww_listeners (fold evd_service_listener_destroy ls w) l) =
     (if l \<in> set ls then filter (\<lambda>s'. Some s' \<noteq> ls_service (ww_listeners w l)) (ls_handlers (ww_listeners w l))
      else ls_handlers (ww_listeners w l))"
  by (induction ls arbitrary: w) (auto simp: evd_service_listener_destroy_def)

text \<open>The end of a service: nothing is left that leads to it.\<close>

lemma finalize_web_inv:
  assumes "web_inv U w" "alive w s" "unreferenced w s" "\<forall>c. wc_tls_starting (ww_conns w c) \<noteq> Some s"
  shows "web_inv U (service_finalize s w)"
proof -
  let ?w = "service_finalize s w"
  let ?v = "fold evd_service_listener_destroy (listeners_of w s) w"
  have lok: "listeners_ok w" using assms(1) by (simp add: web_inv_def)
  have len: "length (ww_services ?w) = length (ww_services w)"
    by (simp add: service_finalize_def Let_def upd_service_def fold_listener_destroy)
  have nth: "ww_services ?w ! t = (if t = s then (ww_services w ! s)\<lparr>sv_alive := False, sv_listeners := [], sv_candidates := [],
      sv_default_service := None\<rparr> else ww_services w ! t)" if "t < length (ww_services w)" for t
    using that by (simp add: service_finalize_def Let_def upd_service_def fold_listener_destroy nth_list_update)
  have a: "alive ?w t \<longleftrightarrow> alive w t \<and> t \<noteq> s" "is_web_service ?w t \<longleftrightarrow> is_web_service w t \<and> t \<noteq> s" for t
    using len nth by (auto simp: alive_def is_web_service_def split: if_splits)
  have conns: "ww_conns ?w c =
      (let k = ww_conns w c; k = (if wc_group k = Some s then k\<lparr>wc_group := None\<rparr> else k)
       in if wc_return_to k = Some s then evd_web_service_on_service_destroyed k else k)" for c
    by (simp add: service_finalize_def Let_def fold_listener_destroy)
  have "conn_ok U ?w (ww_conns ?w c)" for c
  proof -
    have u: "wc_reading (ww_conns w c) \<noteq> Some s" "wc_tls_starting (ww_conns w c) \<noteq> Some s"
      "(t, res) \<in> set (wc_read_done (ww_conns w c)) \<Longrightarrow> t \<noteq> s" for t res
      using assms(3,4) by (force simp: unreferenced_def)+
    have "conn_ok U w (ww_conns w c)" using assms(1) by (simp add: web_inv_def web_world_ok_def)
    then show ?thesis
      using u by (auto simp: conns conn_ok_def a evd_web_service_on_service_destroyed_def Let_def)
  qed
  moreover have "service_ok ?w sv" if "sv \<in> set (ww_services ?w)" for sv
  proof -
    from that obtain t where t: "t < length (ww_services w)" "sv = ww_services ?w ! t" by (auto simp: in_set_conv_nth len)
    then have ok: "service_ok w (ww_services w ! t)" and "ww_services w ! t \<in> set (ww_services w)"
      using assms(1) by (auto simp: web_inv_def web_world_ok_def)
    then have "sv_default_service (ww_services w ! t) \<noteq> Some s" "\<forall>cd \<in> set (sv_candidates (ww_services w ! t)). cd_service cd \<noteq> s"
      using assms(3) by (simp_all add: unreferenced_def)
    with ok show ?thesis by (auto simp: t nth service_ok_def a)
  qed
  moreover have "\<not> sv_recursed sv" if sv: "sv \<in> set (ww_services ?w)" for sv
  proof -
    from sv obtain t where "t < length (ww_services w)" "sv = ww_services ?w ! t" by (auto simp: in_set_conv_nth len)
    then show ?thesis using assms(1,2) by (auto simp: nth web_inv_def alive_def)
  qed
  moreover have "listeners_ok ?w"
  proof (rule listeners_ok_detach [OF lok assms(2), of "set (listeners_of w s)"])
    show "ls_handlers (ww_listeners ?w l) = (if l \<in> set (listeners_of w s) then [] else ls_handlers (ww_listeners w l))"
      "ls_service (ww_listeners ?w l) = ls_service (ww_listeners w l)" for l
      using listener_destroy_handlers [OF lok assms(2), of l]
      by (simp_all add: service_finalize_def Let_def fold_listener_destroy listeners_of_def)
  qed (use a nth assms(2) in \<open>auto simp: listeners_of_def alive_def\<close>)
  ultimately show ?thesis by (simp add: web_inv_def web_world_ok_def)
qed

lemma headers_arrived_works:
  assumes "web_world_ok U w" "\<And>r. res = Inr r \<Longrightarrow> U (rq_uri r) \<noteq> None"
  shows "works U env c w (Some (web_headers_arrived env c res cleared w))"
proof -
  have "conn_ok U w (case wc_reading (ww_conns w c) of
         None \<Rightarrow> ww_conns w c
       | Some s \<Rightarrow>
           let k = (ww_conns w c)\<lparr>wc_reading := None, wc_read_done := wc_read_done (ww_conns w c) @ [(s, res)]\<rparr>
           in case res of
                Inr r \<Rightarrow> k\<lparr>wc_pending := False, wc_current_request := Some r,
                  wc_keepalive := detect_keepalive (rq_version r)
                    (soup_message_headers_get_one env (rq_headers r) ''Connection'')\<rparr>
              | Inl e \<Rightarrow> k\<lparr>wc_pending := \<not> cleared\<rparr>)"
    using web_world_ok_conn [OF assms(1), of c] assms(2)
    by (cases "wc_reading (ww_conns w c)"; cases res) (auto simp: conn_ok_def)
  then show ?thesis
    unfolding web_headers_arrived_def by (intro works_Some conn_kept_upd_conn web_world_ok_upd_conn [OF assms(1)])
qed

lemma upd_conn_works:
  assumes "web_world_ok U w" "conn_ok U w (f (ww_conns w c))" "works U env c (upd_conn c f w) x"
  shows "works U env c w x"
  using works_from [OF conn_kept_upd_conn assms(3)] .

lemma web_fuel_enough: "free_services w < web_fuel w"
  by (simp add: free_services_def web_fuel_def less_Suc_eq_le le_SucI)

lemma caller_works_call:
  assumes "soup_uri_new env = U"
  shows "caller_works U env (Suc (free_services w)) (service_call env)"
  using service_call_works [OF assms] by (simp add: caller_works_def)

lemma tls_started_works:
  assumes "soup_uri_new env = U" "web_world_ok U w" "alive w s"
  shows "works U env c w (evd_service_connection_on_tls_started env s c ok w)"
  using validation_result_works [OF assms(1) caller_works_call [OF assms(1), of w] assms(2,3)] stream_close_works [OF assms(2)]
  by (simp add: evd_service_connection_on_tls_started_def alive_get_service [OF assms(3)] evd_service_validate_tls_connection_def)

lemma headers_read_works:
  assumes "soup_uri_new env = U" "web_world_ok U w" "alive w s" "\<And>r. res = Inr r \<Longrightarrow> U (rq_uri r) \<noteq> None"
  shows "works U env c w (evd_web_service_conn_on_headers_read env s c res w)"
  using validate_and_invoke_works [OF assms(1) caller_works_call [OF assms(1), of w] assms(2,3)] stream_close_works [OF assms(2)]
    assms(2,4)
  by (auto simp: evd_web_service_conn_on_headers_read_def works_Some split: sum.splits)

lemma return_connection_works:
  assumes "soup_uri_new env = U" "web_world_ok U w" "is_web_service w s"
  shows "works U env c w (evd_web_service_return_connection env s c w)"
proof (cases "wc_closed (ww_conns w c)")
  case True
  then show ?thesis using assms(2) by (simp add: evd_web_service_return_connection_def works_Some)
next
  case False
  let ?w = "upd_conn c (\<lambda>k. k\<lparr>wc_current_request := None\<rparr>) w"
  have ok: "web_world_ok U ?w" "conn_ok U ?w (ww_conns ?w c)"
    using assms(2) web_world_ok_conn [OF assms(2), of c] by (auto simp: conn_ok_def intro!: web_world_ok_upd_conn)
  have "works U env c ?w (evd_web_service_connection_accepted env (service_call env) s c ?w)"
    using connection_accepted_works [OF assms(1) caller_works_call [OF assms(1), of ?w] ok(1)] assms(3) by simp
  moreover have "works U env c ?w (Some (web_emit (Shutdown c) ?w))"
    by (rule works_Some [OF conn_kept_emit]) (use ok(1) in simp_all)
  moreover have "works U env c ?w (map_option fst (service_call env t c (upd_conn c (\<lambda>k. k\<lparr>wc_return_to := None\<rparr>) ?w)))"
    if "wc_return_to (ww_conns w c) = Some t" for t
  proof (rule upd_conn_works [OF ok(1)])
    show "conn_ok U ?w ((ww_conns ?w c)\<lparr>wc_return_to := None\<rparr>)" using ok(2) by (rule conn_ok_cleared)
    then have "web_world_ok U (upd_conn c (\<lambda>k. k\<lparr>wc_return_to := None\<rparr>) ?w)" by (rule web_world_ok_upd_conn [OF ok(1)])
    moreover have "alive ?w t" using ok(2) that by (simp add: conn_ok_def)
    ultimately show "works U env c (upd_conn c (\<lambda>k. k\<lparr>wc_return_to := None\<rparr>) ?w)
        (map_option fst (service_call env t c (upd_conn c (\<lambda>k. k\<lparr>wc_return_to := None\<rparr>) ?w)))"
      using service_call_works [OF assms(1)] by simp
  qed
  ultimately have "works U env c ?w (evd_web_service_return_connection env s c w)"
    using False by (simp add: evd_web_service_return_connection_def Let_def split: option.splits)
  then show ?thesis by (rule works_from [OF conn_kept_upd_conn])
qed

lemma on_flush_works:
  assumes "soup_uri_new env = U" "web_world_ok U w"
  shows "works U env c w (evd_web_service_connection_on_flush env c w)"
proof -
  let ?w = "upd_conn c (\<lambda>k. k\<lparr>wc_flushes := wc_flushes k - 1\<rparr>) w"
  have ok: "web_world_ok U ?w" "conn_ok U w (ww_conns w c)"
    using assms(2) web_world_ok_conn [OF assms(2), of c] by (auto intro!: web_world_ok_upd_conn)
  have "works U env c ?w (evd_web_service_connection_on_flush env c w)"
  proof (cases "wc_group (ww_conns w c)")
    case None
    then show ?thesis using ok(1) by (simp add: evd_web_service_connection_on_flush_def works_Some)
  next
    case (Some s)
    with ok(2) have "alive ?w s" by (simp add: conn_ok_def)
    moreover have "works U env c ?w (evd_web_service_return_connection env s c ?w)" if "is_web_service ?w s"
      using return_connection_works [OF assms(1) ok(1) that] .
    ultimately show ?thesis
      using Some ok(1) by (simp add: evd_web_service_connection_on_flush_def Let_def alive_get_service is_web_service_def works_Some)
  qed
  then show ?thesis by (rule works_from [OF conn_kept_upd_conn])
qed

lemma service_types: "web_world_ok U w \<Longrightarrow> alive w s \<Longrightarrow> \<not> EVD_IS_CONNECTION (sv_type (ww_services w ! s))"
proof -
  assume "web_world_ok U w" "alive w s"
  then have "EVD_IS_SERVICE (sv_type (ww_services w ! s))" by (simp add: web_world_ok_def service_ok_def alive_def)
  then show ?thesis by (auto simp: EVD_IS_SERVICE_def EVD_IS_WEB_SERVICE_def EVD_IS_CONNECTION_def)
qed

text \<open>Deciding on a pending connection has no effect.\<close>

lemma accept_connection_nothing:
  assumes "web_world_ok U w" "alive w s"
  shows "evd_service_accept_connection env s c w = Some w" "evd_service_reject_connection s c w = Some w"
  using assms service_types [OF assms]
  by (simp_all add: evd_service_accept_connection_def evd_service_reject_connection_def alive_get_service)

lemma respond_headers_works:
  assumes "soup_uri_new env = U" "web_world_ok U w" "alive w s"
  shows "works U env c w (map_option fst (evd_web_service_respond_headers env s c status headers w))"
proof -
  from respond_internal_works [OF assms, of c status headers None]
  obtain p where "prepare_response_headers env s c headers w = Some p"
    by (auto simp: works_def evd_web_service_respond_internal_def split: bind_splits)
  moreover have "conn_kept env c w (web_emit (Response c ver status h) w)" for ver h by (rule conn_kept_emit) simp
  ultimately show ?thesis
    using assms(2) by (cases p) (auto simp: evd_web_service_respond_headers_def works_Some)
qed

lemma signal_handlers_one [simp]: "signal_handlers f [s] w = f s w"
  by (cases "f s w") simp_all

lemma web_inv_handlers:
  assumes "web_inv U w"
  shows "ls_handlers (ww_listeners w l) = [] \<or> (\<exists>s. ls_handlers (ww_listeners w l) = [s] \<and> alive w s)"
proof (cases "ls_handlers (ww_listeners w l)")
  case Nil
  then show ?thesis by simp
next
  case (Cons s ss)
  then have "alive w s" "l \<in> set (sv_listeners (ww_services w ! s))"
    using assms listeners_ok_handler [of w s l] by (auto simp: web_inv_def)
  then show ?thesis using assms listeners_ok_has [of w s l] by (auto simp: web_inv_def)
qed

text \<open>The events that do more than call one function.\<close>

lemma new_connection_works:
  assumes "soup_uri_new env = U" "web_inv U w"
  shows "works U env c w (web_step env (New_connection l c) w)"
proof -
  let ?w = "upd_conn c (\<lambda>k. k\<lparr>wc_connected := \<not> wc_closed k\<rparr>) w"
  have ok: "web_world_ok U ?w" using assms(2) by (intro web_world_ok_upd_conn) (simp_all add: web_inv_def web_world_ok_def)
  then have "works U env c ?w (map_option fst (service_call env s c ?w))" if "alive w s" for s
    using service_call_works [OF assms(1)] that by simp
  then have "works U env c ?w (web_step env (New_connection l c) w)"
    using ok web_inv_handlers [OF assms(2), of l]
    by (auto simp: evd_service_listener_on_new_connection_def works_Some simp del: signal_handlers.simps(2))
  then show ?thesis by (rule works_from [OF conn_kept_upd_conn])
qed

lemma tls_event_works:
  assumes "soup_uri_new env = U" "web_world_ok U w"
  shows "works U env c w (web_step env (Tls_started c b) w)"
proof (cases "wc_tls_starting (ww_conns w c)")
  case None
  then show ?thesis using assms(2) by (simp add: works_Some)
next
  case (Some s)
  let ?w = "upd_conn c (\<lambda>k. k\<lparr>wc_tls_starting := None\<rparr>) w"
  have k: "conn_ok U w (ww_conns w c)" using web_world_ok_conn [OF assms(2)] .
  have "web_world_ok U ?w" using web_world_ok_upd_conn [OF assms(2)] conn_ok_cleared(3) [OF k] by blast
  then have "works U env c ?w (evd_service_connection_on_tls_started env s c b ?w)"
    using tls_started_works [OF assms(1)] Some k by (simp add: conn_ok_def)
  then have "works U env c w (evd_service_connection_on_tls_started env s c b ?w)" by (rule works_from [OF conn_kept_upd_conn])
  with Some show ?thesis by simp
qed

lemma headers_callback_works:
  assumes "soup_uri_new env = U" "web_world_ok U w"
  shows "works U env c w (web_step env (Headers_callback c) w)"
proof (cases "wc_read_done (ww_conns w c)")
  case Nil
  then show ?thesis using assms(2) by (simp add: works_Some)
next
  case (Cons p rest)
  have k: "conn_ok U w (ww_conns w c)" using web_world_ok_conn [OF assms(2)] .
  obtain s res where p: "p = (s, res)" by (cases p)
  let ?w = "upd_conn c (\<lambda>k. k\<lparr>wc_read_done := rest\<rparr>) w"
  have s: "is_web_service w s" "\<And>r. res = Inr r \<Longrightarrow> U (rq_uri r) \<noteq> None" using k Cons p by (auto simp: conn_ok_def)
  have "web_world_ok U ?w" using assms(2) k Cons by (intro web_world_ok_upd_conn) (auto simp: conn_ok_def)
  then have "works U env c ?w (evd_web_service_conn_on_headers_read env s c res ?w)"
    using headers_read_works [OF assms(1) _ _ s(2)] s(1) by (simp add: is_web_service_def)
  then have "works U env c w (evd_web_service_conn_on_headers_read env s c res ?w)" by (rule works_from [OF conn_kept_upd_conn])
  with Cons p show ?thesis by simp
qed

text \<open>The events that work on one connection.\<close>

fun conn_event :: "'h web_event \<Rightarrow> nat option" where
  "conn_event (Group_add s c) = Some c"
| "conn_event (Add_with_request s c r return_to) = Some c"
| "conn_event (Set_group c grp) = Some c"
| "conn_event (Tls_started c ok) = Some c"
| "conn_event (Headers_arrived c res cleared) = Some c"
| "conn_event (Headers_callback c) = Some c"
| "conn_event (Respond s c status headers content) = Some c"
| "conn_event (Respond_headers s c status headers) = Some c"
| "conn_event (Flushed c) = Some c"
| "conn_event (Flushed_shutdown c) = Some c"
| "conn_event (Hang_up c) = Some c"
| "conn_event (Close_conn c) = Some c"
| "conn_event (Accept_conn s c) = Some c"
| "conn_event (Reject_conn s c) = Some c"
| "conn_event (New_connection l c) = Some c"
| "conn_event e = None"

lemma conn_event_works:
  assumes "soup_uri_new env = U" "web_inv U w" "web_enabled env e w" "conn_event e = Some c"
  shows "works U env c w (web_step env e w)"
proof -
  have ok: "web_world_ok U w" and k: "conn_ok U w (ww_conns w c)" using assms(2) by (simp_all add: web_inv_def web_world_ok_def)
  note call = caller_works_call [OF assms(1), of w]
  show ?thesis
  proof (cases e)
    case (New_connection l d)
    then show ?thesis using new_connection_works [OF assms(1,2)] assms(4) by simp
  next
    case (Group_add s d)
    then show ?thesis using service_call_works [OF assms(1) ok] assms(3,4) by simp
  next
    case (Add_with_request s d r return_to)
    then have "works U env c w (map_option fst (evd_web_service_add_connection_with_request (service_call env) s c r return_to w))"
      using assms(1,3) by (intro add_with_request_works [OF call ok]) (auto simp: is_web_service_def)
    with Add_with_request assms(4) show ?thesis by simp
  next
    case (Set_group d grp)
    then show ?thesis using set_group_works [OF call ok] assms(3,4) by simp
  next
    case (Tls_started d b)
    then show ?thesis using tls_event_works [OF assms(1) ok] assms(4) by simp
  next
    case (Headers_arrived d res cleared)
    then show ?thesis using headers_arrived_works [OF ok, of res env c cleared] assms(1,3,4) by simp
  next
    case (Headers_callback d)
    then show ?thesis using headers_callback_works [OF assms(1) ok] assms(4) by simp
  next
    case (Flushed_shutdown d)
    let ?w = "upd_conn c (\<lambda>k. k\<lparr>wc_shutdowns := wc_shutdowns k - 1\<rparr>) w"
    have "conn_kept env c w (web_emit (Shutdown c) ?w)"
      by (rule conn_kept_trans [OF conn_kept_upd_conn conn_kept_emit]) simp
    then show ?thesis
      using Flushed_shutdown assms(4) ok k by (simp add: evd_connection_shutdown_on_flush_def works_Some web_world_ok_upd_conn)
  next
    case (Hang_up d)
    let ?w = "upd_conn c (\<lambda>k. k\<lparr>wc_connected := False, wc_pending := False\<rparr>) w"
    have "web_world_ok U ?w" using ok k by (intro web_world_ok_upd_conn) simp_all
    then have "works U env c w (web_stream_close c ?w)" by (rule works_from [OF conn_kept_upd_conn stream_close_works])
    then show ?thesis using Hang_up assms(4) by (simp add: web_conn_hang_up_def)
  qed (use assms ok respond_internal_works [OF assms(1) ok] respond_headers_works [OF assms(1) ok] on_flush_works [OF assms(1) ok]
      stream_close_works [OF ok] accept_connection_nothing [OF ok]
      in \<open>auto simp: evd_web_service_respond_def is_web_service_def works_Some\<close>)
qed

text \<open>Removing a service that a selector does not have does nothing.\<close>

lemma remove_loop_absent:
  "\<forall>cd \<in> set cds. \<not> found cd \<and> \<not> cd_freed cd \<Longrightarrow> remove_loop found i cds = Some cds"
  by (induction found i cds rule: remove_loop.induct) (subst remove_loop.simps, auto)

lemma remove_absent_service:
  assumes "service_ok w (ww_services w ! s)" "alive w s"
    and "\<forall>cd \<in> set (sv_candidates (ww_services w ! s)).
      \<not> (cd_domain_pattern cd = domain_pattern \<and> cd_path_pattern cd = path_pattern \<and> cd_service cd = t)"
  shows "evd_web_selector_remove_service s domain_pattern path_pattern t w = Some w"
  using assms
  by (subst evd_web_selector_remove_service_def, subst remove_loop_absent) (auto simp: service_ok_def upd_service_def)

text \<open>An event that is possible completes, and keeps the invariant.\<close>

lemma web_step_inv:
  assumes "soup_uri_new env = U" "web_inv U w" "web_enabled env e w"
  shows "\<exists>w'. web_step env e w = Some w' \<and> web_inv U w'"
proof (cases "conn_event e")
  case (Some c)
  with works_web_inv [OF conn_event_works [OF assms]] assms(2) show ?thesis by blast
next
  case None
  have sv: "service_ok w (ww_services w ! s)" if "alive w s" for s
    using assms(2) that by (simp add: web_inv_def web_world_ok_def alive_def)
  note upd = upd_service_web_inv [OF assms(2)]
  show ?thesis
  proof (cases e)
    case (New_service t)
    then show ?thesis using new_service_web_inv [OF assms(2)] assms(3) by simp
  next
    case (Listening s l ok)
    have "web_inv U (upd_listener l (\<lambda>k. k\<lparr>ls_refs := ls_refs k + 1\<rparr>) w)" using assms(2) by (simp add: upd_refs_web_inv)
    moreover from this have "web_inv U (evd_service_add_listener s l (upd_listener l (\<lambda>k. k\<lparr>ls_refs := ls_refs k + 1\<rparr>) w))"
      by (rule add_listener_web_inv) (use assms(3) Listening in \<open>simp_all add: alive_def\<close>)
    ultimately show ?thesis using Listening by (simp add: evd_service_socket_on_listen_def upd_refs_web_inv)
  next
    case (Add_listener s l)
    then show ?thesis using add_listener_web_inv [OF assms(2)] assms(3) by simp
  next
    case (Remove_listener s l)
    then show ?thesis using remove_listener_web_inv [OF assms(2)] assms(3) by simp
  next
    case (Listener_closed l)
    then show ?thesis
      using web_inv_handlers [OF assms(2), of l] remove_listener_web_inv [OF assms(2)] assms(2)
      by (auto simp: evd_service_listener_on_close_def alive_get_service simp del: signal_handlers.simps(2))
  next
    case (Finalize s)
    then show ?thesis using finalize_web_inv [OF assms(2)] assms(3) by simp
  next
    case (Remove_service s domain_pattern path_pattern t)
    then have "alive w s" using assms(3) by (simp add: is_selector_def)
    then show ?thesis using Remove_service assms(2,3) remove_absent_service [OF sv, of s domain_pattern path_pattern t] by simp
  next
    case (Add_service s domain_pattern path_pattern t)
    then have "alive w s" "alive w t" using assms(3) by (simp_all add: is_selector_def)
    then show ?thesis
      using Add_service assms(2) sv
      by (auto simp: evd_web_selector_add_service_def service_ok_def same_shape_def intro!: upd)
  qed (use None assms(3) sv upd in \<open>auto simp: evd_web_service_allow_origin_def evd_web_service_deny_origin_def
      evd_web_service_set_origin_policy_def evd_service_set_tls_autostart_def evd_web_selector_set_default_service_def
      is_web_service_def is_selector_def service_ok_def same_shape_def\<close>)
qed

definition uri_parser :: "(string \<Rightarrow> soup_uri option) \<Rightarrow> 'h web_env \<times> 'h web_event \<Rightarrow> bool" where
  "uri_parser U e \<longleftrightarrow> soup_uri_new (fst e) = U"

interpretation services: invariant_machine web_try "web_inv U" "uri_parser U" for U
  by unfold_locales (auto simp: web_try_def uri_parser_def intro!: web_step_inv [OF refl])

lemma no_services_inv: "web_inv U no_services"
  by (auto simp: no_services_def web_inv_def web_world_ok_def listeners_ok_def conn_ok_def new_conn_def alive_def)

section \<open>A request and its response\<close>

text \<open>What is handed over, and what comes back, by computation: the flag of the service is set and cleared.\<close>

lemma flagged_emit: "web_emit ev (flagged s b w) = flagged s b (web_emit ev w)"
  by (simp add: flagged_def web_emit_def upd_service_def)

lemma flagged_upd_conn: "upd_conn c f (flagged s b w) = flagged s b (upd_conn c f w)"
  by (simp add: flagged_def upd_conn_def upd_service_def)

lemma flagged_back:
  assumes "\<not> sv_recursed (ww_services w ! s)"
  shows "flagged s False (flagged s True w) = w"
proof (cases "s < length (ww_services w)")
  case True
  have "(ww_services w ! s)\<lparr>sv_recursed := False\<rparr> = ww_services w ! s" using assms by simp
  then show ?thesis using True by (cases w) (simp add: flagged_def upd_service_def)
next
  case False
  then show ?thesis by (cases w) (simp add: flagged_def upd_service_def list_update_beyond)
qed

definition ready :: "'h web_env \<Rightarrow> nat \<Rightarrow> nat \<Rightarrow> 'h web_world \<Rightarrow> bool" where
  "ready env s c w \<longleftrightarrow>
     is_web_service w s \<and> \<not> sv_recursed (ww_services w ! s) \<and> \<not> sv_tls_autostart (ww_services w ! s) \<and>
     evd_service_validate_conn_signal_acc (we_validate env s c) EVD_VALIDATE_ACCEPT = EVD_VALIDATE_ACCEPT"

lemma service_call_accepts:
  assumes "ready env s c w" "wc_connected (ww_conns w c)" "wc_group (ww_conns w c) \<noteq> Some s"
    and "\<And>call. evd_web_service_connection_accepted env call s c
      (flagged s True (web_emit (Connection_accepted s c) (upd_conn c (\<lambda>k. k\<lparr>wc_group := Some s\<rparr>) w))) = Some (flagged s True w')"
    and "ww_services w' = ww_services w"
  shows "service_call env s c w = Some (w', True)"
proof -
  let ?g = "upd_conn c (\<lambda>k. k\<lparr>wc_group := Some s\<rparr>) w"
  have s: "alive w s" "EVD_IS_WEB_SERVICE (sv_type (ww_services w ! s))" "\<not> sv_recursed (ww_services w ! s)"
    "s < length (ww_services w)"
    using assms(1) by (auto simp: ready_def is_web_service_def alive_def)
  have get: "get_service s (flagged s True v) = Some ((ww_services v ! s)\<lparr>sv_recursed := True\<rparr>)"
    if "ww_services v = ww_services w" for v :: "'a web_world"
    using that s by (simp add: get_service_def alive_def)
  have "conn_set_group (service_dispatch env (Suc n)) c (Some s) (flagged s True w) = Some (flagged s True ?g, True)" for n
    using assms(3) by (simp add: conn_set_group_def service_group_add_def flagged_upd_conn get)
  moreover have "accept_connection_priv env call s c (flagged s True ?g) = Some (flagged s True w')" for call
    using assms(1,4) s by (simp add: accept_connection_priv_def get ready_def flagged_emit)
  ultimately have "evd_service_add env (service_dispatch env (Suc n)) s c (flagged s True w) = Some (flagged s True w', True)" for n
    using assms(1,2) by (simp add: evd_service_add_def evd_service_validate_connection_def validation_result_def ready_def)
  moreover have "flagged s False (flagged s True w') = w'" using s(3) assms(5) by (simp add: flagged_back)
  moreover have "web_fuel w = Suc (Suc (length (ww_services w)))" by (simp add: web_fuel_def)
  ultimately show ?thesis
    unfolding service_call_def
    using s by (simp add: service_group_add_def alive_get_service flagged_def [symmetric])
qed

lemma read_request_headers_flagged: "web_read_request_headers s c (flagged t b w) = flagged t b (web_read_request_headers s c w)"
  by (simp add: web_read_request_headers_def flagged_upd_conn)

text \<open>A service takes a connection without a request: it starts reading.\<close>

lemma service_call_reads:
  assumes "ready env s c w" "wc_connected (ww_conns w c)" "wc_group (ww_conns w c) \<noteq> Some s"
    and "wc_current_request (ww_conns w c) = None"
  shows "service_call env s c w =
    Some (web_read_request_headers s c (web_emit (Connection_accepted s c) (upd_conn c (\<lambda>k. k\<lparr>wc_group := Some s\<rparr>) w)), True)"
  by (rule service_call_accepts [OF assms(1-3)])
    (use assms(4) in \<open>simp_all add: evd_web_service_connection_accepted_def read_request_headers_flagged web_read_request_headers_def\<close>)

text \<open>A service takes a connection with a request that it may handle: its handler is called.\<close>

lemma validate_flagged:
  assumes "alive w s" "origin_ok env (ww_services w ! s) r"
  shows "evd_web_service_validate_request env s c r (flagged t b w) = Some (flagged t b w, True)"
proof -
  have "get_service s (flagged t b w) = Some (ww_services (flagged t b w) ! s)"
    using assms(1) by (intro alive_get_service) simp
  moreover have "origin_ok env (ww_services (flagged t b w) ! s) r" using assms(2) by (simp del: flagged_simps)
  ultimately show ?thesis
    by (auto simp: evd_web_service_validate_request_def origin_ok_def split: option.splits)
qed

lemma service_call_handles:
  assumes "ready env s c w" "wc_connected (ww_conns w c)" "wc_group (ww_conns w c) \<noteq> Some s"
    and "wc_current_request (ww_conns w c) = Some r" "sv_type (ww_services w ! s) = EVD_TYPE_WEB_SERVICE"
    and "origin_ok env (ww_services w ! s) r"
  shows "service_call env s c w =
    Some (web_emit (Request_headers s c r) (web_emit (Connection_accepted s c) (upd_conn c (\<lambda>k. k\<lparr>wc_group := Some s\<rparr>) w)), True)"
proof (rule service_call_accepts [OF assms(1-3)])
  let ?v = "web_emit (Connection_accepted s c) (upd_conn c (\<lambda>k. k\<lparr>wc_group := Some s\<rparr>) w)"
  have a: "alive w s" using assms(1) by (simp add: ready_def is_web_service_def)
  then have "get_service s (flagged s True ?v) = Some ((ww_services w ! s)\<lparr>sv_recursed := True\<rparr>)"
    by (simp add: get_service_def alive_def)
  then show "evd_web_service_connection_accepted env call s c (flagged s True ?v) =
      Some (flagged s True (web_emit (Request_headers s c r) ?v))" for call
    using assms(4-6) a
    by (simp add: evd_web_service_connection_accepted_def validate_and_invoke_def validate_flagged
        evd_web_service_invoke_request_handler_def flagged_emit)
qed simp

lemma find_first_match:
  assumes "\<forall>cd' \<in> set before. \<not> cd_freed cd' \<and> \<not> candidate_matches env domain path cd'"
    and "\<not> cd_freed cd" "candidate_matches env domain path cd"
  shows "evd_web_selector_find_match env (before @ cd # after) domain path = Some (Some (cd_service cd))"
  using assms by (induction before) auto

text \<open>
  A selector with a request for a service: the first candidate that matches gets the connection, with
  the request and the way back.
\<close>

definition routes_to :: "'h web_env \<Rightarrow> nat \<Rightarrow> nat \<Rightarrow> nat \<Rightarrow> 'h http_request \<Rightarrow> 'h web_world \<Rightarrow> bool" where
  "routes_to env s t c r w \<longleftrightarrow>
     is_selector w s \<and> ready env s c w \<and> origin_ok env (ww_services w ! s) r \<and>
     ready env t c w \<and> sv_type (ww_services w ! t) = EVD_TYPE_WEB_SERVICE \<and> origin_ok env (ww_services w ! t) r \<and>
     (\<exists>before cd after uri.
        sv_candidates (ww_services w ! s) = before @ cd # after \<and> cd_service cd = t \<and> \<not> cd_freed cd \<and>
        soup_uri_new env (rq_uri r) = Some uri \<and>
        candidate_matches env (soup_message_headers_get_one env (rq_headers r) ''host'') (uri_path uri) cd \<and>
        (\<forall>cd' \<in> set before. \<not> cd_freed cd' \<and>
           \<not> candidate_matches env (soup_message_headers_get_one env (rq_headers r) ''host'') (uri_path uri) cd'))"

lemma ready_cong: "ww_services w' = ww_services w \<Longrightarrow> ready env s c w' = ready env s c w"
  using is_web_service_cong [of w' w] by (simp add: ready_def)

lemma ready_simps [simp]: "ready env s c (upd_conn d f w) = ready env s c w" "ready env s c (web_emit ev w) = ready env s c w"
  by (auto intro!: ready_cong)

lemma routes_to_cong: "ww_services w' = ww_services w \<Longrightarrow> routes_to env s t c r w' = routes_to env s t c r w"
  using ready_cong [of w' w] alive_cong [of w' w] by (simp add: routes_to_def is_selector_def)

lemma selector_routes:
  assumes "routes_to env s t c r w" "wc_connected (ww_conns w c)" "wc_group (ww_conns w c) = Some s" "wc_return_to (ww_conns w c) = None"
  shows "validate_and_invoke env (service_call env) s c r w =
    Some (web_emit (Request_headers s c r) (web_emit (Request_headers t c r) (web_emit (Connection_accepted t c)
      (upd_conn c (\<lambda>k. k\<lparr>wc_current_request := Some r, wc_return_to := Some s, wc_group := Some t\<rparr>) w))))"
proof -
  let ?u = "upd_conn c (\<lambda>k. k\<lparr>wc_current_request := Some r,
       wc_return_to := (if wc_return_to k = None then Some s else wc_return_to k)\<rparr>) w"
  have s: "alive w s" "sv_type (ww_services w ! s) = EVD_TYPE_WEB_SELECTOR" "origin_ok env (ww_services w ! s) r"
    and t: "alive w t" "sv_type (ww_services w ! t) = EVD_TYPE_WEB_SERVICE" "ready env t c w" "origin_ok env (ww_services w ! t) r"
    using assms(1) by (auto simp: routes_to_def is_selector_def ready_def is_web_service_def)
  then have "t \<noteq> s" by auto
  obtain uri where uri: "soup_uri_new env (rq_uri r) = Some uri"
    and found: "evd_web_selector_find_match env (sv_candidates (ww_services w ! s))
      (soup_message_headers_get_one env (rq_headers r) ''host'') (uri_path uri) = Some (Some t)"
    using assms(1) find_first_match [where env = env] by (fastforce simp: routes_to_def)
  have "service_call env t c ?u = Some (web_emit (Request_headers t c r) (web_emit (Connection_accepted t c)
      (upd_conn c (\<lambda>k. k\<lparr>wc_group := Some t\<rparr>) ?u)), True)"
    by (rule service_call_handles) (use assms(2,3) t \<open>t \<noteq> s\<close> in simp_all)
  then have "evd_web_selector_request_handler env (service_call env) s c r w =
      Some (web_emit (Request_headers t c r) (web_emit (Connection_accepted t c) (upd_conn c (\<lambda>k. k\<lparr>wc_group := Some t\<rparr>) ?u)))"
    using t(2)
    by (simp add: evd_web_selector_request_handler_def alive_get_service s(1) t(1) uri found Let_def EVD_IS_WEB_SERVICE_def
        evd_web_service_add_connection_with_request_def)
  moreover have "evd_web_service_validate_request env s c r w = Some (w, True)"
    using s(1,3) by (auto simp: evd_web_service_validate_request_def origin_ok_def alive_get_service split: option.splits)
  ultimately show ?thesis
    using s(2) assms(4) by (simp add: validate_and_invoke_def evd_web_service_invoke_request_handler_def alive_get_service s(1) upd_conn_def)
qed

text \<open>A response that can be written goes out and the connection waits for its flush.\<close>

lemma respond_writes:
  assumes "alive w t" "wc_current_request (ww_conns w c) = Some r" "origin_ok env (ww_services w ! t) r"
    and "we_write_headers env c" "content = None \<or> we_write_content env c"
  shows "\<exists>hdrs. evd_web_service_respond env t c status headers content w =
    Some (upd_conn c (\<lambda>k. k\<lparr>wc_flushes := wc_flushes k + 1\<rparr>) (web_emit (Response c (rq_version r) status hdrs) w), True)"
proof -
  obtain h where "prepare_response_headers env t c headers w = Some (h, rq_version r)"
    using assms(1-3) by (auto simp: prepare_response_headers_def alive_get_service origin_ok_def Let_def split: option.splits)
  then show ?thesis
    using assms(4,5)
    by (auto simp: evd_web_service_respond_def evd_web_service_respond_internal_def evd_http_connection_respond_def Let_def
        evd_web_service_flush_and_return_connection_def)
qed

lemma flush_returns:
  assumes "ready env s c w" "is_web_service w t" "wc_connected (ww_conns w c)" "\<not> wc_closed (ww_conns w c)" "s \<noteq> t"
    and "wc_group (ww_conns w c) = Some t" "wc_keepalive (ww_conns w c)" "wc_return_to (ww_conns w c) = Some s"
  shows "evd_web_service_connection_on_flush env c w =
    Some (web_read_request_headers s c (web_emit (Connection_accepted s c)
      (upd_conn c (\<lambda>k. k\<lparr>wc_flushes := wc_flushes k - 1, wc_current_request := None, wc_return_to := None, wc_group := Some s\<rparr>) w)))"
proof -
  let ?u = "upd_conn c (\<lambda>k. k\<lparr>wc_flushes := wc_flushes k - 1, wc_current_request := None, wc_return_to := None\<rparr>) w"
  have "service_call env s c ?u = Some (web_read_request_headers s c (web_emit (Connection_accepted s c)
      (upd_conn c (\<lambda>k. k\<lparr>wc_group := Some s\<rparr>) ?u)), True)"
    by (rule service_call_reads) (use assms in simp_all)
  moreover have "get_service t v = Some (ww_services w ! t)" if "ww_services v = ww_services w" for v :: "'a web_world"
    using that assms(2) by (simp add: get_service_def is_web_service_def alive_def)
  ultimately show ?thesis
    using assms(2,4,6-8)
    by (simp add: evd_web_service_connection_on_flush_def evd_web_service_return_connection_def Let_def is_web_service_def upd_conn_def)
qed

lemma run_ops_append: "run_ops step w (xs @ ys) = Option.bind (run_ops step w xs) (\<lambda>w. run_ops step w ys)"
  by (induction xs arbitrary: w) (auto split: option.splits)

lemma request_cycle:
  assumes "routes_to env s t c r w"
    and "wc_connected (ww_conns w c)" "\<not> wc_closed (ww_conns w c)" "wc_group (ww_conns w c) = Some s"
    and "wc_reading (ww_conns w c) = Some s" "wc_read_done (ww_conns w c) = []" "wc_return_to (ww_conns w c) = None"
    and "detect_keepalive (rq_version r) (soup_message_headers_get_one env (rq_headers r) ''Connection'')"
    and "we_write_headers env c" "content = None \<or> we_write_content env c"
  shows "\<exists>w' hdrs.
    run_ops (\<lambda>w e. web_step env e w) w
      [Headers_arrived c (Inr r) True, Headers_callback c, Respond t c status headers content, Flushed c] = Some w' \<and>
    ww_log w' = ww_log w @ [Connection_accepted t c, Request_headers t c r, Request_headers s c r,
      Response c (rq_version r) status hdrs, Connection_accepted s c] \<and>
    ww_conns w' c = (ww_conns w c)\<lparr>wc_pending := True, wc_keepalive := False, wc_current_request := None\<rparr>"
proof -
  let ?a = "upd_conn c (\<lambda>k. k\<lparr>wc_read_done := []\<rparr>) (web_headers_arrived env c (Inr r) True w)"
  have a: "ww_services ?a = ww_services w" "ww_log ?a = ww_log w"
    "ww_conns ?a c = (ww_conns w c)\<lparr>wc_reading := None, wc_read_done := [], wc_pending := False, wc_current_request := Some r,
       wc_keepalive := True\<rparr>"
    using assms(5,8) by (simp_all add: web_headers_arrived_def Let_def)
  define b where "b = web_emit (Request_headers s c r) (web_emit (Request_headers t c r) (web_emit (Connection_accepted t c)
      (upd_conn c (\<lambda>k. k\<lparr>wc_current_request := Some r, wc_return_to := Some s, wc_group := Some t\<rparr>) ?a)))"
  have "validate_and_invoke env (service_call env) s c r ?a = Some b"
    unfolding b_def by (rule selector_routes) (use assms a in \<open>simp_all add: routes_to_cong [OF a(1)]\<close>)
  then have 1: "run_ops (\<lambda>w e. web_step env e w) w [Headers_arrived c (Inr r) True, Headers_callback c] = Some b"
    using assms(5,6) by (simp add: evd_web_service_conn_on_headers_read_def web_headers_arrived_def Let_def)
  have t: "alive w t" "is_web_service w t" "origin_ok env (ww_services w ! t) r" "ready env s c w" "s \<noteq> t"
    using assms(1) by (auto simp: routes_to_def ready_def is_web_service_def is_selector_def)
  have b: "ww_services b = ww_services w" using a(1) by (simp add: b_def)
  have k: "ww_conns b c = (ww_conns ?a c)\<lparr>wc_current_request := Some r, wc_return_to := Some s, wc_group := Some t\<rparr>"
    "ww_log b = ww_log w @ [Connection_accepted t c, Request_headers t c r, Request_headers s c r]"
    using a(2) by (simp_all add: b_def)
  have "\<exists>hdrs. evd_web_service_respond env t c status headers content b =
      Some (upd_conn c (\<lambda>k. k\<lparr>wc_flushes := wc_flushes k + 1\<rparr>) (web_emit (Response c (rq_version r) status hdrs) b), True)"
    by (rule respond_writes) (use assms(9,10) t alive_cong [OF b] k in \<open>simp_all add: b\<close>)
  then obtain hdrs where 2: "evd_web_service_respond env t c status headers content b =
      Some (upd_conn c (\<lambda>k. k\<lparr>wc_flushes := wc_flushes k + 1\<rparr>) (web_emit (Response c (rq_version r) status hdrs) b), True)" ..
  let ?d = "upd_conn c (\<lambda>k. k\<lparr>wc_flushes := wc_flushes k + 1\<rparr>) (web_emit (Response c (rq_version r) status hdrs) b)"
  have 3: "evd_web_service_connection_on_flush env c ?d =
      Some (web_read_request_headers s c (web_emit (Connection_accepted s c)
        (upd_conn c (\<lambda>k. k\<lparr>wc_flushes := wc_flushes k - 1, wc_current_request := None, wc_return_to := None, wc_group := Some s\<rparr>) ?d)))"
    by (rule flush_returns)
      (use assms(2,3) t a(3) k ready_cong [OF b] is_web_service_cong [OF b] in simp_all)
  let ?e = "web_read_request_headers s c (web_emit (Connection_accepted s c)
        (upd_conn c (\<lambda>k. k\<lparr>wc_flushes := wc_flushes k - 1, wc_current_request := None, wc_return_to := None, wc_group := Some s\<rparr>) ?d))"
  have "run_ops (\<lambda>w e. web_step env e w) w
      ([Headers_arrived c (Inr r) True, Headers_callback c] @ [Respond t c status headers content, Flushed c]) = Some ?e"
    unfolding run_ops_append 1 using 2 3 by simp
  moreover have "ww_conns ?e c = (ww_conns w c)\<lparr>wc_pending := True, wc_keepalive := False, wc_current_request := None\<rparr>"
    using a(3) k(1) assms(3-7) by (cases "ww_conns w c") (simp add: web_read_request_headers_def)
  moreover have "ww_log ?e = ww_log w @ [Connection_accepted t c, Request_headers t c r, Request_headers s c r,
      Response c (rq_version r) status hdrs, Connection_accepted s c]"
    by (simp add: web_read_request_headers_def k(2))
  ultimately show ?thesis by simp
qed

section \<open>Properties\<close>

lemma other_events_log:
  assumes "web_inv U w" "web_enabled env e w" "conn_event e = None" "web_step env e w = Some w'"
  shows "ww_log w' = ww_log w"
proof -
  have destroy: "ww_log (fold evd_service_listener_destroy ls v) = ww_log v" for ls and v :: "'a web_world"
    by (induction ls arbitrary: v) (simp_all add: evd_service_listener_destroy_def)
  have add: "ww_log (evd_service_add_listener s l v) = ww_log v" "ww_log (evd_service_remove_listener s l v) = ww_log v"
    for s l and v :: "'a web_world"
    by (simp_all add: evd_service_add_listener_def evd_service_remove_listener_def evd_service_listener_destroy_def Let_def)
  show ?thesis
  proof (cases e)
    case (Listener_closed l)
    then show ?thesis
      using assms(4) web_inv_handlers [OF assms(1), of l]
      by (auto simp: evd_service_listener_on_close_def add simp del: signal_handlers.simps(2))
  qed (use assms(3,4) in \<open>auto simp: add destroy evd_web_service_allow_origin_def evd_web_service_deny_origin_def
      evd_web_service_set_origin_policy_def evd_service_set_tls_autostart_def evd_web_selector_set_default_service_def
      evd_web_selector_add_service_def evd_web_selector_remove_service_def evd_service_socket_on_listen_def service_finalize_def Let_def\<close>)
qed

lemma new_requests_allowed:
  assumes "web_inv U w" "soup_uri_new env = U" "web_try w (env, e) = Some w'"
  shows "\<exists>new. ww_log w' = ww_log w @ new \<and>
    (\<forall>s c r. Request_headers s c r \<in> set new \<longrightarrow> origin_ok env (ww_services w ! s) r)"
proof (cases "web_enabled env e w")
  case False
  then show ?thesis using assms(3) by (simp add: web_try_def del: web_enabled_def)
next
  case True
  show ?thesis
  proof (cases "conn_event e")
    case None
    then show ?thesis using other_events_log [OF assms(1) True None] assms(3) True by (simp add: web_try_def)
  next
    case (Some c)
    from conn_event_works [OF assms(2,1) True Some] assms(3) True have "conn_kept env c w w'"
      by (auto simp: works_def web_try_def)
    then show ?thesis unfolding conn_kept_def by blast
  qed
qed

text \<open>
  C22. Services, web services and selectors stay well-formed under the events that the code provides for:
  those that can happen (\<open>web_possible\<close>), without the four things that it relies on not to happen
  (\<open>web_spared\<close>: a request with a URI that libsoup does not accept, the end of a service while TLS is being
  started for it, a socket that listens for two services, and the removal of a service that a selector
  has, which corrupts its list). After any sequence of them every pointer of a connection, a selector or a
  socket leads to a service that is alive, so that none is used after it was freed; no handing over from
  service to service runs for ever; and no service is left marked as adding a connection.
\<close>

theorem web_services_well_formed:
  assumes "list_all (uri_parser U) events"
  shows "\<exists>w. run_ops web_try no_services events = Some w \<and> web_inv U w"
  using services.run_ops_defined [OF no_services_inv assms] .

definition web_demo_headers :: "(string \<times> string) list \<Rightarrow> string \<Rightarrow> string option" where
  "web_demo_headers hs name = map_of hs name"

definition web_demo_uri :: "string \<Rightarrow> soup_uri option" where
  "web_demo_uri s = Some \<lparr>uri_scheme = ''http'', uri_host = ''a.org'', uri_port = 80, uri_path = ''/x''\<rparr>"

definition web_demo_env :: "(string \<times> string) list web_env" where
  "web_demo_env = \<lparr>soup_headers_parse_request = (\<lambda>_. None), soup_headers_parse_response = (\<lambda>_. None),
     soup_message_headers_get_encoding = (\<lambda>_. SOUP_ENCODING_NONE), soup_message_headers_get_content_length = (\<lambda>_. 0),
     soup_message_headers_get_one = web_demo_headers, soup_uri_new = web_demo_uri, soup_message_headers_new = [],
     soup_message_headers_replace = (\<lambda>hs n v. (n, v) # filter (\<lambda>h. fst h \<noteq> n) hs),
     soup_message_headers_set_content_length = (\<lambda>hs _. hs), g_regex_new = (\<lambda>_. True), g_regex_match = (\<lambda>p s. prefix p s),
     we_validate = (\<lambda>_ _. []), we_validate_tls = (\<lambda>_ _. []), we_write_headers = (\<lambda>_. True), we_write_content = (\<lambda>_. True),
     we_unread = (\<lambda>_. True)\<rparr>"

definition web_demo_request :: "(string \<times> string) list \<Rightarrow> (string \<times> string) list http_request" where
  "web_demo_request hs = \<lparr>rq_version = 1, rq_headers = hs, rq_method = ''GET'', rq_uri = ''http://a.org/x''\<rparr>"

text \<open>A selector (0) with a service (1) for the path \<open>/x\<close>, and a connection (7) that has come in on socket 3.\<close>

definition web_demo_setup :: "(string \<times> string) list web_event list" where
  "web_demo_setup = [New_service EVD_TYPE_WEB_SELECTOR, New_service EVD_TYPE_WEB_SERVICE, Add_service 0 None (Some ''/y'') 0,
     Add_service 0 None (Some ''/x'') 1, Listening 0 3 True, New_connection 3 7]"

lemmas web_demo_defs = web_demo_setup_def web_demo_env_def web_demo_request_def web_demo_uri_def web_demo_headers_def web_try_def no_services_def new_conn_def
  evd_service_init_def EVD_IS_SERVICE_def EVD_IS_WEB_SERVICE_def evd_web_selector_add_service_def upd_service_def
  is_selector_def is_web_service_def alive_def get_service_def upd_listener_def evd_service_add_listener_def evd_service_socket_on_listen_def
  evd_service_listener_destroy_def evd_service_listener_on_new_connection_def service_call_def web_fuel_def service_group_add_def
  evd_service_add_def conn_set_group_def upd_conn_def evd_service_validate_connection_def validation_result_def
  accept_connection_priv_def web_emit_def evd_web_service_connection_accepted_def web_read_request_headers_def

theorem web_services_well_formed_witness:
  "run_ops web_try no_services (map (Pair web_demo_env) web_demo_setup) \<noteq> None \<and>
   list_all (uri_parser web_demo_uri) (map (Pair web_demo_env) web_demo_setup)"
proof -
  have u: "list_all (uri_parser web_demo_uri) (map (Pair web_demo_env) web_demo_setup)"
    by (simp add: uri_parser_def web_demo_env_def list_all_iff web_demo_setup_def)
  then show ?thesis using web_services_well_formed by fastforce
qed

text \<open>
  C21. A web service handles no request of a foreign origin that it does not allow: whatever happens, every
  request that is handed to the handlers of a service during an event is of the origin of the service
  by the test of the code, or of an origin that the table and the policy of the service allow, and is then
  no preflight request.
\<close>

theorem web_origin_enforced:
  assumes "list_all (uri_parser U) events" "run_ops web_try no_services events = Some w"
    and "soup_uri_new env = U" "web_try w (env, e) = Some w'"
    and "Request_headers s c r \<in> set (drop (length (ww_log w)) (ww_log w'))"
  shows "origin_ok env (ww_services w ! s) r"
proof -
  have "web_inv U w" using services.run_ops_defined [OF no_services_inv assms(1)] assms(2) by auto
  from new_requests_allowed [OF this assms(3,4)] assms(5) show ?thesis by auto
qed

definition web_demo_get :: "(string \<times> string) list http_request" where
  "web_demo_get = web_demo_request [(''Connection'', ''keep-alive''), (''Origin'', ''http://a.org'')]"

text \<open>The selector reads from the connection.\<close>

definition web_demo_world :: "(string \<times> string) list web_world" where
  "web_demo_world = \<lparr>
     ww_services =
       [(evd_service_init EVD_TYPE_WEB_SELECTOR)\<lparr>sv_listeners := [3], sv_candidates :=
          [\<lparr>cd_domain_pattern = None, cd_path_pattern = Some ''/y'', cd_service = 0, cd_freed = False\<rparr>,
           \<lparr>cd_domain_pattern = None, cd_path_pattern = Some ''/x'', cd_service = 1, cd_freed = False\<rparr>]\<rparr>,
        evd_service_init EVD_TYPE_WEB_SERVICE],
     ww_conns = (\<lambda>_. new_conn)(7 := new_conn\<lparr>wc_group := Some 0, wc_connected := True, wc_pending := True, wc_reading := Some 0\<rparr>),
     ww_listeners = (\<lambda>_. \<lparr>ls_service = None, ls_handlers = [], ls_refs = 0\<rparr>)
       (3 := \<lparr>ls_service = Some 0, ls_handlers = [0], ls_refs = 1\<rparr>),
     ww_log = [Connection_accepted 0 7]\<rparr>"

lemma web_demo_run: "run_ops web_try no_services (map (Pair web_demo_env) web_demo_setup) = Some web_demo_world"
  by (simp add: web_demo_defs web_demo_world_def)

lemma web_demo_routes: "routes_to web_demo_env 0 1 7 web_demo_get web_demo_world"
proof -
  have "origin_ok web_demo_env sv web_demo_get" for sv
    by (simp add: origin_ok_def evd_http_request_is_cross_origin_def evd_http_request_get_origin_def web_demo_get_def web_demo_defs)
  then show ?thesis
    unfolding routes_to_def
    by (intro conjI exI [of _ "[hd (sv_candidates (ww_services web_demo_world ! 0))]"] exI [of _ "sv_candidates (ww_services web_demo_world ! 0) ! 1"]
        exI [of _ "[]"] exI [of _ "the (web_demo_uri [])"])
      (simp_all add: ready_def web_demo_world_def web_demo_defs web_demo_get_def candidate_matches_def)
qed

theorem web_origin_enforced_witness:
  "origin_ok web_demo_env (ww_services web_demo_world ! 1) web_demo_get \<and>
   run_ops web_try no_services (map (Pair web_demo_env) (web_demo_setup @ [Headers_arrived 7 (Inr web_demo_get) True])) \<noteq> None"
proof -
  let ?w = "web_headers_arrived web_demo_env 7 (Inr web_demo_get) True web_demo_world"
  have u: "list_all (uri_parser web_demo_uri) (map (Pair web_demo_env) (web_demo_setup @ [Headers_arrived 7 (Inr web_demo_get) True]))"
    by (simp add: uri_parser_def web_demo_env_def list_all_iff web_demo_setup_def)
  have r: "run_ops web_try no_services (map (Pair web_demo_env) (web_demo_setup @ [Headers_arrived 7 (Inr web_demo_get) True])) = Some ?w"
    by (simp add: run_ops_append web_demo_run web_try_def) (simp add: web_demo_env_def web_demo_uri_def)
  let ?k = "\<lambda>k. k\<lparr>wc_read_done := []\<rparr>"
  have k: "ww_conns web_demo_world 7 = new_conn\<lparr>wc_group := Some 0, wc_connected := True, wc_pending := True, wc_reading := Some 0\<rparr>"
    by (simp add: web_demo_world_def)
  have rd: "wc_read_done (ww_conns ?w 7) = [(0, Inr web_demo_get)]" by (simp add: web_headers_arrived_def k new_conn_def)
  have "validate_and_invoke web_demo_env (service_call web_demo_env) 0 7 web_demo_get (upd_conn 7 ?k ?w) =
      Some (web_emit (Request_headers 0 7 web_demo_get) (web_emit (Request_headers 1 7 web_demo_get) (web_emit (Connection_accepted 1 7)
        (upd_conn 7 (\<lambda>k. k\<lparr>wc_current_request := Some web_demo_get, wc_return_to := Some 0, wc_group := Some 1\<rparr>) (upd_conn 7 ?k ?w)))))"
    by (rule selector_routes)
      (use web_demo_routes routes_to_cong [of "upd_conn 7 ?k ?w" web_demo_world] in \<open>simp_all add: web_headers_arrived_def k new_conn_def\<close>)
  then have s: "web_try ?w (web_demo_env, Headers_callback 7) =
      Some (web_emit (Request_headers 0 7 web_demo_get) (web_emit (Request_headers 1 7 web_demo_get) (web_emit (Connection_accepted 1 7)
        (upd_conn 7 (\<lambda>k. k\<lparr>wc_current_request := Some web_demo_get, wc_return_to := Some 0, wc_group := Some 1\<rparr>) (upd_conn 7 ?k ?w)))))"
    using rd by (simp add: web_try_def evd_web_service_conn_on_headers_read_def)
  have "origin_ok web_demo_env (ww_services ?w ! 1) web_demo_get"
    by (rule web_origin_enforced [OF u r _ s, of 1 7]) (simp_all add: web_demo_env_def web_headers_arrived_def)
  then show ?thesis using r by (simp add: web_headers_arrived_def)
qed

text \<open>
  C23. A request goes round: a selector waits for the request of a connection that is open, in its group
  and on no way back to another service. When a request arrives that asks to keep the connection alive,
  that both the selector and the first candidate that matches allow by its origin, both of them accepting
  the connection without starting TLS, then that candidate gets the connection and its handlers are called
  with the request, once; when that service has responded, with success of the writes, and the response
  is flushed, the connection is back at the selector, which reads the next request, with nothing left of
  this one.
\<close>

theorem web_request_goes_round:
  assumes "routes_to env s t c r w"
    and "wc_connected (ww_conns w c)" "\<not> wc_closed (ww_conns w c)" "wc_group (ww_conns w c) = Some s"
    and "wc_reading (ww_conns w c) = Some s" "wc_read_done (ww_conns w c) = []" "wc_return_to (ww_conns w c) = None"
    and "detect_keepalive (rq_version r) (soup_message_headers_get_one env (rq_headers r) ''Connection'')"
    and "we_write_headers env c" "content = None \<or> we_write_content env c"
  shows "\<exists>w' hdrs.
    run_ops (\<lambda>w e. web_step env e w) w
      [Headers_arrived c (Inr r) True, Headers_callback c, Respond t c status headers content, Flushed c] = Some w' \<and>
    ww_log w' = ww_log w @ [Connection_accepted t c, Request_headers t c r, Request_headers s c r,
      Response c (rq_version r) status hdrs, Connection_accepted s c] \<and>
    ww_conns w' c = (ww_conns w c)\<lparr>wc_pending := True, wc_keepalive := False, wc_current_request := None\<rparr>"
  using request_cycle [OF assms] .

theorem web_request_goes_round_witness:
  "\<exists>w' hdrs.
    run_ops (\<lambda>w e. web_step web_demo_env e w) web_demo_world
      [Headers_arrived 7 (Inr web_demo_get) True, Headers_callback 7, Respond 1 7 200 None (Some 5), Flushed 7] = Some w' \<and>
    ww_log w' = [Connection_accepted 0 7, Connection_accepted 1 7, Request_headers 1 7 web_demo_get, Request_headers 0 7 web_demo_get,
      Response 7 1 200 hdrs, Connection_accepted 0 7]"
proof -
  have k: "detect_keepalive (rq_version web_demo_get) (soup_message_headers_get_one web_demo_env (rq_headers web_demo_get) ''Connection'')"
    by (simp add: web_demo_get_def web_demo_defs detect_keepalive_def contains_def SOUP_HTTP_1_0_def SOUP_HTTP_1_1_def upt_rec)
  have c: "ww_conns web_demo_world 7 = new_conn\<lparr>wc_group := Some 0, wc_connected := True, wc_pending := True, wc_reading := Some 0\<rparr>"
    by (simp add: web_demo_world_def)
  from web_request_goes_round [OF web_demo_routes _ _ _ _ _ _ k, of "Some 5" 200 None]
  obtain w' hdrs where "run_ops (\<lambda>w e. web_step web_demo_env e w) web_demo_world
      [Headers_arrived 7 (Inr web_demo_get) True, Headers_callback 7, Respond 1 7 200 None (Some 5), Flushed 7] = Some w'"
    "ww_log w' = ww_log web_demo_world @ [Connection_accepted 1 7, Request_headers 1 7 web_demo_get, Request_headers 0 7 web_demo_get,
      Response 7 (rq_version web_demo_get) 200 hdrs, Connection_accepted 0 7]"
    by (auto simp: c new_conn_def web_demo_env_def)
  then show ?thesis by (auto simp: web_demo_world_def web_demo_get_def web_demo_request_def)
qed

section \<open>Where the code does not do what it means to do\<close>

text \<open>An origin that is a prefix of the host is taken for the host.\<close>

lemma web_prefix_origin_trusted:
  assumes "soup_message_headers_get_one env (rq_headers r) ''Origin'' = Some ''http://example.co''"
    and "soup_uri_new env (rq_uri r) = Some \<lparr>uri_scheme = ''http'', uri_host = ''example.com'', uri_port = 80, uri_path = p\<rparr>"
  shows "origin_ok env sv r"
  using assms by (simp add: origin_ok_def evd_http_request_is_cross_origin_def evd_http_request_get_origin_def)

text \<open>A request with a URI that libsoup does not accept, and an origin, crashes the program.\<close>

lemma web_bad_uri_crashes:
  assumes "evd_http_request_get_origin env r \<noteq> None" "soup_uri_new env (rq_uri r) = None"
  shows "validate_and_invoke env call s c r w = None"
  using assms
  by (auto simp: validate_and_invoke_def evd_web_service_validate_request_def evd_http_request_is_cross_origin_def
      split: bind_split)

text \<open>Whatever the user decides about a connection whose validation is pending, nothing happens.\<close>

lemma service_pending_undecided:
  assumes "web_inv U w" "alive w s"
  shows "web_step env (Accept_conn s c) w = Some w" "web_step env (Reject_conn s c) w = Some w"
  using accept_connection_nothing [of U w s] assms by (simp_all add: web_inv_def)

text \<open>A rejection that comes after a handler has asked for time is lost.\<close>

lemma service_rejection_lost:
  "evd_service_validate_conn_signal_acc [EVD_VALIDATE_PENDING, EVD_VALIDATE_REJECT] EVD_VALIDATE_ACCEPT = EVD_VALIDATE_PENDING"
  by simp

text \<open>A service that goes while TLS is being started for it is used after it was freed.\<close>

lemma service_tls_use_after_free:
  assumes "wc_tls_starting (ww_conns w c) = Some s" "\<not> alive w s"
  shows "web_step env (Tls_started c ok) w = None"
proof -
  have "get_service s (upd_conn c f w) = None" for f using assms(2) by (auto simp: get_service_def alive_def)
  then show ?thesis using assms(1) by (simp add: evd_service_connection_on_tls_started_def)
qed

text \<open>A socket that two services listen on: when the first one goes, the socket lets go of the second one and keeps the first.\<close>

lemma service_shared_listener:
  assumes "alive w s" "alive w t" "s \<noteq> t" "ww_listeners w l = \<lparr>ls_service = None, ls_handlers = [], ls_refs = 0\<rparr>"
    and "sv_listeners (ww_services w ! s) = []" "sv_listeners (ww_services w ! t) = []"
  shows "ls_handlers (ww_listeners (service_finalize s (evd_service_add_listener t l (evd_service_add_listener s l w))) l) = [s]"
  using assms
  by (auto simp: service_finalize_def evd_service_add_listener_def evd_service_listener_destroy_def upd_service_def alive_def Let_def)

text \<open>A connection whose group is set, and that is not added by the group, is not validated.\<close>

lemma service_set_group_ignored:
  assumes "alive w s" "\<not> sv_recursed (ww_services w ! s)"
    and "wc_group (ww_conns w c) \<noteq> Some s" "wc_connected (ww_conns w c)"
  shows "web_step env (Set_group c (Some s)) w = Some (upd_conn c (\<lambda>k. k\<lparr>wc_group := Some s\<rparr>) w)"
proof -
  let ?u = "upd_conn c (\<lambda>k. k\<lparr>wc_group := Some s\<rparr>) w"
  have "service_call env s c ?u = Some (flagged s False (flagged s True ?u), False)"
    using assms
    by (simp add: service_call_def web_fuel_def service_group_add_def alive_get_service flagged_def [symmetric] evd_service_add_def conn_set_group_def)
  then show ?thesis using assms by (simp add: conn_set_group_def flagged_back)
qed

text \<open>
  When headers cannot be read, or are too long, the connection stays open for ever: the stream is
  still marked as pending, and closing it is refused.
\<close>

lemma web_failed_read_stays_open:
  assumes "wc_reading (ww_conns w c) = Some s" "wc_read_done (ww_conns w c) = []"
  shows "run_ops (\<lambda>w e. web_step env e w) w [Headers_arrived c (Inl e) False, Headers_callback c] =
    Some (upd_conn c (\<lambda>k. k\<lparr>wc_reading := None, wc_pending := True\<rparr>) w)"
  using assms
  by (cases "ww_conns w c")
    (simp add: web_headers_arrived_def evd_web_service_conn_on_headers_read_def web_stream_close_def upd_conn_def)

text \<open>Removing a service from a selector that has it: the program crashes, or keeps a candidate that it has freed.\<close>

lemma remove_loop_found:
  assumes "i \<le> j" "j < length cds" "found (cds ! j)" "\<forall>k < length cds. \<not> cd_freed (cds ! k)"
  shows "remove_loop found i cds = None \<or>
    (\<exists>cds'. remove_loop found i cds = Some cds' \<and> length cds' = length cds \<and> (\<exists>cd \<in> set cds'. cd_freed cd))"
  using assms
proof (induction found i cds rule: remove_loop.induct)
  case (1 found i cds)
  show ?case
  proof (cases "found (cds ! i)")
    case True
    have "cd_freed (cds[i := (cds ! i)\<lparr>cd_freed := True\<rparr>] ! i)" "i < length (cds[i := (cds ! i)\<lparr>cd_freed := True\<rparr>])"
      using 1(2,3) by simp_all
    then have "\<exists>cd \<in> set (cds[i := (cds ! i)\<lparr>cd_freed := True\<rparr>]). cd_freed cd" using nth_mem by blast
    then show ?thesis using True 1(2,3,5) by (subst (1 2) remove_loop.simps) auto
  next
    case False
    then have "i < j" using 1(2,4) by (cases "i = j") auto
    then show ?thesis using 1 False by (subst (1 2) remove_loop.simps) auto
  qed
qed

lemma web_remove_service_corrupts:
  assumes "alive w s" "cd \<in> set (sv_candidates (ww_services w ! s))" "\<forall>cd' \<in> set (sv_candidates (ww_services w ! s)). \<not> cd_freed cd'"
  shows "case evd_web_selector_remove_service s (cd_domain_pattern cd) (cd_path_pattern cd) (cd_service cd) w of
    None \<Rightarrow> True
  | Some w' \<Rightarrow> \<exists>cd' \<in> set (sv_candidates (ww_services w' ! s)). cd_freed cd'"
proof -
  obtain j where "j < length (sv_candidates (ww_services w ! s))" "sv_candidates (ww_services w ! s) ! j = cd"
    using assms(2) by (auto simp: in_set_conv_nth)
  then have "remove_loop (\<lambda>cd'. cd_domain_pattern cd' = cd_domain_pattern cd \<and> cd_path_pattern cd' = cd_path_pattern cd \<and>
      cd_service cd' = cd_service cd) 0 (sv_candidates (ww_services w ! s)) = None \<or>
    (\<exists>cds'. remove_loop (\<lambda>cd'. cd_domain_pattern cd' = cd_domain_pattern cd \<and> cd_path_pattern cd' = cd_path_pattern cd \<and>
      cd_service cd' = cd_service cd) 0 (sv_candidates (ww_services w ! s)) = Some cds' \<and>
      length cds' = length (sv_candidates (ww_services w ! s)) \<and> (\<exists>cd \<in> set cds'. cd_freed cd))"
    using assms(3) by (intro remove_loop_found [of 0 j]) auto
  then show ?thesis
    using assms(1) by (auto simp: evd_web_selector_remove_service_def upd_service_def alive_def)
qed

text \<open>Two selectors that hand requests to each other: the request is dropped and the connection hangs.\<close>

definition circle :: "(string \<times> string) list web_event list" where
  "circle = [New_service EVD_TYPE_WEB_SELECTOR, New_service EVD_TYPE_WEB_SELECTOR, Default_service 0 (Some 1), Default_service 1 (Some 0),
     Listening 0 3 True, New_connection 3 7, Headers_arrived 7 (Inr (web_demo_request [])) True, Headers_callback 7]"

lemma web_selector_circle:
  "map_option (\<lambda>w. (ww_log w, wc_reading (ww_conns w 7), wc_flushes (ww_conns w 7), wc_read_done (ww_conns w 7)))
     (run_ops web_try no_services (map (Pair web_demo_env) circle)) =
   Some ([Connection_accepted 0 7, Connection_accepted 1 7, Connection_accepted 0 7, Request_headers 0 7 (web_demo_request []),
      Request_headers 1 7 (web_demo_request []), Request_headers 0 7 (web_demo_request [])], None, 0, [])"
  by (simp add: circle_def web_demo_defs evd_web_selector_set_default_service_def web_headers_arrived_def evd_web_service_conn_on_headers_read_def
      validate_and_invoke_def evd_web_service_validate_request_def evd_http_request_is_cross_origin_def evd_http_request_get_origin_def
      evd_web_service_invoke_request_handler_def evd_web_selector_request_handler_def evd_web_service_add_connection_with_request_def)

end
