(* ===== verification/Spec2Isabelle.thy ===== *)
theory Spec2Isabelle
  imports Json_Grammar Websocket_Properties Chunked_Decoder Stream_Throttle Buffered_Input
    Buffered_Output Promise Longpolling Jsonrpc Connection_Pool Socket
    Connection Web_Properties
begin

text \<open>
  \<^bold>\<open>EventDance, a peer-to-peer and inter-process communication library in C\<close>

  \<^bold>\<open>The program.\<close> EventDance (\<open>evd/\<close>) is built on GLib and GIO. At the bottom are streams that
  wrap streams: sockets, TLS, throttled streams that respect a bandwidth and a latency, and buffered
  streams with push-back and asynchronous flushing. HTTP connections read and write messages on
  such a stack of streams, with a decoder for chunked encoding. Transports carry messages between
  peers over HTTP: WebSockets, and long polling for clients without them. A peer manager keeps the
  peers of all transports and drops those that have gone. On top are JSON-RPC, with a filter that
  cuts a byte stream into JSON texts, a bridge to D-Bus and web services. Asynchronous operations
  use promises.

  \<^bold>\<open>What is modelled, and where.\<close>

  \<^item> \<open>Evd_Prelude\<close>: shared types, list lemmas, the interfaces \<open>stream_decoder\<close> (a consumer fed
    chunk by chunk), \<open>invariant_machine\<close> (operations that keep an invariant) and \<open>guarded_machine\<close>
    (operations that keep it as long as each is allowed in its state, \<open>steps_allowed\<close>).
  \<^item> \<open>Json_Filter\<close>, \<open>Json_Grammar\<close>: \<open>evd-json-filter.c\<close>. The tables and the automaton; memory
    safety; an abstract push-down automaton that the array stack refines; the grammar of
    JSON texts (\<open>json_value\<close>, an inductive predicate, without the two kinds of texts that the code
    refuses), and that a stream of arrays and objects is delivered one packet per text.
  \<^item> \<open>Websocket_Frame\<close>, \<open>Websocket_Protocol\<close>, \<open>Websocket_Closing\<close>, \<open>Websocket_Stream\<close>,
    \<open>Websocket_Handshake\<close>, \<open>Websocket_Properties\<close>: \<open>evd-websocket-protocol.c\<close>. Frames, the
    reader, the closing handshake, binding, the opening handshake; the round trip from sender to
    receiver (messages of one frame), safety of every sequence of operations, what is written and called after closing.
  \<^item> \<open>Chunked_Decoder\<close>: \<open>evd-http-chunked-decoder.c\<close> and the loop of \<open>evd-http-connection.c\<close> that
    drives it; it refines a byte-at-a-time decoder and decodes well-formed bodies without chunk extensions.
  \<^item> \<open>Stream_Throttle\<close>: \<open>evd-stream-throttle.c\<close> and the throttled streams; the traffic of a second
    stays within the bandwidth, and the wait that is reported is long enough in real time as long as the
    clock's microseconds are not below those of the last transfer.
  \<^item> \<open>Buffered_Input\<close>, \<open>Buffered_Output\<close>: the buffered streams; no byte is lost, duplicated or
    reordered, pushed back bytes included; an asynchronous flush completes only when everything has
    reached the base stream.
  \<^item> \<open>Http_Writer\<close>: the response writer of \<open>evd-http-connection.c\<close> on an output stream, the
    interfaces \<open>output_stream\<close> and \<open>reliable_stream\<close>, which the buffered output stream implements,
    and the round trip through the chunked decoder.
  \<^item> \<open>Http_Head\<close>, \<open>Http_Reader\<close>: the reading side of \<open>evd-http-connection.c\<close> on the buffered input
    stream. The search for the end of headers, as a partial function; the interface \<open>block_reader\<close> of
    what is read block by block, which headers and content implement; a request and its content are
    read exactly, in whatever pieces they arrive after the first three bytes.
  \<^item> \<open>Promise\<close>: \<open>evd-promise.c\<close>, with reference counts, callbacks that act on the promise, and the
    idle sources; listeners are called once and in order, for users and callbacks that do not give up the
    deferred too early (\<open>keeps_deferred\<close>, \<open>callbacks_keep\<close>).
  \<^item> \<open>Peer\<close>: \<open>evd-peer.c\<close>, \<open>evd-peer-manager.c\<close> and the shared part of \<open>evd-transport.c\<close>, with
    reference counts; the interface \<open>message_queue\<close> of the backlog; the manager gives out open
    peers only, closing from the peer or the transport ends and tells everyone once, cleaning up drops
    exactly the peers that are not alive. What the code expects of its users is \<open>peer_op_allowed\<close>.
  \<^item> \<open>Longpolling\<close>: \<open>evd-longpolling-server.c\<close> with the sending function of \<open>evd-transport.c\<close>, on
    top of \<open>Http_Writer\<close> and \<open>Peer\<close>, and the client in the browser as far as it takes messages out of a
    response (\<open>js/evdWebTransport.js\<close>, \<open>_readMsgHeader\<close> and \<open>_xhrOnLoad\<close>); messages go out in order and none is
    lost, the client gets the messages that were sent.
  \<^item> \<open>Jsonrpc\<close>: \<open>evd-jsonrpc.c\<close> on top of the JSON filter; calls reach the callee and responses the
    caller, however the bytes are cut, if the transport puts a NUL behind them (the code ignores the
    size of the data and so does the model, which is given the memory behind it); every call is
    completed at most once.
  \<^item> \<open>Connection_Pool\<close>: \<open>evd-connection-pool.c\<close> with the streams and groups of \<open>evd-io-stream.c\<close> and
    \<open>evd-io-stream-group.c\<close>, and what the pool uses of \<open>evd-connection.c\<close>; an event is
    possible by the state of its world (\<open>pool_possible\<close>), and runs leave out those that the code relies on
    not to happen (\<open>pool_spared\<close>); the pool stays well-formed, requests are served in order, waiting ones by the next connection.
  \<^item> \<open>Poll\<close>: \<open>evd-poll.c\<close>, the caller's thread and the polling thread interleaved; no session is used
    after it is freed, a deletion completes, events are kept until their callback is called while the
    session is there.
  \<^item> \<open>Socket\<close>: \<open>evd-socket.c\<close> and \<open>evd-resolver.c\<close> on top of \<open>Poll\<close>, with the system calls as arguments;
    at most one operation is pending and each is completed once, every change of state is announced, of
    new and of accepted sockets, a connection that the system accepts leads to a connected socket.
  \<^item> \<open>Connection\<close>: \<open>evd-connection.c\<close>, \<open>evd-socket-input-stream.c\<close> and \<open>evd-socket-output-stream.c\<close>. The
    socket of a connection, the sources that wait for throttles or close it, TLS and its references;
    it is not used after it is freed and every operation is completed once, the only step that can crash
    is giving it another socket (\<open>second_socket\<close>), a connection that is hung up closes, what is read from a socket is in order.
  \<^item> \<open>Web_Service\<close>, \<open>Web_Properties\<close>: \<open>evd-service.c\<close>, \<open>evd-web-service.c\<close>, \<open>evd-web-selector.c\<close> and the
    functions of \<open>evd-http-request.c\<close> on origins. Services hand connections to each other and lose no
    pointer, under the events that can happen (\<open>web_possible\<close>) without those that the code relies on not
    to happen (\<open>web_spared\<close>), requests of foreign origins are not handled, a request goes to the service that matches
    and the connection comes back.

  \<^bold>\<open>How the code is modelled.\<close> A struct is a record, an enumeration a datatype, a C function one
  definition of the same name; a loop is a recursive function that carries the name of its
  function and a word for the loop. Machine integers are words where their width matters (frame
  headers, lengths, throttles, chunk sizes). Errors of GIO are the values of \<open>gio_error\<close>. An access
  out of bounds, the use of a freed object, a NULL call or a failed assertion is \<^term>\<open>None\<close>. What the
  environment decides (the outcome of a base stream, the clock, the random numbers, what libsoup
  says of headers, what a callback does) is an argument. Events that can be observed go to a log.

  \<^bold>\<open>Bounds and fuel.\<close> Closing a peer is a mutual recursion between peer, transport and manager that
  flags cut off; \<open>close_fuel\<close> is 8 calls, and the property on closing in \<open>Peer\<close> shows that it is enough.
  Streams and groups call each other in the same way; \<open>group_fuel\<close> is 6 calls, and the property on
  well-formedness in \<open>Connection_Pool\<close> shows that every event completes with it. Closing a socket calls
  back into the socket; \<open>socket_close_fuel\<close> shows that two calls are enough. Services hand a connection to
  each other at most once each, so \<open>web_fuel\<close> is their number and two more (\<open>web_fuel_enough\<close>,
  \<open>dispatch_works\<close>). The search for the end of headers and the loop of the client in the browser can run for ever:
  they are partial functions, \<^term>\<open>None\<close> means that they do not end, and where they end is proved. All other recursion is structural or has a measure. The JSON filter has the
  stack of the code, 128 modes; a text nested deeper is rejected, as in the code. The reader of
  WebSocket frames and the chunked decoder end because every step consumes a byte or changes the
  state of the reader.

  \<^bold>\<open>What the code gets wrong.\<close> Where the code does not do what it means to do, a theorem shows it
  on the model: the properties on errors, and these lemmas.

  \<^item> JSON: \<open>json_rejected_bytes_leak\<close>, \<open>json_signed_char_rejects_utf8\<close>, \<open>json_number_divergence\<close>.
  \<^item> WebSockets: \<open>websocket_unbound_frame_crashes\<close>, \<open>websocket_control_frame_closes\<close>,
    \<open>websocket_send_ignores_write_errors\<close>, \<open>websocket_double_close\<close>.
  \<^item> Streams: \<open>throttled_write_signals_twice\<close>, \<open>throttled_dispose_twice\<close>, \<open>throttle_latency_violated\<close>,
    \<open>buffered_output_would_block_flush\<close>, \<open>buffered_output_sync_flush_partial\<close>.
  \<^item> HTTP: \<open>chunked_extension_error\<close>, \<open>chunked_header_overflow\<close>, \<open>http_request_line_hangs\<close>,
    \<open>http_content_loses_crlf\<close>, \<open>http_short_first_read\<close>, \<open>http_last_block_truncated\<close>,
    \<open>http_empty_content_pending\<close>, \<open>http_failed_headers_pending\<close>, \<open>http_read_content_chunked_crash\<close>,
    \<open>http_read_content_stale_count\<close>, \<open>http_no_host_no_path\<close>.
  \<^item> Promises: \<open>promise_callback_double_free\<close>, \<open>promise_late_user_data\<close>, \<open>promise_listener_leak\<close>,
    \<open>promise_idle_use_after_free\<close>.
  \<^item> Peers: \<open>peer_announce_use_after_free\<close>, \<open>manager_close_use_after_free\<close>,
    \<open>late_accept_use_after_free\<close>, \<open>lookup_source_outlives_manager\<close>.
  \<^item> Long polling: \<open>longpolling_loses_message\<close>, \<open>longpolling_long_header\<close>, \<open>longpolling_over_read\<close>,
    \<open>longpolling_stale_peer_id\<close>.
  \<^item> JSON-RPC: \<open>jsonrpc_response_drops_invocation\<close>, \<open>jsonrpc_any_peer_responds\<close>, \<open>jsonrpc_null_result\<close>,
    \<open>jsonrpc_ignores_size\<close>.
  \<^item> Connection pool: \<open>pool_tls_failure_starves\<close>, \<open>pool_recycle_refused\<close>,
    \<open>pool_offers_closed_connection\<close>, \<open>pool_retry_use_after_free\<close>, \<open>pool_autostart_twice_closes\<close>,
    \<open>pool_set_group_ignored\<close>, \<open>destroyed_group_throttle\<close>.
  \<^item> Polling: \<open>poll_start_failure_locks\<close>, \<open>poll_stop_before_loop\<close>, \<open>poll_refcount_mistaken\<close>,
    \<open>poll_closed_fd_leaks\<close>.
  \<^item> Sockets: \<open>socket_listen_failure_succeeds\<close>, \<open>socket_stale_resolution\<close>,
    \<open>socket_closed_while_connecting\<close>, \<open>socket_bound_without_socket\<close>,
    \<open>socket_failed_connect_keeps_family\<close>.
  \<^item> Connections: \<open>socket_read_overruns\<close>, \<open>socket_byte_crosses_over\<close>, \<open>tls_connection_not_reused\<close>,
    \<open>second_socket_uses_freed_address\<close>, \<open>delayed_close_survives\<close>, \<open>forgotten_source_closes\<close>,
    \<open>locked_connection_closed\<close>.
  \<^item> Services: \<open>service_pending_undecided\<close>, \<open>service_rejection_lost\<close>, \<open>service_tls_use_after_free\<close>,
    \<open>service_shared_listener\<close>, \<open>service_set_group_ignored\<close>.
  \<^item> Web services: \<open>web_prefix_origin_trusted\<close>, \<open>web_bad_uri_crashes\<close>, \<open>web_failed_read_stays_open\<close>,
    \<open>web_remove_service_corrupts\<close>, \<open>web_selector_circle\<close>.

  \<^bold>\<open>Not modelled.\<close> The main loop and the system calls (arguments of the model); TLS, PKI and D-Bus
  (wrappers of GnuTLS and GDBus); the parsing of headers and URIs (libsoup); files over
  HTTP, the reverse proxy, the bindings of WebSockets to peers and the daemon; the rest of the JavaScript
  client and the Python bindings.
\<close>

end
